(* ===== verification/Prelude.thy ===== *)
theory Prelude
  imports Main "HOL-Library.Word" "HOL-Library.Sublist"
begin

text \<open>
  Shared vocabulary of the development.

  \<^item> Python \<open>bytes\<close> are lists of 8-bit words, Python \<open>str\<close> values are lists of Unicode code
    points; \<open>U\<close> turns an Isabelle string literal into such a list.
  \<^item> Exceptions are values of \<open>py_error\<close>, a fallible operation returns \<open>py_error + 'a\<close>.
  \<^item> \<open>to_be\<close> and \<open>from_be\<close> are \<open>int.to_bytes\<close>/\<open>struct.pack\<close> and \<open>int.from_bytes\<close> in network
    order; \<open>slice\<close> is \<open>data[a:b]\<close> for non-negative bounds.
  \<^item> \<open>odict\<close> is Python's insertion-ordered dictionary (and \<open>OrderedDict\<close>).
  \<^item> the collections \<open>be_simps\<close> and \<open>od_simps\<close> hold the rewrite rules component proofs share.
\<close>

named_theorems be_simps "big-endian encoding and decoding"
named_theorems od_simps "insertion-ordered dictionaries"

section \<open>Types\<close>

type_synonym byte = "8 word"
type_synonym bytes = "byte list"
type_synonym pystr = "nat list"
type_synonym ('k, 'v) odict = "('k \<times> 'v) list"

datatype py_error =
    ValueError | IndexError | KeyError | TypeError | AttributeError | NameError | StructError
  | UnicodeError | IncompleteRead | LimitOverrun | TimeoutErr | EOFErr | OSErr | ConnectionErr
  | CryptoError | OverflowErr | SystemExitErr | QueueEmpty | HTTPErr nat string

definition U :: "string \<Rightarrow> pystr" where
  "U s = map of_char s"

lemma U_eq_iff [simp]: "U a = U b \<longleftrightarrow> a = b"
  by (simp add: U_def inj_map_eq_map inj_def)

lemma U_Nil_iff [simp]: "U a = [] \<longleftrightarrow> a = []" "[] = U a \<longleftrightarrow> a = []"
  by (auto simp: U_def)

lemma U_append: "U (a @ b) = U a @ U b"
  by (simp add: U_def)

lemma length_U [simp]: "length (U a) = length a"
  by (simp add: U_def)

section \<open>Errors as values\<close>

definition bindE :: "'e + 'a \<Rightarrow> ('a \<Rightarrow> 'e + 'b) \<Rightarrow> 'e + 'b" where
  "bindE m f = (case m of Inl e \<Rightarrow> Inl e | Inr x \<Rightarrow> f x)"

lemma bindE_simps [simp]: "bindE (Inl e) f = Inl e" "bindE (Inr x) f = f x"
  by (simp_all add: bindE_def)

lemma bindE_Inr_iff: "bindE m f = Inr y \<longleftrightarrow> (\<exists>x. m = Inr x \<and> f x = Inr y)"
  by (cases m) auto

lemma bindE_Inl_iff: "bindE m f = Inl e \<longleftrightarrow> m = Inl e \<or> (\<exists>x. m = Inr x \<and> f x = Inl e)"
  by (cases m) auto

section \<open>Slices\<close>

definition slice :: "nat \<Rightarrow> nat \<Rightarrow> 'a list \<Rightarrow> 'a list" where
  "slice a b xs = take (b - a) (drop a xs)"

lemma length_slice [simp]: "length (slice a b xs) = min (b - a) (length xs - a)"
  by (simp add: slice_def min.commute)

lemma slice_full: "length xs \<le> b \<Longrightarrow> slice 0 b xs = xs"
  by (simp add: slice_def)

lemma slice_append_left: "b \<le> length xs \<Longrightarrow> slice a b (xs @ ys) = slice a b xs"
  by (simp add: slice_def)

lemma slice_append_right:
  "length xs \<le> a \<Longrightarrow> slice a b (xs @ ys) = slice (a - length xs) (b - length xs) ys"
  by (simp add: slice_def)

lemma slice_prefix: "length xs = a \<Longrightarrow> b = a + length ys \<Longrightarrow> slice a b (xs @ ys @ zs) = ys"
  by (simp add: slice_def)

lemma slice_drop: "slice a b (drop n xs) = slice (n + a) (n + b) xs"
  by (simp add: slice_def add.commute)

section \<open>Network byte order\<close>

fun to_be :: "nat \<Rightarrow> nat \<Rightarrow> bytes" where
  "to_be 0 n = []"
| "to_be (Suc k) n = of_nat (n div 256 ^ k) # to_be k n"

definition from_be :: "bytes \<Rightarrow> nat" where
  "from_be bs = foldl (\<lambda>a b. 256 * a + unat b) 0 bs"

text \<open>\<open>struct.pack\<close> of an unsigned field of \<open>k\<close> bytes raises \<open>struct.error\<close> out of range.\<close>

definition pack_be :: "nat \<Rightarrow> nat \<Rightarrow> py_error + bytes" where
  "pack_be k n = (if n < 256 ^ k then Inr (to_be k n) else Inl StructError)"

lemma length_to_be [simp]: "length (to_be k n) = k"
  by (induction k) auto

lemma from_be_Nil [simp, be_simps]: "from_be [] = 0"
  by (simp add: from_be_def)

lemma from_be_snoc [be_simps]: "from_be (xs @ [b]) = 256 * from_be xs + unat b"
  by (simp add: from_be_def)

lemma from_be_append [be_simps]:
  "from_be (xs @ ys) = from_be xs * 256 ^ length ys + from_be ys"
proof (induction ys rule: rev_induct)
  case Nil
  then show ?case by simp
next
  case (snoc y ys)
  then show ?case
    by (simp add: from_be_snoc append_assoc[symmetric] algebra_simps del: append_assoc)
qed

lemma from_be_Cons [be_simps]: "from_be (b # ys) = unat b * 256 ^ length ys + from_be ys"
  using from_be_append[of "[b]" ys] by (simp add: from_be_def)

lemma unat_byte_less [simp]: "unat (b::byte) < 256"
  using unsigned_less[of b] by simp

lemma from_be_less: "from_be bs < 256 ^ length bs"
proof (induction bs rule: rev_induct)
  case Nil
  then show ?case by simp
next
  case (snoc b bs)
  have "256 * from_be bs + unat b < 256 * (from_be bs + 1)" by simp
  also have "\<dots> \<le> 256 * 256 ^ length bs"
    using snoc by (intro mult_left_mono) auto
  finally show ?case by (simp add: from_be_snoc)
qed

lemma from_be_to_be [be_simps]: "from_be (to_be k n) = n mod 256 ^ k"
proof (induction k)
  case 0
  then show ?case by simp
next
  case (Suc k)
  have head: "unat (of_nat (n div 256 ^ k) :: byte) = (n div 256 ^ k) mod 256"
    by (simp add: unat_of_nat)
  have "n mod 256 ^ Suc k = n mod (256 ^ k * 256)"
    by (simp add: mult.commute)
  also have "\<dots> = 256 ^ k * (n div 256 ^ k mod 256) + n mod 256 ^ k"
    by (rule mod_mult2_eq)
  finally show ?case
    by (simp only: to_be.simps from_be_Cons head length_to_be Suc) simp
qed

lemma from_be_to_be_id [simp]: "n < 256 ^ k \<Longrightarrow> from_be (to_be k n) = n"
  by (simp add: from_be_to_be)

lemma to_be_add: "j \<le> k \<Longrightarrow> to_be j (a * 256 ^ k + n) = to_be j n"
proof (induction j)
  case 0
  then show ?case by simp
next
  case (Suc j)
  then obtain d where k: "k = j + Suc d"
    by (metis add_Suc_right le_Suc_ex plus_nat.simps(2))
  have split: "a * 256 ^ k + n = n + (a * 256 ^ d * 256) * 256 ^ j"
    by (simp add: k power_add algebra_simps)
  have "(a * 256 ^ k + n) div 256 ^ j = a * 256 ^ d * 256 + n div 256 ^ j"
    unfolding split by (rule div_mult_self1) simp
  moreover have "(of_nat (a * 256 ^ d * 256) :: byte) = 0"
    by (simp only: word_of_nat_eq_0_iff) simp
  ultimately have "(of_nat ((a * 256 ^ k + n) div 256 ^ j) :: byte) = of_nat (n div 256 ^ j)"
    by (simp only: of_nat_add) simp
  then show ?case using Suc by simp
qed

lemma to_be_from_be [be_simps]: "to_be (length bs) (from_be bs) = bs"
proof (induction bs)
  case Nil
  then show ?case by simp
next
  case (Cons b bs)
  have "(unat b * 256 ^ length bs + from_be bs) div 256 ^ length bs = unat b"
    using from_be_less[of bs] by simp
  then show ?case
    using Cons by (simp add: from_be_Cons to_be_add del: div_mult_self1 div_mult_self2)
qed

lemma to_be_Suc_0 [simp]: "to_be (Suc 0) n = [of_nat n]"
  by simp

text \<open>Evaluation of the encoders on numerals, for concrete inputs.\<close>

lemma to_be_numeral: "to_be (numeral k) n = of_nat (n div 256 ^ pred_numeral k) # to_be (pred_numeral k) n"
  by (simp only: numeral_eq_Suc to_be.simps)

lemmas eval_be = to_be_numeral pack_be_def slice_def

lemma pack_be_Inr_iff: "pack_be k n = Inr bs \<longleftrightarrow> n < 256 ^ k \<and> bs = to_be k n"
  by (auto simp: pack_be_def)

section \<open>Insertion-ordered dictionaries\<close>

text \<open>
  Assignment to a present key keeps its position, a new key goes to the end;
  \<open>move_to_end\<close> and \<open>popitem(last=False)\<close> are \<open>OrderedDict\<close>'s.
\<close>

definition od_get :: "('k, 'v) odict \<Rightarrow> 'k \<Rightarrow> 'v option" where
  "od_get d k = map_of d k"

definition od_mem :: "'k \<Rightarrow> ('k, 'v) odict \<Rightarrow> bool" where
  "od_mem k d = (k \<in> fst ` set d)"

fun od_set :: "'k \<Rightarrow> 'v \<Rightarrow> ('k, 'v) odict \<Rightarrow> ('k, 'v) odict" where
  "od_set k v [] = [(k, v)]"
| "od_set k v ((k', v') # d) = (if k = k' then (k, v) # d else (k', v') # od_set k v d)"

definition od_del :: "'k \<Rightarrow> ('k, 'v) odict \<Rightarrow> ('k, 'v) odict" where
  "od_del k d = filter (\<lambda>(k', v). k' \<noteq> k) d"

definition od_move_to_end :: "'k \<Rightarrow> ('k, 'v) odict \<Rightarrow> ('k, 'v) odict" where
  "od_move_to_end k d = (case od_get d k of None \<Rightarrow> d | Some v \<Rightarrow> od_del k d @ [(k, v)])"

definition od_keys :: "('k, 'v) odict \<Rightarrow> 'k list" where
  "od_keys d = map fst d"

definition od_ok :: "('k, 'v) odict \<Rightarrow> bool" where
  "od_ok d = distinct (map fst d)"

lemma od_mem_get [od_simps]: "od_mem k d \<longleftrightarrow> od_get d k \<noteq> None"
  by (force simp: od_mem_def od_get_def map_of_eq_None_iff)

lemma od_mem_simps [simp]: "\<not> od_mem k []" "od_mem k ((a, b) # d) \<longleftrightarrow> k = a \<or> od_mem k d"
  by (auto simp: od_mem_def)

lemma od_get_Nil [simp, od_simps]: "od_get [] k = None"
  by (simp add: od_get_def)

lemma od_get_set [simp, od_simps]: "od_get (od_set k v d) k' = (if k' = k then Some v else od_get d k')"
  by (induction d) (auto simp: od_get_def)

lemma od_get_del [simp, od_simps]: "od_get (od_del k d) k' = (if k' = k then None else od_get d k')"
  by (induction d) (auto simp: od_get_def od_del_def)

lemma od_get_append [od_simps]:
  "od_get (d @ e) k = (case od_get d k of None \<Rightarrow> od_get e k | Some v \<Rightarrow> Some v)"
  by (simp add: od_get_def map_add_def split: option.split)

lemma od_get_move [simp, od_simps]: "od_get (od_move_to_end k d) k' = od_get d k'"
  by (auto simp: od_move_to_end_def od_get_append split: option.split)
    (auto simp: od_get_def split: option.split)

lemma keys_od_set: "map fst (od_set k v d) = (if od_mem k d then map fst d else map fst d @ [k])"
  by (induction d) auto

lemma keys_od_del: "map fst (od_del k d) = filter (\<lambda>x. x \<noteq> k) (map fst d)"
  by (induction d) (auto simp: od_del_def)

lemma keys_od_move: "map fst (od_move_to_end k d) =
    (if od_mem k d then filter (\<lambda>x. x \<noteq> k) (map fst d) @ [k] else map fst d)"
  by (auto simp: od_move_to_end_def keys_od_del od_mem_get split: option.split)

lemma od_ok_Nil [simp]: "od_ok []"
  by (simp add: od_ok_def)

lemma od_ok_set [simp, intro]: "od_ok d \<Longrightarrow> od_ok (od_set k v d)"
  by (simp add: od_ok_def keys_od_set od_mem_def)

lemma od_ok_del [simp, intro]: "od_ok d \<Longrightarrow> od_ok (od_del k d)"
  by (simp add: od_ok_def keys_od_del)

lemma od_ok_move [simp, intro]: "od_ok d \<Longrightarrow> od_ok (od_move_to_end k d)"
  by (simp add: od_ok_def keys_od_move)

lemma od_ok_tl [simp, intro]: "od_ok d \<Longrightarrow> od_ok (tl d)"
  by (cases d) (auto simp: od_ok_def)

lemma od_ok_drop [simp, intro]: "od_ok d \<Longrightarrow> od_ok (drop n d)"
  by (simp add: od_ok_def drop_map[symmetric])

lemma length_od_set: "length (od_set k v d) = (if od_mem k d then length d else Suc (length d))"
  using arg_cong[OF keys_od_set[of k v d], of length] by (simp split: if_splits)

lemma length_od_del_le: "length (od_del k d) \<le> length d"
  by (simp add: od_del_def)

lemma length_filter_neq: "distinct xs \<Longrightarrow> k \<in> set xs \<Longrightarrow>
    Suc (length (filter (\<lambda>x. x \<noteq> k) xs)) = length xs"
proof (induction xs)
  case Nil
  then show ?case by simp
next
  case (Cons x xs)
  show ?case
  proof (cases "x = k")
    case True
    then have "filter (\<lambda>y. y \<noteq> k) xs = xs"
      using Cons.prems(1) by (auto intro: filter_True)
    then show ?thesis using True by simp
  next
    case False
    then show ?thesis using Cons by simp
  qed
qed

lemma length_od_move: "od_ok d \<Longrightarrow> length (od_move_to_end k d) = length d"
  using arg_cong[OF keys_od_move[of k d], of length] length_filter_neq[of "map fst d" k]
  by (auto simp: od_ok_def od_mem_def split: if_splits)

lemma od_get_drop:
  assumes "od_ok d" "od_get (drop n d) k = Some v"
  shows "od_get d k = Some v"
proof -
  have "(k, v) \<in> set (drop n d)"
    using assms(2) by (simp add: od_get_def map_of_SomeD)
  then have "(k, v) \<in> set d" by (rule in_set_dropD)
  then show ?thesis using assms(1) by (simp add: od_get_def od_ok_def)
qed


text \<open>The sum of a measure over a dictionary's values.\<close>

definition od_sum :: "('v \<Rightarrow> 'n::ab_group_add) \<Rightarrow> ('k, 'v) odict \<Rightarrow> 'n" where
  "od_sum f d = sum_list (map (\<lambda>(k, v). f v) d)"

lemma od_sum_Nil [simp]: "od_sum f [] = 0"
  by (simp add: od_sum_def)

lemma od_sum_nonneg:
  fixes f :: "'v \<Rightarrow> int"
  shows "(\<And>v. 0 \<le> f v) \<Longrightarrow> 0 \<le> od_sum f d"
  by (induction d) (auto simp: od_sum_def)

lemma od_sum_set_new: "od_get d k = None \<Longrightarrow> od_sum f (od_set k v d) = od_sum f d + f v"
  by (induction d) (auto simp: od_sum_def od_get_def split: if_splits)

lemma od_sum_set_old: "od_get d k = Some w \<Longrightarrow> od_sum f (od_set k v d) = od_sum f d - f w + f v"
  by (induction d) (auto simp: od_sum_def od_get_def split: if_splits)

lemma od_del_absent: "od_get d k = None \<Longrightarrow> od_del k d = d"
  by (induction d) (auto simp: od_get_def od_del_def split: if_splits)

lemma od_sum_del: "od_ok d \<Longrightarrow> od_get d k = Some w \<Longrightarrow> od_sum f (od_del k d) = od_sum f d - f w"
proof (induction d)
  case Nil
  then show ?case by simp
next
  case (Cons x d)
  obtain a b where x: "x = (a, b)" by (cases x)
  show ?case
  proof (cases "k = a")
    case True
    then have "od_get d k = None" using Cons.prems(1) by (simp add: x od_ok_def od_get_def map_of_eq_None_iff)
    then have "od_del k (x # d) = d" using od_del_absent[of d k] True by (simp add: x od_del_def)
    then show ?thesis using Cons.prems(2) True by (simp add: x od_sum_def od_get_def)
  next
    case False
    then have "od_sum f (od_del k d) = od_sum f d - f w"
      using Cons by (simp add: x od_ok_def od_get_def)
    then show ?thesis using False by (simp add: x od_sum_def od_del_def)
  qed
qed

lemmas od_sum_set = od_sum_set_new od_sum_set_old

end
