(* ===== verification/Text.thy ===== *)
theory Text
  imports Prelude
begin

text \<open>
  The text operations of Python the sources use: ASCII case mapping, \<open>strip\<close>, \<open>split\<close>,
  \<open>partition\<close>, \<open>find\<close>, \<open>int()\<close>, decimal formatting, and the codecs \<open>ascii\<close> (errors=replace),
  \<open>latin-1\<close> and \<open>utf-8\<close> (strict and errors=replace).

  Case mapping is modelled on ASCII letters only: host names, header names and keywords are ASCII
  in this program; a code point outside ASCII is left alone.
\<close>

section \<open>Case, whitespace, prefixes\<close>

definition lower1 :: "nat \<Rightarrow> nat" where
  "lower1 c = (if 65 \<le> c \<and> c \<le> 90 then c + 32 else c)"

definition upper1 :: "nat \<Rightarrow> nat" where
  "upper1 c = (if 97 \<le> c \<and> c \<le> 122 then c - 32 else c)"

definition py_lower :: "pystr \<Rightarrow> pystr" where
  "py_lower = map lower1"

definition py_upper :: "pystr \<Rightarrow> pystr" where
  "py_upper = map upper1"

definition is_space :: "nat \<Rightarrow> bool" where
  "is_space c = ((9 \<le> c \<and> c \<le> 13) \<or> (28 \<le> c \<and> c \<le> 32) \<or> c = 133 \<or> c = 160 \<or> c = 5760
     \<or> (8192 \<le> c \<and> c \<le> 8202) \<or> c = 8232 \<or> c = 8233 \<or> c = 8239 \<or> c = 8287 \<or> c = 12288)"

definition rdropWhile :: "('a \<Rightarrow> bool) \<Rightarrow> 'a list \<Rightarrow> 'a list" where
  "rdropWhile p xs = rev (dropWhile p (rev xs))"

definition strip_with :: "('a \<Rightarrow> bool) \<Rightarrow> 'a list \<Rightarrow> 'a list" where
  "strip_with p xs = rdropWhile p (dropWhile p xs)"

definition py_strip :: "pystr \<Rightarrow> pystr" where
  "py_strip = strip_with is_space"

lemma lower1_idem [simp]: "lower1 (lower1 c) = lower1 c"
  by (simp add: lower1_def)

lemma py_lower_idem [simp]: "py_lower (py_lower s) = py_lower s"
  by (simp add: py_lower_def o_def)

lemma py_lower_Nil [simp]: "py_lower [] = []"
  by (simp add: py_lower_def)

lemma length_py_lower [simp]: "length (py_lower s) = length s"
  by (simp add: py_lower_def)

lemma py_lower_append: "py_lower (a @ b) = py_lower a @ py_lower b"
  by (simp add: py_lower_def)

lemma rdropWhile_idem [simp]: "rdropWhile p (rdropWhile p xs) = rdropWhile p xs"
  by (simp add: rdropWhile_def)

lemma rdropWhile_snoc: "rdropWhile p (xs @ [x]) = (if p x then rdropWhile p xs else xs @ [x])"
  by (simp add: rdropWhile_def)

lemma rdropWhile_id: "xs = [] \<or> \<not> p (last xs) \<Longrightarrow> rdropWhile p xs = xs"
  by (cases xs rule: rev_cases) (auto simp: rdropWhile_def)

lemma prefix_rdropWhile: "prefix (rdropWhile p xs) xs"
  by (metis rdropWhile_def suffix_dropWhile suffix_to_prefix rev_rev_ident)

section \<open>Searching and splitting\<close>

text \<open>\<open>find_sub pat s\<close> is \<open>s.find(pat)\<close>, with \<open>None\<close> for \<open>-1\<close>.\<close>

fun find_sub :: "'a list \<Rightarrow> 'a list \<Rightarrow> nat option" where
  "find_sub pat [] = (if pat = [] then Some 0 else None)"
| "find_sub pat (x # xs) =
     (if prefix pat (x # xs) then Some 0 else map_option Suc (find_sub pat xs))"

definition find_from :: "'a list \<Rightarrow> nat \<Rightarrow> 'a list \<Rightarrow> nat option" where
  "find_from pat a s = map_option (\<lambda>i. i + a) (find_sub pat (drop a s))"

definition contains :: "'a list \<Rightarrow> 'a list \<Rightarrow> bool" where
  "contains pat s = (find_sub pat s \<noteq> None)"

fun split_char :: "'a \<Rightarrow> 'a list \<Rightarrow> 'a list list" where
  "split_char c [] = [[]]"
| "split_char c (x # xs) =
     (if x = c then [] # split_char c xs
      else case split_char c xs of [] \<Rightarrow> [[x]] | w # ws \<Rightarrow> (x # w) # ws)"

text \<open>\<open>s.split(c, n)\<close>: at most \<open>n\<close> cuts.\<close>

fun split_max :: "'a \<Rightarrow> nat \<Rightarrow> 'a list \<Rightarrow> 'a list list" where
  "split_max c n [] = [[]]"
| "split_max c 0 (x # xs) = [x # xs]"
| "split_max c (Suc n) (x # xs) =
     (if x = c then [] # split_max c n xs
      else case split_max c (Suc n) xs of [] \<Rightarrow> [[x]] | w # ws \<Rightarrow> (x # w) # ws)"

text \<open>\<open>s.split(sep)\<close> with a separator of several characters.\<close>

function split_sub :: "'a list \<Rightarrow> 'a list \<Rightarrow> 'a list list" where
  "split_sub sep s = (if sep = [] then [s] else case find_sub sep s of None \<Rightarrow> [s]
     | Some i \<Rightarrow> take i s # split_sub sep (drop (i + length sep) s))"
  by pat_completeness auto
termination
proof (relation "measure (\<lambda>(sep, s). length s)")
  fix sep s :: "'a list" and i
  assume "sep \<noteq> []" "find_sub sep s = Some i"
  moreover have "find_sub sep [] = None" if "sep \<noteq> []" using that by simp
  ultimately have "s \<noteq> []" by auto
  with \<open>sep \<noteq> []\<close> show "((sep, drop (i + length sep) s), sep, s) \<in> measure (\<lambda>(sep, s). length s)"
    by simp
qed simp

declare split_sub.simps [simp del]

text \<open>\<open>partition c s\<close>: the part before the first \<open>c\<close> and the part after it, \<open>None\<close> without one.\<close>

definition partition1 :: "'a \<Rightarrow> 'a list \<Rightarrow> ('a list \<times> 'a list) option" where
  "partition1 c s = (if c \<in> set s then
      Some (takeWhile (\<lambda>x. x \<noteq> c) s, tl (dropWhile (\<lambda>x. x \<noteq> c) s)) else None)"

definition rpartition1 :: "'a \<Rightarrow> 'a list \<Rightarrow> ('a list \<times> 'a list) option" where
  "rpartition1 c s = map_option (\<lambda>(b, a). (rev a, rev b)) (partition1 c (rev s))"

definition join_with :: "'a list \<Rightarrow> 'a list list \<Rightarrow> 'a list" where
  "join_with sep ws = (case ws of [] \<Rightarrow> [] | w # vs \<Rightarrow> w @ concat (map (\<lambda>v. sep @ v) vs))"

lemma split_char_single [simp]: "c \<notin> set s \<Longrightarrow> split_char c s = [s]"
  by (induction s) auto

lemma split_char_nonempty [simp]: "split_char c s \<noteq> []"
  by (induction s) (auto split: list.splits)

lemma split_char_Cons: "split_char c (a @ c # b) = split_char c a @ split_char c b"
  by (induction a) (auto split: list.split)

lemma find_sub_Some:
  "find_sub pat s = Some i \<Longrightarrow> i + length pat \<le> length s \<and> slice i (i + length pat) s = pat"
proof (induction s arbitrary: i)
  case Nil
  then show ?case by (auto simp: slice_def split: if_splits)
next
  case (Cons x xs)
  show ?case
  proof (cases "prefix pat (x # xs)")
    case True
    then show ?thesis
      using Cons.prems prefix_length_le[OF True] by (auto simp: slice_def prefix_def)
  next
    case False
    then obtain j where "find_sub pat xs = Some j" "i = Suc j" using Cons.prems by auto
    then show ?thesis using Cons.IH[of j] by (simp add: slice_def)
  qed
qed

lemma find_sub_first:
  "find_sub pat s = Some i \<Longrightarrow> j < i \<Longrightarrow> \<not> prefix pat (drop j s)"
proof (induction s arbitrary: i j)
  case Nil
  then show ?case by (auto split: if_splits)
next
  case (Cons x xs)
  then show ?case
    by (cases j) (auto split: if_splits)
qed

lemma find_sub_None: "find_sub pat s = None \<longleftrightarrow> \<not> sublist pat s"
  by (induction s) (auto simp: sublist_Cons_right)

lemma contains_sublist: "contains pat s \<longleftrightarrow> sublist pat s"
  by (simp add: contains_def find_sub_None)

lemma find_subI:
  assumes "prefix pat (drop i s)" "\<And>j. j < i \<Longrightarrow> \<not> prefix pat (drop j s)" "i \<le> length s"
  shows "find_sub pat s = Some i"
  using assms
proof (induction s arbitrary: i)
  case Nil
  then show ?case by simp
next
  case (Cons x xs)
  show ?case
  proof (cases i)
    case 0
    then show ?thesis using Cons.prems by simp
  next
    case (Suc k)
    have "find_sub pat xs = Some k"
    proof (rule Cons.IH)
      show "prefix pat (drop k xs)" using Cons.prems(1) Suc by simp
      show "\<not> prefix pat (drop j xs)" if "j < k" for j
        using Cons.prems(2)[of "Suc j"] that Suc by simp
      show "k \<le> length xs" using Cons.prems(3) Suc by simp
    qed
    moreover have "\<not> prefix pat (x # xs)" using Cons.prems(2)[of 0] Suc by simp
    ultimately show ?thesis using Suc by simp
  qed
qed

lemma partition1_append [simp]: "c \<notin> set a \<Longrightarrow> partition1 c (a @ c # b) = Some (a, b)"
  by (auto simp: partition1_def takeWhile_append dropWhile_append)

lemma rpartition1_append [simp]: "c \<notin> set b \<Longrightarrow> rpartition1 c (a @ c # b) = Some (a, b)"
  by (simp add: rpartition1_def)

lemma partition1_None [simp]: "c \<notin> set a \<Longrightarrow> partition1 c a = None"
  by (simp add: partition1_def)

lemma rpartition1_None [simp]: "c \<notin> set a \<Longrightarrow> rpartition1 c a = None"
  by (simp add: rpartition1_def)

section \<open>Codecs\<close>

text \<open>\<open>decode("ascii", errors="replace")\<close>, \<open>decode("ascii")\<close>, \<open>decode("latin-1")\<close> and back.\<close>

definition ascii_replace :: "bytes \<Rightarrow> pystr" where
  "ascii_replace bs = map (\<lambda>b. if unat b < 128 then unat b else 0xFFFD) bs"

definition ascii_decode :: "bytes \<Rightarrow> py_error + pystr" where
  "ascii_decode bs = (if list_all (\<lambda>b. unat b < 128) bs then Inr (map unat bs) else Inl UnicodeError)"

definition latin1_decode :: "bytes \<Rightarrow> pystr" where
  "latin1_decode bs = map unat bs"

definition ascii_encode :: "pystr \<Rightarrow> py_error + bytes" where
  "ascii_encode s = (if list_all (\<lambda>c. c < 128) s then Inr (map of_nat s) else Inl UnicodeError)"

definition ascii_encode_replace :: "pystr \<Rightarrow> bytes" where
  "ascii_encode_replace s = map (\<lambda>c. if c < 128 then of_nat c else 63) s"

definition latin1_encode :: "pystr \<Rightarrow> py_error + bytes" where
  "latin1_encode s = (if list_all (\<lambda>c. c < 256) s then Inr (map of_nat s) else Inl UnicodeError)"

definition B :: "string \<Rightarrow> bytes" where
  "B s = map of_char s"

lemma length_ascii_replace [simp]: "length (ascii_replace bs) = length bs"
  by (simp add: ascii_replace_def)

text \<open>
  \<open>utf8_cp\<close> encodes one code point as a list of byte values; surrogates and values above
  U+10FFFF do not encode (\<open>UnicodeEncodeError\<close>).
\<close>

definition utf8_cp :: "nat \<Rightarrow> nat list option" where
  "utf8_cp c =
     (if c < 0x80 then Some [c]
      else if c < 0x800 then Some [0xC0 + c div 64, 0x80 + c mod 64]
      else if 0xD800 \<le> c \<and> c \<le> 0xDFFF then None
      else if c < 0x10000 then Some [0xE0 + c div 4096, 0x80 + c div 64 mod 64, 0x80 + c mod 64]
      else if c < 0x110000 then
        Some [0xF0 + c div 262144, 0x80 + c div 4096 mod 64, 0x80 + c div 64 mod 64, 0x80 + c mod 64]
      else None)"

fun utf8_encode :: "pystr \<Rightarrow> py_error + bytes" where
  "utf8_encode [] = Inr []"
| "utf8_encode (c # cs) =
     (case utf8_cp c of None \<Rightarrow> Inl UnicodeError
      | Some ns \<Rightarrow> bindE (utf8_encode cs) (\<lambda>bs. Inr (map of_nat ns @ bs)))"

text \<open>
  One decoding step on a non-empty input: the code point (\<open>None\<close> for an ill-formed sequence, which
  \<open>errors="replace"\<close> turns into one U+FFFD per maximal subpart) and the number of bytes it takes.
\<close>

definition is_cont :: "nat \<Rightarrow> bool" where
  "is_cont n = (0x80 \<le> n \<and> n \<le> 0xBF)"

definition second_ok :: "nat \<Rightarrow> nat \<Rightarrow> bool" where
  "second_ok a b =
     (if a = 0xE0 then 0xA0 \<le> b \<and> b \<le> 0xBF
      else if a = 0xED then 0x80 \<le> b \<and> b \<le> 0x9F
      else if a = 0xF0 then 0x90 \<le> b \<and> b \<le> 0xBF
      else if a = 0xF4 then 0x80 \<le> b \<and> b \<le> 0x8F
      else is_cont b)"

definition utf8_next :: "nat \<Rightarrow> nat list \<Rightarrow> nat option \<times> nat" where
  "utf8_next a rest =
     (if a < 0x80 then (Some a, 1)
      else if 0xC2 \<le> a \<and> a \<le> 0xDF then
        (case rest of b # _ \<Rightarrow> if is_cont b then (Some ((a - 0xC0) * 64 + (b - 0x80)), 2) else (None, 1)
         | [] \<Rightarrow> (None, 1))
      else if 0xE0 \<le> a \<and> a \<le> 0xEF then
        (case rest of
           b # c # _ \<Rightarrow> if \<not> second_ok a b then (None, 1) else if \<not> is_cont c then (None, 2)
             else (Some ((a - 0xE0) * 4096 + (b - 0x80) * 64 + (c - 0x80)), 3)
         | [b] \<Rightarrow> if second_ok a b then (None, 2) else (None, 1)
         | [] \<Rightarrow> (None, 1))
      else if 0xF0 \<le> a \<and> a \<le> 0xF4 then
        (case rest of
           b # c # d # _ \<Rightarrow> if \<not> second_ok a b then (None, 1) else if \<not> is_cont c then (None, 2)
             else if \<not> is_cont d then (None, 3)
             else (Some ((a - 0xF0) * 262144 + (b - 0x80) * 4096 + (c - 0x80) * 64 + (d - 0x80)), 4)
         | [b, c] \<Rightarrow> if \<not> second_ok a b then (None, 1) else if \<not> is_cont c then (None, 2) else (None, 3)
         | [b] \<Rightarrow> if second_ok a b then (None, 2) else (None, 1)
         | [] \<Rightarrow> (None, 1))
      else (None, 1))"

fun utf8_run :: "nat list \<Rightarrow> nat option list" where
  "utf8_run [] = []"
| "utf8_run (a # rest) = fst (utf8_next a rest) # utf8_run (drop (snd (utf8_next a rest) - 1) rest)"

definition utf8_replace :: "bytes \<Rightarrow> pystr" where
  "utf8_replace bs = map (\<lambda>c. case c of None \<Rightarrow> 0xFFFD | Some n \<Rightarrow> n) (utf8_run (map unat bs))"

definition utf8_decode :: "bytes \<Rightarrow> py_error + pystr" where
  "utf8_decode bs = (let r = utf8_run (map unat bs) in
     if None \<in> set r then Inl UnicodeError else Inr (map the r))"

lemma utf8_cp_bytes: "utf8_cp c = Some ns \<Longrightarrow> \<forall>n \<in> set ns. n < 256"
  by (auto simp: utf8_cp_def split: if_splits)

lemma split_base64_3: "(c::nat) = c div 4096 * 4096 + c div 64 mod 64 * 64 + c mod 64"
proof -
  have "c div 4096 = c div 64 div 64" using div_mult2_eq[of c 64 64] by simp
  then show ?thesis
    using div_mult_mod_eq[of c 64] div_mult_mod_eq[of "c div 64" 64] by linarith
qed

lemma split_base64_4:
  "(c::nat) = c div 262144 * 262144 + c div 4096 mod 64 * 4096 + c div 64 mod 64 * 64 + c mod 64"
proof -
  have "c div 262144 = c div 4096 div 64" using div_mult2_eq[of c 4096 64] by simp
  then show ?thesis
    using split_base64_3[of c] div_mult_mod_eq[of "c div 4096" 64] by linarith
qed

lemma utf8_next_cp:
  assumes "utf8_cp c = Some ns"
  shows "utf8_next (hd ns) (tl ns @ rest) = (Some c, length ns) \<and> ns \<noteq> []"
proof -
  consider (a) "c < 0x80" | (b) "0x80 \<le> c" "c < 0x800"
    | (c) "0x800 \<le> c" "c < 0x10000" "\<not> (0xD800 \<le> c \<and> c \<le> 0xDFFF)"
    | (d) "0x10000 \<le> c" "c < 0x110000"
    using assms by (fastforce simp: utf8_cp_def split: if_splits)
  then show ?thesis
  proof cases
    case a
    then show ?thesis using assms by (auto simp: utf8_cp_def utf8_next_def)
  next
    case b
    then have "2 \<le> c div 64" "c div 64 < 32" by auto
    then show ?thesis using assms b by (auto simp: utf8_cp_def utf8_next_def is_cont_def)
  next
    case c
    let ?x = "c div 4096" and ?y = "c div 64 mod 64"
    have x: "?x < 16" using c by auto
    have eq: "c = ?x * 4096 + ?y * 64 + c mod 64" by (rule split_base64_3)
    have r: "c mod 64 < 64" by simp
    have "?x = 0 \<Longrightarrow> 32 \<le> ?y" using c(1) eq r by linarith
    moreover have "?x = 13 \<Longrightarrow> ?y < 32"
    proof -
      assume "?x = 13"
      then have "c = 53248 + ?y * 64 + c mod 64" using eq by linarith
      moreover have "c < 0xD800 \<or> 0xE000 \<le> c" using c(3) by linarith
      moreover have "?y < 64" by simp
      ultimately show "?y < 32" using r by linarith
    qed
    ultimately have "second_ok (0xE0 + ?x) (0x80 + ?y)"
      using x by (auto simp: second_ok_def is_cont_def)
    moreover have "ns = [0xE0 + ?x, 0x80 + ?y, 0x80 + c mod 64]"
      using assms c by (auto simp: utf8_cp_def split: if_splits)
    ultimately show ?thesis using x eq by (simp add: utf8_next_def is_cont_def)
  next
    case d
    let ?x = "c div 262144" and ?y = "c div 4096 mod 64" and ?z = "c div 64 mod 64"
    have x: "?x < 5" using d by auto
    have eq: "c = ?x * 262144 + ?y * 4096 + ?z * 64 + c mod 64" by (rule split_base64_4)
    have r: "c mod 64 < 64" "?z < 64" by simp_all
    have "?x = 0 \<Longrightarrow> 16 \<le> ?y" using d(1) eq r by linarith
    moreover have "?x = 4 \<Longrightarrow> ?y < 16" using d(2) eq r by linarith
    ultimately have "second_ok (0xF0 + ?x) (0x80 + ?y)"
      using x by (auto simp: second_ok_def is_cont_def)
    moreover have "ns = [0xF0 + ?x, 0x80 + ?y, 0x80 + ?z, 0x80 + c mod 64]"
      using assms d by (auto simp: utf8_cp_def split: if_splits)
    moreover have "c mod 64 \<le> 63" "?z \<le> 63" using r by linarith+
    ultimately show ?thesis using x eq by (simp add: utf8_next_def is_cont_def)
  qed
qed

lemma utf8_run_cp:
  assumes "utf8_cp c = Some ns"
  shows "utf8_run (ns @ rest) = Some c # utf8_run rest"
proof -
  obtain a t where ns: "ns = a # t" using utf8_next_cp[OF assms, of rest] by (cases ns) auto
  have "utf8_next a (t @ rest) = (Some c, Suc (length t))"
    using utf8_next_cp[OF assms, of rest] ns by simp
  then show ?thesis by (simp add: ns)
qed

lemma map_unat_of_nat: "\<forall>n \<in> set ns. n < 256 \<Longrightarrow> map (unat \<circ> (of_nat :: nat \<Rightarrow> byte)) ns = ns"
  by (induction ns) (auto simp: unat_of_nat)

lemma utf8_run_encode:
  "utf8_encode s = Inr bs \<Longrightarrow> utf8_run (map unat bs) = map Some s"
proof (induction s arbitrary: bs)
  case Nil
  then show ?case by simp
next
  case (Cons c cs)
  then obtain ns tl where ns: "utf8_cp c = Some ns" and tl: "utf8_encode cs = Inr tl"
    and bs: "bs = map of_nat ns @ tl"
    by (auto simp: bindE_Inr_iff split: option.splits)
  have "map unat bs = ns @ map unat tl"
    using map_unat_of_nat[OF utf8_cp_bytes[OF ns]] by (simp add: bs)
  then show ?case using utf8_run_cp[OF ns] Cons.IH[OF tl] by simp
qed

lemma utf8_decode_encode: "utf8_encode s = Inr bs \<Longrightarrow> utf8_decode bs = Inr s"
  by (auto simp: utf8_decode_def utf8_run_encode Let_def o_def)

lemma utf8_encode_ascii: "\<forall>c \<in> set s. c < 128 \<Longrightarrow> utf8_encode s = Inr (map of_nat s)"
  by (induction s) (auto simp: utf8_cp_def)

section \<open>Numbers in text\<close>

text \<open>
  \<open>int(s, base)\<close> for base 10 and 16: surrounding whitespace, an optional sign, an optional
  \<open>0x\<close> in base 16, digits with single underscores between them. (Non-ASCII decimal digits,
  which \<open>int\<close> of a \<open>str\<close> also takes, are not digits here.)
\<close>

definition digit_val :: "nat \<Rightarrow> nat option" where
  "digit_val c =
     (if 48 \<le> c \<and> c \<le> 57 then Some (c - 48)
      else if 97 \<le> c \<and> c \<le> 122 then Some (c - 87)
      else if 65 \<le> c \<and> c \<le> 90 then Some (c - 55) else None)"

definition base_digit :: "nat \<Rightarrow> nat \<Rightarrow> nat option" where
  "base_digit base c = (case digit_val c of None \<Rightarrow> None | Some d \<Rightarrow> if d < base then Some d else None)"

fun digits_val :: "nat \<Rightarrow> nat \<Rightarrow> pystr \<Rightarrow> nat option" where
  "digits_val base acc [] = Some acc"
| "digits_val base acc [c] =
     (case base_digit base c of None \<Rightarrow> None | Some d \<Rightarrow> Some (acc * base + d))"
| "digits_val base acc (c # c' # cs) =
     (case base_digit base c of None \<Rightarrow> None
      | Some d \<Rightarrow>
         if c' = 95 then (if cs = [] then None else digits_val base (acc * base + d) cs)
         else digits_val base (acc * base + d) (c' # cs))"

definition parse_digits :: "nat \<Rightarrow> pystr \<Rightarrow> nat option" where
  "parse_digits base s = (if s = [] then None else digits_val base 0 s)"

definition strip_0x :: "pystr \<Rightarrow> pystr" where
  "strip_0x s = (case s of
      a # b # t \<Rightarrow> if a = 48 \<and> (b = 120 \<or> b = 88) then
          (case t of c # u \<Rightarrow> if c = 95 then u else t | [] \<Rightarrow> t) else s
    | _ \<Rightarrow> s)"

definition py_int :: "nat \<Rightarrow> pystr \<Rightarrow> int option" where
  "py_int base s = (let t = py_strip s;
       (neg, body) = (case t of c # u \<Rightarrow> if c = 45 then (True, u) else if c = 43 then (False, u) else (False, t)
                      | [] \<Rightarrow> (False, []));
       body = (if base = 16 then strip_0x body else body)
     in map_option (\<lambda>n. if neg then - int n else int n) (parse_digits base body))"

text \<open>Decimal formatting, \<open>str(n)\<close>.\<close>

fun show_nat :: "nat \<Rightarrow> pystr" where
  "show_nat n = (if n < 10 then [48 + n] else show_nat (n div 10) @ [48 + n mod 10])"

declare show_nat.simps [simp del]

definition show_int :: "int \<Rightarrow> pystr" where
  "show_int i = (if i < 0 then 45 # show_nat (nat (- i)) else show_nat (nat i))"

lemma show_nat_digits: "\<forall>c \<in> set (show_nat n). 48 \<le> c \<and> c \<le> 57"
proof (induction n rule: show_nat.induct)
  case (1 n)
  then show ?case by (subst show_nat.simps) auto
qed

lemma show_nat_nonempty: "show_nat n \<noteq> []"
  by (subst show_nat.simps) simp

lemma digit_base: "48 \<le> c \<Longrightarrow> c \<le> 57 \<Longrightarrow> base_digit 10 c = Some (c - 48)"
  by (auto simp: base_digit_def digit_val_def)

lemma digits_val_foldl:
  "list_all (\<lambda>c. 48 \<le> c \<and> c \<le> 57) s \<Longrightarrow> digits_val 10 acc s = Some (foldl (\<lambda>a c. a * 10 + (c - 48)) acc s)"
proof (induction s arbitrary: acc)
  case Nil
  then show ?case by simp
next
  case (Cons c s)
  then have c: "base_digit 10 c = Some (c - 48)" using digit_base by simp
  have s: "digits_val 10 (acc * 10 + (c - 48)) s = Some (foldl (\<lambda>a c. a * 10 + (c - 48)) (acc * 10 + (c - 48)) s)"
    using Cons by simp
  have "digits_val 10 acc (c # s) = digits_val 10 (acc * 10 + (c - 48)) s"
    using c Cons.prems by (cases s) auto
  then show ?case unfolding foldl_Cons s .
qed

lemma strip_digits: "list_all (\<lambda>c. 48 \<le> c \<and> c \<le> 57) s \<Longrightarrow> py_strip s = s"
proof -
  assume d: "list_all (\<lambda>c. 48 \<le> c \<and> c \<le> 57) s"
  have n: "\<not> is_space c" if "48 \<le> c" "c \<le> 57" for c using that by (simp add: is_space_def)
  have "dropWhile is_space s = s" using d n by (cases s) auto
  moreover have "dropWhile is_space (rev s) = rev s" using d n by (cases s rule: rev_cases) auto
  ultimately show ?thesis by (simp add: py_strip_def strip_with_def rdropWhile_def)
qed

lemma show_nat_value: "foldl (\<lambda>a c. a * 10 + (c - 48)) 0 (show_nat n) = n"
proof (induction n rule: show_nat.induct)
  case (1 n)
  then show ?case by (subst show_nat.simps) auto
qed

lemma py_int_show_nat [simp]: "py_int 10 (show_nat n) = Some (int n)"
proof -
  have d: "list_all (\<lambda>c. 48 \<le> c \<and> c \<le> 57) (show_nat n)" using show_nat_digits by (simp add: list_all_iff)
  obtain c u where s: "show_nat n = c # u" "48 \<le> c" using show_nat_nonempty[of n] d by (cases "show_nat n") auto
  then have "parse_digits 10 (show_nat n) = Some n"
    using digits_val_foldl[OF d, of 0] show_nat_value[of n] by (simp add: parse_digits_def)
  then show ?thesis using s strip_digits[OF d] by (simp add: py_int_def)
qed

end
