(* ===== verification/Streams.thy ===== *)
theory Streams
  imports Text
begin

text \<open>
  Byte streams. Reading code is written in the sources against the \<open>StreamReader\<close> interface; it is
  modelled over an arbitrary reader state \<open>'s\<close>, an operation being a function from a state to a
  result (\<open>py_error + 'a\<close>) and the next state.

  \<open>raw_*\<close> is asyncio's \<open>StreamReader\<close>: the state is the list of chunks still to arrive, the end of
  the list being EOF. \<open>pure_*\<close> is the reference: the state is just the bytes still to come.
  \<open>sim view m m'\<close> says that \<open>m\<close> behaves like \<open>m'\<close> under the abstraction \<open>view\<close>; the locale
  \<open>stream_reader\<close> is the contract \<open>readexactly\<close> keeps, and clients proved once inside it hold for
  every reader that keeps it.
\<close>

named_theorems sim_intros "simulation of reading code"

type_synonym ('s, 'a) reading = "'s \<Rightarrow> (py_error + 'a) \<times> 's"

definition retR :: "'a \<Rightarrow> ('s, 'a) reading" where
  "retR x s = (Inr x, s)"

definition raiseR :: "py_error \<Rightarrow> ('s, 'a) reading" where
  "raiseR e s = (Inl e, s)"

definition bindR :: "('s, 'a) reading \<Rightarrow> ('a \<Rightarrow> ('s, 'b) reading) \<Rightarrow> ('s, 'b) reading" where
  "bindR m f s = (case m s of (Inl e, s') \<Rightarrow> (Inl e, s') | (Inr x, s') \<Rightarrow> f x s')"

definition liftR :: "py_error + 'a \<Rightarrow> ('s, 'a) reading" where
  "liftR r s = (r, s)"

lemma retR_apply [simp]: "retR x s = (Inr x, s)"
  by (simp add: retR_def)

lemma raiseR_apply [simp]: "raiseR e s = (Inl e, s)"
  by (simp add: raiseR_def)

lemma liftR_apply [simp]: "liftR r s = (r, s)"
  by (simp add: liftR_def)

lemma bindR_apply: "bindR m f s = (case m s of (Inl e, s') \<Rightarrow> (Inl e, s') | (Inr x, s') \<Rightarrow> f x s')"
  by (simp add: bindR_def)

lemma bindR_step: "m s = (Inr x, s') \<Longrightarrow> bindR m f s = f x s'"
  by (simp add: bindR_def)

lemma bindR_raise: "m s = (Inl e, s') \<Longrightarrow> bindR m f s = (Inl e, s')"
  by (simp add: bindR_def)

section \<open>The reference reader\<close>

definition pure_readexactly :: "nat \<Rightarrow> (bytes, bytes) reading" where
  "pure_readexactly n s = (if n \<le> length s then (Inr (take n s), drop n s) else (Inl IncompleteRead, []))"

definition pure_readuntil :: "nat \<Rightarrow> bytes \<Rightarrow> (bytes, bytes) reading" where
  "pure_readuntil limit sep s = (case find_sub sep s of
      Some i \<Rightarrow> if i \<le> limit then (Inr (take (i + length sep) s), drop (i + length sep) s)
        else (Inl LimitOverrun, s)
    | None \<Rightarrow> if length s + 1 - length sep \<le> limit then (Inl IncompleteRead, []) else (Inl LimitOverrun, s))"

lemma pure_readexactly_prefix: "length a = n \<Longrightarrow> pure_readexactly n (a @ b) = (Inr a, b)"
  by (simp add: pure_readexactly_def)

lemma bind_pure: "length a = n \<Longrightarrow> bindR (pure_readexactly n) f (a @ b) = f a b"
  by (simp add: bindR_def pure_readexactly_prefix)

section \<open>asyncio's StreamReader\<close>

fun drop_chunks :: "nat \<Rightarrow> bytes list \<Rightarrow> bytes list" where
  "drop_chunks n [] = []"
| "drop_chunks n (c # cs) =
     (if n < length c then drop n c # cs else drop_chunks (n - length c) cs)"

definition raw_readexactly :: "nat \<Rightarrow> (bytes list, bytes) reading" where
  "raw_readexactly n s = (if n \<le> length (concat s) then (Inr (take n (concat s)), drop_chunks n s)
     else (Inl IncompleteRead, []))"

definition raw_readuntil :: "nat \<Rightarrow> bytes \<Rightarrow> (bytes list, bytes) reading" where
  "raw_readuntil limit sep s = (case find_sub sep (concat s) of
      Some i \<Rightarrow> if i \<le> limit
        then (Inr (take (i + length sep) (concat s)), drop_chunks (i + length sep) s)
        else (Inl LimitOverrun, s)
    | None \<Rightarrow> if length (concat s) + 1 - length sep \<le> limit then (Inl IncompleteRead, [])
        else (Inl LimitOverrun, s))"

text \<open>\<open>read(n)\<close> returns what has arrived, at most \<open>n\<close> bytes; all the rest for a negative \<open>n\<close>.\<close>

fun raw_read :: "int \<Rightarrow> bytes list \<Rightarrow> bytes \<times> bytes list" where
  "raw_read n [] = ([], [])"
| "raw_read n (c # cs) =
     (if n < 0 then (concat (c # cs), [])
      else if n = 0 then ([], c # cs)
      else if c = [] then raw_read n cs
      else if int (length c) \<le> n then (c, cs) else (take (nat n) c, drop (nat n) c # cs))"

lemma concat_drop_chunks [simp]: "concat (drop_chunks n s) = drop n (concat s)"
  by (induction n s rule: drop_chunks.induct) auto

lemma raw_read_concat: "fst (raw_read n s) @ concat (snd (raw_read n s)) = concat s"
  by (induction n s rule: raw_read.induct) auto

lemma raw_read_length: "0 \<le> n \<Longrightarrow> int (length (fst (raw_read n s))) \<le> n"
  by (induction n s rule: raw_read.induct) auto

lemma raw_read_eof: "n \<noteq> 0 \<Longrightarrow> fst (raw_read n s) = [] \<longleftrightarrow> concat s = []"
  by (induction n s rule: raw_read.induct) auto

section \<open>Simulation\<close>

definition sim :: "('s \<Rightarrow> 't) \<Rightarrow> ('s, 'a) reading \<Rightarrow> ('t, 'a) reading \<Rightarrow> bool" where
  "sim view m m' \<longleftrightarrow> (\<forall>s. fst (m s) = fst (m' (view s)) \<and> view (snd (m s)) = snd (m' (view s)))"

lemma simD: "sim view m m' \<Longrightarrow> fst (m s) = fst (m' (view s)) \<and> view (snd (m s)) = snd (m' (view s))"
  by (simp add: sim_def)

lemma sim_ret [sim_intros]: "sim view (retR x) (retR x)"
  by (simp add: sim_def)

lemma sim_raise [sim_intros]: "sim view (raiseR e) (raiseR e)"
  by (simp add: sim_def)

lemma sim_lift [sim_intros]: "sim view (liftR r) (liftR r)"
  by (simp add: sim_def)

lemma sim_bind [sim_intros]:
  assumes "sim view m m'" "\<And>x. sim view (f x) (f' x)"
  shows "sim view (bindR m f) (bindR m' f')"
  unfolding sim_def
proof
  fix s
  show "fst (bindR m f s) = fst (bindR m' f' (view s)) \<and> view (snd (bindR m f s)) = snd (bindR m' f' (view s))"
    using simD[OF assms(1), of s] simD[OF assms(2)]
    by (cases "m s"; cases "m' (view s)") (auto simp: bindR_apply split: sum.split)
qed

lemma sim_if [sim_intros]: "(c \<Longrightarrow> sim view a a') \<Longrightarrow> (\<not> c \<Longrightarrow> sim view b b') \<Longrightarrow>
    sim view (if c then a else b) (if c then a' else b')"
  by simp

lemma sim_fst: "sim view m m' \<Longrightarrow> view s = view t \<Longrightarrow> fst (m s) = fst (m t)"
  by (simp add: sim_def)

text \<open>A connection pairs a reader with the bytes written so far.\<close>

definition onR :: "('s, 'a) reading \<Rightarrow> ('s \<times> bytes, 'a) reading" where
  "onR m c = (let (r, s) = m (fst c) in (r, (s, snd c)))"

definition writeR :: "bytes \<Rightarrow> ('s \<times> bytes, unit) reading" where
  "writeR b c = (Inr (), (fst c, snd c @ b))"

lemma onR_apply [simp]: "onR m (s, out) = (fst (m s), (snd (m s), out))"
  by (simp add: onR_def case_prod_beta)

lemma writeR_apply [simp]: "writeR b (s, out) = (Inr (), (s, out @ b))"
  by (simp add: writeR_def)

lemma sim_on [sim_intros]: "sim view m m' \<Longrightarrow> sim (map_prod view id) (onR m) (onR m')"
  by (simp add: sim_def)

lemma sim_write [sim_intros]: "sim (map_prod view id) (writeR b) (writeR b)"
  by (simp add: sim_def)

section \<open>The interfaces\<close>

locale stream_reader =
  fixes view :: "'s \<Rightarrow> bytes" and rx :: "nat \<Rightarrow> ('s, bytes) reading"
  assumes rx_sim: "sim view (rx n) (pure_readexactly n)"
begin

lemma rx_enough: "n \<le> length (view s) \<Longrightarrow> fst (rx n s) = Inr (take n (view s)) \<and> view (snd (rx n s)) = drop n (view s)"
  using simD[OF rx_sim, of n s] by (simp add: pure_readexactly_def)

lemma rx_short: "length (view s) < n \<Longrightarrow> fst (rx n s) = Inl IncompleteRead \<and> view (snd (rx n s)) = []"
  using simD[OF rx_sim, of n s] by (simp add: pure_readexactly_def)

end

text \<open>A line reader also finds a one-byte separator below its limit.\<close>

locale line_reader = stream_reader view rx
  for view :: "'s \<Rightarrow> bytes" and rx :: "nat \<Rightarrow> ('s, bytes) reading" +
  fixes ru :: "bytes \<Rightarrow> ('s, bytes) reading" and limit :: nat
  assumes ru_found: "find_sub [c] (view s) = Some i \<Longrightarrow> i \<le> limit \<Longrightarrow>
    fst (ru [c] s) = Inr (take (i + 1) (view s)) \<and> view (snd (ru [c] s)) = drop (i + 1) (view s)"
begin

lemma ru_line:
  assumes "view s = a @ c # b" "c \<notin> set a" "length a \<le> limit"
  shows "fst (ru [c] s) = Inr (a @ [c]) \<and> view (snd (ru [c] s)) = b"
proof -
  have "find_sub [c] (a @ c # b) = Some (length a)"
    using assms(2) by (induction a) auto
  then show ?thesis using ru_found[of c s "length a"] assms by simp
qed

end

interpretation pure: line_reader "\<lambda>s. s" pure_readexactly "pure_readuntil limit" limit
  by unfold_locales (auto simp: sim_def pure_readuntil_def)

interpretation raw: line_reader concat raw_readexactly "raw_readuntil limit" limit
  by unfold_locales (auto simp: sim_def pure_readexactly_def raw_readexactly_def raw_readuntil_def)

end
