(* ===== verification/IpAddr.thy ===== *)
theory IpAddr
  imports Text
begin

text \<open>
  The address functions of the standard library the sources call: \<open>ipaddress.ip_address\<close> and
  \<open>ip_network(strict=False)\<close>, \<open>socket.inet_ntoa\<close>, \<open>inet_ntop\<close>, \<open>inet_aton\<close>, \<open>inet_pton\<close>, and on top of
  them \<open>is_ip_literal\<close> (core/utils.py). An address is its integer value tagged with its version.
\<close>

datatype ip_addr = V4 nat | V6 nat

datatype ip_net = Net4 nat nat | Net6 nat nat
  \<comment> \<open>network integer and prefix length\<close>

section \<open>IPv4\<close>

definition is_digit :: "nat \<Rightarrow> bool" where
  "is_digit c = (48 \<le> c \<and> c \<le> 57)"

definition octet4 :: "pystr \<Rightarrow> nat option" where
  "octet4 s = (if s = [] \<or> \<not> list_all is_digit s \<or> 3 < length s \<or> (hd s = 48 \<and> 1 < length s) then None
     else case parse_digits 10 s of None \<Rightarrow> None | Some n \<Rightarrow> if n \<le> 255 then Some n else None)"

definition parse_v4 :: "pystr \<Rightarrow> nat option" where
  "parse_v4 s = (case map octet4 (split_char 46 s) of
      [Some a, Some b, Some c, Some d] \<Rightarrow> Some (((a * 256 + b) * 256 + c) * 256 + d)
    | _ \<Rightarrow> None)"

text \<open>\<open>inet_ntoa\<close>: four decimal octets.\<close>

definition ntoa :: "bytes \<Rightarrow> pystr" where
  "ntoa bs = join_with [46] (map (\<lambda>b. show_nat (unat b)) bs)"

text \<open>
  \<open>inet_aton\<close> is more liberal than \<open>ip_address\<close>: one to four numbers in C notation, the last one
  filling the remaining bytes, trailing white space allowed.
\<close>

definition c_number :: "pystr \<Rightarrow> nat option" where
  "c_number s =
     (if s = [] \<or> 95 \<in> set s then None
      else if take 2 s = [48, 120] \<or> take 2 s = [48, 88] then parse_digits 16 (drop 2 s)
      else if hd s = 48 then parse_digits 8 s else parse_digits 10 s)"

definition aton_parts :: "nat list \<Rightarrow> nat option" where
  "aton_parts ns = (case ns of
      [a] \<Rightarrow> if a < 2 ^ 32 then Some a else None
    | [a, b] \<Rightarrow> if a < 256 \<and> b < 2 ^ 24 then Some (a * 2 ^ 24 + b) else None
    | [a, b, c] \<Rightarrow> if a < 256 \<and> b < 256 \<and> c < 2 ^ 16 then Some (a * 2 ^ 24 + b * 2 ^ 16 + c) else None
    | [a, b, c, d] \<Rightarrow> if a < 256 \<and> b < 256 \<and> c < 256 \<and> d < 256
        then Some (a * 2 ^ 24 + b * 2 ^ 16 + c * 2 ^ 8 + d) else None
    | _ \<Rightarrow> None)"

definition c_space :: "nat \<Rightarrow> bool" where
  "c_space c = (c = 32 \<or> (9 \<le> c \<and> c \<le> 13))"

definition aton :: "pystr \<Rightarrow> bytes option" where
  "aton s = (let ps = map c_number (split_char 46 (takeWhile (\<lambda>c. \<not> c_space c) s)) in
     if None \<in> set ps then None else map_option (to_be 4) (aton_parts (map the ps)))"

section \<open>IPv6\<close>

definition hextet :: "pystr \<Rightarrow> nat option" where
  "hextet s = (if 4 < length s \<or> 95 \<in> set s then None else parse_digits 16 s)"

definition hextets :: "pystr list \<Rightarrow> nat option" where
  "hextets ps = foldl (\<lambda>acc p. case (acc, hextet p) of (Some a, Some h) \<Rightarrow> Some (a * 65536 + h) | _ \<Rightarrow> None)
     (Some 0) ps"

definition hex_digit :: "nat \<Rightarrow> nat" where
  "hex_digit d = (if d < 10 then 48 + d else 87 + d)"

fun show_hex :: "nat \<Rightarrow> pystr" where
  "show_hex n = (if n < 16 then [hex_digit n] else show_hex (n div 16) @ [hex_digit (n mod 16)])"

declare show_hex.simps [simp del]

text \<open>A dotted quad in the last part is replaced by two hextets.\<close>

definition expand_v4_tail :: "pystr list \<Rightarrow> pystr list option" where
  "expand_v4_tail ps = (if 46 \<in> set (last ps) then
      (case parse_v4 (last ps) of None \<Rightarrow> None
       | Some n \<Rightarrow> Some (butlast ps @ [show_hex (n div 65536 mod 65536), show_hex (n mod 65536)]))
     else Some ps)"

definition inner_empty :: "pystr list \<Rightarrow> nat list" where
  "inner_empty ps = filter (\<lambda>i. ps ! i = []) [1..<length ps - 1]"

definition parse_v6_parts :: "pystr list \<Rightarrow> nat option" where
  "parse_v6_parts ps =
     (if 9 < length ps then None
      else case inner_empty ps of
        [] \<Rightarrow> if length ps \<noteq> 8 \<or> hd ps = [] \<or> last ps = [] then None else hextets ps
      | [k] \<Rightarrow>
         (let hi = (if hd ps = [] then k - 1 else k);
              lo = (if last ps = [] then length ps - k - 2 else length ps - k - 1)
          in if (hd ps = [] \<and> hi \<noteq> 0) \<or> (last ps = [] \<and> lo \<noteq> 0) \<or> 8 \<le> hi + lo then None
             else case (hextets (take hi ps), hextets (drop (length ps - lo) ps)) of
                 (Some h, Some l) \<Rightarrow> Some (h * 65536 ^ (8 - hi) + l)
               | _ \<Rightarrow> None)
      | _ \<Rightarrow> None)"

definition strip_scope :: "pystr \<Rightarrow> pystr option" where
  "strip_scope s = (case partition1 37 s of None \<Rightarrow> Some s
     | Some (a, sc) \<Rightarrow> if sc = [] \<or> 37 \<in> set sc then None else Some a)"

definition parse_v6 :: "pystr \<Rightarrow> nat option" where
  "parse_v6 s = (case strip_scope s of None \<Rightarrow> None
     | Some a \<Rightarrow> (let ps = split_char 58 a in
         if 47 \<in> set a \<or> length ps < 3 then None
         else case expand_v4_tail ps of None \<Rightarrow> None | Some qs \<Rightarrow> parse_v6_parts qs))"

definition ip_address :: "pystr \<Rightarrow> ip_addr option" where
  "ip_address s = (case parse_v4 s of Some n \<Rightarrow> Some (V4 n)
     | None \<Rightarrow> map_option V6 (parse_v6 s))"

definition is_ip_literal :: "pystr \<Rightarrow> bool" where
  "is_ip_literal host = (case ip_address host of Some a \<Rightarrow> True | None \<Rightarrow> False)"

text \<open>\<open>inet_pton(AF_INET6)\<close>: as \<open>parse_v6\<close> but without scope identifiers.\<close>

definition pton6 :: "pystr \<Rightarrow> bytes option" where
  "pton6 s = (if 37 \<in> set s then None else map_option (to_be 16) (parse_v6 s))"

text \<open>
  \<open>inet_ntop(AF_INET6)\<close>: the first longest run of at least two zero groups becomes \<open>::\<close>;
  v4-compatible and v4-mapped addresses end in a dotted quad.
\<close>

fun words16 :: "bytes \<Rightarrow> nat list" where
  "words16 (a # b # bs) = (unat a * 256 + unat b) # words16 bs"
| "words16 _ = []"

definition zero_run :: "nat list \<Rightarrow> nat \<Rightarrow> nat" where
  "zero_run ws i = length (takeWhile (\<lambda>w. w = 0) (drop i ws))"

definition best_run :: "nat list \<Rightarrow> (nat \<times> nat) option" where
  "best_run ws = (let m = Max (insert 0 (set (map (zero_run ws) [0..<length ws]))) in
     if m < 2 then None
     else map_option (\<lambda>i. (i, m)) (List.find (\<lambda>i. zero_run ws i = m) [0..<length ws]))"

definition ntop6 :: "bytes \<Rightarrow> pystr" where
  "ntop6 bs = (let ws = words16 bs; col = (\<lambda>xs. join_with [58] (map show_hex xs)) in
     case best_run ws of
       None \<Rightarrow> col ws
     | Some (i, m) \<Rightarrow>
         if i = 0 \<and> m = 6 then U ''::'' @ ntoa (drop 12 bs)
         else if i = 0 \<and> m = 5 \<and> ws ! 5 = 0xFFFF then U ''::ffff:'' @ ntoa (drop 12 bs)
         else col (take i ws) @ U ''::'' @ col (drop (i + m) ws))"

section \<open>Networks\<close>

definition addr_in_net :: "ip_addr \<Rightarrow> ip_net \<Rightarrow> bool" where
  "addr_in_net a n = (case (a, n) of
      (V4 x, Net4 b p) \<Rightarrow> x div 2 ^ (32 - p) = b div 2 ^ (32 - p)
    | (V6 x, Net6 b p) \<Rightarrow> x div 2 ^ (128 - p) = b div 2 ^ (128 - p)
    | _ \<Rightarrow> False)"

text \<open>Network constructors with \<open>strict=False\<close>: host bits are cleared, a bad prefix raises.\<close>

definition mk_net4 :: "nat \<Rightarrow> nat \<Rightarrow> ip_net option" where
  "mk_net4 x p = (if x < 2 ^ 32 \<and> p \<le> 32 then Some (Net4 (x div 2 ^ (32 - p) * 2 ^ (32 - p)) p) else None)"

definition mk_net6 :: "nat \<Rightarrow> nat \<Rightarrow> ip_net option" where
  "mk_net6 x p = (if x < 2 ^ 128 \<and> p \<le> 128 then Some (Net6 (x div 2 ^ (128 - p) * 2 ^ (128 - p)) p) else None)"

text \<open>A v4 mask is a prefix length, a netmask or a hostmask.\<close>

definition prefix_of_mask :: "nat \<Rightarrow> nat option" where
  "prefix_of_mask m = (case List.find (\<lambda>p. m = 2 ^ 32 - 2 ^ (32 - p)) [0..<33] of
      Some p \<Rightarrow> Some p
    | None \<Rightarrow> List.find (\<lambda>p. m = 2 ^ (32 - p) - 1) [0..<33])"

definition parse_prefix :: "nat \<Rightarrow> pystr \<Rightarrow> nat option" where
  "parse_prefix maxp s = (if s = [] \<or> \<not> list_all is_digit s then None
     else case parse_digits 10 s of None \<Rightarrow> None | Some n \<Rightarrow> if n \<le> maxp then Some n else None)"

definition ip_network :: "pystr \<Rightarrow> ip_net option" where
  "ip_network s = (case split_char 47 s of
      [a] \<Rightarrow> (case parse_v4 a of Some x \<Rightarrow> mk_net4 x 32
             | None \<Rightarrow> (case parse_v6 a of Some x \<Rightarrow> mk_net6 x 128 | None \<Rightarrow> None))
    | [a, p] \<Rightarrow> (case parse_v4 a of
         Some x \<Rightarrow> (case parse_prefix 32 p of Some n \<Rightarrow> mk_net4 x n
            | None \<Rightarrow> (case parse_v4 p of None \<Rightarrow> None
                | Some m \<Rightarrow> (case prefix_of_mask m of None \<Rightarrow> None | Some n \<Rightarrow> mk_net4 x n)))
       | None \<Rightarrow> (case parse_v6 a of
           Some x \<Rightarrow> (case parse_prefix 128 p of Some n \<Rightarrow> mk_net6 x n | None \<Rightarrow> None)
         | None \<Rightarrow> None))
    | _ \<Rightarrow> None)"

section \<open>Bounds\<close>

lemma show_nat_byte_length: "length (show_nat (unat (b::byte))) \<le> 3"
proof -
  have "length (show_nat n) \<le> 3" if "n < 1000" for n
  proof -
    have a: "length (show_nat m) = 1" if "m < 10" for m
      using that by (subst show_nat.simps) simp
    have b: "length (show_nat m) \<le> 2" if "m < 100" for m
      using that a[of "m div 10"] by (subst show_nat.simps) simp
    show ?thesis using that b[of "n div 10"] by (subst show_nat.simps) simp
  qed
  moreover have "unat b < 1000" using unat_byte_less[of b] by linarith
  ultimately show ?thesis by blast
qed

lemma show_hex_word_length: "n < 65536 \<Longrightarrow> length (show_hex n) \<le> 4"
proof -
  assume n: "n < 65536"
  have a: "length (show_hex m) = 1" if "m < 16" for m
    using that by (subst show_hex.simps) simp
  have b: "length (show_hex m) \<le> 2" if "m < 256" for m
    using that a[of "m div 16"] by (subst show_hex.simps) simp
  have c: "length (show_hex m) \<le> 3" if "m < 4096" for m
    using that b[of "m div 16"] by (subst show_hex.simps) simp
  show ?thesis using n c[of "n div 16"] by (subst show_hex.simps) simp
qed

lemma length_join_le: "\<forall>w \<in> set ws. length w \<le> k \<Longrightarrow> length (join_with [c] ws) \<le> (k + 1) * length ws"
proof (induction ws)
  case Nil
  then show ?case by (simp add: join_with_def)
next
  case (Cons w ws)
  then show ?case by (cases ws) (simp_all add: join_with_def)
qed

lemma ntoa_length: "length bs = 4 \<Longrightarrow> length (ntoa bs) \<le> 15"
proof -
  assume "length bs = 4"
  then obtain a b c d where bs: "bs = [a, b, c, d]"
    by (auto simp: numeral_eq_Suc length_Suc_conv)
  then show ?thesis
    using show_nat_byte_length[of a] show_nat_byte_length[of b]
      show_nat_byte_length[of c] show_nat_byte_length[of d]
    by (simp add: ntoa_def join_with_def)
qed

lemma words16_bound: "\<forall>w \<in> set (words16 bs). w < 65536"
proof (induction bs rule: words16.induct)
  case (1 a b bs)
  have "unat a * 256 + unat b < 65536"
    using unat_byte_less[of a] unat_byte_less[of b] by linarith
  with 1 show ?case by simp
qed auto

lemma length_words16: "length (words16 bs) = length bs div 2"
  by (induction bs rule: words16.induct) auto

lemma ntop6_length:
  assumes "length bs = 16"
  shows "length (ntop6 bs) \<le> 42"
proof -
  let ?ws = "words16 bs"
  have ws: "length ?ws = 8" using assms by (simp add: length_words16)
  have col: "length (join_with [58] (map show_hex xs)) \<le> 5 * length xs" if "set xs \<subseteq> set ?ws" for xs
    using length_join_le[of "map show_hex xs" 4 58] that words16_bound[of bs] show_hex_word_length
    by fastforce
  have nt: "length (ntoa (drop 12 bs)) \<le> 15" by (rule ntoa_length) (simp add: assms)
  have tk: "length (join_with [58] (map show_hex (take i ?ws)))
      + length (join_with [58] (map show_hex (drop j ?ws))) \<le> 40" if "i \<le> j" for i j
  proof -
    have "length (take i ?ws) + length (drop j ?ws) \<le> 8" using that by (simp add: ws)
    moreover have "set (take i ?ws) \<subseteq> set ?ws" "set (drop j ?ws) \<subseteq> set ?ws"
      by (auto dest: in_set_takeD in_set_dropD)
    ultimately show ?thesis using col[of "take i ?ws"] col[of "drop j ?ws"] by linarith
  qed
  show ?thesis
  proof (cases "best_run ?ws")
    case None
    then show ?thesis using col[of ?ws] by (simp add: ntop6_def ws Let_def)
  next
    case (Some r)
    obtain i m where r: "r = (i, m)" by (cases r)
    have "i \<le> i + m" by simp
    from tk[OF this] nt Some r show ?thesis by (simp add: ntop6_def Let_def)
  qed
qed

lemma show_nat_ascii: "\<forall>c \<in> set (show_nat n). c < 128"
  using show_nat_digits[of n] by force

lemma show_hex_ascii: "\<forall>c \<in> set (show_hex n). c < 128"
proof (induction n rule: show_hex.induct)
  case (1 n)
  then show ?case by (subst show_hex.simps) (auto simp: hex_digit_def)
qed

lemma set_join_subset: "set (join_with sep ws) \<subseteq> set sep \<union> (\<Union>w \<in> set ws. set w)"
  by (cases ws) (auto simp: join_with_def)

lemma ntoa_ascii: "\<forall>c \<in> set (ntoa bs). c < 128"
  using set_join_subset[of "[46]" "map (\<lambda>b. show_nat (unat b)) bs"] show_nat_ascii
  by (fastforce simp: ntoa_def)

lemma ntop6_ascii: "\<forall>c \<in> set (ntop6 bs). c < 128"
proof -
  have col: "\<forall>c \<in> set (join_with [58] (map show_hex xs)). c < 128" for xs
    using set_join_subset[of "[58]" "map show_hex xs"] show_hex_ascii by fastforce
  show ?thesis
  proof (cases "best_run (words16 bs)")
    case None
    then show ?thesis using col by (simp add: ntop6_def Let_def)
  next
    case (Some r)
    then show ?thesis
      using col ntoa_ascii[of "drop 12 bs"] by (cases r) (auto simp: ntop6_def U_def Let_def)
  qed
qed

end
