(* ===== verification/Frames.thy ===== *)
theory Frames
  imports IpAddr
begin

text \<open>
  Addresses and datagrams on the wire: \<open>pack_address\<close>/\<open>unpack_address\<close> (core/utils.py), the UDP
  framing inside the encrypted tunnel with its reassembler \<open>FrameReader\<close>, and the SOCKS5 UDP header
  codec (core/udp_relay.py).
\<close>

section \<open>Target addresses\<close>

definition pack_port :: "int \<Rightarrow> py_error + bytes" where
  "pack_port p = (if 0 \<le> p then pack_be 2 (nat p) else Inl StructError)"

definition pack_address :: "pystr \<Rightarrow> int \<Rightarrow> py_error + bytes" where
  "pack_address host port =
     bindE (utf8_encode host) (\<lambda>hb.
     bindE (pack_be 1 (length hb)) (\<lambda>len.
     bindE (pack_port port) (\<lambda>pb. Inr (len @ hb @ pb))))"

text \<open>\<open>struct.unpack("!H", s)\<close> needs exactly two bytes.\<close>

definition unpack_H :: "bytes \<Rightarrow> py_error + nat" where
  "unpack_H s = (if length s = 2 then Inr (from_be s) else Inl StructError)"

definition unpack_address :: "bytes \<Rightarrow> py_error + (pystr \<times> int \<times> nat)" where
  "unpack_address data = (case data of
      [] \<Rightarrow> Inl IndexError
    | b # _ \<Rightarrow>
       (let host_len = unat b in
        bindE (utf8_decode (slice 1 (1 + host_len) data)) (\<lambda>host.
        bindE (unpack_H (slice (1 + host_len) (3 + host_len) data)) (\<lambda>port.
        Inr (host, int port, 3 + host_len)))))"

lemma pack_port_Inr_iff: "pack_port p = Inr bs \<longleftrightarrow> 0 \<le> p \<and> p < 65536 \<and> bs = to_be 2 (nat p)"
  by (auto simp: pack_port_def pack_be_def)

lemma pack_address_Inr_iff:
  "pack_address host port = Inr bs \<longleftrightarrow>
     (\<exists>hb. utf8_encode host = Inr hb \<and> length hb < 256 \<and> 0 \<le> port \<and> port < 65536
        \<and> bs = of_nat (length hb) # hb @ to_be 2 (nat port))"
  by (auto simp: pack_address_def bindE_Inr_iff pack_be_Inr_iff pack_port_Inr_iff)

lemma length_pack_address:
  "pack_address host port = Inr bs \<Longrightarrow> utf8_encode host = Inr hb \<Longrightarrow> length bs = length hb + 3"
  by (auto simp: pack_address_Inr_iff)

lemma unpack_pack_address:
  assumes "pack_address host port = Inr bs"
  shows "unpack_address (bs @ rest) = Inr (host, port, length bs)"
proof -
  obtain hb where hb: "utf8_encode host = Inr hb" "length hb < 256"
    and port: "0 \<le> port" "port < 65536"
    and bs: "bs = of_nat (length hb) # hb @ to_be 2 (nat port)"
    using assms by (auto simp: pack_address_Inr_iff)
  have len: "unat (of_nat (length hb) :: byte) = length hb"
    using hb(2) by (simp add: unat_of_nat)
  have h: "slice 1 (1 + length hb) (bs @ rest) = hb"
    by (simp add: bs slice_def)
  have p: "slice (1 + length hb) (3 + length hb) (bs @ rest) = to_be 2 (nat port)"
    by (simp add: bs slice_def)
  have "nat port < 256 ^ 2" using port by simp
  then have "from_be (to_be 2 (nat port)) = nat port" by (rule from_be_to_be_id)
  then show ?thesis
    using h p utf8_decode_encode[OF hb(1)] port
    by (simp add: unpack_address_def bs len unpack_H_def Let_def)
qed

section \<open>UDP frames in the tunnel\<close>

type_synonym frame = "pystr \<times> int \<times> bytes"

definition pack_udp_frame :: "pystr \<Rightarrow> int \<Rightarrow> bytes \<Rightarrow> py_error + bytes" where
  "pack_udp_frame target_host target_port payload =
     bindE (pack_address target_host target_port) (\<lambda>addr.
       let body = addr @ payload in
       bindE (pack_be 2 (length body)) (\<lambda>hdr. Inr (hdr @ body)))"

definition parse_frame_body :: "bytes \<Rightarrow> py_error + frame" where
  "parse_frame_body body =
     bindE (unpack_address body) (\<lambda>(host, port, consumed). Inr (host, port, drop consumed body))"

text \<open>
  \<open>FrameReader\<close>: the state is the buffer; \<open>frames\<close> drains every complete frame, dropping the
  bodies that do not parse, and returns the frames with the new buffer.
\<close>

definition feed :: "bytes \<Rightarrow> bytes \<Rightarrow> bytes" where
  "feed buf chunk = buf @ chunk"

function frames :: "bytes \<Rightarrow> frame list \<times> bytes" where
  "frames buf =
     (if length buf < 2 then ([], buf)
      else let total = from_be (take 2 buf) in
        if length buf < 2 + total then ([], buf)
        else let body = slice 2 (2 + total) buf;
                 (fs, buf') = frames (drop (2 + total) buf)
             in (case parse_frame_body body of Inl e \<Rightarrow> fs | Inr f \<Rightarrow> f # fs, buf'))"
  by pat_completeness auto
termination
  by (relation "measure length") auto

declare frames.simps [simp del]

text \<open>The loop both relays run: feed a received chunk, take what is complete.\<close>

fun feed_all :: "bytes \<Rightarrow> bytes list \<Rightarrow> frame list \<times> bytes" where
  "feed_all buf [] = ([], buf)"
| "feed_all buf (c # cs) =
     (let (fs, buf') = frames (feed buf c); (gs, buf'') = feed_all buf' cs in (fs @ gs, buf''))"

lemma frames_short: "length buf < 2 \<Longrightarrow> frames buf = ([], buf)"
  by (simp add: frames.simps)

lemma frames_incomplete: "length buf < 2 + from_be (take 2 buf) \<Longrightarrow> frames buf = ([], buf)"
  by (simp add: frames.simps[of buf] Let_def)

lemma frames_complete:
  assumes "length hdr = 2" "from_be hdr = length body"
  shows "frames (hdr @ body @ rest) =
    (case parse_frame_body body of Inl e \<Rightarrow> fst (frames rest) | Inr f \<Rightarrow> f # fst (frames rest),
     snd (frames rest))"
  using assms
  by (subst frames.simps) (simp add: slice_def Let_def case_prod_beta)

lemma frame_split:
  assumes "\<not> length buf < 2 + from_be (take 2 buf)"
  obtains hdr body rest where "buf = hdr @ body @ rest" "length hdr = 2" "from_be hdr = length body"
proof
  let ?n = "from_be (take 2 buf)"
  show "buf = take 2 buf @ take ?n (drop 2 buf) @ drop ?n (drop 2 buf)" by (simp only: append_take_drop_id)
  show "length (take 2 buf) = 2" "?n = length (take ?n (drop 2 buf))" using assms by auto
qed

text \<open>
  Draining early makes no difference: the frames found in \<open>buf @ more\<close> are those found in \<open>buf\<close>
  followed by those found once \<open>more\<close> is appended to what was left.
\<close>

lemma frames_append:
  "frames (buf @ more) =
     (fst (frames buf) @ fst (frames (snd (frames buf) @ more)), snd (frames (snd (frames buf) @ more)))"
proof (induction buf rule: length_induct)
  case (1 buf)
  show ?case
  proof (cases "length buf < 2 + from_be (take 2 buf)")
    case True
    then show ?thesis by (simp add: frames_incomplete)
  next
    case False
    then obtain hdr body rest where buf: "buf = hdr @ body @ rest"
      and hdr: "length hdr = 2" "from_be hdr = length body" by (rule frame_split)
    have "frames (rest @ more) = (fst (frames rest) @ fst (frames (snd (frames rest) @ more)),
        snd (frames (snd (frames rest) @ more)))"
      using 1 hdr(1) by (simp add: buf)
    then show ?thesis
      by (simp add: buf frames_complete[OF hdr] split: sum.split)
  qed
qed

lemma frames_residue: "frames (snd (frames buf)) = ([], snd (frames buf))"
proof (induction buf rule: length_induct)
  case (1 buf)
  show ?case
  proof (cases "length buf < 2 + from_be (take 2 buf)")
    case True
    then show ?thesis by (simp add: frames_incomplete)
  next
    case False
    then obtain hdr body rest where buf: "buf = hdr @ body @ rest"
      and hdr: "length hdr = 2" "from_be hdr = length body" by (rule frame_split)
    then show ?thesis using 1 by (simp add: frames_complete)
  qed
qed

lemma feed_all_concat: "frames buf = ([], buf) \<Longrightarrow> feed_all buf cs = frames (buf @ concat cs)"
proof (induction cs arbitrary: buf)
  case Nil
  then show ?case by simp
next
  case (Cons c cs)
  have res: "frames (snd (frames (buf @ c))) = ([], snd (frames (buf @ c)))"
    by (rule frames_residue)
  have "feed_all (snd (frames (buf @ c))) cs = frames (snd (frames (buf @ c)) @ concat cs)"
    using Cons.IH[OF res] .
  then show ?case
    using frames_append[of "buf @ c" "concat cs"] by (simp add: feed_def case_prod_beta)
qed

fun pack_all :: "frame list \<Rightarrow> py_error + bytes" where
  "pack_all [] = Inr []"
| "pack_all ((h, p, d) # fs) =
     bindE (pack_udp_frame h p d) (\<lambda>b. bindE (pack_all fs) (\<lambda>bs. Inr (b @ bs)))"

lemma parse_frame_body_pack:
  "pack_address h p = Inr addr \<Longrightarrow> parse_frame_body (addr @ d) = Inr (h, p, d)"
  by (simp add: parse_frame_body_def unpack_pack_address)

lemma frames_pack_udp_frame:
  assumes "pack_udp_frame h p d = Inr bs"
  shows "frames (bs @ rest) = ((h, p, d) # fst (frames rest), snd (frames rest))"
proof -
  obtain addr where addr: "pack_address h p = Inr addr"
    and len: "length (addr @ d) < 256 ^ 2" and bs: "bs = to_be 2 (length (addr @ d)) @ addr @ d"
    using assms by (auto simp: pack_udp_frame_def bindE_Inr_iff pack_be_Inr_iff Let_def)
  have "frames (to_be 2 (length (addr @ d)) @ (addr @ d) @ rest) =
    ((h, p, d) # fst (frames rest), snd (frames rest))"
    using len frames_complete[of "to_be 2 (length (addr @ d))" "addr @ d" rest]
      parse_frame_body_pack[OF addr, of d] by simp
  then show ?thesis by (simp add: bs)
qed

lemma frames_pack_all: "pack_all fs = Inr bs \<Longrightarrow> frames bs = (fs, [])"
proof (induction fs arbitrary: bs)
  case Nil
  then show ?case by (simp add: frames_short)
next
  case (Cons f fs)
  obtain h p d where f: "f = (h, p, d)" by (cases f) auto
  then obtain b bs' where "pack_udp_frame h p d = Inr b" "pack_all fs = Inr bs'" "bs = b @ bs'"
    using Cons.prems by (auto simp: bindE_Inr_iff)
  then show ?case using Cons.IH[of bs'] frames_pack_udp_frame[of h p d b bs'] f by simp
qed

section \<open>Properties\<close>

text \<open>An address packed for the tunnel is read back exactly, with the number of bytes it took,
  whatever follows it in the first record.\<close>

theorem address_roundtrip:
  assumes "pack_address host port = Inr bs"
  shows "unpack_address (bs @ rest) = Inr (host, port, length bs)
    \<and> 0 \<le> port \<and> port < 65536 \<and> length bs \<le> 258"
  using unpack_pack_address[OF assms] assms by (auto simp: pack_address_Inr_iff)

theorem address_roundtrip_witness:
  "unpack_address (([2, 104, 105, 1, 187] :: bytes) @ [7]) = Inr (U ''hi'', 443, 5)"
  using address_roundtrip[of "U ''hi''" 443 "[2, 104, 105, 1, 187]" "[7]"]
  by (simp add: pack_address_def pack_port_def eval_be U_def utf8_cp_def)

text \<open>C2: The frame reader reassembles a sequence of packed datagrams exactly, in order and with
  nothing left over, however the tunnel cut their bytes into chunks.\<close>

theorem frames_any_chunking:
  assumes "pack_all fs = Inr bs" "concat cs = bs"
  shows "feed_all [] cs = (fs, [])"
  using feed_all_concat[of "[]" cs] frames_pack_all[OF assms(1)] assms(2) by (simp add: frames_short)

theorem frames_any_chunking_witness:
  "feed_all [] [[0], [6, 1, 104, 0], [], [53, 9, 8]] = ([(U ''h'', 53, [9, 8])], [])"
  by (rule frames_any_chunking[of _ "[0, 6, 1, 104, 0, 53, 9, 8]"])
    (simp_all add: pack_udp_frame_def pack_address_def pack_port_def eval_be U_def utf8_cp_def)

end
