(* ===== verification/Hello_Auth.thy ===== *)
theory Hello_Auth
  imports Frames
begin

text \<open>
  Authentication inside the ClientHello (core/hello_auth.py): the 32-byte session token, its
  generation and verification, the fields read from a raw ClientHello record, and the replay cache.

  The hash functions are parameters, collected in the record \<open>crypto\<close>; \<open>crypto_ok\<close> states the
  documented output lengths of HMAC-SHA256 and Poly1305, the only facts the proofs use. The clock
  is an argument: \<open>now\<close> is what \<open>_now()\<close> returns, an integer number of seconds.
\<close>

unbundle bit_operations_syntax

record crypto =
  sha256 :: "bytes \<Rightarrow> bytes"
  hmac_sha256 :: "bytes \<Rightarrow> bytes \<Rightarrow> bytes"
  poly1305 :: "bytes \<Rightarrow> bytes \<Rightarrow> bytes"

definition crypto_ok :: "crypto \<Rightarrow> bool" where
  "crypto_ok cr \<longleftrightarrow> (\<forall>k m. length (hmac_sha256 cr k m) = 32) \<and> (\<forall>k m. length (poly1305 cr k m) = 16)"

definition timestamp_tolerance :: int where
  "timestamp_tolerance = 60"

section \<open>The session token\<close>

definition xor_bytes :: "bytes \<Rightarrow> bytes \<Rightarrow> bytes" where
  "xor_bytes xs ys = map (\<lambda>(a, b). a XOR b) (zip xs ys)"

definition ts_mask :: "crypto \<Rightarrow> bytes \<Rightarrow> bytes \<Rightarrow> bytes" where
  "ts_mask cr password_bytes random_prefix =
     (let pw_key = sha256 cr password_bytes in take 8 (hmac_sha256 cr pw_key random_prefix))"

definition poly1305_tag :: "crypto \<Rightarrow> bytes \<Rightarrow> bytes \<Rightarrow> bytes \<Rightarrow> bytes" where
  "poly1305_tag cr password_bytes ts_bytes random_prefix =
     (let one_time_key = sha256 cr (password_bytes @ ts_bytes @ random_prefix)
      in poly1305 cr one_time_key ts_bytes)"

definition pack_Q :: "int \<Rightarrow> py_error + bytes" where
  "pack_Q n = (if 0 \<le> n then pack_be 8 (nat n) else Inl StructError)"

definition unpack_Q :: "bytes \<Rightarrow> py_error + nat" where
  "unpack_Q s = (if length s = 8 then Inr (from_be s) else Inl StructError)"

definition make_session_token :: "crypto \<Rightarrow> pystr \<Rightarrow> int \<Rightarrow> bytes \<Rightarrow> py_error + bytes" where
  "make_session_token cr password now random_prefix =
     bindE (pack_Q now) (\<lambda>ts_bytes.
     bindE (utf8_encode password) (\<lambda>pw.
       let mask = ts_mask cr pw random_prefix;
           hidden_ts = xor_bytes ts_bytes mask;
           tag = poly1305_tag cr pw ts_bytes random_prefix
       in Inr (random_prefix @ hidden_ts @ tag)))"

definition verify_session_token :: "crypto \<Rightarrow> pystr \<Rightarrow> int \<Rightarrow> bytes \<Rightarrow> py_error + bool" where
  "verify_session_token cr password now token =
     (if length token < 32 then Inr False
      else let random_prefix = slice 0 8 token;
               hidden_ts = slice 8 16 token;
               received_tag = slice 16 32 token
        in bindE (utf8_encode password) (\<lambda>pw.
           let ts_bytes = xor_bytes hidden_ts (ts_mask cr pw random_prefix) in
           bindE (unpack_Q ts_bytes) (\<lambda>ts.
             if \<bar>now - int ts\<bar> > timestamp_tolerance then Inr False
             else Inr (poly1305_tag cr pw ts_bytes random_prefix = received_tag))))"

lemma length_xor_bytes [simp]: "length (xor_bytes xs ys) = min (length xs) (length ys)"
  by (simp add: xor_bytes_def)

lemma xor_bytes_involution: "length xs = length ys \<Longrightarrow> xor_bytes (xor_bytes xs ys) ys = xs"
proof (induction xs ys rule: list_induct2)
  case Nil
  then show ?case by (simp add: xor_bytes_def)
next
  case (Cons x xs y ys)
  have "(x XOR y) XOR y = x" by (simp add: xor.assoc)
  then show ?case using Cons by (simp add: xor_bytes_def)
qed

lemma length_ts_mask: "crypto_ok cr \<Longrightarrow> length (ts_mask cr pw r) = 8"
  by (simp add: crypto_ok_def ts_mask_def Let_def)

lemma length_tag: "crypto_ok cr \<Longrightarrow> length (poly1305_tag cr pw t r) = 16"
  by (simp add: crypto_ok_def poly1305_tag_def Let_def)

lemma make_token_parts:
  assumes "crypto_ok cr" "length random_prefix = 8"
    and "make_session_token cr password now random_prefix = Inr token"
  obtains pw tb where "utf8_encode password = Inr pw" "0 \<le> now" "now < 2 ^ 64" "tb = to_be 8 (nat now)"
    "token = random_prefix @ xor_bytes tb (ts_mask cr pw random_prefix) @ poly1305_tag cr pw tb random_prefix"
  using assms
  by (auto simp: make_session_token_def bindE_Inr_iff pack_Q_def pack_be_Inr_iff Let_def split: if_splits)

lemma make_token_length:
  assumes "crypto_ok cr" "length random_prefix = 8"
    and "make_session_token cr password now random_prefix = Inr token"
  shows "length token = 32"
  by (rule make_token_parts[OF assms]) (use assms in \<open>simp add: length_ts_mask length_tag\<close>)

lemma verify_make_token:
  assumes ok: "crypto_ok cr" and r: "length random_prefix = 8"
    and mk: "make_session_token cr password now random_prefix = Inr token"
  shows "verify_session_token cr password now' token = Inr (\<bar>now' - now\<bar> \<le> timestamp_tolerance)"
proof -
  obtain pw tb where pw: "utf8_encode password = Inr pw" and now: "0 \<le> now" "now < 2 ^ 64"
    and tb: "tb = to_be 8 (nat now)" and tok: "token = random_prefix @
      xor_bytes tb (ts_mask cr pw random_prefix) @ poly1305_tag cr pw tb random_prefix"
    by (rule make_token_parts[OF assms])
  let ?m = "ts_mask cr pw random_prefix"
  have m: "length ?m = 8" and tag: "length (poly1305_tag cr pw tb random_prefix) = 16"
    using ok by (simp_all add: length_ts_mask length_tag)
  have len: "length token = 32" by (rule make_token_length[OF assms])
  have s1: "slice 0 8 token = random_prefix" using r by (simp add: tok slice_def)
  have s2: "slice 8 16 token = xor_bytes tb ?m" using r m by (simp add: tok tb slice_def)
  have s3: "slice 16 32 token = poly1305_tag cr pw tb random_prefix"
    using r m tag by (simp add: tok tb slice_def)
  have x: "xor_bytes (xor_bytes tb ?m) ?m = tb"
    by (rule xor_bytes_involution) (simp add: m tb)
  have "nat now < 256 ^ 8" using now by simp
  then have "from_be tb = nat now" unfolding tb by (rule from_be_to_be_id)
  moreover have "length tb = 8" by (simp add: tb)
  ultimately have "unpack_Q tb = Inr (nat now)" by (simp add: unpack_Q_def)
  then show ?thesis
    using len now by (simp add: verify_session_token_def s1 s2 s3 x pw Let_def not_less)
qed

section \<open>Fields of a raw ClientHello record\<close>

definition check_client_hello :: "bytes \<Rightarrow> bool" where
  "check_client_hello r \<longleftrightarrow> length r \<ge> 44 \<and> r ! 0 = 0x16 \<and> r ! 5 = 0x01"

definition extract_session_id :: "bytes \<Rightarrow> bytes option" where
  "extract_session_id r =
     (if \<not> check_client_hello r then None
      else let session_id_len = unat (r ! 43) in
        if session_id_len = 0 then Some []
        else let e = 44 + session_id_len in
          if e > length r then None else Some (slice 44 e r))"

definition extract_client_random :: "bytes \<Rightarrow> bytes option" where
  "extract_client_random r = (if \<not> check_client_hello r then None else Some (slice 11 43 r))"

lemma extract_client_random_length: "extract_client_random r = Some cr \<Longrightarrow> length cr = 32"
  by (auto simp: extract_client_random_def check_client_hello_def split: if_splits)

section \<open>The replay cache\<close>

text \<open>
  \<open>_buckets\<close> maps a time bucket to the set of nonces first seen in it; \<open>_total_count\<close> is kept
  beside it so that the size check is constant time.
\<close>

record replay_cache =
  buckets :: "(int, bytes set) odict"
  max_size :: int
  total_count :: int

definition buckets_kept :: int where
  "buckets_kept = 3"

definition new_replay_cache :: "int \<Rightarrow> replay_cache" where
  "new_replay_cache m = \<lparr>buckets = [], max_size = m, total_count = 0\<rparr>"

definition bucket_of :: "int \<Rightarrow> int" where
  "bucket_of now = now div timestamp_tolerance"

definition evict_stale :: "replay_cache \<Rightarrow> int \<Rightarrow> replay_cache" where
  "evict_stale c keep_from =
     (let stale = filter (\<lambda>(b, s). b < keep_from) (buckets c) in
      c\<lparr>total_count := total_count c - sum_list (map (\<lambda>(b, s). int (card s)) stale),
        buckets := filter (\<lambda>(b, s). \<not> b < keep_from) (buckets c)\<rparr>)"

definition bucket_get :: "replay_cache \<Rightarrow> int \<Rightarrow> bytes set" where
  "bucket_get c b = (case od_get (buckets c) b of None \<Rightarrow> {} | Some s \<Rightarrow> s)"

definition seen_from :: "replay_cache \<Rightarrow> int \<Rightarrow> int \<Rightarrow> bytes \<Rightarrow> bool" where
  "seen_from c bucket keep_from nonce = list_ex (\<lambda>b. nonce \<in> bucket_get c b) [keep_from..bucket]"

definition check_and_mark :: "replay_cache \<Rightarrow> int \<Rightarrow> bytes \<Rightarrow> bool \<times> replay_cache" where
  "check_and_mark c now token =
     (let nonce = take 8 token;
          bucket = bucket_of now;
          keep_from = bucket - (buckets_kept - 1);
          c = evict_stale c keep_from
      in if seen_from c bucket keep_from nonce then (False, c)
         else if total_count c < max_size c then
           (True, c\<lparr>buckets := od_set bucket (insert nonce (bucket_get c bucket)) (buckets c),
                    total_count := total_count c + 1\<rparr>)
         else (True, c))"

text \<open>The invariant: distinct buckets, finite sets, and an exact counter below the cap.\<close>

definition replay_inv :: "replay_cache \<Rightarrow> bool" where
  "replay_inv c \<longleftrightarrow> od_ok (buckets c) \<and> (\<forall>(b, s) \<in> set (buckets c). finite s)
     \<and> total_count c = sum_list (map (\<lambda>(b, s). int (card s)) (buckets c))
     \<and> (0 \<le> max_size c \<longrightarrow> total_count c \<le> max_size c)"

lemma replay_inv_new: "replay_inv (new_replay_cache m)"
  by (simp add: replay_inv_def new_replay_cache_def)

lemma sum_list_filter_split:
  "sum_list (map f xs) = sum_list (map f (filter P xs)) + sum_list (map f (filter (\<lambda>x. \<not> P x) xs))"
  for f :: "'a \<Rightarrow> int"
  by (induction xs) auto

lemma od_ok_filter: "od_ok d \<Longrightarrow> od_ok (filter P d)"
  by (simp add: od_ok_def distinct_map_filter)

lemma od_get_filter_key: "od_get (filter (\<lambda>(b, s). P b) d) k = (if P k then od_get d k else None)"
  by (induction d) (auto simp: od_get_def)

lemma evict_stale_inv: "replay_inv c \<Longrightarrow> replay_inv (evict_stale c k)"
proof -
  assume inv: "replay_inv c"
  let ?w = "\<lambda>(b, s). int (card s)"
  have "sum_list (map ?w (buckets c)) = sum_list (map ?w (filter (\<lambda>(b, s). b < k) (buckets c)))
      + sum_list (map ?w (filter (\<lambda>x. \<not> (case x of (b, s) \<Rightarrow> b < k)) (buckets c)))"
    by (rule sum_list_filter_split)
  moreover have "0 \<le> sum_list (map ?w (filter (\<lambda>(b, s). b < k) (buckets c)))"
    by (rule sum_list_nonneg) auto
  ultimately show ?thesis
    using inv by (auto simp: replay_inv_def evict_stale_def Let_def od_ok_filter case_prod_unfold)
qed

lemma sum_list_od_set:
  fixes w :: "'v \<Rightarrow> int"
  assumes "od_ok d"
  shows "sum_list (map (\<lambda>(b, s). w s) (od_set k v d)) =
    sum_list (map (\<lambda>(b, s). w s) d) + w v - (case od_get d k of None \<Rightarrow> 0 | Some s \<Rightarrow> w s)"
  using assms by (induction d) (auto simp: od_get_def od_ok_def)

lemma bucket_get_finite: "replay_inv c \<Longrightarrow> finite (bucket_get c b)"
  by (auto simp: bucket_get_def replay_inv_def od_get_def split: option.split dest!: map_of_SomeD)

lemma set_od_set: "x \<in> set (od_set k v d) \<Longrightarrow> x = (k, v) \<or> x \<in> set d"
  by (induction d) (auto split: if_splits)

lemma seen_from_iff: "seen_from c b k n \<longleftrightarrow> (\<exists>i. k \<le> i \<and> i \<le> b \<and> n \<in> bucket_get c i)"
  by (auto simp: seen_from_def list_ex_iff)

lemma check_and_mark_inv:
  assumes "replay_inv c"
  shows "replay_inv (snd (check_and_mark c now token))"
proof -
  define b where "b = bucket_of now"
  define d where "d = evict_stale c (b - (buckets_kept - 1))"
  define n where "n = take 8 token"
  have inv: "replay_inv d" unfolding d_def by (rule evict_stale_inv[OF assms])
  show ?thesis
  proof (cases "seen_from d b (b - (buckets_kept - 1)) n \<or> \<not> total_count d < max_size d")
    case True
    then show ?thesis
      using inv by (auto simp: check_and_mark_def Let_def d_def[symmetric] b_def[symmetric] n_def[symmetric])
  next
    case False
    have "n \<notin> bucket_get d b" using False by (auto simp: seen_from_iff buckets_kept_def)
    then have card: "int (card (insert n (bucket_get d b))) = int (card (bucket_get d b)) + 1"
      using bucket_get_finite[OF inv, of b] by simp
    have "sum_list (map (\<lambda>(b, s). int (card s)) (od_set b (insert n (bucket_get d b)) (buckets d)))
        = total_count d + 1"
      using inv card sum_list_od_set[of "buckets d" "\<lambda>s. int (card s)" b "insert n (bucket_get d b)"]
      by (auto simp: replay_inv_def bucket_get_def split: option.splits)
    moreover have "finite s" if "(x, s) \<in> set (od_set b (insert n (bucket_get d b)) (buckets d))" for x s
      using set_od_set[OF that] inv bucket_get_finite[OF inv, of b] by (auto simp: replay_inv_def)
    ultimately show ?thesis
      using False inv
      by (auto simp: check_and_mark_def Let_def d_def[symmetric] b_def[symmetric] n_def[symmetric]
          replay_inv_def)
  qed
qed

section \<open>What the cache remembers\<close>

lemma max_size_check [simp]: "max_size (snd (check_and_mark c now token)) = max_size c"
  by (simp add: check_and_mark_def evict_stale_def Let_def)

lemma total_count_evict: "replay_inv c \<Longrightarrow> total_count (evict_stale c k) \<le> total_count c"
proof -
  have "0 \<le> sum_list (map (\<lambda>(b, s). int (card s)) (filter (\<lambda>(b, s). b < k) (buckets c)))"
    by (rule sum_list_nonneg) auto
  then show ?thesis by (simp add: evict_stale_def Let_def)
qed

lemma total_count_check:
  "replay_inv c \<Longrightarrow> total_count (snd (check_and_mark c now token)) \<le> total_count c + 1"
  using total_count_evict[of c "bucket_of now - (buckets_kept - 1)"]
  by (auto simp: check_and_mark_def Let_def)

lemma bucket_get_evict: "k \<le> b \<Longrightarrow> bucket_get (evict_stale c k) b = bucket_get c b"
  by (simp add: bucket_get_def evict_stale_def Let_def od_get_filter_key)

lemma check_keeps:
  assumes "n \<in> bucket_get c b" "bucket_of now - 2 \<le> b"
  shows "n \<in> bucket_get (snd (check_and_mark c now token)) b"
  using assms bucket_get_evict[of "bucket_of now - 2" b c]
  by (auto simp: check_and_mark_def Let_def buckets_kept_def bucket_get_def split: option.splits)

lemma check_rejects:
  assumes "take 8 token \<in> bucket_get c b" "bucket_of now - 2 \<le> b" "b \<le> bucket_of now"
  shows "\<not> fst (check_and_mark c now token)"
proof -
  have "take 8 token \<in> bucket_get (evict_stale c (bucket_of now - 2)) b"
    using assms bucket_get_evict[of "bucket_of now - 2" b c] by simp
  then have "seen_from (evict_stale c (bucket_of now - 2)) (bucket_of now) (bucket_of now - 2) (take 8 token)"
    using assms(2,3) by (auto simp: seen_from_iff)
  then show ?thesis by (simp add: check_and_mark_def Let_def buckets_kept_def)
qed

lemma check_records:
  assumes "fst (check_and_mark c now token)" "replay_inv c" "total_count c < max_size c"
  shows "take 8 token \<in> bucket_get (snd (check_and_mark c now token)) (bucket_of now)"
proof -
  have "total_count (evict_stale c (bucket_of now - 2)) < max_size c"
    using total_count_evict[OF assms(2), of "bucket_of now - 2"] assms(3) by linarith
  then show ?thesis
    using assms(1) by (auto simp: check_and_mark_def Let_def buckets_kept_def bucket_get_def
        evict_stale_def split: if_splits)
qed

text \<open>
  The server's test of one ClientHello: the token verifies and is fresh. A run is a list of
  (time, token) pairs.
\<close>

definition authenticate :: "crypto \<Rightarrow> pystr \<Rightarrow> replay_cache \<Rightarrow> int \<times> bytes \<Rightarrow> bool \<times> replay_cache" where
  "authenticate cr password c ev = (case ev of (now, token) \<Rightarrow>
     if verify_session_token cr password now token = Inr True then check_and_mark c now token
     else (False, c))"

fun auth_run :: "crypto \<Rightarrow> pystr \<Rightarrow> replay_cache \<Rightarrow> (int \<times> bytes) list \<Rightarrow> bool list" where
  "auth_run cr password c [] = []"
| "auth_run cr password c (ev # evs) =
     (let (ok, c') = authenticate cr password c ev in ok # auth_run cr password c' evs)"

lemma length_auth_run [simp]: "length (auth_run cr pw c evs) = length evs"
  by (induction evs arbitrary: c) (auto split: prod.split)

lemma authenticate_inv: "replay_inv c \<Longrightarrow> replay_inv (snd (authenticate cr pw c ev))"
  by (auto simp: authenticate_def check_and_mark_inv split: prod.split)

lemma authenticate_room:
  "replay_inv c \<Longrightarrow> total_count (snd (authenticate cr pw c ev)) \<le> total_count c + 1"
  "max_size (snd (authenticate cr pw c ev)) = max_size c"
  by (auto simp: authenticate_def total_count_check split: prod.split)

lemma authenticate_keeps:
  "n \<in> bucket_get c b \<Longrightarrow> bucket_of (fst ev) - 2 \<le> b \<Longrightarrow> n \<in> bucket_get (snd (authenticate cr pw c ev)) b"
  by (auto simp: authenticate_def check_keeps split: prod.split)

text \<open>A token carries one timestamp, so all its accepting times lie within the tolerance of it.\<close>

lemma verify_window:
  "\<exists>ts. \<forall>now. verify_session_token cr pw now token = Inr True \<longrightarrow> \<bar>now - ts\<bar> \<le> timestamp_tolerance"
proof (cases "utf8_encode pw")
  case (Inl e)
  then show ?thesis by (auto simp: verify_session_token_def Let_def)
next
  case (Inr p)
  define tb where "tb = xor_bytes (slice 8 16 token) (ts_mask cr p (slice 0 8 token))"
  show ?thesis
  proof (cases "unpack_Q tb")
    case (Inl e)
    then show ?thesis using Inr by (auto simp: verify_session_token_def Let_def tb_def[symmetric])
  next
    case ts: (Inr n)
    then have "verify_session_token cr pw now token = Inr True \<longrightarrow> \<bar>now - int n\<bar> \<le> timestamp_tolerance" for now
      using Inr by (auto simp: verify_session_token_def Let_def tb_def[symmetric] split: if_splits)
    then show ?thesis by blast
  qed
qed

lemma verify_gap:
  assumes "verify_session_token cr pw t1 token = Inr True" "verify_session_token cr pw t2 token = Inr True"
  shows "t2 - t1 \<le> 120"
proof -
  obtain ts where "\<bar>t1 - ts\<bar> \<le> 60" "\<bar>t2 - ts\<bar> \<le> 60"
    using verify_window[of cr pw token] assms by (auto simp: timestamp_tolerance_def)
  then show ?thesis by linarith
qed

lemma bucket_of_mono: "t1 \<le> t2 \<Longrightarrow> bucket_of t1 \<le> bucket_of t2"
  by (simp add: bucket_of_def timestamp_tolerance_def zdiv_mono1)

lemma bucket_gap: "t2 - t1 \<le> 120 \<Longrightarrow> bucket_of t2 - 2 \<le> bucket_of t1"
  unfolding bucket_of_def timestamp_tolerance_def by linarith

lemma recorded_rejected:
  assumes "take 8 (snd (evs ! j)) \<in> bucket_get c b" "j < length evs" "sorted (map fst evs)"
    and "bucket_of (fst (evs ! j)) - 2 \<le> b" "\<And>ev. ev \<in> set evs \<Longrightarrow> b \<le> bucket_of (fst ev)"
  shows "\<not> auth_run cr pw c evs ! j"
  using assms
proof (induction evs arbitrary: j c)
  case Nil
  then show ?case by simp
next
  case (Cons ev evs)
  show ?case
  proof (cases j)
    case 0
    then have "\<not> fst (check_and_mark c (fst ev) (snd ev))"
      using Cons.prems(1,4,5) by (intro check_rejects[of _ c b]) auto
    then have "\<not> fst (authenticate cr pw c ev)"
      by (cases ev) (simp add: authenticate_def)
    then show ?thesis using 0 by (simp add: case_prod_beta)
  next
    case (Suc i)
    have "fst ev \<le> fst (evs ! i)" using Cons.prems(2,3) Suc by (auto simp: nth_mem)
    then have "bucket_of (fst ev) - 2 \<le> b"
      using bucket_of_mono[of "fst ev" "fst (evs ! i)"] Cons.prems(4) Suc by simp
    then have rec: "take 8 (snd (evs ! i)) \<in> bucket_get (snd (authenticate cr pw c ev)) b"
      using authenticate_keeps Cons.prems(1) Suc by simp
    have "\<not> auth_run cr pw (snd (authenticate cr pw c ev)) evs ! i"
      by (rule Cons.IH[OF rec]) (use Cons.prems Suc in auto)
    then show ?thesis using Suc by (simp add: case_prod_beta)
  qed
qed

lemma accepted_once:
  assumes "replay_inv c" "total_count c + int (length evs) \<le> max_size c" "sorted (map fst evs)"
    and "i < j" "j < length evs" "snd (evs ! i) = snd (evs ! j)" "auth_run cr pw c evs ! i"
  shows "\<not> auth_run cr pw c evs ! j"
  using assms
proof (induction evs arbitrary: i j c)
  case Nil
  then show ?case by simp
next
  case (Cons ev evs)
  let ?c = "snd (authenticate cr pw c ev)"
  obtain k where k: "j = Suc k" using Cons.prems(4) by (cases j) auto
  have run: "auth_run cr pw c (ev # evs) = fst (authenticate cr pw c ev) # auth_run cr pw ?c evs"
    by (simp add: case_prod_beta)
  show ?case
  proof (cases i)
    case (Suc h)
    have "\<not> auth_run cr pw ?c evs ! k"
    proof (rule Cons.IH)
      show "replay_inv ?c" using Cons.prems(1) by (rule authenticate_inv)
      show "total_count ?c + int (length evs) \<le> max_size ?c"
        using authenticate_room[where ev = ev] Cons.prems(1,2) by (smt (verit) length_Cons of_nat_Suc)
    qed (use Cons.prems run k Suc in auto)
    then show ?thesis using run k by simp
  next
    case 0
    have acc: "fst (authenticate cr pw c ev)" using Cons.prems(7) 0 run by simp
    obtain t tok where ev: "ev = (t, tok)" by (cases ev)
    have v1: "verify_session_token cr pw t tok = Inr True" and chk: "fst (check_and_mark c t tok)"
      and c': "?c = snd (check_and_mark c t tok)"
      using acc by (auto simp: authenticate_def ev split: if_splits)
    have rec: "take 8 tok \<in> bucket_get ?c (bucket_of t)"
      unfolding c' by (rule check_records[OF chk Cons.prems(1)]) (use Cons.prems(2) in simp)
    have tok: "snd (evs ! k) = tok" and kl: "k < length evs" using Cons.prems(5,6) 0 k ev by auto
    show ?thesis
    proof (cases "verify_session_token cr pw (fst (evs ! k)) tok = Inr True")
      case True
      have "\<not> auth_run cr pw ?c evs ! k"
      proof (rule recorded_rejected[where b = "bucket_of t"])
        show "bucket_of (fst (evs ! k)) - 2 \<le> bucket_of t"
          using bucket_gap verify_gap[OF v1 True] by blast
        show "bucket_of t \<le> bucket_of (fst e)" if "e \<in> set evs" for e
          using Cons.prems(3) that ev by (auto intro: bucket_of_mono)
      qed (use rec tok kl Cons.prems(3) in auto)
      then show ?thesis using run k by simp
    next
      case False
      have "\<not> auth_run cr pw c evs ! k" if "k < length evs" "snd (evs ! k) = tok"
        "verify_session_token cr pw (fst (evs ! k)) tok \<noteq> Inr True" for c evs k
        using that by (induction evs arbitrary: c k)
          (auto simp: authenticate_def nth_Cons split: prod.split nat.split)
      then show ?thesis using run k kl tok False by simp
    qed
  qed
qed

section \<open>Properties\<close>

text \<open>C3: A token made at time \<open>now\<close> has 32 bytes and is accepted at \<open>now'\<close> exactly when the two
  clocks differ by at most the tolerance, whatever the hash functions compute.\<close>

theorem token_accepted_iff_fresh:
  assumes "crypto_ok cr" "length random_prefix = 8"
    and "make_session_token cr password now random_prefix = Inr token"
  shows "length token = 32
    \<and> verify_session_token cr password now' token = Inr (\<bar>now' - now\<bar> \<le> timestamp_tolerance)"
  using make_token_length[OF assms] verify_make_token[OF assms] by blast

text \<open>A concrete instance of the hash functions, for the witnesses.\<close>

definition zero_crypto :: crypto where
  "zero_crypto = \<lparr>sha256 = (\<lambda>_. replicate 32 0), hmac_sha256 = (\<lambda>_ _. replicate 32 0),
     poly1305 = (\<lambda>_ _. replicate 16 0)\<rparr>"

lemma zero_crypto_ok: "crypto_ok zero_crypto"
  by (simp add: crypto_ok_def zero_crypto_def)

definition zero_token :: bytes where
  "zero_token = replicate 8 1 @ [0, 0, 0, 0, 0, 0, 3, 232] @ replicate 16 0"

lemma replicate_num: "replicate (numeral k) x = x # replicate (pred_numeral k) x"
  by (simp add: numeral_eq_Suc)

lemma zero_token_made: "make_session_token zero_crypto (U ''p'') 1000 (replicate 8 1) = Inr zero_token"
  by (simp add: make_session_token_def zero_crypto_def zero_token_def pack_Q_def eval_be U_def utf8_cp_def
      ts_mask_def poly1305_tag_def xor_bytes_def Let_def replicate_num)

theorem token_accepted_iff_fresh_witness:
  "length zero_token = 32 \<and> verify_session_token zero_crypto (U ''p'') 1061 zero_token = Inr False"
  using token_accepted_iff_fresh[OF zero_crypto_ok _ zero_token_made, of 1061]
  by (simp add: timestamp_tolerance_def)

text \<open>However many tokens at whatever times the server checks, the replay cache keeps its counter
  equal to the number of stored nonces and within the configured maximum.\<close>

theorem replay_cache_bounded:
  "replay_inv (foldl (\<lambda>c ev. snd (check_and_mark c (fst ev) (snd ev))) (new_replay_cache m) evs)"
proof (induction evs rule: rev_induct)
  case Nil
  then show ?case by (simp add: replay_inv_new)
next
  case (snoc ev evs)
  then show ?case by (simp add: check_and_mark_inv)
qed



text \<open>When the clock steps back across a bucket boundary between two uses of a token, the replay
  cache does not see the first use: the second is reported as fresh.\<close>

theorem replay_after_clock_step_back:
  assumes "bucket_of t2 < bucket_of t1" "0 < m"
  shows "fst (check_and_mark (snd (check_and_mark (new_replay_cache m) t1 token)) t2 token)"
  using assms
  by (auto simp: check_and_mark_def new_replay_cache_def evict_stale_def seen_from_iff bucket_get_def Let_def
      od_get_def)

theorem replay_after_clock_step_back_witness:
  "fst (check_and_mark (snd (check_and_mark (new_replay_cache 10) 1021 zero_token)) 1015 zero_token)"
  by (rule replay_after_clock_step_back) (simp_all add: bucket_of_def timestamp_tolerance_def)

end
