(* ===== verification/Tls_Raw.thy ===== *)
theory Tls_Raw
  imports Hello_Auth
begin

text \<open>
  The ClientHello builder (core/tls_raw.py): extensions, the three browser profiles and the record
  assembly. \<open>os.urandom\<close> and \<open>random.choice\<close> are arguments: the client random, the ephemeral key
  and the chosen profile, whose Chrome form carries the GREASE value drawn.
\<close>

section \<open>Building blocks\<close>

text \<open>A concatenation of parts, the first failing part giving the exception.\<close>

fun concatE :: "(py_error + bytes) list \<Rightarrow> py_error + bytes" where
  "concatE [] = Inr []"
| "concatE (x # xs) = bindE x (\<lambda>b. bindE (concatE xs) (\<lambda>bs. Inr (b @ bs)))"

definition grease_values :: "nat list" where
  "grease_values =
     [0x0A0A, 0x1A1A, 0x2A2A, 0x3A3A, 0x4A4A, 0x5A5A, 0x6A6A, 0x7A7A,
      0x8A8A, 0x9A9A, 0xAAAA, 0xBABA, 0xCACA, 0xDADA, 0xEAEA, 0xFAFA]"

definition ext :: "nat \<Rightarrow> bytes \<Rightarrow> py_error + bytes" where
  "ext ext_type data = concatE [pack_be 2 ext_type, pack_be 2 (length data), Inr data]"

definition sni_ext :: "bytes \<Rightarrow> py_error + bytes" where
  "sni_ext sni_bytes =
     bindE (concatE [Inr [0], pack_be 2 (length sni_bytes), Inr sni_bytes]) (\<lambda>entry.
     bindE (concatE [pack_be 2 (length entry), Inr entry]) (\<lambda>d. ext 0x0000 d))"

definition alpn_ext :: "py_error + bytes" where
  "alpn_ext = (let protos = [2] @ B ''h2'' @ [8] @ B ''http/1.1'' in
     bindE (concatE [pack_be 2 (length protos), Inr protos]) (\<lambda>d. ext 0x0010 d))"

definition key_share_ext :: "nat option \<Rightarrow> bytes \<Rightarrow> py_error + bytes" where
  "key_share_ext grease_val eph_pub =
     bindE (concatE [pack_be 2 0x001D, pack_be 2 32, Inr eph_pub]) (\<lambda>x25519_ks.
     bindE (case grease_val of
         Some g \<Rightarrow> concatE [pack_be 2 g, pack_be 2 1, Inr [0], Inr x25519_ks]
       | None \<Rightarrow> Inr x25519_ks) (\<lambda>ks_list.
     bindE (concatE [pack_be 2 (length ks_list), Inr ks_list]) (\<lambda>d. ext 0x0033 d)))"

text \<open>\<open>struct.pack("!nH", ...)\<close> over constants below 65536.\<close>

definition pack_Hs :: "nat list \<Rightarrow> bytes" where
  "pack_Hs ns = concat (map (to_be 2) ns)"

definition vec16 :: "nat list \<Rightarrow> py_error + bytes" where
  "vec16 ns = concatE [pack_be 2 (length (pack_Hs ns)), Inr (pack_Hs ns)]"

definition assemble :: "bytes \<Rightarrow> bytes \<Rightarrow> bytes \<Rightarrow> bytes \<Rightarrow> py_error + bytes" where
  "assemble session_id client_random cipher_suites extensions =
     bindE (concatE
       [Inr [0x03, 0x03], Inr client_random,
        (if length session_id < 256 then Inr [of_nat (length session_id)] else Inl ValueError),
        Inr session_id,
        pack_be 2 (length cipher_suites), Inr cipher_suites,
        Inr [0x01, 0x00],
        pack_be 2 (length extensions), Inr extensions]) (\<lambda>hello_body.
     bindE (pack_be 4 (length hello_body)) (\<lambda>len4.
       let hs = [0x01] @ tl len4 @ hello_body in
       concatE [Inr [0x16, 0x03, 0x01], pack_be 2 (length hs), Inr hs]))"

section \<open>The browser profiles\<close>

definition chrome_ciphers :: "nat \<Rightarrow> nat list" where
  "chrome_ciphers gv = [gv, 0x1301, 0x1302, 0x1303, 0xC02B, 0xC02F, 0xC02C, 0xC030, 0x009C, 0x00FF]"

definition chrome :: "nat \<Rightarrow> bytes \<Rightarrow> bytes \<Rightarrow> bytes \<Rightarrow> bytes \<Rightarrow> py_error + bytes" where
  "chrome gv eph_pub sni_bytes session_id client_random =
     bindE (concatE
       [ext gv [0],
        sni_ext sni_bytes,
        ext 0x0017 [],
        ext 0xFF01 [0],
        bindE (vec16 [gv, 0x001D, 0x0017, 0x0018]) (ext 0x000A),
        ext 0x000B [1, 0],
        ext 0x0023 [],
        ext 0x0005 [1, 0, 0, 0, 0],
        alpn_ext,
        bindE (vec16 [0x0403, 0x0804, 0x0401, 0x0503, 0x0805, 0x0501, 0x0806, 0x0601, 0x0201]) (ext 0x000D),
        key_share_ext (Some gv) eph_pub,
        ext 0x002D [1, 1],
        ext 0x002B [4, 3, 4, 3, 3],
        ext gv [0]]) (\<lambda>exts.
     assemble session_id client_random (pack_Hs (chrome_ciphers gv)) exts)"

definition firefox_ciphers :: "nat list" where
  "firefox_ciphers = [0x1301, 0x1303, 0x1302, 0xC02B, 0xC02F, 0xCCA9, 0xCCA8, 0xC02C, 0xC030,
     0xC009, 0xC013, 0x009C]"

definition firefox :: "bytes \<Rightarrow> bytes \<Rightarrow> bytes \<Rightarrow> bytes \<Rightarrow> py_error + bytes" where
  "firefox eph_pub sni_bytes session_id client_random =
     bindE (concatE
       [sni_ext sni_bytes,
        ext 0x0017 [],
        ext 0xFF01 [0],
        bindE (vec16 [0x001D, 0x0017, 0x0018, 0x0019, 0x0100, 0x0101]) (ext 0x000A),
        ext 0x000B [1, 0],
        ext 0x0023 [],
        alpn_ext,
        ext 0x0005 [1, 0, 0, 0, 0],
        bindE (vec16 [0x0403, 0x0503, 0x0603, 0x0804, 0x0805, 0x0806, 0x0401, 0x0501, 0x0601, 0x0201,
            0x0203]) (ext 0x000D),
        key_share_ext None eph_pub,
        ext 0x002D [1, 1],
        ext 0x002B [4, 3, 4, 3, 3],
        ext 0x001B [2, 0, 2],
        ext 0x0031 [],
        ext 0x001C [0x40, 1]]) (\<lambda>exts.
     assemble session_id client_random (pack_Hs firefox_ciphers) exts)"

definition safari_ciphers :: "nat list" where
  "safari_ciphers = [0x1301, 0x1302, 0x1303, 0xC02C, 0xC02B, 0xC030, 0xC02F, 0xCCA9, 0xCCA8,
     0xC024, 0xC023, 0xC00A, 0xC009, 0x009D, 0x009C]"

definition safari :: "bytes \<Rightarrow> bytes \<Rightarrow> bytes \<Rightarrow> bytes \<Rightarrow> py_error + bytes" where
  "safari eph_pub sni_bytes session_id client_random =
     bindE (concatE
       [ext 0xFF01 [0],
        sni_ext sni_bytes,
        ext 0x0017 [],
        ext 0x0023 [],
        bindE (vec16 [0x0403, 0x0804, 0x0401, 0x0503, 0x0603, 0x0805, 0x0806, 0x0501, 0x0601, 0x0203,
            0x0201]) (ext 0x000D),
        ext 0x0005 [1, 0, 0, 0, 0],
        alpn_ext,
        bindE (vec16 [0x001D, 0x0017, 0x0018, 0x0019]) (ext 0x000A),
        ext 0x000B [1, 0],
        ext 0x001B [4, 0, 1, 0, 2],
        ext 0x0031 [],
        key_share_ext None eph_pub,
        ext 0x002D [1, 1],
        ext 0x002B [4, 3, 4, 3, 3]]) (\<lambda>exts.
     assemble session_id client_random (pack_Hs safari_ciphers) exts)"

datatype profile = Chrome nat | Firefox | Safari

definition profile_ok :: "profile \<Rightarrow> bool" where
  "profile_ok p = (case p of Chrome gv \<Rightarrow> gv \<in> set grease_values | Firefox \<Rightarrow> True | Safari \<Rightarrow> True)"

definition run_builder :: "profile \<Rightarrow> bytes \<Rightarrow> bytes \<Rightarrow> bytes \<Rightarrow> bytes \<Rightarrow> py_error + bytes" where
  "run_builder p = (case p of Chrome gv \<Rightarrow> chrome gv | Firefox \<Rightarrow> firefox | Safari \<Rightarrow> safari)"

text \<open>
  \<open>build_client_hello\<close>: the assertion on the session id is an error value (\<open>AssertionError\<close> is not
  caught anywhere, \<open>ValueError\<close> stands for it).
\<close>

definition build_client_hello ::
  "profile \<Rightarrow> bytes \<Rightarrow> bytes \<Rightarrow> pystr \<Rightarrow> bytes \<Rightarrow> py_error + (bytes \<times> bytes)" where
  "build_client_hello p eph_pub client_random server_name session_id =
     (if length session_id \<noteq> 32 then Inl ValueError
      else bindE (utf8_encode server_name) (\<lambda>sni_bytes.
           bindE (run_builder p eph_pub sni_bytes session_id client_random) (\<lambda>rec.
           Inr (rec, client_random))))"

definition build_fake_client_tail :: "bytes \<Rightarrow> py_error + bytes" where
  "build_fake_client_tail finished_body =
     concatE [Inr [0x14, 0x03, 0x03, 0x00, 0x01, 0x01], Inr [0x17, 0x03, 0x03],
       pack_be 2 (length finished_body), Inr finished_body]"

section \<open>Shape of a built record\<close>

lemma concatE_Cons_Inr_iff:
  "concatE (x # xs) = Inr r \<longleftrightarrow> (\<exists>b bs. x = Inr b \<and> concatE xs = Inr bs \<and> r = b @ bs)"
  by (auto simp: bindE_Inr_iff)

lemma ext_Inr_iff:
  "ext ty d = Inr e \<longleftrightarrow> ty < 65536 \<and> length d < 65536 \<and> e = to_be 2 ty @ to_be 2 (length d) @ d"
  by (auto simp: ext_def bindE_Inr_iff pack_be_Inr_iff)

lemma sni_ext_Inr_iff:
  "sni_ext s = Inr e \<longleftrightarrow> length s + 5 < 65536 \<and>
     e = to_be 2 0 @ to_be 2 (length s + 5) @ to_be 2 (length s + 3) @ [0] @ to_be 2 (length s) @ s"
proof -
  have n: "length s + 5 = Suc (Suc (Suc (Suc (Suc (length s)))))" "length s + 3 = Suc (Suc (Suc (length s)))"
    by simp_all
  show ?thesis
    by (auto simp: sni_ext_def bindE_Inr_iff pack_be_Inr_iff ext_Inr_iff n)
qed

lemma tl_to_be_4: "tl (to_be 4 n) = to_be 3 n"
proof -
  have "4 = Suc 3" by simp
  then show ?thesis by (simp only: to_be.simps list.sel)
qed

text \<open>Everything up to the session id sits at the offsets the parsers use.\<close>

definition hello_body_of :: "bytes \<Rightarrow> bytes \<Rightarrow> bytes \<Rightarrow> bytes \<Rightarrow> bytes" where
  "hello_body_of cr sid cs exts = [0x03, 0x03] @ cr @ [of_nat (length sid)] @ sid
     @ to_be 2 (length cs) @ cs @ [0x01, 0x00] @ to_be 2 (length exts) @ exts"

lemma assemble_body:
  "concatE
     [Inr [0x03, 0x03], Inr cr, (if length sid < 256 then Inr [of_nat (length sid)] else Inl ValueError),
      Inr sid, pack_be 2 (length cs), Inr cs, Inr [0x01, 0x00], pack_be 2 (length exts), Inr exts] = Inr b
   \<longleftrightarrow> length sid < 256 \<and> length cs < 65536 \<and> length exts < 65536 \<and> b = hello_body_of cr sid cs exts"
  by (auto simp: pack_be_def hello_body_of_def bindE_Inr_iff split: if_splits simp del: to_be.simps)

lemma assemble_header:
  "bindE (pack_be 4 (length b)) (\<lambda>len4. let hs = [0x01] @ tl len4 @ b in
     concatE [Inr [0x16, 0x03, 0x01], pack_be 2 (length hs), Inr hs]) = Inr r
   \<longleftrightarrow> length b + 4 < 65536 \<and> r = [0x16, 0x03, 0x01] @ to_be 2 (length b + 4) @ [0x01] @ to_be 3 (length b) @ b"
proof (cases "length b < 2 ^ 24")
  case True
  then have "pack_be 4 (length b) = Inr (to_be 4 (length b))" by (simp add: pack_be_def)
  moreover have "length ([0x01] @ to_be 3 (length b) @ b) = length b + 4" by simp
  ultimately show ?thesis
    by (auto simp: tl_to_be_4 Let_def bindE_Inr_iff pack_be_Inr_iff add.commute[of 4] simp del: to_be.simps)
next
  case False
  then show ?thesis
    by (auto simp: bindE_Inr_iff pack_be_Inr_iff Let_def simp del: to_be.simps)
qed

lemma assemble_Inr_iff:
  "assemble sid cr cs exts = Inr r \<longleftrightarrow>
     length sid < 256 \<and> length cs < 65536 \<and> length exts < 65536
     \<and> length (hello_body_of cr sid cs exts) + 4 < 65536
     \<and> r = [0x16, 0x03, 0x01] @ to_be 2 (length (hello_body_of cr sid cs exts) + 4)
         @ [0x01] @ to_be 3 (length (hello_body_of cr sid cs exts)) @ hello_body_of cr sid cs exts"
  unfolding assemble_def bindE_Inr_iff[of "concatE _"] assemble_body assemble_header by auto

lemma length_grease: "gv \<in> set grease_values \<Longrightarrow> gv < 65536 \<and> gv \<noteq> 0"
  by (auto simp: grease_values_def)

text \<open>
  Each profile assembles its record from cipher suites and an extension block that starts with the
  SNI extension, or with one other extension followed by it.
\<close>

lemma run_builder_shape:
  assumes "profile_ok p" "run_builder p eph sni sid cr = Inr r"
  obtains cs pre s post where "assemble sid cr cs (pre @ s @ post) = Inr r" "sni_ext sni = Inr s"
    "pre = [] \<or> (\<exists>ty d. ty \<noteq> 0 \<and> ext ty d = Inr pre)"
proof (cases p)
  case (Chrome gv)
  then obtain exts where e: "concatE (ext gv [0] # sni_ext sni # tl (tl
       [ext gv [0], sni_ext sni, ext 0x0017 [], ext 0xFF01 [0],
        bindE (vec16 [gv, 0x001D, 0x0017, 0x0018]) (ext 0x000A), ext 0x000B [1, 0], ext 0x0023 [],
        ext 0x0005 [1, 0, 0, 0, 0], alpn_ext,
        bindE (vec16 [0x0403, 0x0804, 0x0401, 0x0503, 0x0805, 0x0501, 0x0806, 0x0601, 0x0201]) (ext 0x000D),
        key_share_ext (Some gv) eph, ext 0x002D [1, 1], ext 0x002B [4, 3, 4, 3, 3], ext gv [0]])) = Inr exts"
    and a: "assemble sid cr (pack_Hs (chrome_ciphers gv)) exts = Inr r"
    using assms(2) by (auto simp: run_builder_def chrome_def bindE_Inr_iff[of "concatE _"] simp del: concatE.simps)
  obtain pre s post where "ext gv [0] = Inr pre" "sni_ext sni = Inr s" "exts = pre @ s @ post"
    using e unfolding concatE_Cons_Inr_iff by blast
  moreover have "gv \<noteq> 0" using assms(1) Chrome length_grease by (auto simp: profile_ok_def)
  ultimately show thesis using a that by blast
next
  case Firefox
  then obtain exts where e: "concatE (sni_ext sni # tl
       [sni_ext sni, ext 0x0017 [], ext 0xFF01 [0],
        bindE (vec16 [0x001D, 0x0017, 0x0018, 0x0019, 0x0100, 0x0101]) (ext 0x000A),
        ext 0x000B [1, 0], ext 0x0023 [], alpn_ext, ext 0x0005 [1, 0, 0, 0, 0],
        bindE (vec16 [0x0403, 0x0503, 0x0603, 0x0804, 0x0805, 0x0806, 0x0401, 0x0501, 0x0601, 0x0201,
            0x0203]) (ext 0x000D),
        key_share_ext None eph, ext 0x002D [1, 1], ext 0x002B [4, 3, 4, 3, 3], ext 0x001B [2, 0, 2],
        ext 0x0031 [], ext 0x001C [0x40, 1]]) = Inr exts"
    and a: "assemble sid cr (pack_Hs firefox_ciphers) exts = Inr r"
    using assms(2) by (auto simp: run_builder_def firefox_def bindE_Inr_iff[of "concatE _"] simp del: concatE.simps)
  obtain s post where "sni_ext sni = Inr s" "exts = [] @ s @ post"
    using e unfolding concatE_Cons_Inr_iff by auto
  then show thesis using a that by blast
next
  case Safari
  then obtain exts where e: "concatE (ext 0xFF01 [0] # sni_ext sni # tl (tl
       [ext 0xFF01 [0], sni_ext sni, ext 0x0017 [], ext 0x0023 [],
        bindE (vec16 [0x0403, 0x0804, 0x0401, 0x0503, 0x0603, 0x0805, 0x0806, 0x0501, 0x0601, 0x0203,
            0x0201]) (ext 0x000D),
        ext 0x0005 [1, 0, 0, 0, 0], alpn_ext,
        bindE (vec16 [0x001D, 0x0017, 0x0018, 0x0019]) (ext 0x000A),
        ext 0x000B [1, 0], ext 0x001B [4, 0, 1, 0, 2], ext 0x0031 [], key_share_ext None eph,
        ext 0x002D [1, 1], ext 0x002B [4, 3, 4, 3, 3]])) = Inr exts"
    and a: "assemble sid cr (pack_Hs safari_ciphers) exts = Inr r"
    using assms(2) by (auto simp: run_builder_def safari_def bindE_Inr_iff[of "concatE _"] simp del: concatE.simps)
  obtain pre s post where "ext 0xFF01 [0] = Inr pre" "sni_ext sni = Inr s" "exts = pre @ s @ post"
    using e unfolding concatE_Cons_Inr_iff by blast
  moreover have "(0xFF01::nat) \<noteq> 0" by simp
  ultimately show thesis using a that by blast
qed

lemma assemble_fields:
  assumes "assemble sid cr cs exts = Inr r" "length sid = 32" "length cr = 32"
  shows "extract_session_id r = Some sid" "extract_client_random r = Some cr"
proof -
  let ?b = "hello_body_of cr sid cs exts"
  have r: "r = ([0x16, 0x03, 0x01] @ to_be 2 (length ?b + 4) @ [0x01] @ to_be 3 (length ?b)) @ ?b"
    using assms(1) by (simp add: assemble_Inr_iff)
  define h where "h = [0x16, 0x03, 0x01] @ to_be 2 (length ?b + 4) @ [0x01] @ to_be 3 (length ?b)"
  have h: "length h = 9" "h ! 0 = 0x16" "h ! 5 = 0x01"
    by (simp_all add: h_def nth_append)
  have b: "?b = [0x03, 0x03] @ cr @ [32] @ sid @ drop 67 ?b"
    using assms(2,3) by (simp add: hello_body_of_def)
  have lb: "67 \<le> length ?b" using assms(2,3) by (simp add: hello_body_of_def)
  have rb: "r = h @ [0x03, 0x03] @ cr @ [32] @ sid @ drop 67 ?b"
    using r b by (simp add: h_def)
  have c: "check_client_hello r"
    using h lb assms(2,3) by (simp add: check_client_hello_def rb nth_append)
  have "r ! 43 = 32" using h(1) assms(3) by (simp add: rb nth_append)
  moreover have "slice 44 76 r = sid" using h(1) assms(2,3) by (simp add: rb slice_def)
  moreover have "76 \<le> length r" using h(1) assms(2,3) by (simp add: rb)
  ultimately show "extract_session_id r = Some sid"
    using c by (simp add: extract_session_id_def)
  have "slice 11 43 r = cr" using h(1) assms(2,3) by (simp add: rb slice_def)
  then show "extract_client_random r = Some cr" using c by (simp add: extract_client_random_def)
qed

lemma build_client_hello_fields:
  assumes "profile_ok p" "length cr = 32" "build_client_hello p eph cr name sid = Inr (r, cr')"
  shows "extract_session_id r = Some sid \<and> extract_client_random r = Some cr \<and> cr' = cr \<and> length sid = 32"
proof -
  obtain sni where "run_builder p eph sni sid cr = Inr r" and sid: "length sid = 32" and "cr' = cr"
    using assms(3) by (auto simp: build_client_hello_def bindE_Inr_iff split: if_splits)
  moreover from run_builder_shape[OF assms(1) this(1)] obtain cs e where "assemble sid cr cs e = Inr r"
    by blast
  ultimately show ?thesis using assemble_fields[OF _ sid assms(2)] by blast
qed

section \<open>Properties\<close>

text \<open>Whatever browser profile is drawn, the record the client builds carries the session token and
  the client random where the server reads them, and every session id it can carry has 32 bytes.\<close>

theorem client_hello_carries_token:
  assumes "profile_ok p" "length cr = 32" "build_client_hello p eph cr name sid = Inr (r, cr')"
  shows "extract_session_id r = Some sid \<and> extract_client_random r = Some cr \<and> cr' = cr
    \<and> length sid = 32"
  by (rule build_client_hello_fields[OF assms])

definition sample_hello :: "bytes \<Rightarrow> bool" where
  "sample_hello r \<longleftrightarrow> build_client_hello Firefox (replicate 32 5) (replicate 32 7) (U ''a.B'') (replicate 32 9)
     = Inr (r, replicate 32 7)"

lemma sample_build:
  "length sid = 32 \<Longrightarrow> \<exists>r. build_client_hello Firefox (replicate 32 5) (replicate 32 7) (U ''a.B'') sid
     = Inr (r, replicate 32 7) \<and> length r \<le> 700"
  by (simp add: build_client_hello_def run_builder_def firefox_def assemble_def sni_ext_def
      ext_def alpn_ext_def key_share_ext_def vec16_def pack_Hs_def pack_be_def U_def B_def utf8_cp_def
      firefox_ciphers_def Let_def del: to_be.simps replicate.simps)

lemma sample_hello_exists: "\<exists>r. sample_hello r \<and> length r \<le> 700"
  unfolding sample_hello_def by (rule sample_build) simp

theorem client_hello_carries_token_witness:
  "\<exists>r. sample_hello r \<and> extract_session_id r = Some (replicate 32 9)"
proof -
  obtain r where r: "sample_hello r" using sample_hello_exists by blast
  then show ?thesis
    using client_hello_carries_token[of Firefox "replicate 32 7" "replicate 32 5" "U ''a.B''" "replicate 32 9" r]
    by (auto simp: sample_hello_def profile_ok_def)
qed

end
