(* ===== verification/Sniffer.thy ===== *)
theory Sniffer
  imports Streams Tls_Raw
begin

text \<open>
  Sniffing a host name from the first bytes of a connection and giving the bytes back
  (core/sniffer.py): \<open>sniff_tls_sni\<close>, \<open>sniff_http_host\<close>, \<open>sniff_domain\<close> and \<open>PrefixedReader\<close>, which
  implements the \<open>stream_reader\<close> contract over a raw reader.
\<close>

section \<open>TLS SNI\<close>

text \<open>The walk over the extensions, from \<open>offset\<close> while a header fits before \<open>ext_end\<close>.\<close>

function sni_loop :: "bytes \<Rightarrow> nat \<Rightarrow> nat \<Rightarrow> pystr option" where
  "sni_loop hello offset ext_end =
     (if offset + 4 \<le> ext_end then
        let ext_type = from_be (slice offset (offset + 2) hello);
            ext_len = from_be (slice (offset + 2) (offset + 4) hello);
            ext_data = slice (offset + 4) (offset + 4 + ext_len) hello
        in if ext_type = 0 \<and> 5 \<le> length ext_data
              \<and> 5 + from_be (slice 3 5 ext_data) \<le> length ext_data
           then Some (py_lower (ascii_replace (slice 5 (5 + from_be (slice 3 5 ext_data)) ext_data)))
           else sni_loop hello (offset + (4 + ext_len)) ext_end
      else None)"
  by pat_completeness auto
termination
  by (relation "measure (\<lambda>(h, off, e). e - off)") auto

declare sni_loop.simps [simp del]

definition sniff_tls_sni :: "bytes \<Rightarrow> pystr option" where
  "sniff_tls_sni data =
     (if length data < 5 \<or> data ! 0 \<noteq> 0x16 then None
      else let hs = drop 5 data in
      if hs = [] \<or> hs ! 0 \<noteq> 0x01 then None
      else let hs_len = from_be (slice 1 4 hs);
               hello = slice 4 (4 + hs_len) hs;
               offset = 34 in
      if length hello \<le> offset then None
      else let sid_len = unat (hello ! offset); offset = offset + (1 + sid_len) in
      if length hello < offset + 2 then None
      else let cs_len = from_be (slice offset (offset + 2) hello); offset = offset + (2 + cs_len) in
      if length hello < offset + 1 then None
      else let cm_len = unat (hello ! offset); offset = offset + (1 + cm_len) in
      if length hello < offset + 2 then None
      else let ext_end = offset + 2 + from_be (slice offset (offset + 2) hello)
        in sni_loop hello (offset + 2) ext_end)"

section \<open>HTTP Host\<close>

fun host_line :: "pystr list \<Rightarrow> pystr option" where
  "host_line [] = None"
| "host_line (line # ls) =
     (if prefix (U ''host:'') (py_lower line) then
        let host = py_strip (drop 5 line) in
        Some (py_lower (case rpartition1 58 host of Some (a, b) \<Rightarrow> a | None \<Rightarrow> host))
      else host_line ls)"

definition sniff_http_host :: "bytes \<Rightarrow> pystr option" where
  "sniff_http_host data =
     (let header_part = (case find_sub [13, 10, 13, 10] data of None \<Rightarrow> data | Some i \<Rightarrow> take i data);
          text = ascii_replace header_part
      in host_line (tl (split_sub [13, 10] text)))"

section \<open>Sniffing a stream\<close>

definition sniff_bytes :: nat where
  "sniff_bytes = 1024"

text \<open>An empty string is falsy, so it does not stop the search.\<close>

definition sniffed :: "bytes \<Rightarrow> pystr option" where
  "sniffed raw = (case sniff_tls_sni raw of
      Some d \<Rightarrow> if d \<noteq> [] then Some d else
        (case sniff_http_host raw of Some h \<Rightarrow> if h \<noteq> [] then Some h else None | None \<Rightarrow> None)
    | None \<Rightarrow> (case sniff_http_host raw of Some h \<Rightarrow> if h \<noteq> [] then Some h else None | None \<Rightarrow> None))"

text \<open>
  \<open>sniff_loop k s buffered\<close>: \<open>k\<close> is the number of reads that return before the deadline. The result
  is the domain, the bytes read and what is left of the stream.
\<close>

fun sniff_loop :: "nat \<Rightarrow> bytes list \<Rightarrow> bytes \<Rightarrow> pystr option \<times> bytes \<times> bytes list" where
  "sniff_loop 0 s buffered = (None, buffered, s)"
| "sniff_loop (Suc k) s buffered =
     (if \<not> length buffered < sniff_bytes then (None, buffered, s)
      else let (chunk, s') = raw_read (int (sniff_bytes - length buffered)) s in
        if chunk = [] then (None, buffered, s')
        else let raw = buffered @ chunk in
          (case sniffed raw of Some d \<Rightarrow> (Some d, raw, s') | None \<Rightarrow> sniff_loop k s' raw))"

definition sniff_domain :: "nat \<Rightarrow> bytes list \<Rightarrow> pystr option \<times> bytes \<times> bytes list" where
  "sniff_domain k s = sniff_loop k s []"

lemma sniff_loop_keeps:
  assumes "length buffered \<le> sniff_bytes" "sniff_loop k s buffered = (d, b, s')"
  shows "b @ concat s' = buffered @ concat s \<and> length b \<le> sniff_bytes \<and> (\<forall>x. d = Some x \<longrightarrow> sniffed b = Some x)"
  using assms
proof (induction k s buffered rule: sniff_loop.induct)
  case (1 s buffered)
  then show ?case by simp
next
  case (2 k s buffered)
  let ?n = "int (sniff_bytes - length buffered)"
  obtain c t where r: "raw_read ?n s = (c, t)" by fastforce
  have ct: "c @ concat t = concat s" using raw_read_concat[of ?n s] r by simp
  have "int (length c) \<le> ?n" using raw_read_length[of ?n s] r by simp
  then have len: "length (buffered @ c) \<le> sniff_bytes" using 2(2) by simp
  show ?case
  proof (cases "length buffered < sniff_bytes \<and> c \<noteq> [] \<and> sniffed (buffered @ c) = None")
    case True
    then have "b @ concat s' = (buffered @ c) @ concat t \<and> length b \<le> sniff_bytes
        \<and> (\<forall>x. d = Some x \<longrightarrow> sniffed b = Some x)"
      using 2 r len by (intro 2(1)[OF _ r[symmetric]]) auto
    then show ?thesis using ct by simp
  next
    case False
    then show ?thesis using 2(2,3) r ct len by (auto split: if_splits option.splits)
  qed
qed

section \<open>PrefixedReader\<close>

text \<open>The state: the prefix, the position in it, and the raw reader's chunks.\<close>

record prefixed =
  pr_prefix :: bytes
  pr_pos :: nat
  pr_reader :: "bytes list"

definition new_prefixed :: "bytes list \<Rightarrow> bytes \<Rightarrow> prefixed" where
  "new_prefixed r p = \<lparr>pr_prefix = p, pr_pos = 0, pr_reader = r\<rparr>"

definition pr_remaining :: "prefixed \<Rightarrow> bytes" where
  "pr_remaining p = drop (pr_pos p) (pr_prefix p)"

definition pr_abs :: "prefixed \<Rightarrow> bytes" where
  "pr_abs p = pr_remaining p @ concat (pr_reader p)"

definition pr_read :: "int \<Rightarrow> prefixed \<Rightarrow> bytes \<times> prefixed" where
  "pr_read n p = (let remaining = pr_remaining p in
     if remaining \<noteq> [] then
       let chunk = (if n < 0 \<or> int (length remaining) \<le> n then remaining else take (nat n) remaining)
       in (chunk, p\<lparr>pr_pos := pr_pos p + length chunk\<rparr>)
     else let (c, r) = raw_read n (pr_reader p) in (c, p\<lparr>pr_reader := r\<rparr>))"

definition pr_readexactly :: "nat \<Rightarrow> (prefixed, bytes) reading" where
  "pr_readexactly n p = (let remaining = pr_remaining p in
     if n \<le> length remaining then (Inr (take n remaining), p\<lparr>pr_pos := pr_pos p + n\<rparr>)
     else let p = p\<lparr>pr_pos := length (pr_prefix p)\<rparr>;
              (rest, r) = raw_readexactly (n - length remaining) (pr_reader p)
          in (case rest of Inl e \<Rightarrow> Inl e | Inr b \<Rightarrow> Inr (remaining @ b), p\<lparr>pr_reader := r\<rparr>))"

text \<open>The longest suffix of \<open>buf\<close> that is a proper prefix of the separator.\<close>

definition overlap :: "bytes \<Rightarrow> bytes \<Rightarrow> nat" where
  "overlap buf sep = (case find (\<lambda>k. drop (length buf - k) buf = take k sep)
       (rev [1..<Suc (min (length buf) (length sep - 1))]) of Some k \<Rightarrow> k | None \<Rightarrow> 0)"

definition pr_readuntil :: "nat \<Rightarrow> bytes \<Rightarrow> (prefixed, bytes) reading" where
  "pr_readuntil limit sep p = (let remaining = pr_remaining p in
     case find_sub sep remaining of
       Some idx \<Rightarrow> (let e = idx + length sep in (Inr (take e remaining), p\<lparr>pr_pos := pr_pos p + e\<rparr>))
     | None \<Rightarrow>
        (let p = p\<lparr>pr_pos := length (pr_prefix p)\<rparr>;
             buf = remaining;
             rest = (\<lambda>buf. bindR (\<lambda>p. let (x, r) = raw_readuntil limit sep (pr_reader p) in (x, p\<lparr>pr_reader := r\<rparr>))
                (\<lambda>b. retR (buf @ b)));
             k = (if buf \<noteq> [] \<and> 1 < length sep then overlap buf sep else 0)
         in if k = 0 then rest buf p
            else bindR (\<lambda>p. let (x, r) = raw_readexactly (length sep - k) (pr_reader p) in (x, p\<lparr>pr_reader := r\<rparr>))
              (\<lambda>extra p. let buf = buf @ extra in
                 case find_sub sep buf of
                   Some idx \<Rightarrow> (let e = idx + length sep in
                     (Inr (take e buf), if e < length buf then p\<lparr>pr_prefix := drop e buf, pr_pos := 0\<rparr> else p))
                 | None \<Rightarrow> rest buf p) p))"

definition pr_readline :: "nat \<Rightarrow> (prefixed, bytes) reading" where
  "pr_readline limit = pr_readuntil limit [10]"

definition pr_at_eof :: "prefixed \<Rightarrow> bool" where
  "pr_at_eof p = (if pr_pos p < length (pr_prefix p) then False else concat (pr_reader p) = [])"

lemma pr_abs_new [simp]: "pr_abs (new_prefixed r p) = p @ concat r"
  by (simp add: pr_abs_def new_prefixed_def pr_remaining_def)

lemma pr_readexactly_sim: "sim pr_abs (pr_readexactly n) (pure_readexactly n)"
  unfolding sim_def
proof
  fix p
  show "fst (pr_readexactly n p) = fst (pure_readexactly n (pr_abs p)) \<and>
      pr_abs (snd (pr_readexactly n p)) = snd (pure_readexactly n (pr_abs p))"
  proof (cases "n \<le> length (pr_remaining p)")
    case True
    then show ?thesis
      by (simp add: pr_readexactly_def pure_readexactly_def pr_abs_def pr_remaining_def add.commute)
  next
    case False
    then show ?thesis
      by (auto simp: pr_readexactly_def pure_readexactly_def raw_readexactly_def pr_abs_def Let_def
          pr_remaining_def)
  qed
qed

lemma find_sub_append_None:
  "find_sub [c] a = None \<Longrightarrow> find_sub [c] (a @ b) = map_option (\<lambda>i. i + length a) (find_sub [c] b)"
  by (induction a) (auto simp: option.map_comp o_def option.map_ident split: if_splits)

lemma find_sub_append_Some: "find_sub pat a = Some i \<Longrightarrow> find_sub pat (a @ b) = Some i"
proof -
  assume f: "find_sub pat a = Some i"
  have i: "i + length pat \<le> length a" "slice i (i + length pat) a = pat" using find_sub_Some[OF f] by auto
  show ?thesis
  proof (rule find_subI)
    have "drop i a = pat @ drop (i + length pat) a"
      using i append_take_drop_id[of "length pat" "drop i a"] by (simp add: slice_def add.commute)
    then show "prefix pat (drop i (a @ b))" using i(1) by (simp add: prefix_def)
    show "\<not> prefix pat (drop j (a @ b))" if j: "j < i" for j
    proof
      assume "prefix pat (drop j (a @ b))"
      moreover have "length pat \<le> length (drop j a)" using i(1) j by simp
      ultimately have "prefix pat (drop j a)" using i(1) j by (simp add: prefix_append) (auto simp: prefix_def)
      then show False using find_sub_first[OF f j] by simp
    qed
    show "i \<le> length (a @ b)" using i(1) by simp
  qed
qed

lemma pr_readuntil_1:
  assumes "find_sub [c] (pr_abs p) = Some i" "i \<le> limit"
  shows "fst (pr_readuntil limit [c] p) = Inr (take (i + 1) (pr_abs p))
    \<and> pr_abs (snd (pr_readuntil limit [c] p)) = drop (i + 1) (pr_abs p)"
proof (cases "find_sub [c] (pr_remaining p)")
  case (Some j)
  then have "i = j" using assms(1) find_sub_append_Some[OF Some] by (simp add: pr_abs_def)
  moreover have "j + 1 \<le> length (pr_remaining p)" using find_sub_Some[OF Some] by simp
  ultimately show ?thesis
    using Some by (simp add: pr_readuntil_def Let_def pr_abs_def pr_remaining_def add.commute)
next
  case None
  then obtain j where "find_sub [c] (concat (pr_reader p)) = Some j" "i = j + length (pr_remaining p)"
    using assms(1) find_sub_append_None[OF None] by (auto simp: pr_abs_def)
  then show ?thesis
    using None assms(2)
    by (simp add: pr_readuntil_def Let_def pr_abs_def bindR_apply raw_readuntil_def) (simp add: pr_remaining_def)
qed

interpretation pre: line_reader pr_abs pr_readexactly "pr_readuntil limit" limit
  by unfold_locales (simp_all add: pr_readexactly_sim pr_readuntil_1)

section \<open>The SNI of a built ClientHello\<close>

lemma sni_loop_drop:
  "sni_loop hello off e =
     (if off + 4 \<le> e then
        let d = drop off hello; ext_len = from_be (slice 2 4 d); ext_data = slice 4 (4 + ext_len) d
        in if from_be (take 2 d) = 0 \<and> 5 \<le> length ext_data
              \<and> 5 + from_be (slice 3 5 ext_data) \<le> length ext_data
           then Some (py_lower (ascii_replace (slice 5 (5 + from_be (slice 3 5 ext_data)) ext_data)))
           else sni_loop hello (off + (4 + ext_len)) e
      else None)"
proof -
  have s: "slice (off + a) (off + b) hello = slice a b (drop off hello)" for a b
    by (simp add: slice_drop)
  have s0: "slice off (off + b) hello = take b (drop off hello)" for b
    by (simp add: slice_def)
  show ?thesis
    by (subst sni_loop.simps) (simp only: s s0 add.assoc Let_def)
qed

lemma sni_hit:
  assumes "drop off hello = e @ post" "sni_ext name = Inr e" "off + length e \<le> ext_end"
  shows "sni_loop hello off ext_end = Some (py_lower (ascii_replace name))"
proof -
  let ?n = "length name"
  define d where "d = to_be 2 (?n + 3) @ [0] @ to_be 2 ?n @ name"
  have n: "?n + 5 < 65536" and e: "e = to_be 2 0 @ to_be 2 (?n + 5) @ d"
    using assms(2) by (simp_all add: sni_ext_Inr_iff d_def)
  have ld: "length d = ?n + 5" by (simp add: d_def)
  have D: "drop off hello = to_be 2 0 @ to_be 2 (?n + 5) @ d @ post"
    using assms(1) e by simp
  have t: "from_be (take 2 (drop off hello)) = 0"
    using from_be_to_be_id[of 0 2] by (simp add: D)
  have l: "from_be (slice 2 4 (drop off hello)) = ?n + 5"
    using from_be_to_be_id[of "?n + 5" 2] n by (simp add: D slice_def)
  have x: "slice 4 (4 + (?n + 5)) (drop off hello) = d"
    using ld by (simp add: D slice_def)
  have nl: "from_be (slice 3 5 d) = ?n"
    using from_be_to_be_id[of ?n 2] n by (simp add: d_def slice_def)
  have nm: "slice 5 (5 + ?n) d = name" by (simp add: d_def slice_def)
  have "off + 4 \<le> ext_end" using assms(3) by (simp add: e)
  then show ?thesis
    using ld by (subst sni_loop_drop) (simp only: Let_def t l x nl nm, simp)
qed

lemma sni_skip:
  assumes "drop off hello = e @ post" "ext ty d = Inr e" "ty \<noteq> 0" "off + length e \<le> ext_end"
  shows "sni_loop hello off ext_end = sni_loop hello (off + length e) ext_end"
proof -
  have e: "ty < 65536" "length d < 65536" "e = to_be 2 ty @ to_be 2 (length d) @ d"
    using assms(2) by (auto simp: ext_Inr_iff)
  have D: "drop off hello = to_be 2 ty @ to_be 2 (length d) @ d @ post" using assms(1) e(3) by simp
  have t: "from_be (take 2 (drop off hello)) = ty"
    using from_be_to_be_id[of ty 2] e(1) by (simp add: D)
  have l: "from_be (slice 2 4 (drop off hello)) = length d"
    using from_be_to_be_id[of "length d" 2] e(2) by (simp add: D slice_def)
  have "off + 4 \<le> ext_end" "length e = 4 + length d" using assms(4) by (simp_all add: e)
  then show ?thesis
    using assms(3) by (subst sni_loop_drop) (simp only: Let_def t l, simp)
qed

lemma slice_at: "length a = m \<Longrightarrow> n = m + k \<Longrightarrow> slice m n (a @ b) = take k b"
  by (simp add: slice_def)

lemma sniff_assembled:
  assumes "assemble sid cr cs exts = Inr r" "length sid = 32" "length cr = 32"
  shows "sniff_tls_sni r = sni_loop (hello_body_of cr sid cs exts) (73 + length cs)
    (73 + length cs + length exts)"
proof -
  let ?b = "hello_body_of cr sid cs exts"
  have len: "length cs < 65536" "length exts < 65536" "length ?b + 4 < 65536"
    and r: "r = [0x16, 0x03, 0x01] @ to_be 2 (length ?b + 4) @ [0x01] @ to_be 3 (length ?b) @ ?b"
    using assms(1) by (auto simp: assemble_Inr_iff)
  have d5: "drop 5 r = [0x01] @ to_be 3 (length ?b) @ ?b" by (simp add: r)
  have hl: "from_be (slice 1 4 (drop 5 r)) = length ?b"
    using from_be_to_be_id[of "length ?b" 3] len(3) by (simp add: d5 slice_def)
  have hello: "slice 4 (4 + length ?b) (drop 5 r) = ?b" by (simp add: d5 slice_def)
  have b34: "?b ! 34 = 32" using assms(2,3) by (simp add: hello_body_of_def nth_append)
  define h where "h = [0x03, 0x03] @ cr @ [of_nat (length sid)] @ sid"
  have h: "length h = 67" using assms(2,3) by (simp add: h_def)
  have b: "?b = h @ to_be 2 (length cs) @ cs @ [0x01, 0x00] @ to_be 2 (length exts) @ exts"
    by (simp add: hello_body_of_def h_def)
  have csl: "from_be (slice 67 69 ?b) = length cs"
    using from_be_to_be_id[of "length cs" 2] len(1) h by (simp add: b slice_at[of h 67 69 2])
  define g where "g = h @ to_be 2 (length cs) @ cs"
  have g: "length g = 69 + length cs" using h by (simp add: g_def)
  have b': "?b = g @ [0x01, 0x00] @ to_be 2 (length exts) @ exts" by (simp add: b g_def)
  have cm: "?b ! (69 + length cs) = 1" using g by (simp add: b' nth_append)
  have "length (g @ [0x01, 0x00]) = 71 + length cs" using g by simp
  then have exl: "from_be (slice (71 + length cs) (73 + length cs) ?b) = length exts"
    using from_be_to_be_id[of "length exts" 2] len(2)
      slice_at[of "g @ [0x01, 0x00]" "71 + length cs" "73 + length cs" 2] by (simp add: b')
  have lb: "length ?b = 73 + length cs + length exts" using g by (simp add: b')
  have r0: "r ! 0 = 0x16" "5 \<le> length r" "drop 5 r \<noteq> []" "drop 5 r ! 0 = 0x01" by (simp_all add: r d5)
  have n: "34 + (1 + unat (32 :: byte)) = 67" by simp
  show ?thesis
    unfolding sniff_tls_sni_def Let_def hl hello b34 n
    using r0 lb csl cm exl by (simp add: add.commute add.left_commute)
qed

lemma sniff_built:
  assumes "profile_ok p" "length cr = 32" "length sid = 32" "run_builder p eph sni sid cr = Inr r"
  shows "sniff_tls_sni r = Some (py_lower (ascii_replace sni))"
proof -
  obtain cs pre s post where a: "assemble sid cr cs (pre @ s @ post) = Inr r" and s: "sni_ext sni = Inr s"
    and pre: "pre = [] \<or> (\<exists>ty d. ty \<noteq> 0 \<and> ext ty d = Inr pre)"
    by (rule run_builder_shape[OF assms(1,4)])
  let ?h = "hello_body_of cr sid cs (pre @ s @ post)"
  let ?o = "73 + length cs" and ?e = "73 + length cs + length (pre @ s @ post)"
  have d: "drop ?o ?h = pre @ s @ post"
  proof -
    have "?h = (([0x03, 0x03] @ cr @ [of_nat (length sid)] @ sid @ to_be 2 (length cs)) @ cs @ [0x01, 0x00]
        @ to_be 2 (length (pre @ s @ post))) @ pre @ s @ post"
      by (simp add: hello_body_of_def)
    moreover have "length (([0x03, 0x03] @ cr @ [of_nat (length sid)] @ sid @ to_be 2 (length cs)) @ cs
        @ [0x01, 0x00] @ to_be 2 (length (pre @ s @ post))) = ?o"
      using assms(2,3) by simp
    ultimately show ?thesis by (metis append_eq_conv_conj)
  qed
  have d': "drop (?o + length pre) ?h = s @ post"
    using arg_cong[OF d, of "drop (length pre)"] by (simp only: drop_drop add.commute[of "length pre"]) simp
  have "sni_loop ?h ?o ?e = sni_loop ?h (?o + length pre) ?e"
    using pre
  proof
    assume "\<exists>ty dd. ty \<noteq> 0 \<and> ext ty dd = Inr pre"
    then obtain ty dd where t: "ty \<noteq> 0" "ext ty dd = Inr pre" by blast
    show ?thesis by (rule sni_skip[OF d t(2,1)]) simp
  qed simp
  also have "\<dots> = Some (py_lower (ascii_replace sni))"
    by (rule sni_hit[OF d' s]) simp
  finally show ?thesis using sniff_assembled[OF a assms(3,2)] by simp
qed

section \<open>Properties\<close>

text \<open>Sniffing a ClientHello the client itself built gives the server name it was built for, in
  lower case, for every profile, key, token and ASCII name.\<close>

theorem sniffed_sni_of_built_hello:
  assumes "profile_ok p" "length cr = 32" "\<forall>c \<in> set name. c < 128"
    and "build_client_hello p eph cr name sid = Inr (r, cr')"
  shows "sniff_tls_sni r = Some (py_lower name)"
proof -
  have sid: "length sid = 32" and b: "run_builder p eph (map of_nat name) sid cr = Inr r"
    using assms(4) utf8_encode_ascii[OF assms(3)]
    by (auto simp: build_client_hello_def bindE_Inr_iff split: if_splits)
  have "ascii_replace (map of_nat name) = name"
    using assms(3) by (induction name) (auto simp: ascii_replace_def unat_of_nat)
  then show ?thesis using sniff_built[OF assms(1,2) sid b] by simp
qed

theorem sniffed_sni_of_built_hello_witness:
  "\<exists>r. sample_hello r \<and> sniff_tls_sni r = Some (U ''a.b'')"
proof -
  obtain r where r: "sample_hello r" using sample_hello_exists by blast
  then show ?thesis
    using sniffed_sni_of_built_hello[of Firefox "replicate 32 7" "U ''a.B''" "replicate 32 5" "replicate 32 9" r]
    by (auto simp: sample_hello_def profile_ok_def U_def py_lower_def lower1_def)
qed

text \<open>C8: Sniffing loses and reorders nothing: the bytes it hands back, followed by what is left of the
  connection, are the connection's bytes, and it never takes more than its limit.\<close>

theorem sniffing_is_lossless:
  assumes "sniff_domain k s = (d, b, s')"
  shows "pr_abs (new_prefixed s' b) = concat s \<and> length b \<le> sniff_bytes
    \<and> (\<forall>x. d = Some x \<longrightarrow> sniffed b = Some x)"
  using sniff_loop_keeps[of "[]" k s d b s'] assms by (simp add: sniff_domain_def)

theorem sniffing_is_lossless_witness:
  "pr_abs (new_prefixed [] [5, 1, 0]) = concat [[5], [1, 0 :: byte]] \<and> length [5, 1, 0 :: byte] \<le> sniff_bytes"
  using sniffing_is_lossless[of 3 "[[5], [1, 0]]" None "[5, 1, 0]" "[]"]
  by (simp add: sniff_domain_def numeral_3_eq_3 sniff_bytes_def sniffed_def sniff_tls_sni_def sniff_http_host_def
      split_sub.simps)

text \<open>Reading a line through the put-back reader gives the line of the original stream wherever the
  boundary between put-back bytes and reader falls, and leaves the stream right after it.\<close>

theorem prefixed_readline:
  assumes "p @ concat r = a @ [10] @ b" "10 \<notin> set a" "length a \<le> limit"
  shows "fst (pr_readline limit (new_prefixed r p)) = Inr (a @ [10])
    \<and> pr_abs (snd (pr_readline limit (new_prefixed r p))) = b"
  using pre.ru_line[of "new_prefixed r p" a 10 b limit] assms by (simp add: pr_readline_def)

theorem prefixed_readline_witness:
  "fst (pr_readline 99 (new_prefixed [[66], [10, 67]] [65])) = Inr [65, 66, 10]
    \<and> pr_abs (snd (pr_readline 99 (new_prefixed [[66], [10, 67]] [65]))) = [67]"
  using prefixed_readline[of "[65]" "[[66], [10, 67]]" "[65, 66]" "[67]" 99] by simp

text \<open>With a longer separator the put-back reader can miss it: when the put-back bytes end in
  CR LF CR and the stream goes on with CR LF CR LF, the head of the stream ends there, but the reader
  runs to the end of the connection.\<close>

theorem prefixed_readuntil_misses:
  assumes "13 \<notin> set a" "\<not> sublist [13, 10, 13, 10] ([10, 13, 10] @ t)" "length t < limit" "length a + 3 \<le> limit"
  shows "fst (pr_readuntil limit [13, 10, 13, 10] (new_prefixed [[13, 10, 13, 10] @ t] (a @ [13, 10, 13])))
      = Inl IncompleteRead
    \<and> fst (pure_readuntil limit [13, 10, 13, 10] ((a @ [13, 10, 13]) @ [13, 10, 13, 10] @ t))
      = Inr (a @ [13, 10, 13, 13, 10, 13, 10])"
proof -
  have n1: "find_sub [13, 10, 13, 10] (a @ [13, 10, 13]) = None"
    using assms(1) by (induction a) (auto simp: Cons_prefix_Cons)
  have n2: "find_sub [13, 10, 13, 10] (a @ [13, 10, 13, 13]) = None"
    using assms(1) by (induction a) (auto simp: Cons_prefix_Cons)
  have n3: "find_sub [13, 10, 13, 10] (a @ [13, 10, 13, 13, 10, 13, 10] @ t) = Some (length a + 3)"
    using assms(1) by (induction a) (auto simp: Cons_prefix_Cons)
  have n4: "find_sub [13, 10, 13, 10] ([10, 13, 10] @ t) = None"
    using assms(2) by (rule find_sub_None[THEN iffD2])
  have ov: "overlap (a @ [13, 10, 13]) [13, 10, 13, 10] = 3"
    by (simp add: overlap_def numeral_3_eq_3 upt_rec)
  have k: "raw_readexactly 1 [[13, 10, 13, 10] @ t] = (Inr [13], [[10, 13, 10] @ t])"
    by (simp add: raw_readexactly_def)
  have e: "raw_readuntil limit [13, 10, 13, 10] [[10, 13, 10] @ t] = (Inl IncompleteRead, [])"
    using n4 assms(3) by (simp add: raw_readuntil_def)
  have "fst (pr_readuntil limit [13, 10, 13, 10] (new_prefixed [[13, 10, 13, 10] @ t] (a @ [13, 10, 13])))
      = Inl IncompleteRead"
    using n1 n2 k e ov by (simp add: pr_readuntil_def Let_def pr_remaining_def new_prefixed_def bindR_apply)
  moreover have "fst (pure_readuntil limit [13, 10, 13, 10] ((a @ [13, 10, 13]) @ [13, 10, 13, 10] @ t))
      = Inr (a @ [13, 10, 13, 13, 10, 13, 10])"
    using n3 assms(4) by (simp add: pure_readuntil_def)
  ultimately show ?thesis by blast
qed

theorem prefixed_readuntil_misses_witness:
  "fst (pr_readuntil 99 [13, 10, 13, 10] (new_prefixed [[13, 10, 13, 10] @ [65]] ([71] @ [13, 10, 13])))
      = Inl IncompleteRead
    \<and> fst (pure_readuntil 99 [13, 10, 13, 10] (([71] @ [13, 10, 13]) @ [13, 10, 13, 10] @ [65]))
      = Inr ([71] @ [13, 10, 13, 13, 10, 13, 10])"
  by (rule prefixed_readuntil_misses) (simp_all add: sublist_Cons_right)

end
