(* ===== verification/Camouflage.thy ===== *)
theory Camouflage
  imports Sniffer
begin

text \<open>
  The server's first flight: \<open>read_tls_record\<close> (core/utils.py), the handshake cache and the ServerHello
  patch (core/handshake_cache.py), and the decision between a client and a probe
  (core/camouflage.py). \<open>random.choice\<close> and \<open>os.urandom\<close> are arguments (\<open>idx\<close>, \<open>rnd\<close>); timeouts
  appear as the number of records that arrive in time.
\<close>

section \<open>TLS records\<close>

definition max_record :: nat where
  "max_record = 16640"

definition read_tls_record :: "(nat \<Rightarrow> ('s, bytes) reading) \<Rightarrow> nat \<Rightarrow> ('s, byte \<times> bytes) reading" where
  "read_tls_record rx max_length =
     bindR (rx 5) (\<lambda>header.
       let ct = header ! 0; len = from_be (slice 3 5 header) in
       if len > max_length then raiseR ValueError
       else bindR (rx len) (\<lambda>body. retR (ct, header @ body)))"

text \<open>\<open>_read_client_tail\<close>: discard records up to the Finished that follows a ChangeCipherSpec; the
  first argument bounds the records read before the timeout.\<close>

fun drain_tail :: "(nat \<Rightarrow> ('s, bytes) reading) \<Rightarrow> nat \<Rightarrow> bool \<Rightarrow> 's \<Rightarrow> 's" where
  "drain_tail rx 0 saw_ccs s = s"
| "drain_tail rx (Suc k) saw_ccs s =
     (case read_tls_record rx max_record s of
        (Inl e, s') \<Rightarrow> s'
      | (Inr (ct, r), s') \<Rightarrow>
          if ct = 0x14 then drain_tail rx k True s'
          else if ct = 0x17 \<and> saw_ccs then s'
          else drain_tail rx k saw_ccs s')"

context stream_reader
begin

lemma read_tls_record_sim [sim_intros]:
  "sim view (read_tls_record rx m) (read_tls_record pure_readexactly m)"
  unfolding read_tls_record_def Let_def by (intro sim_intros rx_sim)

lemma drain_tail_sim: "view (drain_tail rx k saw s) = drain_tail pure_readexactly k saw (view s)"
proof (induction k arbitrary: saw s)
  case 0
  then show ?case by simp
next
  case (Suc k)
  have "fst (read_tls_record rx max_record s) = fst (read_tls_record pure_readexactly max_record (view s))
      \<and> view (snd (read_tls_record rx max_record s)) = snd (read_tls_record pure_readexactly max_record (view s))"
    by (rule simD[OF read_tls_record_sim])
  then show ?case
    using Suc
    by (cases "read_tls_record rx max_record s"; cases "read_tls_record pure_readexactly max_record (view s)")
      (auto split: sum.split)
qed

end

definition tls_record :: "bytes \<Rightarrow> bytes \<Rightarrow> bytes" where
  "tls_record start body = start @ to_be 2 (length body) @ body"

lemma read_tls_record_pure:
  assumes "length body \<le> m" "length body < 65536" "length start = 3"
  shows "read_tls_record pure_readexactly m (tls_record start body @ rest) =
    (Inr (start ! 0, tls_record start body), rest)"
proof -
  let ?h = "start @ to_be 2 (length body)"
  have l: "from_be (slice 3 5 ?h) = length body"
    using assms(2,3) by (simp add: slice_def)
  have eq: "tls_record start body @ rest = ?h @ body @ rest" by (simp add: tls_record_def)
  have "read_tls_record pure_readexactly m (?h @ body @ rest) =
      bindR (pure_readexactly (length body)) (\<lambda>b. retR (?h ! 0, ?h @ b)) (body @ rest)"
    unfolding read_tls_record_def Let_def using assms(1,3)
    by (subst bind_pure[where a = ?h], simp, simp only: l, simp)
  then show ?thesis unfolding eq using assms(3) by (simp add: bind_pure tls_record_def nth_append)
qed

section \<open>The ServerHello patch\<close>

definition patch_server_hello :: "bytes \<Rightarrow> bytes \<Rightarrow> bytes \<Rightarrow> bytes" where
  "patch_server_hello record new_session_id new_random =
     (if length record < 44 \<or> record ! 0 \<noteq> 0x16 \<or> record ! 5 \<noteq> 0x02 then record
      else let sid_len = unat (record ! 43) in
        if sid_len > 32 \<or> 44 + sid_len > length record then record
        else let sid = (if length new_session_id \<noteq> sid_len then
                (if length new_session_id > sid_len then take sid_len new_session_id
                 else new_session_id @ replicate (sid_len - length new_session_id) 0)
              else new_session_id);
            rnd = (if length new_random = 32 then new_random else take 32 (new_random @ replicate 32 0));
            buf = take 11 record @ rnd @ drop 43 record
          in take 44 buf @ sid @ drop (44 + sid_len) buf)"

definition server_hello_ok :: "bytes \<Rightarrow> bool" where
  "server_hello_ok r \<longleftrightarrow> 44 \<le> length r \<and> r ! 0 = 0x16 \<and> r ! 5 = 0x02 \<and> unat (r ! 43) \<le> 32
     \<and> 44 + unat (r ! 43) \<le> length r"

lemma patch_ok:
  assumes "server_hello_ok r" "length rnd = 32"
  obtains sid' where "length sid' = unat (r ! 43)" "length sid = unat (r ! 43) \<Longrightarrow> sid' = sid"
    "patch_server_hello r sid rnd = take 11 r @ rnd @ [r ! 43] @ sid' @ drop (44 + unat (r ! 43)) r"
proof -
  let ?n = "unat (r ! 43)"
  define sid' where "sid' = (if length sid \<noteq> ?n then (if length sid > ?n then take ?n sid
      else sid @ replicate (?n - length sid) 0) else sid)"
  have l: "44 \<le> length r" "44 + ?n \<le> length r" using assms(1) by (simp_all add: server_hello_ok_def)
  have d: "drop 43 r = [r ! 43] @ drop 44 r" using l by (simp add: Cons_nth_drop_Suc[symmetric] numeral_eq_Suc)
  have "take 44 (take 11 r @ rnd @ drop 43 r) = take 11 r @ rnd @ [r ! 43]"
    using l assms(2) by (simp add: d)
  moreover have "drop (44 + ?n) (take 11 r @ rnd @ drop 43 r) = drop (44 + ?n) r"
    using l assms(2) by (simp add: add.commute)
  ultimately have "patch_server_hello r sid rnd = take 11 r @ rnd @ [r ! 43] @ sid' @ drop (44 + ?n) r"
    using assms by (auto simp: patch_server_hello_def server_hello_ok_def Let_def sid'_def)
  moreover have "length sid' = ?n" "length sid = ?n \<Longrightarrow> sid' = sid" by (simp_all add: sid'_def)
  ultimately show thesis using that by blast
qed

section \<open>The handshake cache\<close>

text \<open>\<open>_fetch_one\<close> once connected: the records that arrive, a timeout, or another failure.\<close>

datatype fetch_event = Rec byte bytes | Timeout | Failed

fun fetch_loop :: "bool \<Rightarrow> nat \<Rightarrow> bytes list \<Rightarrow> fetch_event list \<Rightarrow> bytes list" where
  "fetch_loop saw_ccs enc_count records [] = []"
| "fetch_loop saw_ccs enc_count records (Timeout # es) = records"
| "fetch_loop saw_ccs enc_count records (Failed # es) = []"
| "fetch_loop saw_ccs enc_count records (Rec ct raw # es) =
     (let records = records @ [raw] in
      if ct = 0x14 then fetch_loop True enc_count records es
      else if ct = 0x17 \<and> saw_ccs then
        (if enc_count + 1 \<ge> 6 then records else fetch_loop saw_ccs (enc_count + 1) records es)
      else fetch_loop saw_ccs enc_count records es)"

definition fetch_one :: "fetch_event list \<Rightarrow> bytes list" where
  "fetch_one es = fetch_loop False 0 [] es"

record handshake_cache =
  hc_pool :: "bytes list list"
  hc_last_refresh :: int

definition good_results :: "(py_error + bytes list) list \<Rightarrow> bytes list list" where
  "good_results results = concat (map (\<lambda>r. case r of Inl e \<Rightarrow> [] | Inr rs \<Rightarrow> if rs = [] then [] else [rs]) results)"

definition fill_pool :: "int \<Rightarrow> (py_error + bytes list) list \<Rightarrow> handshake_cache \<Rightarrow> bool \<times> handshake_cache" where
  "fill_pool now results c = (let pool = good_results results in
     if pool = [] then (False, c) else (True, c\<lparr>hc_pool := pool, hc_last_refresh := now\<rparr>))"

definition auto_refresh :: "int \<Rightarrow> (py_error + bytes list) list \<Rightarrow> handshake_cache \<Rightarrow> handshake_cache" where
  "auto_refresh now results c = (let new_pool = good_results results in
     if new_pool \<noteq> [] then c\<lparr>hc_pool := new_pool, hc_last_refresh := now\<rparr> else c)"

definition hc_ready :: "handshake_cache \<Rightarrow> bool" where
  "hc_ready c \<longleftrightarrow> hc_pool c \<noteq> []"

text \<open>What either answer writes: the first record patched, the others as fetched.\<close>

definition flight :: "bytes list \<Rightarrow> bytes \<Rightarrow> bytes \<Rightarrow> bytes" where
  "flight records sid rnd = patch_server_hello (hd records) sid rnd @ concat (tl records)"

definition send_server_hello_done ::
    "handshake_cache \<Rightarrow> nat \<Rightarrow> bytes \<Rightarrow> bytes \<Rightarrow> bool \<Rightarrow> 's \<times> bytes \<Rightarrow> bool \<times> ('s \<times> bytes)" where
  "send_server_hello_done c idx rnd sid drain_ok conn =
     (if hc_pool c = [] then (False, conn)
      else (drain_ok, (fst conn, snd conn @ flight (hc_pool c ! idx) sid rnd)))"

text \<open>Writes the probe's answer, lets it send once more (a read of at most 4096 bytes), and closes.\<close>

definition serve_probe ::
    "handshake_cache \<Rightarrow> nat \<Rightarrow> bytes \<Rightarrow> bytes option \<Rightarrow> ('s \<Rightarrow> 's) \<Rightarrow> bool \<Rightarrow> 's \<times> bytes \<Rightarrow> 's \<times> bytes" where
  "serve_probe c idx rnd probe_sid read4096 drain_ok conn =
     (if hc_pool c = [] then conn
      else let sid = (case probe_sid of Some s \<Rightarrow> if length s = 32 then s else replicate 32 0
                      | None \<Rightarrow> replicate 32 0)
        in ((if drain_ok then read4096 (fst conn) else fst conn),
            snd conn @ flight (hc_pool c ! idx) sid rnd))"

text \<open>No empty handshake is ever kept, so the first record of a chosen handshake exists.\<close>

definition pool_ok :: "handshake_cache \<Rightarrow> bool" where
  "pool_ok c \<longleftrightarrow> (\<forall>rs \<in> set (hc_pool c). rs \<noteq> [])"

lemma good_results_nonempty: "rs \<in> set (good_results results) \<Longrightarrow> rs \<noteq> []"
  by (auto simp: good_results_def split: sum.splits if_splits)

lemma pool_ok_fill: "pool_ok c \<Longrightarrow> pool_ok (snd (fill_pool now results c))"
  by (auto simp: pool_ok_def fill_pool_def Let_def good_results_nonempty)

lemma pool_ok_refresh: "pool_ok c \<Longrightarrow> pool_ok (auto_refresh now results c)"
  by (auto simp: pool_ok_def auto_refresh_def Let_def good_results_nonempty)

lemma ready_refresh: "hc_ready c \<Longrightarrow> hc_ready (auto_refresh now results c)"
  by (auto simp: hc_ready_def auto_refresh_def Let_def)

section \<open>Deciding\<close>

text \<open>The random choices, clock and timeouts of one connection.\<close>

record decide_env =
  de_now :: int
  de_idx :: nat
  de_rnd :: bytes
  de_drain_ok :: bool
  de_tail :: nat

record 's decision =
  dc_accepted :: "bytes option"   \<comment> \<open>\<open>Some client_random\<close> for (True, client_random)\<close>
  dc_conn :: "'s \<times> bytes"
  dc_closed :: bool
  dc_replay :: replay_cache

text \<open>The guard is a Python \<open>and\<close>: the replay cache is marked only when the token verifies.\<close>

definition token_check ::
    "crypto \<Rightarrow> pystr \<Rightarrow> int \<Rightarrow> replay_cache \<Rightarrow> bytes option \<Rightarrow> bytes option \<Rightarrow> py_error + (bool \<times> replay_cache)" where
  "token_check cr password now rc session_id client_random =
     (case (session_id, client_random) of
        (Some sid, Some rnd) \<Rightarrow>
          if sid \<noteq> [] \<and> length sid = 32 \<and> rnd \<noteq> [] then
            bindE (verify_session_token cr password now sid) (\<lambda>ok.
              Inr (if ok then check_and_mark rc now sid else (False, rc)))
          else Inr (False, rc)
      | _ \<Rightarrow> Inr (False, rc))"

definition server_read_hello_and_decide ::
    "(nat \<Rightarrow> ('s, bytes) reading) \<Rightarrow> ('s \<Rightarrow> 's) \<Rightarrow> crypto \<Rightarrow> pystr \<Rightarrow> decide_env \<Rightarrow> handshake_cache \<Rightarrow> replay_cache
      \<Rightarrow> 's \<times> bytes \<Rightarrow> py_error + 's decision" where
  "server_read_hello_and_decide rx read4096 cr password env cache rc conn =
     (case read_tls_record rx max_record (fst conn) of
        (Inl e, s) \<Rightarrow> Inr \<lparr>dc_accepted = None, dc_conn = (s, snd conn), dc_closed = True, dc_replay = rc\<rparr>
      | (Inr (ct, hello_raw), s) \<Rightarrow>
         (let conn = (s, snd conn);
              session_id = extract_session_id hello_raw;
              client_random = extract_client_random hello_raw
          in bindE (token_check cr password (de_now env) rc session_id client_random) (\<lambda>(ok, rc).
               if ok then
                 (let (sent, conn) = send_server_hello_done cache (de_idx env) (de_rnd env) (the session_id)
                        (de_drain_ok env) conn
                  in if \<not> sent then Inr \<lparr>dc_accepted = None, dc_conn = conn, dc_closed = True, dc_replay = rc\<rparr>
                     else Inr \<lparr>dc_accepted = client_random,
                        dc_conn = (drain_tail rx (de_tail env) False (fst conn), snd conn),
                        dc_closed = False, dc_replay = rc\<rparr>)
               else Inr \<lparr>dc_accepted = None,
                      dc_conn = serve_probe cache (de_idx env) (de_rnd env) session_id read4096 (de_drain_ok env) conn,
                      dc_closed = True, dc_replay = rc\<rparr>)))"

lemma assembled_record:
  assumes "assemble sid cr cs exts = Inr r"
  obtains body where "r = tls_record [0x16, 0x03, 0x01] body" "length body < 65536" "length r = length body + 5"
proof
  let ?b = "[0x01] @ to_be 3 (length (hello_body_of cr sid cs exts)) @ hello_body_of cr sid cs exts"
  show "r = tls_record [0x16, 0x03, 0x01] ?b" "length ?b < 65536" "length r = length ?b + 5"
    using assms by (auto simp: assemble_Inr_iff tls_record_def add.commute[of 4])
qed

lemma built_hello_reads_back:
  assumes "profile_ok p" "build_client_hello p eph cr name sid = Inr (r, cr')" "length r \<le> max_record + 5"
  shows "read_tls_record pure_readexactly max_record (r @ rest) = (Inr (0x16, r), rest)"
proof -
  obtain sni where "run_builder p eph sni sid cr = Inr r"
    using assms(2) by (auto simp: build_client_hello_def bindE_Inr_iff split: if_splits)
  then obtain cs e where "assemble sid cr cs e = Inr r" using run_builder_shape[OF assms(1)] by metis
  then obtain body where b: "r = tls_record [0x16, 0x03, 0x01] body" "length body < 65536"
    "length r = length body + 5" by (rule assembled_record)
  have "length body \<le> max_record" using b assms(3) by simp
  then show ?thesis using read_tls_record_pure[of body max_record "[0x16, 0x03, 0x01]" rest] b by simp
qed

lemma decide_step:
  assumes "fst (read_tls_record rx max_record s) = Inr (ct, hello)"
    and "extract_session_id hello = Some sid" "length sid = 32" "extract_client_random hello = Some crnd"
    and "hc_pool cache \<noteq> []" "verify_session_token cr pw (de_now env) sid = Inr v"
  shows "server_read_hello_and_decide rx rd cr pw env cache rc (s, out) =
    (let s = snd (read_tls_record rx max_record s);
         (ok, rc') = (if v then check_and_mark rc (de_now env) sid else (False, rc));
         out' = out @ flight (hc_pool cache ! de_idx env) sid (de_rnd env)
     in Inr (if ok then
          if de_drain_ok env then \<lparr>dc_accepted = Some crnd, dc_conn = (drain_tail rx (de_tail env) False s, out'),
            dc_closed = False, dc_replay = rc'\<rparr>
          else \<lparr>dc_accepted = None, dc_conn = (s, out'), dc_closed = True, dc_replay = rc'\<rparr>
        else \<lparr>dc_accepted = None, dc_conn = (if de_drain_ok env then rd s else s, out'), dc_closed = True,
            dc_replay = rc'\<rparr>))"
proof -
  have c: "crnd \<noteq> []" using extract_client_random_length[OF assms(4)] by auto
  have s: "sid \<noteq> []" using assms(3) by auto
  obtain s' where r: "read_tls_record rx max_record s = (Inr (ct, hello), s')"
    using assms(1) by (cases "read_tls_record rx max_record s") auto
  show ?thesis
    using assms(2-6) c s r
    by (simp add: server_read_hello_and_decide_def token_check_def send_server_hello_done_def serve_probe_def
        Let_def case_prod_beta)
qed

section \<open>Properties\<close>

text \<open>The patch keeps the length of a ServerHello and every byte but the random and the session id,
  which become exactly the fresh random and the client's session id.\<close>

theorem server_hello_patch:
  assumes "server_hello_ok r" "length rnd = 32" "length sid = unat (r ! 43)"
  shows "length (patch_server_hello r sid rnd) = length r
    \<and> slice 11 43 (patch_server_hello r sid rnd) = rnd
    \<and> slice 44 (44 + length sid) (patch_server_hello r sid rnd) = sid
    \<and> take 11 (patch_server_hello r sid rnd) = take 11 r
    \<and> drop (44 + length sid) (patch_server_hello r sid rnd) = drop (44 + length sid) r
    \<and> server_hello_ok (patch_server_hello r sid rnd)"
proof -
  have l: "44 \<le> length r" "44 + length sid \<le> length r" and ok: "r ! 0 = 0x16" "r ! 5 = 0x02" "unat (r ! 43) \<le> 32"
    using assms(1,3) by (simp_all add: server_hello_ok_def)
  have p: "patch_server_hello r sid rnd = take 11 r @ rnd @ [r ! 43] @ sid @ drop (44 + length sid) r"
    using patch_ok[OF assms(1,2), of sid] assms(3) by metis
  have n: "(take 11 r @ rnd @ [r ! 43] @ sid @ drop (44 + length sid) r) ! 43 = r ! 43"
    using l assms(2) by (simp add: nth_append)
  have e: "drop (44 + length sid) (take 11 r @ rnd @ [r ! 43] @ sid @ drop (44 + length sid) r) =
      drop (44 + length sid) r"
    using l assms(2) by (simp add: add.commute)
  show ?thesis
    unfolding p using l ok assms(2,3) n e by (auto simp: server_hello_ok_def slice_def nth_append)
qed

definition sample_server_hello :: bytes where
  "sample_server_hello = [0x16, 3, 3, 0, 41, 2, 0, 0, 37, 3, 3] @ replicate 32 0 @ [2, 8, 9, 1]"

theorem server_hello_patch_witness:
  "slice 44 46 (patch_server_hello sample_server_hello [5, 6] (replicate 32 1)) = [5, 6]"
  using server_hello_patch[of sample_server_hello "replicate 32 1" "[5, 6]"]
  by (simp add: server_hello_ok_def sample_server_hello_def nth_append)

text \<open>C6: What the server writes first does not depend on whether the token was valid: a client and a
  probe that send a 32-byte session id receive the same flight from the same cached handshake.\<close>

theorem first_flight_hides_verdict:
  assumes "fst (read_tls_record rx max_record s) = Inr (ct, hello)"
    and "extract_session_id hello = Some sid" "length sid = 32" "hc_pool cache \<noteq> []"
    and "server_read_hello_and_decide rx rd cr pw env cache rc (s, out) = Inr d"
  shows "snd (dc_conn d) = out @ flight (hc_pool cache ! de_idx env) sid (de_rnd env)"
proof -
  have "check_client_hello hello" using assms(2) by (auto simp: extract_session_id_def split: if_splits)
  then obtain crnd where c: "extract_client_random hello = Some crnd" by (simp add: extract_client_random_def)
  have ne: "sid \<noteq> []" "crnd \<noteq> []"
    using assms(3) extract_client_random_length[OF c] by auto
  obtain s' where r: "read_tls_record rx max_record s = (Inr (ct, hello), s')"
    using assms(1) by (cases "read_tls_record rx max_record s") auto
  obtain v where v: "verify_session_token cr pw (de_now env) sid = Inr v"
    using assms(2,3,5) c r ne
    by (cases "verify_session_token cr pw (de_now env) sid")
      (auto simp: server_read_hello_and_decide_def token_check_def)
  show ?thesis
    using assms(5) decide_step[OF assms(1-3) c assms(4) v] by (auto simp: Let_def case_prod_beta)
qed

text \<open>The inputs of the witnesses: a cached handshake, one connection's environment.\<close>

definition sample_cache :: handshake_cache where
  "sample_cache = \<lparr>hc_pool = [[sample_server_hello, [0x14, 3, 3, 0, 1, 1]]], hc_last_refresh = 0\<rparr>"

definition sample_env :: decide_env where
  "sample_env = \<lparr>de_now = 1000, de_idx = 0, de_rnd = replicate 32 1, de_drain_ok = True, de_tail = 2\<rparr>"

theorem first_flight_hides_verdict_witness:
  "\<exists>r d. sample_hello r \<and> server_read_hello_and_decide pure_readexactly (\<lambda>s. s) zero_crypto (U ''p'') sample_env
      sample_cache (new_replay_cache 5) (r, []) = Inr d
    \<and> snd (dc_conn d) = flight (hc_pool sample_cache ! 0) (replicate 32 9) (replicate 32 1)"
proof -
  obtain r where r: "sample_hello r" and len: "length r \<le> 700" using sample_hello_exists by blast
  have b: "build_client_hello Firefox (replicate 32 5) (replicate 32 7) (U ''a.B'') (replicate 32 9)
      = Inr (r, replicate 32 7)" using r by (simp add: sample_hello_def)
  have sid: "extract_session_id r = Some (replicate 32 9)" and cr: "extract_client_random r = Some (replicate 32 7)"
    using build_client_hello_fields[OF _ _ b] by (simp_all add: profile_ok_def)
  have rd: "fst (read_tls_record pure_readexactly max_record r) = Inr (0x16, r)"
    using built_hello_reads_back[OF _ b, of "[]"] len by (simp add: profile_ok_def max_record_def)
  have p: "hc_pool sample_cache \<noteq> []" by (simp add: sample_cache_def)
  have "\<exists>v. verify_session_token zero_crypto (U ''p'') (de_now sample_env) (replicate 32 9) = Inr v"
    by (auto simp: verify_session_token_def U_def utf8_cp_def unpack_Q_def ts_mask_def zero_crypto_def Let_def)
  then obtain v where v: "verify_session_token zero_crypto (U ''p'') (de_now sample_env) (replicate 32 9) = Inr v" ..
  obtain d where d: "server_read_hello_and_decide pure_readexactly (\<lambda>s. s) zero_crypto (U ''p'') sample_env
      sample_cache (new_replay_cache 5) (r, []) = Inr d"
    using decide_step[OF rd sid _ cr p v] by (auto simp: Let_def case_prod_beta)
  have "snd (dc_conn d) = flight (hc_pool sample_cache ! 0) (replicate 32 9) (replicate 32 1)"
    using first_flight_hides_verdict[OF rd sid _ p d] by (simp add: sample_env_def)
  then show ?thesis using r d by blast
qed



end
