(* ===== verification/Tunnel.thy ===== *)
theory Tunnel
  imports Camouflage
begin

text \<open>
  The encrypted channel (core/tunnel.py). The AEAD and the key derivation are parameters, collected in
  \<open>aead\<close>; \<open>aead_ok\<close> states what ChaCha20-Poly1305 documents: decryption undoes encryption under the
  same key and nonce, and the ciphertext is 16 bytes longer than the plaintext. Each side counts its
  own nonces. \<open>d n\<close> is the random draw for record \<open>n\<close>, in units of \<open>2 ^ -53\<close>.
\<close>

record aead =
  a_enc :: "bytes \<Rightarrow> bytes \<Rightarrow> bytes \<Rightarrow> bytes"
  a_dec :: "bytes \<Rightarrow> bytes \<Rightarrow> bytes \<Rightarrow> bytes option"
  a_hkdf :: "bytes \<Rightarrow> bytes \<Rightarrow> bytes \<Rightarrow> bytes"     \<comment> \<open>key material, salt, info\<close>
  a_expand :: "bytes \<Rightarrow> bytes \<Rightarrow> bytes"

definition aead_ok :: "aead \<Rightarrow> bool" where
  "aead_ok a \<longleftrightarrow> (\<forall>k n p. a_dec a k n (a_enc a k n p) = Some p) \<and> (\<forall>k n p. length (a_enc a k n p) = length p + 16)"

record tunnel =
  send_key :: "bytes option"
  recv_key :: "bytes option"
  send_nonce :: nat
  recv_nonce :: nat

definition new_tunnel :: tunnel where
  "new_tunnel = \<lparr>send_key = None, recv_key = None, send_nonce = 0, recv_nonce = 0\<rparr>"

section \<open>Keys\<close>

definition derive_master :: "crypto \<Rightarrow> aead \<Rightarrow> pystr \<Rightarrow> bytes \<Rightarrow> py_error + bytes" where
  "derive_master cr a password salt =
     bindE (utf8_encode password) (\<lambda>pw. Inr (a_hkdf a (sha256 cr pw) salt (B ''mirage-session'')))"

definition handshake_as_initiator :: "crypto \<Rightarrow> aead \<Rightarrow> pystr \<Rightarrow> bytes \<Rightarrow> tunnel \<Rightarrow> py_error + tunnel" where
  "handshake_as_initiator cr a password client_random t =
     bindE (derive_master cr a password client_random) (\<lambda>master.
       Inr (t\<lparr>send_key := Some (a_expand a master (B ''c2s'')), recv_key := Some (a_expand a master (B ''s2c''))\<rparr>))"

definition handshake_as_responder :: "crypto \<Rightarrow> aead \<Rightarrow> pystr \<Rightarrow> bytes \<Rightarrow> tunnel \<Rightarrow> py_error + tunnel" where
  "handshake_as_responder cr a password client_random t =
     bindE (derive_master cr a password client_random) (\<lambda>master.
       Inr (t\<lparr>send_key := Some (a_expand a master (B ''s2c'')), recv_key := Some (a_expand a master (B ''c2s''))\<rparr>))"

section \<open>Sending\<close>

definition next_record_size :: "nat \<Rightarrow> nat" where
  "next_record_size r =
     (if 100 * r \<le> 50 * 2 ^ 53 then 16384
      else if 100 * r \<le> 85 * 2 ^ 53 then 8192
      else if 100 * r \<le> 100 * 2 ^ 53 then 4096
      else 16384)"

definition nonce_bytes :: "nat \<Rightarrow> py_error + bytes" where
  "nonce_bytes n = (if n < 256 ^ 12 then Inr (to_be 12 n) else Inl OverflowErr)"

text \<open>One record: the nonce is used up before the cipher is called.\<close>

definition seal :: "aead \<Rightarrow> tunnel \<Rightarrow> bytes \<Rightarrow> (py_error + bytes) \<times> tunnel" where
  "seal a t inner =
     (case nonce_bytes (send_nonce t) of
        Inl e \<Rightarrow> (Inl e, t)
      | Inr nonce \<Rightarrow>
         (let t = t\<lparr>send_nonce := send_nonce t + 1\<rparr> in
          case send_key t of
            None \<Rightarrow> (Inl AttributeError, t)
          | Some k \<Rightarrow> (let ciphertext = a_enc a k nonce inner in
              (bindE (pack_be 2 (length ciphertext)) (\<lambda>l. Inr ([0x17, 0x03, 0x03] @ l @ ciphertext)), t))))"

lemma next_record_size_pos [simp]: "0 < next_record_size r"
  by (simp add: next_record_size_def)

function send :: "aead \<Rightarrow> (nat \<Rightarrow> nat) \<Rightarrow> tunnel \<Rightarrow> bytes \<Rightarrow> (py_error + unit) \<times> tunnel \<times> bytes" where
  "send a d t plaintext =
     (if plaintext = [] then (Inr (), t, [])
      else let limit = next_record_size (d (send_nonce t));
               chunk = take limit plaintext
        in case seal a t (chunk @ [0x17]) of
             (Inl e, t') \<Rightarrow> (Inl e, t', [])
           | (Inr rec, t') \<Rightarrow>
               (let (r, t'', out) = send a d t' (drop limit plaintext) in (r, t'', rec @ out)))"
  by pat_completeness auto
termination
  by (relation "measure (\<lambda>(a, d, t, p). length p)") auto

declare send.simps [simp del]

definition send_close_notify :: "aead \<Rightarrow> bool \<Rightarrow> tunnel \<Rightarrow> (py_error + unit) \<times> tunnel \<times> bytes" where
  "send_close_notify a closing t =
     (if send_key t = None \<or> closing then (Inr (), t, [])
      else case seal a t [0x01, 0x00, 0x15] of
        (Inl e, t') \<Rightarrow> (Inl e, t', [])
      | (Inr rec, t') \<Rightarrow> (Inr (), t', rec))"

section \<open>Receiving\<close>

definition read_ciphertext :: "(nat \<Rightarrow> ('s, bytes) reading) \<Rightarrow> ('s, bytes) reading" where
  "read_ciphertext rx = bindR (rx 5) (\<lambda>header. rx (from_be (slice 3 5 header)))"

definition open_record :: "aead \<Rightarrow> tunnel \<Rightarrow> bytes \<Rightarrow> (py_error + bytes) \<times> tunnel" where
  "open_record a t ciphertext =
     (case nonce_bytes (recv_nonce t) of
        Inl e \<Rightarrow> (Inl e, t)
      | Inr nonce \<Rightarrow>
         (let t = t\<lparr>recv_nonce := recv_nonce t + 1\<rparr> in
          (case recv_key t of None \<Rightarrow> Inl AttributeError
           | Some k \<Rightarrow> (case a_dec a k nonce ciphertext of
               None \<Rightarrow> Inl CryptoError
             | Some plaintext \<Rightarrow>
                 if plaintext = [] then Inl EOFErr
                 else if last plaintext = 0x17 then Inr (butlast plaintext)
                 else if last plaintext = 0x15 then Inl EOFErr
                 else Inl ValueError), t)))"

definition recv :: "aead \<Rightarrow> (nat \<Rightarrow> ('s, bytes) reading) \<Rightarrow> tunnel \<Rightarrow> 's \<Rightarrow> (py_error + bytes) \<times> tunnel \<times> 's" where
  "recv a rx t s = (case read_ciphertext rx s of
      (Inl e, s') \<Rightarrow> (Inl e, t, s')
    | (Inr c, s') \<Rightarrow> (let (r, t') = open_record a t c in (r, t', s')))"

text \<open>The loops around \<open>send\<close> and \<open>recv\<close>: messages until one fails, chunks until an exception.\<close>

fun send_all :: "aead \<Rightarrow> (nat \<Rightarrow> nat) \<Rightarrow> tunnel \<Rightarrow> bytes list \<Rightarrow> (py_error + unit) \<times> tunnel \<times> bytes" where
  "send_all a d t [] = (Inr (), t, [])"
| "send_all a d t (m # ms) =
     (case send a d t m of
        (Inl e, t', out) \<Rightarrow> (Inl e, t', out)
      | (Inr u, t', out) \<Rightarrow> (let (r, t'', out') = send_all a d t' ms in (r, t'', out @ out')))"

fun recv_loop :: "aead \<Rightarrow> (nat \<Rightarrow> ('s, bytes) reading) \<Rightarrow> nat \<Rightarrow> tunnel \<Rightarrow> 's \<Rightarrow> bytes list \<times> py_error option \<times> tunnel \<times> 's" where
  "recv_loop a rx 0 t s = ([], None, t, s)"
| "recv_loop a rx (Suc k) t s =
     (case recv a rx t s of
        (Inl e, t', s') \<Rightarrow> ([], Some e, t', s')
      | (Inr b, t', s') \<Rightarrow> (let (bs, r) = recv_loop a rx k t' s' in (b # bs, r)))"

context stream_reader
begin

lemma read_ciphertext_sim [sim_intros]: "sim view (read_ciphertext rx) (read_ciphertext pure_readexactly)"
  unfolding read_ciphertext_def by (intro sim_intros rx_sim)

lemma recv_sim:
  "recv a pure_readexactly t (view s) = (let (r, t', s') = recv a rx t s in (r, t', view s'))"
  using simD[OF read_ciphertext_sim, of s]
  by (cases "read_ciphertext rx s"; cases "read_ciphertext pure_readexactly (view s)")
    (auto simp: recv_def case_prod_beta split: sum.split)

lemma recv_loop_sim:
  "recv_loop a pure_readexactly k t (view s) = (let (bs, e, t', s') = recv_loop a rx k t s in (bs, e, t', view s'))"
proof (induction k arbitrary: t s)
  case 0
  then show ?case by simp
next
  case (Suc k)
  then show ?case
    using recv_sim[of a t s] by (auto simp: case_prod_beta Let_def split: sum.splits prod.splits)
qed

end

section \<open>Delivery\<close>

text \<open>The sender's and the receiver's counters and keys agree.\<close>

definition paired :: "tunnel \<Rightarrow> tunnel \<Rightarrow> bool" where
  "paired t u \<longleftrightarrow> send_key t = recv_key u \<and> send_key t \<noteq> None \<and> send_nonce t = recv_nonce u"

lemma seal_Inr:
  assumes "seal a t inner = (Inr rec, t')"
  obtains k where "send_key t = Some k" "send_nonce t < 256 ^ 12" "t' = t\<lparr>send_nonce := send_nonce t + 1\<rparr>"
    "rec = tls_record [0x17, 0x03, 0x03] (a_enc a k (to_be 12 (send_nonce t)) inner)"
    "length (a_enc a k (to_be 12 (send_nonce t)) inner) < 65536"
  using assms
  by (auto simp: seal_def nonce_bytes_def Let_def bindE_Inr_iff pack_be_Inr_iff tls_record_def
      split: if_splits option.splits)

lemma read_ciphertext_record:
  assumes "length body < 65536"
  shows "read_ciphertext pure_readexactly (tls_record [0x17, 0x03, 0x03] body @ rest) = (Inr body, rest)"
proof -
  let ?h = "[0x17, 0x03, 0x03] @ to_be 2 (length body)"
  have l: "from_be (slice 3 5 ?h) = length body" using assms by (simp add: slice_def)
  have eq: "tls_record [0x17, 0x03, 0x03] body @ rest = ?h @ body @ rest" by (simp add: tls_record_def)
  show ?thesis
    unfolding eq read_ciphertext_def
    by (subst bind_pure[where a = ?h], simp, simp only: l) (simp add: pure_readexactly_prefix)
qed

lemma recv_sealed:
  assumes "aead_ok a" "paired t u" "seal a t inner = (Inr rec, t')" "inner \<noteq> []"
  shows "recv a pure_readexactly u (rec @ rest) =
      (if last inner = 0x17 then Inr (butlast inner) else if last inner = 0x15 then Inl EOFErr else Inl ValueError,
       u\<lparr>recv_nonce := recv_nonce u + 1\<rparr>, rest)"
    "paired t' (u\<lparr>recv_nonce := recv_nonce u + 1\<rparr>)"
proof -
  obtain k where k: "send_key t = Some k" "send_nonce t < 256 ^ 12" "t' = t\<lparr>send_nonce := send_nonce t + 1\<rparr>"
    "rec = tls_record [0x17, 0x03, 0x03] (a_enc a k (to_be 12 (send_nonce t)) inner)"
    "length (a_enc a k (to_be 12 (send_nonce t)) inner) < 65536"
    by (rule seal_Inr[OF assms(3)])
  have u: "recv_key u = Some k" "recv_nonce u = send_nonce t" using assms(2) k(1) by (simp_all add: paired_def)
  show "recv a pure_readexactly u (rec @ rest) =
      (if last inner = 0x17 then Inr (butlast inner) else if last inner = 0x15 then Inl EOFErr else Inl ValueError,
       u\<lparr>recv_nonce := recv_nonce u + 1\<rparr>, rest)"
    using read_ciphertext_record[OF k(5), of rest] k(2,4) u assms(1,4)
    by (simp add: recv_def open_record_def nonce_bytes_def aead_ok_def Let_def)
  show "paired t' (u\<lparr>recv_nonce := recv_nonce u + 1\<rparr>)" using k(1,3) u by (simp add: paired_def)
qed

lemma recv_loop_step:
  assumes "recv a rx t s = (Inr b, t', s')"
  shows "recv_loop a rx (Suc k) t s = (let (bs, r) = recv_loop a rx k t' s' in (b # bs, r))"
  using assms by simp

lemma send_step:
  assumes "send a d t m = (Inr x, t', out)" "m \<noteq> []"
  obtains rec t1 out1 where "seal a t (take (next_record_size (d (send_nonce t))) m @ [0x17]) = (Inr rec, t1)"
    "send a d t1 (drop (next_record_size (d (send_nonce t))) m) = (Inr x, t', out1)" "out = rec @ out1"
proof -
  let ?n = "next_record_size (d (send_nonce t))"
  obtain r1 t1 where s: "seal a t (take ?n m @ [0x17]) = (r1, t1)" by fastforce
  obtain r2 t2 out1 where r: "send a d t1 (drop ?n m) = (r2, t2, out1)" by (rule prod_cases3)
  have "\<exists>rec. r1 = Inr rec \<and> r2 = Inr x \<and> t2 = t' \<and> out = rec @ out1"
    using assms s r by (cases r1) (simp_all add: send.simps[of a d t m] Let_def)
  then show thesis using that s r by blast
qed

lemma next_record_size_le: "next_record_size r \<le> 16384"
  by (simp add: next_record_size_def)

lemma recv_loop_send:
  assumes "aead_ok a" "paired t u" "send a d t m = (Inr x, t', out)"
  shows "\<exists>cs u'. concat cs = m \<and> paired t' u' \<and> (\<forall>c \<in> set cs. c \<noteq> [] \<and> length c \<le> 16384)
    \<and> (\<forall>k rest. recv_loop a pure_readexactly (length cs + k) u (out @ rest) =
        (let (bs, r) = recv_loop a pure_readexactly k u' rest in (cs @ bs, r)))"
  using assms
proof (induction a d t m arbitrary: u x t' out rule: send.induct)
  case (1 a d t m)
  show ?case
  proof (cases "m = []")
    case True
    then show ?thesis using 1(2-4) by (intro exI[of _ "[]"] exI[of _ u]) (simp add: send.simps)
  next
    case False
    let ?n = "next_record_size (d (send_nonce t))"
    let ?c = "take ?n m"
    let ?u = "u\<lparr>recv_nonce := recv_nonce u + 1\<rparr>"
    obtain rec t1 out1 where s: "seal a t (?c @ [0x17]) = (Inr rec, t1)"
      and r: "send a d t1 (drop ?n m) = (Inr x, t', out1)" and out: "out = rec @ out1"
      by (rule send_step[OF 1(4) False])
    have rv: "recv a pure_readexactly u (rec @ rest) = (Inr ?c, ?u, rest)" for rest
      using recv_sealed(1)[OF 1(2,3) s, of rest] by simp
    have pr: "paired t1 ?u" by (rule recv_sealed(2)[OF 1(2,3) s]) simp
    obtain cs u' where cs: "concat cs = drop ?n m" "paired t' u'" "\<forall>c \<in> set cs. c \<noteq> [] \<and> length c \<le> 16384"
      and lp: "\<And>k rest. recv_loop a pure_readexactly (length cs + k) ?u (out1 @ rest) =
        (let (bs, r) = recv_loop a pure_readexactly k u' rest in (cs @ bs, r))"
      using 1(1)[OF False refl refl s[symmetric] refl 1(2) pr r] by blast
    have "recv_loop a pure_readexactly (length (?c # cs) + k) u (out @ rest) =
        (let (bs, r) = recv_loop a pure_readexactly k u' rest in ((?c # cs) @ bs, r))" for k rest
      using recv_loop_step[OF rv, of "length cs + k" "out1 @ rest"] lp[of k rest] out
      by (simp add: case_prod_beta Let_def)
    moreover have "?c \<noteq> []" using False next_record_size_pos[of "d (send_nonce t)"] by auto
    ultimately show ?thesis
      using cs next_record_size_le[of "d (send_nonce t)"] by (intro exI[of _ "?c # cs"] exI[of _ u']) auto
  qed
qed

lemma recv_loop_send_all:
  assumes "aead_ok a" "paired t u" "send_all a d t ms = (Inr x, t', out)"
  shows "\<exists>cs u'. concat cs = concat ms \<and> paired t' u' \<and> (\<forall>c \<in> set cs. c \<noteq> [] \<and> length c \<le> 16384)
    \<and> (\<forall>k rest. recv_loop a pure_readexactly (length cs + k) u (out @ rest) =
        (let (bs, r) = recv_loop a pure_readexactly k u' rest in (cs @ bs, r)))"
  using assms(2,3)
proof (induction ms arbitrary: t u x t' out)
  case Nil
  then show ?case by (intro exI[of _ "[]"] exI[of _ u]) simp
next
  case (Cons m ms)
  obtain r1 t1 o1 where s: "send a d t m = (r1, t1, o1)" by (rule prod_cases3)
  obtain r2 t2 o2 where r: "send_all a d t1 ms = (r2, t2, o2)" by (rule prod_cases3)
  have e: "\<exists>y. r1 = Inr y" "r2 = Inr x" "t2 = t'" "out = o1 @ o2"
    using Cons.prems(2) s r by (cases r1; simp)+
  then obtain y where s': "send a d t m = (Inr y, t1, o1)" using s by blast
  obtain c1 u1 where 1: "concat c1 = m" "paired t1 u1" "\<forall>c \<in> set c1. c \<noteq> [] \<and> length c \<le> 16384"
    "\<And>k rest. recv_loop a pure_readexactly (length c1 + k) u (o1 @ rest) =
        (let (bs, r) = recv_loop a pure_readexactly k u1 rest in (c1 @ bs, r))"
    using recv_loop_send[OF assms(1) Cons.prems(1) s'] by blast
  have r': "send_all a d t1 ms = (Inr x, t', o2)" using r e by simp
  obtain c2 u2 where 2: "concat c2 = concat ms" "paired t' u2" "\<forall>c \<in> set c2. c \<noteq> [] \<and> length c \<le> 16384"
    "\<And>k rest. recv_loop a pure_readexactly (length c2 + k) u1 (o2 @ rest) =
        (let (bs, r) = recv_loop a pure_readexactly k u2 rest in (c2 @ bs, r))"
    using Cons.IH[OF 1(2) r'] by blast
  have "recv_loop a pure_readexactly (length (c1 @ c2) + k) u (out @ rest) =
      (let (bs, r) = recv_loop a pure_readexactly k u2 rest in ((c1 @ c2) @ bs, r))" for k rest
    using 1(4)[of "length c2 + k" "o2 @ rest"] 2(4)[of k rest] e(4)
    by (simp add: case_prod_beta Let_def add.assoc)
  then show ?case
    using 1(1,3) 2(1-3) by (intro exI[of _ "c1 @ c2"] exI[of _ u2]) auto
qed

lemma seal_total:
  assumes "aead_ok a" "send_key t \<noteq> None" "send_nonce t < 256 ^ 12" "length inner \<le> 16385"
  shows "\<exists>rec. seal a t inner = (Inr rec, t\<lparr>send_nonce := send_nonce t + 1\<rparr>)"
  using assms by (auto simp: seal_def nonce_bytes_def Let_def pack_be_def aead_ok_def)

lemma send_total_aux:
  assumes "aead_ok a" "send_key t \<noteq> None" "send_nonce t + length m \<le> 256 ^ 12"
  shows "fst (send a d t m) = Inr ()"
  using assms
proof (induction a d t m rule: send.induct)
  case (1 a d t m)
  show ?case
  proof (cases "m = []")
    case False
    let ?n = "next_record_size (d (send_nonce t))"
    let ?t = "t\<lparr>send_nonce := send_nonce t + 1\<rparr>"
    have n: "?n \<le> 16384" "0 < ?n" by (simp_all add: next_record_size_le)
    have "send_nonce t < 256 ^ 12" using 1(4) False by (cases m) auto
    moreover have "length (take ?n m @ [0x17]) \<le> 16385" using n by (simp add: min.coboundedI2)
    ultimately obtain rec where s: "seal a t (take ?n m @ [0x17]) = (Inr rec, ?t)"
      using seal_total[OF 1(2,3)] by blast
    have "0 < length m" using False by simp
    then have "length m - ?n + 1 \<le> length m" using n(2) by linarith
    then have "send_nonce t + 1 + length (drop ?n m) \<le> 256 ^ 12"
      unfolding length_drop using 1(4) by linarith
    then have "fst (send a d ?t (drop ?n m)) = Inr ()"
      using 1(1)[OF False refl refl s[symmetric] refl 1(2)] 1(3) by simp
    then show ?thesis using s False by (subst send.simps) (simp add: case_prod_beta Let_def)
  qed (simp add: send.simps)
qed

lemma handshake_paired:
  assumes "handshake_as_initiator cr a pw rnd new_tunnel = Inr t" "handshake_as_responder cr a pw rnd new_tunnel = Inr u"
  shows "paired t u" "paired u t" "send_nonce t = 0"
  using assms
  by (auto simp: handshake_as_initiator_def handshake_as_responder_def bindE_Inr_iff paired_def new_tunnel_def)

section \<open>Properties\<close>

text \<open>What one side writes the other side reads: after the two handshakes with the same password and
  client random, the chunks received over a connection cut anywhere concatenate to the messages sent, in
  order, whatever record sizes were drawn; the close alert then ends the reading, leaving later bytes.\<close>

theorem tunnel_delivers:
  assumes "aead_ok a"
    and "handshake_as_initiator cr a pw rnd new_tunnel = Inr t"
    and "handshake_as_responder cr a pw rnd new_tunnel = Inr u"
    and "send_all a d t ms = (Inr x, t', out)" "send_close_notify a False t' = (Inr y, t'', fin)"
    and "concat s = out @ fin @ rest"
  shows "\<exists>cs u' s'. recv_loop a raw_readexactly (length cs + 1) u s = (cs, Some EOFErr, u', s')
    \<and> concat cs = concat ms \<and> concat s' = rest \<and> (\<forall>c \<in> set cs. c \<noteq> [] \<and> length c \<le> 16384)"
proof -
  have p: "paired t u" by (rule handshake_paired(1)[OF assms(2,3)])
  obtain cs u1 where cs: "concat cs = concat ms" "paired t' u1" "\<forall>c \<in> set cs. c \<noteq> [] \<and> length c \<le> 16384"
    "\<And>k rest. recv_loop a pure_readexactly (length cs + k) u (out @ rest) =
        (let (bs, r) = recv_loop a pure_readexactly k u1 rest in (cs @ bs, r))"
    using recv_loop_send_all[OF assms(1) p assms(4)] by blast
  have "send_key t' \<noteq> None" using cs(2) unfolding paired_def by blast
  then obtain t3 where "seal a t' [0x01, 0x00, 0x15] = (Inr fin, t3)"
    using assms(5) by (auto simp: send_close_notify_def split: prod.splits sum.splits if_splits)
  from recv_sealed(1)[OF assms(1) cs(2) this, of rest]
  have "recv_loop a pure_readexactly 1 u1 (fin @ rest) =
      ([], Some EOFErr, u1\<lparr>recv_nonce := recv_nonce u1 + 1\<rparr>, rest)" by simp
  then have "recv_loop a pure_readexactly (length cs + 1) u (concat s) =
      (cs, Some EOFErr, u1\<lparr>recv_nonce := recv_nonce u1 + 1\<rparr>, rest)"
    using cs(4)[of 1 "fin @ rest"] assms(6) by simp
  then show ?thesis
    using raw.recv_loop_sim[of a "length cs + 1" u s] cs(1,3)
    by (cases "recv_loop a raw_readexactly (length cs + 1) u s") auto
qed

text \<open>An instance of the cipher: sixteen zero bytes appended as the tag.\<close>

definition zero_aead :: aead where
  "zero_aead = \<lparr>a_enc = (\<lambda>k n p. p @ replicate 16 0), a_dec = (\<lambda>k n c. Some (take (length c - 16) c)),
     a_hkdf = (\<lambda>k s i. replicate 32 0), a_expand = (\<lambda>m i. replicate 32 0)\<rparr>"

lemma zero_aead_ok: "aead_ok zero_aead"
  by (simp add: aead_ok_def zero_aead_def)

definition sample_tunnel :: tunnel where
  "sample_tunnel = \<lparr>send_key = Some (replicate 32 0), recv_key = Some (replicate 32 0), send_nonce = 0, recv_nonce = 0\<rparr>"

lemma sample_handshake:
  "handshake_as_initiator zero_crypto zero_aead (U ''p'') [] new_tunnel = Inr sample_tunnel"
  "handshake_as_responder zero_crypto zero_aead (U ''p'') [] new_tunnel = Inr sample_tunnel"
  by (simp_all add: handshake_as_initiator_def handshake_as_responder_def derive_master_def U_def utf8_cp_def
      zero_aead_def new_tunnel_def sample_tunnel_def)

theorem tunnel_delivers_witness:
  "\<exists>out fin t' t''. send_all zero_aead (\<lambda>_. 0) sample_tunnel [[5, 6], [7]] = (Inr (), t', out)
    \<and> send_close_notify zero_aead False t' = (Inr (), t'', fin)
    \<and> (\<exists>cs u' s'. recv_loop zero_aead raw_readexactly (length cs + 1) sample_tunnel [out, fin] = (cs, Some EOFErr, u', s')
      \<and> concat cs = [5, 6, 7])"
proof -
  obtain t' out where 1: "send_all zero_aead (\<lambda>_. 0) sample_tunnel [[5, 6], [7]] = (Inr (), t', out)"
      "send_key t' \<noteq> None" "send_nonce t' = 2"
    by (simp add: send.simps seal_def nonce_bytes_def pack_be_def zero_aead_def sample_tunnel_def
        next_record_size_def Let_def)
  obtain t'' fin where 2: "send_close_notify zero_aead False t' = (Inr (), t'', fin)"
    using seal_total[OF zero_aead_ok 1(2), of "[1, 0, 0x15]"] 1(2,3) by (auto simp: send_close_notify_def)
  have "\<exists>cs u' s'. recv_loop zero_aead raw_readexactly (length cs + 1) sample_tunnel [out, fin] = (cs, Some EOFErr, u', s')
      \<and> concat cs = [5, 6, 7]"
    using tunnel_delivers[OF zero_aead_ok sample_handshake 1(1) 2, of "[out, fin]" "[]"] by auto
  then show ?thesis using 1 2 by blast
qed

text \<open>Sending does not fail while nonces are left: after a handshake every message sequence of fewer
  than \<open>256 ^ 12\<close> bytes goes out.\<close>

theorem send_succeeds:
  assumes "aead_ok a" "handshake_as_initiator cr a pw rnd new_tunnel = Inr t" "length m \<le> 256 ^ 12"
  shows "fst (send a d t m) = Inr ()"
proof (rule send_total_aux[OF assms(1)])
  show "send_key t \<noteq> None" "send_nonce t + length m \<le> 256 ^ 12"
    using assms(2,3) by (auto simp: handshake_as_initiator_def bindE_Inr_iff new_tunnel_def)
qed

theorem send_succeeds_witness: "fst (send zero_aead (\<lambda>_. 0) sample_tunnel [5, 6]) = Inr ()"
  by (rule send_succeeds[OF zero_aead_ok sample_handshake(1)]) simp

end
