(* ===== verification/Json.thy ===== *)
theory Json
  imports Complex_Main Text
begin

text \<open>
  JSON values as \<open>json.loads\<close> gives them, with the operations on them the sources use. An object keeps
  its key order. \<open>str()\<close> of a float, list or object is a parameter (\<open>py_repr\<close>).
\<close>

datatype json =
  JNull | JBool bool | JInt int | JFloat rat | JStr pystr | JList "json list" | JObj "(pystr \<times> json) list"

fun truthy :: "json \<Rightarrow> bool" where
  "truthy JNull = False"
| "truthy (JBool b) = b"
| "truthy (JInt i) = (i \<noteq> 0)"
| "truthy (JFloat f) = (f \<noteq> 0)"
| "truthy (JStr s) = (s \<noteq> [])"
| "truthy (JList xs) = (xs \<noteq> [])"
| "truthy (JObj d) = (d \<noteq> [])"

fun py_str :: "(json \<Rightarrow> pystr) \<Rightarrow> json \<Rightarrow> pystr" where
  "py_str py_repr JNull = U ''None''"
| "py_str py_repr (JBool b) = (if b then U ''True'' else U ''False'')"
| "py_str py_repr (JInt i) = show_int i"
| "py_str py_repr (JStr s) = s"
| "py_str py_repr j = py_repr j"

text \<open>\<open>d.get(k)\<close> on an object.\<close>

fun jget :: "json \<Rightarrow> pystr \<Rightarrow> json option" where
  "jget (JObj d) k = od_get d k"
| "jget j k = None"

fun is_obj :: "json \<Rightarrow> bool" where
  "is_obj (JObj d) = True"
| "is_obj j = False"

fun is_list :: "json \<Rightarrow> bool" where
  "is_list (JList xs) = True"
| "is_list j = False"

fun is_str :: "json \<Rightarrow> bool" where
  "is_str (JStr s) = True"
| "is_str j = False"

text \<open>A bool is an int in Python.\<close>

fun is_int :: "json \<Rightarrow> bool" where
  "is_int (JInt i) = True"
| "is_int (JBool b) = True"
| "is_int j = False"

definition jor :: "json option \<Rightarrow> json option \<Rightarrow> json option" where
  "jor a b = (case a of Some x \<Rightarrow> if truthy x then a else b | None \<Rightarrow> b)"

text \<open>\<open>for x in v\<close>: a list's elements, a string's characters, an object's keys.\<close>

fun py_iter :: "json \<Rightarrow> py_error + json list" where
  "py_iter (JList xs) = Inr xs"
| "py_iter (JStr s) = Inr (map (\<lambda>c. JStr [c]) s)"
| "py_iter (JObj d) = Inr (map (\<lambda>(k, v). JStr k) d)"
| "py_iter j = Inl TypeError"

text \<open>\<open>v[0]\<close>\<close>

fun py_first :: "json \<Rightarrow> py_error + json" where
  "py_first (JList (x # xs)) = Inr x"
| "py_first (JList []) = Inl IndexError"
| "py_first (JStr (c # s)) = Inr (JStr [c])"
| "py_first (JStr []) = Inl IndexError"
| "py_first (JObj d) = Inl KeyError"
| "py_first j = Inl TypeError"

text \<open>\<open>int(v)\<close> (floats are truncated towards zero) and \<open>float(v)\<close>; parsing a float's text is a parameter.\<close>

fun py_int_of :: "json \<Rightarrow> py_error + int" where
  "py_int_of (JInt i) = Inr i"
| "py_int_of (JBool b) = Inr (if b then 1 else 0)"
| "py_int_of (JFloat f) = Inr (if f < 0 then - \<lfloor>- f\<rfloor> else \<lfloor>f\<rfloor>)"
| "py_int_of (JStr s) = (case py_int 10 s of Some i \<Rightarrow> Inr i | None \<Rightarrow> Inl ValueError)"
| "py_int_of j = Inl TypeError"

fun py_float_of :: "(pystr \<Rightarrow> rat option) \<Rightarrow> json \<Rightarrow> py_error + rat" where
  "py_float_of parse (JInt i) = Inr (of_int i)"
| "py_float_of parse (JBool b) = Inr (if b then 1 else 0)"
| "py_float_of parse (JFloat f) = Inr f"
| "py_float_of parse (JStr s) = (case parse s of Some f \<Rightarrow> Inr f | None \<Rightarrow> Inl ValueError)"
| "py_float_of parse j = Inl TypeError"

text \<open>\<open>d.get(k, default)\<close>\<close>

definition jget_or :: "json \<Rightarrow> pystr \<Rightarrow> json \<Rightarrow> json" where
  "jget_or d k def = (case jget d k of Some v \<Rightarrow> v | None \<Rightarrow> def)"

text \<open>Lists and objects cannot be dictionary keys.\<close>

fun hashable :: "json \<Rightarrow> bool" where
  "hashable (JList xs) = False"
| "hashable (JObj d) = False"
| "hashable j = True"

end
