(* ===== verification/Outbounds.thy ===== *)
theory Outbounds
  imports Json IpAddr "HOL-Library.List_Lexorder"
begin

text \<open>
  \<open>core/outbound.py\<close> and \<open>core/group.py\<close>: the outbound objects, their health, the selection of a leaf
  through groups, and \<open>build_outbounds\<close>.  Outbound objects live in a store \<open>obs\<close>, the object with
  address \<open>a\<close> being \<open>obs ! a\<close>; a group holds the addresses of its children, so that a child shared by
  two groups has one state.  \<open>build_outbounds\<close> creates a group after its children: addresses decrease
  along every chain of groups, and selection with fuel \<open>2 * a + 2\<close> never runs out
  (\<open>resolve_fuel\<close>).  Address resolution of a server's name (\<open>getaddrinfo\<close>), parsing of a float's text
  and time are parameters.
\<close>

section \<open>Outbound objects\<close>

definition unhealthy_after_fails :: nat where "unhealthy_after_fails = 3"
definition latency_window :: nat where "latency_window = 10"

record node_cfg =
  n_host :: "json option"
  n_port :: int
  n_password :: json
  n_camouflage :: "json option"
  n_rate :: int
  n_pool_size :: int
  n_step :: "rat option"
  n_jitter :: "rat option"

record mirage =
  m_tag :: pystr
  m_cfg :: node_cfg
  m_samples :: "rat list"
  m_last_sample :: rat
  m_fails :: nat

datatype outb =
    Direct pystr
  | Block pystr
  | Mirage mirage
  | UrlTest pystr "nat list" int "nat option"
  | Fallback pystr "nat list"
  | Selector pystr "nat list" "pystr option"

fun tag_of :: "outb \<Rightarrow> pystr" where
  "tag_of (Direct t) = t"
| "tag_of (Block t) = t"
| "tag_of (Mirage m) = m_tag m"
| "tag_of (UrlTest t cs tol cur) = t"
| "tag_of (Fallback t cs) = t"
| "tag_of (Selector t cs sel) = t"

fun type_of :: "outb \<Rightarrow> pystr" where
  "type_of (Direct t) = U ''direct''"
| "type_of (Block t) = U ''block''"
| "type_of (Mirage m) = U ''mirage''"
| "type_of (UrlTest t cs tol cur) = U ''urltest''"
| "type_of (Fallback t cs) = U ''fallback''"
| "type_of (Selector t cs sel) = U ''selector''"

fun children :: "outb \<Rightarrow> nat list" where
  "children (UrlTest t cs tol cur) = cs"
| "children (Fallback t cs) = cs"
| "children (Selector t cs sel) = cs"
| "children _ = []"

fun is_leaf :: "outb \<Rightarrow> bool" where
  "is_leaf (Direct t) = True"
| "is_leaf (Block t) = True"
| "is_leaf (Mirage m) = True"
| "is_leaf _ = False"

definition new_mirage :: "pystr \<Rightarrow> node_cfg \<Rightarrow> mirage" where
  "new_mirage t cfg = \<lparr> m_tag = t, m_cfg = cfg, m_samples = [], m_last_sample = 0, m_fails = 0 \<rparr>"

text \<open>The health callbacks; \<open>deque(maxlen=10)\<close> drops its oldest element.\<close>

definition record_latency :: "rat \<Rightarrow> rat \<Rightarrow> mirage \<Rightarrow> mirage" where
  "record_latency ms now m = (let s = m_samples m @ [ms] in
     m\<lparr> m_samples := drop (length s - latency_window) s, m_last_sample := now, m_fails := 0 \<rparr>)"

definition record_failure :: "mirage \<Rightarrow> mirage" where
  "record_failure m = m\<lparr> m_fails := m_fails m + 1 \<rparr>"

text \<open>\<open>statistics.median\<close>\<close>

definition median :: "rat list \<Rightarrow> rat" where
  "median xs = (let s = sort xs; n = length xs in
     if odd n then s ! (n div 2) else (s ! (n div 2 - 1) + s ! (n div 2)) / 2)"

definition mirage_latency :: "mirage \<Rightarrow> rat option" where
  "mirage_latency m = (if m_samples m = [] then None else Some (median (m_samples m)))"

text \<open>The age of the newest sample, \<open>None\<close> for \<open>float("inf")\<close>.\<close>

definition latency_age :: "rat \<Rightarrow> mirage \<Rightarrow> rat option" where
  "latency_age now m = (if m_last_sample m = 0 then None else Some (now - m_last_sample m))"

definition mirage_healthy :: "mirage \<Rightarrow> bool" where
  "mirage_healthy m \<longleftrightarrow> m_fails m < unhealthy_after_fails"

definition new_selector :: "outb list \<Rightarrow> pystr \<Rightarrow> nat list \<Rightarrow> json option \<Rightarrow> outb" where
  "new_selector obs t cs dflt =
     (let child_tags = map (\<lambda>c. tag_of (obs ! c)) cs in
      Selector t cs (case dflt of
          Some (JStr d) \<Rightarrow> if d \<in> set child_tags then Some d else if child_tags = [] then None else Some (hd child_tags)
        | _ \<Rightarrow> if child_tags = [] then None else Some (hd child_tags)))"

definition new_urltest :: "pystr \<Rightarrow> nat list \<Rightarrow> int \<Rightarrow> outb" where
  "new_urltest t cs tol = UrlTest t cs tol (if cs = [] then None else Some (hd cs))"

text \<open>\<open>SelectorGroup.select\<close>\<close>

definition selector_select :: "outb list \<Rightarrow> nat \<Rightarrow> pystr \<Rightarrow> bool \<times> outb list" where
  "selector_select obs a t = (case obs ! a of
       Selector g cs sel \<Rightarrow>
         if list_ex (\<lambda>c. tag_of (obs ! c) = t) cs then (True, obs[a := Selector g cs (Some t)]) else (False, obs)
     | _ \<Rightarrow> (False, obs))"

section \<open>Health and selection\<close>

definition selected_child :: "outb list \<Rightarrow> nat list \<Rightarrow> pystr option \<Rightarrow> nat option" where
  "selected_child obs cs sel = find (\<lambda>c. Some (tag_of (obs ! c)) = sel) cs"

fun is_healthy :: "nat \<Rightarrow> outb list \<Rightarrow> nat \<Rightarrow> bool" where
  "is_healthy 0 obs a = False"
| "is_healthy (Suc n) obs a = (case obs ! a of
      Direct t \<Rightarrow> True
    | Block t \<Rightarrow> True
    | Mirage m \<Rightarrow> mirage_healthy m
    | UrlTest t cs tol cur \<Rightarrow> list_ex (is_healthy n obs) cs
    | Fallback t cs \<Rightarrow> list_ex (is_healthy n obs) cs
    | Selector t cs sel \<Rightarrow> (case selected_child obs cs sel of
          Some c \<Rightarrow> is_healthy n obs c
        | None \<Rightarrow> list_ex (is_healthy n obs) cs))"

text \<open>\<open>min(with_lat, key=lambda x: x[1])\<close>: the first of the least.\<close>

fun first_min :: "('a \<times> rat) list \<Rightarrow> 'a \<times> rat" where
  "first_min [x] = x"
| "first_min (x # y # xs) = (let m = first_min (y # xs) in if snd x \<le> snd m then x else m)"
| "first_min [] = undefined"

text \<open>
  \<open>resolve\<close> is \<open>resolve_leaf\<close>, \<open>latency\<close> the property \<open>latency_ms\<close> of an outbound; both may move the
  choice of a urltest group below.  Where the source reads the property of one child twice in a row
  (the filter and the element of a comprehension, two conjuncts), the model reads it once.
\<close>

function (sequential) resolve :: "nat \<Rightarrow> outb list \<Rightarrow> nat \<Rightarrow> nat \<times> outb list"
  and latency :: "nat \<Rightarrow> outb list \<Rightarrow> nat \<Rightarrow> rat option \<times> outb list"
  and latencies :: "nat \<Rightarrow> outb list \<Rightarrow> nat list \<Rightarrow> (nat \<times> rat) list \<times> outb list"
where
  "resolve 0 obs a = (a, obs)"
| "resolve (Suc n) obs a = (case obs ! a of
      UrlTest t cs tol cur \<Rightarrow>
        (let candidates = filter (is_healthy n obs) cs in
         if candidates = [] then (a, obs)
         else case latencies n obs candidates of (with_lat, obs1) \<Rightarrow>
           if with_lat = [] then
             (case cur of
                Some c \<Rightarrow> if c \<in> set candidates then resolve n obs1 c
                          else resolve n (obs1[a := UrlTest t cs tol (Some (hd candidates))]) (hd candidates)
              | None \<Rightarrow> resolve n (obs1[a := UrlTest t cs tol (Some (hd candidates))]) (hd candidates))
           else case first_min with_lat of (best, best_lat) \<Rightarrow>
             (case cur of
                Some c \<Rightarrow>
                  if c \<in> set candidates then
                    (case latency n obs1 c of
                       (Some l, obs2) \<Rightarrow>
                         if l - best_lat < of_int tol then resolve n obs2 c
                         else resolve n (obs2[a := UrlTest t cs tol (Some best)]) best
                     | (None, obs2) \<Rightarrow> resolve n (obs2[a := UrlTest t cs tol (Some best)]) best)
                  else resolve n (obs1[a := UrlTest t cs tol (Some best)]) best
              | None \<Rightarrow> resolve n (obs1[a := UrlTest t cs tol (Some best)]) best))
    | Fallback t cs \<Rightarrow>
        (case find (is_healthy n obs) cs of
           Some c \<Rightarrow> resolve n obs c
         | None \<Rightarrow> if cs = [] then (a, obs) else resolve n obs (hd cs))
    | Selector t cs sel \<Rightarrow>
        (case selected_child obs cs sel of
           Some c \<Rightarrow> resolve n obs c
         | None \<Rightarrow> if cs = [] then (a, obs) else resolve n obs (hd cs))
    | _ \<Rightarrow> (a, obs))"
| "latency 0 obs a = (None, obs)"
| "latency (Suc n) obs a = (case obs ! a of
      Direct t \<Rightarrow> (None, obs)
    | Block t \<Rightarrow> (None, obs)
    | Mirage m \<Rightarrow> (mirage_latency m, obs)
    | _ \<Rightarrow> (case resolve n obs a of (leaf, obs1) \<Rightarrow>
        if leaf = a then (None, obs1) else latency n obs1 leaf))"
| "latencies n obs [] = ([], obs)"
| "latencies n obs (c # cs) = (case latency n obs c of (l, obs1) \<Rightarrow>
     case latencies n obs1 cs of (ls, obs2) \<Rightarrow>
       (case l of None \<Rightarrow> ls | Some x \<Rightarrow> (c, x) # ls, obs2))"

  by pat_completeness auto
termination
  by (relation "inv_image (less_than <*lex*> less_than)
      (case_sum (\<lambda>(n, obs, a). (n, 0)) (case_sum (\<lambda>(n, obs, a). (n, 0)) (\<lambda>(n, obs, cs). (n, Suc (length cs)))))")
    auto

definition resolve_leaf :: "outb list \<Rightarrow> nat \<Rightarrow> nat \<times> outb list" where
  "resolve_leaf obs a = resolve (2 * a + 2) obs a"

definition healthy :: "outb list \<Rightarrow> nat \<Rightarrow> bool" where
  "healthy obs a = is_healthy (a + 1) obs a"

section \<open>Selection preserves the configuration\<close>

text \<open>Selecting changes nothing but the current choice of urltest groups.\<close>

fun shape :: "outb \<Rightarrow> outb" where
  "shape (UrlTest t cs tol cur) = UrlTest t cs tol None"
| "shape x = x"

definition same :: "outb list \<Rightarrow> outb list \<Rightarrow> bool" where
  "same obs' obs \<longleftrightarrow> map shape obs' = map shape obs"

definition obs_ok :: "outb list \<Rightarrow> bool" where
  "obs_ok obs \<longleftrightarrow> (\<forall>a<length obs. (\<forall>c\<in>set (children (obs ! a)). c < a)
     \<and> (\<not> is_leaf (obs ! a) \<longrightarrow> children (obs ! a) \<noteq> [])
     \<and> (\<forall>t cs sel. obs ! a = Selector t cs sel \<longrightarrow> selected_child obs cs sel \<noteq> None))"

lemma same_refl [simp]: "same obs obs"
  by (simp add: same_def)

lemma same_trans [trans]: "same a b \<Longrightarrow> same b c \<Longrightarrow> same a c"
  by (simp add: same_def)

lemma same_length: "same obs' obs \<Longrightarrow> length obs' = length obs"
  unfolding same_def by (metis length_map)

lemma same_shape: "same obs' obs \<Longrightarrow> a < length obs \<Longrightarrow> shape (obs' ! a) = shape (obs ! a)"
  unfolding same_def by (metis length_map nth_map)

lemma shape_facts: "tag_of (shape x) = tag_of x" "children (shape x) = children x" "is_leaf (shape x) = is_leaf x"
  by (cases x; simp)+

lemma same_facts:
  assumes "same obs' obs" "a < length obs"
  shows "tag_of (obs' ! a) = tag_of (obs ! a)" "children (obs' ! a) = children (obs ! a)"
    "is_leaf (obs' ! a) = is_leaf (obs ! a)"
  using same_shape[OF assms] by (metis shape_facts)+

lemma same_update:
  assumes "same obs1 obs" "obs ! a = UrlTest t cs tol cur"
  shows "same (obs1[a := UrlTest t cs tol x]) obs"
proof (cases "a < length obs")
  case True
  then have "shape (obs1 ! a) = UrlTest t cs tol None" using same_shape[OF assms(1) True] assms(2) by simp
  then have "(map shape obs1)[a := UrlTest t cs tol None] = map shape obs1"
    by (metis True list_update_id map_update nth_map same_length[OF assms(1)])
  then show ?thesis using assms(1) by (simp add: same_def map_update)
next
  case False
  then show ?thesis using assms(1) same_length[OF assms(1)] by (simp add: list_update_beyond)
qed

lemma first_min_in: "xs \<noteq> [] \<Longrightarrow> first_min xs \<in> set xs"
  by (induction xs rule: first_min.induct) (auto simp: Let_def)

lemma first_min_least: "y \<in> set xs \<Longrightarrow> snd (first_min xs) \<le> snd y"
  by (induction xs rule: first_min.induct) (auto simp: Let_def)

lemma latencies_fst: "latencies n obs cs = (wl, obs1) \<Longrightarrow> fst ` set wl \<subseteq> set cs"
  by (induction cs arbitrary: obs wl obs1) (force split: prod.splits option.splits)+

lemma latencies_same:
  assumes "\<And>obs a. same (snd (latency n obs a)) obs"
  shows "same (snd (latencies n obs cs)) obs"
proof (induction cs arbitrary: obs)
  case Nil
  then show ?case by simp
next
  case (Cons c cs)
  show ?case using same_trans[OF Cons.IH assms] by (auto simp: case_prod_beta)
qed

text \<open>A urltest group with a candidate goes on with one of its candidates.\<close>

lemma resolve_urltest:
  assumes "obs ! a = UrlTest t cs tol cur" "filter (is_healthy n obs) cs \<noteq> []"
    and "\<And>obs a. same (snd (latency n obs a)) obs"
  obtains c obs2 where "c \<in> set (filter (is_healthy n obs) cs)" "same obs2 obs"
    "resolve (Suc n) obs a = resolve n obs2 c"
proof -
  let ?C = "filter (is_healthy n obs) cs"
  obtain wl obs1 where L: "latencies n obs ?C = (wl, obs1)" by (cases "latencies n obs ?C")
  have s1: "same obs1 obs" using latencies_same[OF assms(3), of obs ?C] L by simp
  note upd = same_update[OF s1 assms(1)]
  have hd_in: "hd ?C \<in> set ?C" by (rule hd_in_set[OF assms(2)])
  show thesis
  proof (cases "wl = []")
    case True
    show thesis
    proof (cases "\<exists>c. cur = Some c \<and> c \<in> set ?C")
      case True
      then obtain c where "cur = Some c" "c \<in> set ?C" by blast
      then show thesis using that[of c obs1] s1 assms(1,2) L \<open>wl = []\<close> by simp
    next
      case False
      then have "resolve (Suc n) obs a = resolve n (obs1[a := UrlTest t cs tol (Some (hd ?C))]) (hd ?C)"
        using assms(1,2) L \<open>wl = []\<close> by (auto simp: Let_def split: option.split)
      then show thesis using that[OF hd_in upd] by simp
    qed
  next
    case False
    obtain b bl where B: "first_min wl = (b, bl)" by (cases "first_min wl")
    have b_in: "b \<in> set ?C" using first_min_in[OF False] latencies_fst[OF L] B by force
    show thesis
    proof (cases "\<exists>c. cur = Some c \<and> c \<in> set ?C")
      case True
      then obtain c where c: "cur = Some c" "c \<in> set ?C" by blast
      obtain l obs2 where l: "latency n obs1 c = (l, obs2)" by (cases "latency n obs1 c")
      have s2: "same obs2 obs" using same_trans[OF _ s1] assms(3)[of obs1 c] l by simp
      have "resolve (Suc n) obs a = (if \<exists>x. l = Some x \<and> x - bl < of_int tol then resolve n obs2 c
          else resolve n (obs2[a := UrlTest t cs tol (Some b)]) b)"
        using assms(1,2) L B False c l by (auto split: option.split)
      then show thesis using that[OF c(2) s2] that[OF b_in same_update[OF s2 assms(1)]] by (auto split: if_splits)
    next
      case False
      then have "resolve (Suc n) obs a = resolve n (obs1[a := UrlTest t cs tol (Some b)]) b"
        using assms(1,2) L B \<open>wl \<noteq> []\<close> by (auto simp: Let_def split: option.split)
      then show thesis using that[OF b_in upd] by simp
    qed
  qed
qed

lemma selection_same: "same (snd (resolve n obs a)) obs \<and> same (snd (latency n obs a)) obs"
proof (induction n arbitrary: obs a)
  case 0
  then show ?case by simp
next
  case (Suc n)
  have lat: "\<And>obs a. same (snd (latency n obs a)) obs" and res: "\<And>obs a. same (snd (resolve n obs a)) obs"
    using Suc by simp_all
  have r: "same (snd (resolve (Suc n) obs a)) obs"
  proof (cases "obs ! a")
    case (UrlTest t cs tol cur)
    show ?thesis
    proof (cases "filter (is_healthy n obs) cs = []")
      case True
      then show ?thesis by (simp add: UrlTest)
    next
      case False
      then obtain c obs2 where "same obs2 obs" "resolve (Suc n) obs a = resolve n obs2 c"
        using resolve_urltest[OF UrlTest _ lat] by blast
      then show ?thesis using same_trans[OF res] by simp
    qed
  qed (auto simp: res split: option.split)
  moreover have "same (snd (latency n (snd (resolve n obs a)) l)) obs" for l
    using same_trans[OF lat res] by simp
  ultimately show ?case using res by (auto simp: case_prod_beta split: outb.split)
qed

lemmas resolve_same = selection_same[THEN conjunct1] and latency_same = selection_same[THEN conjunct2]

section \<open>Selection is total and sound\<close>

lemma obs_okD:
  assumes "obs_ok obs" "a < length obs"
  shows "c \<in> set (children (obs ! a)) \<Longrightarrow> c < a" "c \<in> set (children (obs ! a)) \<Longrightarrow> c < length obs"
  using assms by (force simp: obs_ok_def)+

lemma selected_child_in: "selected_child obs cs sel = Some c \<Longrightarrow> c \<in> set cs"
  by (auto simp: selected_child_def find_Some_iff)

lemma find_cong_set: "(\<And>x. x \<in> set xs \<Longrightarrow> P x = Q x) \<Longrightarrow> find P xs = find Q xs"
  by (induction xs) auto

lemma selected_child_same:
  assumes "same obs' obs" "\<forall>c\<in>set cs. c < length obs"
  shows "selected_child obs' cs sel = selected_child obs cs sel"
  unfolding selected_child_def by (rule find_cong_set) (use assms same_facts(1) in fastforce)

lemma obs_ok_same:
  assumes "same obs' obs" "obs_ok obs"
  shows "obs_ok obs'"
  unfolding obs_ok_def
proof (intro allI impI conjI)
  fix a assume a: "a < length obs'"
  then have b: "a < length obs" using same_length[OF assms(1)] by simp
  note f = same_facts[OF assms(1) b]
  show "\<forall>c\<in>set (children (obs' ! a)). c < a" using obs_okD(1)[OF assms(2) b] f(2) by simp
  show "\<not> is_leaf (obs' ! a) \<Longrightarrow> children (obs' ! a) \<noteq> []" using assms(2) b f(2,3) by (simp add: obs_ok_def)
  fix t cs sel assume s: "obs' ! a = Selector t cs sel"
  then have o: "obs ! a = Selector t cs sel" using same_shape[OF assms(1) b] by (cases "obs ! a") auto
  then have "selected_child obs cs sel \<noteq> None" using assms(2) b by (auto simp: obs_ok_def)
  then show "selected_child obs' cs sel \<noteq> None"
    using selected_child_same[OF assms(1)] obs_okD(2)[OF assms(2) b] o by simp
qed

lemma is_healthy_same:
  assumes "same obs' obs" "obs_ok obs" "a < length obs" "a < n" "a < m"
  shows "is_healthy n obs' a = is_healthy m obs a"
  using assms(3,4,5)
proof (induction n arbitrary: m a)
  case 0
  then show ?case by simp
next
  case (Suc n)
  obtain k where m: "m = Suc k" using Suc.prems(3) by (cases m) auto
  note kids = obs_okD[OF assms(2) Suc.prems(1)]
  have ih: "is_healthy n obs' c = is_healthy k obs c" if "c \<in> set (children (obs ! a))" for c
    using Suc.IH[of c k] kids[OF that] Suc.prems(2,3) m by simp
  have sh: "shape (obs' ! a) = shape (obs ! a)" by (rule same_shape[OF assms(1) Suc.prems(1)])
  have ex: "list_ex (is_healthy n obs') (children (obs ! a)) = list_ex (is_healthy k obs) (children (obs ! a))"
    using ih by (auto simp: list_ex_iff)
  have sel: "selected_child obs' (children (obs ! a)) s = selected_child obs (children (obs ! a)) s" for s
    by (rule selected_child_same[OF assms(1)]) (use kids in blast)
  show ?case
    using sh ex sel ih by (cases "obs ! a"; cases "obs' ! a")
      (auto simp: m dest: selected_child_in split: option.split)
qed

lemma healthy_same: "same obs' obs \<Longrightarrow> obs_ok obs \<Longrightarrow> a < length obs \<Longrightarrow> healthy obs' a = healthy obs a"
  unfolding healthy_def by (rule is_healthy_same) simp_all

lemma is_healthy_healthy: "obs_ok obs \<Longrightarrow> a < length obs \<Longrightarrow> a < n \<Longrightarrow> is_healthy n obs a = healthy obs a"
  unfolding healthy_def by (rule is_healthy_same) simp_all

lemma healthy_group:
  assumes "obs_ok obs" "a < length obs"
  shows "healthy obs a = (case obs ! a of
      Direct t \<Rightarrow> True | Block t \<Rightarrow> True | Mirage m \<Rightarrow> mirage_healthy m
    | UrlTest t cs tol cur \<Rightarrow> list_ex (healthy obs) cs
    | Fallback t cs \<Rightarrow> list_ex (healthy obs) cs
    | Selector t cs sel \<Rightarrow> (case selected_child obs cs sel of Some c \<Rightarrow> healthy obs c | None \<Rightarrow> list_ex (healthy obs) cs))"
proof -
  have c: "is_healthy a obs c = healthy obs c" if "c \<in> set (children (obs ! a))" for c
    using is_healthy_healthy[OF assms(1)] obs_okD[OF assms that] by simp
  then have ex: "list_ex (is_healthy a obs) (children (obs ! a)) = list_ex (healthy obs) (children (obs ! a))"
    by (auto simp: list_ex_iff)
  show ?thesis using c ex
    by (cases "obs ! a") (auto simp: healthy_def[of obs a] dest: selected_child_in split: option.split)
qed

text \<open>A property that health of the chosen child transfers reaches the leaf.\<close>

lemma resolve_sound:
  assumes "obs_ok obs" "a < length obs" "2 * a + 2 \<le> n" "healthy obs a"
  shows "fst (resolve n obs a) \<le> a \<and> is_leaf (obs ! fst (resolve n obs a)) \<and> healthy obs (fst (resolve n obs a))"
  using assms
proof (induction n arbitrary: obs a)
  case 0
  then show ?case by simp
next
  case (Suc n)
  note kids = obs_okD[OF Suc.prems(1,2)]
  have step: "fst (resolve n obs2 c) \<le> a \<and> is_leaf (obs ! fst (resolve n obs2 c)) \<and> healthy obs (fst (resolve n obs2 c))"
    if c: "c \<in> set (children (obs ! a))" "healthy obs c" "same obs2 obs" for c obs2
  proof -
    have l: "c < a" "c < length obs2" using kids[OF c(1)] same_length[OF c(3)] by simp_all
    have "healthy obs2 c" using c healthy_same[OF c(3) Suc.prems(1)] kids(2)[OF c(1)] by simp
    then have r: "fst (resolve n obs2 c) \<le> c" "is_leaf (obs2 ! fst (resolve n obs2 c))" "healthy obs2 (fst (resolve n obs2 c))"
      using Suc.IH[of obs2 c] obs_ok_same[OF c(3) Suc.prems(1)] l Suc.prems(3) by simp_all
    have "fst (resolve n obs2 c) < length obs" using r(1) l(1) Suc.prems(2) by simp
    then show ?thesis
      using r l(1) same_facts(3)[OF c(3)] healthy_same[OF c(3) Suc.prems(1)] by simp
  qed
  have hn: "is_healthy n obs c = healthy obs c" if "c \<in> set (children (obs ! a))" for c
    using is_healthy_healthy[OF Suc.prems(1)] kids[OF that] Suc.prems(3) by simp
  have h: "healthy obs a" by (rule Suc.prems(4))
  show ?case
  proof (cases "obs ! a")
    case (UrlTest t cs tol cur)
    have "filter (is_healthy n obs) cs \<noteq> []"
      using h hn by (auto simp: healthy_group[OF Suc.prems(1,2)] UrlTest list_ex_iff filter_empty_conv)
    then obtain c obs2 where c: "c \<in> set (filter (is_healthy n obs) cs)" "same obs2 obs"
      and e: "resolve (Suc n) obs a = resolve n obs2 c"
      using resolve_urltest[OF UrlTest _ latency_same] by blast
    have "c \<in> set (children (obs ! a))" "healthy obs c" using c(1) hn by (auto simp: UrlTest)
    then show ?thesis unfolding e using step c(2) by blast
  next
    case (Fallback t cs)
    obtain c where c: "find (is_healthy n obs) cs = Some c"
      using h hn by (fastforce simp: healthy_group[OF Suc.prems(1,2)] Fallback list_ex_iff find_None_iff)
    then have "c \<in> set cs" "is_healthy n obs c" by (auto simp: find_Some_iff)
    then show ?thesis using step[of c obs] hn c by (simp add: Fallback)
  next
    case (Selector t cs sel)
    then have "selected_child obs cs sel \<noteq> None" using Suc.prems(1,2) unfolding obs_ok_def by blast
    then obtain c where c: "selected_child obs cs sel = Some c" by blast
    then have "healthy obs c" using h by (simp add: healthy_group[OF Suc.prems(1,2)] Selector)
    then show ?thesis using step[of c obs] selected_child_in[OF c] c by (simp add: Selector)
  qed (use h in simp_all)
qed

text \<open>Enough fuel is enough: every larger amount gives the same selection.\<close>

lemma latencies_cong:
  assumes "\<And>obs' c. same obs' obs \<Longrightarrow> c \<in> set cs \<Longrightarrow> latency n obs' c = latency m obs' c"
  shows "same obs1 obs \<Longrightarrow> latencies n obs1 cs = latencies m obs1 cs"
  using assms
proof (induction cs arbitrary: obs1)
  case Nil
  then show ?case by simp
next
  case (Cons c cs)
  have e: "latency n obs1 c = latency m obs1 c" using Cons.prems by simp
  have "same (snd (latency m obs1 c)) obs" using same_trans[OF latency_same Cons.prems(1)] .
  then have "latencies n (snd (latency m obs1 c)) cs = latencies m (snd (latency m obs1 c)) cs"
    using Cons by simp
  then show ?case by (simp add: e case_prod_beta cong: option.case_cong)
qed

lemma resolve_le: "obs_ok obs \<Longrightarrow> a < length obs \<Longrightarrow> fst (resolve n obs a) \<le> a"
proof (induction n arbitrary: obs a)
  case 0
  then show ?case by simp
next
  case (Suc n)
  have step: "fst (resolve n obs2 c) \<le> a" if "c \<in> set (children (obs ! a))" "same obs2 obs" for c obs2
    using Suc.IH[OF obs_ok_same[OF that(2) Suc.prems(1)], of c] obs_okD[OF Suc.prems that(1)] same_length[OF that(2)] by simp
  show ?case
  proof (cases "obs ! a")
    case (UrlTest t cs tol cur)
    show ?thesis
    proof (cases "filter (is_healthy n obs) cs = []")
      case True
      then show ?thesis by (simp add: UrlTest)
    next
      case False
      then obtain c obs2 where c: "c \<in> set (filter (is_healthy n obs) cs)" "same obs2 obs"
        and e: "resolve (Suc n) obs a = resolve n obs2 c"
        using resolve_urltest[OF UrlTest _ latency_same] by blast
      show ?thesis unfolding e by (rule step[OF _ c(2)]) (use c(1) UrlTest in simp)
    qed
  next
    case (Fallback t cs)
    then show ?thesis using step[OF _ same_refl] by (auto simp: find_Some_iff split: option.split)
  next
    case (Selector t cs sel)
    then show ?thesis using step[OF _ same_refl] selected_child_in[of obs cs sel] by (auto split: option.split)
  qed simp_all
qed

lemma selection_fuel:
  "obs_ok obs \<Longrightarrow> a < length obs \<Longrightarrow>
    (2 * a + 2 \<le> n \<longrightarrow> 2 * a + 2 \<le> m \<longrightarrow> resolve n obs a = resolve m obs a)
  \<and> (2 * a + 3 \<le> n \<longrightarrow> 2 * a + 3 \<le> m \<longrightarrow> latency n obs a = latency m obs a)"
proof (induction n arbitrary: obs a m)
  case 0
  then show ?case by simp
next
  case (Suc n)
  note kids = obs_okD[OF Suc.prems]
  have res: "resolve n obs2 c = resolve k obs2 c" and lat: "latency n obs2 c = latency k obs2 c"
    if "c \<in> set (children (obs ! a))" "same obs2 obs" "2 * a + 1 \<le> n" "2 * a + 1 \<le> k" for c obs2 k
    using Suc.IH[OF obs_ok_same[OF that(2) Suc.prems(1)], of c k] kids[OF that(1)] same_length[OF that(2)] that(3,4)
    by simp_all
  have hl: "filter (is_healthy n obs) (children (obs ! a)) = filter (is_healthy k obs) (children (obs ! a))"
    "find (is_healthy n obs) (children (obs ! a)) = find (is_healthy k obs) (children (obs ! a))"
    if "a \<le> n" "a \<le> k" for k
  proof -
    have "is_healthy n obs c = is_healthy k obs c" if "c \<in> set (children (obs ! a))" for c
      by (rule is_healthy_same[OF same_refl Suc.prems(1) kids(2)[OF that]])
        (use kids(1)[OF that] \<open>a \<le> n\<close> \<open>a \<le> k\<close> in simp_all)
    then show "filter (is_healthy n obs) (children (obs ! a)) = filter (is_healthy k obs) (children (obs ! a))"
      "find (is_healthy n obs) (children (obs ! a)) = find (is_healthy k obs) (children (obs ! a))"
      by (auto intro!: filter_cong find_cong_set)
  qed
  have "resolve (Suc n) obs a = resolve m obs a" if le: "2 * a + 2 \<le> Suc n" "2 * a + 2 \<le> m"
  proof -
    obtain k where m: "m = Suc k" using le by (cases m) auto
    have nk: "2 * a + 1 \<le> n" "2 * a + 1 \<le> k" "a \<le> n" "a \<le> k" using le m by simp_all
    show ?thesis
    proof (cases "obs ! a")
      case (UrlTest t cs tol cur)
      let ?C = "filter (is_healthy k obs) cs"
      have C: "filter (is_healthy n obs) cs = ?C" using hl(1)[OF nk(3,4)] UrlTest by simp
      obtain wl obs1 where L: "latencies k obs ?C = (wl, obs1)" by (cases "latencies k obs ?C")
      have Ln: "latencies n obs ?C = (wl, obs1)"
        using latencies_cong[OF _ same_refl, of obs ?C n k] lat nk UrlTest L by auto
      have s1: "same obs1 obs" using latencies_same[OF latency_same, of k obs ?C] L by simp
      note upd = same_update[OF _ UrlTest]
      have sub: "c \<in> set ?C \<Longrightarrow> c \<in> set (children (obs ! a))" for c by (simp add: UrlTest)
      have hdC: "?C \<noteq> [] \<Longrightarrow> hd ?C \<in> set ?C" by (rule hd_in_set)
      have bC: "wl \<noteq> [] \<Longrightarrow> fst (first_min wl) \<in> set ?C" using first_min_in[of wl] latencies_fst[OF L] by force
      have r: "resolve n obs2 c = resolve k obs2 c" if "c \<in> set ?C" "same obs2 obs" for c obs2
        using res[OF sub[OF that(1)] that(2) nk(1,2)] .
      have l: "latency n obs1 c = latency k obs1 c" if "c \<in> set ?C" for c
        using lat[OF sub[OF that] s1 nk(1,2)] .
      have s2: "same (snd (latency k obs1 c)) obs" for c using same_trans[OF latency_same s1] .
      show ?thesis
        unfolding m resolve.simps UrlTest outb.case C Let_def L Ln prod.case
        using r[OF hdC upd[OF s1]] r[OF bC upd[OF s1]] r[OF bC upd[OF s2]] r[OF _ s1] r[OF _ s2] l
        by (auto simp: case_prod_beta split: option.split)
    next
      case (Fallback t cs)
      have f: "find (is_healthy n obs) cs = find (is_healthy k obs) cs" using hl(2)[OF nk(3,4)] Fallback by simp
      have r: "c \<in> set cs \<Longrightarrow> resolve n obs c = resolve k obs c" for c
        using res[OF _ same_refl nk(1,2)] Fallback by simp
      show ?thesis
      proof (cases "find (is_healthy k obs) cs")
        case None
        then show ?thesis using r[of "hd cs"] by (simp add: m f Fallback)
      next
        case (Some c)
        then have "c \<in> set cs" by (auto simp: find_Some_iff)
        then show ?thesis using r Some by (simp add: m f Fallback)
      qed
    next
      case (Selector t cs sel)
      then show ?thesis using res[OF _ same_refl nk(1,2)] selected_child_in[of obs cs sel]
        by (auto simp: m split: option.split)
    qed (simp_all add: m)
  qed
  moreover have "latency (Suc n) obs a = latency m obs a" if le: "2 * a + 3 \<le> Suc n" "2 * a + 3 \<le> m"
  proof -
    obtain k where m: "m = Suc k" using le by (cases m) auto
    have r: "resolve n obs a = resolve k obs a" using Suc.IH[OF Suc.prems, of k] le m by simp
    obtain lf obs1 where R: "resolve k obs a = (lf, obs1)" by (cases "resolve k obs a")
    have s: "same obs1 obs" using resolve_same[of k obs a] R by simp
    have lf: "lf \<le> a" using resolve_le[OF Suc.prems, of k] R by simp
    have "lf \<noteq> a \<Longrightarrow> latency n obs1 lf = latency k obs1 lf"
      using Suc.IH[OF obs_ok_same[OF s Suc.prems(1)], of lf k] lf le m same_length[OF s] Suc.prems(2) by simp
    then show ?thesis using R r by (auto simp: m split: outb.split)
  qed
  ultimately show ?case by blast
qed

lemma resolve_fuel: "obs_ok obs \<Longrightarrow> a < length obs \<Longrightarrow> 2 * a + 2 \<le> n \<Longrightarrow> resolve n obs a = resolve_leaf obs a"
  using selection_fuel[of obs a n "2 * a + 2"] by (simp add: resolve_leaf_def)


section \<open>What a group chooses\<close>

lemma resolve_leaf_leaf: "is_leaf (obs ! a) \<Longrightarrow> resolve_leaf obs a = (a, obs)"
  by (cases "obs ! a") (simp_all add: resolve_leaf_def numeral_2_eq_2)

lemma latency_leaf: "is_leaf (obs ! a) \<Longrightarrow> latency (Suc n) obs a
    = (case obs ! a of Mirage m \<Rightarrow> mirage_latency m | _ \<Rightarrow> None, obs)"
  by (cases "obs ! a") simp_all

lemma resolve_is_leaf: "is_leaf (obs ! a) \<Longrightarrow> resolve n obs a = (a, obs)"
  by (cases n; cases "obs ! a") simp_all

definition leaf_latency :: "outb list \<Rightarrow> nat \<Rightarrow> rat option" where
  "leaf_latency obs a = (case obs ! a of Mirage m \<Rightarrow> mirage_latency m | _ \<Rightarrow> None)"

lemma latencies_leaves:
  "\<forall>c\<in>set cs. is_leaf (obs ! c) \<Longrightarrow> latencies (Suc n) obs cs
     = (concat (map (\<lambda>c. case leaf_latency obs c of None \<Rightarrow> [] | Some x \<Rightarrow> [(c, x)]) cs), obs)"
  by (induction cs) (auto simp: latency_leaf leaf_latency_def simp del: latency.simps split: option.split)

text \<open>Whenever an outbound counts as healthy, at any nesting of urltest, fallback and selector groups,
  selection ends at a leaf (direct, block or mirage) that is itself healthy; selection changes nothing but
  the remembered choices of urltest groups, so health, tags and topology stay as they were.\<close>
lemma healthy_outbound_resolves:
  assumes "obs_ok obs" "a < length obs" "healthy obs a"
  shows "case resolve_leaf obs a of (l, obs') \<Rightarrow>
    is_leaf (obs' ! l) \<and> healthy obs' l \<and> obs_ok obs' \<and> same obs' obs
    \<and> (\<forall>b<length obs. healthy obs' b = healthy obs b)"
proof -
  obtain l obs' where R: "resolve_leaf obs a = (l, obs')" by (cases "resolve_leaf obs a")
  have s: "same obs' obs" using resolve_same[of "2 * a + 2" obs a] R by (simp add: resolve_leaf_def)
  have l: "l \<le> a" "is_leaf (obs ! l)" "healthy obs l"
    using resolve_sound[OF assms(1,2) _ assms(3), of "2 * a + 2"] R by (simp_all add: resolve_leaf_def)
  have ll: "l < length obs" using l(1) assms(2) by simp
  show ?thesis
    using l s obs_ok_same[OF s assms(1)] healthy_same[OF s assms(1)] same_facts(3)[OF s ll] ll by (simp add: R)
qed

text \<open>The children a urltest group looks at and the latencies it reads.\<close>

definition measured :: "outb list \<Rightarrow> nat list \<Rightarrow> (nat \<times> rat) list" where
  "measured obs cs = concat (map (\<lambda>c. case leaf_latency obs c of None \<Rightarrow> [] | Some x \<Rightarrow> [(c, x)]) (filter (healthy obs) cs))"

lemma measured_iff: "(c, y) \<in> set (measured obs cs) \<longleftrightarrow> c \<in> set cs \<and> healthy obs c \<and> leaf_latency obs c = Some y"
  by (auto simp: measured_def split: option.splits)

lemma measured_best:
  assumes "d \<in> set cs" "healthy obs d" "leaf_latency obs d \<noteq> None"
  obtains b bl where "first_min (measured obs cs) = (b, bl)" "b \<in> set cs" "healthy obs b" "leaf_latency obs b = Some bl"
    "\<And>c y. c \<in> set cs \<Longrightarrow> healthy obs c \<Longrightarrow> leaf_latency obs c = Some y \<Longrightarrow> bl \<le> y"
proof -
  have ne: "measured obs cs \<noteq> []" using measured_iff[of d _ obs cs] assms by force
  obtain b bl where B: "first_min (measured obs cs) = (b, bl)" by fastforce
  show thesis
  proof (rule that[OF B])
    show "b \<in> set cs" "healthy obs b" "leaf_latency obs b = Some bl"
      using first_min_in[OF ne] B measured_iff[of b bl obs cs] by simp_all
    show "bl \<le> y" if "c \<in> set cs" "healthy obs c" "leaf_latency obs c = Some y" for c y
      using first_min_least[of "(c, y)" "measured obs cs"] measured_iff[of c y obs cs] that B by simp
  qed
qed

lemma group_children_healthy:
  assumes "obs_ok obs" "a < length obs" "\<And>c. c \<in> set cs \<Longrightarrow> c < a" "2 * a + 2 = Suc (Suc k)"
  shows "filter (is_healthy (Suc k) obs) cs = filter (healthy obs) cs"
proof (rule filter_cong[OF refl])
  fix c assume "c \<in> set cs"
  then show "is_healthy (Suc k) obs c = healthy obs c"
    using is_healthy_healthy[OF assms(1), where a=c and n="Suc k"] assms(2) assms(3)[of c] assms(4)
    by (simp del: is_healthy.simps)
qed

lemma urltest_resolves:
  assumes "obs_ok obs" "a < length obs" "obs ! a = UrlTest t cs tol cur" "\<forall>c\<in>set cs. is_leaf (obs ! c)"
    and "first_min (measured obs cs) = (b, bl)" "b \<in> set cs" "healthy obs b" "leaf_latency obs b = Some bl"
  shows "resolve_leaf obs a = (case cur of
      Some c \<Rightarrow> if c \<in> set (filter (healthy obs) cs) then (case leaf_latency obs c of
            Some l \<Rightarrow> if l - bl < of_int tol then (c, obs) else (b, obs[a := UrlTest t cs tol (Some b)])
          | None \<Rightarrow> (b, obs[a := UrlTest t cs tol (Some b)]))
        else (b, obs[a := UrlTest t cs tol (Some b)])
    | None \<Rightarrow> (b, obs[a := UrlTest t cs tol (Some b)]))"
proof -
  obtain k where k: "2 * a + 2 = Suc (Suc k)" by simp
  have kids: "c < a" "c < length obs" if "c \<in> set cs" for c
    using obs_okD[OF assms(1,2), of c] that assms(3) by simp_all
  let ?C = "filter (healthy obs) cs"
  have C: "filter (is_healthy (Suc k) obs) cs = ?C" by (rule group_children_healthy[OF assms(1,2) kids(1) k])
  have L: "latencies (Suc k) obs ?C = (measured obs cs, obs)"
    unfolding measured_def by (rule latencies_leaves) (use assms(4) in simp)
  have ne: "?C \<noteq> []" using assms(6,7) by (auto simp: filter_empty_conv)
  have nw: "measured obs cs \<noteq> []" using assms(6-8) measured_iff[of b bl obs cs] by force
  have lat: "latency (Suc k) obs c = (leaf_latency obs c, obs)" if "c \<in> set cs" for c
    using latency_leaf[of obs c k] assms(4) that by (simp add: leaf_latency_def)
  have ns: "\<not> is_leaf (obs ! a)" by (simp add: assms(3))
  have lf: "resolve (Suc k) (obs[a := z]) c = (c, obs[a := z])" "resolve (Suc k) obs c = (c, obs)" if "c \<in> set cs" for c z
    by (rule resolve_is_leaf, use kids[OF that] assms(4) that in simp)+
  note unf = resolve_leaf_def k resolve.simps(2)[of "Suc k"] assms(3) outb.case C Let_def L prod.case assms(5)
  show ?thesis
  proof (cases "\<exists>c. cur = Some c \<and> c \<in> set ?C")
    case True
    then obtain c where "cur = Some c" "c \<in> set ?C" "c \<in> set cs" by auto
    then show ?thesis
      unfolding unf using ne nw lf(1)[OF assms(6)] lf(2) lat by (simp del: resolve.simps latency.simps split: option.split)
  next
    case False
    then show ?thesis
      unfolding unf using ne nw lf(1)[OF assms(6)] by (auto simp del: resolve.simps latency.simps split: option.split)
  qed
qed

text \<open>A urltest group over leaves, one of the healthy ones having latency samples, goes to a healthy child
  whose median latency is known: the least of the healthy children's, or the remembered child when it is
  slower by less than the tolerance; it leaves the remembered child only for the least, and remembers what
  it went to.\<close>
theorem urltest_choice:
  assumes "obs_ok obs" "a < length obs" "obs ! a = UrlTest t cs tol cur"
    and "\<forall>c\<in>set cs. is_leaf (obs ! c)"
    and "d \<in> set cs" "healthy obs d" "leaf_latency obs d \<noteq> None"
  shows "\<exists>l x. resolve_leaf obs a = (l, obs[a := UrlTest t cs tol (Some l)])
    \<and> l \<in> set cs \<and> healthy obs l \<and> leaf_latency obs l = Some x
    \<and> (\<forall>c\<in>set cs. \<forall>y. healthy obs c \<longrightarrow> leaf_latency obs c = Some y \<longrightarrow>
         x \<le> y \<or> (cur = Some l \<and> x - y < of_int tol))
    \<and> (\<forall>c y. cur = Some c \<longrightarrow> c \<in> set cs \<longrightarrow> healthy obs c \<longrightarrow> leaf_latency obs c = Some y \<longrightarrow>
         l = c \<or> of_int tol \<le> y - x)"
proof -
  obtain b bl where b: "first_min (measured obs cs) = (b, bl)" "b \<in> set cs" "healthy obs b" "leaf_latency obs b = Some bl"
    and least: "\<And>c y. c \<in> set cs \<Longrightarrow> healthy obs c \<Longrightarrow> leaf_latency obs c = Some y \<Longrightarrow> bl \<le> y"
    using measured_best[OF assms(5,6,7)] by metis
  note unf = urltest_resolves[OF assms(1-4) b]
  have keep: "obs[a := UrlTest t cs tol cur] = obs" using assms(3) by (metis list_update_id)
  show ?thesis
  proof (cases "\<exists>c y. cur = Some c \<and> c \<in> set (filter (healthy obs) cs) \<and> leaf_latency obs c = Some y \<and> y - bl < of_int tol")
    case True
    then obtain c y where c: "cur = Some c" "c \<in> set (filter (healthy obs) cs)" "leaf_latency obs c = Some y" "y - bl < of_int tol"
      by blast
    have "resolve_leaf obs a = (c, obs[a := UrlTest t cs tol (Some c)])" using unf c keep by simp
    moreover have "y \<le> z \<or> y - z < of_int tol" if "bl \<le> z" for z using c(4) that by linarith
    ultimately show ?thesis using c least by fastforce
  next
    case False
    then have "resolve_leaf obs a = (b, obs[a := UrlTest t cs tol (Some b)])"
      using unf by (auto split: option.splits)
    then show ?thesis using b least False by fastforce
  qed
qed

text \<open>Two nodes and a group over them that remembers the slower one.\<close>

definition sample_node :: node_cfg where
  "sample_node = \<lparr> n_host = None, n_port = 443, n_password = JStr (U ''p''), n_camouflage = None, n_rate = 0,
     n_pool_size = 2, n_step = None, n_jitter = None \<rparr>"

definition sample_nodes :: "outb list" where
  "sample_nodes =
    [Mirage \<lparr> m_tag = U ''a'', m_cfg = sample_node, m_samples = [60], m_last_sample = 1, m_fails = 0 \<rparr>,
     Mirage \<lparr> m_tag = U ''b'', m_cfg = sample_node, m_samples = [10], m_last_sample = 1, m_fails = 0 \<rparr>,
     UrlTest (U ''u'') [0, 1] 40 (Some 0)]"

lemma sample_nodes_facts:
  "obs_ok sample_nodes" "sample_nodes ! 2 = UrlTest (U ''u'') [0, 1] 40 (Some 0)" "length sample_nodes = 3"
  "leaf_latency sample_nodes 0 = Some 60" "leaf_latency sample_nodes 1 = Some 10" "healthy sample_nodes 1"
  "is_leaf (sample_nodes ! 0)" "is_leaf (sample_nodes ! 1)"
  by (auto simp: obs_ok_def sample_nodes_def less_Suc_eq numeral_2_eq_2 leaf_latency_def mirage_latency_def median_def
      healthy_def mirage_healthy_def unhealthy_after_fails_def)

theorem urltest_choice_witness: "\<exists>l x. resolve_leaf sample_nodes 2 = (l, sample_nodes[2 := UrlTest (U ''u'') [0, 1] 40 (Some l)])
    \<and> leaf_latency sample_nodes l = Some x \<and> x \<le> 10"
proof -
  have "2 < length sample_nodes" "\<forall>c\<in>set [0, 1]. is_leaf (sample_nodes ! c)" "(1::nat) \<in> set [0, 1]"
    "leaf_latency sample_nodes 1 \<noteq> None"
    using sample_nodes_facts by simp_all
  note c = urltest_choice[OF sample_nodes_facts(1) this(1) sample_nodes_facts(2) this(2,3) sample_nodes_facts(6) this(4)]
  obtain l x where l: "resolve_leaf sample_nodes 2 = (l, sample_nodes[2 := UrlTest (U ''u'') [0, 1] 40 (Some l)])"
    "l \<in> set [0, 1]" "leaf_latency sample_nodes l = Some x"
    "\<forall>c\<in>set [0, 1]. \<forall>y. healthy sample_nodes c \<longrightarrow> leaf_latency sample_nodes c = Some y \<longrightarrow>
         x \<le> y \<or> (Some 0 = Some l \<and> x - y < of_int 40)"
    using c by (elim exE conjE) (rule that)
  from l(4)[rule_format, OF _ sample_nodes_facts(6,5)] have "x \<le> 10 \<or> (0 = l \<and> x - 10 < 40)" by simp
  then have "x \<le> 10" using sample_nodes_facts(4) l(3) by auto
  then show ?thesis using l by blast
qed

end
