(* ===== verification/Conn_Pool.thy ===== *)
theory Conn_Pool
  imports Camouflage Tunnel Outbounds
begin

text \<open>
  \<open>core/conn_pool.py\<close>: reading the server's handshake flight, the liveness of pooled tunnels, the
  building of one tunnel, and the pool (refills, pacing of the builds, hand-out) as a state machine whose
  steps are the code between two waits.  \<open>time.monotonic()\<close>, the draws of \<open>random.uniform\<close>
  and the network are parameters; the pool's clock values are rationals.
\<close>

section \<open>The server's handshake flight\<close>

text \<open>
  What arrives, with the silence before each piece, and whether the peer closes at the end.
  \<open>read_within T n\<close> is \<open>wait_for(readexactly(n), T)\<close>; a read that times out leaves its bytes in the
  buffer, one that meets the end of the stream takes them.
\<close>

record arrivals =
  ar_buf :: bytes
  ar_todo :: "(rat \<times> bytes) list"
  ar_closed :: bool

fun read_within :: "rat \<Rightarrow> nat \<Rightarrow> bytes \<Rightarrow> (rat \<times> bytes) list \<Rightarrow> bool \<Rightarrow> (py_error + bytes) \<times> arrivals" where
  "read_within T n buf todo cl =
     (if n \<le> length buf then (Inr (take n buf), \<lparr> ar_buf = drop n buf, ar_todo = todo, ar_closed = cl \<rparr>)
      else case todo of
        [] \<Rightarrow> (Inl (if cl then IncompleteRead else TimeoutErr), \<lparr> ar_buf = (if cl then [] else buf), ar_todo = [], ar_closed = cl \<rparr>)
      | (gap, c) # todo' \<Rightarrow>
          if T < gap then (Inl TimeoutErr, \<lparr> ar_buf = buf, ar_todo = (gap - T, c) # todo', ar_closed = cl \<rparr>)
          else read_within (T - gap) n (buf @ c) todo' cl)"

definition ar_read :: "rat \<Rightarrow> nat \<Rightarrow> arrivals \<Rightarrow> (py_error + bytes) \<times> arrivals" where
  "ar_read T n a = read_within T n (ar_buf a) (ar_todo a) (ar_closed a)"

definition ar_bytes :: "arrivals \<Rightarrow> bytes" where
  "ar_bytes a = ar_buf a @ concat (map snd (ar_todo a))"

declare read_within.simps [simp del]

lemma read_within_bytes:
  "read_within T n buf todo cl = (r, a) \<Longrightarrow>
    (case r of Inr bs \<Rightarrow> bs @ ar_bytes a = buf @ concat (map snd todo) \<and> length bs = n
     | Inl e \<Rightarrow> e = TimeoutErr \<longrightarrow> ar_bytes a = buf @ concat (map snd todo))"
proof (induction todo arbitrary: T buf)
  case Nil
  then show ?case by (subst (asm) read_within.simps) (auto simp: ar_bytes_def split: if_splits)
next
  case (Cons x todo)
  obtain gap c where x: "x = (gap, c)" by (cases x)
  show ?case
  proof (cases "n \<le> length buf \<or> T < gap")
    case True
    then show ?thesis using Cons.prems by (subst (asm) read_within.simps) (auto simp: ar_bytes_def x split: if_splits)
  next
    case False
    then have "read_within (T - gap) n (buf @ c) todo cl = (r, a)"
      using Cons.prems by (subst (asm) read_within.simps) (simp add: x)
    from Cons.IH[OF this] show ?thesis by (cases r) (simp_all add: x)
  qed
qed

lemma ar_read_Inr: "ar_read T n a = (Inr bs, a') \<Longrightarrow> ar_bytes a = bs @ ar_bytes a' \<and> length bs = n"
  using read_within_bytes[of T n "ar_buf a" "ar_todo a" "ar_closed a" "Inr bs" a'] by (simp add: ar_read_def ar_bytes_def)

text \<open>
  The loop of \<open>_read_server_handshake\<close> with its three flags.  The header waits 12 seconds, 1.5 once the
  change-cipher-spec record has been seen; then silence is the end of the flight.
\<close>

definition flight_timeout :: "bool \<Rightarrow> rat" where
  "flight_timeout saw_ccs = (if saw_ccs then 3 / 2 else 12)"

definition flight_done :: "bool \<Rightarrow> bool \<Rightarrow> bool \<Rightarrow> py_error + unit" where
  "flight_done sh ccs enc = (if sh \<and> ccs \<and> enc then Inr () else Inl OSErr)"

function read_flight :: "bool \<Rightarrow> bool \<Rightarrow> bool \<Rightarrow> arrivals \<Rightarrow> (py_error + unit) \<times> arrivals" where
  "read_flight sh ccs enc a =
     (case ar_read (flight_timeout ccs) 5 a of
        (Inl TimeoutErr, a1) \<Rightarrow> (if \<not> ccs then Inl OSErr else flight_done sh ccs enc, a1)
      | (Inl e, a1) \<Rightarrow> (Inl OSErr, a1)
      | (Inr header, a1) \<Rightarrow>
          (case ar_read (flight_timeout ccs) (from_be (slice 3 5 header)) a1 of
             (Inl TimeoutErr, a2) \<Rightarrow> (Inl TimeoutErr, a2)
           | (Inl e, a2) \<Rightarrow> (Inl OSErr, a2)
           | (Inr body, a2) \<Rightarrow>
               (let ct = header ! 0 in
                if ct = 0x15 then (Inl OSErr, a2)
                else read_flight (sh \<or> ct = 0x16) (ccs \<or> (ct = 0x14)) (enc \<or> (ct = 0x17)) a2)))"
  by pat_completeness auto
termination
  by (relation "measure (\<lambda>(sh, ccs, enc, a). length (ar_bytes a))") (auto dest!: ar_read_Inr[OF sym])

declare read_flight.simps [simp del]

definition read_server_handshake :: "arrivals \<Rightarrow> (py_error + unit) \<times> arrivals" where
  "read_server_handshake a = read_flight False False False a"

section \<open>Pooled tunnels\<close>

definition max_idle_sec :: rat where "max_idle_sec = 120"
definition idle_jitter :: rat where "idle_jitter = 30"
definition stagger_step :: rat where "stagger_step = 3 / 10"
definition stagger_jitter :: rat where "stagger_jitter = 8 / 100"

record ready =
  rd_tunnel :: tunnel
  rd_created :: rat
  rd_lifetime :: rat

text \<open>\<open>_ReadyTunnel(tunnel, writer)\<close> at \<open>now\<close>, \<open>u\<close> the draw from [-30, 30].\<close>

definition new_ready :: "rat \<Rightarrow> rat \<Rightarrow> tunnel \<Rightarrow> ready" where
  "new_ready now u t = \<lparr> rd_tunnel = t, rd_created = now, rd_lifetime = max_idle_sec + u \<rparr>"

definition is_stale :: "rat \<Rightarrow> ready \<Rightarrow> bool" where
  "is_stale now r \<longleftrightarrow> now - rd_created r > rd_lifetime r"

text \<open>
  \<open>is_alive\<close>: the flags of the peek name the module \<open>socket\<close>, which \<open>conn_pool.py\<close> does not import, and
  the arguments of a call are evaluated first.
\<close>

datatype peek = WouldBlock | PeekFailed | Peeked bytes

definition peek_flags :: "py_error + int" where
  "peek_flags = Inl NameError"

definition is_alive :: "bool \<Rightarrow> (int \<Rightarrow> peek) \<Rightarrow> bool" where
  "is_alive has_socket peek_at =
     (if \<not> has_socket then True
      else case peek_flags of
        Inr flags \<Rightarrow> (case peek_at flags of WouldBlock \<Rightarrow> True | PeekFailed \<Rightarrow> False | Peeked d \<Rightarrow> False)
      | Inl OSErr \<Rightarrow> False
      | Inl e \<Rightarrow> True)"

section \<open>The pool\<close>

record pool =
  po_size :: int
  po_step :: rat
  po_jitter :: rat
  po_queue :: "ready list"
  po_building :: int
  po_next_at :: "rat option"

definition new_pool :: "node_cfg \<Rightarrow> pool" where
  "new_pool cfg = \<lparr> po_size = n_pool_size cfg,
     po_step = (case n_step cfg of Some s \<Rightarrow> s | None \<Rightarrow> stagger_step),
     po_jitter = (case n_jitter cfg of Some j \<Rightarrow> j | None \<Rightarrow> stagger_jitter),
     po_queue = [], po_building = 0, po_next_at = None \<rparr>"

definition pool_start :: "pool \<Rightarrow> pool" where
  "pool_start p = p\<lparr> po_next_at := Some 0 \<rparr>"

text \<open>\<open>_reserve_build_slot\<close>: the delay, and the cursor moved on; \<open>u\<close> is the jitter drawn.\<close>

definition reserve_build_slot :: "rat \<Rightarrow> rat \<Rightarrow> pool \<Rightarrow> (py_error + rat) \<times> pool" where
  "reserve_build_slot now u p =
     (case po_next_at p of
        None \<Rightarrow> (Inl AttributeError, p)
      | Some n \<Rightarrow>
          (let n = (if n < now then now else n)
           in (Inr (n - now), p\<lparr> po_next_at := Some (n + (po_step p + u)) \<rparr>)))"

text \<open>The loop of \<open>_schedule_refills\<close> and of \<open>warmup\<close>: one reservation for each jitter drawn.\<close>

fun reserve_loop :: "rat \<Rightarrow> rat list \<Rightarrow> pool \<Rightarrow> (py_error + rat list) \<times> pool" where
  "reserve_loop now [] p = (Inr [], p)"
| "reserve_loop now (u # us) p =
     (case reserve_build_slot now u (p\<lparr> po_building := po_building p + 1 \<rparr>) of
        (Inl e, p1) \<Rightarrow> (Inl e, p1)
      | (Inr d, p1) \<Rightarrow>
          (case reserve_loop now us p1 of
             (Inl e, p2) \<Rightarrow> (Inl e, p2)
           | (Inr ds, p2) \<Rightarrow> (Inr (d # ds), p2)))"

definition deficit :: "pool \<Rightarrow> nat" where
  "deficit p = nat (max 0 (po_size p - int (length (po_queue p)) - po_building p))"

text \<open>\<open>us\<close> are the draws; \<open>deficit\<close> of them are used.\<close>

definition schedule_refills :: "rat \<Rightarrow> (nat \<Rightarrow> rat) \<Rightarrow> pool \<Rightarrow> (py_error + rat list) \<times> pool" where
  "schedule_refills now us p = reserve_loop now (map us [0..<deficit p]) p"

definition warmup :: "rat \<Rightarrow> (nat \<Rightarrow> rat) \<Rightarrow> pool \<Rightarrow> (py_error + rat list) \<times> pool" where
  "warmup now us p = reserve_loop now (map us [0..<nat (po_size p)]) (p\<lparr> po_next_at := Some now \<rparr>)"

text \<open>\<open>_build_and_enqueue\<close> once its delay is over, and when its build has an outcome.\<close>

definition build_wake :: "pool \<Rightarrow> bool \<times> pool" where
  "build_wake p =
     (if po_size p \<le> int (length (po_queue p)) then (False, p\<lparr> po_building := po_building p - 1 \<rparr>)
      else (True, p))"

definition build_done :: "ready option \<Rightarrow> pool \<Rightarrow> pool" where
  "build_done r p = (case r of
       Some t \<Rightarrow> p\<lparr> po_queue := po_queue p @ [t], po_building := po_building p - 1 \<rparr>
     | None \<Rightarrow> p\<lparr> po_building := po_building p - 1 \<rparr>)"

text \<open>\<open>probe_once\<close> when its build has an outcome.\<close>

definition probe_done :: "ready option \<Rightarrow> pool \<Rightarrow> bool \<times> pool" where
  "probe_done r p = (case r of
       None \<Rightarrow> (False, p)
     | Some t \<Rightarrow>
         (let q = (if po_size p \<le> int (length (po_queue p)) then tl (po_queue p) else po_queue p)
          in (True, p\<lparr> po_queue := q @ [t] \<rparr>)))"

text \<open>
  One turn of the loop of \<open>acquire\<close> for the tunnel \<open>get\<close> yields: handed out, or discarded with a new
  refill.  \<open>alive\<close> is \<open>is_alive\<close> of that tunnel; the list holds the delays of the builds scheduled.
\<close>

definition acquire_one :: "rat \<Rightarrow> (nat \<Rightarrow> rat) \<Rightarrow> bool \<Rightarrow> ready \<Rightarrow> pool \<Rightarrow> (py_error + ready option \<times> rat list) \<times> pool" where
  "acquire_one now us alive r p =
     (if is_stale now r \<or> \<not> alive then
        (case schedule_refills now us p of (Inl e, p1) \<Rightarrow> (Inl e, p1) | (Inr ds, p1) \<Rightarrow> (Inr (None, ds), p1))
      else (Inr (Some r, []), p))"

text \<open>The loop while the queue has elements; \<open>None\<close> when it has run out and \<open>acquire\<close> waits.\<close>

fun acquire_scan :: "rat \<Rightarrow> (nat \<Rightarrow> rat) \<Rightarrow> (ready \<Rightarrow> bool) \<Rightarrow> nat \<Rightarrow> pool \<Rightarrow> (py_error + ready option) \<times> pool" where
  "acquire_scan now us alive 0 p = (Inr None, p)"
| "acquire_scan now us alive (Suc k) p =
     (case po_queue p of
        [] \<Rightarrow> (Inr None, p)
      | r # q \<Rightarrow>
          (case acquire_one now us (alive r) r (p\<lparr> po_queue := q \<rparr>) of
             (Inl e, p1) \<Rightarrow> (Inl e, p1)
           | (Inr (None, ds), p1) \<Rightarrow> acquire_scan now us alive k p1
           | (Inr (Some x, ds), p1) \<Rightarrow> (Inr (Some x), p1)))"

definition acquire :: "rat \<Rightarrow> (nat \<Rightarrow> rat) \<Rightarrow> (ready \<Rightarrow> bool) \<Rightarrow> pool \<Rightarrow> (py_error + ready option) \<times> pool" where
  "acquire now us alive p =
     (case schedule_refills now us p of
        (Inl e, p1) \<Rightarrow> (Inl e, p1)
      | (Inr ds, p1) \<Rightarrow> acquire_scan now us alive (length (po_queue p1)) p1)"

section \<open>Building one tunnel\<close>

text \<open>
  \<open>_build_one_inner\<close> on an open connection: the bytes it writes and the tunnel.  \<open>arrived\<close> is what the
  server sends; the draws are those of the functions it calls.
\<close>

record build_draws =
  bd_now :: int
  bd_prefix :: bytes
  bd_profile :: profile
  bd_eph :: bytes
  bd_random :: bytes
  bd_tail :: bytes

definition build_one_inner ::
    "crypto \<Rightarrow> aead \<Rightarrow> pystr \<Rightarrow> pystr \<Rightarrow> build_draws \<Rightarrow> arrivals \<Rightarrow> py_error + (bytes \<times> bytes \<times> tunnel \<times> arrivals)" where
  "build_one_inner cr a password sni dr arrived =
     bindE (make_session_token cr password (bd_now dr) (bd_prefix dr)) (\<lambda>token.
     bindE (build_client_hello (bd_profile dr) (bd_eph dr) (bd_random dr) sni token) (\<lambda>(hello, client_random).
     case read_server_handshake arrived of
       (Inl e, rest) \<Rightarrow> Inl e
     | (Inr x, rest) \<Rightarrow>
         bindE (build_fake_client_tail (bd_tail dr)) (\<lambda>ctail.
         bindE (handshake_as_initiator cr a password client_random new_tunnel) (\<lambda>t.
           Inr (hello, ctail, t, rest)))))"

text \<open>
  \<open>_build_one\<close>: every exception is swallowed, and 20 seconds are the limit; \<open>None\<close> is a failed
  build, else the tunnel with its latency in milliseconds.
\<close>

definition build_timeout :: rat where "build_timeout = 20"

definition build_one :: "rat \<Rightarrow> rat \<Rightarrow> rat \<Rightarrow> py_error + (bytes \<times> bytes \<times> tunnel \<times> arrivals) \<Rightarrow> (ready \<times> rat) option" where
  "build_one t0 t1 u result =
     (if build_timeout < t1 - t0 then None
      else case result of
        Inl e \<Rightarrow> None
      | Inr (h, c, t, rest) \<Rightarrow> Some (new_ready t1 u t, (t1 - t0) * 1000))"


section \<open>The flight is read to its end\<close>

text \<open>Everything still to come arrives within 1.5 seconds, and the peer keeps the connection open.\<close>

definition calm :: "arrivals \<Rightarrow> bool" where
  "calm a \<longleftrightarrow> list_all (\<lambda>(gap, c). 0 \<le> gap) (ar_todo a) \<and> sum_list (map fst (ar_todo a)) \<le> 3 / 2 \<and> \<not> ar_closed a"

lemma gaps_nonneg: "list_all (\<lambda>(gap, c). 0 \<le> gap) todo \<Longrightarrow> 0 \<le> sum_list (map fst (todo :: (rat \<times> bytes) list))"
  by (induction todo) auto

lemma read_within_calm:
  assumes "list_all (\<lambda>(gap, c). 0 \<le> gap) todo" "sum_list (map fst todo) \<le> T" "sum_list (map fst todo) \<le> 3 / 2"
  shows "\<exists>a. calm a \<and> read_within T n buf todo False =
    (if n \<le> length (buf @ concat (map snd todo)) then Inr (take n (buf @ concat (map snd todo))) else Inl TimeoutErr, a)
    \<and> ar_bytes a = (if n \<le> length (buf @ concat (map snd todo)) then drop n (buf @ concat (map snd todo))
        else buf @ concat (map snd todo))"
  using assms
proof (induction todo arbitrary: T buf)
  case Nil
  then show ?case by (subst read_within.simps) (auto simp: calm_def ar_bytes_def)
next
  case (Cons x todo)
  obtain gap c where x: "x = (gap, c)" by (cases x)
  have g: "0 \<le> gap" "list_all (\<lambda>(gap, c). 0 \<le> gap) todo" "sum_list (map fst todo) \<le> T - gap"
    "sum_list (map fst todo) \<le> 3 / 2" using Cons.prems by (simp_all add: x)
  show ?case
  proof (cases "n \<le> length buf")
    case True
    then show ?thesis using Cons.prems by (subst read_within.simps) (auto simp: calm_def ar_bytes_def x)
  next
    case False
    have "\<not> T < gap" using g(3) gaps_nonneg[OF g(2)] by simp
    then have "read_within T n buf (x # todo) False = read_within (T - gap) n (buf @ c) todo False"
      using False by (subst read_within.simps) (simp add: x)
    then show ?thesis
      using Cons.IH[OF g(2-4), of "buf @ c"] by (simp only: x list.map concat.simps append_assoc prod.sel)
  qed
qed

lemma ar_read_calm:
  assumes "calm a" "3 / 2 \<le> T"
  shows "\<exists>a'. calm a' \<and> ar_bytes a' = (if n \<le> length (ar_bytes a) then drop n (ar_bytes a) else ar_bytes a)
    \<and> ar_read T n a = (if n \<le> length (ar_bytes a) then Inr (take n (ar_bytes a)) else Inl TimeoutErr, a')"
  using read_within_calm[of "ar_todo a" T n "ar_buf a"] assms
  by (auto simp: ar_read_def calm_def ar_bytes_def)

definition alerted :: "(byte \<times> bytes) list \<Rightarrow> bool" where
  "alerted rs \<longleftrightarrow> 0x15 \<in> fst ` set rs"

definition record_bytes :: "(byte \<times> bytes) list \<Rightarrow> bytes" where
  "record_bytes rs = concat (map (\<lambda>(ct, body). tls_record [ct, 3, 3] body) rs)"

lemma flight_timeout_ge: "3 / 2 \<le> flight_timeout ccs"
  by (simp add: flight_timeout_def)

lemma read_flight_calm:
  assumes "calm a" "ar_bytes a = record_bytes rs" "list_all (\<lambda>(ct, body). length body < 65536) rs"
  shows "\<exists>a'. read_flight sh ccs enc a =
      (if \<not> alerted rs \<and> (sh \<or> 0x16 \<in> fst ` set rs) \<and> (ccs \<or> 0x14 \<in> fst ` set rs) \<and> (enc \<or> 0x17 \<in> fst ` set rs)
       then Inr () else Inl OSErr, a') \<and> (\<not> alerted rs \<longrightarrow> ar_bytes a' = [])"
  using assms
proof (induction rs arbitrary: a sh ccs enc)
  case Nil
  obtain a' where r: "ar_bytes a' = []" "ar_read (flight_timeout ccs) 5 a = (Inl TimeoutErr, a')"
    using ar_read_calm[OF Nil(1) flight_timeout_ge, of 5 ccs] Nil(2) by (auto simp: record_bytes_def)
  show ?case by (subst read_flight.simps) (auto simp: r flight_done_def alerted_def)
next
  case (Cons x rs)
  obtain ct body where x: "x = (ct, body)" by (cases x)
  let ?h = "[ct, 3, 3] @ to_be 2 (length body)"
  have b: "length body < 65536" using Cons.prems(3) by (simp add: x)
  have all: "ar_bytes a = ?h @ body @ record_bytes rs"
    using Cons.prems(2) by (simp add: x record_bytes_def tls_record_def)
  obtain a1 where a1: "calm a1" "ar_bytes a1 = body @ record_bytes rs" "ar_read (flight_timeout ccs) 5 a = (Inr ?h, a1)"
    using ar_read_calm[OF Cons.prems(1) flight_timeout_ge, of 5 ccs] by (auto simp: all)
  obtain a2 where a2: "calm a2" "ar_bytes a2 = record_bytes rs"
    "ar_read (flight_timeout ccs) (length body) a1 = (Inr body, a2)"
    using ar_read_calm[OF a1(1) flight_timeout_ge, of "length body" ccs] by (auto simp: a1(2))
  have l: "from_be (slice 3 5 ?h) = length body" using b by (simp add: slice_def)
  have step: "read_flight sh ccs enc a = (if ct = 0x15 then (Inl OSErr, a2)
      else read_flight (sh \<or> ct = 0x16) (ccs \<or> (ct = 0x14)) (enc \<or> (ct = 0x17)) a2)"
    by (subst read_flight.simps) (simp only: a1(3) a2(3) l prod.case sum.case Let_def, simp)
  have r: "list_all (\<lambda>(ct, body). length body < 65536) rs" using Cons.prems(3) by simp
  show ?case
  proof (cases "ct = 0x15")
    case True
    then show ?thesis by (simp add: step alerted_def x)
  next
    case False
    then show ?thesis
      using Cons.IH[OF a2(1,2) r, of "sh \<or> ct = 0x16" "ccs \<or> ct = 0x14" "enc \<or> ct = 0x17"]
      by (auto simp: step alerted_def x)
  qed
qed

text \<open>C25: A flight whose bytes arrive within 1.5 seconds, however they are cut, is accepted exactly when it has
  a ServerHello, a ChangeCipherSpec and an encrypted record and no alert; every record is then consumed, so that
  the tunnel's first read starts at the first byte after the flight.  Any other flight is an \<open>IOError\<close>.\<close>

theorem server_flight_accepted_iff:
  assumes "calm a" "ar_bytes a = record_bytes rs" "list_all (\<lambda>(ct, body). length body < 65536) rs"
  shows "fst (read_server_handshake a) = (if {0x16, 0x14, 0x17} \<subseteq> fst ` set rs \<and> 0x15 \<notin> fst ` set rs then Inr () else Inl OSErr)
    \<and> (fst (read_server_handshake a) = Inr () \<longrightarrow> ar_bytes (snd (read_server_handshake a)) = [])"
  using read_flight_calm[OF assms, of False False False]
  by (auto simp: read_server_handshake_def alerted_def split: if_splits)

definition sample_arrivals :: arrivals where
  "sample_arrivals = \<lparr> ar_buf = [], ar_todo = [(1, [0x16, 3, 3, 0, 1, 7, 0x14]), (0, [3, 3, 0, 1]),
     (1 / 4, [1, 0x17, 3, 3, 0, 2, 8, 9])], ar_closed = False \<rparr>"

theorem server_flight_accepted_iff_witness:
  "fst (read_server_handshake sample_arrivals) = Inr () \<and> ar_bytes (snd (read_server_handshake sample_arrivals)) = []"
  using server_flight_accepted_iff[of sample_arrivals "[(0x16, [7]), (0x14, [1]), (0x17, [8, 9])]"]
  by (simp add: sample_arrivals_def calm_def ar_bytes_def record_bytes_def tls_record_def eval_be)


section \<open>The pool as a state machine\<close>

text \<open>
  The builders asleep and those inside \<open>_build_one\<close>, and the start times reserved so far, newest first.
  Each rule is the code between two waits; the draws of \<open>random.uniform(-j, j)\<close> lie within \<open>j\<close>.
\<close>

record pool_run =
  pr_pool :: pool
  pr_waiting :: nat
  pr_active :: nat
  pr_starts :: "rat list"

definition draw_ok :: "pool \<Rightarrow> rat \<Rightarrow> bool" where
  "draw_ok p u \<longleftrightarrow> \<bar>u\<bar> \<le> \<bar>po_jitter p\<bar>"

definition scheduled :: "rat \<Rightarrow> rat list \<Rightarrow> pool \<Rightarrow> pool_run \<Rightarrow> pool_run" where
  "scheduled now ds p r = r\<lparr> pr_pool := p, pr_waiting := pr_waiting r + length ds,
     pr_starts := rev (map ((+) now) ds) @ pr_starts r \<rparr>"

inductive pool_step :: "pool_run \<Rightarrow> pool_run \<Rightarrow> bool" where
  refill: "\<forall>i. draw_ok (pr_pool r) (us i) \<Longrightarrow> schedule_refills now us (pr_pool r) = (Inr ds, p)
    \<Longrightarrow> pool_step r (scheduled now ds p r)"
| take_one: "\<forall>i. draw_ok (pr_pool r) (us i) \<Longrightarrow> po_queue (pr_pool r) = t # q
    \<Longrightarrow> acquire_one now us alive t ((pr_pool r)\<lparr> po_queue := q \<rparr>) = (Inr (x, ds), p)
    \<Longrightarrow> pool_step r (scheduled now ds p r)"
| direct: "draw_ok (pr_pool r) u \<Longrightarrow> reserve_build_slot now u (pr_pool r) = (Inr d, p)
    \<Longrightarrow> pool_step r (r\<lparr> pr_pool := p, pr_starts := (now + d) # pr_starts r \<rparr>)"
| wake: "pr_waiting r = Suc w \<Longrightarrow> build_wake (pr_pool r) = (go, p)
    \<Longrightarrow> pool_step r (r\<lparr> pr_pool := p, pr_waiting := w, pr_active := pr_active r + (if go then 1 else 0) \<rparr>)"
| built: "pr_active r = Suc n
    \<Longrightarrow> pool_step r (r\<lparr> pr_pool := build_done x (pr_pool r), pr_active := n \<rparr>)"
| probed: "probe_done x (pr_pool r) = (ok, p) \<Longrightarrow> pool_step r (r\<lparr> pr_pool := p \<rparr>)"

inductive pool_reach :: "node_cfg \<Rightarrow> pool_run \<Rightarrow> bool" for cfg where
  warm: "\<forall>i. draw_ok (new_pool cfg) (us i) \<Longrightarrow> warmup now us (new_pool cfg) = (Inr ds, p)
    \<Longrightarrow> pool_reach cfg \<lparr> pr_pool = p, pr_waiting = length ds, pr_active = 0, pr_starts = rev (map ((+) now) ds) \<rparr>"
| step: "pool_reach cfg r \<Longrightarrow> pool_step r r' \<Longrightarrow> pool_reach cfg r'"

inductive_cases pool_stepE: "pool_step r r'"

text \<open>The start times so far are \<open>g\<close> apart, and so is the cursor from the newest.\<close>

definition spaced :: "rat \<Rightarrow> rat list \<Rightarrow> rat option \<Rightarrow> bool" where
  "spaced g starts nxt \<longleftrightarrow> sorted_wrt (\<lambda>b a. a + g \<le> b) starts
     \<and> (case nxt of None \<Rightarrow> False | Some n \<Rightarrow> list_all (\<lambda>a. a + g \<le> n) starts)"

definition gap_of :: "pool \<Rightarrow> rat" where
  "gap_of p = po_step p - \<bar>po_jitter p\<bar>"

lemma reserve_spaced:
  assumes "reserve_build_slot now u p = (Inr d, p')" "spaced (gap_of p) starts (po_next_at p)" "draw_ok p u"
    "0 \<le> gap_of p"
  shows "spaced (gap_of p) ((now + d) # starts) (po_next_at p')"
proof -
  obtain n where n: "po_next_at p = Some n" using assms(1) by (auto simp: reserve_build_slot_def split: option.splits)
  define m where "m = (if n < now then now else n)"
  have m: "now + d = m" "po_next_at p' = Some (m + (po_step p + u))"
    using assms(1) by (auto simp: reserve_build_slot_def n Let_def m_def)
  have g: "gap_of p \<le> po_step p + u" using assms(3) by (auto simp: gap_of_def draw_ok_def)
  have l: "\<forall>a \<in> set starts. a + gap_of p \<le> m" "sorted_wrt (\<lambda>b a. a + gap_of p \<le> b) starts"
    using assms(2) by (fastforce simp: spaced_def n list_all_iff m_def)+
  have "\<forall>a \<in> set starts. a + gap_of p \<le> m + (po_step p + u)" using l(1) g assms(4) by fastforce
  then show ?thesis using l g m by (simp add: spaced_def list_all_iff)
qed

lemma reserve_frame:
  "reserve_build_slot now u p = (Inr d, p') \<Longrightarrow> po_size p' = po_size p \<and> po_step p' = po_step p
    \<and> po_jitter p' = po_jitter p \<and> po_queue p' = po_queue p \<and> po_building p' = po_building p"
  by (auto simp: reserve_build_slot_def Let_def split: option.splits)

text \<open>What the loop of reservations keeps, and what it adds.\<close>

lemma reserve_loop_frame:
  "reserve_loop now us p = (Inr ds, p') \<Longrightarrow> po_size p' = po_size p \<and> po_step p' = po_step p
    \<and> po_jitter p' = po_jitter p \<and> po_queue p' = po_queue p \<and> length ds = length us
    \<and> po_building p' = po_building p + int (length us)"
proof (induction us arbitrary: p ds)
  case Nil
  then show ?case by simp
next
  case (Cons u us)
  then obtain d p1 ds' where 1: "reserve_build_slot now u (p\<lparr> po_building := po_building p + 1 \<rparr>) = (Inr d, p1)"
    "reserve_loop now us p1 = (Inr ds', p')" "ds = d # ds'"
    by (auto split: prod.splits sum.splits)
  show ?case using reserve_frame[OF 1(1)] Cons.IH[OF 1(2)] 1(3) by simp
qed

lemma reserve_loop_spaced:
  "reserve_loop now us p = (Inr ds, p') \<Longrightarrow> spaced (gap_of p) starts (po_next_at p) \<Longrightarrow> list_all (draw_ok p) us
    \<Longrightarrow> 0 \<le> gap_of p \<Longrightarrow> spaced (gap_of p) (rev (map ((+) now) ds) @ starts) (po_next_at p')"
proof (induction us arbitrary: p ds starts)
  case Nil
  then show ?case by simp
next
  case (Cons u us)
  let ?p = "p\<lparr> po_building := po_building p + 1 \<rparr>"
  from Cons.prems(1) obtain d p1 ds' where 1: "reserve_build_slot now u ?p = (Inr d, p1)"
    "reserve_loop now us p1 = (Inr ds', p')" "ds = d # ds'"
    by (auto split: prod.splits sum.splits)
  have g: "gap_of p1 = gap_of p" "gap_of ?p = gap_of p" "draw_ok p1 = draw_ok p" "draw_ok ?p = draw_ok p"
    using reserve_frame[OF 1(1)] by (auto simp: gap_of_def draw_ok_def fun_eq_iff)
  have "spaced (gap_of p) ((now + d) # starts) (po_next_at p1)"
    using reserve_spaced[OF 1(1), of starts] Cons.prems(2-4) by (simp add: g)
  from Cons.IH[OF 1(2), unfolded g, OF this] show ?case using Cons.prems(3,4) 1(3) by simp
qed


lemma schedule_spaced:
  assumes "schedule_refills now us p = (Inr ds, p')" "\<forall>i. draw_ok p (us i)" "spaced (gap_of p) starts (po_next_at p)"
    "0 \<le> gap_of p"
  shows "spaced (gap_of p) (rev (map ((+) now) ds) @ starts) (po_next_at p')"
  by (rule reserve_loop_spaced[OF assms(1)[unfolded schedule_refills_def] assms(3) _ assms(4)])
    (use assms(2) in \<open>auto simp: list_all_iff\<close>)

lemma schedule_frame:
  assumes "schedule_refills now us p = (Inr ds, p')"
  shows "po_size p' = po_size p \<and> po_step p' = po_step p \<and> po_jitter p' = po_jitter p \<and> po_queue p' = po_queue p
    \<and> length ds = deficit p \<and> po_building p' = po_building p + int (deficit p)"
  using reserve_loop_frame[OF assms[unfolded schedule_refills_def]] by simp

lemma reserve_loop_runs:
  "po_next_at p \<noteq> None \<Longrightarrow> \<exists>ds p'. reserve_loop now us p = (Inr ds, p') \<and> po_next_at p' \<noteq> None"
proof (induction us arbitrary: p)
  case Nil
  then show ?case by simp
next
  case (Cons u us)
  then obtain d p1 where 1: "reserve_build_slot now u (p\<lparr> po_building := po_building p + 1 \<rparr>) = (Inr d, p1)"
    "po_next_at p1 \<noteq> None" by (auto simp: reserve_build_slot_def Let_def)
  then show ?case using Cons.IH[OF 1(2)] by fastforce
qed

text \<open>The two invariants: the accounts of the builders, and the pacing.\<close>

definition accounts_ok :: "node_cfg \<Rightarrow> pool_run \<Rightarrow> bool" where
  "accounts_ok cfg r \<longleftrightarrow> po_size (pr_pool r) = n_pool_size cfg
     \<and> po_building (pr_pool r) = int (pr_waiting r) + int (pr_active r)
     \<and> po_building (pr_pool r) \<le> n_pool_size cfg
     \<and> int (length (po_queue (pr_pool r))) + int (pr_active r) \<le> 2 * n_pool_size cfg"

definition pacing_ok :: "node_cfg \<Rightarrow> pool_run \<Rightarrow> bool" where
  "pacing_ok cfg r \<longleftrightarrow> gap_of (pr_pool r) = gap_of (new_pool cfg) \<and> draw_ok (pr_pool r) = draw_ok (new_pool cfg)
     \<and> spaced (gap_of (new_pool cfg)) (pr_starts r) (po_next_at (pr_pool r))"

lemma acquire_one_cases:
  assumes "acquire_one now us alive t p = (Inr (x, ds), p')"
  obtains "x = None" "schedule_refills now us p = (Inr ds, p')" | "x = Some t" "ds = []" "p' = p"
  using assms by (auto simp: acquire_one_def split: if_splits prod.splits sum.splits)

lemma scheduled_accounts:
  assumes "accounts_ok cfg r" "schedule_refills now us p = (Inr ds, p')"
    and "po_size p = po_size (pr_pool r)" "po_building p = po_building (pr_pool r)"
    and "length (po_queue p) \<le> length (po_queue (pr_pool r))"
  shows "accounts_ok cfg (scheduled now ds p' r)"
  using schedule_frame[OF assms(2)] assms(1,3-5) by (auto simp: accounts_ok_def scheduled_def deficit_def)

lemma accounts_step: "pool_step r r' \<Longrightarrow> accounts_ok cfg r \<Longrightarrow> 1 \<le> n_pool_size cfg \<Longrightarrow> accounts_ok cfg r'"
proof (induction rule: pool_step.induct)
  case (refill r us now ds p)
  then show ?case by (blast intro: scheduled_accounts order_refl)
next
  case (take_one r us t q now alive x ds p)
  from take_one.hyps(3) show ?case
  proof (cases rule: acquire_one_cases)
    case 1
    show ?thesis by (rule scheduled_accounts[OF take_one.prems(1) 1(2)]) (simp_all add: take_one.hyps(2))
  next
    case 2
    then show ?thesis using take_one.prems(1) take_one.hyps(2) by (auto simp: accounts_ok_def scheduled_def)
  qed
next
  case (direct r u now d p)
  then show ?case using reserve_frame[OF direct.hyps(2)] by (simp add: accounts_ok_def)
next
  case (wake r w go p)
  then show ?case by (auto simp: accounts_ok_def build_wake_def split: if_splits)
next
  case (built r n x)
  then show ?case by (auto simp: accounts_ok_def build_done_def split: option.split)
next
  case (probed x r ok p)
  then show ?case by (auto simp: accounts_ok_def probe_done_def Let_def split: option.splits if_splits)
qed

lemma scheduled_pacing:
  assumes "pacing_ok cfg r" "schedule_refills now us p = (Inr ds, p')" "\<forall>i. draw_ok (pr_pool r) (us i)"
    and "gap_of p = gap_of (pr_pool r)" "draw_ok p = draw_ok (pr_pool r)" "po_next_at p = po_next_at (pr_pool r)"
    and "0 \<le> gap_of (new_pool cfg)"
  shows "pacing_ok cfg (scheduled now ds p' r)"
proof -
  have "gap_of p' = gap_of p" "draw_ok p' = draw_ok p"
    using schedule_frame[OF assms(2)] by (auto simp: gap_of_def draw_ok_def fun_eq_iff)
  then show ?thesis
    using schedule_spaced[OF assms(2), of "pr_starts r"] assms(1,3-7) by (simp add: pacing_ok_def scheduled_def)
qed

lemma frame_simps [simp]:
  "gap_of (p\<lparr> po_queue := q \<rparr>) = gap_of p" "draw_ok (p\<lparr> po_queue := q \<rparr>) = draw_ok p"
  "gap_of (p\<lparr> po_building := b \<rparr>) = gap_of p" "draw_ok (p\<lparr> po_building := b \<rparr>) = draw_ok p"
  "gap_of (p\<lparr> po_next_at := n \<rparr>) = gap_of p" "draw_ok (p\<lparr> po_next_at := n \<rparr>) = draw_ok p"
  by (simp_all add: gap_of_def draw_ok_def fun_eq_iff)

lemma pacing_step: "pool_step r r' \<Longrightarrow> pacing_ok cfg r \<Longrightarrow> 0 \<le> gap_of (new_pool cfg) \<Longrightarrow> pacing_ok cfg r'"
proof (induction rule: pool_step.induct)
  case (refill r us now ds p)
  then show ?case by (blast intro: scheduled_pacing)
next
  case (take_one r us t q now alive x ds p)
  from take_one.hyps(3) show ?case
  proof (cases rule: acquire_one_cases)
    case 1
    show ?thesis
      by (rule scheduled_pacing[OF take_one.prems(1) 1(2) take_one.hyps(1)]) (simp_all add: take_one.prems(2))
  next
    case 2
    then show ?thesis using take_one.prems(1) by (simp add: pacing_ok_def scheduled_def)
  qed
next
  case (direct r u now d p)
  have "gap_of p = gap_of (pr_pool r)" "draw_ok p = draw_ok (pr_pool r)"
    using reserve_frame[OF direct.hyps(2)] by (auto simp: gap_of_def draw_ok_def fun_eq_iff)
  then show ?case
    using reserve_spaced[OF direct.hyps(2), of "pr_starts r"] direct by (simp add: pacing_ok_def)
next
  case (wake r w go p)
  then show ?case by (auto simp: pacing_ok_def build_wake_def split: if_splits)
next
  case (built r n x)
  then show ?case by (auto simp: pacing_ok_def build_done_def split: option.split)
next
  case (probed x r ok p)
  then show ?case by (auto simp: pacing_ok_def probe_done_def Let_def split: option.splits if_splits)
qed

lemma warmup_frame:
  assumes "warmup now us p = (Inr ds, p')"
  shows "po_size p' = po_size p \<and> gap_of p' = gap_of p \<and> draw_ok p' = draw_ok p \<and> po_queue p' = po_queue p
    \<and> length ds = nat (po_size p) \<and> po_building p' = po_building p + int (nat (po_size p))"
  using reserve_loop_frame[OF assms[unfolded warmup_def]] by (auto simp: gap_of_def draw_ok_def fun_eq_iff)

text \<open>C24: The pool's bookkeeping is exact and bounded: whatever refills, hand-outs, discarded tunnels, direct
  builds, probes and finished or failed builds happen in whatever order, the counter is the number of builders
  asleep or at work, never more than the pool's size, and ready tunnels and builds at work together never
  exceed twice the size.\<close>

theorem pool_stays_bounded:
  assumes "pool_reach cfg r" "1 \<le> n_pool_size cfg"
  shows "po_building (pr_pool r) = int (pr_waiting r) + int (pr_active r)
    \<and> po_building (pr_pool r) \<le> n_pool_size cfg
    \<and> int (length (po_queue (pr_pool r))) + int (pr_active r) \<le> 2 * n_pool_size cfg"
proof -
  have "accounts_ok cfg r"
    using assms
  proof (induction rule: pool_reach.induct)
    case (warm us now ds p)
    then show ?case using warmup_frame[OF warm(2)] by (simp add: accounts_ok_def new_pool_def)
  next
    case (step r r')
    then show ?case by (blast intro: accounts_step)
  qed
  then show ?thesis by (simp add: accounts_ok_def)
qed

text \<open>Builds never burst: any two start times the pool ever reserves, by refills, by the warm-up or for a
  request that found the pool empty, are at least the step less the jitter apart.\<close>

theorem builds_are_spaced:
  assumes "pool_reach cfg r" "0 \<le> gap_of (new_pool cfg)"
  shows "sorted_wrt (\<lambda>later earlier. earlier + (po_step (new_pool cfg) - \<bar>po_jitter (new_pool cfg)\<bar>) \<le> later) (pr_starts r)"
proof -
  have "pacing_ok cfg r"
    using assms
  proof (induction rule: pool_reach.induct)
    case (warm us now ds p)
    have "spaced (gap_of (new_pool cfg)) (rev (map ((+) now) ds) @ []) (po_next_at p)"
      using reserve_loop_spaced[OF warm(2)[unfolded warmup_def], of "[]"] warm(1,3)
      by (simp add: spaced_def list_all_iff)
    then show ?case using warmup_frame[OF warm(2)] by (simp add: pacing_ok_def)
  next
    case (step r r')
    then show ?case by (blast intro: pacing_step)
  qed
  then show ?thesis by (simp add: pacing_ok_def spaced_def gap_of_def)
qed


section \<open>Witnesses, and the hand-out\<close>

definition sample_ready :: ready where
  "sample_ready = new_ready 0 0 sample_tunnel"

text \<open>A pool of two at the instant 7: warmed up, one builder awake and done.\<close>

definition sample_pool_run :: pool_run where
  "sample_pool_run = \<lparr> pr_pool = (new_pool sample_node)\<lparr> po_queue := [sample_ready], po_building := 1,
       po_next_at := Some (76 / 10) \<rparr>, pr_waiting = 1, pr_active = 0, pr_starts = [73 / 10, 7] \<rparr>"

lemma sample_warm:
  "warmup 7 (\<lambda>i. 0) (new_pool sample_node) =
    (Inr [0, 3 / 10], (new_pool sample_node)\<lparr> po_building := 2, po_next_at := Some (76 / 10) \<rparr>)"
  by (simp add: warmup_def new_pool_def sample_node_def reserve_build_slot_def Let_def numeral_2_eq_2 stagger_step_def)

lemma sample_reach: "pool_reach sample_node sample_pool_run"
proof -
  let ?p = "(new_pool sample_node)\<lparr> po_building := 2, po_next_at := Some (76 / 10) \<rparr>"
  have 1: "pool_reach sample_node \<lparr> pr_pool = ?p, pr_waiting = 2, pr_active = 0, pr_starts = [73 / 10, 7] \<rparr>"
    using pool_reach.warm[OF _ sample_warm] by (simp add: draw_ok_def numeral_2_eq_2)
  have "build_wake ?p = (True, ?p)" by (simp add: build_wake_def new_pool_def sample_node_def)
  from pool_reach.step[OF 1 pool_step.wake[OF _ , where w = 1 and go = True and p = ?p]] this
  have 2: "pool_reach sample_node \<lparr> pr_pool = ?p, pr_waiting = 1, pr_active = 1, pr_starts = [73 / 10, 7] \<rparr>"
    by simp
  from pool_reach.step[OF 2 pool_step.built[where n = 0 and x = "Some sample_ready"]]
  show ?thesis by (simp add: build_done_def sample_pool_run_def new_pool_def)
qed

theorem pool_stays_bounded_witness:
  "po_building (pr_pool sample_pool_run) = int (pr_waiting sample_pool_run) + int (pr_active sample_pool_run)"
  using pool_stays_bounded[OF sample_reach] by (simp add: sample_node_def)

theorem builds_are_spaced_witness:
  "sorted_wrt (\<lambda>later earlier. earlier + (3 / 10 - 8 / 100) \<le> (later :: rat)) [73 / 10, 7]"
  using builds_are_spaced[OF sample_reach]
  by (simp add: gap_of_def new_pool_def sample_node_def sample_pool_run_def stagger_step_def stagger_jitter_def)

lemma acquire_one_total:
  assumes "po_next_at p \<noteq> None"
  obtains "is_stale now r \<or> \<not> alive" "\<exists>ds p'. acquire_one now us alive r p = (Inr (None, ds), p')
      \<and> po_queue p' = po_queue p \<and> po_next_at p' \<noteq> None"
  | "\<not> is_stale now r" "alive" "acquire_one now us alive r p = (Inr (Some r, []), p)"
proof -
  obtain ds p' where s: "schedule_refills now us p = (Inr ds, p')" "po_next_at p' \<noteq> None"
    unfolding schedule_refills_def using reserve_loop_runs[OF assms] by blast
  show thesis
    using that s schedule_frame[OF s(1)] by (cases "is_stale now r \<or> \<not> alive") (auto simp: acquire_one_def)
qed

lemma acquire_scan_finds:
  "length (po_queue p) \<le> k \<Longrightarrow> po_next_at p \<noteq> None \<Longrightarrow>
    \<exists>p'. acquire_scan now us alive k p = (Inr (List.find (\<lambda>r. \<not> is_stale now r \<and> alive r) (po_queue p)), p')
      \<and> po_queue p' = tl (dropWhile (\<lambda>r. is_stale now r \<or> \<not> alive r) (po_queue p))"
proof (induction k arbitrary: p)
  case 0
  then show ?case by simp
next
  case (Suc k)
  show ?case
  proof (cases "po_queue p")
    case Nil
    then show ?thesis by simp
  next
    case (Cons r q)
    have n: "po_next_at (p\<lparr> po_queue := q \<rparr>) \<noteq> None" using Suc.prems(2) by simp
    show ?thesis
    proof (rule acquire_one_total[OF n, of now r "alive r" us])
      assume u: "is_stale now r \<or> \<not> alive r" and "\<exists>ds p'. acquire_one now us (alive r) r (p\<lparr> po_queue := q \<rparr>)
        = (Inr (None, ds), p') \<and> po_queue p' = po_queue (p\<lparr> po_queue := q \<rparr>) \<and> po_next_at p' \<noteq> None"
      then obtain ds p1 where 1: "acquire_one now us (alive r) r (p\<lparr> po_queue := q \<rparr>) = (Inr (None, ds), p1)"
        "po_queue p1 = q" "po_next_at p1 \<noteq> None" by auto
      show ?thesis using Suc.IH[of p1] Suc.prems(1) 1 u by (auto simp: Cons)
    next
      assume "\<not> is_stale now r" "alive r" "acquire_one now us (alive r) r (p\<lparr> po_queue := q \<rparr>) = (Inr (Some r, []), p\<lparr> po_queue := q \<rparr>)"
      then show ?thesis by (simp add: Cons)
    qed
  qed
qed

text \<open>\<open>acquire\<close> hands out the oldest ready tunnel that is neither stale nor dead, throws away every
  tunnel before it and keeps every tunnel after it; only when none is usable does it fall through to a wait.\<close>

theorem acquire_first_usable:
  assumes "po_next_at p \<noteq> None"
  shows "\<exists>p'. acquire now us alive p = (Inr (List.find (\<lambda>r. \<not> is_stale now r \<and> alive r) (po_queue p)), p')
      \<and> po_queue p' = tl (dropWhile (\<lambda>r. is_stale now r \<or> \<not> alive r) (po_queue p))"
proof -
  obtain ds p1 where s: "schedule_refills now us p = (Inr ds, p1)" "po_next_at p1 \<noteq> None"
    unfolding schedule_refills_def using reserve_loop_runs[OF assms] by blast
  show ?thesis
    using acquire_scan_finds[of p1 "length (po_queue p1)" now us alive] s schedule_frame[OF s(1)]
    by (auto simp: acquire_def)
qed

theorem acquire_first_usable_witness:
  "fst (acquire 100 (\<lambda>i. 0) (\<lambda>r. True) (pr_pool sample_pool_run)) = Inr (Some sample_ready)
    \<and> fst (acquire 200 (\<lambda>i. 0) (\<lambda>r. True) (pr_pool sample_pool_run)) = Inr None"
  using acquire_first_usable[of "pr_pool sample_pool_run" 100 "\<lambda>i. 0" "\<lambda>r. True"]
    acquire_first_usable[of "pr_pool sample_pool_run" 200 "\<lambda>i. 0" "\<lambda>r. True"]
  by (auto simp: sample_pool_run_def is_stale_def sample_ready_def new_ready_def max_idle_sec_def)

text \<open>The peek never runs: a tunnel whose peer is gone passes as alive.\<close>

lemma is_alive_always: "is_alive has_socket peek_at"
  by (simp add: is_alive_def peek_flags_def)

end
