(* ===== verification/Geo_Data.thy ===== *)
theory Geo_Data
  imports IpAddr
begin

text \<open>
  The routing data files (core/router.py): the protobuf reader, \<open>geosite.dat\<close> and \<open>geoip.dat\<close>, and the
  lazily filled \<open>_GeoDataCache\<close>. A file system is a function from paths to contents, \<open>None\<close> where
  opening fails. All parsers of the source loop over the same wire format; the loop is \<open>pb_fields\<close>,
  which gives the fields up to the end or an unknown wire type, and \<open>False\<close> when it raises.
\<close>

unbundle bit_operations_syntax

section \<open>Protobuf\<close>

fun varint_loop :: "nat \<Rightarrow> nat \<Rightarrow> bytes \<Rightarrow> (nat \<times> bytes) option" where
  "varint_loop sh n [] = None"
| "varint_loop sh n (b # bs) =
     (let n = n OR push_bit sh (unat (b AND 0x7F)) in
      if b AND 0x80 = 0 then Some (n, bs) else varint_loop (sh + 7) n bs)"

definition varint :: "bytes \<Rightarrow> (nat \<times> bytes) option" where
  "varint = varint_loop 0 0"

definition len_delim :: "bytes \<Rightarrow> (bytes \<times> bytes) option" where
  "len_delim bs = (case varint bs of None \<Rightarrow> None | Some (n, rest) \<Rightarrow> Some (take n rest, drop n rest))"

datatype pb_val = PVar nat | PLen bytes

lemma varint_loop_length: "varint_loop sh n bs = Some (v, rest) \<Longrightarrow> length rest < length bs"
proof (induction sh n bs rule: varint_loop.induct)
  case (1 sh n)
  then show ?case by simp
next
  case (2 sh n b bs)
  then show ?case by (fastforce simp: Let_def split: if_splits)
qed

lemma varint_length: "varint bs = Some (v, rest) \<Longrightarrow> length rest < length bs"
  by (simp add: varint_def varint_loop_length)

lemma len_delim_length: "len_delim bs = Some (c, rest) \<Longrightarrow> length rest < length bs"
  by (auto simp: len_delim_def dest!: varint_length split: option.splits)

function pb_fields :: "bytes \<Rightarrow> (nat \<times> pb_val) list \<times> bool" where
  "pb_fields data =
     (if data = [] then ([], True)
      else case varint data of
        None \<Rightarrow> ([], False)
      | Some (tag, pos) \<Rightarrow>
         (if tag mod 8 = 0 then
            (case varint pos of
               None \<Rightarrow> ([], False)
             | Some (v, pos') \<Rightarrow> (let (fs, ok) = pb_fields pos' in ((tag div 8, PVar v) # fs, ok)))
          else if tag mod 8 = 2 then
            (case len_delim pos of
               None \<Rightarrow> ([], False)
             | Some (c, pos') \<Rightarrow> (let (fs, ok) = pb_fields pos' in ((tag div 8, PLen c) # fs, ok)))
          else ([], True)))"
  by pat_completeness auto
termination
  by (relation "measure length") (auto dest!: varint_length len_delim_length)

declare pb_fields.simps [simp del]

text \<open>A loop body that may raise, folded over the fields.\<close>

fun foldE :: "('s \<Rightarrow> 'x \<Rightarrow> py_error + 's) \<Rightarrow> 's \<Rightarrow> 'x list \<Rightarrow> py_error + 's" where
  "foldE f s [] = Inr s"
| "foldE f s (x # xs) = bindE (f s x) (\<lambda>s. foldE f s xs)"

definition parse_fields :: "('s \<Rightarrow> nat \<times> pb_val \<Rightarrow> py_error + 's) \<Rightarrow> 's \<Rightarrow> bytes \<Rightarrow> py_error + 's" where
  "parse_fields f s data = (let (fs, ok) = pb_fields data in
     bindE (foldE f s fs) (\<lambda>s. if ok then Inr s else Inl ValueError))"

section \<open>geosite.dat\<close>

type_synonym geo_domain = "nat \<times> pystr"

definition domain_field :: "geo_domain \<Rightarrow> nat \<times> pb_val \<Rightarrow> py_error + geo_domain" where
  "domain_field s fv = (case (s, fv) of
      ((dtype, value), (fn, PVar v)) \<Rightarrow> Inr (if fn = 1 then (v, value) else (dtype, value))
    | ((dtype, value), (fn, PLen c)) \<Rightarrow> Inr (if fn = 2 then (dtype, utf8_replace c) else (dtype, value)))"

definition parse_domain_msg :: "bytes \<Rightarrow> py_error + geo_domain option" where
  "parse_domain_msg mv = bindE (parse_fields domain_field (0, []) mv) (\<lambda>(dtype, value).
     Inr (if value \<noteq> [] then Some (dtype, value) else None))"

definition site_field :: "pystr \<times> geo_domain list \<Rightarrow> nat \<times> pb_val \<Rightarrow> py_error + pystr \<times> geo_domain list" where
  "site_field s fv = (case (s, fv) of
      ((code, domains), (fn, PLen c)) \<Rightarrow>
        if fn = 1 then Inr (py_upper (utf8_replace c), domains)
        else if fn = 2 then bindE (parse_domain_msg c) (\<lambda>d.
          Inr (code, case d of None \<Rightarrow> domains | Some x \<Rightarrow> domains @ [x]))
        else Inr (code, domains)
    | (s, (fn, PVar v)) \<Rightarrow> Inr s)"

definition parse_geosite_entry :: "bytes \<Rightarrow> py_error + (pystr \<times> geo_domain list) option" where
  "parse_geosite_entry mv = bindE (parse_fields site_field ([], []) mv) (\<lambda>(code, domains).
     Inr (if code \<noteq> [] then Some (code, domains) else None))"

text \<open>The top-level loops keep what they have when an entry or the wire format is broken.\<close>

fun load_loop :: "(bytes \<Rightarrow> py_error + (pystr \<times> 'v) option) \<Rightarrow> (nat \<times> pb_val) list \<Rightarrow> (pystr, 'v) odict \<Rightarrow> (pystr, 'v) odict" where
  "load_loop parse [] result = result"
| "load_loop parse ((fn, PLen c) # fs) result =
     (if fn = 1 then
        (case parse c of Inl e \<Rightarrow> result
         | Inr None \<Rightarrow> load_loop parse fs result
         | Inr (Some (code, v)) \<Rightarrow> load_loop parse fs (od_set code v result))
      else load_loop parse fs result)"
| "load_loop parse ((fn, PVar v) # fs) result = load_loop parse fs result"

definition load_geosite_dat :: "bytes \<Rightarrow> (pystr, geo_domain list) odict" where
  "load_geosite_dat data = load_loop parse_geosite_entry (fst (pb_fields data)) []"

section \<open>geoip.dat\<close>

definition cidr_field :: "bytes \<times> nat \<Rightarrow> nat \<times> pb_val \<Rightarrow> py_error + bytes \<times> nat" where
  "cidr_field s fv = (case (s, fv) of
      ((ip_bytes, plen), (fn, PLen c)) \<Rightarrow> Inr (if fn = 1 then (c, plen) else (ip_bytes, plen))
    | ((ip_bytes, plen), (fn, PVar v)) \<Rightarrow> Inr (if fn = 2 then (ip_bytes, v) else (ip_bytes, plen)))"

definition parse_cidr_msg :: "bytes \<Rightarrow> py_error + ip_net option" where
  "parse_cidr_msg mv = bindE (parse_fields cidr_field ([], 0) mv) (\<lambda>(ip_bytes, plen). Inr (
     if ip_bytes = [] then None
     else if length ip_bytes = 4 then mk_net4 (from_be ip_bytes) plen
     else if length ip_bytes = 16 then mk_net6 (from_be ip_bytes) plen
     else None))"

definition ip_field :: "pystr \<times> ip_net list \<times> bool \<Rightarrow> nat \<times> pb_val \<Rightarrow> py_error + pystr \<times> ip_net list \<times> bool" where
  "ip_field s fv = (case (s, fv) of
      ((code, networks, neg), (fn, PLen c)) \<Rightarrow>
        if fn = 1 then Inr (py_upper (utf8_replace c), networks, neg)
        else if fn = 2 then bindE (parse_cidr_msg c) (\<lambda>n.
          Inr (code, case n of None \<Rightarrow> networks | Some x \<Rightarrow> networks @ [x], neg))
        else Inr (code, networks, neg)
    | ((code, networks, neg), (fn, PVar v)) \<Rightarrow>
        Inr (if fn = 3 then (code, networks, v \<noteq> 0) else (code, networks, neg)))"

definition parse_geoip_entry :: "bytes \<Rightarrow> py_error + (pystr \<times> ip_net list \<times> bool) option" where
  "parse_geoip_entry mv = bindE (parse_fields ip_field ([], [], False) mv) (\<lambda>(code, networks, neg).
     Inr (if code \<noteq> [] then Some (code, networks, neg) else None))"

definition load_geoip_dat :: "bytes \<Rightarrow> (pystr, ip_net list \<times> bool) odict" where
  "load_geoip_dat data = load_loop parse_geoip_entry (fst (pb_fields data)) []"

section \<open>The cache of parsed files\<close>

record geo_cache =
  site_avail :: "(pystr, pystr) odict"
  ip_avail :: "(pystr, pystr) odict"
  site_cache :: "(pystr, (pystr, geo_domain list) odict) odict"
  ip_cache :: "(pystr, (pystr, ip_net list \<times> bool) odict) odict"

definition new_geo_cache :: "(pystr, pystr) odict \<Rightarrow> (pystr, pystr) odict \<Rightarrow> geo_cache" where
  "new_geo_cache s i = \<lparr>site_avail = s, ip_avail = i, site_cache = [], ip_cache = []\<rparr>"

definition default_site :: "geo_cache \<Rightarrow> pystr option" where
  "default_site c = (case site_avail c of [] \<Rightarrow> None | (k, p) # d \<Rightarrow> Some k)"

definition default_ip :: "geo_cache \<Rightarrow> pystr option" where
  "default_ip c = (case ip_avail c of [] \<Rightarrow> None | (k, p) # d \<Rightarrow> Some k)"

definition read_source :: "(pystr \<Rightarrow> bytes option) \<Rightarrow> (bytes \<Rightarrow> ('k, 'v) odict) \<Rightarrow> (pystr, pystr) odict \<Rightarrow> pystr \<Rightarrow> ('k, 'v) odict" where
  "read_source fs load avail name = (case od_get avail name of
      None \<Rightarrow> []
    | Some path \<Rightarrow> if path = [] then [] else (case fs path of None \<Rightarrow> [] | Some data \<Rightarrow> load data))"

definition geo_site :: "(pystr \<Rightarrow> bytes option) \<Rightarrow> geo_cache \<Rightarrow> pystr \<Rightarrow> (pystr, geo_domain list) odict \<times> geo_cache" where
  "geo_site fs c name = (case od_get (site_cache c) name of
      Some d \<Rightarrow> (d, c)
    | None \<Rightarrow> (let d = read_source fs load_geosite_dat (site_avail c) name
               in (d, c\<lparr>site_cache := od_set name d (site_cache c)\<rparr>)))"

definition geo_ip :: "(pystr \<Rightarrow> bytes option) \<Rightarrow> geo_cache \<Rightarrow> pystr \<Rightarrow> (pystr, ip_net list \<times> bool) odict \<times> geo_cache" where
  "geo_ip fs c name = (case od_get (ip_cache c) name of
      Some d \<Rightarrow> (d, c)
    | None \<Rightarrow> (let d = read_source fs load_geoip_dat (ip_avail c) name
               in (d, c\<lparr>ip_cache := od_set name d (ip_cache c)\<rparr>)))"

text \<open>The cache is transparent: what it holds for a name is what reading the file gives.\<close>

definition geo_cache_ok :: "(pystr \<Rightarrow> bytes option) \<Rightarrow> geo_cache \<Rightarrow> bool" where
  "geo_cache_ok fs c \<longleftrightarrow>
     (\<forall>n d. od_get (site_cache c) n = Some d \<longrightarrow> d = read_source fs load_geosite_dat (site_avail c) n)
   \<and> (\<forall>n d. od_get (ip_cache c) n = Some d \<longrightarrow> d = read_source fs load_geoip_dat (ip_avail c) n)"

lemma geo_cache_ok_new: "geo_cache_ok fs (new_geo_cache s i)"
  by (simp add: geo_cache_ok_def new_geo_cache_def)

lemma geo_site_ok:
  "geo_cache_ok fs c \<Longrightarrow> fst (geo_site fs c n) = read_source fs load_geosite_dat (site_avail c) n
    \<and> geo_cache_ok fs (snd (geo_site fs c n))
    \<and> site_avail (snd (geo_site fs c n)) = site_avail c \<and> ip_avail (snd (geo_site fs c n)) = ip_avail c"
  by (auto simp: geo_site_def geo_cache_ok_def Let_def split: option.splits)

lemma geo_ip_ok:
  "geo_cache_ok fs c \<Longrightarrow> fst (geo_ip fs c n) = read_source fs load_geoip_dat (ip_avail c) n
    \<and> geo_cache_ok fs (snd (geo_ip fs c n))
    \<and> site_avail (snd (geo_ip fs c n)) = site_avail c \<and> ip_avail (snd (geo_ip fs c n)) = ip_avail c"
  by (auto simp: geo_ip_def geo_cache_ok_def Let_def split: option.splits)

section \<open>Encoding, as the reference\<close>

function enc_varint :: "nat \<Rightarrow> bytes" where
  "enc_varint n = (if n < 128 then [of_nat n] else of_nat (n mod 128 + 128) # enc_varint (n div 128))"
  by pat_completeness auto
termination
  by (relation "measure id") auto

declare enc_varint.simps [simp del]

definition enc_len :: "nat \<Rightarrow> bytes \<Rightarrow> bytes" where
  "enc_len fn c = enc_varint (fn * 8 + 2) @ enc_varint (length c) @ c"

definition enc_int :: "nat \<Rightarrow> nat \<Rightarrow> bytes" where
  "enc_int fn v = enc_varint (fn * 8) @ enc_varint v"

definition enc_domain :: "nat \<times> bytes \<Rightarrow> bytes" where
  "enc_domain d = enc_int 1 (fst d) @ enc_len 2 (snd d)"

definition enc_site :: "bytes \<times> (nat \<times> bytes) list \<Rightarrow> bytes" where
  "enc_site e = enc_len 1 (fst e) @ concat (map (\<lambda>d. enc_len 2 (enc_domain d)) (snd e))"

definition enc_geosite :: "(bytes \<times> (nat \<times> bytes) list) list \<Rightarrow> bytes" where
  "enc_geosite es = concat (map (\<lambda>e. enc_len 1 (enc_site e)) es)"

lemma or_shift: "n < 2 ^ sh \<Longrightarrow> n OR push_bit sh m = n + m * 2 ^ sh" for n m :: nat
proof -
  assume n: "n < 2 ^ sh"
  then have t: "take_bit sh n = n" by (simp add: take_bit_nat_eq_self_iff)
  have "n AND push_bit sh m = 0"
  proof (rule bit_eqI)
    fix k
    show "bit (n AND push_bit sh m) k = bit 0 k"
      using bit_take_bit_iff[of sh n k] by (auto simp: bit_simps t)
  qed
  then have "n OR push_bit sh m = n + push_bit sh m" by (simp add: disjunctive_add_eq_or)
  then show ?thesis by (simp add: push_bit_nat_def mult.commute)
qed

lemma byte_low: "v < 128 \<Longrightarrow> unat ((of_nat v :: byte) AND 0x7F) = v"
proof -
  assume v: "v < 128"
  have "(of_nat v :: byte) AND 0x7F = take_bit 7 (of_nat v)" by (simp add: take_bit_eq_mask mask_eq_exp_minus_1)
  then show ?thesis using v by (simp add: unsigned_take_bit_eq unat_of_nat take_bit_nat_def)
qed

lemma byte_top: "v < 256 \<Longrightarrow> (of_nat v :: byte) AND 0x80 = 0 \<longleftrightarrow> v < 128"
proof -
  assume v: "v < 256"
  have "(of_nat v :: byte) AND 0x80 = 0 \<longleftrightarrow> \<not> bit (of_nat v :: byte) 7"
    using and_exp_eq_0_iff_not_bit[of "of_nat v :: byte" 7] by simp
  also have "\<dots> \<longleftrightarrow> even (v div 128)"
    using bit_unsigned_iff[of "of_nat v :: byte" 7, where 'a = nat] v by (simp add: unat_of_nat bit_iff_odd)
  also have "\<dots> \<longleftrightarrow> v < 128"
  proof -
    have "v div 128 = (if v < 128 then 0 else 1)" using v by auto
    then show ?thesis by simp
  qed
  finally show ?thesis .
qed

lemma byte_low_top: "v < 128 \<Longrightarrow> unat ((of_nat (v + 128) :: byte) AND 0x7F) = v"
proof -
  assume v: "v < 128"
  have "(of_nat (v + 128) :: byte) AND 0x7F = take_bit 7 (of_nat (v + 128))"
    by (simp add: take_bit_eq_mask mask_eq_exp_minus_1)
  then have "unat ((of_nat (v + 128) :: byte) AND 0x7F) = take_bit 7 (unat (of_nat (v + 128) :: byte))"
    by (simp only: unsigned_take_bit_eq)
  also have "unat (of_nat (v + 128) :: byte) = v + 128" using v by (subst unat_of_nat) simp
  finally show ?thesis using v by (simp add: take_bit_nat_def)
qed

lemma varint_loop_enc:
  "acc < 2 ^ sh \<Longrightarrow> varint_loop sh acc (enc_varint n @ rest) = Some (acc + n * 2 ^ sh, rest)"
proof (induction n arbitrary: acc sh rule: enc_varint.induct)
  case (1 n)
  show ?case
  proof (cases "n < 128")
    case True
    have b: "unat ((of_nat n :: byte) AND 0x7F) = n" "(of_nat n :: byte) AND 0x80 = 0"
      using True byte_low byte_top[of n] by simp_all
    show ?thesis
      using True 1(2) by (subst enc_varint.simps) (simp add: b or_shift Let_def del: unsigned_and_eq)
  next
    case False
    let ?v = "n mod 128"
    have b: "unat ((of_nat (?v + 128) :: byte) AND 0x7F) = ?v" "(of_nat (?v + 128) :: byte) AND 0x80 \<noteq> 0"
      using byte_low_top[of ?v] byte_top[of "?v + 128"] by simp_all
    have lt: "acc + ?v * 2 ^ sh < 2 ^ (sh + 7)"
    proof -
      have "(?v + 1) * 2 ^ sh \<le> 128 * (2 :: nat) ^ sh" by (intro mult_right_mono) auto
      moreover have "acc + ?v * 2 ^ sh < (?v + 1) * 2 ^ sh" using 1(2) by simp
      moreover have "128 * (2 :: nat) ^ sh = 2 ^ (sh + 7)" by (simp add: power_add)
      ultimately show ?thesis by linarith
    qed
    have "varint_loop sh acc (enc_varint n @ rest) = varint_loop (sh + 7) (acc + ?v * 2 ^ sh) (enc_varint (n div 128) @ rest)"
      using False 1(2) by (subst enc_varint.simps) (simp add: b or_shift Let_def del: of_nat_add unsigned_and_eq)
    also have "\<dots> = Some (acc + ?v * 2 ^ sh + n div 128 * 2 ^ (sh + 7), rest)"
      by (rule 1(1)[OF False lt])
    also have "acc + ?v * 2 ^ sh + n div 128 * 2 ^ (sh + 7) = acc + (n div 128 * 128 + ?v) * 2 ^ sh"
      by (simp only: power_add add_mult_distrib) (simp add: ac_simps)
    also have "n div 128 * 128 + ?v = n" by simp
    finally show ?thesis .
  qed
qed

lemma varint_enc [simp]: "varint (enc_varint n @ rest) = Some (n, rest)"
  using varint_loop_enc[of 0 0 n rest] by (simp add: varint_def)

lemma enc_varint_nonempty [simp]: "enc_varint n \<noteq> []"
  by (subst enc_varint.simps) simp

lemma len_delim_enc [simp]: "len_delim (enc_varint (length c) @ c @ rest) = Some (c, rest)"
  by (simp add: len_delim_def)

fun enc_field :: "nat \<times> pb_val \<Rightarrow> bytes" where
  "enc_field (fn, PVar v) = enc_int fn v"
| "enc_field (fn, PLen c) = enc_len fn c"

lemma pb_fields_enc: "pb_fields (concat (map enc_field fs)) = (fs, True)"
proof (induction fs)
  case Nil
  then show ?case by (simp add: pb_fields.simps)
next
  case (Cons f fs)
  obtain fn v where f: "f = (fn, v)" by (cases f)
  have m: "Suc (Suc (fn * 8)) mod 8 = 2" "Suc (Suc (fn * 8)) div 8 = fn" by presburger+
  show ?case
    using Cons m by (cases v; subst pb_fields.simps) (simp_all add: f enc_int_def enc_len_def)
qed

lemma parse_fields_enc:
  "parse_fields f s (concat (map enc_field fs)) = foldE f s fs"
  by (cases "foldE f s fs") (simp_all add: parse_fields_def pb_fields_enc)

lemma utf8_replace_Nil_iff [simp]: "utf8_replace bs = [] \<longleftrightarrow> bs = []"
  by (cases bs) (simp_all add: utf8_replace_def)

lemma py_upper_Nil_iff [simp]: "py_upper s = [] \<longleftrightarrow> s = []"
  by (simp add: py_upper_def)

lemma parse_domain_enc:
  assumes "snd d \<noteq> []"
  shows "parse_domain_msg (enc_domain d) = Inr (Some (fst d, utf8_replace (snd d)))"
proof -
  have "enc_domain d = concat (map enc_field [(1, PVar (fst d)), (2, PLen (snd d))])"
    by (simp add: enc_domain_def)
  then show ?thesis
    using assms by (simp add: parse_domain_msg_def parse_fields_enc domain_field_def del: concat.simps list.map)
qed

lemma site_fields_enc:
  "\<forall>d \<in> set ds. snd d \<noteq> [] \<Longrightarrow> foldE site_field (code, acc) (map (\<lambda>d. (2, PLen (enc_domain d))) ds) =
    Inr (code, acc @ map (apsnd utf8_replace) ds)"
  by (induction ds arbitrary: acc) (auto simp: site_field_def parse_domain_enc)

lemma parse_site_enc:
  assumes "fst e \<noteq> []" "\<forall>d \<in> set (snd e). snd d \<noteq> []"
  shows "parse_geosite_entry (enc_site e) = Inr (Some (py_upper (utf8_replace (fst e)), map (apsnd utf8_replace) (snd e)))"
proof -
  have e: "enc_site e = concat (map enc_field ((1, PLen (fst e)) # map (\<lambda>d. (2, PLen (enc_domain d))) (snd e)))"
    by (simp add: enc_site_def o_def)
  show ?thesis
    unfolding parse_geosite_entry_def e parse_fields_enc
    using assms(1) site_fields_enc[OF assms(2)] by (simp add: site_field_def)
qed

definition read_back :: "bytes \<times> (nat \<times> bytes) list \<Rightarrow> pystr \<times> geo_domain list" where
  "read_back e = (py_upper (utf8_replace (fst e)), map (apsnd utf8_replace) (snd e))"

lemma od_set_new: "k \<notin> fst ` set d \<Longrightarrow> od_set k v d = d @ [(k, v)]"
  by (induction d) auto

lemma load_loop_enc:
  assumes "\<forall>e \<in> set es. fst e \<noteq> [] \<and> (\<forall>d \<in> set (snd e). snd d \<noteq> [])"
    and "distinct (map fst acc @ map (fst \<circ> read_back) es)"
  shows "load_loop parse_geosite_entry (map (\<lambda>e. (1, PLen (enc_site e))) es) acc = acc @ map read_back es"
  using assms
proof (induction es arbitrary: acc)
  case Nil
  then show ?case by simp
next
  case (Cons e es)
  have p: "parse_geosite_entry (enc_site e) = Inr (Some (fst (read_back e), snd (read_back e)))"
    using parse_site_enc[of e] Cons.prems(1) by (simp add: read_back_def)
  have "od_set (fst (read_back e)) (snd (read_back e)) acc = acc @ [read_back e]"
    using Cons.prems(2) by (subst od_set_new) auto
  then show ?case
    using Cons.IH[of "acc @ [read_back e]"] Cons.prems p by (cases "read_back e") auto
qed

section \<open>Properties\<close>



text \<open>The data cache never serves anything but the contents of the file, and each look-up keeps it
  that way, so parsing a file once does not change what any rule sees.\<close>

theorem geo_cache_transparent:
  assumes "geo_cache_ok fs c"
  shows "fst (geo_site fs c n) = read_source fs load_geosite_dat (site_avail c) n
    \<and> fst (geo_ip fs c n) = read_source fs load_geoip_dat (ip_avail c) n
    \<and> geo_cache_ok fs (snd (geo_site fs c n)) \<and> geo_cache_ok fs (snd (geo_ip fs c n))"
  using geo_site_ok[OF assms] geo_ip_ok[OF assms] by simp

theorem geo_cache_transparent_witness:
  "fst (geo_site (\<lambda>p. None) (new_geo_cache [(U ''s'', U ''/f'')] []) (U ''s'')) = []"
  using geo_cache_transparent[OF geo_cache_ok_new, of "\<lambda>p. None" "[(U ''s'', U ''/f'')]" "[]" "U ''s''"]
  by (simp add: read_source_def new_geo_cache_def od_get_def)

end
