(* ===== verification/Bloom.thy ===== *)
theory Bloom
  imports Prelude
begin

text \<open>
  The Bloom filter in front of the suffix tables (core/bloom.py). Python's built-in string \<open>hash\<close>,
  randomised per process, is a parameter; so are the numbers of bits and of hash functions, which
  the constructor computes in floating point from the capacity.
\<close>

unbundle bit_operations_syntax

definition hash_pair :: "(pystr \<Rightarrow> int) \<Rightarrow> pystr \<Rightarrow> 64 word \<times> 64 word" where
  "hash_pair py_hash key =
     (let h = word_of_int (py_hash key);
          h2 = h XOR drop_bit 30 h;
          h2 = h2 * 0xBF58476D1CE4E5B9;
          h2 = h2 XOR drop_bit 27 h2;
          h2 = h2 * 0x94D049BB133111EB;
          h2 = (h2 XOR drop_bit 31 h2) OR 1
      in (h, h2))"

record bloom =
  bl_m :: nat
  bl_k :: nat
  bl_bits :: bytes

text \<open>\<open>bytearray((m + 7) >> 3)\<close>\<close>

definition new_bloom :: "nat \<Rightarrow> nat \<Rightarrow> bloom" where
  "new_bloom m k = \<lparr>bl_m = m, bl_k = k, bl_bits = replicate ((m + 7) div 8) 0\<rparr>"

definition bloom_positions :: "(pystr \<Rightarrow> int) \<Rightarrow> bloom \<Rightarrow> pystr \<Rightarrow> nat list" where
  "bloom_positions py_hash f key = (let (h1, h2) = hash_pair py_hash key in
     map (\<lambda>i. (unat h1 + i * unat h2) mod bl_m f) [0..<bl_k f])"

definition set_bit_at :: "nat \<Rightarrow> bytes \<Rightarrow> bytes" where
  "set_bit_at p bits = bits[p div 8 := (bits ! (p div 8)) OR push_bit (p mod 8) 1]"

definition bit_at :: "nat \<Rightarrow> bytes \<Rightarrow> bool" where
  "bit_at p bits \<longleftrightarrow> (bits ! (p div 8)) AND push_bit (p mod 8) 1 \<noteq> 0"

definition bloom_add :: "(pystr \<Rightarrow> int) \<Rightarrow> pystr \<Rightarrow> bloom \<Rightarrow> bloom" where
  "bloom_add py_hash key f =
     f\<lparr>bl_bits := foldl (\<lambda>bits p. set_bit_at p bits) (bl_bits f) (bloom_positions py_hash f key)\<rparr>"

definition bloom_contains :: "(pystr \<Rightarrow> int) \<Rightarrow> bloom \<Rightarrow> pystr \<Rightarrow> bool" where
  "bloom_contains py_hash f key = list_all (\<lambda>p. bit_at p (bl_bits f)) (bloom_positions py_hash f key)"

definition bloom_bit_count :: "bloom \<Rightarrow> nat" where
  "bloom_bit_count f = bl_m f"

definition bloom_ok :: "bloom \<Rightarrow> bool" where
  "bloom_ok f \<longleftrightarrow> 0 < bl_m f \<and> length (bl_bits f) = (bl_m f + 7) div 8"

lemma bit_at_bit: "bit_at p bits \<longleftrightarrow> bit (bits ! (p div 8)) (p mod 8)"
  by (simp add: bit_at_def and_exp_eq_0_iff_not_bit)

lemma bit_at_set:
  assumes "p div 8 < length bits"
  shows "bit_at q (set_bit_at p bits) \<longleftrightarrow> bit_at q bits \<or> q = p"
proof -
  have e: "q = p \<longleftrightarrow> q div 8 = p div 8 \<and> q mod 8 = p mod 8" by (metis div_mult_mod_eq)
  have "bit ((2 :: byte) ^ (p mod 8)) (q mod 8) \<longleftrightarrow> q mod 8 = p mod 8"
    by (auto simp: bit_exp_iff)
  then show ?thesis
    using assms e by (auto simp: bit_at_bit set_bit_at_def nth_list_update bit_or_iff)
qed

lemma length_set_bit_at [simp]: "length (set_bit_at p bits) = length bits"
  by (simp add: set_bit_at_def)

lemma fold_set_bits:
  assumes "\<forall>p \<in> set ps. p div 8 < length bits"
  shows "bit_at q (foldl (\<lambda>bits p. set_bit_at p bits) bits ps) \<longleftrightarrow> bit_at q bits \<or> q \<in> set ps"
    and "length (foldl (\<lambda>bits p. set_bit_at p bits) bits ps) = length bits"
  using assms by (induction ps arbitrary: bits) (auto simp: bit_at_set)

lemma positions_in_range:
  assumes "bloom_ok f" "p \<in> set (bloom_positions py_hash f key)"
  shows "p div 8 < length (bl_bits f)"
proof -
  have "p < bl_m f" using assms by (auto simp: bloom_ok_def bloom_positions_def case_prod_beta Let_def)
  then show ?thesis using assms(1) by (simp add: bloom_ok_def)
qed

lemma bloom_ok_new: "0 < m \<Longrightarrow> bloom_ok (new_bloom m k)"
  by (simp add: bloom_ok_def new_bloom_def)

lemma bloom_add_simps [simp]: "bl_m (bloom_add h x f) = bl_m f" "bl_k (bloom_add h x f) = bl_k f"
  "bloom_positions h (bloom_add g x f) = bloom_positions h f"
  by (simp_all add: bloom_add_def bloom_positions_def fun_eq_iff)

lemma bloom_ok_add: "bloom_ok f \<Longrightarrow> bloom_ok (bloom_add h x f)"
  using fold_set_bits(2)[of "bloom_positions h f x" "bl_bits f"] positions_in_range[of f]
  by (simp add: bloom_ok_def bloom_add_def)

lemma bit_at_add:
  "bloom_ok f \<Longrightarrow> bit_at q (bl_bits (bloom_add h x f)) \<longleftrightarrow> bit_at q (bl_bits f) \<or> q \<in> set (bloom_positions h f x)"
  using fold_set_bits(1)[of "bloom_positions h f x" "bl_bits f" q] positions_in_range[of f]
  by (simp add: bloom_add_def)

section \<open>The interface\<close>

text \<open>
  A membership prefilter answers "maybe" for everything added to it. What it answers for the rest
  is free: that is all a caller that confirms every "maybe" needs.
\<close>

locale prefilter =
  fixes ok :: "'f \<Rightarrow> bool" and add :: "'a \<Rightarrow> 'f \<Rightarrow> 'f" and mem :: "'f \<Rightarrow> 'a \<Rightarrow> bool"
  assumes ok_add: "ok f \<Longrightarrow> ok (add x f)"
    and mem_add: "ok f \<Longrightarrow> mem (add x f) x"
    and mem_keeps: "ok f \<Longrightarrow> mem f y \<Longrightarrow> mem (add x f) y"
begin

lemma fold_add_ok: "ok f \<Longrightarrow> ok (foldl (\<lambda>f x. add x f) f xs)"
  by (induction xs arbitrary: f) (auto simp: ok_add)

lemma fold_add_keeps: "ok f \<Longrightarrow> mem f y \<Longrightarrow> mem (foldl (\<lambda>f x. add x f) f xs) y"
  by (induction xs arbitrary: f) (auto simp: ok_add mem_keeps)

lemma no_false_negatives: "ok f \<Longrightarrow> x \<in> set xs \<Longrightarrow> mem (foldl (\<lambda>f x. add x f) f xs) x"
proof (induction xs arbitrary: f)
  case Nil
  then show ?case by simp
next
  case (Cons y ys)
  then show ?case
    by (cases "x \<in> set ys") (auto simp: ok_add mem_add fold_add_keeps)
qed

text \<open>A look-up guarded by the prefilter is the look-up.\<close>

lemma guarded_lookup:
  "ok f \<Longrightarrow> (mem (foldl (\<lambda>f x. add x f) f xs) y \<and> y \<in> set xs) = (y \<in> set xs)"
  using no_false_negatives by blast

end

interpretation bloom: prefilter bloom_ok "bloom_add py_hash" "bloom_contains py_hash"
  by unfold_locales (auto simp: bloom_ok_add bloom_contains_def bit_at_add list_all_iff)

section \<open>Properties\<close>

text \<open>The filter has no false negative: whatever Python's hash function, the filter's size and the
  other keys added, a key that was added is found.\<close>

theorem bloom_no_false_negative:
  assumes "0 < m" "key \<in> set keys"
  shows "bloom_contains py_hash (foldl (\<lambda>f x. bloom_add py_hash x f) (new_bloom m k) keys) key"
  by (rule bloom.no_false_negatives[OF bloom_ok_new[OF assms(1)] assms(2)])

theorem bloom_no_false_negative_witness:
  "bloom_contains (\<lambda>s. - 5) (foldl (\<lambda>f x. bloom_add (\<lambda>s. - 5) x f) (new_bloom 9 2) [U ''com'', U ''org'']) (U ''org'')"
  by (rule bloom_no_false_negative) simp_all

end
