(* ===== verification/Rules.thy ===== *)
theory Rules
  imports Geo_Data Bloom "HOL-Library.Product_Lexorder"
begin

text \<open>
  Routing rules and their matching (core/router.py): the rule classes, the geosite tables with their
  Bloom prefilter, the geoip binary search, the regex literal prefilter, and \<open>Router\<close> itself.

  What lies outside the sources is collected in \<open>route_env\<close>: Python's string hash and the filter
  dimensions (see \<open>Bloom\<close>), and the regex engine. A compiled pattern is its top-level sequence of
  operations; a literal matches one character ignoring case, any other operation is given by the
  positions it can end at.
\<close>

section \<open>Regular expressions\<close>

datatype re_op = Lit nat | Op "pystr \<Rightarrow> nat \<Rightarrow> nat list"

fun re_ends :: "re_op list \<Rightarrow> pystr \<Rightarrow> nat \<Rightarrow> nat list" where
  "re_ends [] s i = [i]"
| "re_ends (Lit c # ops) s i =
     (if i < length s \<and> lower1 (s ! i) = lower1 c then re_ends ops s (Suc i) else [])"
| "re_ends (Op f # ops) s i = concat (map (re_ends ops s) (f s i))"

definition re_search :: "re_op list \<Rightarrow> pystr \<Rightarrow> bool" where
  "re_search ops s = list_ex (\<lambda>i. re_ends ops s i \<noteq> []) [0..<Suc (length s)]"

text \<open>\<open>_extract_literal\<close>: the longest run of top-level literals, kept if it has a dot and four characters.\<close>

fun literal_loop :: "re_op list \<Rightarrow> pystr \<Rightarrow> pystr \<Rightarrow> pystr" where
  "literal_loop [] cur best = (if length cur > length best then cur else best)"
| "literal_loop (Lit c # ops) cur best = literal_loop ops (cur @ [c]) best"
| "literal_loop (Op f # ops) cur best =
     literal_loop ops [] (if length cur > length best then cur else best)"

definition extract_literal :: "re_op list \<Rightarrow> pystr" where
  "extract_literal ops = (let best = py_lower (literal_loop ops [] []) in
     if 46 \<in> set best \<and> 4 \<le> length best then best else [])"

record route_env =
  rt_hash :: "pystr \<Rightarrow> int"
  rt_dims :: "nat \<Rightarrow> nat \<times> nat"
  rt_re :: "pystr \<Rightarrow> re_op list option"

definition route_env_ok :: "route_env \<Rightarrow> bool" where
  "route_env_ok e \<longleftrightarrow> (\<forall>n. 0 < fst (rt_dims e n))"

section \<open>Geosite tables\<close>

record geosite_tab =
  gs_exact :: "pystr list"
  gs_suffix :: "pystr list"
  gs_keywords :: "pystr list"
  gs_bloom :: "bloom option"

definition bloom_threshold :: nat where
  "bloom_threshold = 64"

fun add_entry :: "geosite_tab \<Rightarrow> geo_domain \<Rightarrow> geosite_tab" where
  "add_entry t (dtype, value) =
     (let v = py_lower value in
      if dtype = 3 then t\<lparr>gs_exact := List.insert v (gs_exact t)\<rparr>
      else if dtype = 2 then t\<lparr>gs_suffix := List.insert v (gs_suffix t)\<rparr>
      else if dtype = 0 then t\<lparr>gs_keywords := gs_keywords t @ [v]\<rparr>
      else t)"

definition geosite_table :: "route_env \<Rightarrow> geo_domain list \<Rightarrow> geosite_tab" where
  "geosite_table e entries =
     (let t = foldl add_entry \<lparr>gs_exact = [], gs_suffix = [], gs_keywords = [], gs_bloom = None\<rparr> entries;
          n = length (gs_suffix t)
      in if n \<ge> bloom_threshold then
           t\<lparr>gs_bloom := Some (foldl (\<lambda>f x. bloom_add (rt_hash e) x f)
                (new_bloom (fst (rt_dims e n)) (snd (rt_dims e n))) (gs_suffix t))\<rparr>
         else t)"

datatype hit = Miss | Hit | Detail pystr

text \<open>\<open>host.rfind('.', 0, end)\<close>\<close>

definition rfind_dot :: "pystr \<Rightarrow> nat \<Rightarrow> nat option" where
  "rfind_dot host e = find (\<lambda>i. host ! i = 46) (rev [0..<min e (length host)])"

lemma find_SomeD': "find P xs = Some x \<Longrightarrow> P x \<and> x \<in> set xs"
  by (induction xs) (auto split: if_splits)

lemma rfind_dot_Some: "rfind_dot host e = Some p \<Longrightarrow> p < e \<and> p < length host \<and> host ! p = 46"
  by (auto simp: rfind_dot_def dest!: find_SomeD')

lemma rfind_dot_None: "rfind_dot host e = None \<longleftrightarrow> (\<forall>i < min e (length host). host ! i \<noteq> 46)"
  by (auto simp: rfind_dot_def find_None_iff)

lemma rfind_dot_last: "rfind_dot host e = Some p \<Longrightarrow> p < i \<Longrightarrow> i < e \<Longrightarrow> i < length host \<Longrightarrow> host ! i \<noteq> 46"
proof -
  have "find (\<lambda>i. f i = c) (rev [0..<n]) = Some p \<Longrightarrow> p < i \<Longrightarrow> i < n \<Longrightarrow> f i \<noteq> c"
    for f :: "nat \<Rightarrow> nat" and c n
    by (induction n) (auto split: if_splits simp: less_Suc_eq)
  then show "rfind_dot host e = Some p \<Longrightarrow> p < i \<Longrightarrow> i < e \<Longrightarrow> i < length host \<Longrightarrow> host ! i \<noteq> 46"
    unfolding rfind_dot_def by (metis min_less_iff_conj)
qed

text \<open>The suffixes after a dot, from the last dot backwards, with the filter asked first.\<close>

function suffix_loop :: "(pystr \<Rightarrow> bool) \<Rightarrow> pystr list \<Rightarrow> pystr \<Rightarrow> nat \<Rightarrow> pystr option" where
  "suffix_loop maybe sufs host e =
     (case rfind_dot host e of
        None \<Rightarrow> None
      | Some p \<Rightarrow>
         (let sfx = drop (p + 1) host in
          if \<not> maybe sfx then suffix_loop maybe sufs host p
          else if sfx \<in> set sufs then Some sfx
          else suffix_loop maybe sufs host p))"
  by pat_completeness auto
termination
  by (relation "measure (\<lambda>(m, s, h, e). e)") (auto dest: rfind_dot_Some)

declare suffix_loop.simps [simp del]

fun keyword_loop :: "pystr list \<Rightarrow> pystr \<Rightarrow> hit" where
  "keyword_loop [] host = Miss"
| "keyword_loop (kw # kws) host = (if contains kw host then Detail (U ''keyword '' @ kw) else keyword_loop kws host)"

definition geosite_inner :: "route_env \<Rightarrow> geosite_tab \<Rightarrow> pystr \<Rightarrow> hit" where
  "geosite_inner e t host =
     (if host \<in> set (gs_exact t) then Detail (U ''exact '' @ host)
      else case (if gs_suffix t \<noteq> [] then
              suffix_loop (\<lambda>s. case gs_bloom t of None \<Rightarrow> True | Some f \<Rightarrow> bloom_contains (rt_hash e) f s)
                (gs_suffix t) host (length host)
            else None) of
          Some sfx \<Rightarrow> Detail (U ''suffix '' @ sfx)
        | None \<Rightarrow> keyword_loop (gs_keywords t) host)"

section \<open>Geoip tables\<close>

record geoip_tab =
  gi_v4 :: "(nat \<times> nat) list"
  gi_v6 :: "ip_net list"
  gi_inverse :: bool

fun v4_range :: "ip_net \<Rightarrow> (nat \<times> nat) list" where
  "v4_range (Net4 b p) = [(b, b + 2 ^ (32 - p) - 1)]"
| "v4_range (Net6 b p) = []"

fun is_net6 :: "ip_net \<Rightarrow> bool" where
  "is_net6 (Net6 b p) = True"
| "is_net6 (Net4 b p) = False"

definition geoip_table :: "ip_net list \<Rightarrow> bool \<Rightarrow> geoip_tab" where
  "geoip_table networks neg = \<lparr>gi_v4 = sort (concat (map v4_range networks)), gi_v6 = filter is_net6 networks,
     gi_inverse = neg\<rparr>"

function v4_search :: "(nat \<times> nat) list \<Rightarrow> nat \<Rightarrow> int \<Rightarrow> int \<Rightarrow> int \<Rightarrow> int" where
  "v4_search v4 a lo hi best =
     (if lo \<le> hi then
        let mid = (lo + hi) div 2 in
        if fst (v4 ! nat mid) \<le> a then v4_search v4 a (mid + 1) hi mid
        else v4_search v4 a lo (mid - 1) best
      else best)"
  by pat_completeness auto
termination
  by (relation "measure (\<lambda>(v4, a, lo, hi, best). nat (hi - lo + 1))") auto

declare v4_search.simps [simp del]

text \<open>The backward scan; the argument is the index plus one.\<close>

fun v4_scan :: "(nat \<times> nat) list \<Rightarrow> nat \<Rightarrow> nat \<Rightarrow> bool" where
  "v4_scan v4 a 0 = False"
| "v4_scan v4 a (Suc i) =
     (if fst (v4 ! i) \<le> a then (if snd (v4 ! i) \<ge> a then True else v4_scan v4 a i) else False)"

definition v4_contains :: "(nat \<times> nat) list \<Rightarrow> nat \<Rightarrow> bool" where
  "v4_contains v4 a = v4_scan v4 a (nat (v4_search v4 a 0 (int (length v4) - 1) (- 1) + 1))"

definition geoip_inner :: "geoip_tab \<Rightarrow> ip_addr option \<Rightarrow> hit" where
  "geoip_inner t addr = (case addr of None \<Rightarrow> Miss
     | Some ad \<Rightarrow>
        (let inside = (case ad of V4 n \<Rightarrow> v4_contains (gi_v4 t) n
               | V6 n \<Rightarrow> list_ex (addr_in_net (V6 n)) (gi_v6 t))
         in if inside \<noteq> gi_inverse t then Hit else Miss))"

section \<open>Rules\<close>

datatype rule = Rule (r_action: pystr) (r_desc: pystr) (r_invert: bool) (r_kind: rule_kind)
and rule_kind =
    KExact pystr | KSuffix pystr pystr | KKeyword pystr | KRegex pystr "re_op list" | KCidr ip_net
  | KGeosite geosite_tab | KGeoip geoip_tab | KAnd "rule list list"

definition of_bool_hit :: "bool \<Rightarrow> hit" where
  "of_bool_hit b = (if b then Hit else Miss)"

fun matches :: "route_env \<Rightarrow> rule \<Rightarrow> pystr \<Rightarrow> ip_addr option \<Rightarrow> hit"
and inner :: "route_env \<Rightarrow> rule_kind \<Rightarrow> pystr \<Rightarrow> ip_addr option \<Rightarrow> hit" where
  "matches e (Rule a d invert k) host addr =
     (let raw = inner e k host addr in
      if invert then (if raw \<noteq> Miss then Miss else Hit) else raw)"
| "inner e (KExact d) host addr = of_bool_hit (host = d)"
| "inner e (KSuffix d dot) host addr = of_bool_hit (host = d \<or> suffix dot host)"
| "inner e (KKeyword k) host addr = of_bool_hit (contains k host)"
| "inner e (KRegex lit pat) host addr =
     (if lit \<noteq> [] \<and> \<not> contains lit host then Miss else of_bool_hit (re_search pat host))"
| "inner e (KCidr net) host addr = of_bool_hit (case addr of None \<Rightarrow> False | Some a \<Rightarrow> addr_in_net a net)"
| "inner e (KGeosite t) host addr = geosite_inner e t host"
| "inner e (KGeoip t) host addr = geoip_inner t addr"
| "inner e (KAnd groups) host addr =
     of_bool_hit (list_all (\<lambda>g. list_ex (\<lambda>r. matches e r host addr \<noteq> Miss) g) groups)"

definition exact_rule :: "pystr \<Rightarrow> pystr \<Rightarrow> bool \<Rightarrow> rule" where
  "exact_rule domain action invert = Rule action (U ''DOMAIN '' @ domain) invert (KExact (py_lower domain))"

definition suffix_rule :: "pystr \<Rightarrow> pystr \<Rightarrow> bool \<Rightarrow> rule" where
  "suffix_rule domain action invert =
     (let d = dropWhile (\<lambda>c. c = 46) (py_lower domain) in
      Rule action (U ''DOMAIN-SUFFIX '' @ domain) invert (KSuffix d (46 # d)))"

definition keyword_rule :: "pystr \<Rightarrow> pystr \<Rightarrow> bool \<Rightarrow> rule" where
  "keyword_rule keyword action invert = Rule action (U ''DOMAIN-KEYWORD '' @ keyword) invert (KKeyword (py_lower keyword))"

definition regex_rule :: "pystr \<Rightarrow> pystr \<Rightarrow> re_op list \<Rightarrow> bool \<Rightarrow> rule" where
  "regex_rule pattern action compiled invert =
     Rule action (U ''DOMAIN-REGEX '' @ pattern) invert (KRegex (extract_literal compiled) compiled)"

definition cidr_rule :: "pystr \<Rightarrow> pystr \<Rightarrow> ip_net \<Rightarrow> bool \<Rightarrow> rule" where
  "cidr_rule cidr action net invert = Rule action (U ''IP-CIDR '' @ cidr) invert (KCidr net)"

definition geosite_rule :: "route_env \<Rightarrow> pystr \<Rightarrow> pystr \<Rightarrow> geo_domain list \<Rightarrow> bool \<Rightarrow> rule" where
  "geosite_rule e tag action entries invert =
     Rule action (U ''GEOSITE '' @ tag) invert (KGeosite (geosite_table e entries))"

definition geoip_rule :: "pystr \<Rightarrow> pystr \<Rightarrow> ip_net list \<Rightarrow> bool \<Rightarrow> bool \<Rightarrow> rule" where
  "geoip_rule code action networks neg invert =
     Rule action (U ''GEOIP '' @ (if neg then [33] else []) @ code) invert (KGeoip (geoip_table networks neg))"

definition and_rule :: "rule list list \<Rightarrow> pystr \<Rightarrow> pystr \<Rightarrow> bool \<Rightarrow> rule" where
  "and_rule groups action desc invert = Rule action desc invert (KAnd groups)"

section \<open>The router\<close>

record router =
  ro_default :: pystr
  ro_rules :: "rule list"
  ro_next_idx :: nat

definition new_router :: "pystr \<Rightarrow> router" where
  "new_router d = \<lparr>ro_default = d, ro_rules = [], ro_next_idx = 1\<rparr>"

definition router_add :: "rule \<Rightarrow> router \<Rightarrow> router" where
  "router_add r ro = (case r of Rule a d i k \<Rightarrow>
     ro\<lparr>ro_rules := ro_rules ro @ [Rule a (U ''#'' @ show_nat (ro_next_idx ro) @ U '' '' @ d) i k],
        ro_next_idx := ro_next_idx ro + 1\<rparr>)"

definition set_default :: "pystr \<Rightarrow> router \<Rightarrow> router" where
  "set_default a ro = ro\<lparr>ro_default := a\<rparr>"

fun first_match :: "route_env \<Rightarrow> rule list \<Rightarrow> pystr \<Rightarrow> ip_addr option \<Rightarrow> (pystr \<times> pystr) option" where
  "first_match e [] h addr = None"
| "first_match e (r # rs) h addr =
     (case matches e r h addr of
        Miss \<Rightarrow> first_match e rs h addr
      | Detail d \<Rightarrow> Some (r_action r, r_desc r @ U '' ('' @ d @ U '')'')
      | Hit \<Rightarrow> Some (r_action r, r_desc r))"

definition normal_host :: "pystr \<Rightarrow> pystr" where
  "normal_host host = rdropWhile (\<lambda>c. c = 46) (py_lower host)"

definition router_match :: "route_env \<Rightarrow> router \<Rightarrow> pystr \<Rightarrow> pystr \<times> pystr" where
  "router_match e ro host =
     (let h = normal_host host; addr = ip_address h in
      case first_match e (ro_rules ro) h addr of
        Some x \<Rightarrow> x
      | None \<Rightarrow> (ro_default ro, U ''FINAL''))"

text \<open>The read-only view for the Clash API.\<close>

definition clash_types :: "(pystr \<times> pystr) list" where
  "clash_types = map (\<lambda>(a, b). (U a, U b))
     [(''DOMAIN'', ''Domain''), (''DOMAIN-SUFFIX'', ''DomainSuffix''), (''DOMAIN-KEYWORD'', ''DomainKeyword''),
      (''DOMAIN-REGEX'', ''DomainRegex''), (''IP-CIDR'', ''IPCIDR''), (''IPCIDR'', ''IPCIDR''),
      (''GEOIP'', ''GeoIP''), (''GEOSITE'', ''GeoSite''), (''FINAL'', ''Match''), (''PORT'', ''DstPort''),
      (''SRC-PORT'', ''SrcPort''), (''PROCESS-NAME'', ''ProcessName'')]"

definition clash_rule_type :: "pystr \<Rightarrow> pystr" where
  "clash_rule_type raw = (case map_of clash_types (py_upper raw) of Some t \<Rightarrow> t | None \<Rightarrow> raw)"

record rule_view =
  rv_type :: pystr
  rv_payload :: pystr
  rv_proxy :: pystr
  rv_invert :: bool

definition view_rule :: "rule \<Rightarrow> rule_view" where
  "view_rule r =
     (let (kind_raw, payload) = (case split_max 32 2 (r_desc r) of
          a # b # c # xs \<Rightarrow> (b, c) | [a, b] \<Rightarrow> (b, []) | _ \<Rightarrow> (r_desc r, []))
      in \<lparr>rv_type = clash_rule_type kind_raw, rv_payload = payload, rv_proxy = r_action r, rv_invert = r_invert r\<rparr>)"

definition router_rules :: "router \<Rightarrow> rule_view list" where
  "router_rules ro = map view_rule (ro_rules ro)"

section \<open>The geoip search\<close>

lemma v4_search_spec:
  assumes "\<And>i j. i \<le> j \<Longrightarrow> j < length v4 \<Longrightarrow> fst (v4 ! i) \<le> fst (v4 ! j)"
    and "0 \<le> lo" "hi < int (length v4)" "lo \<le> hi + 1" "best = lo - 1"
    and "\<And>j. int j < lo \<Longrightarrow> fst (v4 ! j) \<le> a"
    and "\<And>j. hi < int j \<Longrightarrow> j < length v4 \<Longrightarrow> a < fst (v4 ! j)"
  shows "\<exists>r. v4_search v4 a lo hi best = r \<and> - 1 \<le> r \<and> r < int (length v4)
    \<and> (\<forall>j. int j \<le> r \<longrightarrow> fst (v4 ! j) \<le> a) \<and> (\<forall>j < length v4. r < int j \<longrightarrow> a < fst (v4 ! j))"
  using assms
proof (induction v4 a lo hi best rule: v4_search.induct)
  case (1 v4 a lo hi best)
  show ?case
  proof (cases "lo \<le> hi")
    case False
    then show ?thesis using 1(4-9) by (subst v4_search.simps) (auto intro: 1(8,9))
  next
    case True
    let ?m = "(lo + hi) div 2"
    have m: "lo \<le> ?m" "?m \<le> hi" "0 \<le> ?m" using True 1(4) by linarith+
    show ?thesis
    proof (cases "fst (v4 ! nat ?m) \<le> a")
      case True
      have "fst (v4 ! j) \<le> a" if "int j < ?m + 1" for j
      proof -
        have "j \<le> nat ?m" "nat ?m < length v4" using that m 1(5) by linarith+
        then show ?thesis using 1(3)[of j "nat ?m"] True by linarith
      qed
      then show ?thesis
        using 1(1)[OF \<open>lo \<le> hi\<close> refl True 1(3)] m 1(5,9) \<open>lo \<le> hi\<close> True
        by (subst v4_search.simps) (simp add: Let_def)
    next
      case False
      have "a < fst (v4 ! j)" if "?m - 1 < int j" "j < length v4" for j
      proof -
        have "nat ?m \<le> j" using that m by linarith
        then show ?thesis using 1(3)[of "nat ?m" j] that False by linarith
      qed
      then show ?thesis
        using 1(2)[OF \<open>lo \<le> hi\<close> refl False 1(3)] m 1(4-8) \<open>lo \<le> hi\<close> False
        by (subst v4_search.simps) (simp add: Let_def)
    qed
  qed
qed

lemma v4_scan_spec: "(\<And>j. j < n \<Longrightarrow> fst (v4 ! j) \<le> a) \<Longrightarrow> v4_scan v4 a n \<longleftrightarrow> (\<exists>j < n. a \<le> snd (v4 ! j))"
  by (induction n) (auto simp: less_Suc_eq)

lemma v4_contains_sorted:
  assumes "sorted v4"
  shows "v4_contains v4 a \<longleftrightarrow> (\<exists>(s, e) \<in> set v4. s \<le> a \<and> a \<le> e)"
proof -
  have mono: "fst (v4 ! i) \<le> fst (v4 ! j)" if "i \<le> j" "j < length v4" for i j
    using sorted_nth_mono[OF assms that] by (auto simp: less_eq_prod_def)
  obtain r where r: "v4_search v4 a 0 (int (length v4) - 1) (- 1) = r" "- 1 \<le> r" "r < int (length v4)"
    "\<And>j. int j \<le> r \<Longrightarrow> fst (v4 ! j) \<le> a" "\<And>j. j < length v4 \<Longrightarrow> r < int j \<Longrightarrow> a < fst (v4 ! j)"
  proof -
    have "\<exists>r. v4_search v4 a 0 (int (length v4) - 1) (- 1) = r \<and> - 1 \<le> r \<and> r < int (length v4)
      \<and> (\<forall>j. int j \<le> r \<longrightarrow> fst (v4 ! j) \<le> a) \<and> (\<forall>j < length v4. r < int j \<longrightarrow> a < fst (v4 ! j))"
      by (rule v4_search_spec) (use mono in auto)
    then show thesis using that by blast
  qed
  have "v4_contains v4 a \<longleftrightarrow> (\<exists>j < nat (r + 1). a \<le> snd (v4 ! j))"
    unfolding v4_contains_def r(1) by (rule v4_scan_spec) (use r in auto)
  also have "\<dots> \<longleftrightarrow> (\<exists>j < length v4. fst (v4 ! j) \<le> a \<and> a \<le> snd (v4 ! j))"
  proof -
    have "j < nat (r + 1) \<longleftrightarrow> j < length v4 \<and> fst (v4 ! j) \<le> a" for j
    proof (cases "int j \<le> r")
      case True
      then show ?thesis using r(3) r(4)[OF True] by linarith
    next
      case False
      then show ?thesis using r(5)[of j] by linarith
    qed
    then show ?thesis by blast
  qed
  also have "\<dots> \<longleftrightarrow> (\<exists>x \<in> set v4. fst x \<le> a \<and> a \<le> snd x)" by (metis in_set_conv_nth)
  finally show ?thesis by (simp add: case_prod_beta)
qed

section \<open>The regex prefilter\<close>

lemma re_ends_lits: "re_ends (map Lit cs @ ops) s i \<noteq> [] \<Longrightarrow> map lower1 cs = map lower1 (take (length cs) (drop i s))"
proof (induction cs arbitrary: i)
  case Nil
  then show ?case by simp
next
  case (Cons c cs)
  then show ?case by (auto simp: Cons_nth_drop_Suc[symmetric] split: if_splits)
qed

lemma re_ends_append: "re_ends (ops @ ops') s i \<noteq> [] \<Longrightarrow> \<exists>j. re_ends ops' s j \<noteq> []"
  by (induction ops s i rule: re_ends.induct) (auto split: if_splits)

lemma literal_loop_run:
  assumes "all = pre @ map Lit cur @ ops" "\<exists>p q. all = p @ map Lit best @ q"
  shows "\<exists>p q. all = p @ map Lit (literal_loop ops cur best) @ q"
  using assms
proof (induction ops cur best arbitrary: pre rule: literal_loop.induct)
  case (1 cur best)
  show ?case
  proof (cases "length best < length cur")
    case True
    then show ?thesis using 1(1) by (intro exI[of _ pre] exI[of _ "[]"]) simp
  next
    case False
    then show ?thesis using 1(2) by simp
  qed
next
  case (2 c ops cur best)
  show ?case using 2(1)[of pre] 2(2,3) by simp
next
  case (3 f ops cur best)
  have "\<exists>p q. all = p @ map Lit (if length best < length cur then cur else best) @ q"
    using 3(2,3) by auto
  then show ?case using 3(1)[of "pre @ map Lit cur @ [Op f]"] 3(2) by simp
qed

lemma literal_in_match:
  assumes "re_search ops s"
  shows "sublist (extract_literal ops) (py_lower s)"
proof (cases "extract_literal ops = []")
  case False
  let ?l = "literal_loop ops [] []"
  have e: "extract_literal ops = map lower1 ?l" using False by (simp add: extract_literal_def py_lower_def Let_def split: if_splits)
  obtain p q where pq: "ops = p @ map Lit ?l @ q"
    using literal_loop_run[of ops "[]" "[]" ops "[]"] by auto
  obtain i where "re_ends ops s i \<noteq> []" using assms by (auto simp: re_search_def list_ex_iff)
  then obtain j where "re_ends (map Lit ?l @ q) s j \<noteq> []"
    using re_ends_append[of p "map Lit ?l @ q" s i] pq by auto
  then have "map lower1 ?l = map lower1 (take (length ?l) (drop j s))" by (rule re_ends_lits)
  moreover have "sublist (map lower1 (take (length ?l) (drop j s))) (map lower1 s)"
    by (intro map_mono_sublist) (unfold sublist_def, metis append_take_drop_id)
  ultimately show ?thesis by (simp add: e py_lower_def)
qed simp

section \<open>The geosite tables\<close>

lemma suffix_loop_cong:
  "(\<And>x. x \<in> set sufs \<Longrightarrow> m x) \<Longrightarrow> suffix_loop m sufs host e = suffix_loop (\<lambda>_. True) sufs host e"
proof (induction m sufs host e rule: suffix_loop.induct)
  case (1 m sufs host e)
  show ?case
  proof (cases "rfind_dot host e")
    case None
    then show ?thesis by (simp add: suffix_loop.simps)
  next
    case (Some p)
    show ?thesis
    proof (cases "drop (p + 1) host \<in> set sufs")
      case True
      then show ?thesis using Some 1(3)[OF True] by (subst (1 2) suffix_loop.simps) simp
    next
      case False
      have "suffix_loop m sufs host p = suffix_loop (\<lambda>_. True) sufs host p"
        using 1 Some False by (cases "m (drop (p + 1) host)") auto
      then show ?thesis using Some False by (subst (1 2) suffix_loop.simps) (simp add: Let_def)
    qed
  qed
qed

lemma suffix_loop_iff:
  "suffix_loop (\<lambda>_. True) sufs host e \<noteq> None \<longleftrightarrow>
     (\<exists>p < min e (length host). host ! p = 46 \<and> drop (p + 1) host \<in> set sufs)"
proof (induction "(\<lambda>_ :: pystr. True)" sufs host e rule: suffix_loop.induct)
  case (1 sufs host e)
  show ?case
  proof (cases "rfind_dot host e")
    case None
    have "suffix_loop (\<lambda>_. True) sufs host e = None" by (subst suffix_loop.simps) (simp add: None)
    then show ?thesis using None by (auto simp: rfind_dot_None)
  next
    case (Some p)
    note p = rfind_dot_Some[OF Some]
    have last: "q \<le> p" if "q < min e (length host)" "host ! q = 46" for q
      using rfind_dot_last[OF Some, of q] that by force
    show ?thesis
    proof (cases "drop (p + 1) host \<in> set sufs")
      case True
      then show ?thesis using Some p by (subst suffix_loop.simps) auto
    next
      case False
      then have "suffix_loop (\<lambda>_. True) sufs host e = suffix_loop (\<lambda>_. True) sufs host p"
        using Some by (subst suffix_loop.simps) simp
      moreover have "(\<exists>q < min p (length host). host ! q = 46 \<and> drop (q + 1) host \<in> set sufs) \<longleftrightarrow>
          (\<exists>q < min e (length host). host ! q = 46 \<and> drop (q + 1) host \<in> set sufs)"
      proof (intro iffI; elim exE conjE)
        fix q assume q: "q < min e (length host)" "host ! q = 46" "drop (q + 1) host \<in> set sufs"
        then have "q < p" using last[OF q(1,2)] False by (cases "q = p") auto
        then show "\<exists>q < min p (length host). host ! q = 46 \<and> drop (q + 1) host \<in> set sufs" using q by auto
      next
        fix q assume "q < min p (length host)" "host ! q = 46" "drop (q + 1) host \<in> set sufs"
        then show "\<exists>q < min e (length host). host ! q = 46 \<and> drop (q + 1) host \<in> set sufs"
          using p by (intro exI[of _ q]) auto
      qed
      ultimately show ?thesis using 1(2)[OF Some refl _ False] by simp
    qed
  qed
qed

lemma suffix_after_dot:
  "(\<exists>p < length host. host ! p = 46 \<and> drop (p + 1) host = v) \<longleftrightarrow> suffix (46 # v) host"
proof
  assume "\<exists>p < length host. host ! p = 46 \<and> drop (p + 1) host = v"
  then obtain p where "p < length host" "host ! p = 46" "drop (p + 1) host = v" by blast
  then have "drop p host = 46 # v" by (metis Cons_nth_drop_Suc Suc_eq_plus1)
  then show "suffix (46 # v) host" by (metis suffix_drop)
next
  assume "suffix (46 # v) host"
  then obtain ys where "host = ys @ 46 # v" by (auto simp: suffix_def)
  then show "\<exists>p < length host. host ! p = 46 \<and> drop (p + 1) host = v"
    by (intro exI[of _ "length ys"]) simp
qed

lemma add_entry_sets:
  "set (gs_exact (add_entry t (k, v))) = set (gs_exact t) \<union> (if k = 3 then {py_lower v} else {})"
  "set (gs_suffix (add_entry t (k, v))) = set (gs_suffix t) \<union> (if k = 2 then {py_lower v} else {})"
  "set (gs_keywords (add_entry t (k, v))) = set (gs_keywords t) \<union> (if k = 0 then {py_lower v} else {})"
  "gs_bloom (add_entry t (k, v)) = gs_bloom t"
  by (auto simp: Let_def)

lemma add_entries_sets:
  "set (gs_exact (foldl add_entry t es)) = set (gs_exact t) \<union> {py_lower v |v. (3, v) \<in> set es}"
  "set (gs_suffix (foldl add_entry t es)) = set (gs_suffix t) \<union> {py_lower v |v. (2, v) \<in> set es}"
  "set (gs_keywords (foldl add_entry t es)) = set (gs_keywords t) \<union> {py_lower v |v. (0, v) \<in> set es}"
  "gs_bloom (foldl add_entry t es) = gs_bloom t"
proof -
  have u: "{py_lower v |v. (k, v) \<in> set ((j, w) # es)} = (if j = k then {py_lower w} else {}) \<union> {py_lower v |v. (k, v) \<in> set es}"
    for k j :: nat and w es by auto
  show "set (gs_exact (foldl add_entry t es)) = set (gs_exact t) \<union> {py_lower v |v. (3, v) \<in> set es}"
  proof (induction es arbitrary: t)
    case (Cons e es)
    then show ?case by (cases e) (simp only: foldl_Cons u add_entry_sets Un_assoc)
  qed simp
  show "set (gs_suffix (foldl add_entry t es)) = set (gs_suffix t) \<union> {py_lower v |v. (2, v) \<in> set es}"
  proof (induction es arbitrary: t)
    case (Cons e es)
    then show ?case by (cases e) (simp only: foldl_Cons u add_entry_sets Un_assoc)
  qed simp
  show "set (gs_keywords (foldl add_entry t es)) = set (gs_keywords t) \<union> {py_lower v |v. (0, v) \<in> set es}"
  proof (induction es arbitrary: t)
    case (Cons e es)
    then show ?case by (cases e) (simp only: foldl_Cons u add_entry_sets Un_assoc)
  qed simp
  show "gs_bloom (foldl add_entry t es) = gs_bloom t"
  proof (induction es arbitrary: t)
    case (Cons e es)
    then show ?case by (cases e) (simp only: foldl_Cons add_entry_sets)
  qed simp
qed

lemma keyword_loop_iff: "keyword_loop kws host \<noteq> Miss \<longleftrightarrow> (\<exists>k \<in> set kws. contains k host)"
  by (induction kws) auto

lemma geosite_inner_iff:
  assumes "\<And>x f. gs_bloom t = Some f \<Longrightarrow> x \<in> set (gs_suffix t) \<Longrightarrow> bloom_contains (rt_hash e) f x"
  shows "geosite_inner e t host \<noteq> Miss \<longleftrightarrow> host \<in> set (gs_exact t)
    \<or> (\<exists>v \<in> set (gs_suffix t). suffix (46 # v) host) \<or> (\<exists>k \<in> set (gs_keywords t). contains k host)"
proof -
  let ?m = "\<lambda>s. case gs_bloom t of None \<Rightarrow> True | Some f \<Rightarrow> bloom_contains (rt_hash e) f s"
  have "suffix_loop ?m (gs_suffix t) host (length host) = suffix_loop (\<lambda>_. True) (gs_suffix t) host (length host)"
    by (rule suffix_loop_cong) (use assms in \<open>auto split: option.split\<close>)
  moreover have "suffix_loop (\<lambda>_. True) (gs_suffix t) host (length host) \<noteq> None \<longleftrightarrow>
      (\<exists>v \<in> set (gs_suffix t). suffix (46 # v) host)"
    unfolding suffix_loop_iff by (auto simp: suffix_after_dot[symmetric])
  ultimately show ?thesis
    using keyword_loop_iff[of "gs_keywords t" host]
    by (auto simp: geosite_inner_def split: option.splits if_splits)
qed

lemma geosite_table_bloom:
  assumes "route_env_ok e" "gs_bloom (geosite_table e entries) = Some f" "x \<in> set (gs_suffix (geosite_table e entries))"
  shows "bloom_contains (rt_hash e) f x"
  using assms bloom.no_false_negatives[OF bloom_ok_new]
  by (auto simp: geosite_table_def Let_def add_entries_sets(4) route_env_ok_def split: if_splits)

lemma geosite_table_sets:
  "set (gs_exact (geosite_table e es)) = {py_lower v |v. (3, v) \<in> set es}"
  "set (gs_suffix (geosite_table e es)) = {py_lower v |v. (2, v) \<in> set es}"
  "set (gs_keywords (geosite_table e es)) = {py_lower v |v. (0, v) \<in> set es}"
  by (auto simp: geosite_table_def Let_def add_entries_sets)

lemma v4_ranges:
  "(\<exists>(s, t) \<in> set (concat (map v4_range nets)). s \<le> a \<and> a \<le> t) \<longleftrightarrow>
     (\<exists>b p. Net4 b p \<in> set nets \<and> b \<le> a \<and> a \<le> b + 2 ^ (32 - p) - 1)"
proof (induction nets)
  case Nil
  then show ?case by simp
next
  case (Cons n nets)
  then show ?case by (cases n) auto
qed

section \<open>Properties\<close>

text \<open>Routing takes the first rule that matches, in configuration order, and the default only when
  none does; host case and trailing dots do not matter.\<close>

theorem router_takes_first_match:
  "fst (router_match e ro host) =
    (case find (\<lambda>r. matches e r (normal_host host) (ip_address (normal_host host)) \<noteq> Miss) (ro_rules ro) of
       Some r \<Rightarrow> r_action r
     | None \<Rightarrow> ro_default ro)"
proof -
  have "first_match e rs h addr = (case find (\<lambda>r. matches e r h addr \<noteq> Miss) rs of None \<Rightarrow> None
      | Some r \<Rightarrow> Some (r_action r, case matches e r h addr of Detail d \<Rightarrow> r_desc r @ U '' ('' @ d @ U '')''
          | _ \<Rightarrow> r_desc r))" for rs h addr
    by (induction rs) (auto split: hit.split)
  then show ?thesis by (simp add: router_match_def Let_def split: option.split)
qed

text \<open>C12: A geosite rule matches exactly the hosts its entries describe: a full entry the host itself, a
  domain entry the hosts below it, a keyword entry the hosts containing it. The Bloom filter, the
  search order and duplicates never change the verdict.\<close>

theorem geosite_rule_matches_iff:
  assumes "route_env_ok e"
  shows "matches e (geosite_rule e tag act entries False) host addr \<noteq> Miss \<longleftrightarrow>
    (\<exists>v. (3, v) \<in> set entries \<and> host = py_lower v)
    \<or> (\<exists>v. (2, v) \<in> set entries \<and> suffix (46 # py_lower v) host)
    \<or> (\<exists>v. (0, v) \<in> set entries \<and> contains (py_lower v) host)"
  using geosite_inner_iff[of "geosite_table e entries" e host] geosite_table_bloom[OF assms, of entries]
  by (auto simp: geosite_rule_def Let_def geosite_table_sets)

definition plain_env :: route_env where
  "plain_env = \<lparr>rt_hash = (\<lambda>s. 7), rt_dims = (\<lambda>n. (10 * n + 1, 3)), rt_re = (\<lambda>p. None)\<rparr>"

lemma plain_env_ok: "route_env_ok plain_env"
  by (simp add: route_env_ok_def plain_env_def)

theorem geosite_rule_matches_iff_witness:
  "matches plain_env (geosite_rule plain_env (U ''s:t'') (U ''p'') [(2, U ''b.c'')] False) (U ''a.b.c'') None \<noteq> Miss"
  using geosite_rule_matches_iff[OF plain_env_ok, of "U ''s:t''" "U ''p''" "[(2, U ''b.c'')]" "U ''a.b.c''" None]
  by (auto simp: U_def py_lower_def lower1_def suffix_def)

text \<open>A domain entry of a geosite list never matches the domain itself, only names below it, while
  the DOMAIN-SUFFIX rule for the same name does match it.\<close>

theorem geosite_misses_apex:
  assumes "route_env_ok e" "take 1 (py_lower d) \<noteq> [46]"
  shows "matches e (geosite_rule e tag act [(2, d)] False) (py_lower d) addr = Miss
    \<and> matches e (suffix_rule d act False) (py_lower d) addr = Hit"
proof -
  have "\<not> suffix (46 # py_lower d) (py_lower d)" by (auto dest: suffix_length_le)
  then have "matches e (geosite_rule e tag act [(2, d)] False) (py_lower d) addr = Miss"
    using geosite_inner_iff[of "geosite_table e [(2, d)]" e "py_lower d"] geosite_table_bloom[OF assms(1), of "[(2, d)]"]
    by (auto simp: geosite_rule_def Let_def geosite_table_sets)
  moreover have "dropWhile (\<lambda>c. c = 46) (py_lower d) = py_lower d"
    using assms(2) by (cases "py_lower d") auto
  ultimately show ?thesis by (simp add: suffix_rule_def of_bool_hit_def Let_def)
qed

theorem geosite_misses_apex_witness:
  "matches plain_env (geosite_rule plain_env (U ''s:t'') (U ''p'') [(2, U ''Ab.c'')] False) (py_lower (U ''Ab.c'')) None = Miss
    \<and> matches plain_env (suffix_rule (U ''Ab.c'') (U ''p'') False) (py_lower (U ''Ab.c'')) None = Hit"
  by (rule geosite_misses_apex[OF plain_env_ok]) (simp add: U_def py_lower_def lower1_def)

text \<open>C13: The geoip rule's binary search with its backward scan decides membership in the listed
  networks, overlapping or nested, exactly as scanning all of them would.\<close>

theorem geoip_search_correct:
  "matches e (geoip_rule code act nets neg False) host (Some (V4 a)) = Hit \<longleftrightarrow>
    (\<exists>b p. Net4 b p \<in> set nets \<and> b \<le> a \<and> a \<le> b + 2 ^ (32 - p) - 1) \<noteq> neg"
proof -
  have "v4_contains (gi_v4 (geoip_table nets neg)) a \<longleftrightarrow>
      (\<exists>(s, t) \<in> set (concat (map v4_range nets)). s \<le> a \<and> a \<le> t)"
    by (simp add: geoip_table_def v4_contains_sorted)
  then show ?thesis
    unfolding v4_ranges by (auto simp: geoip_rule_def geoip_inner_def Let_def geoip_table_def)
qed

text \<open>The literal prefilter never rejects a host the pattern would match: a regex rule gives the
  verdict of the regex engine on every lower-case host, whatever the non-literal parts do.\<close>

theorem regex_prefilter_sound:
  assumes "py_lower host = host"
  shows "matches e (regex_rule pat act ops False) host addr = of_bool_hit (re_search ops host)"
  using literal_in_match[of ops host] assms
  by (auto simp: regex_rule_def Let_def contains_sublist of_bool_hit_def)

theorem regex_prefilter_sound_witness:
  "matches plain_env (regex_rule (U ''x'') (U ''p'') (map Lit (U ''G.co'') @ [Op (\<lambda>s i. [length s])]) False)
    (U ''a.g.com'') None = of_bool_hit (re_search (map Lit (U ''G.co'') @ [Op (\<lambda>s i. [length s])]) (U ''a.g.com''))"
  by (rule regex_prefilter_sound) (simp add: U_def py_lower_def lower1_def)

end
