(* ===== verification/Router_Build.thy ===== *)
theory Router_Build
  imports Rules Json
begin

text \<open>
  Building the router from the configuration (core/router.py): the structured rules with their OR and
  AND modes, the CSV rules, and \<open>build_router\<close>, which chooses between them. The geo data cache is
  threaded through; \<open>fs\<close> is the file system.
\<close>

record build_env = route_env +
  be_fs :: "pystr \<Rightarrow> bytes option"
  be_repr :: "json \<Rightarrow> pystr"

datatype field = FDomain | FSuffix | FKeyword | FRegex | FCidr | FRuleSet | FGeoip

text \<open>\<open>_STRUCT_FIELDS\<close>, in its order.\<close>

definition struct_fields :: "(field \<times> pystr \<times> pystr) list" where
  "struct_fields =
     [(FDomain, U ''domain'', U ''DOMAIN''), (FSuffix, U ''domain_suffix'', U ''DOMAIN-SUFFIX''),
      (FKeyword, U ''domain_keyword'', U ''DOMAIN-KEYWORD''), (FRegex, U ''domain_regex'', U ''DOMAIN-REGEX''),
      (FCidr, U ''ip_cidr'', U ''IP-CIDR''), (FRuleSet, U ''rule_set'', U ''GEOSITE''), (FGeoip, U ''geoip'', U ''GEOIP'')]"

definition split_source :: "pystr \<Rightarrow> pystr option \<Rightarrow> pystr \<times> pystr" where
  "split_source value dflt = (case partition1 58 value of Some (src, tag) \<Rightarrow> (src, tag)
     | None \<Rightarrow> (case dflt of Some d \<Rightarrow> d | None \<Rightarrow> [], value))"

definition make_geosite_rule ::
    "build_env \<Rightarrow> pystr \<Rightarrow> pystr \<Rightarrow> geo_cache \<Rightarrow> bool \<Rightarrow> rule option \<times> geo_cache" where
  "make_geosite_rule e value action cache invert =
     (let (src, tag) = split_source value (default_site cache) in
      if src = [] then (None, cache)
      else let (site, cache) = geo_site (be_fs e) cache src in
        (case od_get site (py_upper tag) of
           None \<Rightarrow> None
         | Some entries \<Rightarrow> Some (geosite_rule (route_env.truncate e) (src @ [58] @ tag) action entries invert), cache))"

definition make_geoip_rule ::
    "build_env \<Rightarrow> pystr \<Rightarrow> pystr \<Rightarrow> geo_cache \<Rightarrow> bool \<Rightarrow> rule option \<times> geo_cache" where
  "make_geoip_rule e value action cache invert =
     (let (src, code) = split_source value (default_ip cache) in
      if src = [] then (None, cache)
      else let (ip, cache) = geo_ip (be_fs e) cache src in
        (case od_get ip (py_upper code) of
           None \<Rightarrow> None
         | Some (networks, neg) \<Rightarrow> Some (geoip_rule (src @ [58] @ code) action networks neg invert), cache))"

definition make_cidr_rule :: "pystr \<Rightarrow> pystr \<Rightarrow> bool \<Rightarrow> rule option" where
  "make_cidr_rule value action invert =
     map_option (\<lambda>net. cidr_rule value action net invert) (ip_network value)"

definition make_regex_rule :: "build_env \<Rightarrow> pystr \<Rightarrow> pystr \<Rightarrow> bool \<Rightarrow> rule option" where
  "make_regex_rule e value action invert =
     map_option (\<lambda>compiled. regex_rule value action compiled invert) (rt_re e value)"

fun make_rule :: "build_env \<Rightarrow> field \<Rightarrow> pystr \<Rightarrow> pystr \<Rightarrow> geo_cache \<Rightarrow> bool \<Rightarrow> rule option \<times> geo_cache" where
  "make_rule e FDomain value action cache invert = (Some (exact_rule value action invert), cache)"
| "make_rule e FSuffix value action cache invert = (Some (suffix_rule value action invert), cache)"
| "make_rule e FKeyword value action cache invert = (Some (keyword_rule value action invert), cache)"
| "make_rule e FRegex value action cache invert = (make_regex_rule e value action invert, cache)"
| "make_rule e FCidr value action cache invert = (make_cidr_rule value action invert, cache)"
| "make_rule e FRuleSet value action cache invert = make_geosite_rule e value action cache invert"
| "make_rule e FGeoip value action cache invert = make_geoip_rule e value action cache invert"

section \<open>Structured rules\<close>

fun expand_values ::
    "build_env \<Rightarrow> field \<Rightarrow> json list \<Rightarrow> pystr \<Rightarrow> geo_cache \<Rightarrow> bool \<Rightarrow> rule list \<times> geo_cache" where
  "expand_values e f [] action cache invert = ([], cache)"
| "expand_values e f (v # vs) action cache invert =
     (let s = py_strip (py_str (be_repr e) v) in
      if s = [] then expand_values e f vs action cache invert
      else let (r, cache) = make_rule e f s action cache invert;
               (rs, cache) = expand_values e f vs action cache invert
           in (case r of None \<Rightarrow> rs | Some x \<Rightarrow> x # rs, cache))"

definition expand_field ::
    "build_env \<Rightarrow> field \<Rightarrow> json \<Rightarrow> pystr \<Rightarrow> geo_cache \<Rightarrow> bool \<Rightarrow> rule list \<times> geo_cache" where
  "expand_field e f raw action cache invert =
     expand_values e f (case raw of JList vs \<Rightarrow> vs | v \<Rightarrow> [v]) action cache invert"

definition crit_fields :: "json \<Rightarrow> (field \<times> pystr \<times> pystr) list" where
  "crit_fields entry = filter (\<lambda>(f, k, l). jget entry k \<noteq> None) struct_fields"

fun add_or_fields ::
    "build_env \<Rightarrow> (field \<times> pystr \<times> pystr) list \<Rightarrow> json \<Rightarrow> pystr \<Rightarrow> bool \<Rightarrow> router \<times> geo_cache \<Rightarrow> router \<times> geo_cache" where
  "add_or_fields e [] entry action invert s = s"
| "add_or_fields e ((f, k, l) # fs) entry action invert (ro, cache) =
     (let (rs, cache) = expand_field e f (the (jget entry k)) action cache invert
      in add_or_fields e fs entry action invert (foldl (\<lambda>ro r. router_add r ro) ro rs, cache))"

text \<open>The groups of an AND rule, \<open>None\<close> when a field expands to nothing.\<close>

fun and_groups ::
    "build_env \<Rightarrow> (field \<times> pystr \<times> pystr) list \<Rightarrow> json \<Rightarrow> pystr \<Rightarrow> geo_cache \<Rightarrow> rule list list option \<times> geo_cache" where
  "and_groups e [] entry action cache = (Some [], cache)"
| "and_groups e ((f, k, l) # fs) entry action cache =
     (let (sub, cache) = expand_field e f (the (jget entry k)) action cache False in
      if sub = [] then (None, cache)
      else let (gs, cache) = and_groups e fs entry action cache
           in (map_option ((#) sub) gs, cache))"

definition and_desc :: "(field \<times> pystr \<times> pystr) list \<Rightarrow> pystr" where
  "and_desc fs = U ''AND('' @ join_with [44] (map (\<lambda>(f, k, l). l) fs) @ U '')''"

definition use_and :: "build_env \<Rightarrow> json \<Rightarrow> bool" where
  "use_and e entry = (py_lower (py_strip (case jget entry (U ''mode'') of None \<Rightarrow> U ''or''
     | Some m \<Rightarrow> py_str (be_repr e) m)) = U ''and'')"

definition apply_structured_rule ::
    "build_env \<Rightarrow> pystr list option \<Rightarrow> json \<Rightarrow> router \<times> geo_cache \<Rightarrow> router \<times> geo_cache" where
  "apply_structured_rule e valid_actions entry s =
     (if \<not> is_obj entry then s
      else case jget entry (U ''outbound'') of
        Some (JStr action) \<Rightarrow>
          if action = [] then s
          else if (case valid_actions of None \<Rightarrow> False | Some A \<Rightarrow> action \<notin> set A) then s
          else
            (let invert = (case jget entry (U ''invert'') of None \<Rightarrow> False | Some v \<Rightarrow> truthy v);
                 fs = crit_fields entry
             in if fs = [] then s
                else if length fs = 1 \<or> \<not> use_and e entry then add_or_fields e fs entry action invert s
                else case and_groups e fs entry action (snd s) of
                    (Some groups, cache) \<Rightarrow> (router_add (and_rule groups action (and_desc fs) invert) (fst s), cache)
                  | (None, cache) \<Rightarrow> (fst s, cache))
      | _ \<Rightarrow> s)"

definition apply_structured_rules ::
    "build_env \<Rightarrow> pystr list option \<Rightarrow> json list \<Rightarrow> router \<times> geo_cache \<Rightarrow> router \<times> geo_cache" where
  "apply_structured_rules e valid_actions rules s =
     foldl (\<lambda>s entry. apply_structured_rule e valid_actions entry s) s rules"

section \<open>CSV rules\<close>

definition csv_rule ::
    "build_env \<Rightarrow> pystr \<Rightarrow> pystr \<Rightarrow> pystr \<Rightarrow> geo_cache \<Rightarrow> rule option \<times> geo_cache" where
  "csv_rule e rule_type value mapped cache =
     (if rule_type = U ''DOMAIN'' then make_rule e FDomain value mapped cache False
      else if rule_type = U ''DOMAIN-SUFFIX'' then make_rule e FSuffix value mapped cache False
      else if rule_type = U ''DOMAIN-KEYWORD'' then make_rule e FKeyword value mapped cache False
      else if rule_type = U ''DOMAIN-REGEX'' then make_rule e FRegex value mapped cache False
      else if rule_type = U ''IP-CIDR'' then make_rule e FCidr value mapped cache False
      else if rule_type = U ''GEOSITE'' then make_rule e FRuleSet value mapped cache False
      else if rule_type = U ''GEOIP'' then make_rule e FGeoip value mapped cache False
      else (None, cache))"

definition map_action :: "(pystr, pystr) odict option \<Rightarrow> pystr \<Rightarrow> pystr" where
  "map_action legacy raw = (case legacy of None \<Rightarrow> py_upper raw
     | Some m \<Rightarrow> (case od_get m (py_upper raw) of Some a \<Rightarrow> a | None \<Rightarrow> raw))"

definition apply_csv_rule ::
    "build_env \<Rightarrow> (pystr, pystr) odict option \<Rightarrow> pystr list option \<Rightarrow> json \<Rightarrow> router \<times> geo_cache \<Rightarrow> router \<times> geo_cache" where
  "apply_csv_rule e legacy valid_actions raw s =
     (let line = py_strip (py_str (be_repr e) raw) in
      if line = [] \<or> hd line = 35 then s
      else let parts = map py_strip (split_max 44 2 line); rule_type = py_upper (hd parts) in
        if rule_type = U ''FINAL'' then
          (if length parts \<ge> 2 then (set_default (map_action legacy (parts ! 1)) (fst s), snd s) else s)
        else if length parts < 3 then s
        else let value = parts ! 1; mapped = map_action legacy (parts ! 2) in
          if (case valid_actions of None \<Rightarrow> False | Some A \<Rightarrow> mapped \<notin> set A) then s
          else let (r, cache) = csv_rule e rule_type value mapped (snd s) in
            (case r of None \<Rightarrow> fst s | Some x \<Rightarrow> router_add x (fst s), cache))"

definition apply_csv_rules ::
    "build_env \<Rightarrow> (pystr, pystr) odict option \<Rightarrow> pystr list option \<Rightarrow> json list \<Rightarrow> router \<times> geo_cache \<Rightarrow> router \<times> geo_cache" where
  "apply_csv_rules e legacy valid_actions rules s =
     foldl (\<lambda>s raw. apply_csv_rule e legacy valid_actions raw s) s rules"

section \<open>The factory\<close>

definition initial_default :: "(pystr, pystr) odict option \<Rightarrow> pystr" where
  "initial_default legacy = (case legacy of None \<Rightarrow> U ''direct''
     | Some m \<Rightarrow> if m = [] then U ''direct''
         else (case od_get m (U ''PROXY'') of Some a \<Rightarrow> a | None \<Rightarrow> U ''PROXY''))"

definition or_empty :: "json option \<Rightarrow> json" where
  "or_empty v = (case v of Some x \<Rightarrow> if truthy x then x else JList [] | None \<Rightarrow> JList [])"

definition default_from :: "build_env \<Rightarrow> json \<Rightarrow> router \<Rightarrow> router" where
  "default_from e block ro =
     (case jor (jget block (U ''default'')) (jget block (U ''final'')) of
        Some v \<Rightarrow> if truthy v then set_default (py_str (be_repr e) v) ro else ro
      | None \<Rightarrow> ro)"

text \<open>Top-level rules: structured when the first entry is an object, CSV otherwise.\<close>

definition build_flat ::
    "build_env \<Rightarrow> json \<Rightarrow> pystr list option \<Rightarrow> (pystr, pystr) odict option \<Rightarrow> pystr \<Rightarrow> router \<Rightarrow> geo_cache
      \<Rightarrow> py_error + router" where
  "build_flat e cfg valid_actions legacy rules_field ro cache =
     (let rules_list = or_empty (jget cfg rules_field) in
      if truthy rules_list then
        bindE (py_first rules_list) (\<lambda>first.
        bindE (py_iter rules_list) (\<lambda>rules.
          if is_obj first then Inr (fst (apply_structured_rules e valid_actions rules (default_from e cfg ro, cache)))
          else Inr (fst (apply_csv_rules e legacy valid_actions rules (ro, cache)))))
      else Inr ro)"

definition build_router ::
    "build_env \<Rightarrow> json \<Rightarrow> (pystr, pystr) odict \<Rightarrow> (pystr, pystr) odict \<Rightarrow> pystr list option
      \<Rightarrow> (pystr, pystr) odict option \<Rightarrow> pystr \<Rightarrow> py_error + router" where
  "build_router e cfg available_site available_ip valid_actions legacy rules_field =
     (let ro = new_router (initial_default legacy);
          cache = new_geo_cache available_site available_ip;
          route_block = (if rules_field = U ''rules'' then jget cfg (U ''route'') else None)
      in case route_block of
           Some b \<Rightarrow> if is_obj b \<and> jget b (U ''rules'') \<noteq> None then
               bindE (py_iter (or_empty (jget b (U ''rules'')))) (\<lambda>rules.
               Inr (fst (apply_structured_rules e valid_actions rules (default_from e b ro, cache))))
             else build_flat e cfg valid_actions legacy rules_field ro cache
         | None \<Rightarrow> build_flat e cfg valid_actions legacy rules_field ro cache)"

section \<open>What building keeps\<close>

text \<open>Rules are numbered by position and their outbound is an allowed one.\<close>

definition built_ok :: "pystr list option \<Rightarrow> router \<Rightarrow> bool" where
  "built_ok valid_actions ro \<longleftrightarrow> ro_next_idx ro = length (ro_rules ro) + 1
     \<and> (\<forall>i < length (ro_rules ro). prefix (U ''#'' @ show_nat (i + 1) @ U '' '') (r_desc (ro_rules ro ! i)))
     \<and> (case valid_actions of None \<Rightarrow> True | Some A \<Rightarrow> \<forall>r \<in> set (ro_rules ro). r_action r \<in> set A)"

definition action_ok :: "pystr list option \<Rightarrow> pystr \<Rightarrow> bool" where
  "action_ok valid_actions a \<longleftrightarrow> (case valid_actions of None \<Rightarrow> True | Some A \<Rightarrow> a \<in> set A)"

lemma built_ok_new: "built_ok va (new_router d)"
  by (simp add: built_ok_def new_router_def split: option.split)

lemma built_ok_default [simp]: "built_ok va (set_default a ro) = built_ok va ro"
  by (simp add: built_ok_def set_default_def cong: option.case_cong)

lemma built_ok_add:
  assumes "built_ok va ro" "action_ok va (r_action r)"
  shows "built_ok va (router_add r ro)"
  using assms
  by (cases r) (auto simp: built_ok_def action_ok_def router_add_def nth_append less_Suc_eq split: option.splits)

lemma default_add [simp]: "ro_default (router_add r ro) = ro_default ro"
  by (simp add: router_add_def split: rule.split)

lemma make_rule_action:
  assumes "fst (make_rule e f value action cache invert) = Some r"
  shows "r_action r = action"
  using assms
  by (cases f) (auto simp: exact_rule_def suffix_rule_def keyword_rule_def make_regex_rule_def regex_rule_def
      make_cidr_rule_def cidr_rule_def make_geosite_rule_def geosite_rule_def make_geoip_rule_def geoip_rule_def
      Let_def case_prod_beta split: if_splits option.splits)

lemma expand_values_action:
  "r \<in> set (fst (expand_values e f vs action cache invert)) \<Longrightarrow> r_action r = action"
proof (induction vs arbitrary: cache)
  case Nil
  then show ?case by simp
next
  case (Cons v vs)
  then show ?case
    using make_rule_action[of e f _ action cache invert]
    by (auto simp: Let_def case_prod_beta split: if_splits option.splits)
qed

lemma expand_field_action:
  "r \<in> set (fst (expand_field e f raw action cache invert)) \<Longrightarrow> r_action r = action"
  unfolding expand_field_def by (rule expand_values_action)

lemma built_ok_foldl:
  "built_ok va ro \<Longrightarrow> (\<And>r. r \<in> set rs \<Longrightarrow> action_ok va (r_action r)) \<Longrightarrow>
    built_ok va (foldl (\<lambda>ro r. router_add r ro) ro rs)"
  by (induction rs arbitrary: ro) (auto intro: built_ok_add)

lemma default_foldl [simp]: "ro_default (foldl (\<lambda>ro r. router_add r ro) ro rs) = ro_default ro"
  by (induction rs arbitrary: ro) auto

lemma add_or_fields_ok:
  "built_ok va (fst s) \<Longrightarrow> action_ok va action \<Longrightarrow>
    built_ok va (fst (add_or_fields e fs entry action invert s))
    \<and> ro_default (fst (add_or_fields e fs entry action invert s)) = ro_default (fst s)"
proof (induction e fs entry action invert s rule: add_or_fields.induct)
  case (1 e entry action invert s)
  then show ?case by simp
next
  case (2 e f k l fs entry action invert ro cache)
  have "r_action r = action" if "r \<in> set (fst (expand_field e f (the (jget entry k)) action cache invert))" for r
    using that by (rule expand_field_action)
  then show ?case
    using 2 by (cases "expand_field e f (the (jget entry k)) action cache invert")
      (simp add: built_ok_foldl)
qed

lemma structured_rule_ok:
  assumes "built_ok va (fst s)"
  shows "built_ok va (fst (apply_structured_rule e va entry s))
    \<and> ro_default (fst (apply_structured_rule e va entry s)) = ro_default (fst s)"
proof (cases "\<exists>a. is_obj entry \<and> jget entry (U ''outbound'') = Some (JStr a) \<and> a \<noteq> [] \<and> action_ok va a")
  case True
  then obtain a where a: "is_obj entry" "jget entry (U ''outbound'') = Some (JStr a)" "a \<noteq> []" "action_ok va a" by blast
  define iv where "iv = (case jget entry (U ''invert'') of None \<Rightarrow> False | Some v \<Rightarrow> truthy v)"
  have ok: "\<not> (case va of None \<Rightarrow> False | Some A \<Rightarrow> a \<notin> set A)"
    using a(4) by (auto simp: action_ok_def split: option.splits)
  have eq: "apply_structured_rule e va entry s =
      (if crit_fields entry = [] then s
       else if length (crit_fields entry) = 1 \<or> \<not> use_and e entry then add_or_fields e (crit_fields entry) entry a iv s
       else case and_groups e (crit_fields entry) entry a (snd s) of
           (Some groups, cache) \<Rightarrow> (router_add (and_rule groups a (and_desc (crit_fields entry)) iv) (fst s), cache)
         | (None, cache) \<Rightarrow> (fst s, cache))"
    using a ok by (simp add: apply_structured_rule_def iv_def[symmetric] Let_def)
  show ?thesis
    unfolding eq using assms a(4)
    by (auto simp: add_or_fields_ok and_rule_def split: option.splits prod.splits intro: built_ok_add)
next
  case False
  then have "apply_structured_rule e va entry s = s"
    by (auto simp: apply_structured_rule_def action_ok_def split: option.splits json.splits)
  then show ?thesis using assms by simp
qed

lemma structured_rules_ok:
  "built_ok va (fst s) \<Longrightarrow> built_ok va (fst (apply_structured_rules e va rules s))
    \<and> ro_default (fst (apply_structured_rules e va rules s)) = ro_default (fst s)"
  unfolding apply_structured_rules_def
  by (induction rules arbitrary: s) (use structured_rule_ok in fastforce)+

lemma csv_rule_action: "fst (csv_rule e ty value mapped cache) = Some r \<Longrightarrow> r_action r = mapped"
  unfolding csv_rule_def
  by (simp only: split: if_splits) (use make_rule_action in \<open>auto simp del: make_rule.simps\<close>)

lemma csv_rule_ok:
  assumes "built_ok va (fst s)"
  shows "built_ok va (fst (apply_csv_rule e legacy va raw s))"
proof -
  have "built_ok va (router_add r (fst s))"
    if "fst (csv_rule e ty v m c) = Some r" "\<not> (case va of None \<Rightarrow> False | Some A \<Rightarrow> m \<notin> set A)" for ty v m c r
    using csv_rule_action[OF that(1)] that(2) assms
    by (intro built_ok_add) (auto simp: action_ok_def split: option.splits)
  then show ?thesis
    using assms by (auto simp: apply_csv_rule_def Let_def case_prod_beta split: option.split)
qed

lemma csv_rules_ok: "built_ok va (fst s) \<Longrightarrow> built_ok va (fst (apply_csv_rules e legacy va rules s))"
  unfolding apply_csv_rules_def by (induction rules arbitrary: s) (auto simp: csv_rule_ok)

lemma default_from_ok [simp]: "built_ok va (default_from e b ro) = built_ok va ro"
  by (simp add: default_from_def split: option.split)

section \<open>Properties\<close>

text \<open>C15: Whatever the configuration, in either format, every rule of a built router leads to a defined
  outbound when a set of outbounds is given, and carries its position in its description.\<close>

theorem built_router_sound:
  assumes "build_router e cfg sites ips valid_actions legacy rules_field = Inr ro"
  shows "built_ok valid_actions ro"
  using assms structured_rules_ok[of valid_actions] csv_rules_ok[of valid_actions]
    built_ok_new[of valid_actions "initial_default legacy"]
  by (auto simp: build_router_def build_flat_def Let_def bindE_Inr_iff split: option.splits if_splits)

definition plain_build_env :: build_env where
  "plain_build_env = route_env.extend plain_env \<lparr>be_fs = (\<lambda>p. None), be_repr = (\<lambda>j. [])\<rparr>"

definition sample_cfg :: json where
  "sample_cfg = JObj [(U ''route'', JObj [(U ''rules'', JList [
     JObj [(U ''domain_suffix'', JList [JStr (U ''a.b'')]), (U ''outbound'', JStr (U ''p''))],
     JObj [(U ''domain'', JStr (U ''c.d'')), (U ''outbound'', JStr (U ''q''))]])])]"

lemma sample_built:
  "\<exists>ro. build_router plain_build_env sample_cfg [] [] (Some [U ''p'']) None (U ''rules'') = Inr ro
     \<and> length (ro_rules ro) = 1"
  by (simp add: build_router_def sample_cfg_def Let_def od_get_def or_empty_def apply_structured_rules_def
      apply_structured_rule_def crit_fields_def struct_fields_def expand_field_def router_add_def new_router_def
      default_from_def jor_def suffix_rule_def py_strip_def strip_with_def rdropWhile_def is_space_def U_def
      plain_build_env_def)

theorem built_router_sound_witness:
  "\<exists>ro. build_router plain_build_env sample_cfg [] [] (Some [U ''p'']) None (U ''rules'') = Inr ro
     \<and> (\<forall>r \<in> set (ro_rules ro). r_action r = U ''p'')"
  using sample_built built_router_sound[of plain_build_env sample_cfg "[]" "[]" "Some [U ''p'']" None "U ''rules''"]
  by (auto simp: built_ok_def)

text \<open>The default of a router with a structured \<open>route\<close> block is the block's \<open>default\<close>, else its
  \<open>final\<close>, else the outbound the legacy keyword PROXY stands for; \<open>direct\<close> only without a legacy map.\<close>

theorem structured_default:
  assumes "jget cfg (U ''route'') = Some (JObj b)" "od_get b (U ''rules'') = Some (JList rules)"
  shows "\<exists>ro. build_router e cfg sites ips va legacy (U ''rules'') = Inr ro \<and> ro_default ro =
    (case jor (od_get b (U ''default'')) (od_get b (U ''final'')) of
       Some v \<Rightarrow> if truthy v then py_str (be_repr e) v else initial_default legacy
     | None \<Rightarrow> initial_default legacy)"
proof -
  have it: "\<exists>xs. py_iter (or_empty (Some (JList rules))) = Inr xs" by (simp add: or_empty_def)
  have "ro_default (default_from e (JObj b) (new_router d)) =
      (case jor (od_get b (U ''default'')) (od_get b (U ''final'')) of
         Some v \<Rightarrow> if truthy v then py_str (be_repr e) v else d | None \<Rightarrow> d)" for d
    by (simp add: default_from_def set_default_def new_router_def split: option.split)
  then show ?thesis
    using assms it structured_rules_ok[of va] built_ok_new[of va "initial_default legacy"]
    by (auto simp: build_router_def Let_def)
qed

theorem structured_default_witness:
  "\<exists>ro. build_router plain_build_env sample_cfg [] [] None (Some [(U ''PROXY'', U ''node'')]) (U ''rules'') = Inr ro
    \<and> ro_default ro = U ''node''"
proof -
  have j: "jget sample_cfg (U ''route'') = Some (JObj [(U ''rules'', JList [
     JObj [(U ''domain_suffix'', JList [JStr (U ''a.b'')]), (U ''outbound'', JStr (U ''p''))],
     JObj [(U ''domain'', JStr (U ''c.d'')), (U ''outbound'', JStr (U ''q''))]])])"
    by (simp add: sample_cfg_def od_get_def)
  show ?thesis
    using structured_default[OF j, of _ plain_build_env "[]" "[]" None "Some [(U ''PROXY'', U ''node'')]"]
    by (auto simp: od_get_def jor_def initial_default_def)
qed

end
