(* ===== verification/Stats.thy ===== *)
theory Stats
  imports Json "HOL-Library.List_Lexorder"
begin

text \<open>
  \<open>core/stats.py\<close>: the server's connection statistics and block list.  A \<open>ConnInfo\<close> is a mutable object
  that the handler and \<open>StatsStore.active\<close> share; here the copy under its id in \<open>active\<close> is that object.
  Clock readings are arguments; \<open>cn_writer\<close> names the writer to close.
\<close>

record conn_info =
  cn_id :: nat
  cn_client :: pystr
  cn_host :: pystr
  cn_port :: int
  cn_started :: rat
  cn_up :: int
  cn_down :: int
  cn_writer :: "nat option"

record conn_row =
  row_id :: nat
  row_client :: pystr
  row_target :: pystr
  row_duration :: rat
  row_up :: int
  row_down :: int
  row_closed :: "rat option"

text \<open>\<open>round(x, 1)\<close>: to the nearest tenth, ties to the even one (of the exact value).\<close>

definition round_tenth :: "rat \<Rightarrow> rat" where
  "round_tenth x = (let y = 10 * x; f = \<lfloor>y\<rfloor>; r = y - of_int f in
     of_int (if r < 1 / 2 then f else if 1 / 2 < r then f + 1 else if even f then f else f + 1) / 10)"

definition conn_row :: "rat \<Rightarrow> rat option \<Rightarrow> conn_info \<Rightarrow> conn_row" where
  "conn_row now closed_at c = \<lparr> row_id = cn_id c, row_client = cn_client c,
     row_target = cn_host c @ U '':'' @ show_int (cn_port c), row_duration = round_tenth (now - cn_started c),
     row_up = cn_up c, row_down = cn_down c, row_closed = closed_at \<rparr>"

record stats =
  st_counter :: nat
  st_active :: "(nat, conn_info) odict"
  st_recent :: "conn_row list"
  st_dconns :: "(pystr, int) odict"
  st_dbytes :: "(pystr, int) odict"
  st_blocked :: "pystr list"
  st_total :: int
  st_up :: int
  st_dn :: int

definition new_stats :: stats where
  "new_stats = \<lparr> st_counter = 0, st_active = [], st_recent = [], st_dconns = [], st_dbytes = [], st_blocked = [],
     st_total = 0, st_up = 0, st_dn = 0 \<rparr>"

definition max_domains :: nat where "max_domains = 5000"

text \<open>The body \<open>_touch_conn\<close> and \<open>_touch_bytes\<close> share: add to the entry and make it the newest, or
  push out the oldest.\<close>

definition bump :: "nat \<Rightarrow> 'k \<Rightarrow> int \<Rightarrow> ('k, int) odict \<Rightarrow> ('k, int) odict" where
  "bump m k n d = (case od_get d k of
       Some v \<Rightarrow> od_move_to_end k (od_set k (v + n) d)
     | None \<Rightarrow> od_set k n (if m \<le> length d then tl d else d))"

definition touch_conn :: "pystr \<Rightarrow> stats \<Rightarrow> stats" where
  "touch_conn host st = st\<lparr> st_dconns := bump max_domains host 1 (st_dconns st) \<rparr>"

definition touch_bytes :: "pystr \<Rightarrow> int \<Rightarrow> stats \<Rightarrow> stats" where
  "touch_bytes host delta st =
     (if delta \<le> 0 then st else st\<lparr> st_dbytes := bump max_domains host delta (st_dbytes st) \<rparr>)"

definition register :: "rat \<Rightarrow> pystr \<Rightarrow> pystr \<Rightarrow> int \<Rightarrow> nat option \<Rightarrow> stats \<Rightarrow> conn_info \<times> stats" where
  "register now client host port writer st =
     (let i = st_counter st + 1;
          c = \<lparr> cn_id = i, cn_client = client, cn_host = host, cn_port = port, cn_started = now,
                cn_up = 0, cn_down = 0, cn_writer = writer \<rparr>
      in (c, touch_conn host (st\<lparr> st_counter := i, st_total := st_total st + 1, st_active := od_set i c (st_active st) \<rparr>)))"

text \<open>\<open>deque(maxlen=50)\<close> and \<open>appendleft\<close>: the last element falls out.\<close>

definition unregister :: "rat \<Rightarrow> rat \<Rightarrow> conn_info \<Rightarrow> stats \<Rightarrow> stats" where
  "unregister now wall c st =
     (let st = touch_bytes (cn_host c) (cn_up c + cn_down c) (st\<lparr> st_active := od_del (cn_id c) (st_active st) \<rparr>)
      in st\<lparr> st_up := st_up st + cn_up c, st_dn := st_dn st + cn_down c,
             st_recent := take 50 (conn_row now (Some wall) c # st_recent st) \<rparr>)"

text \<open>\<open>conn.bytes_up += n\<close> and \<open>conn.bytes_down += n\<close> on the shared object.\<close>

definition add_up :: "nat \<Rightarrow> int \<Rightarrow> stats \<Rightarrow> stats" where
  "add_up i n st = (case od_get (st_active st) i of None \<Rightarrow> st
     | Some c \<Rightarrow> st\<lparr> st_active := od_set i (c\<lparr> cn_up := cn_up c + n \<rparr>) (st_active st) \<rparr>)"

definition add_down :: "nat \<Rightarrow> int \<Rightarrow> stats \<Rightarrow> stats" where
  "add_down i n st = (case od_get (st_active st) i of None \<Rightarrow> st
     | Some c \<Rightarrow> st\<lparr> st_active := od_set i (c\<lparr> cn_down := cn_down c + n \<rparr>) (st_active st) \<rparr>)"

section \<open>Block list and the admin's view\<close>

definition is_blocked :: "stats \<Rightarrow> pystr \<Rightarrow> bool" where
  "is_blocked st ip \<longleftrightarrow> ip \<in> set (st_blocked st)"

text \<open>The writers a call closes come with it.\<close>

definition block :: "pystr \<Rightarrow> stats \<Rightarrow> nat list \<times> stats" where
  "block ip st = (concat (map (\<lambda>(i, c). if cn_client c = ip then (case cn_writer c of None \<Rightarrow> [] | Some w \<Rightarrow> [w]) else [])
      (st_active st)), st\<lparr> st_blocked := List.insert ip (st_blocked st) \<rparr>)"

definition unblock :: "pystr \<Rightarrow> stats \<Rightarrow> stats" where
  "unblock ip st = st\<lparr> st_blocked := removeAll ip (st_blocked st) \<rparr>"

definition kill :: "nat \<Rightarrow> stats \<Rightarrow> bool \<times> nat list" where
  "kill i st = (case od_get (st_active st) i of None \<Rightarrow> (False, [])
     | Some c \<Rightarrow> (True, case cn_writer c of None \<Rightarrow> [] | Some w \<Rightarrow> [w]))"

text \<open>\<open>sorted(xs, key=f, reverse=True)\<close> keeps the order of equal keys.\<close>

definition sorted_desc :: "('a \<Rightarrow> int) \<Rightarrow> 'a list \<Rightarrow> 'a list" where
  "sorted_desc f xs = sort_key (\<lambda>x. - f x) xs"

definition top_n :: nat where "top_n = 50"

definition all_domains :: "stats \<Rightarrow> (pystr \<times> int \<times> int) list" where
  "all_domains st = map (\<lambda>(d, n). (d, n, case od_get (st_dbytes st) d of Some b \<Rightarrow> b | None \<Rightarrow> 0)) (st_dconns st)"

fun unseen :: "'a list \<Rightarrow> ('a \<times> 'b) list \<Rightarrow> ('a \<times> 'b) list" where
  "unseen seen [] = []"
| "unseen seen ((d, x) # ds) = (if d \<in> set seen then unseen seen ds else (d, x) # unseen (d # seen) ds)"

definition top_domains :: "stats \<Rightarrow> (pystr \<times> int \<times> int) list" where
  "top_domains st = (let ds = all_domains st;
       by_conns = take top_n (sorted_desc (\<lambda>(d, c, b). c) ds);
       by_bytes = take top_n (sorted_desc (\<lambda>(d, c, b). b) ds)
     in unseen [] (by_conns @ by_bytes))"

record snapshot =
  sn_total :: int
  sn_active :: nat
  sn_up :: int
  sn_dn :: int
  sn_blocked :: "pystr list"
  sn_conns :: "conn_row list"
  sn_recent :: "conn_row list"
  sn_top :: "(pystr \<times> int \<times> int) list"

definition active_conns :: "stats \<Rightarrow> conn_info list" where
  "active_conns st = map snd (st_active st)"

text \<open>The blocked addresses are listed sorted.\<close>

definition snapshot :: "rat \<Rightarrow> stats \<Rightarrow> snapshot" where
  "snapshot now st = \<lparr> sn_total = st_total st, sn_active = length (st_active st),
     sn_up = st_up st + sum_list (map cn_up (active_conns st)), sn_dn = st_dn st + sum_list (map cn_down (active_conns st)),
     sn_blocked = sort (st_blocked st), sn_conns = map (conn_row now None) (sort_key cn_started (active_conns st)),
     sn_recent = st_recent st, sn_top = top_domains st \<rparr>"

end
