(* ===== verification/Sockets.thy ===== *)
theory Sockets
  imports Complex_Main Json Streams
begin

text \<open>
  The sockets the program makes itself and the options it sets: \<open>core/brutal.py\<close>, \<open>core/tproxy.py\<close>, the marked egress of
  \<open>core/egress.py\<close>, and keepalive and the limit of open files in \<open>core/utils.py\<close>.  A socket is the log of the calls that took
  effect on it; what the system answers to each call is the record \<open>os\<close>.
\<close>

section \<open>Sockets and the system\<close>

datatype sock_opt = TcpCongestion | TcpBrutalParams | SoKeepalive | TcpKeepidle | TcpKeepintvl | TcpKeepcnt
  | SoReuseaddr | IpTransparent | SoMark

datatype opt_value = OptInt int | OptBytes bytes

type_synonym addr = "pystr \<times> int"

datatype sock_event = OptSet sock_opt opt_value | NonBlocking | ConnectTo addr | BindTo addr | ListenWith nat | SockClosed

type_synonym sock = "sock_event list"

text \<open>\<open>os_opt\<close>: is the option accepted; the others are the exceptions of the calls; \<open>os_wrap\<close> is the construction of the
  asyncio streams or server around a socket.  Sockets are told apart by their address family.\<close>

datatype family = Inet | Inet6

record os =
  os_opt :: "family \<Rightarrow> sock_opt \<Rightarrow> opt_value \<Rightarrow> bool"
  os_socket :: "family \<Rightarrow> py_error option"
  os_connect :: "family \<Rightarrow> addr \<Rightarrow> py_error option"
  os_bind :: "addr \<Rightarrow> py_error option"
  os_listen :: "py_error option"
  os_wrap :: "py_error option"

text \<open>An integer value must fit a C \<open>int\<close>.\<close>

definition c_int :: "int \<Rightarrow> bool" where
  "c_int i \<longleftrightarrow> - (2 ^ 31) \<le> i \<and> i < 2 ^ 31"

definition setsockopt :: "os \<Rightarrow> family \<Rightarrow> sock_opt \<Rightarrow> opt_value \<Rightarrow> (sock, unit) reading" where
  "setsockopt os f op v s =
     (if (case v of OptInt i \<Rightarrow> \<not> c_int i | OptBytes b \<Rightarrow> False) then (Inl OverflowErr, s)
      else if os_opt os f op v then (Inr (), s @ [OptSet op v]) else (Inl OSErr, s))"

definition sock_call :: "py_error option \<Rightarrow> sock_event \<Rightarrow> (sock, unit) reading" where
  "sock_call failure ev s = (case failure of Some e \<Rightarrow> (Inl e, s) | None \<Rightarrow> (Inr (), s @ [ev]))"

definition sock_close :: "sock \<Rightarrow> sock" where
  "sock_close s = s @ [SockClosed]"

text \<open>\<open>except OSError: return False\<close>\<close>

definition false_on_oserror :: "(sock, bool) reading \<Rightarrow> (sock, bool) reading" where
  "false_on_oserror m s = (case m s of (Inl e, s') \<Rightarrow> (if e = OSErr then Inr False else Inl e, s') | r \<Rightarrow> r)"

text \<open>\<open>except BaseException: sock.close(); raise\<close>\<close>

definition close_on_error :: "(sock, 'a) reading \<Rightarrow> (sock, 'a) reading" where
  "close_on_error m s = (case m s of (Inl e, s') \<Rightarrow> (Inl e, sock_close s') | r \<Rightarrow> r)"

section \<open>TCP Brutal\<close>

definition brutal_name :: opt_value where "brutal_name = OptBytes (B ''brutal'')"

definition default_gain :: int where "default_gain = 15"

text \<open>\<open>struct.pack("QI", rate, gain)\<close>: little-endian, as the comment says of the machines it runs on.\<close>

fun int_arg :: "json \<Rightarrow> py_error + int" where
  "int_arg (JInt i) = Inr i"
| "int_arg (JBool b) = Inr (if b then 1 else 0)"
| "int_arg v = Inl StructError"

definition brutal_params :: "json \<Rightarrow> int \<Rightarrow> py_error + bytes" where
  "brutal_params rate gain =
     bindE (int_arg rate) (\<lambda>r.
       if 0 \<le> r \<and> r < 2 ^ 64 \<and> 0 \<le> gain \<and> gain < 2 ^ 32
       then Inr (rev (to_be 8 (nat r)) @ rev (to_be 4 (nat gain))) else Inl StructError)"

definition is_available :: "os \<Rightarrow> py_error + bool" where
  "is_available os = (case os_socket os Inet of
       Some e \<Rightarrow> if e = OSErr then Inr False else Inl e
     | None \<Rightarrow> fst (false_on_oserror (bindR (setsockopt os Inet TcpCongestion brutal_name) (\<lambda>_. retR True)) []))"

definition set_algorithm :: "os \<Rightarrow> family \<Rightarrow> (sock, bool) reading" where
  "set_algorithm os f = false_on_oserror (bindR (setsockopt os f TcpCongestion brutal_name) (\<lambda>_. retR True))"

definition set_rate :: "os \<Rightarrow> family \<Rightarrow> json \<Rightarrow> int \<Rightarrow> (sock, bool) reading" where
  "set_rate os f rate gain = false_on_oserror
     (bindR (liftR (brutal_params rate gain)) (\<lambda>ps.
      bindR (setsockopt os f TcpBrutalParams (OptBytes ps)) (\<lambda>_. retR True)))"

definition enable_brutal :: "os \<Rightarrow> family \<Rightarrow> json \<Rightarrow> int \<Rightarrow> (sock, bool) reading" where
  "enable_brutal os f rate gain = bindR (set_algorithm os f) (\<lambda>ok. if ok then set_rate os f rate gain else retR False)"

text \<open>What a dial leaves: its outcome and the socket, if one was made.\<close>

type_synonym dialled = "(py_error + unit) \<times> sock option"

text \<open>\<open>open_brutal_connection\<close>; \<open>infos\<close> is what \<open>getaddrinfo\<close> answers.\<close>

definition open_brutal_connection :: "os \<Rightarrow> (py_error + (family \<times> addr) list) \<Rightarrow> json \<Rightarrow> dialled" where
  "open_brutal_connection os infos rate =
     (case infos of
        Inl e \<Rightarrow> (Inl e, None)
      | Inr [] \<Rightarrow> (Inl OSErr, None)
      | Inr ((f, a) # _) \<Rightarrow> (case os_socket os f of
            Some e \<Rightarrow> (Inl e, None)
          | None \<Rightarrow> map_prod id Some
              (bindR (sock_call None NonBlocking) (\<lambda>_.
               bindR (enable_brutal os f rate default_gain) (\<lambda>_.
               bindR (close_on_error (sock_call (os_connect os f a) (ConnectTo a))) (\<lambda>_.
                 liftR (case os_wrap os of Some e \<Rightarrow> Inl e | None \<Rightarrow> Inr ())))) [])))"

section \<open>Marked egress\<close>

definition probe_mark :: "os \<Rightarrow> int \<Rightarrow> py_error + bool" where
  "probe_mark os mark = (case os_socket os Inet of
       Some e \<Rightarrow> Inl e
     | None \<Rightarrow> fst (false_on_oserror (bindR (setsockopt os Inet SoMark (OptInt mark)) (\<lambda>_. retR True)) []))"

text \<open>\<open>MarkedEgress.open_connection\<close>; the lookup asks for IPv4 addresses only.\<close>

definition open_marked :: "os \<Rightarrow> int \<Rightarrow> (py_error + addr list) \<Rightarrow> dialled" where
  "open_marked os mark infos =
     (case infos of
        Inl e \<Rightarrow> (Inl e, None)
      | Inr [] \<Rightarrow> (Inl IndexError, None)
      | Inr (a # _) \<Rightarrow> (case os_socket os Inet of
            Some e \<Rightarrow> (Inl e, None)
          | None \<Rightarrow> map_prod id Some
              (bindR (sock_call None NonBlocking) (\<lambda>_.
               bindR (close_on_error (bindR (setsockopt os Inet SoMark (OptInt mark)) (\<lambda>_. sock_call (os_connect os Inet a) (ConnectTo a)))) (\<lambda>_.
                 liftR (case os_wrap os of Some e \<Rightarrow> Inl e | None \<Rightarrow> Inr ()))) [])))"

section \<open>The transparent listener\<close>

text \<open>\<open>_make_socket\<close> and \<open>start_server\<close> of tproxy.py\<close>

definition make_tproxy_socket :: "os \<Rightarrow> addr \<Rightarrow> (sock, unit) reading" where
  "make_tproxy_socket os a =
     bindR (setsockopt os Inet SoReuseaddr (OptInt 1)) (\<lambda>_.
     bindR (\<lambda>s. case setsockopt os Inet IpTransparent (OptInt 1) s of
         (Inl e, s') \<Rightarrow> (Inl e, if e = OSErr then sock_close s' else s') | r \<Rightarrow> r) (\<lambda>_.
     bindR (sock_call None NonBlocking) (\<lambda>_.
     bindR (sock_call (os_bind os a) (BindTo a)) (\<lambda>_.
       sock_call (os_listen os) (ListenWith 256)))))"

definition start_tproxy :: "os \<Rightarrow> addr \<Rightarrow> dialled" where
  "start_tproxy os a = (case os_socket os Inet of
       Some e \<Rightarrow> (Inl e, None)
     | None \<Rightarrow> map_prod id Some
         (bindR (make_tproxy_socket os a) (\<lambda>_. liftR (case os_wrap os of Some e \<Rightarrow> Inl e | None \<Rightarrow> Inr ())) []))"

section \<open>Keepalive\<close>

text \<open>\<open>has\<close>: the constants this platform's \<open>socket\<close> module has.\<close>

definition when_has :: "(sock_opt \<Rightarrow> bool) \<Rightarrow> sock_opt \<Rightarrow> (sock, unit) reading \<Rightarrow> (sock, unit) reading" where
  "when_has has op m = (if has op then m else retR ())"

definition set_keepalive :: "os \<Rightarrow> (sock_opt \<Rightarrow> bool) \<Rightarrow> family \<Rightarrow> (sock, unit) reading" where
  "set_keepalive os has f = (\<lambda>s. case
     bindR (setsockopt os f SoKeepalive (OptInt 1)) (\<lambda>_.
     bindR (when_has has TcpKeepidle (setsockopt os f TcpKeepidle (OptInt 60))) (\<lambda>_.
     bindR (when_has has TcpKeepintvl (setsockopt os f TcpKeepintvl (OptInt 10))) (\<lambda>_.
       when_has has TcpKeepcnt (setsockopt os f TcpKeepcnt (OptInt 3))))) s of
       (Inl e, s') \<Rightarrow> (if e = OSErr then Inr () else Inl e, s') | r \<Rightarrow> r)"

section \<open>An accepted client's socket\<close>

text \<open>What \<open>handle_client\<close> does to it, \<open>rate\<close> as it stands in the configuration.\<close>

definition tune_client :: "os \<Rightarrow> (sock_opt \<Rightarrow> bool) \<Rightarrow> bool \<Rightarrow> json \<Rightarrow> family \<Rightarrow> (sock, unit) reading" where
  "tune_client os has keepalive rate f =
     bindR (if keepalive then set_keepalive os has f else retR ()) (\<lambda>_.
       if truthy rate then bindR (set_rate os f rate default_gain) (\<lambda>_. retR ()) else retR ())"

text \<open>The listening sockets get the algorithm's name; the first that takes it ends the loop.\<close>

fun preset_algorithm :: "os \<Rightarrow> family list \<Rightarrow> sock list \<Rightarrow> (py_error + bool) \<times> sock list" where
  "preset_algorithm os (f # fs) (s # ss) =
     (case set_algorithm os f s of
        (Inl e, s') \<Rightarrow> (Inl e, s' # ss)
      | (Inr True, s') \<Rightarrow> (Inr True, s' # ss)
      | (Inr False, s') \<Rightarrow> map_prod id (Cons s') (preset_algorithm os fs ss))"
| "preset_algorithm os fs ss = (Inr False, ss)"

section \<open>Open files\<close>

text \<open>\<open>raise_fd_limit\<close>: the soft and the hard limit as \<open>getrlimit\<close> gives them, \<open>RLIM_INFINITY\<close> being -1.\<close>

definition rlim_infinity :: int where "rlim_infinity = -1"

definition raise_fd_limit :: "bool \<Rightarrow> int \<times> int \<Rightarrow> int \<times> int" where
  "raise_fd_limit allowed l = (if fst l < snd l \<and> allowed then (snd l, snd l) else l)"

text \<open>What the two limits allow; \<open>None\<close> is no bound.\<close>

definition limit_of :: "int \<Rightarrow> int option" where
  "limit_of l = (if l = rlim_infinity then None else Some l)"

section \<open>What is set on a socket\<close>

lemma set_byte_option: "setsockopt os f op (OptBytes b) s = (if os_opt os f op (OptBytes b) then (Inr (), s @ [OptSet op (OptBytes b)]) else (Inl OSErr, s))"
  by (simp add: setsockopt_def)

lemma set_int_option: "c_int i \<Longrightarrow> setsockopt os f op (OptInt i) s =
    (if os_opt os f op (OptInt i) then (Inr (), s @ [OptSet op (OptInt i)]) else (Inl OSErr, s))"
  by (simp add: setsockopt_def)

lemmas option_simps = set_byte_option set_int_option bindR_apply false_on_oserror_def close_on_error_def brutal_name_def

lemma algorithm_set: "set_algorithm os f s =
    (if os_opt os f TcpCongestion brutal_name then (Inr True, s @ [OptSet TcpCongestion brutal_name]) else (Inr False, s))"
  by (simp add: set_algorithm_def option_simps)

text \<open>The parameters are read back from the bytes; a rate that has none is not an integer or does not fit.\<close>

definition params_rate :: "bytes \<Rightarrow> nat" where "params_rate ps = from_be (rev (take 8 ps))"
definition params_gain :: "bytes \<Rightarrow> nat" where "params_gain ps = from_be (rev (drop 8 ps))"

lemma brutal_params_Inr:
  assumes "brutal_params rate gain = Inr ps"
  shows "length ps = 12" "int_arg rate = Inr (int (params_rate ps))" "int (params_gain ps) = gain"
proof -
  obtain r where r: "int_arg rate = Inr r" "0 \<le> r" "r < 2 ^ 64" "0 \<le> gain" "gain < 2 ^ 32"
    "ps = rev (to_be 8 (nat r)) @ rev (to_be 4 (nat gain))"
    using assms by (auto simp: brutal_params_def bindE_Inr_iff split: if_splits)
  have "nat r < 256 ^ 8" "nat gain < 256 ^ 4" using r(2-5) by (simp_all add: nat_less_iff)
  then show "length ps = 12" "int_arg rate = Inr (int (params_rate ps))" "int (params_gain ps) = gain"
    using r by (simp_all add: params_rate_def params_gain_def)
qed

lemma int_arg_Inl: "int_arg v = Inl e \<Longrightarrow> e = StructError"
  by (cases v) auto

lemma brutal_params_Inl: "brutal_params rate gain = Inl e \<Longrightarrow> e = StructError"
  using int_arg_Inl[of rate] by (auto simp: brutal_params_def bindE_def split: sum.splits if_splits)

lemma rate_set: "set_rate os f rate gain s = (case brutal_params rate gain of
      Inl e \<Rightarrow> (Inl StructError, s)
    | Inr ps \<Rightarrow> if os_opt os f TcpBrutalParams (OptBytes ps) then (Inr True, s @ [OptSet TcpBrutalParams (OptBytes ps)]) else (Inr False, s))"
  using brutal_params_Inl[of rate gain] by (auto simp: set_rate_def option_simps split: sum.split)

lemma keepalive_set: "\<exists>opts. set_keepalive os has f s = (Inr (), s @ opts) \<and> (\<forall>ev \<in> set opts. \<exists>op i. ev = OptSet op (OptInt i) \<and> os_opt os f op (OptInt i))"
  by (auto simp: set_keepalive_def when_has_def option_simps c_int_def)

lemma keepalive_all: "\<forall>op v. os_opt os f op v \<Longrightarrow> \<forall>op. has op \<Longrightarrow> set_keepalive os has f s = (Inr (), s @
    [OptSet SoKeepalive (OptInt 1), OptSet TcpKeepidle (OptInt 60), OptSet TcpKeepintvl (OptInt 10), OptSet TcpKeepcnt (OptInt 3)])"
  by (simp add: set_keepalive_def when_has_def option_simps c_int_def)

lemma mark_probed: "probe_mark os mark = Inr True \<longleftrightarrow> os_socket os Inet = None \<and> c_int mark \<and> os_opt os Inet SoMark (OptInt mark)"
  by (simp add: probe_mark_def bindR_apply false_on_oserror_def setsockopt_def split: option.split)

text \<open>An unlimited hard limit is a number below every soft one, so the limit stays.\<close>

lemma unlimited_not_raised: "0 \<le> soft \<Longrightarrow> raise_fd_limit True (soft, rlim_infinity) = (soft, rlim_infinity)"
  by (simp add: raise_fd_limit_def rlim_infinity_def)

lemma fd_limit_raised: "0 \<le> soft \<Longrightarrow> soft \<le> hard \<Longrightarrow> raise_fd_limit True (soft, hard) = (hard, hard)"
  by (auto simp: raise_fd_limit_def)

section \<open>Properties\<close>

text \<open>Tuning an accepted client fails only for a rate that is not an integer of 64 bits, and otherwise adds to the
  socket options the system accepted.\<close>

theorem tuning_fails_iff:
  "fst (tune_client os has keepalive rate f s) = (if truthy rate \<and> (\<forall>ps. brutal_params rate default_gain \<noteq> Inr ps) then Inl StructError else Inr ())"
proof -
  obtain s' where k: "(if keepalive then set_keepalive os has f else retR ()) s = (Inr (), s')"
    using keepalive_set[of os has f s] by (cases keepalive) auto
  show ?thesis by (auto simp: tune_client_def bindR_apply k rate_set split: sum.split)
qed

theorem float_rate_raises: "r \<noteq> 0 \<Longrightarrow> fst (tune_client os has keepalive (JFloat r) f s) = Inl StructError"
  by (simp add: tuning_fails_iff brutal_params_def)

text \<open>A marked connection is never made unmarked: the mark stands on the socket before it connects; a mark that is refused, or a
  connection that fails, closes the socket.\<close>

theorem marked_before_connecting:
  assumes "open_marked os mark infos = (r, Some s)" "ConnectTo a \<in> set s"
  shows "s = [NonBlocking, OptSet SoMark (OptInt mark), ConnectTo a]"
  using assms by (auto simp: open_marked_def sock_call_def setsockopt_def bindR_apply close_on_error_def sock_close_def
      split: sum.splits list.splits option.splits if_splits)

theorem failed_dial_closes:
  assumes "open_marked os mark infos = (Inl e, Some s)" "os_wrap os = None"
  shows "SockClosed \<in> set s \<and> (\<forall>a. ConnectTo a \<notin> set s)"
  using assms by (auto simp: open_marked_def sock_call_def setsockopt_def bindR_apply close_on_error_def sock_close_def
      split: sum.splits list.splits option.splits if_splits)

text \<open>A connection with a rate has the algorithm and its parameters before it connects, or goes on without them.\<close>

theorem brutal_before_connecting:
  assumes "open_brutal_connection os infos rate = (Inr (), Some s)"
  shows "\<exists>opts a. s = NonBlocking # opts @ [ConnectTo a] \<and> (opts = [] \<or> opts = [OptSet TcpCongestion brutal_name]
    \<or> (\<exists>ps. brutal_params rate default_gain = Inr ps \<and> opts = [OptSet TcpCongestion brutal_name, OptSet TcpBrutalParams (OptBytes ps)]))"
  using assms by (auto simp: open_brutal_connection_def enable_brutal_def algorithm_set rate_set sock_call_def bindR_apply close_on_error_def
      split: sum.splits list.splits option.splits if_splits)

theorem brutal_connects:
  assumes "infos = Inr ((f, a) # rest)" "os_socket os f = None" "os_connect os f a = None" "os_wrap os = None" "brutal_params rate default_gain = Inr ps"
  shows "fst (open_brutal_connection os infos rate) = Inr ()"
  using assms by (simp add: open_brutal_connection_def enable_brutal_def algorithm_set rate_set sock_call_def bindR_apply close_on_error_def
      split: sum.split)

text \<open>A transparent listener that starts has its option before it is bound.\<close>

theorem tproxy_listener:
  assumes "start_tproxy os a = (Inr (), Some s)"
  shows "s = [OptSet SoReuseaddr (OptInt 1), OptSet IpTransparent (OptInt 1), NonBlocking, BindTo a, ListenWith 256]"
  using assms by (auto simp: start_tproxy_def make_tproxy_socket_def sock_call_def set_int_option c_int_def bindR_apply split: option.splits if_splits)

theorem tproxy_refused_closes:
  assumes "os_socket os Inet = None" "os_opt os Inet SoReuseaddr (OptInt 1)" "\<not> os_opt os Inet IpTransparent (OptInt 1)"
  shows "start_tproxy os a = (Inl OSErr, Some [OptSet SoReuseaddr (OptInt 1), SockClosed])"
  using assms by (simp add: start_tproxy_def make_tproxy_socket_def set_int_option c_int_def bindR_apply sock_close_def)

text \<open>A listener that cannot be bound is not closed.\<close>

theorem unbound_tproxy_stays_open:
  assumes "start_tproxy os a = (Inl e, Some s)" "os_bind os a = Some e" "os_opt os Inet SoReuseaddr (OptInt 1)" "os_opt os Inet IpTransparent (OptInt 1)"
  shows "SockClosed \<notin> set s"
  using assms by (auto simp: start_tproxy_def make_tproxy_socket_def sock_call_def set_int_option c_int_def bindR_apply split: option.splits)

end
