(* ===== verification/Server.thy ===== *)
theory Server
  imports Conn_Pool Router_Build Stats Sockets
begin

text \<open>
  \<open>server.py\<close>: the slots per client address, the choice of the egress, and \<open>handle_client\<close>.  Every
  connection runs its own copy of the handler on the shared slots, statistics and replay cache; each
  definition below is the handler's code between two waits, so that a run interleaves them freely.
\<close>

section \<open>Slots\<close>

type_synonym slots = "(pystr, int) odict"

definition acquire_ip_slot :: "int \<Rightarrow> pystr \<Rightarrow> slots \<Rightarrow> bool \<times> slots" where
  "acquire_ip_slot cap ip sl =
     (let n = (case od_get sl ip of Some n \<Rightarrow> n | None \<Rightarrow> 0)
      in if cap \<le> n then (False, sl) else (True, od_set ip (n + 1) sl))"

definition release_ip_slot :: "pystr \<Rightarrow> slots \<Rightarrow> slots" where
  "release_ip_slot ip sl =
     (let c = (case od_get sl ip of Some n \<Rightarrow> n | None \<Rightarrow> 1) - 1
      in if c \<le> 0 then od_del ip sl else od_set ip c sl)"

section \<open>Egress\<close>

datatype egress = DefaultEgress | MarkedEgress pystr int

definition direct_name :: pystr where "direct_name = U ''DIRECT''"

fun egress_name :: "egress \<Rightarrow> pystr" where
  "egress_name DefaultEgress = direct_name"
| "egress_name (MarkedEgress n m) = n"

type_synonym egresses = "(pystr, egress) odict"

text \<open>The loop of \<open>main\<close> over \<open>egresses\<close>; \<open>probe\<close> tries whether the mark can be set (\<open>probe_mark\<close>).\<close>

definition egress_entry :: "(int \<Rightarrow> py_error + bool) \<Rightarrow> json \<Rightarrow> egresses \<Rightarrow> py_error + egresses" where
  "egress_entry probe eg es =
     (if \<not> is_obj eg then Inl AttributeError
      else case jget_or eg (U ''name'') (JStr []) of
        JStr s \<Rightarrow>
          bindE (py_int_of (jget_or eg (U ''mark'') (JInt 0))) (\<lambda>mark.
            let name = py_strip s in
            if name = [] \<or> mark = 0 then Inr es
            else if name = direct_name then Inr es
            else bindE (probe mark) (\<lambda>ok. if \<not> ok then Inl SystemExitErr else Inr (od_set name (MarkedEgress name mark) es)))
      | _ \<Rightarrow> Inl AttributeError)"

fun egress_loop :: "(int \<Rightarrow> py_error + bool) \<Rightarrow> json list \<Rightarrow> egresses \<Rightarrow> py_error + egresses" where
  "egress_loop probe [] es = Inr es"
| "egress_loop probe (eg # egs) es = bindE (egress_entry probe eg es) (egress_loop probe egs)"

definition build_egresses :: "(int \<Rightarrow> py_error + bool) \<Rightarrow> json \<Rightarrow> py_error + egresses" where
  "build_egresses probe cfg =
     bindE (py_iter (jget_or cfg (U ''egresses'') (JList []))) (\<lambda>egs. egress_loop probe egs [(direct_name, DefaultEgress)])"

record server_env =
  se_crypto :: crypto
  se_aead :: aead
  se_password :: pystr
  se_cap :: int
  se_egresses :: egresses
  se_router :: "(route_env \<times> router) option"
  se_os :: os
  se_has :: "sock_opt \<Rightarrow> bool"
  se_keepalive :: bool
  se_rate :: json
  se_peer :: "nat \<Rightarrow> family option"

text \<open>The options set on the socket of an accepted client; \<open>se_peer\<close> is the family of a connection's socket, if it has one.\<close>

definition tuned :: "server_env \<Rightarrow> nat \<Rightarrow> py_error + unit" where
  "tuned env k = (case se_peer env k of None \<Rightarrow> Inr ()
     | Some f \<Rightarrow> fst (tune_client (se_os env) (se_has env) (se_keepalive env) (se_rate env) f []))"

definition choose_egress :: "server_env \<Rightarrow> pystr \<Rightarrow> py_error + egress" where
  "choose_egress env host =
     (case od_get (se_egresses env) direct_name of
        None \<Rightarrow> Inl KeyError
      | Some direct \<Rightarrow>
          (case se_router env of
             None \<Rightarrow> Inr direct
           | Some (re, ro) \<Rightarrow>
               (case od_get (se_egresses env) (fst (router_match re ro host)) of
                  Some e \<Rightarrow> Inr e
                | None \<Rightarrow> Inr direct)))"

text \<open>\<open>egress.open_connection\<close>; \<open>plain\<close> is asyncio's own, and \<open>infos\<close> the answer of the lookup.\<close>

fun dial_egress :: "os \<Rightarrow> dialled \<Rightarrow> (py_error + addr list) \<Rightarrow> egress \<Rightarrow> dialled" where
  "dial_egress os plain infos DefaultEgress = plain"
| "dial_egress os plain infos (MarkedEgress n m) = open_marked os m infos"

section \<open>The handler\<close>

text \<open>Where a connection's handler waits: for the ClientHello, for the first message of the tunnel, for the
  target to answer, or for the relays; the number is its \<open>ConnInfo\<close>.\<close>

datatype stage = Hello | Keyed tunnel | Dialing nat egress | Relaying nat

record server =
  sv_slots :: slots
  sv_stats :: stats
  sv_replay :: replay_cache
  sv_live :: "(nat, pystr \<times> stage) odict"

definition new_server :: "int \<Rightarrow> server" where
  "new_server m = \<lparr> sv_slots = [], sv_stats = new_stats, sv_replay = new_replay_cache m, sv_live = [] \<rparr>"

definition on_connect :: "server_env \<Rightarrow> nat \<Rightarrow> pystr \<Rightarrow> server \<Rightarrow> bool \<times> server" where
  "on_connect env k ip sv =
     (if is_blocked (sv_stats sv) ip then (False, sv)
      else case acquire_ip_slot (se_cap env) ip (sv_slots sv) of
        (False, sl) \<Rightarrow> (False, sv)
      | (True, sl) \<Rightarrow> (True, sv\<lparr> sv_slots := sl, sv_live := od_set k (ip, Hello) (sv_live sv) \<rparr>))"

text \<open>Every way out of the handler passes through its \<open>finally\<close>.\<close>

definition leave :: "nat \<Rightarrow> pystr \<Rightarrow> server \<Rightarrow> server" where
  "leave k ip sv = sv\<lparr> sv_slots := release_ip_slot ip (sv_slots sv), sv_live := od_del k (sv_live sv) \<rparr>"

definition stage_to :: "nat \<Rightarrow> pystr \<Rightarrow> stage \<Rightarrow> server \<Rightarrow> server" where
  "stage_to k ip st sv = sv\<lparr> sv_live := od_set k (ip, st) (sv_live sv) \<rparr>"

definition on_hello ::
    "server_env \<Rightarrow> (nat \<Rightarrow> ('s, bytes) reading) \<Rightarrow> ('s \<Rightarrow> 's) \<Rightarrow> decide_env \<Rightarrow> handshake_cache \<Rightarrow> nat \<Rightarrow> pystr
      \<Rightarrow> 's \<times> bytes \<Rightarrow> server \<Rightarrow> server" where
  "on_hello env rx rd de hc k ip conn sv =
     (case server_read_hello_and_decide rx rd (se_crypto env) (se_password env) de hc (sv_replay sv) conn of
        Inl e \<Rightarrow> leave k ip sv
      | Inr d \<Rightarrow>
          (let sv = sv\<lparr> sv_replay := dc_replay d \<rparr> in
           case dc_accepted d of
             None \<Rightarrow> leave k ip sv
           | Some client_random \<Rightarrow>
               (case bindE (tuned env k) (\<lambda>_. handshake_as_responder (se_crypto env) (se_aead env) (se_password env) client_random new_tunnel) of
                  Inl e \<Rightarrow> leave k ip sv
                | Inr t \<Rightarrow> stage_to k ip (Keyed t) sv)))"

text \<open>The first message: \<open>None\<close> when the idle timeout ends the wait.\<close>

definition on_first ::
    "server_env \<Rightarrow> rat \<Rightarrow> (nat \<Rightarrow> ('s, bytes) reading) \<Rightarrow> nat \<Rightarrow> pystr \<Rightarrow> tunnel \<Rightarrow> 's option \<Rightarrow> server \<Rightarrow> server" where
  "on_first env now rx k ip t arrived sv =
     (case (case arrived of None \<Rightarrow> Inl TimeoutErr | Some s \<Rightarrow> fst (recv (se_aead env) rx t s)) of
        Inl e \<Rightarrow> leave k ip sv
      | Inr packet \<Rightarrow>
          if packet \<noteq> [] \<and> packet ! 0 = 0 then
            (case register now ip (U ''udp'') 0 (Some k) (sv_stats sv) of
               (c, st) \<Rightarrow> stage_to k ip (Relaying (cn_id c)) (sv\<lparr> sv_stats := st \<rparr>))
          else
            (case unpack_address packet of
               Inl e \<Rightarrow> leave k ip sv
             | Inr (host, port, used) \<Rightarrow>
                 (case register now ip host port (Some k) (sv_stats sv) of
                    (c, st) \<Rightarrow>
                      (let sv = sv\<lparr> sv_stats := st \<rparr> in
                       case choose_egress env host of
                         Inl e \<Rightarrow> leave k ip sv
                       | Inr eg \<Rightarrow> stage_to k ip (Dialing (cn_id c) eg) sv))))"

text \<open>\<open>store.unregister(conn)\<close> on the way out.\<close>

definition drop_conn :: "rat \<Rightarrow> rat \<Rightarrow> nat \<Rightarrow> server \<Rightarrow> server" where
  "drop_conn now wall i sv = (case od_get (st_active (sv_stats sv)) i of
       None \<Rightarrow> sv
     | Some c \<Rightarrow> sv\<lparr> sv_stats := unregister now wall c (sv_stats sv) \<rparr>)"

definition on_dialed :: "rat \<Rightarrow> rat \<Rightarrow> nat \<Rightarrow> pystr \<Rightarrow> nat \<Rightarrow> bool \<Rightarrow> server \<Rightarrow> server" where
  "on_dialed now wall k ip i opened sv =
     (if opened then stage_to k ip (Relaying i) sv else leave k ip (drop_conn now wall i sv))"

definition on_relayed :: "nat \<Rightarrow> int \<Rightarrow> int \<Rightarrow> server \<Rightarrow> server" where
  "on_relayed i up down sv = sv\<lparr> sv_stats := add_down i down (add_up i up (sv_stats sv)) \<rparr>"

definition on_closed :: "rat \<Rightarrow> rat \<Rightarrow> nat \<Rightarrow> pystr \<Rightarrow> nat \<Rightarrow> server \<Rightarrow> server" where
  "on_closed now wall k ip i sv = leave k ip (drop_conn now wall i sv)"

text \<open>
  A run of the server with what has been relayed so far.  The administrator's calls interleave; the egress
  table never loses its default.
\<close>

inductive server_run :: "server_env \<Rightarrow> int \<Rightarrow> int \<Rightarrow> server \<Rightarrow> bool" for env where
  start: "server_run env 0 0 (new_server m)"
| connect: "server_run env u d sv \<Longrightarrow> \<not> od_mem k (sv_live sv) \<Longrightarrow> on_connect env k ip sv = (ok, sv')
    \<Longrightarrow> server_run env u d sv'"
| hello: "server_run env u d sv \<Longrightarrow> od_get (sv_live sv) k = Some (ip, Hello)
    \<Longrightarrow> server_run env u d (on_hello env raw_readexactly rd de hc k ip (conn :: bytes list \<times> bytes) sv)"
| first: "server_run env u d sv \<Longrightarrow> od_get (sv_live sv) k = Some (ip, Keyed t)
    \<Longrightarrow> server_run env u d (on_first env now raw_readexactly k ip t arrived sv)"
| dialed: "server_run env u d sv \<Longrightarrow> od_get (sv_live sv) k = Some (ip, Dialing i eg)
    \<Longrightarrow> server_run env u d (on_dialed now wall k ip i opened sv)"
| relayed: "server_run env u d sv \<Longrightarrow> od_get (sv_live sv) k = Some (ip, Relaying i)
    \<Longrightarrow> server_run env (u + up) (d + down) (on_relayed i up down sv)"
| closed: "server_run env u d sv \<Longrightarrow> od_get (sv_live sv) k = Some (ip, Relaying i)
    \<Longrightarrow> server_run env u d (on_closed now wall k ip i sv)"
| block: "server_run env u d sv \<Longrightarrow> server_run env u d (sv\<lparr> sv_stats := snd (block ip (sv_stats sv)) \<rparr>)"
| unblock: "server_run env u d sv \<Longrightarrow> server_run env u d (sv\<lparr> sv_stats := unblock ip (sv_stats sv) \<rparr>)"


lemma tuned_rate: "truthy (se_rate env) \<longrightarrow> (\<exists>ps. brutal_params (se_rate env) default_gain = Inr ps) \<Longrightarrow> tuned env k = Inr ()"
  by (auto simp: tuned_def tuning_fails_iff split: option.split)

section \<open>Slots are the live connections\<close>

definition live_from :: "pystr \<Rightarrow> (nat, pystr \<times> stage) odict \<Rightarrow> int" where
  "live_from ip = od_sum (\<lambda>(a, st). if a = ip then 1 else 0)"

definition slots_ok :: "int \<Rightarrow> server \<Rightarrow> bool" where
  "slots_ok cap sv \<longleftrightarrow> od_ok (sv_live sv) \<and> od_ok (sv_slots sv)
     \<and> (\<forall>ip. 0 \<le> live_from ip (sv_live sv) \<and> live_from ip (sv_live sv) \<le> max 0 cap
       \<and> od_get (sv_slots sv) ip = (if live_from ip (sv_live sv) = 0 then None else Some (live_from ip (sv_live sv))))"

lemma live_from_new:
  "od_get live k = None \<Longrightarrow> live_from a (od_set k (ip, st) live) = live_from a live + (if ip = a then 1 else 0)"
  by (simp add: live_from_def od_sum_set_new)

lemma live_from_old: "od_get live k = Some (ip, st) \<Longrightarrow> live_from a (od_set k (ip, st') live) = live_from a live"
  by (simp add: live_from_def od_sum_set_old)

lemma live_from_del:
  "od_ok live \<Longrightarrow> od_get live k = Some (ip, st) \<Longrightarrow> live_from a (od_del k live) = live_from a live - (if ip = a then 1 else 0)"
  by (simp add: live_from_def od_sum_del)

lemma slots_stage:
  "slots_ok cap sv \<Longrightarrow> od_get (sv_live sv) k = Some (ip, st) \<Longrightarrow> slots_ok cap (stage_to k ip st' sv)"
  by (simp add: slots_ok_def stage_to_def live_from_old od_ok_set)

lemma slots_leave:
  assumes "slots_ok cap sv" "od_get (sv_live sv) k = Some (ip, st)"
  shows "slots_ok cap (leave k ip sv)"
proof -
  have ok: "od_ok (sv_live sv)" "od_ok (sv_slots sv)" using assms(1) by (simp_all add: slots_ok_def)
  have d: "live_from a (od_del k (sv_live sv)) = live_from a (sv_live sv) - (if ip = a then 1 else 0)" for a
    by (rule live_from_del[OF ok(1) assms(2)])
  have all: "0 \<le> live_from a (sv_live sv)" "live_from a (sv_live sv) \<le> max 0 cap"
    "od_get (sv_slots sv) a = (if live_from a (sv_live sv) = 0 then None else Some (live_from a (sv_live sv)))" for a
    using assms(1) by (simp_all add: slots_ok_def)
  have "0 \<le> live_from ip (od_del k (sv_live sv))"
    using od_sum_nonneg[of "\<lambda>(a, st). if a = ip then 1 else 0" "od_del k (sv_live sv)"] by (auto simp: live_from_def)
  then have pos: "1 \<le> live_from ip (sv_live sv)" using d[of ip] by simp
  show ?thesis
    using ok all pos d all[of ip]
    by (auto simp: slots_ok_def leave_def release_ip_slot_def Let_def)
qed

lemma slots_frame [simp]:
  "slots_ok cap (sv\<lparr> sv_stats := st \<rparr>) = slots_ok cap sv" "slots_ok cap (sv\<lparr> sv_replay := rc \<rparr>) = slots_ok cap sv"
  by (simp_all add: slots_ok_def)

lemma slots_drop [simp]: "slots_ok cap (drop_conn now wall i sv) = slots_ok cap sv"
  by (simp add: drop_conn_def split: option.split)

lemma live_drop [simp]: "sv_live (drop_conn now wall i sv) = sv_live sv" "sv_slots (drop_conn now wall i sv) = sv_slots sv"
  by (simp_all add: drop_conn_def split: option.split)

lemma slots_connect:
  assumes "slots_ok (se_cap env) sv" "\<not> od_mem k (sv_live sv)" "on_connect env k ip sv = (ok, sv')"
  shows "slots_ok (se_cap env) sv'"
proof -
  let ?L = "\<lambda>a. live_from a (sv_live sv)"
  have n: "od_get (sv_live sv) k = None" using assms(2) unfolding od_mem_get by blast
  have all: "0 \<le> ?L a" "?L a \<le> max 0 (se_cap env)" "od_get (sv_slots sv) a = (if ?L a = 0 then None else Some (?L a))" for a
    using assms(1) by (simp_all add: slots_ok_def)
  have "acquire_ip_slot (se_cap env) ip (sv_slots sv) =
      (if se_cap env \<le> ?L ip then (False, sv_slots sv) else (True, od_set ip (?L ip + 1) (sv_slots sv)))"
    by (simp add: acquire_ip_slot_def all(3))
  then consider "sv' = sv" | "\<not> se_cap env \<le> ?L ip"
      "sv' = sv\<lparr> sv_slots := od_set ip (?L ip + 1) (sv_slots sv), sv_live := od_set k (ip, Hello) (sv_live sv) \<rparr>"
    using assms(3) by (auto simp: on_connect_def split: if_splits)
  then show ?thesis
  proof cases
    case 1
    then show ?thesis using assms(1) by simp
  next
    case 2
    have "live_from a (sv_live sv') = ?L a + (if ip = a then 1 else 0)" for a by (simp add: 2(2) live_from_new[OF n])
    moreover have "od_ok (sv_live sv')" "od_ok (sv_slots sv')"
      using assms(1) by (simp_all add: 2(2) slots_ok_def od_ok_set)
    moreover have "od_get (sv_slots sv') a = (if ?L a + (if ip = a then 1 else 0) = 0 then None
        else Some (?L a + (if ip = a then 1 else 0)))" for a
      using all(1)[of ip] by (simp add: 2(2) all(3))
    moreover have "0 \<le> ?L a + (if ip = a then 1 else 0)" "?L a + (if ip = a then 1 else 0) \<le> max 0 (se_cap env)" for a
      using all(1)[of a] all(2)[of a] 2(1) by auto
    ultimately show ?thesis unfolding slots_ok_def by presburger
  qed
qed

text \<open>A handler step ends the connection or moves it to another stage.\<close>

lemma on_hello_cases:
  obtains rc where "on_hello env rx rd de hc k ip conn sv = leave k ip (sv\<lparr> sv_replay := rc \<rparr>)"
  | d rnd t where "server_read_hello_and_decide rx rd (se_crypto env) (se_password env) de hc (sv_replay sv) conn = Inr d"
      "dc_accepted d = Some rnd"
      "handshake_as_responder (se_crypto env) (se_aead env) (se_password env) rnd new_tunnel = Inr t"
      "on_hello env rx rd de hc k ip conn sv = stage_to k ip (Keyed t) (sv\<lparr> sv_replay := dc_replay d \<rparr>)"
proof (cases "server_read_hello_and_decide rx rd (se_crypto env) (se_password env) de hc (sv_replay sv) conn")
  case (Inl e)
  have "sv = sv\<lparr> sv_replay := sv_replay sv \<rparr>" by simp
  then show thesis using that(1)[of "sv_replay sv"] Inl by (simp add: on_hello_def)
next
  case (Inr d)
  show thesis
  proof (cases "dc_accepted d")
    case None
    then show thesis using that(1)[of "dc_replay d"] Inr by (simp add: on_hello_def)
  next
    case (Some rnd)
    show thesis
      using that(1)[of "dc_replay d"] that(2)[OF Inr Some] Inr Some
      by (cases "bindE (tuned env k) (\<lambda>_. handshake_as_responder (se_crypto env) (se_aead env) (se_password env) rnd new_tunnel)")
        (auto simp: on_hello_def bindE_Inr_iff)
  qed
qed


lemma on_first_cases:
  assumes "od_mem direct_name (se_egresses env)"
  obtains "on_first env now rx k ip t arrived sv = leave k ip sv"
  | c st where "register now ip (U ''udp'') 0 (Some k) (sv_stats sv) = (c, st)"
      "on_first env now rx k ip t arrived sv = stage_to k ip (Relaying (cn_id c)) (sv\<lparr> sv_stats := st \<rparr>)"
  | host port c st eg where "register now ip host port (Some k) (sv_stats sv) = (c, st)"
      "on_first env now rx k ip t arrived sv = stage_to k ip (Dialing (cn_id c) eg) (sv\<lparr> sv_stats := st \<rparr>)"
proof -
  have eg: "\<exists>eg. choose_egress env host = Inr eg" for host
    using assms by (auto simp: choose_egress_def od_mem_get split: option.split)
  show thesis
  proof (cases "case arrived of None \<Rightarrow> Inl TimeoutErr | Some s \<Rightarrow> fst (recv (se_aead env) rx t s)")
    case (Inl e)
    then show thesis using that(1) by (simp add: on_first_def)
  next
    case (Inr packet)
    show thesis
    proof (cases "packet \<noteq> [] \<and> packet ! 0 = 0")
      case True
      obtain c st where r: "register now ip (U ''udp'') 0 (Some k) (sv_stats sv) = (c, st)" by fastforce
      show thesis by (rule that(2)[OF r]) (use Inr True r in \<open>simp add: on_first_def\<close>)
    next
      case False
      show thesis
      proof (cases "unpack_address packet")
        case (Inl e)
        then show thesis using that(1) Inr False by (simp add: on_first_def)
      next
        case R: (Inr a)
        obtain host port used where a: "a = (host, port, used)" by (cases a)
        obtain c st where r: "register now ip host port (Some k) (sv_stats sv) = (c, st)" by fastforce
        obtain e where e: "choose_egress env host = Inr e" using eg by blast
        show thesis
          by (rule that(3)[OF r, of e]) (simp only: on_first_def Inr False R a r e sum.case prod.case if_False Let_def)
      qed
    qed
  qed
qed

section \<open>Statistics are the connections past their first message\<close>

fun conn_of :: "stage \<Rightarrow> nat option" where
  "conn_of (Dialing i e) = Some i"
| "conn_of (Relaying i) = Some i"
| "conn_of s = None"

text \<open>The \<open>ConnInfo\<close> a connection owns, with its client.\<close>

definition owned :: "(nat, pystr \<times> stage) odict \<Rightarrow> nat \<Rightarrow> (pystr \<times> nat) option" where
  "owned live k = (case od_get live k of None \<Rightarrow> None
     | Some (ip, st) \<Rightarrow> (case conn_of st of None \<Rightarrow> None | Some i \<Rightarrow> Some (ip, i)))"

definition matched :: "(nat \<Rightarrow> conn_info option) \<Rightarrow> (nat \<Rightarrow> (pystr \<times> nat) option) \<Rightarrow> nat \<Rightarrow> bool" where
  "matched A W n \<longleftrightarrow> (\<forall>i c. A i = Some c \<longrightarrow> cn_id c = i \<and> i \<le> n \<and> (\<exists>k. W k = Some (cn_client c, i)))
     \<and> (\<forall>k ip i. W k = Some (ip, i) \<longrightarrow> A i \<noteq> None)
     \<and> (\<forall>k k' ip ip' i. W k = Some (ip, i) \<longrightarrow> W k' = Some (ip', i) \<longrightarrow> k = k')"

definition conns_ok :: "server \<Rightarrow> bool" where
  "conns_ok sv \<longleftrightarrow> od_ok (st_active (sv_stats sv))
     \<and> matched (od_get (st_active (sv_stats sv))) (owned (sv_live sv)) (st_counter (sv_stats sv))"

definition totals_ok :: "int \<Rightarrow> int \<Rightarrow> server \<Rightarrow> bool" where
  "totals_ok u d sv \<longleftrightarrow> st_up (sv_stats sv) + od_sum cn_up (st_active (sv_stats sv)) = u
     \<and> st_dn (sv_stats sv) + od_sum cn_down (st_active (sv_stats sv)) = d
     \<and> st_total (sv_stats sv) = int (st_counter (sv_stats sv))"

lemma matched_add:
  assumes "matched A W n" "W k = None" "cn_id c = Suc n"
  shows "matched (A(Suc n \<mapsto> c)) (W(k \<mapsto> (cn_client c, Suc n))) (Suc n)"
proof -
  have A: "cn_id x = i \<and> i \<le> n \<and> (\<exists>k. W k = Some (cn_client x, i))" if "A i = Some x" for i x
    using assms(1) that unfolding matched_def by blast
  have B: "A i \<noteq> None" if "W j = Some (ip, i)" for j ip i using assms(1) that unfolding matched_def by blast
  have C: "j = j'" if "W j = Some (ip, i)" "W j' = Some (ip', i)" for j j' ip ip' i
    using assms(1) that unfolding matched_def by blast
  have N: "W j \<noteq> Some (ip, Suc n)" for j ip using A[of "Suc n"] B[of j ip "Suc n"] by fastforce
  have "cn_id x = i \<and> i \<le> Suc n \<and> (\<exists>j. (W(k \<mapsto> (cn_client c, Suc n))) j = Some (cn_client x, i))"
    if a: "(A(Suc n \<mapsto> c)) i = Some x" for i x
  proof (cases "i = Suc n")
    case True
    then show ?thesis using a assms(3) by auto
  next
    case False
    then obtain j where "W j = Some (cn_client x, i)" "cn_id x = i" "i \<le> n" using a A[of i x] by auto
    moreover have "j \<noteq> k" using calculation(1) assms(2) by auto
    ultimately show ?thesis by (auto intro!: exI[of _ j])
  qed
  moreover have "(A(Suc n \<mapsto> c)) i \<noteq> None" if "(W(k \<mapsto> (cn_client c, Suc n))) j = Some (ip, i)" for j ip i
    using that B[of j ip i] by (auto split: if_splits)
  moreover have "j = j'" if "(W(k \<mapsto> (cn_client c, Suc n))) j = Some (ip, i)"
    "(W(k \<mapsto> (cn_client c, Suc n))) j' = Some (ip', i)" for j j' ip ip' i
    using that C[of j ip i j' ip'] N by (auto split: if_splits)
  ultimately show ?thesis unfolding matched_def by blast
qed

lemma matched_remove:
  assumes "matched A W n" "W k = Some (ip, i)"
  shows "matched (A(i := None)) (W(k := None)) n"
proof -
  have C: "j = k" if "W j = Some (ip', i)" for j ip' using assms that unfolding matched_def by blast
  have "\<exists>j. (W(k := None)) j = Some (cn_client x, i')" if a: "A i' = Some x" "i' \<noteq> i" for i' x
  proof -
    obtain j where "W j = Some (cn_client x, i')" using assms(1) a(1) unfolding matched_def by blast
    then show ?thesis using a(2) assms(2) by (auto intro!: exI[of _ j])
  qed
  then show ?thesis using assms(1) C unfolding matched_def by (auto split: if_splits)
qed

lemma owned_stage [simp]:
  "owned (sv_live (stage_to k ip st sv)) = (owned (sv_live sv))(k := (case conn_of st of None \<Rightarrow> None | Some i \<Rightarrow> Some (ip, i)))"
  by (rule ext) (simp add: owned_def stage_to_def)

lemma owned_leave [simp]: "owned (sv_live (leave k ip sv)) = (owned (sv_live sv))(k := None)"
  by (rule ext) (simp add: owned_def leave_def)

lemma stats_frame [simp]:
  "sv_stats (stage_to k ip st sv) = sv_stats sv" "sv_stats (leave k ip sv) = sv_stats sv"
  by (simp_all add: stage_to_def leave_def)

lemma conns_cong:
  "conns_ok sv \<Longrightarrow> sv_stats sv' = sv_stats sv \<Longrightarrow> owned (sv_live sv') = owned (sv_live sv) \<Longrightarrow> conns_ok sv'"
  by (simp add: conns_ok_def)


lemma conns_register:
  assumes "conns_ok sv" "owned (sv_live sv) k = None" "register now ip host port w (sv_stats sv) = (c, st)" "conn_of s = Some (cn_id c)"
  shows "conns_ok (stage_to k ip s (sv\<lparr> sv_stats := st \<rparr>))"
proof -
  have c: "cn_id c = Suc (st_counter (sv_stats sv))" "cn_client c = ip" "st_counter st = Suc (st_counter (sv_stats sv))"
    "st_active st = od_set (cn_id c) c (st_active (sv_stats sv))"
    using assms(3) by (auto simp: register_def touch_conn_def Let_def)
  have "od_get (st_active st) = (od_get (st_active (sv_stats sv)))(cn_id c \<mapsto> c)" by (rule ext) (simp add: c(4))
  then show ?thesis
    using matched_add[of _ _ "st_counter (sv_stats sv)" k c] assms(1,2,4) c
    by (simp add: conns_ok_def od_ok_set)
qed

lemma totals_register:
  assumes "conns_ok sv" "totals_ok u d sv" "register now ip host port w (sv_stats sv) = (c, st)"
  shows "totals_ok u d (stage_to k ip s (sv\<lparr> sv_stats := st \<rparr>))"
proof -
  let ?i = "Suc (st_counter (sv_stats sv))"
  have "od_get (st_active (sv_stats sv)) ?i = None"
    using assms(1) unfolding conns_ok_def matched_def by (metis not_less_eq_eq le_refl option.exhaust)
  then show ?thesis
    using assms(2,3) by (auto simp: register_def touch_conn_def Let_def totals_ok_def od_sum_set_new)
qed

lemma touch_bytes_frame [simp]:
  "st_active (touch_bytes h n st) = st_active st" "st_counter (touch_bytes h n st) = st_counter st"
  "st_up (touch_bytes h n st) = st_up st" "st_dn (touch_bytes h n st) = st_dn st" "st_total (touch_bytes h n st) = st_total st"
  by (simp_all add: touch_bytes_def)

lemma unregister_frame [simp]:
  "st_active (unregister now wall c st) = od_del (cn_id c) (st_active st)" "st_counter (unregister now wall c st) = st_counter st"
  "st_up (unregister now wall c st) = st_up st + cn_up c" "st_dn (unregister now wall c st) = st_dn st + cn_down c"
  "st_total (unregister now wall c st) = st_total st"
  by (simp_all add: unregister_def Let_def)

lemma owned_conn:
  assumes "conns_ok sv" "owned (sv_live sv) k = Some (ip, i)"
  obtains c where "od_get (st_active (sv_stats sv)) i = Some c" "cn_id c = i" "cn_client c = ip"
proof -
  from assms obtain c where c: "od_get (st_active (sv_stats sv)) i = Some c" unfolding conns_ok_def matched_def by blast
  then obtain j where "cn_id c = i" "owned (sv_live sv) j = Some (cn_client c, i)"
    using assms(1) unfolding conns_ok_def matched_def by blast
  moreover have "j = k" using assms calculation(2) unfolding conns_ok_def matched_def by blast
  ultimately show thesis using that[OF c] assms(2) by simp
qed

lemma drop_leave:
  assumes "conns_ok sv" "totals_ok u d sv" "owned (sv_live sv) k = Some (ip, i)"
  shows "conns_ok (leave k ip (drop_conn now wall i sv))" "totals_ok u d (leave k ip (drop_conn now wall i sv))"
proof -
  obtain c where c: "od_get (st_active (sv_stats sv)) i = Some c" "cn_id c = i" "cn_client c = ip"
    by (rule owned_conn[OF assms(1,3)])
  have ok: "od_ok (st_active (sv_stats sv))" using assms(1) by (simp add: conns_ok_def)
  have "od_get (od_del i (st_active (sv_stats sv))) = (od_get (st_active (sv_stats sv)))(i := None)"
    by (rule ext) simp
  then show "conns_ok (leave k ip (drop_conn now wall i sv))"
    using matched_remove[where W = "owned (sv_live sv)", OF _ assms(3)] assms(1) c ok
    by (simp add: conns_ok_def drop_conn_def od_ok_del)
  show "totals_ok u d (leave k ip (drop_conn now wall i sv))"
    using assms(2) c od_sum_del[OF ok c(1), of cn_up] od_sum_del[OF ok c(1), of cn_down]
    by (simp add: totals_ok_def drop_conn_def)
qed

lemma relayed_stats:
  assumes "conns_ok sv" "totals_ok u d sv" "owned (sv_live sv) k = Some (ip, i)"
  shows "conns_ok (on_relayed i up down sv)" "totals_ok (u + up) (d + down) (on_relayed i up down sv)"
proof -
  obtain c where c: "od_get (st_active (sv_stats sv)) i = Some c" "cn_id c = i" "cn_client c = ip"
    by (rule owned_conn[OF assms(1,3)])
  let ?c = "c\<lparr> cn_up := cn_up c + up \<rparr>"
  let ?A = "od_set i (?c\<lparr> cn_down := cn_down c + down \<rparr>) (od_set i ?c (st_active (sv_stats sv)))"
  have r: "on_relayed i up down sv = sv\<lparr> sv_stats := (sv_stats sv)\<lparr> st_active := ?A \<rparr> \<rparr>"
    by (simp add: on_relayed_def add_up_def add_down_def c)
  have ok: "od_ok (st_active (sv_stats sv))" using assms(1) by (simp add: conns_ok_def)
  have g: "od_get ?A = (od_get (st_active (sv_stats sv)))(i \<mapsto> ?c\<lparr> cn_down := cn_down c + down \<rparr>)" by (rule ext) simp
  have "matched (od_get ?A) (owned (sv_live sv)) (st_counter (sv_stats sv))"
    using assms(1) c unfolding conns_ok_def matched_def g by (auto split: if_splits)
  then show "conns_ok (on_relayed i up down sv)" using ok by (simp add: r conns_ok_def od_ok_set)
  show "totals_ok (u + up) (d + down) (on_relayed i up down sv)"
    using assms(2) c od_sum_set_old[OF c(1), of cn_up] od_sum_set_old[OF c(1), of cn_down]
      od_sum_set_old[of "od_set i ?c (st_active (sv_stats sv))" i ?c cn_up]
      od_sum_set_old[of "od_set i ?c (st_active (sv_stats sv))" i ?c cn_down]
    by (simp add: r totals_ok_def)
qed

definition server_ok :: "server_env \<Rightarrow> int \<Rightarrow> int \<Rightarrow> server \<Rightarrow> bool" where
  "server_ok env u d sv \<longleftrightarrow> slots_ok (se_cap env) sv \<and> conns_ok sv \<and> totals_ok u d sv"

lemma server_ok_keep:
  "server_ok env u d sv \<Longrightarrow> slots_ok (se_cap env) sv' \<Longrightarrow> sv_stats sv' = sv_stats sv
    \<Longrightarrow> owned (sv_live sv') = owned (sv_live sv) \<Longrightarrow> server_ok env u d sv'"
  by (simp add: server_ok_def conns_ok_def totals_ok_def)

lemma owned_at: "od_get (sv_live sv) k = Some (ip, st) \<Longrightarrow> owned (sv_live sv) k = (case conn_of st of None \<Rightarrow> None | Some i \<Rightarrow> Some (ip, i))"
  by (simp add: owned_def)


section \<open>The invariant of a run\<close>

lemma egress_entry_ok:
  "egress_entry probe eg es = Inr es' \<Longrightarrow> od_get es direct_name = Some DefaultEgress
    \<Longrightarrow> \<forall>n e. od_get es n = Some e \<longrightarrow> n \<noteq> direct_name \<longrightarrow> (\<exists>m. e = MarkedEgress n m \<and> m \<noteq> 0 \<and> probe m = Inr True)
    \<Longrightarrow> od_get es' direct_name = Some DefaultEgress
      \<and> (\<forall>n e. od_get es' n = Some e \<longrightarrow> n \<noteq> direct_name \<longrightarrow> (\<exists>m. e = MarkedEgress n m \<and> m \<noteq> 0 \<and> probe m = Inr True))"
  by (auto simp: egress_entry_def bindE_Inr_iff Let_def split: json.splits if_splits)

lemma egress_loop_ok:
  "egress_loop probe egs es = Inr es' \<Longrightarrow> od_get es direct_name = Some DefaultEgress
    \<Longrightarrow> \<forall>n e. od_get es n = Some e \<longrightarrow> n \<noteq> direct_name \<longrightarrow> (\<exists>m. e = MarkedEgress n m \<and> m \<noteq> 0 \<and> probe m = Inr True)
    \<Longrightarrow> od_get es' direct_name = Some DefaultEgress
      \<and> (\<forall>n e. od_get es' n = Some e \<longrightarrow> n \<noteq> direct_name \<longrightarrow> (\<exists>m. e = MarkedEgress n m \<and> m \<noteq> 0 \<and> probe m = Inr True))"
proof (induction egs arbitrary: es)
  case Nil
  then show ?case by simp
next
  case (Cons eg egs)
  then obtain es1 where 1: "egress_entry probe eg es = Inr es1" "egress_loop probe egs es1 = Inr es'"
    by (auto simp: bindE_Inr_iff)
  show ?case using Cons.IH[OF 1(2)] egress_entry_ok[OF 1(1) Cons.prems(2,3)] by blast
qed

lemma built_egresses:
  assumes "build_egresses probe cfg = Inr es"
  shows "od_get es direct_name = Some DefaultEgress"
    "od_get es n = Some e \<Longrightarrow> n \<noteq> direct_name \<Longrightarrow> \<exists>m. e = MarkedEgress n m \<and> m \<noteq> 0 \<and> probe m = Inr True"
proof -
  obtain egs where "egress_loop probe egs [(direct_name, DefaultEgress)] = Inr es"
    using assms by (auto simp: build_egresses_def bindE_Inr_iff)
  note l = egress_loop_ok[OF this]
  have "od_get [(direct_name, DefaultEgress)] direct_name = Some DefaultEgress"
    "\<forall>n e. od_get [(direct_name, DefaultEgress)] n = Some e \<longrightarrow> n \<noteq> direct_name \<longrightarrow> (\<exists>m. e = MarkedEgress n m \<and> m \<noteq> 0 \<and> probe m = Inr True)"
    by (simp_all add: od_get_def)
  note r = l[OF this]
  show "od_get es direct_name = Some DefaultEgress" using r by blast
  show "od_get es n = Some e \<Longrightarrow> n \<noteq> direct_name \<Longrightarrow> \<exists>m. e = MarkedEgress n m \<and> m \<noteq> 0 \<and> probe m = Inr True" using r by blast
qed

lemma server_run_ok:
  assumes "server_run env u d sv" "od_mem direct_name (se_egresses env)"
  shows "server_ok env u d sv"
  using assms
proof (induction rule: server_run.induct)
  case (start m)
  have "matched (od_get []) (owned []) 0" by (simp add: matched_def owned_def)
  then show ?case
    by (simp add: server_ok_def slots_ok_def conns_ok_def totals_ok_def new_server_def new_stats_def live_from_def)
next
  case (connect u d sv k ip ok sv')
  note ih = connect.IH[OF connect.prems]
  have n: "od_get (sv_live sv) k = None" using connect.hyps(2) unfolding od_mem_get by blast
  have "sv_stats sv' = sv_stats sv" "owned (sv_live sv') = owned (sv_live sv)"
    using connect.hyps(3) n
    by (auto simp: on_connect_def owned_def fun_eq_iff split: if_splits prod.splits bool.splits)
  then show ?case
    using server_ok_keep[OF ih slots_connect[OF _ connect.hyps(2,3)]] ih by (simp add: server_ok_def)
next
  case (hello u d sv k ip rd de hc conn)
  note ih = hello.IH[OF hello.prems]
  have s: "slots_ok (se_cap env) (sv\<lparr> sv_replay := rc \<rparr>)" for rc using ih by (simp add: server_ok_def)
  have g: "od_get (sv_live (sv\<lparr> sv_replay := rc \<rparr>)) k = Some (ip, Hello)" for rc using hello.hyps(2) by simp
  have o: "(owned (sv_live sv))(k := None) = owned (sv_live sv)"
    by (rule fun_upd_idem) (simp add: owned_at[OF hello.hyps(2)])
  show ?case
  proof (cases rule: on_hello_cases[of env raw_readexactly rd de hc k ip conn sv])
    case (1 rc)
    show ?thesis unfolding 1
      by (rule server_ok_keep[OF ih slots_leave[OF s g]]) (simp_all add: o)
  next
    case (2 dd rnd t)
    show ?thesis unfolding 2(4)
      by (rule server_ok_keep[OF ih slots_stage[OF s g]]) (simp_all add: o)
  qed
next
  case (first u d sv k ip t now arrived)
  note ih = first.IH[OF first.prems]
  have s: "slots_ok (se_cap env) (sv\<lparr> sv_stats := st \<rparr>)" for st using ih by (simp add: server_ok_def)
  have g: "od_get (sv_live (sv\<lparr> sv_stats := st \<rparr>)) k = Some (ip, Keyed t)" for st using first.hyps(2) by simp
  have o: "owned (sv_live sv) k = None" by (simp add: owned_at[OF first.hyps(2)])
  have ok: "conns_ok sv" "totals_ok u d sv" using ih by (simp_all add: server_ok_def)
  from first.prems show ?case
  proof (cases rule: on_first_cases[of env now raw_readexactly k ip t arrived sv])
    case 1
    have "sv = sv\<lparr> sv_stats := sv_stats sv \<rparr>" by simp
    then show ?thesis unfolding 1
      using server_ok_keep[OF ih slots_leave[OF _ first.hyps(2)]] ih fun_upd_idem[of "owned (sv_live sv)" k, OF o] by (simp add: server_ok_def)
  next
    case (2 c st)
    show ?thesis unfolding 2(2) server_ok_def
      using slots_stage[OF s g] conns_register[OF ok(1) o 2(1)] totals_register[OF ok 2(1)] by simp
  next
    case (3 host port c st eg)
    show ?thesis unfolding 3(2) server_ok_def
      using slots_stage[OF s g] conns_register[OF ok(1) o 3(1)] totals_register[OF ok 3(1)] by simp
  qed
next
  case (dialed u d sv k ip i eg now wall opened)
  note ih = dialed.IH[OF dialed.prems]
  have o: "owned (sv_live sv) k = Some (ip, i)" by (simp add: owned_at[OF dialed.hyps(2)])
  have g: "od_get (sv_live (drop_conn now wall i sv)) k = Some (ip, Dialing i eg)" using dialed.hyps(2) by simp
  show ?case
  proof (cases opened)
    case True
    have "(owned (sv_live sv))(k \<mapsto> (ip, i)) = owned (sv_live sv)" by (rule fun_upd_idem) (rule o)
    then show ?thesis
      using server_ok_keep[OF ih slots_stage[OF _ dialed.hyps(2)]] ih True by (simp add: on_dialed_def server_ok_def)
  next
    case False
    then show ?thesis
      using ih drop_leave[of sv u d k ip i now wall] o slots_leave[OF _ g] by (simp add: on_dialed_def server_ok_def)
  qed
next
  case (relayed u d sv k ip i up down)
  note ih = relayed.IH[OF relayed.prems]
  have "owned (sv_live sv) k = Some (ip, i)" by (simp add: owned_at[OF relayed.hyps(2)])
  then show ?case using relayed_stats[of sv u d k ip i] ih by (simp add: server_ok_def on_relayed_def)
next
  case (closed u d sv k ip i now wall)
  note ih = closed.IH[OF closed.prems]
  have o: "owned (sv_live sv) k = Some (ip, i)" by (simp add: owned_at[OF closed.hyps(2)])
  have g: "od_get (sv_live (drop_conn now wall i sv)) k = Some (ip, Relaying i)" using closed.hyps(2) by simp
  show ?case using ih drop_leave[of sv u d k ip i now wall] o slots_leave[OF _ g] by (simp add: on_closed_def server_ok_def)
next
  case (block u d sv ip)
  then show ?case by (simp add: server_ok_def conns_ok_def totals_ok_def block_def)
next
  case (unblock u d sv ip)
  then show ?case by (simp add: server_ok_def conns_ok_def totals_ok_def unblock_def)
qed


section \<open>Properties\<close>

lemma live_count: "live_from ip live = int (length (filter (\<lambda>(k, a, st). a = ip) live))"
  by (induction live) (auto simp: live_from_def od_sum_def)

text \<open>C26: The slot table counts exactly the live connections of every address, none has more than the cap, and
  an address without connections has no entry: however the handlers of all clients are interleaved and end,
  no slot leaks and none is given back twice.\<close>

theorem slots_count_live:
  assumes "server_run env u d sv" "build_egresses probe cfg = Inr (se_egresses env)"
  shows "(let n = int (length (filter (\<lambda>(k, a, st). a = ip) (sv_live sv)))
    in n \<le> max 0 (se_cap env) \<and> od_get (sv_slots sv) ip = (if n = 0 then None else Some n))"
proof -
  have "od_mem direct_name (se_egresses env)" using built_egresses(1)[OF assms(2)] by (simp add: od_mem_get)
  then have "slots_ok (se_cap env) sv" using server_run_ok[OF assms(1)] by (simp add: server_ok_def)
  then show ?thesis unfolding slots_ok_def live_count Let_def by blast
qed

text \<open>C27: The administrator's totals are exact: at every moment of a run they are the bytes relayed in each
  direction and the connections registered so far, and the connections shown as active are owned one to one
  by the handlers past their first message, with the right client address, so that none is left when
  those handlers have ended.\<close>

theorem statistics_are_exact:
  assumes "server_run env u d sv" "build_egresses probe cfg = Inr (se_egresses env)"
  shows "sn_up (snapshot now (sv_stats sv)) = u \<and> sn_dn (snapshot now (sv_stats sv)) = d
    \<and> sn_total (snapshot now (sv_stats sv)) = int (st_counter (sv_stats sv))
    \<and> (\<forall>i c. od_get (st_active (sv_stats sv)) i = Some c \<longrightarrow>
        (\<exists>!k. \<exists>st. od_get (sv_live sv) k = Some (cn_client c, st) \<and> conn_of st = Some i))
    \<and> (\<forall>k ip st i. od_get (sv_live sv) k = Some (ip, st) \<longrightarrow> conn_of st = Some i
        \<longrightarrow> (\<exists>c. od_get (st_active (sv_stats sv)) i = Some c \<and> cn_client c = ip))"
proof -
  have "od_mem direct_name (se_egresses env)" using built_egresses(1)[OF assms(2)] by (simp add: od_mem_get)
  then have ok: "conns_ok sv" "totals_ok u d sv" using server_run_ok[OF assms(1)] by (simp_all add: server_ok_def)
  have W: "owned (sv_live sv) k = Some (ip, i) \<longleftrightarrow> (\<exists>st. od_get (sv_live sv) k = Some (ip, st) \<and> conn_of st = Some i)" for k ip i
    by (auto simp: owned_def split: option.splits)
  have "\<exists>!k. owned (sv_live sv) k = Some (cn_client c, i)" if "od_get (st_active (sv_stats sv)) i = Some c" for i c
    using ok(1) that unfolding conns_ok_def matched_def by blast
  moreover have "\<exists>c. od_get (st_active (sv_stats sv)) i = Some c \<and> cn_client c = ip"
    if "owned (sv_live sv) k = Some (ip, i)" for k ip i
    using owned_conn[OF ok(1) that] by blast
  moreover have "sum_list (map f (active_conns st)) = od_sum f (st_active st)" for f :: "conn_info \<Rightarrow> int" and st
    by (simp add: active_conns_def od_sum_def split_def comp_def)
  ultimately show ?thesis using ok(2) unfolding W by (simp add: snapshot_def totals_ok_def) blast
qed


text \<open>A server that lets nobody in: its first connection waits for a ClientHello.\<close>

definition any_os :: os where
  "any_os = \<lparr> os_opt = (\<lambda>f op v. True), os_socket = (\<lambda>f. None), os_connect = (\<lambda>f a. None), os_bind = (\<lambda>a. None), os_listen = None,
     os_wrap = None \<rparr>"

definition sample_server_env :: server_env where
  "sample_server_env = \<lparr> se_crypto = zero_crypto, se_aead = zero_aead, se_password = U ''p'', se_cap = 1,
     se_egresses = [(direct_name, DefaultEgress)], se_router = None, se_os = any_os, se_has = (\<lambda>op. True), se_keepalive = True,
     se_rate = JInt 0, se_peer = (\<lambda>k. Some Inet) \<rparr>"

definition sample_server :: server where
  "sample_server = (new_server 5)\<lparr> sv_slots := [(U ''c'', 1)], sv_live := [(0, U ''c'', Hello)] \<rparr>"

lemma sample_egresses: "build_egresses (\<lambda>m. Inr True) (JObj []) = Inr (se_egresses sample_server_env)"
  by (simp add: build_egresses_def jget_or_def sample_server_env_def)

lemma sample_server_run: "server_run sample_server_env 0 0 sample_server"
proof (rule server_run.connect[OF server_run.start[of _ 5]])
  show "\<not> od_mem 0 (sv_live (new_server 5))" by (simp add: new_server_def)
  show "on_connect sample_server_env 0 (U ''c'') (new_server 5) = (True, sample_server)"
    by (simp add: on_connect_def is_blocked_def new_server_def new_stats_def acquire_ip_slot_def sample_server_env_def
        sample_server_def)
qed

definition marked_cfg :: json where
  "marked_cfg = JObj [(U ''egresses'', JList [JObj [(U ''name'', JStr (U ''w'')), (U ''mark'', JInt 7)]])]"

definition marked_env :: server_env where
  "marked_env = sample_server_env\<lparr> se_egresses := [(direct_name, DefaultEgress), (U ''w'', MarkedEgress (U ''w'') 7)],
     se_router := Some (plain_env, new_router (U ''w'')) \<rparr>"

theorem slots_count_live_witness: "od_get (sv_slots sample_server) (U ''c'') = Some 1"
  using slots_count_live[OF sample_server_run sample_egresses, of "U ''c''"] by (simp add: sample_server_def Let_def)


theorem statistics_are_exact_witness: "sn_up (snapshot 3 (sv_stats sample_server)) = 0"
  using statistics_are_exact[OF sample_server_run sample_egresses] by blast

end
