(* ===== verification/Decision_Cache.thy ===== *)
theory Decision_Cache
  imports Complex_Main Text
begin

unbundle bit_operations_syntax

text \<open>
  \<open>core/decision_cache.py\<close>: \<open>RoutingCache\<close> (domain to outbound tag), \<open>DnsCache\<close> (domain and query
  type to response) and the walks over DNS messages that give the query type and the time to
  live.  \<open>time.monotonic()\<close> is an argument of the operations, a rational.  The locale
  \<open>expiring_lru\<close> states what both caches promise about one operation; the facts about whole
  histories (an answer is the last one stored and still alive, the size bound, the entries in
  recent use survive) are proved once inside it and reach the two caches by interpretation.
\<close>

section \<open>Walking DNS messages\<close>

function qtype_name :: "bytes \<Rightarrow> nat \<Rightarrow> nat option" where
  "qtype_name q off = (if off < length q then
       (let n = q ! off in
        if n = 0 then Some (off + 1)
        else if n AND 0xC0 \<noteq> 0 then None
        else qtype_name q (off + unat n + 1))
     else Some off)"
  by pat_completeness auto
termination
  by (relation "measure (\<lambda>(q, off). length q - off)") auto

definition extract_qtype :: "bytes \<Rightarrow> nat option" where
  "extract_qtype q =
     (if length q < 12 then None
      else if from_be (slice 4 6 q) < 1 then None
      else case qtype_name q 12 of
             None \<Rightarrow> None
           | Some off \<Rightarrow> if length q < off + 4 then None else Some (from_be (slice off (off + 2) q)))"

text \<open>The question walk and the name walk of \<open>_extract_min_ttl\<close>.\<close>

function skip_q_name :: "bytes \<Rightarrow> nat \<Rightarrow> nat" where
  "skip_q_name r off = (if off < length r then
       (let n = r ! off in
        if n = 0 then off + 1
        else if n AND 0xC0 \<noteq> 0 then off + 1 + 1
        else skip_q_name r (off + 1 + unat n))
     else off)"
  by pat_completeness auto
termination
  by (relation "measure (\<lambda>(r, off). length r - off)") auto

fun skip_questions :: "bytes \<Rightarrow> nat \<Rightarrow> nat \<Rightarrow> nat option" where
  "skip_questions r 0 off = Some off"
| "skip_questions r (Suc k) off =
     (let off' = skip_q_name r off + 4 in
      if length r < off' then None else skip_questions r k off')"

function rr_name_loop :: "bytes \<Rightarrow> nat \<Rightarrow> nat" where
  "rr_name_loop r off =
     (if off < length r \<and> r ! off \<noteq> 0 then
        (if r ! off AND 0xC0 \<noteq> 0 then off + 2 else rr_name_loop r (off + unat (r ! off) + 1))
      else if off < length r then off + 1 else off)"
  by pat_completeness auto
termination
  by (relation "measure (\<lambda>(r, off). length r - off)") auto

definition rr_name :: "bytes \<Rightarrow> nat \<Rightarrow> nat" where
  "rr_name r off = (if r ! off AND 0xC0 \<noteq> 0 then off + 2 else rr_name_loop r off)"

text \<open>
  The answer scan: the outer \<open>None\<close> is the damaged message (\<open>return 0.0\<close>), the inner one the
  initial \<open>float("inf")\<close>.
\<close>

fun scan_answers :: "bytes \<Rightarrow> nat \<Rightarrow> nat \<Rightarrow> nat option \<Rightarrow> nat option option" where
  "scan_answers r 0 off m = Some m"
| "scan_answers r (Suc k) off m =
     (if length r \<le> off then None
      else let off1 = rr_name r off in
        if length r < off1 + 10 then None
        else let ttl = from_be (slice (off1 + 4) (off1 + 8) r);
                 rdlength = from_be (slice (off1 + 8) (off1 + 10) r)
             in scan_answers r k (off1 + 10 + rdlength)
                  (case m of None \<Rightarrow> Some ttl | Some m0 \<Rightarrow> Some (if ttl < m0 then ttl else m0)))"

declare qtype_name.simps [simp del] skip_q_name.simps [simp del] rr_name_loop.simps [simp del]

definition dns_ttl_min :: rat where "dns_ttl_min = 30"
definition dns_ttl_max :: rat where "dns_ttl_max = 3600"
definition dns_negative_ttl :: rat where "dns_negative_ttl = 60"
definition routing_ttl :: rat where "routing_ttl = 3600"
definition default_max_entries :: nat where "default_max_entries = 10000"

definition extract_min_ttl :: "bytes \<Rightarrow> rat" where
  "extract_min_ttl r =
     (if length r < 12 then 0
      else case skip_questions r (from_be (slice 4 6 r)) 12 of
             None \<Rightarrow> 0
           | Some off \<Rightarrow>
               (let ancount = from_be (slice 6 8 r) in
                if ancount = 0 then dns_negative_ttl
                else case scan_answers r ancount off None of
                       None \<Rightarrow> 0
                     | Some None \<Rightarrow> dns_negative_ttl
                     | Some (Some ttl) \<Rightarrow> max dns_ttl_min (min dns_ttl_max (of_nat ttl))))"

section \<open>The two caches\<close>

text \<open>\<open>while len(items) > max: items.popitem(last=False)\<close>\<close>

fun evict :: "nat \<Rightarrow> ('k, 'v) odict \<Rightarrow> ('k, 'v) odict" where
  "evict m [] = []"
| "evict m (x # d) = (if m < length (x # d) then evict m d else x # d)"

record routing_cache =
  rc_max :: nat
  rc_ttl :: rat
  rc_items :: "(pystr, pystr \<times> rat) odict"
  rc_hits :: nat
  rc_misses :: nat

definition new_routing_cache :: "nat \<Rightarrow> rat \<Rightarrow> routing_cache" where
  "new_routing_cache m ttl = \<lparr> rc_max = m, rc_ttl = ttl, rc_items = [], rc_hits = 0, rc_misses = 0 \<rparr>"

definition rc_get :: "pystr \<Rightarrow> rat \<Rightarrow> routing_cache \<Rightarrow> pystr option \<times> routing_cache" where
  "rc_get domain now c =
     (let k = py_lower domain in
      case od_get (rc_items c) k of
        None \<Rightarrow> (None, c\<lparr>rc_misses := rc_misses c + 1\<rparr>)
      | Some (tag, expires) \<Rightarrow>
          if expires \<le> now then
            (None, c\<lparr>rc_items := od_del k (rc_items c), rc_misses := rc_misses c + 1\<rparr>)
          else (Some tag, c\<lparr>rc_items := od_move_to_end k (rc_items c), rc_hits := rc_hits c + 1\<rparr>))"

definition rc_put :: "pystr \<Rightarrow> pystr \<Rightarrow> rat \<Rightarrow> routing_cache \<Rightarrow> routing_cache" where
  "rc_put domain tag now c =
     (let k = py_lower domain;
          expires = now + rc_ttl c;
          its = (if od_mem k (rc_items c) then od_move_to_end k (rc_items c) else rc_items c)
      in c\<lparr>rc_items := evict (rc_max c) (od_set k (tag, expires) its)\<rparr>)"

definition rc_invalidate :: "pystr option \<Rightarrow> routing_cache \<Rightarrow> nat \<times> routing_cache" where
  "rc_invalidate domain c =
     (case domain of
        None \<Rightarrow> (length (rc_items c), c\<lparr>rc_items := []\<rparr>)
      | Some d \<Rightarrow> (if od_mem (py_lower d) (rc_items c) then 1 else 0,
                   c\<lparr>rc_items := od_del (py_lower d) (rc_items c)\<rparr>))"

definition rc_stats :: "routing_cache \<Rightarrow> nat \<times> nat \<times> nat \<times> nat \<times> rat" where
  "rc_stats c = (length (rc_items c), rc_max c, rc_hits c, rc_misses c, rc_ttl c)"

record dns_cache =
  dc_max :: nat
  dc_items :: "(pystr \<times> nat, bytes \<times> rat) odict"
  dc_hits :: nat
  dc_misses :: nat

definition new_dns_cache :: "nat \<Rightarrow> dns_cache" where
  "new_dns_cache m = \<lparr> dc_max = m, dc_items = [], dc_hits = 0, dc_misses = 0 \<rparr>"

definition dc_key :: "pystr \<times> nat \<Rightarrow> pystr \<times> nat" where
  "dc_key d = (py_lower (fst d), snd d)"

definition dc_get :: "pystr \<times> nat \<Rightarrow> rat \<Rightarrow> dns_cache \<Rightarrow> bytes option \<times> dns_cache" where
  "dc_get d now c =
     (let k = dc_key d in
      case od_get (dc_items c) k of
        None \<Rightarrow> (None, c\<lparr>dc_misses := dc_misses c + 1\<rparr>)
      | Some (resp, expires) \<Rightarrow>
          if expires \<le> now then
            (None, c\<lparr>dc_items := od_del k (dc_items c), dc_misses := dc_misses c + 1\<rparr>)
          else (Some resp, c\<lparr>dc_items := od_move_to_end k (dc_items c), dc_hits := dc_hits c + 1\<rparr>))"

definition dc_put :: "pystr \<times> nat \<Rightarrow> bytes \<Rightarrow> rat \<Rightarrow> dns_cache \<Rightarrow> dns_cache" where
  "dc_put d resp now c =
     (let ttl = extract_min_ttl resp in
      if ttl \<le> 0 then c
      else let k = dc_key d;
               expires = now + ttl;
               its = (if od_mem k (dc_items c) then od_move_to_end k (dc_items c) else dc_items c)
           in c\<lparr>dc_items := evict (dc_max c) (od_set k (resp, expires) its)\<rparr>)"

definition dc_invalidate :: "dns_cache \<Rightarrow> nat \<times> dns_cache" where
  "dc_invalidate c = (length (dc_items c), c\<lparr>dc_items := []\<rparr>)"

definition dc_stats :: "dns_cache \<Rightarrow> nat \<times> nat \<times> nat \<times> nat" where
  "dc_stats c = (length (dc_items c), dc_max c, dc_hits c, dc_misses c)"

section \<open>Histories\<close>

datatype ('d, 'v) cache_op = GetOp 'd | PutOp 'd 'v | ClearOp

fun cache_step ::
  "('d \<Rightarrow> rat \<Rightarrow> 's \<Rightarrow> 'v option \<times> 's) \<Rightarrow> ('d \<Rightarrow> 'v \<Rightarrow> rat \<Rightarrow> 's \<Rightarrow> 's) \<Rightarrow> ('s \<Rightarrow> 's) \<Rightarrow> 's \<Rightarrow> rat \<times> ('d, 'v) cache_op \<Rightarrow> 's"
where
  "cache_step get put clear s (t, GetOp d) = snd (get d t s)"
| "cache_step get put clear s (t, PutOp d v) = put d v t s"
| "cache_step get put clear s (t, ClearOp) = clear s"

definition cache_run ::
  "('d \<Rightarrow> rat \<Rightarrow> 's \<Rightarrow> 'v option \<times> 's) \<Rightarrow> ('d \<Rightarrow> 'v \<Rightarrow> rat \<Rightarrow> 's \<Rightarrow> 's) \<Rightarrow> ('s \<Rightarrow> 's) \<Rightarrow> (rat \<times> ('d, 'v) cache_op) list \<Rightarrow> 's \<Rightarrow> 's"
where
  "cache_run get put clear h s = foldl (cache_step get put clear) s h"

text \<open>The last value a history stores under a key, with its time: the specification of a cache.\<close>

fun note_put :: "('d \<Rightarrow> 'k) \<Rightarrow> ('v \<Rightarrow> bool) \<Rightarrow> 'k \<Rightarrow> (rat \<times> 'v) option \<Rightarrow> rat \<times> ('d, 'v) cache_op \<Rightarrow> (rat \<times> 'v) option" where
  "note_put key stores k a (t, GetOp d) = a"
| "note_put key stores k a (t, PutOp d v) = (if key d = k \<and> stores v then Some (t, v) else a)"
| "note_put key stores k a (t, ClearOp) = None"

definition last_put :: "('d \<Rightarrow> 'k) \<Rightarrow> ('v \<Rightarrow> bool) \<Rightarrow> 'k \<Rightarrow> (rat \<times> ('d, 'v) cache_op) list \<Rightarrow> (rat \<times> 'v) option" where
  "last_put key stores k h = foldl (note_put key stores k) None h"

fun op_key :: "('d \<Rightarrow> 'k) \<Rightarrow> rat \<times> ('d, 'v) cache_op \<Rightarrow> 'k option" where
  "op_key key (t, GetOp d) = Some (key d)"
| "op_key key (t, PutOp d v) = Some (key d)"
| "op_key key (t, ClearOp) = None"

text \<open>An operation that leaves the entry of \<open>k\<close> alone, expiring at \<open>e\<close>, and uses no key outside \<open>T\<close>.\<close>

fun quiet :: "('d \<Rightarrow> 'k) \<Rightarrow> ('v \<Rightarrow> bool) \<Rightarrow> 'k \<Rightarrow> rat \<Rightarrow> 'k set \<Rightarrow> rat \<times> ('d, 'v) cache_op \<Rightarrow> bool" where
  "quiet key stores k e T (t, GetOp d) = (if key d = k then t < e else key d \<in> T)"
| "quiet key stores k e T (t, PutOp d v) = (stores v \<longrightarrow> key d \<in> T)"
| "quiet key stores k e T (t, ClearOp) = False"

definition routing_run :: "(rat \<times> (pystr, pystr) cache_op) list \<Rightarrow> routing_cache \<Rightarrow> routing_cache" where
  "routing_run = cache_run rc_get rc_put (\<lambda>c. snd (rc_invalidate None c))"

definition dns_run :: "(rat \<times> (pystr \<times> nat, bytes) cache_op) list \<Rightarrow> dns_cache \<Rightarrow> dns_cache" where
  "dns_run = cache_run dc_get dc_put (\<lambda>c. snd (dc_invalidate c))"

lemma timed_op_cases:
  obtains (g) t d where "x = (t, GetOp d)" | (p) t d v where "x = (t, PutOp d v)" | (c) t where "x = (t, ClearOp)"
  by (metis cache_op.exhaust surj_pair)

lemma od_get_mid:
  assumes "od_ok (A @ (k, x) # C)"
  shows "od_get (A @ (k, x) # C) k = Some x"
  unfolding od_get_def by (rule map_of_is_SomeI) (use assms in \<open>auto simp: od_ok_def\<close>)

lemma od_get_snoc: "od_get (od_del k d @ [(k, x)]) k' = (if k' = k then Some x else od_get d k')"
  by (simp add: od_get_append split: option.split) (simp add: od_get_def)

section \<open>What a cache promises\<close>

locale expiring_lru =
  fixes capacity :: "'s \<Rightarrow> nat"
    and entries :: "'s \<Rightarrow> ('k, 'v \<times> rat) odict"
    and key :: "'d \<Rightarrow> 'k"
    and life :: "'s \<Rightarrow> 'v \<Rightarrow> rat"
    and stores :: "'v \<Rightarrow> bool"
    and get :: "'d \<Rightarrow> rat \<Rightarrow> 's \<Rightarrow> 'v option \<times> 's"
    and put :: "'d \<Rightarrow> 'v \<Rightarrow> rat \<Rightarrow> 's \<Rightarrow> 's"
    and clear :: "'s \<Rightarrow> 's"
  assumes get_result: "fst (get d now s) = (case od_get (entries s) (key d) of None \<Rightarrow> None
      | Some (v, e) \<Rightarrow> if e \<le> now then None else Some v)"
    and get_entries: "entries (snd (get d now s)) = (case od_get (entries s) (key d) of None \<Rightarrow> entries s
      | Some (v, e) \<Rightarrow> if e \<le> now then od_del (key d) (entries s) else od_move_to_end (key d) (entries s))"
    and put_entries: "od_ok (entries s) \<Longrightarrow> entries (put d v now s) =
      (if stores v then let m = od_del (key d) (entries s) @ [(key d, v, now + life s v)]
         in drop (length m - capacity s) m else entries s)"
    and clear_entries: "entries (clear s) = []"
    and fixed: "capacity (snd (get d now s)) = capacity s" "life (snd (get d now s)) = life s"
      "capacity (put d v now s) = capacity s" "life (put d v now s) = life s"
      "capacity (clear s) = capacity s" "life (clear s) = life s"
begin

lemma step_fixed: "capacity (cache_step get put clear s x) = capacity s" "life (cache_step get put clear s x) = life s"
  by (cases x rule: timed_op_cases; simp add: fixed)+

lemma step_ok:
  assumes "od_ok (entries s)"
  shows "od_ok (entries (cache_step get put clear s x))"
proof (cases x rule: timed_op_cases)
  case (g t d)
  then show ?thesis using assms by (auto simp: get_entries split: option.split)
next
  case (p t d v)
  have "od_ok (od_del (key d) (entries s) @ [(key d, y)])" for y
    using assms p by (simp add: od_ok_def keys_od_del)
  then show ?thesis using assms p by (auto simp: put_entries Let_def simp del: drop_append)
next
  case (c t)
  then show ?thesis by (simp add: clear_entries)
qed

lemma step_bound:
  assumes "od_ok (entries s)" "length (entries s) \<le> capacity s"
  shows "length (entries (cache_step get put clear s x)) \<le> capacity s"
proof (cases x rule: timed_op_cases)
  case (g t d)
  then show ?thesis using assms length_od_del_le[of "key d" "entries s"] length_od_move[of "entries s" "key d"]
    by (auto simp: get_entries split: option.split)
next
  case (p t d v)
  then show ?thesis using assms by (auto simp: put_entries Let_def)
next
  case (c t)
  then show ?thesis by (simp add: clear_entries)
qed

lemma run_invariant:
  assumes "entries s = []"
  shows "od_ok (entries (cache_run get put clear h s)) \<and> length (entries (cache_run get put clear h s)) \<le> capacity s
    \<and> capacity (cache_run get put clear h s) = capacity s \<and> life (cache_run get put clear h s) = life s"
proof (induction h rule: rev_induct)
  case Nil
  then show ?case using assms by (simp add: cache_run_def)
next
  case (snoc x h)
  let ?s = "cache_run get put clear h s"
  have r: "cache_run get put clear (h @ [x]) s = cache_step get put clear ?s x" by (simp add: cache_run_def)
  show ?case using snoc step_ok[of ?s x] step_bound[of ?s x] step_fixed[of ?s x] by (simp add: r)
qed

lemma run_bounded: "entries s = [] \<Longrightarrow> length (entries (cache_run get put clear h s)) \<le> capacity s"
  using run_invariant by blast

lemma step_entry:
  assumes "od_ok (entries s)" "od_get (entries (cache_step get put clear s x)) k = Some (v, e)"
    and "\<And>v e. od_get (entries s) k = Some (v, e) \<Longrightarrow> \<exists>t. a = Some (t, v) \<and> e = t + life s v"
  shows "\<exists>t. note_put key stores k a x = Some (t, v) \<and> e = t + life s v"
proof (cases x rule: timed_op_cases)
  case (g t d)
  then have "od_get (entries s) k = Some (v, e)"
    using assms(2) by (auto simp: get_entries split: option.splits if_splits)
  then show ?thesis using assms(3) g by simp
next
  case (p t d w)
  let ?m = "od_del (key d) (entries s) @ [(key d, w, t + life s w)]"
  have ok: "od_ok ?m" using assms(1) p by (simp add: od_ok_def keys_od_del)
  show ?thesis
  proof (cases "stores w")
    case True
    then have "od_get (drop (length ?m - capacity s) ?m) k = Some (v, e)"
      using assms(1,2) p by (simp add: put_entries Let_def)
    then have "od_get ?m k = Some (v, e)" by (rule od_get_drop[OF ok])
    then have "if k = key d then v = w \<and> e = t + life s w else od_get (entries s) k = Some (v, e)"
      by (simp add: od_get_snoc eq_commute split: if_splits)
    then show ?thesis using assms(3) p True by (cases "k = key d") auto
  next
    case False
    then show ?thesis using assms p by (simp add: put_entries)
  qed
next
  case (c t)
  then show ?thesis using assms by (simp add: clear_entries)
qed

lemma run_entry:
  assumes "entries s = []" "od_get (entries (cache_run get put clear h s)) k = Some (v, e)"
  shows "\<exists>t. last_put key stores k h = Some (t, v) \<and> e = t + life s v"
  using assms(2)
proof (induction h arbitrary: v e rule: rev_induct)
  case Nil
  then show ?case using assms(1) by (simp add: cache_run_def)
next
  case (snoc x h)
  let ?s = "cache_run get put clear h s"
  have inv: "od_ok (entries ?s)" "life ?s = life s" using run_invariant[OF assms(1)] by simp_all
  show ?case
    using step_entry[OF inv(1), of x k v e "last_put key stores k h"] snoc inv(2)
    by (simp add: cache_run_def last_put_def)
qed

lemma answer_is_last_and_alive:
  assumes "entries s = []" "fst (get d now (cache_run get put clear h s)) = Some v"
  shows "\<exists>t. last_put key stores (key d) h = Some (t, v) \<and> now < t + life s v"
proof -
  obtain e where "od_get (entries (cache_run get put clear h s)) (key d) = Some (v, e)" "now < e"
    using assms(2) by (auto simp: get_result split: option.splits if_splits)
  then show ?thesis using run_entry[OF assms(1)] by fastforce
qed

text \<open>Recently used entries: \<open>k\<close> is followed only by keys of \<open>T\<close> in the order of use.\<close>

definition recent :: "'k \<Rightarrow> 'v \<times> rat \<Rightarrow> 'k set \<Rightarrow> 's \<Rightarrow> bool" where
  "recent k x T s \<longleftrightarrow> (\<exists>A C. entries s = A @ (k, x) # C \<and> fst ` set C \<subseteq> T)"

lemma recent_move:
  assumes "od_ok (A @ (k, x) # C)" "fst ` set C \<subseteq> T" "od_get (A @ (k, x) # C) k' = Some y" "k' = k \<or> k' \<in> T"
  shows "\<exists>A' C'. od_move_to_end k' (A @ (k, x) # C) = A' @ (k, x) # C' \<and> fst ` set C' \<subseteq> T"
proof (cases "k' = k")
  case True
  then have "y = x" using assms(3) od_get_mid[OF assms(1)] by simp
  then have "od_move_to_end k' (A @ (k, x) # C) = od_del k (A @ (k, x) # C) @ (k, x) # []"
    using True assms(3) by (simp add: od_move_to_end_def)
  moreover have "fst ` set [] \<subseteq> T" by simp
  ultimately show ?thesis by blast
next
  case False
  then have "od_move_to_end k' (A @ (k, x) # C) = od_del k' A @ (k, x) # (od_del k' C @ [(k', y)])"
    using assms(3) by (simp add: od_move_to_end_def od_del_def)
  moreover have "fst ` set (od_del k' C @ [(k', y)]) \<subseteq> T" using assms(2,4) False by (auto simp: od_del_def)
  ultimately show ?thesis by blast
qed

lemma recent_put:
  assumes "od_ok (A @ (k, x) # C)" "fst ` set C \<subseteq> T" "k' \<in> T" "k \<notin> T" "finite T" "card T < n"
  shows "\<exists>A' C'. drop (length (od_del k' (A @ (k, x) # C) @ [(k', y)]) - n)
      (od_del k' (A @ (k, x) # C) @ [(k', y)]) = A' @ (k, x) # C' \<and> fst ` set C' \<subseteq> T"
proof -
  let ?C = "od_del k' C @ [(k', y)]"
  have m: "od_del k' (A @ (k, x) # C) @ [(k', y)] = od_del k' A @ (k, x) # ?C"
    using assms(3,4) by (auto simp: od_del_def)
  have sub: "fst ` set ?C \<subseteq> T" using assms(2,3) by (auto simp: od_del_def)
  have "distinct (map fst ?C)" using assms(1) by (simp add: od_ok_def keys_od_del)
  then have "length ?C = card (fst ` set ?C)" by (metis distinct_card length_map set_map)
  also have "\<dots> \<le> card T" by (rule card_mono[OF assms(5) sub])
  finally have "length (od_del k' A @ (k, x) # ?C) - n \<le> length (od_del k' A)" using assms(6) by simp
  then have "drop (length (od_del k' A @ (k, x) # ?C) - n) (od_del k' A @ (k, x) # ?C)
      = drop (length (od_del k' A @ (k, x) # ?C) - n) (od_del k' A) @ (k, x) # ?C" by simp
  then show ?thesis unfolding m using sub by blast
qed

lemma recent_step:
  assumes "od_ok (entries s)" "recent k (v, e) T s" "quiet key stores k e T x" "k \<notin> T" "finite T" "card T < capacity s"
  shows "recent k (v, e) T (cache_step get put clear s x)"
proof -
  obtain A C where s: "entries s = A @ (k, v, e) # C" and C: "fst ` set C \<subseteq> T"
    using assms(2) by (auto simp: recent_def)
  have ok: "od_ok (A @ (k, v, e) # C)" using assms(1) s by simp
  have here: "od_get (entries s) k = Some (v, e)"
    using od_get_mid[OF ok] by (simp add: s)
  show ?thesis
  proof (cases x rule: timed_op_cases)
    case x: (g t d)
    show ?thesis
    proof (cases "od_get (entries s) (key d)")
      case None
      then show ?thesis using assms(2) by (simp add: x recent_def get_entries)
    next
      case (Some y)
      then obtain v' e' where y: "od_get (entries s) (key d) = Some (v', e')" by (cases y) auto
      show ?thesis
      proof (cases "e' \<le> t")
        case True
        then have ne: "key d \<noteq> k" using assms(3) here y by (auto simp: x)
        have "od_del (key d) (A @ (k, v, e) # C) = od_del (key d) A @ (k, v, e) # od_del (key d) C"
          using ne by (simp add: od_del_def)
        moreover have "fst ` set (od_del (key d) C) \<subseteq> T" using C by (auto simp: od_del_def)
        ultimately show ?thesis using y True s by (auto simp: x recent_def get_entries)
      next
        case False
        have "key d = k \<or> key d \<in> T" using assms(3) by (auto simp: x split: if_splits)
        then show ?thesis using recent_move[OF ok C, of "key d" "(v', e')"] y s False
          by (simp add: x recent_def get_entries)
      qed
    qed
  next
    case x: (p t d w)
    show ?thesis
    proof (cases "stores w")
      case True
      then show ?thesis using recent_put[OF ok C _ assms(4,5,6), of "key d"] assms(1,3) s
        by (simp add: x recent_def put_entries Let_def)
    next
      case False
      then show ?thesis using assms(1,2) by (simp add: x recent_def put_entries)
    qed
  next
    case (c t)
    then show ?thesis using assms(3) by simp
  qed
qed

lemma recent_run:
  assumes "od_ok (entries s)" "recent k (v, e) T s" "\<forall>x\<in>set h. quiet key stores k e T x" "k \<notin> T" "finite T" "card T < capacity s"
  shows "recent k (v, e) T (cache_run get put clear h s)"
  using assms(1,2,3,6)
proof (induction h arbitrary: s)
  case Nil
  then show ?case by (simp add: cache_run_def)
next
  case (Cons x h)
  let ?s = "cache_step get put clear s x"
  have "recent k (v, e) T ?s" using recent_step[OF Cons.prems(1,2) _ assms(4,5) Cons.prems(4)] Cons.prems(3) by simp
  then have "recent k (v, e) T (cache_run get put clear h ?s)"
    using Cons.IH[OF step_ok[OF Cons.prems(1)]] Cons.prems(3,4) by (simp add: step_fixed)
  then show ?case by (simp add: cache_run_def)
qed

lemma recently_used_survives:
  assumes "entries s0 = []" "stores v" "key d' = key d"
    and "\<forall>x\<in>set h2. quiet key stores (key d) (t + life s0 v) T x" "key d \<notin> T" "finite T" "card T < capacity s0"
    and "now < t + life s0 v"
  shows "fst (get d' now (cache_run get put clear (h1 @ (t, PutOp d v) # h2) s0)) = Some v"
proof -
  let ?s1 = "cache_run get put clear h1 s0"
  let ?s2 = "put d v t ?s1"
  let ?s3 = "cache_run get put clear h2 ?s2"
  let ?e = "t + life s0 v"
  have i: "od_ok (entries ?s1)" "capacity ?s1 = capacity s0" "life ?s1 = life s0"
    using run_invariant[OF assms(1)] by simp_all
  have ok2: "od_ok (entries ?s2)" using step_ok[OF i(1), of "(t, PutOp d v)"] by simp
  have "length (od_del (key d) (entries ?s1) @ [(key d, v, ?e)]) - capacity s0 \<le> length (od_del (key d) (entries ?s1))"
    using assms(7) by simp
  then have "entries ?s2 = drop (length (od_del (key d) (entries ?s1) @ [(key d, v, ?e)]) - capacity s0)
      (od_del (key d) (entries ?s1)) @ (key d, v, ?e) # []"
    using put_entries[OF i(1)] assms(2) by (simp add: i(2,3) Let_def)
  then have "recent (key d) (v, ?e) T ?s2" unfolding recent_def by (metis empty_set empty_subsetI image_empty)
  then have "recent (key d) (v, ?e) T ?s3"
    using recent_run[OF ok2 _ assms(4,5,6)] assms(7) by (simp add: fixed i)
  moreover have "od_ok (entries ?s3)"
    using ok2 by (induction h2 arbitrary: v t d rule: rev_induct) (simp_all add: cache_run_def step_ok)
  ultimately have "od_get (entries ?s3) (key d) = Some (v, ?e)"
    by (auto simp: recent_def od_get_mid)
  moreover have "cache_run get put clear (h1 @ (t, PutOp d v) # h2) s0 = ?s3" by (simp add: cache_run_def)
  ultimately show ?thesis using assms(3,8) by (simp add: get_result)
qed

end

section \<open>Times to live\<close>

lemma extract_min_ttl_range: "extract_min_ttl r = 0 \<or> (30 \<le> extract_min_ttl r \<and> extract_min_ttl r \<le> 3600)"
  by (auto simp: extract_min_ttl_def dns_negative_ttl_def dns_ttl_min_def dns_ttl_max_def Let_def split: option.split)

lemma low_byte_and:
  assumes "n < 64"
  shows "(of_nat n :: byte) AND 0xC0 = 0"
proof -
  have "take_bit 6 (of_nat n :: byte) = of_nat n"
    by (rule word_unat_eq_iff[THEN iffD2]) (use assms in \<open>simp add: unat_of_nat take_bit_nat_def unsigned_take_bit_eq\<close>)
  then have "(of_nat n :: byte) AND 0xC0 = (of_nat n AND mask 6) AND 0xC0" by (simp only: take_bit_eq_mask)
  also have "\<dots> = of_nat n AND (mask 6 AND 0xC0)" by (simp only: and.assoc)
  also have "mask 6 AND (0xC0 :: byte) = 0" by (simp add: mask_eq_exp_minus_1)
  finally show ?thesis by simp
qed

text \<open>Messages as they are laid out on the wire: uncompressed labels, names, questions, records.\<close>

definition wire_labels :: "bytes list \<Rightarrow> bytes" where
  "wire_labels ls = concat (map (\<lambda>l. of_nat (length l) # l) ls)"

definition labels_ok :: "bytes list \<Rightarrow> bool" where
  "labels_ok ls \<longleftrightarrow> (\<forall>l\<in>set ls. l \<noteq> [] \<and> length l < 64)"

definition wire_question :: "bytes list \<times> nat \<times> nat \<Rightarrow> bytes" where
  "wire_question q = wire_labels (fst q) @ [0] @ to_be 2 (fst (snd q)) @ to_be 2 (snd (snd q))"

definition wire_header :: "bytes \<Rightarrow> nat \<Rightarrow> nat \<Rightarrow> bytes \<Rightarrow> bytes" where
  "wire_header start qd an counts = start @ to_be 2 qd @ to_be 2 an @ counts"

text \<open>A record: the name, with a compression pointer at its end or without, type and class, time to live, data.\<close>

type_synonym rr = "(bytes list \<times> (byte \<times> byte) option) \<times> bytes \<times> nat \<times> bytes"

fun wire_name :: "bytes list \<times> (byte \<times> byte) option \<Rightarrow> bytes" where
  "wire_name (ls, None) = wire_labels ls @ [0]"
| "wire_name (ls, Some (p, q)) = wire_labels ls @ [p, q]"

fun wire_rr :: "rr \<Rightarrow> bytes" where
  "wire_rr (nm, tc, ttl, rd) = wire_name nm @ tc @ to_be 4 ttl @ to_be 2 (length rd) @ rd"

fun rr_ok :: "rr \<Rightarrow> bool" where
  "rr_ok ((ls, ptr), tc, ttl, rd) \<longleftrightarrow> labels_ok ls \<and> (\<forall>p q. ptr = Some (p, q) \<longrightarrow> p AND 0xC0 \<noteq> 0)
     \<and> length tc = 4 \<and> ttl < 2 ^ 32 \<and> length rd < 2 ^ 16"

text \<open>Every walk over a name steps from label to label.\<close>

locale label_walk =
  fixes walk :: "bytes \<Rightarrow> nat \<Rightarrow> 'a"
  assumes label_step: "off < length r \<Longrightarrow> r ! off \<noteq> 0 \<Longrightarrow> r ! off AND 0xC0 = 0
    \<Longrightarrow> walk r off = walk r (off + (unat (r ! off) + 1))"
begin

lemma walk_labels:
  "labels_ok ls \<Longrightarrow> walk (pre @ wire_labels ls @ post) (length pre)
     = walk (pre @ wire_labels ls @ post) (length pre + length (wire_labels ls))"
proof (induction ls arbitrary: pre)
  case Nil
  then show ?case by (simp add: wire_labels_def)
next
  case (Cons l ls)
  have l: "l \<noteq> []" "length l < 64" and ok: "labels_ok ls" using Cons.prems by (auto simp: labels_ok_def)
  have u: "unat (of_nat (length l) :: byte) = length l" using l(2) by (simp add: unat_of_nat)
  have nz: "(of_nat (length l) :: byte) \<noteq> 0" using u l(1) by force
  let ?pre = "pre @ of_nat (length l) # l"
  have e: "pre @ wire_labels (l # ls) @ post = ?pre @ wire_labels ls @ post" by (simp add: wire_labels_def)
  have "walk (?pre @ wire_labels ls @ post) (length pre) = walk (?pre @ wire_labels ls @ post) (length ?pre)"
    using label_step[of "length pre" "?pre @ wire_labels ls @ post"] nz u low_byte_and[OF l(2)]
    by (simp add: nth_append)
  then show ?case using Cons.IH[OF ok, of ?pre] unfolding e by (simp add: wire_labels_def add.assoc)
qed

end

interpretation qtype_walk: label_walk qtype_name
  by unfold_locales (subst qtype_name.simps, simp add: Let_def)

interpretation question_walk: label_walk skip_q_name
  by unfold_locales (subst skip_q_name.simps, simp add: Let_def)

interpretation rr_walk: label_walk rr_name_loop
  by unfold_locales (subst rr_name_loop.simps, simp)

section \<open>The two caches keep the promise\<close>

lemma evict_drop: "evict m d = drop (length d - m) d"
proof (induction d)
  case Nil
  then show ?case by simp
next
  case (Cons x d)
  show ?case
  proof (cases "m < length (x # d)")
    case True
    then have "length (x # d) - m = Suc (length d - m)" by simp
    then show ?thesis using Cons True by simp
  qed simp
qed

lemma od_set_moved:
  assumes "od_ok d"
  shows "od_set k v (if od_mem k d then od_move_to_end k d else d) = od_del k d @ [(k, v)]"
proof -
  have app: "od_set k v e = e @ [(k, v)]" if "\<not> od_mem k e" for e
    using that by (induction e) auto
  have last: "od_set k v (e @ [(k, w)]) = e @ [(k, v)]" if "\<not> od_mem k e" for e w
    using that by (induction e) auto
  have no: "\<not> od_mem k (od_del k d)" by (simp add: od_mem_get)
  show ?thesis
  proof (cases "od_get d k")
    case None
    then have "od_del k d = d" by (auto simp: od_del_def od_get_def map_of_eq_None_iff image_iff intro!: filter_True)
    then show ?thesis using None app by (simp add: od_mem_get)
  next
    case (Some w)
    then show ?thesis using last[OF no] by (simp add: od_mem_get od_move_to_end_def)
  qed
qed

interpretation routing: expiring_lru rc_max rc_items py_lower "\<lambda>c _. rc_ttl c" "\<lambda>_. True"
  rc_get rc_put "\<lambda>c. snd (rc_invalidate None c)"
  by unfold_locales
    (auto simp: rc_get_def rc_put_def rc_invalidate_def Let_def evict_drop od_set_moved split: option.split)

interpretation dns: expiring_lru dc_max dc_items dc_key "\<lambda>_. extract_min_ttl" "\<lambda>r. 0 < extract_min_ttl r"
  dc_get dc_put "\<lambda>c. snd (dc_invalidate c)"
  by unfold_locales
    (auto simp: dc_get_def dc_put_def dc_invalidate_def Let_def evict_drop od_set_moved split: option.split)

lemma last_put_in:
  "last_put key stores k h = Some (t, v) \<Longrightarrow> \<exists>d. (t, PutOp d v) \<in> set h \<and> key d = k"
proof (induction h arbitrary: t v rule: rev_induct)
  case Nil
  then show ?case by (simp add: last_put_def)
next
  case (snoc x h)
  have e: "last_put key stores k (h @ [x]) = note_put key stores k (last_put key stores k h) x" by (simp add: last_put_def)
  show ?case
  proof (cases x rule: timed_op_cases)
    case (g t' d)
    then show ?thesis using snoc e by auto
  next
    case (p t' d w)
    show ?thesis
    proof (cases "key d = k \<and> stores w")
      case True
      then show ?thesis using snoc.prems e p by auto
    next
      case False
      then have "last_put key stores k h = Some (t, v)" using snoc.prems e p by auto
      from snoc.IH[OF this] show ?thesis by auto
    qed
  next
    case (c t')
    then show ?thesis using snoc.prems e by simp
  qed
qed

lemma dns_cache_answers:
  assumes "fst (dc_get d now (dns_run h (new_dns_cache m))) = Some r"
  shows "\<exists>t. last_put dc_key (\<lambda>r. 0 < extract_min_ttl r) (dc_key d) h = Some (t, r)
           \<and> now < t + extract_min_ttl r \<and> now < t + 3600"
proof -
  have e: "dc_items (new_dns_cache m) = []" by (simp add: new_dns_cache_def)
  obtain t where t: "last_put dc_key (\<lambda>r. 0 < extract_min_ttl r) (dc_key d) h = Some (t, r)" "now < t + extract_min_ttl r"
    using dns.answer_is_last_and_alive[OF e] assms unfolding dns_run_def by (metis prod.collapse)
  moreover have "extract_min_ttl r \<le> 3600" using extract_min_ttl_range[of r] by auto
  ultimately show ?thesis by (intro exI[of _ t]) auto
qed

text \<open>Every answer of the DNS cache, after any history of look-ups, insertions and clearings, is the
  last response stored under that name (case-folded) and query type, and is given out before its
  time to live has passed, which is never more than an hour; the cache never holds more than its
  maximum of entries.\<close>
theorem dns_answers_alive:
  fixes h :: "(rat \<times> (pystr \<times> nat, bytes) cache_op) list"
  assumes "fst (dc_get d now (dns_run h (new_dns_cache m))) = Some r"
  shows "(\<exists>t. last_put dc_key (\<lambda>r. 0 < extract_min_ttl r) (dc_key d) h = Some (t, r)
           \<and> now < t + extract_min_ttl r \<and> now < t + 3600)
    \<and> length (dc_items (dns_run h (new_dns_cache m))) \<le> m"
proof -
  have e: "dc_items (new_dns_cache m) = []" "dc_max (new_dns_cache m) = m" by (simp_all add: new_dns_cache_def)
  show ?thesis using dns_cache_answers[OF assms] dns.run_bounded[OF e(1), of h] e(2) by (simp add: dns_run_def)
qed

theorem dns_answers_alive_witness:
  "(\<exists>t. last_put dc_key (\<lambda>r. 0 < extract_min_ttl r) (U ''a'', 1) [(0, PutOp (U ''A'', 1) (replicate 12 0))] = Some (t, replicate 12 0)
      \<and> 59 < t + extract_min_ttl (replicate 12 0) \<and> 59 < t + 3600)
    \<and> length (dc_items (dns_run [(0, PutOp (U ''A'', 1) (replicate 12 0))] (new_dns_cache 5))) \<le> 5"
proof -
  have ttl: "extract_min_ttl (replicate 12 0) = 60"
    by (simp add: extract_min_ttl_def slice_def from_be_def dns_negative_ttl_def numeral_eq_Suc)
  have k: "py_lower (U ''A'') = U ''a''" "py_lower (U ''a'') = U ''a''"
    by (simp_all add: py_lower_def lower1_def U_def)
  have "fst (dc_get (U ''a'', 1) 59 (dns_run [(0, PutOp (U ''A'', 1) (replicate 12 0))] (new_dns_cache 5))) = Some (replicate 12 0)"
    by (simp add: dns_run_def cache_run_def new_dns_cache_def dc_put_def dc_get_def dc_key_def ttl k od_get_def Let_def)
  from dns_answers_alive[OF this] show ?thesis by (simp add: dc_key_def k)
qed

text \<open>The routing cache is least-recently-used: an entry stays, and is answered until its hour is
  over, as long as fewer than the maximum of other names are looked up or stored after it, whatever
  happened before.\<close>
theorem routing_recent_survives:
  fixes h1 h2 :: "(rat \<times> (pystr, pystr) cache_op) list"
  assumes "py_lower d' = py_lower d"
    and "\<forall>x\<in>set h2. quiet py_lower (\<lambda>_. True) (py_lower d) (t + ttl) T x"
    and "py_lower d \<notin> T" "finite T" "card T < m" "now < t + ttl"
  shows "fst (rc_get d' now (routing_run (h1 @ (t, PutOp d tag) # h2) (new_routing_cache m ttl))) = Some tag"
  using routing.recently_used_survives[of "new_routing_cache m ttl" d' d h2 t T now h1 tag] assms
  by (simp add: routing_run_def new_routing_cache_def)

theorem routing_recent_survives_witness:
  "fst (rc_get (U ''x'') 2 (routing_run ([(0, PutOp (U ''z'') (U ''t''))] @ (1, PutOp (U ''x'') (U ''t''))
      # [(2, PutOp (U ''y'') (U ''t''))]) (new_routing_cache 2 3600))) = Some (U ''t'')"
  by (rule routing_recent_survives[where T = "{U ''y''}"]) (simp_all add: py_lower_def lower1_def U_def)


section \<open>Messages\<close>

lemma dns_counts:
  assumes "length start = 4" "length counts = 4" "qd < 2 ^ 16" "an < 2 ^ 16"
  shows "length (wire_header start qd an counts) = 12"
    "from_be (slice 4 6 (wire_header start qd an counts @ m)) = qd"
    "from_be (slice 6 8 (wire_header start qd an counts @ m)) = an"
proof -
  have a: "slice 4 6 (wire_header start qd an counts @ m) = to_be 2 qd"
    using slice_prefix[of start 4 6 "to_be 2 qd" "to_be 2 an @ counts @ m"] assms by (simp add: wire_header_def)
  have b: "slice 6 8 (wire_header start qd an counts @ m) = to_be 2 an"
    using slice_prefix[of "start @ to_be 2 qd" 6 8 "to_be 2 an" "counts @ m"] assms by (simp add: wire_header_def)
  show "length (wire_header start qd an counts) = 12"
    "from_be (slice 4 6 (wire_header start qd an counts @ m)) = qd"
    "from_be (slice 6 8 (wire_header start qd an counts @ m)) = an"
    using assms by (simp_all only: a b, simp_all add: wire_header_def)
qed

lemma extract_qtype_question:
  assumes "length start = 4" "length counts = 4" "1 \<le> qd" "qd < 2 ^ 16" "an < 2 ^ 16"
    and "labels_ok ls" "qt < 2 ^ 16"
  shows "extract_qtype (wire_header start qd an counts @ wire_question (ls, qt, qc) @ rest) = Some qt"
proof -
  let ?h = "wire_header start qd an counts"
  let ?p = "?h @ wire_labels ls @ [0]"
  let ?post = "[0] @ to_be 2 qt @ to_be 2 qc @ rest"
  let ?m = "?h @ wire_labels ls @ ?post"
  note c = dns_counts[OF assms(1,2,4,5)]
  have w: "qtype_name ?m 12 = qtype_name ?m (length ?h + length (wire_labels ls))"
    using qtype_walk.walk_labels[OF assms(6), of ?h ?post] c(1) by simp
  have n: "?m ! (length ?h + length (wire_labels ls)) = 0" by (simp add: nth_append)
  have len: "length ?m = length ?p + 4 + length rest" by simp
  have "qtype_name ?m 12 = Some (length ?p)"
    unfolding w by (subst qtype_name.simps) (simp add: n Let_def)
  moreover have "slice (length ?p) (length ?p + 2) ?m = to_be 2 qt"
    using slice_prefix[of ?p "length ?p" "length ?p + 2" "to_be 2 qt" "to_be 2 qc @ rest"] by simp
  moreover have "wire_header start qd an counts @ wire_question (ls, qt, qc) @ rest = ?m"
    by (simp add: wire_question_def)
  ultimately show ?thesis
    using c(1) assms(3,7) by (simp add: extract_qtype_def c(2) len)
qed

lemma skip_questions_wire:
  "(\<forall>q\<in>set qs. labels_ok (fst q)) \<Longrightarrow>
   skip_questions (pre @ concat (map wire_question qs) @ post) (length qs) (length pre)
     = Some (length pre + length (concat (map wire_question qs)))"
proof (induction qs arbitrary: pre)
  case Nil
  then show ?case by simp
next
  case (Cons q qs)
  obtain ls qt qc where q: "q = (ls, qt, qc)" by (cases q)
  have ok: "labels_ok ls" using Cons.prems by (simp add: q)
  let ?rest = "concat (map wire_question qs) @ post"
  let ?post = "[0] @ to_be 2 qt @ to_be 2 qc @ ?rest"
  let ?m = "pre @ wire_labels ls @ ?post"
  have m: "pre @ concat (map wire_question (q # qs)) @ post = ?m" by (simp add: q wire_question_def)
  have m': "?m = (pre @ wire_question q) @ ?rest" by (simp add: q wire_question_def)
  have lq: "length (wire_question q) = length (wire_labels ls) + 5" by (simp add: q wire_question_def)
  have n: "?m ! (length pre + length (wire_labels ls)) = 0" by (simp add: nth_append)
  have "skip_q_name ?m (length pre) = length pre + length (wire_labels ls) + 1"
    unfolding question_walk.walk_labels[OF ok, of pre ?post]
    by (subst skip_q_name.simps) (simp add: n Let_def)
  then have "skip_questions ?m (Suc (length qs)) (length pre) = skip_questions ?m (length qs) (length (pre @ wire_question q))"
    using lq by (simp add: Let_def add.left_commute add.commute)
  also have "\<dots> = Some (length (pre @ wire_question q) + length (concat (map wire_question qs)))"
    unfolding m' using Cons.IH[of "pre @ wire_question q"] Cons.prems by simp
  finally show ?case unfolding m by (simp add: add.assoc)
qed

lemma rr_name_wire:
  assumes "labels_ok ls" "\<forall>p q. ptr = Some (p, q) \<longrightarrow> p AND 0xC0 \<noteq> 0"
  shows "rr_name (pre @ wire_name (ls, ptr) @ post) (length pre) = length pre + length (wire_name (ls, ptr))"
proof -
  obtain tl' where nm: "wire_name (ls, ptr) = wire_labels ls @ tl'"
    and tl': "tl' = [0] \<or> (\<exists>p q. tl' = [p, q] \<and> p AND 0xC0 \<noteq> 0)"
    using assms(2) by (cases ptr) auto
  let ?m = "pre @ wire_labels ls @ tl' @ post"
  let ?e = "length pre + length (wire_labels ls)"
  have n: "?m ! ?e = (tl' @ post) ! 0" by (simp add: nth_append)
  have end_loop: "rr_name_loop ?m ?e = ?e + length tl'"
    using tl' by (subst rr_name_loop.simps) (auto simp: n)
  have "rr_name ?m (length pre) = ?e + length tl'"
  proof (cases "?m ! length pre AND 0xC0 = 0")
    case True
    then show ?thesis using rr_walk.walk_labels[OF assms(1), of pre "tl' @ post"] end_loop by (simp add: rr_name_def)
  next
    case False
    have "ls = []"
    proof (cases ls)
      case (Cons l ls')
      then have "?m ! length pre = of_nat (length l)" "length l < 64"
        using assms(1) by (auto simp: wire_labels_def nth_append labels_ok_def)
      then show ?thesis using False low_byte_and by simp
    qed
    then show ?thesis using False tl' by (auto simp: rr_name_def wire_labels_def nth_append)
  qed
  then show ?thesis by (simp add: nm)
qed

lemma scan_answers_wire:
  "(\<forall>r\<in>set rs. rr_ok r) \<Longrightarrow>
   scan_answers (pre @ concat (map wire_rr rs) @ post) (length rs) (length pre) m
     = Some (foldl (\<lambda>m r. case m of None \<Rightarrow> Some (fst (snd (snd r))) | Some t \<Rightarrow> Some (min (fst (snd (snd r))) t)) m rs)"
proof (induction rs arbitrary: pre m)
  case Nil
  then show ?case by simp
next
  case (Cons r rs)
  obtain nm tc ttl rd where r: "r = (nm, tc, ttl, rd)" by (cases r) auto
  obtain ls ptr where nm: "nm = (ls, ptr)" by (cases nm)
  have ok: "labels_ok ls" "\<forall>p q. ptr = Some (p, q) \<longrightarrow> p AND 0xC0 \<noteq> 0" "length tc = 4" "ttl < 2 ^ 32" "length rd < 2 ^ 16"
    using Cons.prems by (auto simp: r nm)
  let ?rest = "concat (map wire_rr rs) @ post"
  let ?tail = "tc @ to_be 4 ttl @ to_be 2 (length rd) @ rd @ ?rest"
  let ?m = "pre @ wire_name nm @ ?tail"
  let ?o = "length pre + length (wire_name nm)"
  have m: "pre @ concat (map wire_rr (r # rs)) @ post = ?m" by (simp add: r)
  have m': "?m = (pre @ wire_rr r) @ ?rest" by (simp add: r)
  have name: "rr_name ?m (length pre) = ?o"
    using rr_name_wire[OF ok(1,2), of pre ?tail] by (simp add: nm)
  have ttl: "slice (?o + 4) (?o + 8) ?m = to_be 4 ttl"
    using slice_prefix[of "pre @ wire_name nm @ tc" "?o + 4" "?o + 8" "to_be 4 ttl" "to_be 2 (length rd) @ rd @ ?rest"] ok(3)
    by simp
  have rdl: "slice (?o + 8) (?o + 10) ?m = to_be 2 (length rd)"
    using slice_prefix[of "pre @ wire_name nm @ tc @ to_be 4 ttl" "?o + 8" "?o + 10" "to_be 2 (length rd)" "rd @ ?rest"] ok(3)
    by simp
  have len: "length ?m = ?o + 10 + length rd + length ?rest" using ok(3) by simp
  have next_off: "?o + 10 + length rd = length (pre @ wire_rr r)" using ok(3) by (simp add: r)
  have v: "from_be (to_be 4 ttl) = ttl" "from_be (to_be 2 (length rd)) = length rd"
    using ok(4,5) by simp_all
  have "scan_answers ?m (Suc (length rs)) (length pre) m = scan_answers ?m (length rs) (length (pre @ wire_rr r))
      (case m of None \<Rightarrow> Some ttl | Some m0 \<Rightarrow> Some (min ttl m0))"
  proof -
    have "scan_answers ?m (Suc (length rs)) (length pre) m =
        (if length ?m \<le> length pre then None else if length ?m < ?o + 10 then None
         else scan_answers ?m (length rs) (?o + 10 + length rd)
           (case m of None \<Rightarrow> Some ttl | Some m0 \<Rightarrow> Some (if ttl < m0 then ttl else m0)))"
      by (simp only: scan_answers.simps Let_def name ttl rdl v)
    moreover have "(if ttl < m0 then ttl else m0) = min ttl m0" for m0 by (simp add: min_def)
    moreover have "\<not> length ?m \<le> length pre" "\<not> length ?m < ?o + 10" unfolding len by simp_all
    ultimately show ?thesis by (simp only: if_False next_off)
  qed
  also have "\<dots> = Some (foldl (\<lambda>m r. case m of None \<Rightarrow> Some (fst (snd (snd r)))
      | Some t \<Rightarrow> Some (min (fst (snd (snd r))) t)) (case m of None \<Rightarrow> Some ttl | Some m0 \<Rightarrow> Some (min ttl m0)) rs)"
    unfolding m' using Cons.IH[of "pre @ wire_rr r"] Cons.prems by simp
  finally show ?case unfolding m by (simp add: r cong: option.case_cong del: scan_answers.simps)
qed

lemma foldl_least:
  "foldl (\<lambda>m r. case m of None \<Rightarrow> Some (f r) | Some t \<Rightarrow> Some (min (f r) t)) (Some t) rs
     = Some (Min (insert (t::nat) (f ` set rs)))"
proof (induction rs arbitrary: t)
  case (Cons r rs)
  have "Min (insert t (f ` set (r # rs))) = Min (insert (min (f r) t) (f ` set rs))"
  proof (cases "rs = []")
    case True
    then show ?thesis by (simp add: min.commute)
  next
    case False
    then show ?thesis by (simp add: min.assoc min.left_commute min.commute)
  qed
  then show ?case using Cons by simp
qed simp

text \<open>For every well-formed DNS response, with any number of questions and answers, compressed names
  included, the cache's time to live is the least of the answers' times to live, brought into the
  range from half a minute to an hour, and a minute when there is no answer.\<close>
theorem ttl_of_response:
  assumes "length start = 4" "length counts = 4" "length qs < 2 ^ 16" "length rs < 2 ^ 16"
    and "\<forall>q\<in>set qs. labels_ok (fst q)" "\<forall>r\<in>set rs. rr_ok r"
  shows "extract_min_ttl (wire_header start (length qs) (length rs) counts
            @ concat (map wire_question qs) @ concat (map wire_rr rs) @ extra)
       = (if rs = [] then 60 else max 30 (min 3600 (of_nat (Min ((fst \<circ> snd \<circ> snd) ` set rs)))))"
proof -
  let ?h = "wire_header start (length qs) (length rs) counts"
  let ?q = "concat (map wire_question qs)"
  let ?m = "?h @ ?q @ concat (map wire_rr rs) @ extra"
  note c = dns_counts[OF assms(1,2,3,4)]
  have q: "skip_questions ?m (length qs) 12 = Some (12 + length ?q)"
    using skip_questions_wire[OF assms(5), of ?h "concat (map wire_rr rs) @ extra"] c(1) by simp
  have a: "scan_answers ?m (length rs) (12 + length ?q) None
      = Some (foldl (\<lambda>m r. case m of None \<Rightarrow> Some (fst (snd (snd r))) | Some t \<Rightarrow> Some (min (fst (snd (snd r))) t)) None rs)"
    using scan_answers_wire[OF assms(6), of "?h @ ?q" extra None] c(1) by simp
  have e: "extract_min_ttl ?m = (if length rs = 0 then 60 else
      case scan_answers ?m (length rs) (12 + length ?q) None of None \<Rightarrow> 0 | Some None \<Rightarrow> dns_negative_ttl
      | Some (Some ttl) \<Rightarrow> max dns_ttl_min (min dns_ttl_max (of_nat ttl)))"
    using c(1) by (simp add: extract_min_ttl_def c(2,3) q Let_def dns_negative_ttl_def del: length_0_conv)
  show ?thesis
  proof (cases rs)
    case Nil
    then show ?thesis using e by simp
  next
    case (Cons r rs')
    have "scan_answers ?m (length rs) (12 + length ?q) None = Some (Some (Min ((fst \<circ> snd \<circ> snd) ` set rs)))"
      unfolding a using foldl_least[of "\<lambda>r. fst (snd (snd r))" _ rs'] by (simp add: Cons comp_def)
    then show ?thesis using Cons unfolding e by (simp add: dns_ttl_min_def dns_ttl_max_def)
  qed
qed

theorem ttl_of_response_witness:
  "extract_min_ttl (wire_header [0, 1, 2, 3] 1 2 [0, 0, 0, 0]
      @ concat (map wire_question [([[97]], 1, 1)])
      @ concat (map wire_rr [(([], Some (0xC0, 12)), [0, 1, 0, 1], 300, [1, 2, 3, 4]), (([[97]], None), [0, 1, 0, 1], 100, [1, 2, 3, 5])]) @ [])
   = 100"
  using ttl_of_response[of "[0, 1, 2, 3]" "[0, 0, 0, 0]" "[([[97]], 1, 1)]"
    "[(([], Some (0xC0, 12)), [0, 1, 0, 1], 300, [1, 2, 3, 4]), (([[97]], None), [0, 1, 0, 1], 100, [1, 2, 3, 5])]" "[]"]
  by (simp add: labels_ok_def numeral_2_eq_2[symmetric])

end
