(* ===== verification/Outbound_Build.thy ===== *)
theory Outbound_Build
  imports Outbounds
begin

text \<open>
  \<open>build_outbounds\<close> of \<open>core/outbound.py\<close>: the leaves from the configuration, the implicit
  \<open>direct\<close> and \<open>block\<close>, and the fixpoint over the groups; then the life of the outbounds at run time as
  a step relation (latency samples, failures, manual choices, selections).
\<close>

record outbound_env =
  oe_float :: "pystr \<Rightarrow> rat option"
  oe_gai :: "pystr \<Rightarrow> (pystr list \<times> pystr list) option"

text \<open>
  \<open>_resolve_host_inplace\<close>: \<open>oe_gai\<close> is \<open>socket.getaddrinfo\<close> split into its IPv4 and IPv6 addresses,
  \<open>None\<close> for \<open>gaierror\<close>; \<open>ipaddress.ip_address\<close> takes integers, and \<open>getaddrinfo\<close> no other type
  than text.
\<close>

definition resolve_host :: "outbound_env \<Rightarrow> json \<Rightarrow> py_error + json" where
  "resolve_host e raw = (case raw of
      JStr s \<Rightarrow>
        (let host = py_strip s in
         if ip_address host \<noteq> None then Inr (JStr host)
         else case oe_gai e host of
           None \<Rightarrow> Inl SystemExitErr
         | Some (v4, v6) \<Rightarrow>
             (let ips = sort (remdups v4) @ sort (remdups v6) in
              if ips = [] then Inl SystemExitErr else Inr (JStr (hd ips))))
    | JInt n \<Rightarrow> if 0 \<le> n \<and> n < 2 ^ 128 then Inr raw else Inl TypeError
    | JBool b \<Rightarrow> Inr raw
    | _ \<Rightarrow> Inl TypeError)"

definition opt_float :: "outbound_env \<Rightarrow> json \<Rightarrow> pystr \<Rightarrow> py_error + rat option" where
  "opt_float e item k = (case jget item k of
      None \<Rightarrow> Inr None
    | Some v \<Rightarrow> bindE (py_float_of (oe_float e) v) (\<lambda>f. Inr (Some f)))"

definition normalize_mirage_cfg :: "outbound_env \<Rightarrow> json \<Rightarrow> py_error + node_cfg" where
  "normalize_mirage_cfg e item =
     bindE (py_int_of (jget_or item (U ''server_port'') (JInt 443))) (\<lambda>port.
     bindE (py_int_of (jget_or item (U ''brutal_rate_bps'') (JInt 0))) (\<lambda>rate.
     bindE (py_int_of (jget_or item (U ''brutal_pool_size'') (JInt 20))) (\<lambda>size.
     bindE (opt_float e item (U ''stagger_step_sec'')) (\<lambda>step.
     bindE (opt_float e item (U ''stagger_jitter_sec'')) (\<lambda>jitter.
       Inr \<lparr> n_host = jor (jget item (U ''server'')) (jget item (U ''server_host'')),
             n_port = port,
             n_password = jget_or item (U ''password'') (JStr []),
             n_camouflage = jor (jget item (U ''sni''))
               (Some (jget_or item (U ''camouflage_host'') (JStr (U ''www.apple.com'')))),
             n_rate = rate, n_pool_size = size, n_step = step, n_jitter = jitter \<rparr>)))))"

definition opt_entry :: "json \<Rightarrow> pystr \<Rightarrow> (pystr \<times> json) list" where
  "opt_entry cfg k = (case jget cfg k of None \<Rightarrow> [] | Some v \<Rightarrow> [(k, v)])"

definition key_or_error :: "json \<Rightarrow> pystr \<Rightarrow> py_error + json" where
  "key_or_error cfg k = (case jget cfg k of None \<Rightarrow> Inl KeyError | Some v \<Rightarrow> Inr v)"

definition synthesize_legacy_outbound :: "json \<Rightarrow> py_error + json list" where
  "synthesize_legacy_outbound cfg =
     bindE (key_or_error cfg (U ''server_host'')) (\<lambda>host.
     bindE (key_or_error cfg (U ''server_port'')) (\<lambda>port.
     bindE (key_or_error cfg (U ''password'')) (\<lambda>password.
       Inr [JObj ([(U ''type'', JStr (U ''mirage'')), (U ''tag'', JStr (U ''proxy'')),
         (U ''server'', host), (U ''server_port'', port), (U ''password'', password),
         (U ''sni'', jget_or cfg (U ''camouflage_host'') (JStr (U ''www.apple.com''))),
         (U ''brutal_rate_bps'', jget_or cfg (U ''brutal_rate_bps'') (JInt 0)),
         (U ''brutal_pool_size'', jget_or cfg (U ''brutal_pool_size'') (JInt 20))]
         @ opt_entry cfg (U ''stagger_step_sec'') @ opt_entry cfg (U ''stagger_jitter_sec''))])))"

type_synonym built = "outb list \<times> (pystr, nat) odict"

text \<open>\<open>out[tag] = object\<close>\<close>

definition add_outbound :: "pystr \<Rightarrow> outb \<Rightarrow> built \<Rightarrow> built" where
  "add_outbound t x s = (fst s @ [x], od_set t (length (fst s)) (snd s))"

definition group_types :: "pystr list" where
  "group_types = [U ''urltest'', U ''fallback'', U ''selector'']"

definition build_leaf :: "outbound_env \<Rightarrow> pystr \<Rightarrow> pystr \<Rightarrow> json \<Rightarrow> built \<times> json list \<Rightarrow> py_error + (built \<times> json list)" where
  "build_leaf e t otype item s =
     (if otype = U ''mirage'' \<or> otype = U ''pyrealiy'' then
        bindE (normalize_mirage_cfg e item) (\<lambda>cfg.
          case n_host cfg of
            None \<Rightarrow> Inl ValueError
          | Some h \<Rightarrow> if \<not> truthy h then Inl ValueError
              else bindE (resolve_host e h) (\<lambda>h'.
                Inr (add_outbound t (Mirage (new_mirage t (cfg\<lparr>n_host := Some h'\<rparr>))) (fst s), snd s)))
      else if otype = U ''direct'' then Inr (add_outbound t (Direct t) (fst s), snd s)
      else if otype = U ''block'' then Inr (add_outbound t (Block t) (fst s), snd s)
      else if otype \<in> set group_types then Inr (fst s, snd s @ [item])
      else Inl ValueError)"

fun build_leaves :: "outbound_env \<Rightarrow> json list \<Rightarrow> built \<times> json list \<Rightarrow> py_error + (built \<times> json list)" where
  "build_leaves e [] s = Inr s"
| "build_leaves e (item # items) s =
     (if \<not> is_obj item then Inl ValueError
      else case (jget item (U ''tag''), jget item (U ''type'')) of
        (Some t, Some otype) \<Rightarrow>
          if \<not> truthy t \<or> \<not> truthy otype then Inl ValueError
          else (case (t, otype) of
              (JStr t', JStr otype') \<Rightarrow>
                if od_mem t' (snd (fst s)) then Inl ValueError
                else bindE (build_leaf e t' otype' item s) (build_leaves e items)
            | _ \<Rightarrow> Inl ValueError)
      | _ \<Rightarrow> Inl ValueError)"

definition add_implicit :: "pystr \<Rightarrow> outb \<Rightarrow> built \<Rightarrow> built" where
  "add_implicit t x s = (if od_mem t (snd s) then s else add_outbound t x s)"

section \<open>Groups\<close>

definition group_child_tags :: "json \<Rightarrow> py_error + json list" where
  "group_child_tags item = (case jget item (U ''outbounds'') of
      Some (JList cts) \<Rightarrow> if cts = [] then Inl ValueError else Inr cts
    | _ \<Rightarrow> Inl ValueError)"

text \<open>\<open>[ct for ct in child_tags if ct not in out]\<close>; an unhashable element raises.\<close>

fun unresolved :: "(pystr, nat) odict \<Rightarrow> json list \<Rightarrow> py_error + json list" where
  "unresolved out [] = Inr []"
| "unresolved out (ct # cts) =
     (if \<not> hashable ct then Inl TypeError
      else bindE (unresolved out cts) (\<lambda>us.
        Inr (case ct of JStr s \<Rightarrow> if od_mem s out then us else ct # us | _ \<Rightarrow> ct # us)))"

definition child_addrs :: "(pystr, nat) odict \<Rightarrow> json list \<Rightarrow> nat list" where
  "child_addrs out cts = concat (map (\<lambda>ct. case ct of
      JStr s \<Rightarrow> (case od_get out s of Some a \<Rightarrow> [a] | None \<Rightarrow> []) | _ \<Rightarrow> []) cts)"

definition make_group :: "json \<Rightarrow> pystr \<Rightarrow> pystr \<Rightarrow> nat list \<Rightarrow> outb list \<Rightarrow> py_error + outb" where
  "make_group item t otype cs obs =
     (if otype = U ''urltest'' then
        bindE (py_int_of (jget_or item (U ''tolerance'') (JInt 50))) (\<lambda>tol. Inr (new_urltest t cs tol))
      else if otype = U ''selector'' then Inr (new_selector obs t cs (jget item (U ''default'')))
      else Inr (Fallback t cs))"

text \<open>One entry of a round: \<open>None\<close> when it is put off to the next round.\<close>

definition group_entry :: "json \<Rightarrow> built \<Rightarrow> py_error + built option" where
  "group_entry item s = (case (jget item (U ''tag''), jget item (U ''type'')) of
      (Some (JStr t), Some (JStr otype)) \<Rightarrow>
        bindE (group_child_tags item) (\<lambda>cts.
        bindE (unresolved (snd s) cts) (\<lambda>us.
          if us \<noteq> [] then Inr None
          else bindE (make_group item t otype (child_addrs (snd s) cts) (fst s)) (\<lambda>g.
            Inr (Some (add_outbound t g s)))))
    | _ \<Rightarrow> Inl KeyError)"

fun group_round :: "json list \<Rightarrow> built \<Rightarrow> py_error + (built \<times> json list \<times> bool)" where
  "group_round [] s = Inr (s, [], False)"
| "group_round (item # items) s =
     bindE (group_entry item s) (\<lambda>r. case r of
         None \<Rightarrow> bindE (group_round items s) (\<lambda>(s', next_round, progress). Inr (s', item # next_round, progress))
       | Some s1 \<Rightarrow> bindE (group_round items s1) (\<lambda>(s', next_round, progress). Inr (s', next_round, True)))"

lemma group_round_progress:
  "group_round items s = Inr (s', next_round, progress) \<Longrightarrow>
    length next_round \<le> length items \<and> (progress \<longrightarrow> length next_round < length items)"
  by (induction items arbitrary: s s' next_round progress)
    (fastforce simp: bindE_Inr_iff split: option.splits)+

function group_fixpoint :: "json list \<Rightarrow> built \<Rightarrow> py_error + built" where
  "group_fixpoint pending s =
     (if pending = [] then Inr s
      else case group_round pending s of
        Inl e \<Rightarrow> Inl e
      | Inr r \<Rightarrow> if \<not> snd (snd r) then Inl ValueError else group_fixpoint (fst (snd r)) (fst r))"
  by pat_completeness auto
termination
  by (relation "measure (\<lambda>(pending, s). length pending)") (auto dest!: group_round_progress)

declare group_fixpoint.simps [simp del]

definition raw_outbounds :: "json \<Rightarrow> py_error + json list" where
  "raw_outbounds cfg = (case jget cfg (U ''outbounds'') of
      Some v \<Rightarrow> if truthy v then py_iter v
        else if jget cfg (U ''server_host'') = None then Inl ValueError else synthesize_legacy_outbound cfg
    | None \<Rightarrow> if jget cfg (U ''server_host'') = None then Inl ValueError else synthesize_legacy_outbound cfg)"

definition build_outbounds :: "outbound_env \<Rightarrow> json \<Rightarrow> py_error + built" where
  "build_outbounds e cfg =
     bindE (raw_outbounds cfg) (\<lambda>items.
     bindE (build_leaves e items (([], []), [])) (\<lambda>(s, deferred).
       group_fixpoint deferred
         (add_implicit (U ''block'') (Block (U ''block''))
           (add_implicit (U ''direct'') (Direct (U ''direct'')) s))))"

section \<open>Every configuration that builds is well formed\<close>

definition built_ok :: "built \<Rightarrow> bool" where
  "built_ok s \<longleftrightarrow> obs_ok (fst s)
     \<and> (\<forall>t a. od_get (snd s) t = Some a \<longrightarrow> a < length (fst s) \<and> tag_of (fst s ! a) = t)"

definition new_object_ok :: "outb list \<Rightarrow> outb \<Rightarrow> bool" where
  "new_object_ok obs x \<longleftrightarrow> (\<forall>c\<in>set (children x). c < length obs) \<and> (\<not> is_leaf x \<longrightarrow> children x \<noteq> [])
     \<and> (\<forall>t cs sel. x = Selector t cs sel \<longrightarrow> selected_child obs cs sel \<noteq> None)"

lemma selected_child_append:
  "\<forall>c\<in>set cs. c < length obs \<Longrightarrow> selected_child (obs @ ys) cs sel = selected_child obs cs sel"
  unfolding selected_child_def by (rule find_cong_set) (simp add: nth_append)

lemma obs_ok_append:
  assumes "obs_ok obs" "new_object_ok obs x"
  shows "obs_ok (obs @ [x])"
  unfolding obs_ok_def
proof (intro allI impI conjI)
  fix a assume a: "a < length (obs @ [x])"
  have e: "(obs @ [x]) ! a = (if a < length obs then obs ! a else x)" using a by (auto simp: nth_append)
  show "\<forall>c\<in>set (children ((obs @ [x]) ! a)). c < a"
    using obs_okD(1)[OF assms(1)] assms(2) a by (auto simp: e new_object_ok_def less_Suc_eq)
  show "\<not> is_leaf ((obs @ [x]) ! a) \<Longrightarrow> children ((obs @ [x]) ! a) \<noteq> []"
    using assms by (auto simp: e obs_ok_def new_object_ok_def split: if_splits)
  fix t cs sel assume s: "(obs @ [x]) ! a = Selector t cs sel"
  show "selected_child (obs @ [x]) cs sel \<noteq> None"
  proof (cases "a < length obs")
    case True
    then have o: "obs ! a = Selector t cs sel" using s e by simp
    then have "selected_child obs cs sel \<noteq> None" using assms(1) True unfolding obs_ok_def by blast
    then show ?thesis using selected_child_append[of cs obs "[x]"] obs_okD(2)[OF assms(1) True] o by simp
  next
    case False
    then have "x = Selector t cs sel" using s e by simp
    then show ?thesis using assms(2) selected_child_append[of cs obs "[x]"] by (simp add: new_object_ok_def)
  qed
qed

lemma add_outbound_ok:
  assumes "built_ok s" "new_object_ok (fst s) x" "tag_of x = t"
  shows "built_ok (add_outbound t x s)"
  using assms obs_ok_append[of "fst s" x]
  by (auto simp: built_ok_def add_outbound_def nth_append less_Suc_eq split: if_splits)

lemma add_outbound_mem: "od_mem k (snd (add_outbound t x s)) \<longleftrightarrow> k = t \<or> od_mem k (snd s)"
  by (auto simp: add_outbound_def od_mem_get)

lemma leaf_ok: "is_leaf x \<Longrightarrow> new_object_ok obs x"
  by (cases x) (auto simp: new_object_ok_def)

lemma build_leaf_cases:
  assumes "build_leaf e t otype item s = Inr s'"
  shows "(\<exists>x. is_leaf x \<and> tag_of x = t \<and> s' = (add_outbound t x (fst s), snd s)) \<or> s' = (fst s, snd s @ [item])"
proof (cases "otype = U ''mirage'' \<or> otype = U ''pyrealiy''")
  case True
  then obtain cfg where c: "(case n_host cfg of None \<Rightarrow> Inl ValueError
        | Some h \<Rightarrow> if \<not> truthy h then Inl ValueError else bindE (resolve_host e h) (\<lambda>h'.
            Inr (add_outbound t (Mirage (new_mirage t (cfg\<lparr>n_host := Some h'\<rparr>))) (fst s), snd s))) = Inr s'"
    using assms by (auto simp: build_leaf_def bindE_Inr_iff)
  then obtain h h' where "n_host cfg = Some h" "truthy h" "resolve_host e h = Inr h'"
    "s' = (add_outbound t (Mirage (new_mirage t (cfg\<lparr>n_host := Some h'\<rparr>))) (fst s), snd s)"
    by (cases "n_host cfg") (auto simp: bindE_Inr_iff split: if_splits)
  then show ?thesis
    by (intro disjI1 exI[of _ "Mirage (new_mirage t (cfg\<lparr>n_host := Some h'\<rparr>))"]) (simp add: new_mirage_def)
next
  case False
  then have "s' = (add_outbound t (Direct t) (fst s), snd s) \<or> s' = (add_outbound t (Block t) (fst s), snd s)
      \<or> s' = (fst s, snd s @ [item])"
    using assms by (auto simp: build_leaf_def split: if_splits)
  then show ?thesis using is_leaf.simps(1,2) tag_of.simps(1,2) by blast
qed

lemma build_leaf_deferred: "build_leaf e t otype item s = Inr s' \<Longrightarrow> set (snd s) \<subseteq> set (snd s')"
  by (drule build_leaf_cases) auto

lemma build_leaf_ok:
  assumes "build_leaf e t otype item s = Inr s'" "built_ok (fst s)"
  shows "built_ok (fst s') \<and> (\<forall>k. od_mem k (snd (fst s)) \<longrightarrow> od_mem k (snd (fst s')))
    \<and> (od_mem t (snd (fst s')) \<or> item \<in> set (snd s')) \<and> set (snd s) \<subseteq> set (snd s')
    \<and> set (snd s') \<subseteq> insert item (set (snd s))"
proof -
  from build_leaf_cases[OF assms(1)] show ?thesis
  proof (elim disjE exE conjE)
    fix x assume x: "is_leaf x" "tag_of x = t" "s' = (add_outbound t x (fst s), snd s)"
    then show ?thesis using add_outbound_ok[OF assms(2) leaf_ok[OF x(1)] x(2)] by (auto simp: add_outbound_mem)
  next
    assume "s' = (fst s, snd s @ [item])"
    then show ?thesis using assms(2) by auto
  qed
qed

lemma build_leaves_ok:
  "build_leaves e items s = Inr s' \<Longrightarrow> built_ok (fst s) \<Longrightarrow>
    built_ok (fst s') \<and> (\<forall>k. od_mem k (snd (fst s)) \<longrightarrow> od_mem k (snd (fst s')))
    \<and> (\<forall>item\<in>set items. \<exists>t. jget item (U ''tag'') = Some (JStr t) \<and> (od_mem t (snd (fst s')) \<or> item \<in> set (snd s')))
    \<and> set (snd s) \<subseteq> set (snd s')"
proof (induction items arbitrary: s)
  case Nil
  then show ?case by simp
next
  case (Cons item items)
  obtain t otype s1 where t: "jget item (U ''tag'') = Some (JStr t)"
    and b: "build_leaf e t otype item s = Inr s1" "build_leaves e items s1 = Inr s'"
    using Cons.prems(1) by (auto simp: bindE_Inr_iff split: if_splits option.splits json.splits)
  from build_leaf_ok[OF b(1) Cons.prems(2)] Cons.IH[OF b(2)] t show ?case by fastforce
qed

lemma build_leaves_deferred:
  "build_leaves e items s = Inr s' \<Longrightarrow> item \<in> set items \<Longrightarrow> jget item (U ''type'') = Some (JStr g) \<Longrightarrow>
    g \<in> set group_types \<Longrightarrow> item \<in> set (snd s')"
proof (induction items arbitrary: s)
  case Nil
  then show ?case by simp
next
  case (Cons x items)
  obtain t otype s1 where x: "jget x (U ''type'') = Some (JStr otype)"
    and b: "build_leaf e t otype x s = Inr s1" "build_leaves e items s1 = Inr s'"
    using Cons.prems(1) by (auto simp: bindE_Inr_iff split: if_splits option.splits json.splits)
  have mono: "set (snd s1) \<subseteq> set (snd s')" if "build_leaves e items s1 = Inr s'" for items s1 s'
    using that
  proof (induction items arbitrary: s1)
    case (Cons y items)
    then obtain t' o' s2 where "build_leaf e t' o' y s1 = Inr s2" "build_leaves e items s2 = Inr s'"
      by (auto simp: bindE_Inr_iff split: if_splits option.splits json.splits)
    then show ?case using Cons.IH[of s2] build_leaf_deferred[of e t' o' y s1 s2] by blast
  qed simp
  show ?case
  proof (cases "item = x")
    case True
    then have "s1 = (fst s, snd s @ [x])" using b(1) x Cons.prems(3,4) by (auto simp: build_leaf_def group_types_def)
    then show ?thesis using mono[OF b(2)] True by auto
  next
    case False
    then show ?thesis using Cons.IH[OF b(2)] Cons.prems by simp
  qed
qed

lemma unresolved_none:
  "unresolved out cts = Inr [] \<Longrightarrow> \<forall>ct\<in>set cts. \<exists>s a. ct = JStr s \<and> od_get out s = Some a"
proof (induction cts)
  case Nil
  then show ?case by simp
next
  case (Cons ct cts)
  then show ?case by (cases ct) (auto simp: bindE_Inr_iff od_mem_get split: if_splits)
qed

lemma child_addrs_mem:
  "\<forall>ct\<in>set cts. \<exists>s a. ct = JStr s \<and> od_get out s = Some a \<Longrightarrow> cts \<noteq> [] \<Longrightarrow>
    child_addrs out cts \<noteq> [] \<and> (\<forall>a\<in>set (child_addrs out cts). \<exists>s. od_get out s = Some a)"
  by (cases cts) (auto simp: child_addrs_def split: json.splits option.splits)

lemma selector_valid:
  assumes "cs \<noteq> []"
  shows "\<exists>s. new_selector obs t cs d = Selector t cs (Some s) \<and> selected_child obs cs (Some s) \<noteq> None"
proof -
  have ex: "selected_child obs cs (Some s) \<noteq> None" if "s \<in> (\<lambda>c. tag_of (obs ! c)) ` set cs" for s
    using that by (auto simp: selected_child_def find_None_iff)
  have "tag_of (obs ! hd cs) \<in> (\<lambda>c. tag_of (obs ! c)) ` set cs" using assms by simp
  moreover have "hd (map (\<lambda>c. tag_of (obs ! c)) cs) = tag_of (obs ! hd cs)" using assms by (simp add: hd_map)
  ultimately show ?thesis using ex assms
    by (cases d) (auto simp: new_selector_def Let_def split: json.split)
qed

lemma make_group_ok:
  assumes "make_group item t otype cs obs = Inr g" "cs \<noteq> []" "\<forall>c\<in>set cs. c < length obs"
  shows "new_object_ok obs g \<and> tag_of g = t"
proof -
  obtain s where s: "new_selector obs t cs (jget item (U ''default'')) = Selector t cs (Some s)" "selected_child obs cs (Some s) \<noteq> None"
    using selector_valid[OF assms(2)] by blast
  have "(\<exists>tol. g = new_urltest t cs tol) \<or> g = Selector t cs (Some s) \<or> g = Fallback t cs"
    using assms(1) unfolding make_group_def s(1) by (auto simp: bindE_Inr_iff split: if_splits)
  then show ?thesis using assms(2,3) s(2) by (auto simp: new_urltest_def new_object_ok_def)
qed

lemma two_str_cases:
  "(case (a, b) of (Some (JStr t), Some (JStr y)) \<Rightarrow> f t y | _ \<Rightarrow> Inl e) = Inr r
    \<longleftrightarrow> (\<exists>t y. a = Some (JStr t) \<and> b = Some (JStr y) \<and> f t y = Inr r)"
  by (auto split: option.split json.split)

lemma group_child_tags_Inr:
  "group_child_tags item = Inr cts \<longleftrightarrow> jget item (U ''outbounds'') = Some (JList cts) \<and> cts \<noteq> []"
  by (auto simp: group_child_tags_def split: option.split json.split)

lemma group_entry_ok:
  assumes "group_entry item s = Inr (Some s1)" "built_ok s"
  shows "built_ok s1 \<and> (\<forall>k. od_mem k (snd s) \<longrightarrow> od_mem k (snd s1))
    \<and> (\<exists>t cts. jget item (U ''tag'') = Some (JStr t) \<and> od_mem t (snd s1)
         \<and> jget item (U ''outbounds'') = Some (JList cts) \<and> (\<forall>ct\<in>set cts. \<exists>c. ct = JStr c \<and> od_mem c (snd s1)))"
proof -
  obtain t otype cts g where g: "jget item (U ''tag'') = Some (JStr t)"
      "group_child_tags item = Inr cts" "unresolved (snd s) cts = Inr []"
      "make_group item t otype (child_addrs (snd s) cts) (fst s) = Inr g" "s1 = add_outbound t g s"
    using assms(1) unfolding group_entry_def two_str_cases bindE_Inr_iff
    by (elim exE conjE) (simp add: bindE_Inr_iff split: if_splits, blast)
  have c: "jget item (U ''outbounds'') = Some (JList cts)" "cts \<noteq> []"
    using g(2) by (simp_all add: group_child_tags_Inr)
  note u = unresolved_none[OF g(3)]
  have a: "child_addrs (snd s) cts \<noteq> []" "\<forall>a\<in>set (child_addrs (snd s) cts). a < length (fst s)"
    using child_addrs_mem[OF u c(2)] assms(2) by (auto simp: built_ok_def)
  have "built_ok s1" using add_outbound_ok[OF assms(2)] make_group_ok[OF g(4) a] g(5) by blast
  moreover have "\<forall>ct\<in>set cts. \<exists>c. ct = JStr c \<and> od_mem c (snd s1)"
  proof
    fix ct assume "ct \<in> set cts"
    then obtain c a where "ct = JStr c" "od_get (snd s) c = Some a" using u by blast
    then show "\<exists>c. ct = JStr c \<and> od_mem c (snd s1)" unfolding g(5) add_outbound_mem by (simp add: od_mem_get)
  qed
  moreover have "od_mem t (snd s1)" "\<forall>k. od_mem k (snd s) \<longrightarrow> od_mem k (snd s1)"
    unfolding g(5) add_outbound_mem by simp_all
  ultimately show ?thesis using g(1) c(1) by blast
qed

text \<open>What the finished table says of an entry of the configuration.\<close>

definition group_done :: "(pystr, nat) odict \<Rightarrow> json \<Rightarrow> bool" where
  "group_done out item \<longleftrightarrow> (\<exists>t cts. jget item (U ''tag'') = Some (JStr t) \<and> od_mem t out
     \<and> jget item (U ''outbounds'') = Some (JList cts) \<and> (\<forall>ct\<in>set cts. \<exists>c. ct = JStr c \<and> od_mem c out))"

lemma group_done_mono: "group_done out item \<Longrightarrow> \<forall>k. od_mem k out \<longrightarrow> od_mem k out' \<Longrightarrow> group_done out' item"
  unfolding group_done_def by blast

lemma group_round_ok:
  "group_round items s = Inr (s', next_round, progress) \<Longrightarrow> built_ok s \<Longrightarrow>
    built_ok s' \<and> (\<forall>k. od_mem k (snd s) \<longrightarrow> od_mem k (snd s'))
    \<and> (\<forall>item\<in>set items. group_done (snd s') item \<or> item \<in> set next_round)"
proof (induction items arbitrary: s s' next_round progress)
  case Nil
  then show ?case by simp
next
  case (Cons item items)
  obtain r where r: "group_entry item s = Inr r" using Cons.prems(1) by (auto simp: bindE_Inr_iff)
  show ?case
  proof (cases r)
    case None
    then obtain nx p where "group_round items s = Inr (s', nx, p)" "next_round = item # nx"
      using Cons.prems(1) r by (auto simp: bindE_Inr_iff)
    then show ?thesis using Cons.IH Cons.prems(2) by fastforce
  next
    case (Some s1)
    then obtain p where p: "group_round items s1 = Inr (s', next_round, p)"
      using Cons.prems(1) r by (auto simp: bindE_Inr_iff)
    have e: "built_ok s1" "\<forall>k. od_mem k (snd s) \<longrightarrow> od_mem k (snd s1)" "group_done (snd s1) item"
      using group_entry_ok[of item s s1] r Some Cons.prems(2) by (auto simp: group_done_def)
    show ?thesis using Cons.IH[OF p e(1)] e(2) group_done_mono[OF e(3)] by fastforce
  qed
qed

lemma group_fixpoint_ok:
  "group_fixpoint pending s = Inr s' \<Longrightarrow> built_ok s \<Longrightarrow>
    built_ok s' \<and> (\<forall>k. od_mem k (snd s) \<longrightarrow> od_mem k (snd s')) \<and> (\<forall>item\<in>set pending. group_done (snd s') item)"
proof (induction pending s rule: group_fixpoint.induct)
  case (1 pending s)
  show ?case
  proof (cases "pending = []")
    case True
    then show ?thesis using 1(2,3) by (simp add: group_fixpoint.simps)
  next
    case False
    then obtain s1 nx where r: "group_round pending s = Inr (s1, nx, True)" and f: "group_fixpoint nx s1 = Inr s'"
      using 1(2) by (subst (asm) group_fixpoint.simps) (auto split: sum.splits if_splits)
    note ok = group_round_ok[OF r 1(3)]
    have "built_ok s' \<and> (\<forall>k. od_mem k (snd s1) \<longrightarrow> od_mem k (snd s')) \<and> (\<forall>item\<in>set nx. group_done (snd s') item)"
      using 1(1)[OF False r] f ok by simp
    then show ?thesis using ok group_done_mono by blast
  qed
qed


lemma built_outbounds_well_formed_facts:
  assumes "build_outbounds e cfg = Inr (obs, out)"
  shows "obs_ok obs
    \<and> (\<forall>t a. od_get out t = Some a \<longrightarrow> a < length obs \<and> tag_of (obs ! a) = t)
    \<and> od_mem (U ''direct'') out \<and> od_mem (U ''block'') out
    \<and> (\<exists>items. raw_outbounds cfg = Inr items
         \<and> (\<forall>item\<in>set items. \<exists>t. jget item (U ''tag'') = Some (JStr t) \<and> od_mem t out
              \<and> (jget item (U ''type'') \<in> (\<lambda>g. Some (JStr g)) ` set group_types \<longrightarrow> group_done out item)))"
proof -
  obtain items s deferred where r: "raw_outbounds cfg = Inr items"
    and l: "build_leaves e items (([], []), []) = Inr (s, deferred)"
    and f: "group_fixpoint deferred (add_implicit (U ''block'') (Block (U ''block''))
           (add_implicit (U ''direct'') (Direct (U ''direct'')) s)) = Inr (obs, out)" (is "group_fixpoint _ ?s = _")
    using assms by (auto simp: build_outbounds_def bindE_Inr_iff)
  have z: "built_ok ([], [])" by (simp add: built_ok_def obs_ok_def)
  note L = build_leaves_ok[OF l, simplified, OF z]
  have Lt: "\<forall>item\<in>set items. \<exists>t. jget item (U ''tag'') = Some (JStr t) \<and> (od_mem t (snd s) \<or> item \<in> set deferred)"
    using L by simp
  have imp: "built_ok (add_implicit t x b) \<and> od_mem t (snd (add_implicit t x b))
      \<and> (\<forall>k. od_mem k (snd b) \<longrightarrow> od_mem k (snd (add_implicit t x b)))"
    if "built_ok b" "is_leaf x" "tag_of x = t" for t x b
    using add_outbound_ok[OF that(1) leaf_ok[OF that(2)] that(3)] that(1)
    by (auto simp: add_implicit_def add_outbound_mem)
  let ?d = "add_implicit (U ''direct'') (Direct (U ''direct'')) s"
  have "built_ok s" using L by simp
  then have i1: "built_ok ?d \<and> od_mem (U ''direct'') (snd ?d) \<and> (\<forall>k. od_mem k (snd s) \<longrightarrow> od_mem k (snd ?d))"
    by (rule imp) simp_all
  then have i2: "built_ok ?s \<and> od_mem (U ''block'') (snd ?s) \<and> (\<forall>k. od_mem k (snd ?d) \<longrightarrow> od_mem k (snd ?s))"
    by (intro imp) simp_all
  have s: "built_ok ?s" "od_mem (U ''direct'') (snd ?s)" "od_mem (U ''block'') (snd ?s)"
    "\<forall>k. od_mem k (snd s) \<longrightarrow> od_mem k (snd ?s)"
    subgoal by (rule i2[THEN conjunct1])
    subgoal using i2[THEN conjunct2, THEN conjunct2] i1[THEN conjunct2, THEN conjunct1] by blast
    subgoal by (rule i2[THEN conjunct2, THEN conjunct1])
    subgoal using i2[THEN conjunct2, THEN conjunct2] i1[THEN conjunct2, THEN conjunct2] by blast
    done
  note F = group_fixpoint_ok[OF f s(1)]
  have g: "\<exists>t. jget item (U ''tag'') = Some (JStr t) \<and> od_mem t out
      \<and> (jget item (U ''type'') \<in> (\<lambda>g. Some (JStr g)) ` set group_types \<longrightarrow> group_done out item)"
    if item: "item \<in> set items" for item
  proof -
    obtain t where t: "jget item (U ''tag'') = Some (JStr t)" "od_mem t (snd s) \<or> item \<in> set deferred"
      using bspec[OF Lt item] by (elim exE conjE) (rule that)
    have d: "item \<in> set deferred \<Longrightarrow> group_done out item" using F by simp
    have "jget item (U ''type'') \<in> (\<lambda>g. Some (JStr g)) ` set group_types \<Longrightarrow> item \<in> set deferred"
      using build_leaves_deferred[OF l item] by auto
    moreover have "od_mem t out" using t d s(4) F by (auto simp: group_done_def)
    ultimately show ?thesis using t(1) d by blast
  qed
  show ?thesis using F s(2,3) r g by (auto simp: built_ok_def)
qed


text \<open>Whatever configuration \<open>build_outbounds\<close> accepts, the outbounds it makes are well formed: \<open>direct\<close> and
  \<open>block\<close> are always there, every entry's tag names an outbound, every outbound in the table carries the
  tag it is filed under, every child of every group is defined, and no group reaches itself (a child is
  always older than its group), so the fixpoint over groups rejects exactly what it cannot resolve.\<close>
theorem built_outbounds_well_formed:
  assumes "build_outbounds e cfg = Inr (obs, out)"
  shows "obs_ok obs
    \<and> (\<forall>t a. od_get out t = Some a \<longrightarrow> a < length obs \<and> tag_of (obs ! a) = t)
    \<and> od_mem (U ''direct'') out \<and> od_mem (U ''block'') out
    \<and> (\<exists>items. raw_outbounds cfg = Inr items
         \<and> (\<forall>item\<in>set items. \<exists>t. jget item (U ''tag'') = Some (JStr t) \<and> od_mem t out
              \<and> (jget item (U ''type'') \<in> (\<lambda>g. Some (JStr g)) ` set group_types \<longrightarrow> group_done out item)))"
  using built_outbounds_well_formed_facts[OF assms] .

definition sample_outbounds :: json where
  "sample_outbounds = JObj [(U ''outbounds'', JList
     [JObj [(U ''type'', JStr (U ''direct'')), (U ''tag'', JStr (U ''d''))],
      JObj [(U ''type'', JStr (U ''fallback'')), (U ''tag'', JStr (U ''g'')), (U ''outbounds'', JList [JStr (U ''h'')])],
      JObj [(U ''type'', JStr (U ''selector'')), (U ''tag'', JStr (U ''h'')), (U ''outbounds'', JList [JStr (U ''d'')])]])]"

definition sample_outbound_env :: outbound_env where
  "sample_outbound_env = \<lparr> oe_float = (\<lambda>_. None), oe_gai = (\<lambda>_. None) \<rparr>"

definition sample_built :: built where
  "sample_built =
    ([Direct (U ''d''), Direct (U ''direct''), Block (U ''block''), Selector (U ''h'') [0] (Some (U ''d'')), Fallback (U ''g'') [3]],
     [(U ''d'', 0), (U ''direct'', 1), (U ''block'', 2), (U ''h'', 3), (U ''g'', 4)])"

lemmas build_eval = build_outbounds_def raw_outbounds_def od_get_def build_leaf_def group_types_def add_outbound_def
  add_implicit_def group_fixpoint.simps group_entry_def group_child_tags_def child_addrs_def make_group_def
  new_selector_def jget_or_def U_def

lemma sample_builds: "build_outbounds sample_outbound_env sample_outbounds = Inr sample_built"
  by (simp add: sample_outbounds_def sample_built_def build_eval)

theorem built_outbounds_well_formed_witness:
  "obs_ok (fst sample_built) \<and> od_mem (U ''direct'') (snd sample_built) \<and> od_mem (U ''block'') (snd sample_built)"
  using built_outbounds_well_formed[of sample_outbound_env sample_outbounds "fst sample_built" "snd sample_built"] sample_builds
  by simp

section \<open>Run time\<close>

text \<open>What happens to the outbounds while the client runs, in any order.\<close>

inductive outb_step :: "outb list \<Rightarrow> outb list \<Rightarrow> bool" where
  Sample: "a < length obs \<Longrightarrow> obs ! a = Mirage m \<Longrightarrow> outb_step obs (obs[a := Mirage (record_latency ms now m)])"
| Failure: "a < length obs \<Longrightarrow> obs ! a = Mirage m \<Longrightarrow> outb_step obs (obs[a := Mirage (record_failure m)])"
| Select: "a < length obs \<Longrightarrow> outb_step obs (snd (selector_select obs a t))"
| Use: "a < length obs \<Longrightarrow> outb_step obs (snd (resolve_leaf obs a))"

text \<open>The tags and the topology, without samples, failures and choices.\<close>

definition skeleton :: "outb list \<Rightarrow> (pystr \<times> nat list \<times> bool) list" where
  "skeleton obs = map (\<lambda>x. (tag_of x, children x, is_leaf x)) obs"

definition selectors_valid :: "outb list \<Rightarrow> bool" where
  "selectors_valid obs \<longleftrightarrow> (\<forall>a<length obs. \<forall>t cs sel. obs ! a = Selector t cs sel \<longrightarrow> selected_child obs cs sel \<noteq> None)"

lemma skeleton_facts:
  assumes "skeleton obs' = skeleton obs"
  shows "length obs' = length obs" "a < length obs \<Longrightarrow> tag_of (obs' ! a) = tag_of (obs ! a)"
    "a < length obs \<Longrightarrow> children (obs' ! a) = children (obs ! a)" "a < length obs \<Longrightarrow> is_leaf (obs' ! a) = is_leaf (obs ! a)"
proof -
  show l: "length obs' = length obs" using arg_cong[OF assms, of length] by (simp add: skeleton_def)
  have "a < length obs \<Longrightarrow> skeleton obs' ! a = skeleton obs ! a" using assms by simp
  then show "a < length obs \<Longrightarrow> tag_of (obs' ! a) = tag_of (obs ! a)"
    "a < length obs \<Longrightarrow> children (obs' ! a) = children (obs ! a)" "a < length obs \<Longrightarrow> is_leaf (obs' ! a) = is_leaf (obs ! a)"
    using l by (simp_all add: skeleton_def)
qed

lemma obs_ok_skeleton:
  assumes "skeleton obs' = skeleton obs" "obs_ok obs" "selectors_valid obs'"
  shows "obs_ok obs'"
  unfolding obs_ok_def
proof (intro allI impI conjI)
  fix a assume "a < length obs'"
  then have a: "a < length obs" using skeleton_facts(1)[OF assms(1)] by simp
  show "\<forall>c\<in>set (children (obs' ! a)). c < a"
    unfolding skeleton_facts(3)[OF assms(1) a] using obs_okD(1)[OF assms(2) a] by blast
  show "\<not> is_leaf (obs' ! a) \<Longrightarrow> children (obs' ! a) \<noteq> []"
    unfolding skeleton_facts(3,4)[OF assms(1) a] using assms(2) a by (simp add: obs_ok_def)
  show "\<And>t cs sel. obs' ! a = Selector t cs sel \<Longrightarrow> selected_child obs' cs sel \<noteq> None"
    by (rule assms(3)[unfolded selectors_valid_def, rule_format, OF \<open>a < length obs'\<close>])
qed

lemma skeleton_update: "a < length obs \<Longrightarrow> tag_of x = tag_of (obs ! a) \<Longrightarrow> children x = children (obs ! a)
    \<Longrightarrow> is_leaf x = is_leaf (obs ! a) \<Longrightarrow> skeleton (obs[a := x]) = skeleton obs"
  by (simp add: skeleton_def map_update list_update_same_conv)

lemma same_skeleton: "same obs' obs \<Longrightarrow> skeleton obs' = skeleton obs"
  by (rule nth_equalityI) (auto simp: skeleton_def same_length same_facts)

lemma selected_child_skeleton:
  assumes "skeleton obs' = skeleton obs" "\<forall>c\<in>set cs. c < length obs"
  shows "selected_child obs' cs sel = selected_child obs cs sel"
  unfolding selected_child_def
proof (rule find_cong_set)
  fix c assume "c \<in> set cs"
  then have "tag_of (obs' ! c) = tag_of (obs ! c)" using skeleton_facts(2)[OF assms(1)] assms(2) by blast
  then show "(Some (tag_of (obs' ! c)) = sel) = (Some (tag_of (obs ! c)) = sel)" by simp
qed

lemma update_ok:
  assumes "obs_ok obs" "a < length obs" "tag_of x = tag_of (obs ! a)" "children x = children (obs ! a)"
    "is_leaf x = is_leaf (obs ! a)"
    and "\<And>t cs sel. x = Selector t cs sel \<Longrightarrow> selected_child obs cs sel \<noteq> None"
  shows "obs_ok (obs[a := x]) \<and> skeleton (obs[a := x]) = skeleton obs"
proof -
  let ?o = "obs[a := x]"
  have sk: "skeleton ?o = skeleton obs" by (rule skeleton_update[OF assms(2-5)])
  have "selected_child ?o cs sel \<noteq> None" if b: "b < length ?o" "?o ! b = Selector t cs sel" for b t cs sel
  proof -
    have "cs = children (obs ! b)" using skeleton_facts(3)[OF sk, of b] b by simp
    then have "selected_child ?o cs sel = selected_child obs cs sel"
      using selected_child_skeleton[OF sk] obs_okD(2)[OF assms(1)] b by simp
    moreover have "selected_child obs cs sel \<noteq> None"
    proof (cases "b = a")
      case True
      then show ?thesis using assms(2,6) b by simp
    next
      case False
      then show ?thesis using assms(1) b by (auto simp: obs_ok_def)
    qed
    ultimately show ?thesis by simp
  qed
  then show ?thesis using obs_ok_skeleton[OF sk assms(1)] sk by (auto simp: selectors_valid_def)
qed

lemma outb_step_ok:
  assumes "outb_step obs obs'" "obs_ok obs"
  shows "obs_ok obs' \<and> skeleton obs' = skeleton obs"
  using assms(1)
proof (cases rule: outb_step.cases)
  case (Sample a m ms now)
  show ?thesis unfolding Sample(1)
    by (rule update_ok[OF assms(2) Sample(2)]) (use Sample in \<open>simp_all add: record_latency_def Let_def\<close>)
next
  case (Failure a m)
  show ?thesis unfolding Failure(1)
    by (rule update_ok[OF assms(2) Failure(2)]) (use Failure in \<open>simp_all add: record_failure_def\<close>)
next
  case (Select a t)
  show ?thesis
  proof (cases "\<exists>g cs sel. obs ! a = Selector g cs sel \<and> list_ex (\<lambda>c. tag_of (obs ! c) = t) cs")
    case True
    then obtain g cs sel where s: "obs ! a = Selector g cs sel" "list_ex (\<lambda>c. tag_of (obs ! c) = t) cs" by blast
    have "selected_child obs cs (Some t) \<noteq> None"
      using s(2) by (auto simp: selected_child_def find_None_iff list_ex_iff)
    then show ?thesis using update_ok[OF assms(2) Select(2), of "Selector g cs (Some t)"] s Select(1)
      by (simp add: selector_select_def)
  next
    case False
    then have "obs' = obs" using Select(1) by (auto simp: selector_select_def split: outb.splits)
    then show ?thesis using assms(2) by simp
  qed
next
  case (Use a)
  have "same obs' obs" unfolding Use(1) resolve_leaf_def by (rule resolve_same)
  then show ?thesis using obs_ok_same[OF _ assms(2)] same_skeleton by simp
qed

lemma outb_steps_ok: "outb_step\<^sup>*\<^sup>* obs obs' \<Longrightarrow> obs_ok obs \<Longrightarrow> obs_ok obs' \<and> skeleton obs' = skeleton obs"
  by (induction rule: rtranclp_induct) (use outb_step_ok in fastforce)+

text \<open>C19: At any time of a run, after any sequence of latency samples, build failures, manual choices and
  selections, every tag of the configuration that counts as healthy, whatever groups it nests, resolves to a
  leaf (direct, block or mirage) that is itself healthy, and resolving it changes the health of nothing.\<close>
theorem running_outbound_resolves:
  assumes "build_outbounds e cfg = Inr (obs0, out)" "outb_step\<^sup>*\<^sup>* obs0 obs" "od_get out t = Some a" "healthy obs a"
  shows "\<exists>l obs'. resolve_leaf obs a = (l, obs') \<and> is_leaf (obs' ! l) \<and> healthy obs' l
    \<and> tag_of (obs' ! a) = t \<and> (\<forall>b<length obs. healthy obs' b = healthy obs b)"
proof -
  have b: "obs_ok obs0" "a < length obs0" "tag_of (obs0 ! a) = t"
    using built_outbounds_well_formed_facts[OF assms(1)] assms(3) by blast+
  have o: "obs_ok obs" "skeleton obs = skeleton obs0" using outb_steps_ok[OF assms(2) b(1)] by simp_all
  have a: "a < length obs" "tag_of (obs ! a) = t" using skeleton_facts[OF o(2)] b by simp_all
  show ?thesis
    using healthy_outbound_resolves[OF o(1) a(1) assms(4)] same_facts(1)[of _ obs a] a
    by (cases "resolve_leaf obs a") auto
qed

theorem running_outbound_resolves_witness:
  "\<exists>l obs'. resolve_leaf (fst sample_built) 4 = (l, obs') \<and> is_leaf (obs' ! l) \<and> healthy obs' l
    \<and> tag_of (obs' ! 4) = U ''g'' \<and> (\<forall>b<length (fst sample_built). healthy obs' b = healthy (fst sample_built) b)"
proof -
  have "healthy (fst sample_built) 4"
    by (simp add: healthy_def sample_built_def numeral_eq_Suc selected_child_def)
  then show ?thesis
    using running_outbound_resolves[of sample_outbound_env sample_outbounds "fst sample_built" "snd sample_built"
        "fst sample_built" "U ''g''" 4] sample_builds
    by (simp add: sample_built_def od_get_def)
qed

end
