(* ===== verification/Dns_Upstream.thy ===== *)
theory Dns_Upstream
  imports Frames IpAddr
begin

text \<open>
  \<open>core/dns/upstream.py\<close>: the choice of an upstream by its address, the pipeline that \<open>UdpUpstream\<close>
  and \<open>DotUpstream\<close> share (transaction-number allocation, the pending table, the length-prefixed
  reader), and one DNS-over-HTTPS transaction.  The pipeline is a state machine: what
  \<open>_send_recv\<close> does before it waits, what the reader does with one chunk, and what
  \<open>_send_recv\<close> does when its future has a value or its time is over are steps that interleave
  freely.  The tunnel and TLS below are parameters (chunks in, bytes out).
\<close>

section \<open>Transaction numbers\<close>

definition next_number :: "nat \<Rightarrow> nat" where
  "next_number n = (let m = (n + 1) mod 0x10000 in if m = 0 then 1 else m)"

fun allocate_loop :: "nat \<Rightarrow> nat \<Rightarrow> (nat, 'v) odict \<Rightarrow> (py_error + nat) \<times> nat" where
  "allocate_loop 0 n pending = (Inl OSErr, n)"
| "allocate_loop (Suc k) n pending =
     (if \<not> od_mem n pending then (Inr n, next_number n) else allocate_loop k (next_number n) pending)"

definition allocate_tx :: "nat \<Rightarrow> (nat, 'v) odict \<Rightarrow> (py_error + nat) \<times> nat" where
  "allocate_tx n pending = allocate_loop 0x10000 n pending"

section \<open>The pipeline\<close>

text \<open>
  Futures are numbered; \<open>p_results\<close> holds the futures that are done, a message or an exception.
  \<open>p_live\<close> is \<open>_ready is not None\<close> with the reader task running.
\<close>

record pipe =
  p_next :: nat
  p_pending :: "(nat, nat \<times> bytes) odict"
  p_results :: "(nat, py_error + bytes) odict"
  p_futures :: nat
  p_buf :: bytes
  p_live :: bool
  p_out :: bytes

definition new_pipe :: pipe where
  "new_pipe = \<lparr> p_next = 1, p_pending = [], p_results = [], p_futures = 0, p_buf = [], p_live = False, p_out = [] \<rparr>"

text \<open>
  \<open>_ensure_ready\<close>: a new tunnel, if the outbound has one (\<open>avail\<close>), starts with the packed address of
  the server and an empty reader buffer.
\<close>

definition pipe_open :: "bool \<Rightarrow> pystr \<Rightarrow> int \<Rightarrow> pipe \<Rightarrow> (py_error + unit) \<times> pipe" where
  "pipe_open avail host port p =
     (if p_live p then (Inr (), p)
      else if \<not> avail then (Inl OSErr, p)
      else case pack_address host port of
        Inl e \<Rightarrow> (Inl e, p)
      | Inr a \<Rightarrow> (Inr (), p\<lparr> p_live := True, p_buf := [], p_out := a \<rparr>))"

text \<open>
  \<open>_send_recv\<close> up to the wait: the number it took and the future it waits for; \<open>ok\<close> says whether the
  tunnel takes the message.
\<close>

definition pipe_send :: "bool \<Rightarrow> bytes \<Rightarrow> pipe \<Rightarrow> (py_error + nat \<times> nat) \<times> pipe" where
  "pipe_send ok data p =
     (case allocate_tx (p_next p) (p_pending p) of
        (Inl e, n) \<Rightarrow> (Inl e, p\<lparr> p_next := n \<rparr>)
      | (Inr tx, n) \<Rightarrow>
          (let rewritten = to_be 2 tx @ drop 2 data;
               f = p_futures p;
               p = p\<lparr> p_next := n, p_futures := f + 1, p_pending := od_set tx (f, take 2 data) (p_pending p) \<rparr>
           in case pack_be 2 (length rewritten) of
                Inl e \<Rightarrow> (Inl e, p\<lparr> p_pending := od_del tx (p_pending p) \<rparr>)
              | Inr l \<Rightarrow>
                  if ok then (Inr (tx, f), p\<lparr> p_out := p_out p @ l @ rewritten \<rparr>)
                  else (Inl OSErr, p\<lparr> p_pending := od_del tx (p_pending p) \<rparr>)))"

text \<open>\<open>fut.set_result\<close>/\<open>set_exception\<close> unless it is done.\<close>

definition set_future :: "nat \<Rightarrow> py_error + bytes \<Rightarrow> (nat, py_error + bytes) odict \<Rightarrow> (nat, py_error + bytes) odict" where
  "set_future f r rs = (if od_mem f rs then rs else od_set f r rs)"

definition deliver :: "bytes \<Rightarrow> pipe \<Rightarrow> pipe" where
  "deliver resp p =
     (if length resp < 2 then p
      else let tx = from_be (take 2 resp) in
        case od_get (p_pending p) tx of
          None \<Rightarrow> p
        | Some (f, original_id) \<Rightarrow>
            p\<lparr> p_pending := od_del tx (p_pending p), p_results := set_future f (Inr resp) (p_results p) \<rparr>)"

lemma deliver_buf [simp]: "p_buf (deliver r p) = p_buf p"
  by (simp add: deliver_def Let_def split: option.split prod.split)

text \<open>The inner loop of the reader over its buffer.\<close>

function drain :: "pipe \<Rightarrow> pipe" where
  "drain p =
     (if length (p_buf p) < 2 then p
      else let n = from_be (take 2 (p_buf p)) in
        if length (p_buf p) < 2 + n then p
        else drain (deliver (slice 2 (2 + n) (p_buf p)) (p\<lparr> p_buf := drop (2 + n) (p_buf p) \<rparr>)))"
  by pat_completeness auto

termination
  by (relation "measure (\<lambda>p. length (p_buf p))") auto

declare drain.simps [simp del]

definition pipe_chunk :: "bytes \<Rightarrow> pipe \<Rightarrow> pipe" where
  "pipe_chunk c p = drain (p\<lparr> p_buf := p_buf p @ c \<rparr>)"

text \<open>The reader's ends: on an exception every pending future fails; in both cases the tunnel is dropped.\<close>

definition reader_fail :: "pipe \<Rightarrow> pipe" where
  "reader_fail p = p\<lparr> p_results := foldl (\<lambda>rs (tx, f, i). set_future f (Inl OSErr) rs) (p_results p) (p_pending p),
     p_pending := [], p_live := False \<rparr>"

definition reader_eof :: "pipe \<Rightarrow> pipe" where
  "reader_eof p = p\<lparr> p_live := False \<rparr>"

text \<open>
  \<open>_send_recv\<close> after the wait, for the future \<open>f\<close> with the number \<open>tx\<close>: the answer carries the
  query's own identifier again.  Without a value the wait has timed out.
\<close>

definition pipe_finish :: "nat \<Rightarrow> bytes \<Rightarrow> nat \<Rightarrow> pipe \<Rightarrow> (py_error + bytes) \<times> pipe" where
  "pipe_finish tx original_id f p =
     (case od_get (p_results p) f of
        None \<Rightarrow> Inl TimeoutErr
      | Some (Inl e) \<Rightarrow> Inl e
      | Some (Inr resp) \<Rightarrow> Inr (original_id @ drop 2 resp),
      p\<lparr> p_pending := od_del tx (p_pending p) \<rparr>)"

text \<open>
  \<open>query\<close>: one retry after any error but a timeout.  An attempt is \<open>_ensure_ready\<close> and
  \<open>_send_recv\<close>; \<open>drop_tunnel\<close> is what a failed attempt does.
\<close>

definition drop_tunnel :: "pipe \<Rightarrow> pipe" where
  "drop_tunnel p = p\<lparr> p_live := False \<rparr>"

definition query_with :: "(bytes \<Rightarrow> 's \<Rightarrow> (py_error + bytes) \<times> 's) \<Rightarrow> ('s \<Rightarrow> 's) \<Rightarrow> bytes \<Rightarrow> 's \<Rightarrow> (py_error + bytes) \<times> 's" where
  "query_with attempt drop_it data s =
     (if length data < 2 then (Inl ValueError, s)
      else case attempt data s of
        (Inr r, s1) \<Rightarrow> (Inr r, s1)
      | (Inl TimeoutErr, s1) \<Rightarrow> (Inl TimeoutErr, s1)
      | (Inl e, s1) \<Rightarrow>
          (case attempt data (drop_it s1) of
             (Inr r, s2) \<Rightarrow> (Inr r, s2)
           | (Inl TimeoutErr, s2) \<Rightarrow> (Inl TimeoutErr, s2)
           | (Inl e', s2) \<Rightarrow> (Inl e', drop_it s2)))"

section \<open>DNS over TLS\<close>

text \<open>
  \<open>DotUpstream\<close> differs from \<open>UdpUpstream\<close> in the TLS handshake on the new tunnel
  (\<open>handshake\<close> is its outcome) and in a length check in the reader.
\<close>

definition dot_open :: "bool \<Rightarrow> py_error + unit \<Rightarrow> pystr \<Rightarrow> int \<Rightarrow> pipe \<Rightarrow> (py_error + unit) \<times> pipe" where
  "dot_open avail handshake host port p =
     (if p_live p then (Inr (), p)
      else if \<not> avail then (Inl OSErr, p)
      else case bindE (pack_address host port) (\<lambda>a. bindE handshake (\<lambda>_. Inr a)) of
        Inl e \<Rightarrow> (Inl e, p)
      | Inr a \<Rightarrow> (Inr (), p\<lparr> p_live := True, p_buf := [], p_out := [] \<rparr>))"

definition max_response_bytes :: nat where "max_response_bytes = 64 * 1024"

function dot_drain :: "pipe \<Rightarrow> (py_error + unit) \<times> pipe" where
  "dot_drain p =
     (if length (p_buf p) < 2 then (Inr (), p)
      else let n = from_be (take 2 (p_buf p)) in
        if max_response_bytes < n then (Inl OSErr, p)
        else if length (p_buf p) < 2 + n then (Inr (), p)
        else dot_drain (deliver (slice 2 (2 + n) (p_buf p)) (p\<lparr> p_buf := drop (2 + n) (p_buf p) \<rparr>)))"
  by pat_completeness auto
termination
  by (relation "measure (\<lambda>p. length (p_buf p))") auto

declare dot_drain.simps [simp del]

section \<open>DNS over HTTPS\<close>

text \<open>\<open>DohUpstream.query\<close> tries again after any failure, a timeout included.\<close>

definition doh_query_with :: "(bytes \<Rightarrow> 's \<Rightarrow> (py_error + bytes) \<times> 's) \<Rightarrow> ('s \<Rightarrow> 's) \<Rightarrow> bytes \<Rightarrow> 's \<Rightarrow> (py_error + bytes) \<times> 's" where
  "doh_query_with attempt drop_it data s =
     (case attempt data s of
        (Inr r, s1) \<Rightarrow> (Inr r, s1)
      | (Inl e, s1) \<Rightarrow>
          (case attempt data (drop_it s1) of
             (Inr r, s2) \<Rightarrow> (Inr r, s2)
           | (Inl e', s2) \<Rightarrow> (Inl e', drop_it s2)))"

definition doh_request :: "pystr \<Rightarrow> pystr \<Rightarrow> bytes \<Rightarrow> py_error + bytes" where
  "doh_request path host_header dns_msg =
     bindE (ascii_encode (U ''POST '' @ path @ U '' HTTP/1.1'' @ [13, 10]
        @ U ''Host: '' @ host_header @ [13, 10]
        @ U ''Accept: application/dns-message'' @ [13, 10]
        @ U ''Content-Type: application/dns-message'' @ [13, 10]
        @ U ''Content-Length: '' @ show_nat (length dns_msg) @ [13, 10]
        @ U ''Connection: keep-alive'' @ [13, 10] @ [13, 10]))
       (\<lambda>h. Inr (h @ dns_msg))"

text \<open>The received chunks, \<open>EOFError\<close> after the last: \<open>TlsOverTunnel.recv\<close> raises at the end.\<close>

fun doh_header :: "bytes \<Rightarrow> bytes list \<Rightarrow> py_error + (bytes \<times> bytes list)" where
  "doh_header buf chunks =
     (if contains [13, 10, 13, 10] buf then Inr (buf, chunks)
      else case chunks of
        [] \<Rightarrow> Inl EOFErr
      | c # cs \<Rightarrow> if 8192 < length (buf @ c) then Inl OSErr else doh_header (buf @ c) cs)"

fun doh_body :: "nat \<Rightarrow> bytes \<Rightarrow> bytes list \<Rightarrow> py_error + (bytes \<times> bytes list)" where
  "doh_body n body chunks =
     (if n \<le> length body then Inr (take n body, chunks)
      else case chunks of [] \<Rightarrow> Inl EOFErr | c # cs \<Rightarrow> doh_body n (body @ c) cs)"

text \<open>\<open>\r\nContent-Length:\s*(\d+)\r\n\<close>, ignoring case, searched from the left.\<close>

definition re_space :: "byte \<Rightarrow> bool" where
  "re_space b \<longleftrightarrow> b \<in> {32, 9, 10, 11, 12, 13}"

definition re_digit :: "byte \<Rightarrow> bool" where
  "re_digit b \<longleftrightarrow> 48 \<le> unat b \<and> unat b \<le> 57"

definition byte_lower :: "byte \<Rightarrow> byte" where
  "byte_lower b = (if 65 \<le> unat b \<and> unat b \<le> 90 then b + 32 else b)"

definition content_length_here :: "bytes \<Rightarrow> bytes option" where
  "content_length_here s =
     (let name = [13, 10] @ B ''content-length:'' in
      if map byte_lower (take (length name) s) = name then
        (let rest = dropWhile re_space (drop (length name) s);
             ds = takeWhile re_digit rest
         in if ds \<noteq> [] \<and> prefix [13, 10] (dropWhile re_digit rest) then Some ds else None)
      else None)"

fun search_content_length :: "bytes \<Rightarrow> bytes option" where
  "search_content_length [] = None"
| "search_content_length (b # s) =
     (case content_length_here (b # s) of Some ds \<Rightarrow> Some ds | None \<Rightarrow> search_content_length s)"

definition digits_nat :: "bytes \<Rightarrow> nat" where
  "digits_nat ds = foldl (\<lambda>a b. 10 * a + (unat b - 48)) 0 ds"

definition doh_response :: "bytes list \<Rightarrow> py_error + (bytes \<times> bytes list)" where
  "doh_response chunks =
     bindE (doh_header [] chunks) (\<lambda>(buf, cs).
       (case find_sub [13, 10, 13, 10] buf of
          None \<Rightarrow> Inl ValueError
        | Some header_end \<Rightarrow>
            (let header_block = take header_end buf;
                 status_line = ascii_replace (hd (split_sub [13, 10] header_block))
             in if \<not> contains (U '' 200 '') status_line then Inl OSErr
                else case search_content_length ([13, 10] @ header_block @ [13, 10]) of
                  None \<Rightarrow> Inl OSErr
                | Some ds \<Rightarrow>
                    (let body_len = digits_nat ds in
                     if max_response_bytes < body_len then Inl OSErr
                     else doh_body body_len (drop (header_end + 4) buf) cs))))"

section \<open>Addresses\<close>

definition split_host_port :: "pystr \<Rightarrow> int \<Rightarrow> py_error + (pystr \<times> int)" where
  "split_host_port s default_port =
     (if take 1 s = [91] then
        (case partition1 93 s of
           None \<Rightarrow> Inl ValueError
         | Some (before, rest) \<Rightarrow>
             if take 1 rest = [58] then
               (case py_int 10 (drop 1 rest) of None \<Rightarrow> Inl ValueError | Some n \<Rightarrow> Inr (drop 1 before, n))
             else Inr (drop 1 before, default_port))
      else
        (case rpartition1 58 s of
           None \<Rightarrow> Inr (s, default_port)
         | Some (host, port) \<Rightarrow> (case py_int 10 port of None \<Rightarrow> Inl ValueError | Some n \<Rightarrow> Inr (host, n))))"

text \<open>
  The parts of \<open>urllib.parse.urlparse\<close> the source reads, for an address that starts with
  \<open>https://\<close>; \<open>netloc_ok\<close> stands for its validation of the network location (\<open>ValueError\<close>).
\<close>

record url_parts =
  u_hostname :: "pystr option"
  u_port :: "py_error + int option"
  u_path :: pystr

definition url_remove :: "nat \<Rightarrow> bool" where
  "url_remove c \<longleftrightarrow> c \<in> {9, 10, 13}"

definition cut_at :: "nat \<Rightarrow> pystr \<Rightarrow> pystr" where
  "cut_at c s = takeWhile (\<lambda>x. x \<noteq> c) s"

definition after :: "nat \<Rightarrow> pystr \<Rightarrow> pystr" where
  "after c s = (case partition1 c s of None \<Rightarrow> [] | Some (a, b) \<Rightarrow> b)"

definition strip_params :: "pystr \<Rightarrow> pystr" where
  "strip_params path = (case rpartition1 47 path of
      None \<Rightarrow> cut_at 59 path
    | Some (a, b) \<Rightarrow> a @ [47] @ cut_at 59 b)"

definition parse_port :: "pystr \<Rightarrow> py_error + int option" where
  "parse_port p = (if p = [] then Inr None
     else if list_all is_digit p then
       (case py_int 10 p of Some n \<Rightarrow> if 0 \<le> n \<and> n \<le> 65535 then Inr (Some n) else Inl ValueError | None \<Rightarrow> Inl ValueError)
     else Inl ValueError)"

text \<open>The part of a URL after \<open>scheme://\<close>.\<close>

definition url_rest :: "(pystr \<Rightarrow> bool) \<Rightarrow> pystr \<Rightarrow> py_error + url_parts" where
  "url_rest netloc_ok s =
     (let netloc = takeWhile (\<lambda>c. c \<notin> {47, 63, 35}) s;
          path = cut_at 63 (cut_at 35 (drop (length netloc) s));
          hostinfo = (case rpartition1 64 netloc of None \<Rightarrow> netloc | Some (a, b) \<Rightarrow> b);
          hp = (if 91 \<in> set hostinfo then (cut_at 93 (after 91 hostinfo), after 58 (after 93 (after 91 hostinfo)))
                else (cut_at 58 hostinfo, after 58 hostinfo));
          host = py_lower (cut_at 37 (fst hp)) @ drop (length (cut_at 37 (fst hp))) (fst hp)
      in if (91 \<in> set netloc) \<noteq> (93 \<in> set netloc) \<or> \<not> netloc_ok netloc then Inl ValueError
         else Inr \<lparr> u_hostname = (if fst hp = [] then None else Some host),
                    u_port = parse_port (snd hp), u_path = strip_params path \<rparr>)"

definition url_parse :: "(pystr \<Rightarrow> bool) \<Rightarrow> pystr \<Rightarrow> py_error + url_parts" where
  "url_parse netloc_ok addr = url_rest netloc_ok (drop 8 (filter (\<lambda>c. \<not> url_remove c) addr))"

datatype upstream =
    UdpUp pystr int
  | DotUp pystr int
  | DohUp pystr pystr int

definition doh_of_url :: "url_parts \<Rightarrow> py_error + upstream" where
  "doh_of_url u = (case u_hostname u of
      None \<Rightarrow> Inl ValueError
    | Some h \<Rightarrow>
        if \<not> is_ip_literal h then Inl ValueError
        else bindE (u_port u) (\<lambda>p.
          Inr (DohUp h (if u_path u = [] then U ''/dns-query'' else u_path u)
                (case p of Some n \<Rightarrow> if n = 0 then 443 else n | None \<Rightarrow> 443))))"

definition make_upstream :: "(pystr \<Rightarrow> bool) \<Rightarrow> pystr \<Rightarrow> py_error + upstream" where
  "make_upstream netloc_ok address =
     (let addr = py_strip address; low = py_lower addr in
      if addr = [] then Inl ValueError
      else if prefix (U ''https://'') low then
        bindE (url_parse netloc_ok addr) doh_of_url
      else if prefix (U ''tls://'') low then
        bindE (split_host_port (drop 6 addr) 853) (\<lambda>(h, p). Inr (DotUp h p))
      else if prefix (U ''dns://'') low then
        bindE (split_host_port (drop 6 addr) 53) (\<lambda>(h, p). Inr (UdpUp h p))
      else bindE (split_host_port addr 53) (\<lambda>(h, p). Inr (UdpUp h p)))"

section \<open>Number allocation\<close>

definition number_ok :: "nat \<Rightarrow> bool" where
  "number_ok n \<longleftrightarrow> 1 \<le> n \<and> n \<le> 65535"

lemma next_number_ok: "number_ok n \<Longrightarrow> number_ok (next_number n)"
  by (auto simp: number_ok_def next_number_def Let_def)

lemma next_number_eq: "number_ok n \<Longrightarrow> next_number n = n mod 65535 + 1"
  by (cases "n = 65535") (auto simp: number_ok_def next_number_def Let_def)

lemma next_number_funpow: "number_ok n \<Longrightarrow> (next_number ^^ j) n = (n - 1 + j) mod 65535 + 1"
proof (induction j)
  case 0
  then show ?case by (auto simp: number_ok_def)
next
  case (Suc j)
  have "number_ok ((n - 1 + j) mod 65535 + 1)"
    using mod_less_divisor[of 65535 "n - 1 + j"] by (auto simp: number_ok_def simp del: mod_less_divisor)
  then have "next_number ((n - 1 + j) mod 65535 + 1) = ((n - 1 + j) mod 65535 + 1) mod 65535 + 1" by (rule next_number_eq)
  also have "((n - 1 + j) mod 65535 + 1) mod 65535 = (n - 1 + Suc j) mod 65535" by (simp add: mod_simps)
  finally show ?case using Suc by simp
qed

lemma numbers_covered:
  assumes "number_ok n" "number_ok t"
  shows "\<exists>j<0x10000. (next_number ^^ j) n = t"
proof -
  define j where "j = (t + 65535 - n) mod 65535"
  have "(n - 1 + j) mod 65535 = (n - 1 + (t + 65535 - n)) mod 65535" by (simp add: j_def mod_simps)
  also have "n - 1 + (t + 65535 - n) = (t - 1) + 65535" using assms by (auto simp: number_ok_def)
  also have "((t - 1) + 65535) mod 65535 = t - 1"
    unfolding mod_add_self2 using assms(2) by (auto simp: number_ok_def)
  finally have "(next_number ^^ j) n = t" using next_number_funpow[OF assms(1), of j] assms(2) by (auto simp: number_ok_def)
  moreover have "j < 0x10000" using mod_less_divisor[of 65535 "t + 65535 - n"] by (simp add: j_def)
  ultimately show ?thesis by blast
qed

lemma allocate_loop_ok: "number_ok n \<Longrightarrow> number_ok (snd (allocate_loop k n pending))
    \<and> (\<forall>tx. fst (allocate_loop k n pending) = Inr tx \<longrightarrow> number_ok tx \<and> \<not> od_mem tx pending)
    \<and> (\<forall>e. fst (allocate_loop k n pending) = Inl e \<longrightarrow> e = OSErr \<and> (\<forall>j<k. od_mem ((next_number ^^ j) n) pending))"
proof (induction k arbitrary: n)
  case 0
  then show ?case by simp
next
  case (Suc k)
  have "od_mem n pending \<Longrightarrow> \<forall>j<k. od_mem ((next_number ^^ j) (next_number n)) pending
      \<Longrightarrow> \<forall>j<Suc k. od_mem ((next_number ^^ j) n) pending"
    by (metis (no_types, lifting) comp_apply funpow_0 funpow_Suc_right less_Suc_eq_0_disj)
  then show ?case using Suc next_number_ok by auto
qed

text \<open>A transaction number handed out for a DNS query is never zero, never above 65535 and never one that
  another query in flight holds, and the next one to try is in range again; the allocation fails only when
  all 65535 numbers are in flight.\<close>
theorem transaction_number_fresh:
  assumes "number_ok n"
  shows "case allocate_tx n pending of
      (Inr tx, n') \<Rightarrow> number_ok tx \<and> \<not> od_mem tx pending \<and> number_ok n'
    | (Inl e, n') \<Rightarrow> (\<forall>t. number_ok t \<longrightarrow> od_mem t pending) \<and> number_ok n'"
proof -
  have "fst (allocate_tx n pending) = Inl e \<Longrightarrow> number_ok t \<Longrightarrow> od_mem t pending" for e t
    using allocate_loop_ok[OF assms, of "0x10000" pending] numbers_covered[OF assms, of t]
    unfolding allocate_tx_def by metis
  then show ?thesis using allocate_loop_ok[OF assms, of "0x10000" pending]
    unfolding allocate_tx_def by (auto split: prod.split sum.split)
qed

theorem transaction_number_fresh_witness:
  "case allocate_tx 65535 [(65535, ()), (1, ())] of
      (Inr tx, n') \<Rightarrow> number_ok tx \<and> \<not> od_mem tx [(65535, ()), (1, ())] \<and> number_ok n'
    | (Inl e, n') \<Rightarrow> (\<forall>t. number_ok t \<longrightarrow> od_mem t [(65535, ()), (1, ())]) \<and> number_ok n'"
  by (rule transaction_number_fresh) (simp add: number_ok_def)

section \<open>The reader\<close>

definition with_buf :: "bytes \<Rightarrow> pipe \<Rightarrow> pipe" where
  "with_buf b p = p\<lparr> p_buf := b \<rparr>"

lemma with_buf_simps [simp]: "p_buf (with_buf b p) = b" "with_buf b (with_buf c p) = with_buf b p"
  "with_buf (p_buf p) p = p"
  by (simp_all add: with_buf_def)

lemma deliver_with_buf: "deliver r (with_buf b p) = with_buf b (deliver r p)"
  by (auto simp: deliver_def with_buf_def Let_def split: option.split prod.split)

lemma drain_short: "length (p_buf p) < 2 \<Longrightarrow> drain p = p"
  by (simp add: drain.simps)

lemma drain_incomplete: "length (p_buf p) < 2 + from_be (take 2 (p_buf p)) \<Longrightarrow> drain p = p"
  by (simp add: drain.simps[of p] Let_def)

lemma drain_complete:
  assumes "length hdr = 2" "from_be hdr = length body"
  shows "drain (with_buf (hdr @ body @ rest) p) = drain (with_buf rest (deliver body p))"
  using assms by (subst drain.simps) (simp add: slice_def Let_def deliver_with_buf[symmetric], simp add: with_buf_def)

lemma drain_more: "drain (with_buf (p_buf (drain (with_buf b p)) @ c) (drain (with_buf b p))) = drain (with_buf (b @ c) p)"
proof (induction "length b" arbitrary: b p rule: less_induct)
  case less
  show ?case
  proof (cases "length b < 2 + from_be (take 2 b)")
    case True
    then show ?thesis by (simp add: drain_incomplete)
  next
    case False
    obtain hdr body rest where b: "b = hdr @ body @ rest" "length hdr = 2" "from_be hdr = length body"
      using frame_split[OF False] by blast
    have e: "drain (with_buf b p) = drain (with_buf rest (deliver body p))"
      unfolding b(1) by (rule drain_complete[OF b(2,3)])
    have "drain (with_buf (b @ c) p) = drain (with_buf (rest @ c) (deliver body p))"
      unfolding b(1) append_assoc by (rule drain_complete[OF b(2,3)])
    then show ?thesis unfolding e using less[of rest "deliver body p"] b(1,2) by simp
  qed
qed

lemma pipe_chunk_drain: "pipe_chunk c p = drain (with_buf (p_buf p @ c) p)"
  by (simp add: pipe_chunk_def with_buf_def)

lemma chunks_drain: "foldl (\<lambda>p c. pipe_chunk c p) (drain p) cs = drain (with_buf (p_buf p @ concat cs) p)"
proof (induction cs arbitrary: p)
  case Nil
  then show ?case by simp
next
  case (Cons c cs)
  have "pipe_chunk c (drain p) = drain (with_buf (p_buf p @ c) p)"
    using drain_more[of "p_buf p" p c] by (simp add: pipe_chunk_drain)
  then show ?case using Cons[of "with_buf (p_buf p @ c) p"] by simp
qed

lemma drain_messages:
  "\<forall>m\<in>set ms. length m < 2 ^ 16 \<Longrightarrow>
    drain (with_buf (concat (map (\<lambda>m. to_be 2 (length m) @ m) ms) @ rest) p)
     = drain (with_buf rest (foldl (\<lambda>p m. deliver m p) p ms))"
  by (induction ms arbitrary: p) (simp_all add: drain_complete)

text \<open>The length check of the DNS-over-TLS reader never fires: a two-byte length is at most 65535.\<close>

lemma dot_drain_eq: "dot_drain p = (Inr (), drain p)"
proof (induction p rule: drain.induct)
  case (1 p)
  let ?n = "from_be (take 2 (p_buf p))"
  have "?n < 256 ^ length (take 2 (p_buf p))" by (rule from_be_less)
  also have "\<dots> \<le> 256 ^ 2" by (rule power_increasing) simp_all
  finally have "\<not> max_response_bytes < ?n" by (simp add: max_response_bytes_def)
  then show ?case using 1[OF _ refl] by (subst dot_drain.simps, subst drain.simps) (simp add: Let_def)
qed

text \<open>The reader of a DNS pipeline delivers exactly the messages the server framed, each one once and in
  order, and keeps what follows the last complete one, into whatever chunks the tunnel cuts the stream.\<close>
theorem dns_reader_any_chunking:
  assumes "concat cs = concat (map (\<lambda>m. to_be 2 (length m) @ m) ms) @ rest"
    and "\<forall>m\<in>set ms. length m < 2 ^ 16" "length rest < 2 \<or> length rest < 2 + from_be (take 2 rest)"
    and "p_buf p = []"
  shows "foldl (\<lambda>p c. pipe_chunk c p) p cs = (foldl (\<lambda>p m. deliver m p) p ms)\<lparr> p_buf := rest \<rparr>"
proof -
  have "drain p = p" using assms(4) by (simp add: drain_short)
  then have "foldl (\<lambda>p c. pipe_chunk c p) p cs = drain (with_buf (concat cs) p)"
    using chunks_drain[of p cs] assms(4) by simp
  also have "\<dots> = drain (with_buf rest (foldl (\<lambda>p m. deliver m p) p ms))"
    unfolding assms(1) by (rule drain_messages[OF assms(2)])
  also have "\<dots> = with_buf rest (foldl (\<lambda>p m. deliver m p) p ms)"
    using assms(3) by (auto simp: drain_short drain_incomplete)
  finally show ?thesis by (simp add: with_buf_def)
qed

theorem dns_reader_any_chunking_witness:
  "foldl (\<lambda>p c. pipe_chunk c p) new_pipe [[0], [3, 0, 1], [7, 0]]
     = (foldl (\<lambda>p m. deliver m p) new_pipe [[0, 1, 7]])\<lparr> p_buf := [0] \<rparr>"
  by (rule dns_reader_any_chunking) (simp_all add: eval_be new_pipe_def)

section \<open>Queries in flight\<close>

text \<open>
  The states a pipeline can reach, with the list of the queries it has sent: future, number, message.
  Every step of a query, of the reader and of the tunnel may come at any time.
\<close>

inductive pipe_run :: "pipe \<Rightarrow> (nat \<times> nat \<times> bytes) list \<Rightarrow> bool" where
  Start: "pipe_run new_pipe []"
| Open: "pipe_run p w \<Longrightarrow> pipe_run (snd (pipe_open avail host port p)) w"
| Send: "pipe_run p w \<Longrightarrow> 2 \<le> length data \<Longrightarrow> pipe_send ok data p = (Inr (tx, f), p') \<Longrightarrow> pipe_run p' ((f, tx, data) # w)"
| Unsent: "pipe_run p w \<Longrightarrow> pipe_send ok data p = (Inl e, p') \<Longrightarrow> pipe_run p' w"
| Chunk: "pipe_run p w \<Longrightarrow> pipe_run (pipe_chunk c p) w"
| Broken: "pipe_run p w \<Longrightarrow> pipe_run (reader_fail p) w"
| Eof: "pipe_run p w \<Longrightarrow> pipe_run (reader_eof p) w"
| Finish: "pipe_run p w \<Longrightarrow> pipe_run (snd (pipe_finish tx i f p)) w"
| Drop: "pipe_run p w \<Longrightarrow> pipe_run (drop_tunnel p) w"

definition pipe_ok :: "pipe \<Rightarrow> (nat \<times> nat \<times> bytes) list \<Rightarrow> bool" where
  "pipe_ok p w \<longleftrightarrow> number_ok (p_next p)
     \<and> distinct (map fst w) \<and> (\<forall>x\<in>set w. fst x < p_futures p \<and> number_ok (fst (snd x)) \<and> 2 \<le> length (snd (snd x)))
     \<and> (\<forall>tx f i. od_get (p_pending p) tx = Some (f, i) \<longrightarrow> (\<exists>data. (f, tx, data) \<in> set w \<and> i = take 2 data))
     \<and> (\<forall>f r. od_get (p_results p) f = Some (Inr r) \<longrightarrow>
          (\<exists>tx data. (f, tx, data) \<in> set w \<and> 2 \<le> length r \<and> from_be (take 2 r) = tx))"

lemma pipe_okI_sub:
  assumes "pipe_ok p w" "p_next q = p_next p" "p_futures q = p_futures p" "p_results q = p_results p"
    and "\<And>tx x. od_get (p_pending q) tx = Some x \<Longrightarrow> od_get (p_pending p) tx = Some x"
  shows "pipe_ok q w"
  using assms unfolding pipe_ok_def by simp

lemma deliver_ok: "pipe_ok p w \<Longrightarrow> pipe_ok (deliver r p) w"
proof (cases "length r < 2 \<or> od_get (p_pending p) (from_be (take 2 r)) = None")
  case True
  then show "pipe_ok p w \<Longrightarrow> ?thesis" by (auto simp: deliver_def Let_def)
next
  case False
  assume ok: "pipe_ok p w"
  from False obtain f i where g: "od_get (p_pending p) (from_be (take 2 r)) = Some (f, i)" "2 \<le> length r" by auto
  let ?q = "p\<lparr> p_pending := od_del (from_be (take 2 r)) (p_pending p) \<rparr>"
  have q: "pipe_ok ?q w" by (rule pipe_okI_sub[OF ok]) (simp_all split: if_splits)
  obtain data where "(f, from_be (take 2 r), data) \<in> set w" using ok g(1) unfolding pipe_ok_def by blast
  then have "\<exists>tx data. (f, tx, data) \<in> set w \<and> 2 \<le> length r \<and> from_be (take 2 r) = tx" using g(2) by blast
  then have "pipe_ok (?q\<lparr> p_results := set_future f (Inr r) (p_results p) \<rparr>) w"
    using q unfolding pipe_ok_def by (auto simp: set_future_def)
  then show ?thesis using g by (simp add: deliver_def Let_def)
qed

lemma with_buf_ok: "pipe_ok (with_buf b p) w = pipe_ok p w"
  by (simp add: pipe_ok_def with_buf_def)

lemma drain_ok: "pipe_ok p w \<Longrightarrow> pipe_ok (drain p) w"
proof (induction p rule: drain.induct)
  case (1 p)
  show ?case
  proof (cases "length (p_buf p) < 2 \<or> length (p_buf p) < 2 + from_be (take 2 (p_buf p))")
    case True
    then show ?thesis using 1(2) drain_short drain_incomplete by auto
  next
    case False
    let ?n = "from_be (take 2 (p_buf p))"
    let ?q = "p\<lparr> p_buf := drop (2 + ?n) (p_buf p) \<rparr>"
    have "pipe_ok ?q w" using 1(2) by (simp add: pipe_ok_def)
    then have "pipe_ok (drain (deliver (slice 2 (2 + ?n) (p_buf p)) ?q)) w"
      using 1(1)[OF _ refl] False deliver_ok by simp
    then show ?thesis using False by (subst drain.simps) (simp add: Let_def)
  qed
qed

lemma fail_results:
  "od_get (foldl (\<lambda>rs (tx, f, i). set_future f (Inl e) rs) rs ps) k = Some (Inr r) \<Longrightarrow> od_get rs k = Some (Inr r)"
  by (induction ps arbitrary: rs) (force simp: set_future_def split: if_splits)+

lemma pipe_send_cases:
  assumes "pipe_send ok data p = (r, p')"
  obtains (full) e where "fst (allocate_tx (p_next p) (p_pending p)) = Inl e" "r = Inl e"
      "p' = p\<lparr> p_next := snd (allocate_tx (p_next p) (p_pending p)) \<rparr>"
  | (unsent) tx e where "fst (allocate_tx (p_next p) (p_pending p)) = Inr tx" "r = Inl e"
      "p' = p\<lparr> p_next := snd (allocate_tx (p_next p) (p_pending p)), p_futures := p_futures p + 1,
        p_pending := od_del tx (od_set tx (p_futures p, take 2 data) (p_pending p)) \<rparr>"
  | (sent) tx out where "fst (allocate_tx (p_next p) (p_pending p)) = Inr tx" "r = Inr (tx, p_futures p)"
      "p' = p\<lparr> p_next := snd (allocate_tx (p_next p) (p_pending p)), p_futures := p_futures p + 1,
        p_pending := od_set tx (p_futures p, take 2 data) (p_pending p), p_out := out \<rparr>"
proof (cases "allocate_tx (p_next p) (p_pending p)")
  case (Pair a n)
  show thesis
  proof (cases a)
    case (Inl e)
    then show thesis using full Pair assms by (simp add: pipe_send_def)
  next
    case (Inr tx)
    show thesis
    proof (cases r)
      case Inl: (Inl e)
      then show thesis using unsent[of tx e] Pair Inr assms
        by (auto simp: pipe_send_def Let_def split: sum.splits if_splits)
    next
      case Inr': (Inr x)
      then show thesis using sent[of tx "p_out p'"] Pair Inr assms
        by (auto simp: pipe_send_def Let_def split: sum.splits if_splits)
    qed
  qed
qed

lemma allocate_number: "number_ok n \<Longrightarrow> number_ok (snd (allocate_tx n pending))
    \<and> (\<forall>tx. fst (allocate_tx n pending) = Inr tx \<longrightarrow> number_ok tx \<and> \<not> od_mem tx pending)"
  using allocate_loop_ok[of n "0x10000" pending] by (simp add: allocate_tx_def)

lemma pipe_run_ok: "pipe_run p w \<Longrightarrow> pipe_ok p w"
proof (induction rule: pipe_run.induct)
  case Start
  then show ?case by (simp add: pipe_ok_def new_pipe_def number_ok_def)
next
  case (Open p w avail host port)
  then show ?case by (auto simp: pipe_ok_def pipe_open_def split: sum.split)
next
  case (Send p w data ok tx f p')
  have n: "number_ok (p_next p)" using Send.IH by (simp add: pipe_ok_def)
  note a = allocate_number[OF n, of "p_pending p"]
  from Send.hyps(3) show ?case
  proof (cases rule: pipe_send_cases)
    case (sent tx' out)
    have x: "tx' = tx" "f = p_futures p" "number_ok tx" using sent(1,2) a by auto
    have w: "f \<notin> fst ` set w" using Send.IH x(2) by (auto simp: pipe_ok_def)
    let ?w = "(f, tx, data) # w"
    have "distinct (map fst ?w)" "\<forall>y\<in>set ?w. fst y < p_futures p' \<and> number_ok (fst (snd y)) \<and> 2 \<le> length (snd (snd y))"
      using Send.IH Send.hyps(2) w x by (auto simp: pipe_ok_def sent(3) less_Suc_eq)
    moreover have "\<exists>data. (g, k, data) \<in> set ?w \<and> i = take 2 data" if "od_get (p_pending p') k = Some (g, i)" for k g i
    proof (cases "k = tx")
      case True
      then show ?thesis using that x by (auto simp: sent(3))
    next
      case False
      then have "od_get (p_pending p) k = Some (g, i)" using that x by (simp add: sent(3))
      then obtain data' where "(g, k, data') \<in> set w" "i = take 2 data'" using Send.IH unfolding pipe_ok_def by blast
      then show ?thesis by auto
    qed
    moreover have "\<exists>k data. (g, k, data) \<in> set ?w \<and> 2 \<le> length r \<and> from_be (take 2 r) = k"
      if "od_get (p_results p') g = Some (Inr r)" for g r
    proof -
      have "od_get (p_results p) g = Some (Inr r)" using that by (simp add: sent(3))
      then obtain k data' where "(g, k, data') \<in> set w" "2 \<le> length r" "from_be (take 2 r) = k"
        using Send.IH unfolding pipe_ok_def by blast
      then show ?thesis by auto
    qed
    moreover have "number_ok (p_next p')" using a by (simp add: sent(3))
    ultimately show ?thesis unfolding pipe_ok_def by blast
  qed simp_all
next
  case (Unsent p w ok data e p')
  have n: "number_ok (p_next p)" using Unsent.IH by (simp add: pipe_ok_def)
  note a = allocate_number[OF n, of "p_pending p"]
  from Unsent.hyps(2) show ?case
  proof (cases rule: pipe_send_cases)
    case (full e')
    then show ?thesis using Unsent.IH a by (simp add: pipe_ok_def)
  next
    case (unsent tx e')
    show ?thesis using Unsent.IH a unfolding pipe_ok_def unsent(3) by (auto simp: less_Suc_eq split: if_splits)
  qed simp
next
  case (Chunk p w c)
  then show ?case using drain_ok with_buf_ok by (simp add: pipe_chunk_drain)
next
  case (Broken p w)
  then show ?case unfolding pipe_ok_def reader_fail_def by (auto dest: fail_results)
next
  case (Eof p w)
  then show ?case by (simp add: pipe_ok_def reader_eof_def)
next
  case (Finish p w tx i f)
  then show ?case by (intro pipe_okI_sub[OF Finish.IH]) (simp_all add: pipe_finish_def split: if_splits)
next
  case (Drop p w)
  then show ?case by (simp add: pipe_ok_def drop_tunnel_def)
qed


lemma allocate_free: "\<not> od_mem n pending \<Longrightarrow> allocate_tx n pending = (Inr n, next_number n)"
proof -
  have "(0x10000 :: nat) = Suc 0xFFFF" by simp
  then show "\<not> od_mem n pending \<Longrightarrow> ?thesis" unfolding allocate_tx_def by (simp only: allocate_loop.simps if_True not_False_eq_True)
qed

definition sample_pipe :: pipe where
  "sample_pipe = \<lparr> p_next = 2, p_pending = [], p_results = [(0, Inr [0, 1, 9])], p_futures = 1, p_buf = [], p_live = False,
     p_out = [0, 3, 0, 1, 5] \<rparr>"

lemma sample_pipe_runs: "pipe_run sample_pipe [(0, 1, [7, 8, 5])]"
proof -
  let ?p = "snd (pipe_send True [7, 8, 5] new_pipe)"
  have s: "pipe_send True [7, 8, 5] new_pipe = (Inr (1, 0), ?p)"
    by (simp add: pipe_send_def new_pipe_def allocate_free Let_def eval_be)
  have "pipe_run (pipe_chunk [0, 3, 0, 1, 9] ?p) [(0, 1, [7, 8, 5])]"
    using pipe_run.Chunk[OF pipe_run.Send[OF pipe_run.Start _ s]] by simp
  moreover have "pipe_chunk [0, 3, 0, 1, 9] ?p = sample_pipe"
    by (simp add: pipe_send_def new_pipe_def allocate_free Let_def eval_be pipe_chunk_def drain.simps deliver_def
        from_be_def od_get_def od_del_def set_future_def next_number_def sample_pipe_def)
  ultimately show ?thesis by simp
qed


section \<open>Choosing an upstream\<close>

text \<open>An accepted DNS-over-HTTPS address always has an IP literal as its host (never a name that would need the
  resolver being set up), a path, and a port from 1 to 65535.\<close>
theorem doh_host_is_literal:
  assumes "make_upstream netloc_ok address = Inr (DohUp host path port)"
  shows "is_ip_literal host \<and> path \<noteq> [] \<and> 1 \<le> port \<and> port \<le> 65535"
proof -
  obtain u where d: "doh_of_url u = Inr (DohUp host path port)" and "url_parse netloc_ok (py_strip address) = Inr u"
    using assms unfolding make_upstream_def Let_def by (auto simp: bindE_Inr_iff split: if_splits)
  then obtain x where x: "u_port u = parse_port x" by (auto simp: url_parse_def url_rest_def Let_def split: if_splits)
  obtain p where u: "is_ip_literal host" "u_port u = Inr p"
      "path = (if u_path u = [] then U ''/dns-query'' else u_path u)"
      "port = (case p of Some n \<Rightarrow> if n = 0 then 443 else n | None \<Rightarrow> 443)"
    using d by (cases "u_hostname u") (auto simp: doh_of_url_def bindE_Inr_iff split: if_splits)
  have "parse_port x = Inr (Some n) \<Longrightarrow> 0 \<le> n \<and> n \<le> 65535" for x n
    by (auto simp: parse_port_def split: if_splits option.splits)
  then have "case p of Some n \<Rightarrow> 0 \<le> n \<and> n \<le> 65535 | None \<Rightarrow> True"
    using u(2) x by (auto split: option.split)
  then show ?thesis using u(1,3,4) by (auto split: option.splits)
qed

lemmas digit_eval = parse_digits_def digit_val_def base_digit_def py_int_def
lemmas strip_eval = py_strip_def is_space_def strip_with_def rdropWhile_def

theorem doh_host_is_literal_witness:
  "is_ip_literal (U ''1.1.1.1'') \<and> U ''/dns-query'' \<noteq> [] \<and> (1::int) \<le> 443 \<and> (443::int) \<le> 65535"
proof (rule doh_host_is_literal)
  have "is_ip_literal (U ''1.1.1.1'')"
    by (simp add: is_ip_literal_def ip_address_def parse_v4_def U_def octet4_def is_digit_def digit_eval)
  moreover have "url_parse (\<lambda>_. True) (U ''https://1.1.1.1/dns-query'')
      = Inr \<lparr> u_hostname = Some (U ''1.1.1.1''), u_port = Inr None, u_path = U ''/dns-query'' \<rparr>" by code_simp
  moreover have "py_strip (U ''https://1.1.1.1/dns-query'') = U ''https://1.1.1.1/dns-query''"
    by (simp add: U_def strip_eval)
  moreover have "prefix (U ''https://'') (py_lower (U ''https://1.1.1.1/dns-query''))" by code_simp
  ultimately show "make_upstream (\<lambda>_. True) (U ''https://1.1.1.1/dns-query'') = Inr (DohUp (U ''1.1.1.1'') (U ''/dns-query'') 443)"
    by (simp add: make_upstream_def doh_of_url_def Let_def)
qed

text \<open>A bare IPv6 address given as an upstream is cut at its last colon.\<close>

lemma bare_v6_upstream_cut:
  "make_upstream netloc_ok (U ''2400:3200::1'') = Inr (UdpUp (U ''2400:3200:'') 1)"
proof -
  have "rpartition1 58 (U ''2400:3200::1'') = Some (U ''2400:3200:'', U ''1'')" by code_simp
  moreover have "py_int 10 (U ''1'') = Some 1" by (simp add: U_def digit_eval strip_eval)
  moreover have "take 1 (U ''2400:3200::1'') \<noteq> [91]" by code_simp
  moreover have "py_strip (U ''2400:3200::1'') = U ''2400:3200::1''" by (simp add: U_def strip_eval)
  moreover have "py_lower (U ''2400:3200::1'') = U ''2400:3200::1''" by code_simp
  moreover have "\<not> prefix (U ''https://'') (U ''2400:3200::1'')" "\<not> prefix (U ''tls://'') (U ''2400:3200::1'')"
    "\<not> prefix (U ''dns://'') (U ''2400:3200::1'')" by code_simp+
  ultimately show ?thesis by (simp add: make_upstream_def split_host_port_def Let_def)
qed

text \<open>A first chunk of more than 8192 bytes fails the request, header and body complete or not.\<close>

lemma doh_large_first_chunk: "8192 < length c \<Longrightarrow> doh_response (c # cs) = Inl OSErr"
  by (simp add: doh_response_def contains_def)

end
