(* ===== verification/Dns_Forwarder.thy ===== *)
theory Dns_Forwarder
  imports Decision_Cache Outbound_Build Dns_Upstream Rules
begin

unbundle bit_operations_syntax

text \<open>
  \<open>core/dns_forwarder.py\<close>: the DNS message tools, the parsing of the plain resolver's address, and
  \<open>DNSForwarder\<close>.  \<open>_handle\<close> is cut at its one wait: \<open>handle_start\<close> runs up to the point where an
  upstream is asked and says what is sent where, \<open>handle_finish\<close> takes the upstream's answer (or its
  exception) and gives the reply; between the two other queries run.  The router, the caches, the outbounds
  and \<open>make_upstream\<close> are those of the other theories.
\<close>

section \<open>Message tools\<close>

function extract_labels :: "bytes \<Rightarrow> nat \<Rightarrow> pystr list" where
  "extract_labels d off =
     (if off < length d then
        (let n = d ! off in
         if n = 0 then []
         else if n AND 0xC0 \<noteq> 0 then []
         else ascii_replace (slice (off + 1) (off + 1 + unat n) d) # extract_labels d (off + 1 + unat n))
      else [])"
  by pat_completeness auto
termination
  by (relation "measure (\<lambda>(d, off). length d - off)") auto

definition extract_domain :: "bytes \<Rightarrow> pystr option" where
  "extract_domain d = (let labels = extract_labels d 12 in
     if labels = [] then None else Some (py_lower (join_with [46] labels)))"

function question_name :: "bytes \<Rightarrow> nat \<Rightarrow> nat" where
  "question_name d pos =
     (if pos < length d then
        (let n = d ! pos in
         if n = 0 then pos + 1
         else if n AND 0xC0 \<noteq> 0 then pos + 2
         else question_name d (pos + (1 + unat n)))
      else pos)"
  by pat_completeness auto
termination
  by (relation "measure (\<lambda>(d, pos). length d - pos)") auto

declare extract_labels.simps [simp del] question_name.simps [simp del]

fun question_loop :: "bytes \<Rightarrow> nat \<Rightarrow> nat \<Rightarrow> nat" where
  "question_loop d 0 pos = pos"
| "question_loop d (Suc k) pos =
     (let pos' = question_name d pos + 4 in
      if length d < pos' then length d else question_loop d k pos')"

definition question_end :: "bytes \<Rightarrow> nat" where
  "question_end d = question_loop d (from_be (slice 4 6 d)) 12"

definition nxdomain :: "bytes \<Rightarrow> bytes" where
  "nxdomain query =
     (if length query < 12 then query
      else let e = question_end query;
               h = (take 12 query)[2 := query ! 2 OR 0x80, 3 := (query ! 3 AND 0xF0) OR 0x03,
                     6 := 0, 7 := 0, 8 := 0, 9 := 0, 10 := 0, 11 := 0]
           in h @ slice 12 e query)"

section \<open>The plain resolver's address\<close>

fun strip_scheme :: "pystr list \<Rightarrow> pystr \<Rightarrow> pystr" where
  "strip_scheme [] s = s"
| "strip_scheme (p # ps) s =
     (if prefix p s then cut_at 47 (drop (length p) s) else strip_scheme ps s)"

definition parse_udp_addr :: "pystr \<Rightarrow> int \<Rightarrow> pystr \<times> int" where
  "parse_udp_addr s0 default_port =
     (let s = strip_scheme [U ''tls://'', U ''https://'', U ''udp://'', U ''tcp://''] (py_strip s0);
          plain = (if 2 \<le> length (filter (\<lambda>c. c = 58) s) then (s, default_port)
                   else case rpartition1 58 s of
                       None \<Rightarrow> (s, default_port)
                     | Some (host, port) \<Rightarrow>
                         (case py_int 10 port of Some n \<Rightarrow> (host, n) | None \<Rightarrow> (s, default_port)))
      in if take 1 s = [91] then
           (case partition1 93 s of
              None \<Rightarrow> plain
            | Some (before, rest) \<Rightarrow>
                if take 1 rest = [58] then
                  (case py_int 10 (drop 1 rest) of Some n \<Rightarrow> (drop 1 before, n) | None \<Rightarrow> (drop 1 before, default_port))
                else (drop 1 before, default_port))
         else plain)"

section \<open>The forwarder\<close>

text \<open>What does not change while a forwarder runs.\<close>

record dns_env =
  de_route :: route_env
  de_netloc_ok :: "pystr \<Rightarrow> bool"
  de_max_routing :: nat
  de_max_dns :: nat

record dns_fwd =
  df_host :: json
  df_port :: int
  df_cn :: json
  df_remote :: json
  df_router :: router
  df_obs :: "outb list"
  df_out :: "(pystr, nat) odict"
  df_tunnels :: "(pystr, upstream) odict"
  df_routing :: "routing_cache option"
  df_dns :: "dns_cache option"

definition cn_default :: json where "cn_default = JStr (U ''223.5.5.5'')"
definition remote_default :: json where "remote_default = JStr (U ''8.8.8.8'')"

definition new_forwarder ::
    "json \<Rightarrow> router \<Rightarrow> built \<Rightarrow> routing_cache option \<Rightarrow> dns_cache option \<Rightarrow> py_error + dns_fwd" where
  "new_forwarder cfg router outbounds rc dc =
     bindE (py_int_of (jget_or cfg (U ''dns_listen_port'') (JInt 5353))) (\<lambda>port.
       Inr \<lparr> df_host = jget_or cfg (U ''dns_listen_host'') (JStr (U ''127.0.0.1'')), df_port = port,
             df_cn = jget_or cfg (U ''cn_dns'') cn_default, df_remote = jget_or cfg (U ''remote_dns'') remote_default,
             df_router = router, df_obs = fst outbounds, df_out = snd outbounds, df_tunnels = [],
             df_routing = rc, df_dns = dc \<rparr>)"

text \<open>\<open>reload\<close> and \<open>stop\<close>: the upstreams closed, with the new state.\<close>

definition fwd_reload :: "json \<Rightarrow> dns_fwd \<Rightarrow> upstream list \<times> dns_fwd" where
  "fwd_reload new_cfg s =
     (let cn = jget_or new_cfg (U ''cn_dns'') cn_default;
          remote = jget_or new_cfg (U ''remote_dns'') remote_default
      in if cn \<noteq> df_cn s \<or> remote \<noteq> df_remote s then
           (map snd (df_tunnels s), s\<lparr> df_cn := cn, df_remote := remote, df_tunnels := [] \<rparr>)
         else ([], s))"

definition fwd_stop :: "dns_fwd \<Rightarrow> upstream list \<times> dns_fwd" where
  "fwd_stop s = (map snd (df_tunnels s), s\<lparr> df_tunnels := [] \<rparr>)"

text \<open>\<open>_tunnel_for\<close>; \<open>make_upstream\<close> reads \<open>(address or "").strip()\<close>.\<close>

definition tunnel_for :: "dns_env \<Rightarrow> pystr \<Rightarrow> dns_fwd \<Rightarrow> (py_error + upstream) \<times> dns_fwd" where
  "tunnel_for e t s =
     (case od_get (df_tunnels s) t of
        Some u \<Rightarrow> (Inr u, s)
      | None \<Rightarrow>
          (case (if truthy (df_remote s) then (case df_remote s of JStr a \<Rightarrow> make_upstream (de_netloc_ok e) a | _ \<Rightarrow> Inl AttributeError)
                 else make_upstream (de_netloc_ok e) []) of
             Inl err \<Rightarrow> (Inl err, s)
           | Inr u \<Rightarrow> (Inr u, s\<lparr> df_tunnels := od_set t u (df_tunnels s) \<rparr>)))"

datatype target = ToUdp pystr int | ToTunnel pystr upstream

datatype step_result = Reply "bytes option" | Ask target pystr "nat option"

text \<open>The two cache look-ups and the routing decision of \<open>_handle\<close>.\<close>

definition query_type :: "bytes \<Rightarrow> dns_fwd \<Rightarrow> nat option" where
  "query_type d s = (if df_dns s = None then None else extract_qtype d)"

definition cached_answer :: "pystr \<Rightarrow> nat option \<Rightarrow> rat \<Rightarrow> dns_fwd \<Rightarrow> bytes option \<times> dns_fwd" where
  "cached_answer domain qtype now s =
     (case (df_dns s, qtype) of
        (Some c, Some q) \<Rightarrow> (case dc_get (domain, q) now c of (r, c') \<Rightarrow> (r, s\<lparr> df_dns := Some c' \<rparr>))
      | _ \<Rightarrow> (None, s))"

definition route_domain :: "dns_env \<Rightarrow> pystr \<Rightarrow> rat \<Rightarrow> dns_fwd \<Rightarrow> pystr \<times> dns_fwd" where
  "route_domain e domain now s =
     (case df_routing s of
        None \<Rightarrow> (fst (router_match (de_route e) (df_router s) domain), s)
      | Some c \<Rightarrow>
          (case rc_get domain now c of
             (Some t, c') \<Rightarrow> (t, s\<lparr> df_routing := Some c' \<rparr>)
           | (None, c') \<Rightarrow>
               (let action = fst (router_match (de_route e) (df_router s) domain)
                in (action, s\<lparr> df_routing := Some (rc_put domain action now c') \<rparr>))))"

definition ask_leaf :: "dns_env \<Rightarrow> bytes \<Rightarrow> pystr \<Rightarrow> nat option \<Rightarrow> nat \<Rightarrow> dns_fwd \<Rightarrow> step_result \<times> dns_fwd" where
  "ask_leaf e d domain qtype l s =
     (case df_obs s ! l of
        Block t \<Rightarrow> (Reply (Some (nxdomain d)), s)
      | Direct t \<Rightarrow>
          (case df_cn s of
             JStr a \<Rightarrow> (case parse_udp_addr a 53 of (h, p) \<Rightarrow> (Ask (ToUdp h p) domain qtype, s))
           | _ \<Rightarrow> (Reply (Some (nxdomain d)), s))
      | Mirage m \<Rightarrow>
          (case tunnel_for e (m_tag m) s of
             (Inl err, s') \<Rightarrow> (Reply (Some (nxdomain d)), s')
           | (Inr u, s') \<Rightarrow> (Ask (ToTunnel (m_tag m) u) domain qtype, s'))
      | _ \<Rightarrow> (Reply (Some (nxdomain d)), s))"

definition handle_start :: "dns_env \<Rightarrow> rat \<Rightarrow> bytes \<Rightarrow> dns_fwd \<Rightarrow> step_result \<times> dns_fwd" where
  "handle_start e now d s =
     (case extract_domain d of
        None \<Rightarrow> (Reply None, s)
      | Some domain \<Rightarrow>
          (let qtype = query_type d s in
           case cached_answer domain qtype now s of
             (Some cached, s1) \<Rightarrow> (Reply (Some (take 2 d @ drop 2 cached)), s1)
           | (None, s1) \<Rightarrow>
               (case route_domain e domain now s1 of
                  (action, s2) \<Rightarrow>
                    (case od_get (df_out s2) action of
                       None \<Rightarrow> (Reply (Some (nxdomain d)), s2)
                     | Some a \<Rightarrow>
                         (case resolve_leaf (df_obs s2) a of
                            (l, obs') \<Rightarrow> ask_leaf e d domain qtype l (s2\<lparr> df_obs := obs' \<rparr>))))))"

definition handle_finish :: "rat \<Rightarrow> bytes \<Rightarrow> pystr \<Rightarrow> nat option \<Rightarrow> py_error + bytes \<Rightarrow> dns_fwd \<Rightarrow> bytes option \<times> dns_fwd" where
  "handle_finish now d domain qtype resp s =
     (case resp of
        Inl e \<Rightarrow> (Some (nxdomain d), s)
      | Inr r \<Rightarrow>
          (Some r, case (df_dns s, qtype) of
             (Some c, Some q) \<Rightarrow> s\<lparr> df_dns := Some (dc_put (domain, q) r now c) \<rparr>
           | _ \<Rightarrow> s))"

section \<open>Queries as they are on the wire\<close>

interpretation question_end_walk: label_walk question_name
  by unfold_locales (subst question_name.simps, simp add: Let_def add.commute)

lemma extract_labels_wire:
  "labels_ok ls \<Longrightarrow> extract_labels (pre @ wire_labels ls @ 0 # post) (length pre) = map ascii_replace ls"
proof (induction ls arbitrary: pre)
  case Nil
  then show ?case by (subst extract_labels.simps) (simp add: wire_labels_def)
next
  case (Cons l ls)
  have l: "l \<noteq> []" "length l < 64" and ok: "labels_ok ls" using Cons.prems by (auto simp: labels_ok_def)
  have u: "unat (of_nat (length l) :: byte) = length l" using l(2) by (simp add: unat_of_nat)
  have nz: "(of_nat (length l) :: byte) \<noteq> 0" using u l(1) by force
  let ?pre = "pre @ of_nat (length l) # l"
  let ?m = "?pre @ wire_labels ls @ 0 # post"
  have e: "pre @ wire_labels (l # ls) @ 0 # post = ?m" by (simp add: wire_labels_def)
  have s: "slice (length pre + 1) (length pre + 1 + length l) ?m = l"
    using slice_prefix[of "pre @ [of_nat (length l)]" "length pre + 1" _ l "wire_labels ls @ 0 # post"] by simp
  have "?m ! length pre = of_nat (length l)" by (simp add: nth_append)
  then have "extract_labels ?m (length pre) = ascii_replace l # extract_labels ?m (length ?pre)"
    using s u nz low_byte_and[OF l(2)] by (subst extract_labels.simps) (simp add: Let_def)
  then show ?case unfolding e using Cons.IH[OF ok, of ?pre] by simp
qed

lemma question_name_wire:
  "labels_ok ls \<Longrightarrow> question_name (pre @ wire_labels ls @ 0 # post) (length pre) = length pre + length (wire_labels ls) + 1"
  using question_end_walk.walk_labels[of ls pre "0 # post"]
  by (simp, subst (asm) (2) question_name.simps) (simp add: nth_append)

definition wire_query :: "bytes \<Rightarrow> nat \<Rightarrow> bytes \<Rightarrow> bytes list \<Rightarrow> nat \<Rightarrow> nat \<Rightarrow> bytes \<Rightarrow> bytes" where
  "wire_query start an counts ls qt qc extra = wire_header start 1 an counts @ wire_question (ls, qt, qc) @ extra"

lemma wire_query_split:
  "wire_query start an counts ls qt qc extra
     = wire_header start 1 an counts @ wire_labels ls @ 0 # to_be 2 qt @ to_be 2 qc @ extra"
  by (simp add: wire_query_def wire_question_def)

lemma wire_query_parsed:
  assumes "length start = 4" "length counts = 4" "an < 2 ^ 16" "labels_ok ls" "ls \<noteq> []" "qt < 2 ^ 16"
  shows "extract_domain (wire_query start an counts ls qt qc extra) = Some (py_lower (join_with [46] (map ascii_replace ls)))"
    "extract_qtype (wire_query start an counts ls qt qc extra) = Some qt"
    "question_end (wire_query start an counts ls qt qc extra) = 12 + length (wire_question (ls, qt, qc))"
proof -
  note c = dns_counts[OF assms(1,2) _ assms(3), of 1, simplified]
  let ?post = "to_be 2 qt @ to_be 2 qc @ extra"
  let ?h = "wire_header start 1 an counts"
  have h: "length ?h = 12" using c(1) by simp
  show "extract_domain (wire_query start an counts ls qt qc extra) = Some (py_lower (join_with [46] (map ascii_replace ls)))"
    using extract_labels_wire[OF assms(4), of ?h ?post] h assms(5) by (simp add: extract_domain_def wire_query_split)
  show "extract_qtype (wire_query start an counts ls qt qc extra) = Some qt"
    unfolding wire_query_def by (rule extract_qtype_question) (use assms in simp_all)
  have "question_name (?h @ wire_labels ls @ 0 # ?post) 12 = 12 + length (wire_labels ls) + 1"
    using question_name_wire[OF assms(4), of ?h ?post] h by simp
  moreover have "from_be (slice 4 6 (?h @ wire_labels ls @ 0 # ?post)) = 1" using c(2) by simp
  ultimately show "question_end (wire_query start an counts ls qt qc extra) = 12 + length (wire_question (ls, qt, qc))"
    using h by (simp add: question_end_def wire_query_split wire_question_def)
qed

lemma refused_header:
  assumes "length rest = 8"
  shows "([a, b, f, g] @ rest)[2 := x, 3 := y, 6 := 0, 7 := 0, 8 := 0, 9 := 0, 10 := 0, 11 := 0]
       = [a, b, x, y] @ take 2 rest @ replicate 6 (0::byte)"
proof -
  obtain r0 r1 r2 r3 r4 r5 r6 r7 where "rest = [r0, r1, r2, r3, r4, r5, r6, r7]"
    using assms by (auto simp: numeral_eq_Suc length_Suc_conv)
  then show ?thesis by (simp add: numeral_eq_Suc)
qed

text \<open>For every well-formed DNS query with one question, whatever follows the question, the name that is routed
  and the type that is cached are the question's own, and the refusal keeps the identifier, the opcode and
  flag bits and exactly the question, with the response bit set, code 3 (no such name) and no other record
  announced or left behind.\<close>
theorem refusal_of_query:
  assumes "length counts = 4" "an < 2 ^ 16" "labels_ok ls" "ls \<noteq> []" "qt < 2 ^ 16"
  shows "extract_domain (wire_query [i0, i1, f, g] an counts ls qt qc extra) = Some (py_lower (join_with [46] (map ascii_replace ls)))
    \<and> extract_qtype (wire_query [i0, i1, f, g] an counts ls qt qc extra) = Some qt
    \<and> nxdomain (wire_query [i0, i1, f, g] an counts ls qt qc extra)
      = wire_query [i0, i1, f OR 0x80, (g AND 0xF0) OR 3] 0 [0, 0, 0, 0] ls qt qc []"
proof -
  let ?s = "[i0, i1, f, g]"
  let ?q = "wire_query ?s an counts ls qt qc extra"
  have s: "length ?s = 4" by simp
  note p = wire_query_parsed[OF s assms, of qc extra]
  have h: "length (wire_header ?s 1 an counts) = 12" using assms(1) by (simp add: wire_header_def)
  have t: "take 12 ?q = ?s @ to_be 2 1 @ to_be 2 an @ counts"
    using h by (simp add: wire_query_def wire_header_def)
  have sl: "slice 12 (question_end ?q) ?q = wire_question (ls, qt, qc)"
    unfolding p(3) unfolding wire_query_def by (rule slice_prefix) (use h in simp_all)
  have n: "?q ! 2 = f" "?q ! 3 = g" by (simp_all add: wire_query_def wire_header_def)
  have len: "\<not> length ?q < 12" using h by (simp add: wire_query_def)
  have "nxdomain ?q = (?s @ (to_be 2 1 @ to_be 2 an @ counts))[2 := f OR 0x80, 3 := (g AND 0xF0) OR 3,
      6 := 0, 7 := 0, 8 := 0, 9 := 0, 10 := 0, 11 := 0] @ wire_question (ls, qt, qc)"
    using len unfolding nxdomain_def Let_def t sl n by simp
  also have "\<dots> = ([i0, i1, f OR 0x80, (g AND 0xF0) OR 3] @ take 2 (to_be 2 1 @ to_be 2 an @ counts) @ replicate 6 0)
      @ wire_question (ls, qt, qc)"
    by (subst refused_header) (use assms(1) in simp_all)
  also have "\<dots> = wire_query [i0, i1, f OR 0x80, (g AND 0xF0) OR 3] 0 [0, 0, 0, 0] ls qt qc []"
  proof -
    have "replicate 6 (0::byte) = to_be 2 0 @ [0, 0, 0, 0]" by (simp add: to_be_numeral, simp add: numeral_eq_Suc)
    then show ?thesis by (simp add: wire_query_def wire_header_def)
  qed
  finally show ?thesis using p by simp
qed

theorem refusal_of_query_witness:
  "nxdomain (wire_query [0xAB, 0xCD, 1, 0x20] 0 [0, 0, 0, 1] [[97, 98], [99]] 28 1 [0, 0, 41])
      = wire_query [0xAB, 0xCD, 1 OR 0x80, (0x20 AND 0xF0) OR 3] 0 [0, 0, 0, 0] [[97, 98], [99]] 28 1 []"
  using refusal_of_query[of "[0, 0, 0, 1]" 0 "[[97, 98], [99]]" 28 "0xAB" "0xCD" 1 "0x20" 1 "[0, 0, 41]"]
  by (simp add: labels_ok_def)

section \<open>Where a query may go\<close>

lemma cached_answer_frame: "df_out (snd (cached_answer d q now s)) = df_out s \<and> df_obs (snd (cached_answer d q now s)) = df_obs s
    \<and> df_cn (snd (cached_answer d q now s)) = df_cn s \<and> df_routing (snd (cached_answer d q now s)) = df_routing s
    \<and> df_router (snd (cached_answer d q now s)) = df_router s \<and> df_tunnels (snd (cached_answer d q now s)) = df_tunnels s"
  by (auto simp: cached_answer_def split: option.split prod.split)

lemma route_domain_frame: "df_out (snd (route_domain e d now s)) = df_out s \<and> df_obs (snd (route_domain e d now s)) = df_obs s
    \<and> df_cn (snd (route_domain e d now s)) = df_cn s \<and> df_dns (snd (route_domain e d now s)) = df_dns s"
  by (auto simp: route_domain_def Let_def split: option.split prod.split)

lemma tunnel_for_frame: "df_dns (snd (tunnel_for e t s)) = df_dns s"
  by (auto simp: tunnel_for_def split: option.split sum.split)

lemma ask_leaf_frame: "df_dns (snd (ask_leaf e d domain qtype l s)) = df_dns s"
  using tunnel_for_frame by (auto simp: ask_leaf_def split: outb.split json.split prod.split sum.split) (metis snd_conv)+

lemma ask_leaf_ask:
  assumes "ask_leaf e d domain qtype l s = (Ask tgt dn q, s')"
  shows "dn = domain \<and> q = qtype \<and> ((\<exists>t. df_obs s ! l = Direct t \<and> (\<exists>h p. tgt = ToUdp h p)) \<or>
    (\<exists>m u. df_obs s ! l = Mirage m \<and> tgt = ToTunnel (m_tag m) u))"
  using assms by (auto simp: ask_leaf_def split: outb.splits json.splits prod.splits sum.splits)

lemma ask_leaf_reply: "ask_leaf e d domain qtype l s = (Reply r, s') \<Longrightarrow> r = Some (nxdomain d)"
  by (auto simp: ask_leaf_def split: outb.splits json.splits prod.splits sum.splits)

text \<open>C23: A DNS query leaves the machine only by the leaf its name is routed to: in the clear when that leaf is a
  direct one, through that leaf's own tunnel when it is a mirage one, and not at all when it is a block
  leaf, a group without a healthy member, or when the tag is unknown.\<close>
theorem query_leaves_by_routed_leaf:
  assumes "handle_start e now d s = (Ask tgt domain qtype, s')"
  shows "extract_domain d = Some domain
    \<and> (\<exists>action a l obs' s1. fst (cached_answer domain (query_type d s) now s) = None
      \<and> s1 = snd (cached_answer domain (query_type d s) now s)
      \<and> action = fst (route_domain e domain now s1) \<and> od_get (df_out s) action = Some a
      \<and> resolve_leaf (df_obs s) a = (l, obs')
      \<and> ((\<exists>t. obs' ! l = Direct t \<and> (\<exists>h p. tgt = ToUdp h p))
         \<or> (\<exists>m u. obs' ! l = Mirage m \<and> tgt = ToTunnel (m_tag m) u)))"
proof -
  obtain domain' where dom: "extract_domain d = Some domain'"
    using assms by (auto simp: handle_start_def split: option.splits)
  obtain r s1 where ca: "cached_answer domain' (query_type d s) now s = (r, s1)" by (cases "cached_answer domain' (query_type d s) now s")
  have r: "r = None" using assms by (cases r) (auto simp: handle_start_def dom Let_def ca)
  obtain action s2 where ro: "route_domain e domain' now s1 = (action, s2)" by (cases "route_domain e domain' now s1")
  have fr: "df_out s2 = df_out s" "df_obs s2 = df_obs s"
    using cached_answer_frame[of domain' "query_type d s" now s] route_domain_frame[of e domain' now s1] ca ro by simp_all
  obtain a where a: "od_get (df_out s) action = Some a"
    using assms fr by (cases "od_get (df_out s) action") (auto simp: handle_start_def dom Let_def ca r ro)
  obtain l obs' where l: "resolve_leaf (df_obs s) a = (l, obs')" by (cases "resolve_leaf (df_obs s) a")
  have "ask_leaf e d domain' (query_type d s) l (s2\<lparr> df_obs := obs' \<rparr>) = (Ask tgt domain qtype, s')"
    using assms fr a l by (simp add: handle_start_def dom Let_def ca r ro)
  from ask_leaf_ask[OF this] have "domain = domain'"
    "(\<exists>t. obs' ! l = Direct t \<and> (\<exists>h p. tgt = ToUdp h p)) \<or> (\<exists>m u. obs' ! l = Mirage m \<and> tgt = ToTunnel (m_tag m) u)" by auto
  then show ?thesis using dom ca r ro a l by auto
qed

section \<open>What the cache answers\<close>

text \<open>
  The runs of a forwarder: queries start and finish in any order, the configuration reloads and the caches
  are cleared at any time.  \<open>asked\<close> lists the queries sent to an upstream, \<open>got\<close> the responses:
  time, query and message.
\<close>

inductive fwd_run :: "dns_env \<Rightarrow> dns_fwd \<Rightarrow> dns_fwd \<Rightarrow> bytes list \<Rightarrow> (rat \<times> bytes \<times> bytes) list \<Rightarrow> bool" for e s0 where
  Begin: "fwd_run e s0 s0 [] []"
| Asked: "fwd_run e s0 s asked got \<Longrightarrow> handle_start e now d s = (Ask tgt domain qtype, s') \<Longrightarrow> fwd_run e s0 s' (d # asked) got"
| Replied: "fwd_run e s0 s asked got \<Longrightarrow> handle_start e now d s = (Reply r, s') \<Longrightarrow> fwd_run e s0 s' asked got"
| Got: "fwd_run e s0 s asked got \<Longrightarrow> d \<in> set asked \<Longrightarrow> extract_domain d = Some domain \<Longrightarrow>
    fwd_run e s0 (snd (handle_finish now d domain (query_type d s) (Inr r) s)) asked ((now, d, r) # got)"
| Failed: "fwd_run e s0 s asked got \<Longrightarrow> fwd_run e s0 (snd (handle_finish now d domain qtype (Inl err) s)) asked got"
| Reload: "fwd_run e s0 s asked got \<Longrightarrow> fwd_run e s0 (snd (fwd_reload cfg s)) asked got"
| Flush: "fwd_run e s0 s asked got \<Longrightarrow> df_dns s = Some c \<Longrightarrow>
    fwd_run e s0 (s\<lparr> df_dns := Some (snd (dc_invalidate c)) \<rparr>) asked got"

text \<open>The cache of a run is that of a history of cache operations whose insertions are received responses.\<close>

definition history_of :: "(rat \<times> bytes \<times> bytes) list \<Rightarrow> (rat \<times> (pystr \<times> nat, bytes) cache_op) list \<Rightarrow> bool" where
  "history_of got h \<longleftrightarrow> (\<forall>t k r. (t, PutOp k r) \<in> set h \<longrightarrow>
     (\<exists>d. (t, d, r) \<in> set got \<and> extract_domain d = Some (fst k) \<and> extract_qtype d = Some (snd k)))"

lemma history_snoc: "history_of got h \<Longrightarrow> x = (t, GetOp k) \<or> x = (t, ClearOp) \<Longrightarrow> history_of got (h @ [x])"
  by (auto simp: history_of_def)

lemma history_put: "history_of got h \<Longrightarrow> extract_domain d = Some (fst k) \<Longrightarrow> extract_qtype d = Some (snd k) \<Longrightarrow>
    history_of ((t, d, r) # got) (h @ [(t, PutOp k r)])"
  by (fastforce simp: history_of_def)

lemma history_more: "history_of got h \<Longrightarrow> history_of (x # got) h"
  unfolding history_of_def by (metis list.set_intros(2))

lemma dns_run_snoc: "dns_run (h @ [x]) c = cache_step dc_get dc_put (\<lambda>c. snd (dc_invalidate c)) (dns_run h c) x"
  by (simp add: dns_run_def cache_run_def)

definition cache_traced :: "nat \<Rightarrow> (rat \<times> bytes \<times> bytes) list \<Rightarrow> dns_cache option \<Rightarrow> bool" where
  "cache_traced m got dc \<longleftrightarrow> (\<forall>c. dc = Some c \<longrightarrow> (\<exists>h. history_of got h \<and> c = dns_run h (new_dns_cache m)))"

lemma traced_more: "cache_traced m got dc \<Longrightarrow> cache_traced m (x # got) dc"
  unfolding cache_traced_def using history_more by blast

lemma traced_step:
  assumes "cache_traced m got (Some c)"
  shows "cache_traced m got (Some (snd (dc_get k t c)))" "cache_traced m got (Some (snd (dc_invalidate c)))"
    "extract_domain d = Some (fst k) \<Longrightarrow> extract_qtype d = Some (snd k) \<Longrightarrow> cache_traced m ((t, d, r) # got) (Some (dc_put k r t c))"
proof -
  obtain h where h: "history_of got h" "c = dns_run h (new_dns_cache m)" using assms by (auto simp: cache_traced_def)
  show "cache_traced m got (Some (snd (dc_get k t c)))"
    using history_snoc[OF h(1), of "(t, GetOp k)"] h(2) by (auto simp: cache_traced_def dns_run_snoc intro!: exI[of _ "h @ [(t, GetOp k)]"])
  show "cache_traced m got (Some (snd (dc_invalidate c)))"
    using history_snoc[OF h(1), of "(t, ClearOp)"] h(2) by (auto simp: cache_traced_def dns_run_snoc intro!: exI[of _ "h @ [(t, ClearOp)]"])
  show "extract_domain d = Some (fst k) \<Longrightarrow> extract_qtype d = Some (snd k) \<Longrightarrow> cache_traced m ((t, d, r) # got) (Some (dc_put k r t c))"
    using history_put[OF h(1), of d k t r] h(2) by (auto simp: cache_traced_def dns_run_snoc intro!: exI[of _ "h @ [(t, PutOp k r)]"])
qed

lemma traced_cached_answer: "cache_traced m got (df_dns s) \<Longrightarrow> cache_traced m got (df_dns (snd (cached_answer d q now s)))"
  using traced_step(1)[of m got _ "(d, _)" now]
  by (auto simp: cached_answer_def split: option.split prod.split) (metis snd_conv)+

lemma handle_start_dns:
  "df_dns (snd (handle_start e now d s)) = df_dns s \<or>
   (\<exists>domain q. df_dns (snd (handle_start e now d s)) = df_dns (snd (cached_answer domain q now s)))"
proof (cases "extract_domain d")
  case None
  then show ?thesis by (simp add: handle_start_def)
next
  case (Some domain)
  obtain r s1 where ca: "cached_answer domain (query_type d s) now s = (r, s1)" by (cases "cached_answer domain (query_type d s) now s")
  obtain action s2 where ro: "route_domain e domain now s1 = (action, s2)" by (cases "route_domain e domain now s1")
  have "df_dns s2 = df_dns s1" using route_domain_frame[of e domain now s1] ro by simp
  then have "df_dns (snd (handle_start e now d s)) = df_dns s1"
    by (cases r) (auto simp: handle_start_def Some Let_def ca ro ask_leaf_frame case_prod_beta split: option.split)
  then show ?thesis using ca by (metis snd_conv)
qed

lemma traced_handle_start: "cache_traced m got (df_dns s) \<Longrightarrow> handle_start e now d s = (r, s') \<Longrightarrow> cache_traced m got (df_dns s')"
  using handle_start_dns[of e now d s] traced_cached_answer by (metis snd_conv)

lemma fwd_run_traced:
  assumes "df_dns s0 = Some (new_dns_cache m)"
  shows "fwd_run e s0 s asked got \<Longrightarrow> cache_traced m got (df_dns s) \<and> (\<forall>x\<in>set got. fst (snd x) \<in> set asked)"
proof (induction rule: fwd_run.induct)
  case Begin
  have "history_of [] [] \<and> new_dns_cache m = dns_run [] (new_dns_cache m)"
    by (simp add: history_of_def dns_run_def cache_run_def)
  then show ?case using assms by (auto simp: cache_traced_def)
next
  case (Asked s asked got now d tgt domain qtype s')
  then show ?case using traced_handle_start by auto
next
  case (Replied s asked got now d r s')
  then show ?case using traced_handle_start by blast
next
  case (Got s asked got d domain now r)
  have "cache_traced m ((now, d, r) # got) (df_dns (snd (handle_finish now d domain (query_type d s) (Inr r) s)))"
  proof (cases "df_dns s")
    case None
    then show ?thesis by (simp add: handle_finish_def cache_traced_def)
  next
    case (Some c)
    show ?thesis
    proof (cases "extract_qtype d")
      case None
      then show ?thesis using traced_more Got.IH Some by (simp add: handle_finish_def query_type_def)
    next
      case (Some q)
      have "cache_traced m ((now, d, r) # got) (Some (dc_put (domain, q) r now c))"
        using traced_step(3)[of m got c d "(domain, q)" now r] Got.IH Got.hyps(3) Some \<open>df_dns s = Some c\<close> by simp
      then show ?thesis using Some \<open>df_dns s = Some c\<close> by (simp add: handle_finish_def query_type_def)
    qed
  qed
  then show ?case using Got by auto
next
  case (Failed s asked got now d domain qtype err)
  then show ?case by (simp add: handle_finish_def)
next
  case (Reload s asked got cfg)
  then show ?case by (simp add: fwd_reload_def Let_def)
next
  case (Flush s asked got c)
  then show ?case using traced_step(2) by simp
qed

text \<open>C22: In any run of the forwarder, however queries, responses, reloads and flushes interleave, an answer from the
  cache is the body of a response that was received, less than an hour before, to a query for the same
  name (up to case) and the same type, sent on under the identifier of the query it answers.\<close>
theorem cached_reply_is_recent_response:
  assumes "df_dns s0 = Some (new_dns_cache m)" "fwd_run e s0 s asked got"
    and "extract_domain d = Some domain" "fst (cached_answer domain (query_type d s) now s) = Some r"
  shows "fst (handle_start e now d s) = Reply (Some (take 2 d @ drop 2 r))
    \<and> (\<exists>t d0 domain0. (t, d0, r) \<in> set got \<and> d0 \<in> set asked \<and> extract_domain d0 = Some domain0
        \<and> py_lower domain0 = py_lower domain \<and> extract_qtype d0 = extract_qtype d \<and> now < t + 3600)"
proof -
  obtain c q where c: "df_dns s = Some c" "query_type d s = Some q" "fst (dc_get (domain, q) now c) = Some r"
    using assms(4) by (auto simp: cached_answer_def split: option.splits prod.splits)
  obtain h where h: "history_of got h" "c = dns_run h (new_dns_cache m)"
    using fwd_run_traced[OF assms(1,2)] c(1) by (auto simp: cache_traced_def)
  obtain t where t: "last_put dc_key (\<lambda>r. 0 < extract_min_ttl r) (dc_key (domain, q)) h = Some (t, r)" "now < t + 3600"
    using dns_cache_answers[of "(domain, q)" now h m r] c(3) h(2) by blast
  obtain k where k: "(t, PutOp k r) \<in> set h" "dc_key k = dc_key (domain, q)" using last_put_in[OF t(1)] by blast
  obtain d0 where "(t, d0, r) \<in> set got" "extract_domain d0 = Some (fst k)" "extract_qtype d0 = Some (snd k)"
    using h(1) k(1) unfolding history_of_def by blast
  moreover have "d0 \<in> set asked" using fwd_run_traced[OF assms(1,2)] calculation(1) by force
  moreover have "py_lower (fst k) = py_lower domain" "snd k = q" using k(2) by (simp_all add: dc_key_def)
  moreover have "extract_qtype d = Some q" using c(1,2) by (simp add: query_type_def)
  ultimately have "\<exists>t d0 domain0. (t, d0, r) \<in> set got \<and> d0 \<in> set asked \<and> extract_domain d0 = Some domain0
        \<and> py_lower domain0 = py_lower domain \<and> extract_qtype d0 = extract_qtype d \<and> now < t + 3600"
    using t(2) by auto
  moreover have "fst (handle_start e now d s) = Reply (Some (take 2 d @ drop 2 r))"
    using assms(3,4) by (cases "cached_answer domain (query_type d s) now s") (simp add: handle_start_def Let_def)
  ultimately show ?thesis by blast
qed

definition sample_query :: bytes where
  "sample_query = wire_query [0, 7, 1, 0] 0 [0, 0, 0, 0] [[97]] 1 1 []"

definition sample_fwd :: dns_fwd where
  "sample_fwd = \<lparr> df_host = JNull, df_port = 53, df_cn = JStr (U ''9''), df_remote = JNull, df_router = new_router (U ''d''),
     df_obs = fst sample_built, df_out = snd sample_built, df_tunnels = [], df_routing = None, df_dns = Some (new_dns_cache 5) \<rparr>"

definition sample_dns_env :: dns_env where
  "sample_dns_env = \<lparr> de_route = plain_env, de_netloc_ok = (\<lambda>_. True), de_max_routing = 5, de_max_dns = 5 \<rparr>"

lemma sample_query_parsed: "extract_domain sample_query = Some [97]" "extract_qtype sample_query = Some 1"
  using wire_query_parsed[of "[0, 7, 1, 0]" "[0, 0, 0, 0]" 0 "[[97]]" 1 1 "[]"]
  by (simp_all add: sample_query_def labels_ok_def ascii_replace_def join_with_def py_lower_def lower1_def)

lemma sample_asked: "\<exists>tgt s'. handle_start sample_dns_env 0 sample_query sample_fwd = (Ask tgt [97] (Some 1), s')
    \<and> df_dns s' = Some (snd (dc_get ([97], 1) 0 (new_dns_cache 5)))"
proof -
  have c: "cached_answer [97] (Some 1) 0 sample_fwd = (None, sample_fwd\<lparr> df_dns := Some (snd (dc_get ([97], 1) 0 (new_dns_cache 5))) \<rparr>)"
    by (simp add: cached_answer_def sample_fwd_def dc_get_def new_dns_cache_def od_get_def dc_key_def Let_def)
  have q: "query_type sample_query sample_fwd = Some 1" by (simp add: query_type_def sample_fwd_def sample_query_parsed)
  have r: "resolve_leaf (fst sample_built) 0 = (0, fst sample_built)"
    by (rule resolve_leaf_leaf) (simp add: sample_built_def)
  have o: "od_get (snd sample_built) (U ''d'') = Some 0" by (simp add: sample_built_def od_get_def)
  have b: "fst sample_built ! 0 = Direct (U ''d'')" by (simp add: sample_built_def)
  have f: "df_routing sample_fwd = None" "df_router sample_fwd = new_router (U ''d'')" "df_obs sample_fwd = fst sample_built"
    "df_out sample_fwd = snd sample_built" "df_cn sample_fwd = JStr (U ''9'')" by (simp_all add: sample_fwd_def)
  have m: "fst (router_match x (new_router (U ''d'')) y) = U ''d''" for x y
    by (simp add: router_match_def new_router_def Let_def)
  show ?thesis
    by (cases "parse_udp_addr (U ''9'') 53")
      (simp add: handle_start_def sample_query_parsed q c route_domain_def f m o r b ask_leaf_def Let_def del: One_nat_def)
qed

theorem cached_reply_is_recent_response_witness:
  "\<exists>s got. fst (handle_start sample_dns_env 1 sample_query s) = Reply (Some (take 2 sample_query @ drop 2 (replicate 12 0)))
    \<and> (\<exists>t d0 domain0. (t, d0, replicate 12 0 :: bytes) \<in> set got \<and> d0 \<in> set [sample_query] \<and> extract_domain d0 = Some domain0
        \<and> py_lower domain0 = py_lower [97] \<and> extract_qtype d0 = extract_qtype sample_query \<and> 1 < t + (3600::rat))"
proof -
  let ?r = "replicate 12 0 :: bytes"
  obtain tgt s' where a: "handle_start sample_dns_env 0 sample_query sample_fwd = (Ask tgt [97] (Some 1), s')"
    and dns: "df_dns s' = Some (snd (dc_get ([97], 1) 0 (new_dns_cache 5)))"
    using sample_asked by blast
  have run: "fwd_run sample_dns_env sample_fwd s' [sample_query] []"
    by (rule fwd_run.Asked[OF fwd_run.Begin a])
  let ?s = "snd (handle_finish 0 sample_query [97] (query_type sample_query s') (Inr ?r) s')"
  have run2: "fwd_run sample_dns_env sample_fwd ?s [sample_query] [(0, sample_query, ?r)]"
    by (rule fwd_run.Got[OF run]) (simp_all add: sample_query_parsed)
  have ttl: "extract_min_ttl ?r = 60"
    by (simp add: extract_min_ttl_def slice_def from_be_def dns_negative_ttl_def numeral_eq_Suc)
  have "fst (cached_answer [97] (query_type sample_query ?s) 1 ?s) = Some ?r"
    by (simp add: query_type_def sample_query_parsed handle_finish_def dns cached_answer_def dc_get_def dc_put_def ttl
        new_dns_cache_def od_get_def dc_key_def Let_def)
  have "df_dns sample_fwd = Some (new_dns_cache 5)" by (simp add: sample_fwd_def)
  from cached_reply_is_recent_response[OF this run2 sample_query_parsed(1) \<open>fst (cached_answer _ _ _ _) = _\<close>]
  show ?thesis by (rule exI[of _ ?s, OF exI[of _ "[(0, sample_query, ?r)]"]])
qed

theorem query_leaves_by_routed_leaf_witness:
  "\<exists>tgt. extract_domain sample_query = Some [97]
    \<and> (\<exists>action a l obs' s1. fst (cached_answer [97] (query_type sample_query sample_fwd) 0 sample_fwd) = None
      \<and> s1 = snd (cached_answer [97] (query_type sample_query sample_fwd) 0 sample_fwd)
      \<and> action = fst (route_domain sample_dns_env [97] 0 s1) \<and> od_get (df_out sample_fwd) action = Some a
      \<and> resolve_leaf (df_obs sample_fwd) a = (l, obs')
      \<and> ((\<exists>t. obs' ! l = Direct t \<and> (\<exists>h p. tgt = ToUdp h p))
         \<or> (\<exists>m u. obs' ! l = Mirage m \<and> tgt = ToTunnel (m_tag m) u)))"
proof -
  obtain tgt s' where "handle_start sample_dns_env 0 sample_query sample_fwd = (Ask tgt [97] (Some 1), s')"
    using sample_asked by blast
  from query_leaves_by_routed_leaf[OF this] show ?thesis by (rule exI)
qed

end
