(* ===== verification/Registry.thy ===== *)
theory Registry
  imports Json
begin

text \<open>
  \<open>core/api/stats.py\<close>: the client's table of connections and its traffic meter.  A \<open>ConnInfo\<close> is shared by
  the dispatcher, its byte callbacks and the table; the copy in \<open>rg_open\<close> is that object.
\<close>

record conn_meta =
  me_network :: pystr
  me_type :: pystr
  me_src_ip :: pystr
  me_src_port :: pystr
  me_dst_ip :: pystr
  me_dst_port :: pystr
  me_host :: pystr

record api_conn =
  ac_id :: nat
  ac_meta :: conn_meta
  ac_up :: int
  ac_down :: int
  ac_chains :: "pystr list"
  ac_rule :: pystr
  ac_payload :: pystr
  ac_closed :: rat

record registry =
  rg_open :: "(nat, api_conn) odict"
  rg_closed :: "api_conn list"
  rg_up :: int
  rg_down :: int

definition new_registry :: registry where
  "new_registry = \<lparr> rg_open = [], rg_closed = [], rg_up = 0, rg_down = 0 \<rparr>"

definition linger_sec :: rat where "linger_sec = 5"

definition gc_closed :: "rat \<Rightarrow> registry \<Rightarrow> registry" where
  "gc_closed now r = r\<lparr> rg_closed := filter (\<lambda>c. now - linger_sec \<le> ac_closed c) (rg_closed r) \<rparr>"

definition reg_register :: "api_conn \<Rightarrow> registry \<Rightarrow> registry" where
  "reg_register info r = r\<lparr> rg_open := od_set (ac_id info) info (rg_open r) \<rparr>"

definition reg_unregister :: "rat \<Rightarrow> nat \<Rightarrow> registry \<Rightarrow> registry" where
  "reg_unregister now i r = gc_closed now (case od_get (rg_open r) i of
       None \<Rightarrow> r
     | Some c \<Rightarrow> r\<lparr> rg_open := od_del i (rg_open r), rg_closed := rg_closed r @ [c\<lparr> ac_closed := now \<rparr>] \<rparr>)"

definition list_active :: "rat \<Rightarrow> registry \<Rightarrow> api_conn list \<times> registry" where
  "list_active now r = (let r = gc_closed now r in (map snd (rg_open r) @ rg_closed r, r))"

text \<open>The two callbacks of \<open>make_callbacks\<close>.\<close>

definition reg_up :: "nat \<Rightarrow> int \<Rightarrow> registry \<Rightarrow> registry" where
  "reg_up i n r = (case od_get (rg_open r) i of None \<Rightarrow> r
     | Some c \<Rightarrow> r\<lparr> rg_open := od_set i (c\<lparr> ac_up := ac_up c + n \<rparr>) (rg_open r), rg_up := rg_up r + n \<rparr>)"

definition reg_down :: "nat \<Rightarrow> int \<Rightarrow> registry \<Rightarrow> registry" where
  "reg_down i n r = (case od_get (rg_open r) i of None \<Rightarrow> r
     | Some c \<Rightarrow> r\<lparr> rg_open := od_set i (c\<lparr> ac_down := ac_down c + n \<rparr>) (rg_open r), rg_down := rg_down r + n \<rparr>)"

definition split_rule :: "pystr \<Rightarrow> pystr \<times> pystr" where
  "split_rule source =
     (if source = [] then (U ''Match'', [])
      else case partition1 58 source of
        Some (kind, payload) \<Rightarrow> (py_strip kind, py_strip payload)
      | None \<Rightarrow> if py_lower source \<in> {U ''default'', U ''final'', U ''match''} then (U ''Match'', source) else (source, []))"

end
