(* ===== verification/Udp_Relay.thy ===== *)
theory Udp_Relay
  imports Complex_Main Frames
begin

text \<open>
  UDP over the tunnel (core/udp_relay.py): the SOCKS5 UDP header codec, the client-side \<open>UDPRelay\<close>
  and the server side \<open>handle_udp_tunnel\<close>. A handler takes the state and returns the new state with
  the list of what it emitted. Whether a socket or tunnel call succeeds is an argument (\<open>ok\<close>);
  the monotonic clock is a rational number.
\<close>

section \<open>SOCKS5 UDP header\<close>

definition parse_socks5_udp_header :: "bytes \<Rightarrow> frame option" where
  "parse_socks5_udp_header data =
     (if length data < 6 \<or> data ! 0 \<noteq> 0 \<or> data ! 1 \<noteq> 0 then None
      else if data ! 2 \<noteq> 0 then None
      else
        (let atyp = data ! 3; pos = 4;
             tail = (\<lambda>host pos. Some (host, int (from_be (slice pos (pos + 2) data)), drop (pos + 2) data))
         in if atyp = 1 then
              (if length data < pos + 4 + 2 then None
               else tail (ntoa (slice pos (pos + 4) data)) (pos + 4))
            else if atyp = 3 then
              (if length data < pos + 1 then None
               else let dlen = unat (data ! pos); pos = pos + 1 in
                 if length data < pos + dlen + 2 then None
                 else tail (ascii_replace (slice pos (pos + dlen) data)) (pos + dlen))
            else if atyp = 4 then
              (if length data < pos + 16 + 2 then None
               else tail (ntop6 (slice pos (pos + 16) data)) (pos + 16))
            else None))"

definition build_socks5_udp_header :: "pystr \<Rightarrow> int \<Rightarrow> py_error + bytes" where
  "build_socks5_udp_header host port =
     (let addr = (case aton host of Some a \<Rightarrow> [1] @ a
         | None \<Rightarrow> (case pton6 host of Some a6 \<Rightarrow> [4] @ a6
           | None \<Rightarrow> let hb = ascii_encode_replace host in [3] @ [of_nat (length hb mod 256)] @ hb))
      in bindE (pack_port port) (\<lambda>pb. Inr ([0, 0, 0] @ addr @ pb)))"

lemma build_header_shape:
  assumes "build_socks5_udp_header host port = Inr hdr"
  obtains addr where "hdr = [0, 0, 0] @ addr @ to_be 2 (nat port)" "0 \<le> port" "port < 65536"
    "(\<exists>a. aton host = Some a \<and> addr = 1 # a) \<or> (\<exists>a. aton host = None \<and> pton6 host = Some a \<and> addr = 4 # a)
     \<or> (aton host = None \<and> pton6 host = None
        \<and> addr = 3 # of_nat (length host mod 256) # ascii_encode_replace host)"
  using assms
  by (auto simp: build_socks5_udp_header_def bindE_Inr_iff pack_port_Inr_iff Let_def
      ascii_encode_replace_def split: option.splits)

lemma length_aton: "aton s = Some a \<Longrightarrow> length a = 4"
  by (auto simp: aton_def Let_def split: if_splits)

lemma length_pton6: "pton6 s = Some a \<Longrightarrow> length a = 16"
  by (auto simp: pton6_def split: if_splits)

lemma header_port: "0 \<le> p \<Longrightarrow> p < 65536 \<Longrightarrow> int (from_be (to_be 2 (nat p))) = p"
  using from_be_to_be_id[of "nat p" 2] by simp

lemma parse_header_1:
  assumes "length a = 4" "0 \<le> p" "p < 65536"
  shows "parse_socks5_udp_header ([0, 0, 0] @ (1 # a) @ to_be 2 (nat p) @ d) = Some (ntoa a, p, d)"
  using assms header_port[of p]
  by (simp add: parse_socks5_udp_header_def slice_def Let_def nth_append)

lemma parse_header_4:
  assumes "length a = 16" "0 \<le> p" "p < 65536"
  shows "parse_socks5_udp_header ([0, 0, 0] @ (4 # a) @ to_be 2 (nat p) @ d) = Some (ntop6 a, p, d)"
  using assms header_port[of p]
  by (simp add: parse_socks5_udp_header_def slice_def Let_def nth_append)

lemma drop_5: "drop (5 + n) (a # b # c # e # f # xs) = drop n xs"
  by (simp add: numeral_eq_Suc)

lemma drop_5': "length t = 2 \<Longrightarrow> drop (5 + length h) (a # b # c # h @ t @ d) = d"
  by (simp add: numeral_eq_Suc)

lemma parse_header_3:
  assumes "length h < 256" "0 \<le> p" "p < 65536"
  shows "parse_socks5_udp_header ([0, 0, 0] @ (3 # of_nat (length h) # h) @ to_be 2 (nat p) @ d) =
    Some (ascii_replace h, p, d)"
proof -
  let ?x = "[0, 0, 0] @ (3 # of_nat (length h) # h) @ to_be 2 (nat p) @ d"
  have s: "slice 5 (5 + length h) ?x = h" by (simp add: slice_def)
  have d: "drop (5 + length h) ?x = to_be 2 (nat p) @ d" by (simp add: drop_5)
  have d': "drop (5 + length h + 2) ?x = d"
    using arg_cong[OF d, of "drop 2"] by (simp only: drop_drop add.commute[of 2]) simp
  have "slice (5 + length h) (5 + length h + 2) ?x = to_be 2 (nat p)"
    unfolding slice_def d by simp
  moreover have "drop (5 + length h) (0 # 3 # of_nat (length h) # h @ to_be 2 (nat p) @ d) = d"
    by (rule drop_5') simp
  ultimately show ?thesis
    using assms header_port[of p] s d'
    by (simp add: parse_socks5_udp_header_def Let_def unat_of_nat)
qed

lemma ascii_replace_encode: "\<forall>c \<in> set s. c < 128 \<Longrightarrow> ascii_replace (ascii_encode_replace s) = s"
  by (induction s) (auto simp: ascii_replace_def ascii_encode_replace_def unat_of_nat)

definition host_shown :: "pystr \<Rightarrow> pystr" where
  "host_shown host = (case aton host of Some a \<Rightarrow> ntoa a
     | None \<Rightarrow> (case pton6 host of Some a \<Rightarrow> ntop6 a | None \<Rightarrow> host))"

lemma parse_build_header:
  assumes "build_socks5_udp_header host port = Inr h" "length host < 256" "\<forall>c \<in> set host. c < 128"
  shows "parse_socks5_udp_header (h @ payload) = Some (host_shown host, port, payload)"
proof -
  obtain addr where h: "h = [0, 0, 0] @ addr @ to_be 2 (nat port)" and p: "0 \<le> port" "port < 65536"
    and a: "(\<exists>a. aton host = Some a \<and> addr = 1 # a) \<or> (\<exists>a. aton host = None \<and> pton6 host = Some a \<and> addr = 4 # a)
     \<or> (aton host = None \<and> pton6 host = None
        \<and> addr = 3 # of_nat (length host mod 256) # ascii_encode_replace host)"
    by (rule build_header_shape[OF assms(1)])
  from a show ?thesis
  proof (elim disjE exE conjE)
    fix a assume "aton host = Some a" "addr = 1 # a"
    then show ?thesis using parse_header_1[OF length_aton p] h by (simp add: host_shown_def)
  next
    fix a assume "aton host = None" "pton6 host = Some a" "addr = 4 # a"
    then show ?thesis using parse_header_4[OF length_pton6 p] h by (simp add: host_shown_def)
  next
    assume x: "aton host = None" "pton6 host = None"
      "addr = 3 # of_nat (length host mod 256) # ascii_encode_replace host"
    have "length (ascii_encode_replace host) = length host" by (simp add: ascii_encode_replace_def)
    then show ?thesis
      using parse_header_3[of "ascii_encode_replace host" port payload, OF _ p] h x assms(2)
        ascii_replace_encode[OF assms(3)] by (simp add: host_shown_def)
  qed
qed

section \<open>Address normalisation\<close>

definition normalize_addr_for_dualstack :: "pystr \<Rightarrow> int \<Rightarrow> pystr \<times> int" where
  "normalize_addr_for_dualstack host port =
     (if 58 \<in> set host then (host, port)
      else case aton host of Some a \<Rightarrow> (U ''::ffff:'' @ host, port) | None \<Rightarrow> (host, port))"

definition unmap_v4 :: "pystr \<Rightarrow> pystr" where
  "unmap_v4 host = (case ip_address host of
      Some (V6 n) \<Rightarrow> if n div 2 ^ 32 = 0xFFFF then ntoa (to_be 4 (n mod 2 ^ 32)) else host
    | _ \<Rightarrow> host)"

section \<open>The client relay\<close>

definition udp_max_packet :: nat where
  "udp_max_packet = 65507"

definition udp_queue_maxsize :: nat where
  "udp_queue_maxsize = 1024"

datatype udp_out =
    TunnelSend bytes | DirectSend "pystr \<times> int" bytes | ClientSend "pystr \<times> int" bytes
  | CountUp nat | CountDown nat

record udp_relay =
  via_tunnel :: bool
  socks_client_addr :: "(pystr \<times> int) option"
  uplink_q :: "(bytes \<times> (pystr \<times> int)) list"
  last_activity :: rat
  stopped :: bool
  frame_buf :: bytes

definition new_udp_relay :: "bool \<Rightarrow> rat \<Rightarrow> udp_relay" where
  "new_udp_relay tun now = \<lparr>via_tunnel = tun, socks_client_addr = None, uplink_q = [],
     last_activity = now, stopped = False, frame_buf = []\<rparr>"

text \<open>\<open>datagram_received\<close>: \<open>put_nowait\<close>, dropping when the queue is full.\<close>

definition datagram_received :: "udp_relay \<Rightarrow> bytes \<Rightarrow> pystr \<times> int \<Rightarrow> udp_relay" where
  "datagram_received r data addr =
     (if length (uplink_q r) < udp_queue_maxsize then r\<lparr>uplink_q := uplink_q r @ [(data, addr)]\<rparr> else r)"

definition handle_uplink ::
    "bool \<Rightarrow> rat \<Rightarrow> udp_relay \<Rightarrow> bytes \<Rightarrow> pystr \<times> int \<Rightarrow> udp_relay \<times> udp_out list" where
  "handle_uplink ok now r data addr =
     (let r = r\<lparr>socks_client_addr := Some addr\<rparr> in
      if length data > udp_max_packet then (r, [])
      else case parse_socks5_udp_header data of
        None \<Rightarrow> (r, [])
      | Some (target_host, target_port, payload) \<Rightarrow>
         (let r = r\<lparr>last_activity := now\<rparr> in
          if via_tunnel r then
            (case pack_udp_frame target_host target_port payload of
               Inl e \<Rightarrow> (r\<lparr>stopped := True\<rparr>, [])
             | Inr f \<Rightarrow> if ok then (r, [TunnelSend f, CountUp (length payload)])
                 else (r\<lparr>stopped := True\<rparr>, []))
          else if \<not> is_ip_literal target_host then (r, [])
          else if ok then (r, [DirectSend (normalize_addr_for_dualstack target_host target_port) payload,
                               CountUp (length payload)])
          else (r, [])))"

text \<open>\<open>_uplink_consumer\<close> takes one datagram off the queue.\<close>

definition uplink_consume :: "bool \<Rightarrow> rat \<Rightarrow> udp_relay \<Rightarrow> udp_relay \<times> udp_out list" where
  "uplink_consume ok now r = (case uplink_q r of
      [] \<Rightarrow> (r, [])
    | (data, addr) # q \<Rightarrow> handle_uplink ok now (r\<lparr>uplink_q := q\<rparr>) data addr)"

definition send_to_socks_client :: "bool \<Rightarrow> udp_relay \<Rightarrow> frame \<Rightarrow> udp_out list" where
  "send_to_socks_client ok r f = (case f of (src_host, src_port, payload) \<Rightarrow>
     (case socks_client_addr r of None \<Rightarrow> []
      | Some a \<Rightarrow> (case build_socks5_udp_header src_host src_port of
          Inl e \<Rightarrow> []
        | Inr h \<Rightarrow> if ok then [ClientSend a (h @ payload), CountDown (length payload)] else [])))"

text \<open>\<open>_tunnel_to_local\<close> handles one received chunk; the empty chunk (close) stops the relay.\<close>

definition tunnel_to_local :: "bool \<Rightarrow> rat \<Rightarrow> udp_relay \<Rightarrow> bytes \<Rightarrow> udp_relay \<times> udp_out list" where
  "tunnel_to_local ok now r chunk =
     (if chunk = [] then (r\<lparr>stopped := True\<rparr>, [])
      else let (fs, buf) = frames (feed (frame_buf r) chunk)
        in (r\<lparr>frame_buf := buf, last_activity := (if fs = [] then last_activity r else now)\<rparr>,
            concat (map (send_to_socks_client ok r) fs)))"

definition on_direct_reply :: "bool \<Rightarrow> rat \<Rightarrow> udp_relay \<Rightarrow> pystr \<times> int \<Rightarrow> bytes \<Rightarrow> udp_relay \<times> udp_out list" where
  "on_direct_reply ok now r addr data =
     (r\<lparr>last_activity := now\<rparr>, send_to_socks_client ok r (unmap_v4 (fst addr), snd addr, data))"

definition idle_check :: "rat \<Rightarrow> rat \<Rightarrow> udp_relay \<Rightarrow> udp_relay" where
  "idle_check idle_timeout now r =
     (if now - last_activity r > idle_timeout then r\<lparr>stopped := True\<rparr> else r)"

section \<open>The server side\<close>

text \<open>
  \<open>_tunnel_to_target\<close> on one frame, and \<open>_downlink_consumer\<close> on one reply; the Boolean of the latter
  is whether the tunnel stays up (\<open>stop\<close> not set).
\<close>

definition frame_to_target :: "bool \<Rightarrow> frame \<Rightarrow> udp_out list" where
  "frame_to_target ok f = (case f of (tgt_host, tgt_port, payload) \<Rightarrow>
     if length payload > udp_max_packet then []
     else if \<not> is_ip_literal tgt_host then []
     else if ok then [DirectSend (normalize_addr_for_dualstack tgt_host tgt_port) payload,
                      CountUp (length payload)]
     else [])"

definition tunnel_to_target :: "(frame \<Rightarrow> bool) \<Rightarrow> bytes \<Rightarrow> bytes \<Rightarrow> bytes \<times> udp_out list" where
  "tunnel_to_target ok buf chunk = (let (fs, buf') = frames (feed buf chunk)
     in (buf', concat (map (\<lambda>f. frame_to_target (ok f) f) fs)))"

definition downlink_consume :: "bool \<Rightarrow> bytes \<Rightarrow> pystr \<times> int \<Rightarrow> bool \<times> udp_out list" where
  "downlink_consume ok data addr =
     (case pack_udp_frame (unmap_v4 (fst addr)) (snd addr) data of
        Inl e \<Rightarrow> (False, [])
      | Inr f \<Rightarrow> if ok then (True, [TunnelSend f, CountDown (length data)]) else (False, []))"

text \<open>A run of the server's tunnel loop over the received chunks.\<close>

fun tunnel_run :: "(frame \<Rightarrow> bool) \<Rightarrow> bytes \<Rightarrow> bytes list \<Rightarrow> udp_out list" where
  "tunnel_run ok buf [] = []"
| "tunnel_run ok buf (c # cs) =
     (let (buf', out) = tunnel_to_target ok buf c in out @ tunnel_run ok buf' cs)"

lemma tunnel_run_feed_all:
  "tunnel_run ok buf cs = concat (map (\<lambda>f. frame_to_target (ok f) f) (fst (feed_all buf cs)))"
  by (induction cs arbitrary: buf) (auto simp: tunnel_to_target_def case_prod_beta)

section \<open>Sizes\<close>

lemma pack_udp_frame_ascii_iff:
  assumes "\<forall>c \<in> set h. c < 128" "length h < 256" "0 \<le> p" "p < 65536"
  shows "(\<exists>f. pack_udp_frame h p d = Inr f) \<longleftrightarrow> length h + 3 + length d < 65536"
  using assms utf8_encode_ascii[OF assms(1)]
  by (auto simp: pack_udp_frame_def pack_address_def pack_port_def pack_be_def Let_def)

lemma from_be_word: "length bs \<le> 2 \<Longrightarrow> from_be bs < 65536"
  using from_be_less[of bs] power_increasing[of "length bs" 2 "256::nat"] by simp

lemma parse_header_cases:
  assumes "parse_socks5_udp_header data = Some (h, p, d)"
  obtains (v4) "data ! 3 = 1" "10 \<le> length data" "h = ntoa (slice 4 8 data)" "d = drop 10 data"
      "0 \<le> p" "p < 65536"
    | (domain) n where "data ! 3 = 3" "n < 256" "7 + n \<le> length data"
      "h = ascii_replace (slice 5 (5 + n) data)" "d = drop (7 + n) data" "0 \<le> p" "p < 65536"
    | (v6) "data ! 3 = 4" "22 \<le> length data" "h = ntop6 (slice 4 20 data)" "d = drop 22 data"
      "0 \<le> p" "p < 65536"
proof -
  have port: "from_be (slice a b data) < 65536" if "b - a \<le> 2" for a b
    by (rule from_be_word) (use that in simp)
  consider "data ! 3 = 1" | "data ! 3 = 3" | "data ! 3 = 4"
    using assms by (auto simp: parse_socks5_udp_header_def Let_def split: if_splits)
  then show thesis
  proof cases
    case 1
    then show thesis
      using assms v4 port[of 10 8]
      by (auto simp: parse_socks5_udp_header_def Let_def split: if_splits)
  next
    case 2
    show thesis
      by (rule domain[of "unat (data ! 4)"])
        (use assms 2 port[of "7 + unat (data ! 4)" "5 + unat (data ! 4)"] in
          \<open>auto simp: parse_socks5_udp_header_def Let_def add.commute split: if_splits\<close>)
  next
    case 3
    then show thesis
      using assms v6 port[of 22 20]
      by (auto simp: parse_socks5_udp_header_def Let_def split: if_splits)
  qed
qed

section \<open>Properties\<close>

text \<open>Every datagram of at most 65507 bytes that a SOCKS5 client hands to the relay fits one tunnel
  frame, provided a domain in its header is ASCII: a working tunnel receives it and the relay goes on.\<close>

theorem uplink_fits_frame:
  assumes "parse_socks5_udp_header data = Some (h, p, d)" "length data \<le> udp_max_packet"
    and "\<forall>c \<in> set h. c < 128"
  shows "\<exists>f. pack_udp_frame h p d = Inr f
    \<and> snd (handle_uplink True now (new_udp_relay True t0) data addr) = [TunnelSend f, CountUp (length d)]
    \<and> \<not> stopped (fst (handle_uplink True now (new_udp_relay True t0) data addr))"
proof -
  have "length h < 256 \<and> 0 \<le> p \<and> p < 65536 \<and> length h + 3 + length d < 65536"
    using assms(1)
  proof (cases rule: parse_header_cases)
    case v4
    then show ?thesis using assms(2) ntoa_length[of "slice 4 8 data"] by (simp add: udp_max_packet_def)
  next
    case (domain n)
    then show ?thesis using assms(2) by (simp add: udp_max_packet_def)
  next
    case v6
    then show ?thesis using assms(2) ntop6_length[of "slice 4 20 data"] by (simp add: udp_max_packet_def)
  qed
  then obtain f where "pack_udp_frame h p d = Inr f"
    using pack_udp_frame_ascii_iff[OF assms(3)] by blast
  then show ?thesis
    using assms by (simp add: handle_uplink_def new_udp_relay_def Let_def)
qed

definition dns_datagram :: bytes where
  "dns_datagram = [0, 0, 0, 3, 1, 120, 0, 53, 7, 7]"

lemma parse_dns_datagram: "parse_socks5_udp_header dns_datagram = Some (U ''x'', 53, [7, 7])"
  by (simp add: parse_socks5_udp_header_def dns_datagram_def slice_def ascii_replace_def U_def from_be_def)

theorem uplink_fits_frame_witness:
  "\<exists>f. pack_udp_frame (U ''x'') 53 [7, 7] = Inr f
    \<and> snd (handle_uplink True 5 (new_udp_relay True 0) dns_datagram (U ''c'', 9)) = [TunnelSend f, CountUp 2]
    \<and> \<not> stopped (fst (handle_uplink True 5 (new_udp_relay True 0) dns_datagram (U ''c'', 9)))"
  using uplink_fits_frame[OF parse_dns_datagram, of 5 0 "(U ''c'', 9)"]
  by (simp add: dns_datagram_def udp_max_packet_def U_def numeral_2_eq_2)

text \<open>A domain of 86 or more non-ASCII bytes makes the uplink stop the relay: every such byte
  decodes to U+FFFD, whose UTF-8 form has three bytes, and the host no longer fits one length byte.\<close>

theorem uplink_stops_on_non_ascii_domain:
  assumes "86 \<le> n" "n < 256" "length data = 7 + n" "length data \<le> udp_max_packet"
    and "data = [0, 0, 0, 3, of_nat n] @ replicate n 0xFF @ [0, 53]"
  shows "stopped (fst (handle_uplink ok now (new_udp_relay True t0) data addr))"
proof -
  have parsed: "parse_socks5_udp_header data = Some (replicate n 0xFFFD, 53, [])"
    using parse_header_3[of "replicate n 0xFF" 53 "[]"] assms(2)
    by (simp add: assms(5) ascii_replace_def to_be_numeral)
  have "utf8_encode (replicate m 0xFFFD) = Inr (concat (replicate m [0xEF, 0xBF, 0xBD]))" for m
    by (induction m) (simp_all add: utf8_cp_def)
  moreover have "length (concat (replicate m [0xEF, 0xBF, 0xBD :: byte])) = 3 * m" for m
    by (induction m) simp_all
  ultimately have "pack_address (replicate n 0xFFFD) 53 = Inl StructError"
    using assms(1) by (simp add: pack_address_def pack_be_def)
  then show ?thesis
    using parsed assms(4) by (simp add: handle_uplink_def new_udp_relay_def Let_def pack_udp_frame_def)
qed

theorem uplink_stops_on_non_ascii_domain_witness:
  "stopped (fst (handle_uplink True 1 (new_udp_relay True 0)
     ([0, 0, 0, 3, of_nat 90] @ replicate 90 0xFF @ [0, 53]) (U ''c'', 9)))"
  by (rule uplink_stops_on_non_ascii_domain[of 90]) (simp_all add: udp_max_packet_def)

text \<open>The server's UDP loop stays up on a reply exactly when the source address and the payload
  fit the 16-bit frame length, which a reply over IPv6 near 65507 bytes need not.\<close>

theorem downlink_survives_iff:
  assumes "unmap_v4 (fst addr) = h" "\<forall>c \<in> set h. c < 128" "length h < 256"
    and "0 \<le> snd addr" "snd addr < 65536"
  shows "fst (downlink_consume True data addr) \<longleftrightarrow> length h + 3 + length data < 65536"
  using pack_udp_frame_ascii_iff[OF assms(2-5), of data] assms(1)
  by (auto simp: downlink_consume_def split: sum.split)

theorem downlink_survives_iff_witness:
  "\<not> fst (downlink_consume True (replicate 65507 0) (replicate 26 97, 53))"
proof -
  have "unmap_v4 (replicate 26 97) = replicate 26 97"
    by (simp add: unmap_v4_def split: option.split ip_addr.split) (simp add: ip_address_def parse_v6_def strip_scope_def split: option.splits)
  then show ?thesis using downlink_survives_iff[of "(replicate 26 97, 53)" "replicate 26 97"] by simp
qed

text \<open>The server forwards to a target exactly what the clients packed: for any cut of the tunnel
  stream into chunks the datagrams sent are those of the packed frames, in order, with the frames
  addressed to a domain or larger than a UDP datagram dropped.\<close>

theorem server_forwards_packed_frames:
  assumes "pack_all fs = Inr bs" "concat cs = bs"
  shows "tunnel_run ok [] cs = concat (map (\<lambda>f. frame_to_target (ok f) f) fs)"
  using assms feed_all_concat[of "[]" cs] frames_pack_all[OF assms(1)]
  by (simp add: tunnel_run_feed_all frames_short)

theorem server_forwards_packed_frames_witness:
  "tunnel_run (\<lambda>_. True) [] [[0, 6, 1, 104], [0, 53, 9, 8]] = []"
  using server_forwards_packed_frames[of "[(U ''h'', 53, [9, 8])]" "[0, 6, 1, 104, 0, 53, 9, 8]"
      "[[0, 6, 1, 104], [0, 53, 9, 8]]" "\<lambda>_. True"]
  by (simp add: pack_udp_frame_def pack_address_def pack_port_def eval_be U_def utf8_cp_def frame_to_target_def
      is_ip_literal_def ip_address_def parse_v4_def parse_v6_def strip_scope_def octet4_def is_digit_def
      partition1_def)

end
