(* ===== verification/Socks5.thy ===== *)
theory Socks5
  imports Sniffer Udp_Relay
begin

text \<open>
  The SOCKS5 server handshake (core/socks5.py), over any reader: method negotiation, the request with
  its three address types, and the replies. A write is appended to the connection's output.
\<close>

datatype socks_cmd = Tcp | Udp

definition reply_error :: "byte \<Rightarrow> ('s \<times> bytes, unit) reading" where
  "reply_error rep = writeR [5, rep, 0, 1, 0, 0, 0, 0, 0, 0]"

definition read_socks_host :: "(nat \<Rightarrow> ('s, bytes) reading) \<Rightarrow> byte \<Rightarrow> ('s \<times> bytes, pystr option) reading" where
  "read_socks_host rx atyp =
     (if atyp = 1 then bindR (onR (rx 4)) (\<lambda>a. retR (Some (join_with [46] (map (\<lambda>b. show_nat (unat b)) a))))
      else if atyp = 3 then
        bindR (onR (rx 1)) (\<lambda>l. bindR (onR (rx (unat (l ! 0)))) (\<lambda>h.
        bindR (liftR (utf8_decode h)) (\<lambda>host. retR (Some host))))
      else if atyp = 4 then bindR (onR (rx 16)) (\<lambda>a. retR (Some (ntop6 a)))
      else retR None)"

definition parse_socks5_request ::
    "(nat \<Rightarrow> ('s, bytes) reading) \<Rightarrow> ('s \<times> bytes, (socks_cmd \<times> pystr \<times> nat) option) reading" where
  "parse_socks5_request rx =
     bindR (onR (rx 2)) (\<lambda>data.
     if data ! 0 \<noteq> 5 then retR None
     else bindR (onR (rx (unat (data ! 1)))) (\<lambda>methods.
     bindR (writeR [5, 0]) (\<lambda>_.
     bindR (onR (rx 4)) (\<lambda>header.
     let cmd = header ! 1; atyp = header ! 3 in
     if header ! 0 \<noteq> 5 then retR None
     else if cmd \<noteq> 1 \<and> cmd \<noteq> 3 then bindR (reply_error 7) (\<lambda>_. retR None)
     else bindR (read_socks_host rx atyp) (\<lambda>h.
       case h of None \<Rightarrow> retR None
       | Some host \<Rightarrow> bindR (onR (rx 2)) (\<lambda>port_bytes.
           let port = from_be port_bytes in
           if cmd = 1 then bindR (writeR [5, 0, 0, 1, 0, 0, 0, 0, 0, 0]) (\<lambda>_. retR (Some (Tcp, host, port)))
           else retR (Some (Udp, host, port))))))))"

definition reply_udp_associate :: "pystr \<Rightarrow> int \<Rightarrow> py_error + bytes" where
  "reply_udp_associate bnd_host bnd_port =
     (let addr = (case aton bnd_host of Some a \<Rightarrow> [1] @ a
         | None \<Rightarrow> (case pton6 bnd_host of Some a6 \<Rightarrow> [4] @ a6
           | None \<Rightarrow> let hb = ascii_encode_replace bnd_host in [3] @ [of_nat (length hb mod 256)] @ hb))
      in bindE (pack_port bnd_port) (\<lambda>pb. Inr ([5, 0, 0] @ addr @ pb)))"

section \<open>The parser does not depend on the reader\<close>

context stream_reader
begin

lemma read_socks_host_sim [sim_intros]:
  "sim (map_prod view id) (read_socks_host rx atyp) (read_socks_host pure_readexactly atyp)"
  unfolding read_socks_host_def by (intro sim_intros rx_sim)

lemma parse_sim:
  "sim (map_prod view id) (parse_socks5_request rx) (parse_socks5_request pure_readexactly)"
  unfolding parse_socks5_request_def reply_error_def Let_def
  by (intro sim_intros rx_sim) (auto split: option.split intro!: sim_intros rx_sim)

end

section \<open>Requests on the reference reader\<close>

text \<open>What a client sends: the methods it offers, then the request.\<close>

datatype socks_addr = A4 bytes | AName bytes | A6 bytes

fun addr_bytes :: "socks_addr \<Rightarrow> bytes" where
  "addr_bytes (A4 a) = 1 # a"
| "addr_bytes (AName h) = 3 # of_nat (length h) # h"
| "addr_bytes (A6 a) = 4 # a"

fun addr_ok :: "socks_addr \<Rightarrow> pystr \<Rightarrow> bool" where
  "addr_ok (A4 a) h \<longleftrightarrow> length a = 4 \<and> h = ntoa a"
| "addr_ok (AName n) h \<longleftrightarrow> length n < 256 \<and> utf8_decode n = Inr h"
| "addr_ok (A6 a) h \<longleftrightarrow> length a = 16 \<and> h = ntop6 a"

definition socks_bytes :: "bytes \<Rightarrow> byte \<Rightarrow> socks_addr \<Rightarrow> nat \<Rightarrow> bytes" where
  "socks_bytes methods cmd a port = [5, of_nat (length methods)] @ methods @ [5, cmd, 0]
     @ addr_bytes a @ to_be 2 port"

lemma bind_read: "length a = n \<Longrightarrow> bindR (onR (pure_readexactly n)) f (a @ b, out) = f a (b, out)"
  by (simp add: bindR_def pure_readexactly_prefix)

lemma bind_write: "bindR (writeR w) f (s, out) = f () (s, out @ w)"
  by (simp add: bindR_def)

lemma bind_step: "m s = (Inr x, s') \<Longrightarrow> bindR m f s = f x s'"
  by (simp add: bindR_def)

lemma read_host_pure:
  assumes "addr_ok a h"
  shows "read_socks_host pure_readexactly (hd (addr_bytes a)) (tl (addr_bytes a) @ rest, out) = (Inr (Some h), (rest, out))"
proof (cases a)
  case (A4 x)
  then show ?thesis
    using assms by (simp add: read_socks_host_def ntoa_def bind_read)
next
  case (AName n)
  have "bindR (onR (pure_readexactly 1)) f (of_nat (length n) # n @ rest, out) = f [of_nat (length n)] (n @ rest, out)"
    for f :: "bytes \<Rightarrow> (bytes \<times> bytes, pystr option) reading"
    using bind_read[of "[of_nat (length n)]" 1 f "n @ rest" out] by simp
  moreover have "unat (of_nat (length n) :: byte) = length n"
    using assms AName by (simp add: unat_of_nat)
  ultimately show ?thesis
    using assms AName by (simp add: read_socks_host_def bind_read) (simp add: bindR_apply)
next
  case (A6 x)
  then show ?thesis
    using assms by (simp add: read_socks_host_def bind_read)
qed

lemma parse_pure:
  assumes "length methods < 256" "cmd = 1 \<or> cmd = 3" "addr_ok a h" "port < 65536"
  shows "parse_socks5_request pure_readexactly (socks_bytes methods cmd a port @ rest, out) =
    (Inr (Some (if cmd = 1 then Tcp else Udp, h, port)),
     (rest, out @ [5, 0] @ (if cmd = 1 then [5, 0, 0, 1, 0, 0, 0, 0, 0, 0] else [])))"
proof -
  obtain t where a: "addr_bytes a = hd (addr_bytes a) # t" and t: "t = tl (addr_bytes a)"
    by (cases a) auto
  let ?at = "hd (addr_bytes a)"
  have s: "socks_bytes methods cmd a port @ rest =
      [5, of_nat (length methods)] @ methods @ [5, cmd, 0, ?at] @ t @ to_be 2 port @ rest"
    using a by (simp add: socks_bytes_def)
  have m: "unat (of_nat (length methods) :: byte) = length methods"
    using assms(1) by (simp add: unat_of_nat)
  have p: "from_be (to_be 2 port) = port" using assms(4) by simp
  have h: "bindR (read_socks_host pure_readexactly ?at) f (t @ r, o') = f (Some h) (r, o')" for f r o'
    by (rule bind_step) (use read_host_pure[OF assms(3)] t in simp)
  have 1: "bindR (onR (pure_readexactly 2)) f ([5, of_nat (length methods)] @ r, o') =
      f [5, of_nat (length methods)] (r, o')" for f r o'
    by (rule bind_read) simp
  have 2: "bindR (onR (pure_readexactly 4)) f ([5, cmd, 0, ?at] @ r, o') = f [5, cmd, 0, ?at] (r, o')" for f r o'
    by (rule bind_read) simp
  have c: "cmd \<noteq> 1 \<Longrightarrow> cmd = 3" using assms(2) by blast
  show ?thesis
    unfolding s parse_socks5_request_def 1
    by (simp add: m p 2 h bind_read bind_write Let_def c del: append_Cons append_Nil) (auto dest: c)
qed

section \<open>Properties\<close>

text \<open>A SOCKS5 client's request is understood whatever part of it was read ahead and put back and
  however the rest arrives: command, host and port are the ones sent, the two replies are the protocol's,
  and the next byte read is the first after the request.\<close>

theorem socks5_request_parsed:
  assumes "p @ concat r = socks_bytes methods cmd a port @ rest"
    and "length methods < 256" "cmd = 1 \<or> cmd = 3" "addr_ok a h" "port < 65536"
  shows "fst (parse_socks5_request pr_readexactly (new_prefixed r p, [])) =
      Inr (Some (if cmd = 1 then Tcp else Udp, h, port))
    \<and> map_prod pr_abs id (snd (parse_socks5_request pr_readexactly (new_prefixed r p, []))) =
      (rest, [5, 0] @ (if cmd = 1 then [5, 0, 0, 1, 0, 0, 0, 0, 0, 0] else []))"
proof -
  have "map_prod pr_abs id (new_prefixed r p, []) = (socks_bytes methods cmd a port @ rest, [])"
    using assms(1) by simp
  then show ?thesis
    using simD[OF pre.parse_sim, of "(new_prefixed r p, [])"] parse_pure[OF assms(2-5), of rest "[]"] by simp
qed

theorem socks5_request_parsed_witness:
  "fst (parse_socks5_request pr_readexactly (new_prefixed [[1, 0, 5, 1, 0, 3], [1, 120, 1, 187, 22]] [5], [])) =
    Inr (Some (Tcp, U ''x'', 443))"
  using socks5_request_parsed[of "[5]" "[[1, 0, 5, 1, 0, 3], [1, 120, 1, 187, 22]]" "[0]" 1 "AName [120]" 443
      "[22]" "U ''x''"]
  by (simp add: socks_bytes_def utf8_decode_def utf8_next_def U_def to_be_numeral)

end
