(* ===== verification/Http_Inbound.thy ===== *)
theory Http_Inbound
  imports Socks5 Dns_Upstream
begin

text \<open>
  \<open>core/http_inbound.py\<close>: the HTTP proxy entry (CONNECT and absolute-URL forwarding) and the entry that tells
  SOCKS5 from HTTP by the first byte.  The reader is a parameter, its \<open>readuntil\<close> being \<open>ru\<close>; writes
  succeed.  A result says what is dispatched: the target and, for forwarding, the rewritten head that is put
  in front of what the reader still holds.
\<close>

section \<open>Requests\<close>

definition crlf :: bytes where "crlf = [13, 10]"

datatype http_done =
    HttpClosed
  | HttpConnect pystr int
  | HttpForward pystr int bytes

definition send_status :: "nat \<Rightarrow> string \<Rightarrow> bytes" where
  "send_status code reason = B ''HTTP/1.1 '' @ map of_nat (show_nat code) @ [32] @ B reason @ crlf
     @ B ''Connection: close'' @ crlf @ B ''Content-Length: 0'' @ crlf @ crlf"

text \<open>Answer and close.\<close>

definition refuse :: "nat \<Rightarrow> string \<Rightarrow> 'a \<Rightarrow> ('s \<times> bytes, 'a) reading" where
  "refuse code reason x = bindR (writeR (send_status code reason)) (\<lambda>_. retR x)"

definition attempt :: "('s, 'a) reading \<Rightarrow> ('s, py_error + 'a) reading" where
  "attempt m s = (case m s of (r, s') \<Rightarrow> (Inr r, s'))"

text \<open>\<open>_parse_authority\<close>: the text before the port of \<open>host:port\<close> and \<open>[v6]:port\<close>.\<close>

definition authority_port :: "pystr \<Rightarrow> pystr \<Rightarrow> (pystr \<times> int) option" where
  "authority_port host port_s = (case py_int 10 port_s of None \<Rightarrow> None
     | Some port \<Rightarrow> if host = [] \<or> \<not> (1 \<le> port \<and> port \<le> 65535) then None else Some (host, port))"

definition parse_authority :: "pystr \<Rightarrow> (pystr \<times> int) option" where
  "parse_authority target =
     (let t = py_strip target in
      if prefix [91] t then
        (case find_sub [93] t of
           None \<Rightarrow> None
         | Some e \<Rightarrow> if \<not> prefix [58] (drop (e + 1) t) then None
             else authority_port (slice 1 e t) (drop (e + 2) t))
      else case rpartition1 58 t of
        None \<Rightarrow> None
      | Some (host, port_s) \<Rightarrow> authority_port host port_s)"

definition max_request_line :: nat where "max_request_line = 8192"
definition max_header_line :: nat where "max_header_line = 8192"
definition max_headers :: nat where "max_headers = 100"

definition rstrip_crlf :: "pystr \<Rightarrow> pystr" where
  "rstrip_crlf = rdropWhile (\<lambda>c. c = 13 \<or> c = 10)"

definition request_parts :: "bytes \<Rightarrow> (pystr \<times> pystr \<times> pystr) option" where
  "request_parts line = (case ascii_decode line of
       Inl e \<Rightarrow> None
     | Inr s \<Rightarrow> (case split_max 32 2 (rstrip_crlf s) of
           [m, t, v] \<Rightarrow> Some (m, t, v)
         | _ \<Rightarrow> None))"

definition read_request_line ::
    "(bytes \<Rightarrow> ('s, bytes) reading) \<Rightarrow> ('s \<times> bytes, (pystr \<times> pystr \<times> pystr) option) reading" where
  "read_request_line ru =
     bindR (attempt (onR (ru crlf))) (\<lambda>r. case r of
       Inl LimitOverrun \<Rightarrow> refuse 414 ''Request-URI Too Long'' None
     | Inl e \<Rightarrow> retR None
     | Inr line \<Rightarrow>
         if max_request_line < length line then refuse 414 ''Request-URI Too Long'' None
         else (case request_parts line of
             None \<Rightarrow> refuse 400 ''Bad Request'' None
           | Some (m, t, v) \<Rightarrow> if prefix (U ''HTTP/1.'') v then retR (Some (m, t, v))
               else refuse 505 ''HTTP Version Not Supported'' None))"

text \<open>The header loop; the number counts the turns left.\<close>

fun read_headers ::
    "(bytes \<Rightarrow> ('s, bytes) reading) \<Rightarrow> nat \<Rightarrow> (pystr \<times> pystr) list
      \<Rightarrow> ('s \<times> bytes, (pystr \<times> pystr) list option) reading" where
  "read_headers ru 0 hs = refuse 431 ''Too many headers'' None"
| "read_headers ru (Suc k) hs =
     bindR (attempt (onR (ru crlf))) (\<lambda>r. case r of
       Inl e \<Rightarrow> retR None
     | Inr line \<Rightarrow>
         if line = crlf then retR (Some hs)
         else if max_header_line < length line then refuse 431 ''Request Header Fields Too Large'' None
         else (case partition1 58 (rstrip_crlf (latin1_decode line)) of
             None \<Rightarrow> refuse 400 ''Malformed header'' None
           | Some (name, v) \<Rightarrow>
               if py_strip name = [] then refuse 400 ''Empty header name'' None
               else read_headers ru k (hs @ [(py_strip name, py_strip v)])))"

section \<open>Forwarding\<close>

record forward_url =
  fw_host :: "pystr option"
  fw_port :: "py_error + int"
  fw_path :: pystr

text \<open>\<open>urlparse\<close> of the target, and the port and path made of it.\<close>

definition parse_forward :: "(pystr \<Rightarrow> bool) \<Rightarrow> pystr \<Rightarrow> py_error + forward_url" where
  "parse_forward netloc_ok target =
     (let s = filter (\<lambda>c. \<not> url_remove c) target;
          https = prefix (U ''https://'') (py_lower s);
          rest = drop (if https then 8 else 7) s;
          query = after 63 (cut_at 35 (drop (length (takeWhile (\<lambda>c. c \<notin> {47, 63, 35}) rest)) rest))
      in bindE (url_rest netloc_ok rest) (\<lambda>u. Inr \<lparr>
           fw_host = u_hostname u,
           fw_port = bindE (u_port u) (\<lambda>p. Inr (case p of
               Some n \<Rightarrow> if n = 0 then (if https then 443 else 80) else n
             | None \<Rightarrow> if https then 443 else 80)),
           fw_path = (if u_path u = [] then [47] else u_path u) @ (if query = [] then [] else 63 # query) \<rparr>))"

definition proxy_header :: "pystr \<times> pystr \<Rightarrow> bool" where
  "proxy_header h \<longleftrightarrow> prefix (U ''proxy-'') (py_lower (fst h))"

definition rewritten_head :: "pystr \<Rightarrow> pystr \<Rightarrow> pystr \<Rightarrow> (pystr \<times> pystr) list \<Rightarrow> py_error + bytes" where
  "rewritten_head m path v hs =
     bindE (ascii_encode (m @ [32] @ path @ [32] @ v @ [13, 10])) (\<lambda>l.
     bindE (latin1_encode (concat (map (\<lambda>(k, x). k @ [58, 32] @ x @ [13, 10])
        (filter (\<lambda>h. \<not> proxy_header h) hs)))) (\<lambda>h. Inr (l @ h @ crlf)))"

text \<open>\<open>handle_http_connection\<close> up to its call of \<open>_dispatch\<close>.\<close>

definition handle_http ::
    "(pystr \<Rightarrow> bool) \<Rightarrow> (bytes \<Rightarrow> ('s, bytes) reading) \<Rightarrow> ('s \<times> bytes, http_done) reading" where
  "handle_http netloc_ok ru =
     bindR (read_request_line ru) (\<lambda>r. case r of
       None \<Rightarrow> retR HttpClosed
     | Some (m, target, version) \<Rightarrow>
     bindR (read_headers ru (max_headers + 1) []) (\<lambda>h. case h of
       None \<Rightarrow> retR HttpClosed
     | Some headers \<Rightarrow>
         (let m = py_upper m; low = py_lower target in
          if m = U ''CONNECT'' then
            (case parse_authority target of
               None \<Rightarrow> refuse 400 ''CONNECT target must be host:port'' HttpClosed
             | Some (host, port) \<Rightarrow>
                 bindR (writeR (B ''HTTP/1.1 200 Connection established'' @ crlf @ crlf)) (\<lambda>_.
                 retR (HttpConnect host port)))
          else if \<not> prefix (U ''http://'') low \<and> \<not> prefix (U ''https://'') low then
            refuse 400 ''HTTP forward requires absolute URL'' HttpClosed
          else bindR (liftR (parse_forward netloc_ok target)) (\<lambda>u.
            case fw_host u of
              None \<Rightarrow> refuse 400 ''Invalid URL host'' HttpClosed
            | Some host \<Rightarrow>
                bindR (liftR (fw_port u)) (\<lambda>port.
                bindR (liftR (rewritten_head m (fw_path u) version headers)) (\<lambda>head.
                  retR (HttpForward host port head)))))))"

section \<open>One port for both protocols\<close>

definition http_method_first :: "byte list" where
  "http_method_first = B ''CGPHDOTAcgphdota''"

datatype mixed_done =
    MixedClosed
  | MixedSocks "(py_error + (socks_cmd \<times> pystr \<times> nat) option) \<times> prefixed \<times> bytes"
  | MixedHttp "(py_error + http_done) \<times> prefixed \<times> bytes"

definition tls_hint :: bytes where
  "tls_hint = B ''HTTP/1.1 400 Bad Request'' @ crlf @ B ''Content-Type: text/plain; charset=utf-8'' @ crlf
     @ B ''Content-Length: 78'' @ crlf @ B ''Connection: close'' @ crlf @ crlf
     @ B ''Proxy does not terminate TLS. Use http:// or socks5:// scheme, not https://''"

definition handle_mixed ::
    "(pystr \<Rightarrow> bool) \<Rightarrow> nat \<Rightarrow> bytes list \<times> bytes \<Rightarrow> mixed_done \<times> bytes" where
  "handle_mixed netloc_ok limit conn =
     (case raw_readexactly 1 (fst conn) of
        (Inl e, s) \<Rightarrow> (MixedClosed, snd conn)
      | (Inr first, s) \<Rightarrow>
          (let p = new_prefixed s first in
           if first = [5] then (MixedSocks (parse_socks5_request pr_readexactly (p, snd conn)), snd conn)
           else if first ! 0 \<in> set http_method_first then
             (MixedHttp (handle_http netloc_ok (pr_readuntil limit) (p, snd conn)), snd conn)
           else if first = [0x16] then (MixedClosed, snd conn @ tls_hint)
           else (MixedClosed, snd conn)))"


section \<open>The contract of a line reader for CRLF lines\<close>

locale crlf_reader =
  fixes view :: "'s \<Rightarrow> bytes" and ru :: "bytes \<Rightarrow> ('s, bytes) reading" and ready :: "'s \<Rightarrow> bool" and limit :: nat
  assumes ru_crlf: "ready s \<Longrightarrow> view s = a @ crlf @ b \<Longrightarrow> 13 \<notin> set a \<Longrightarrow> length a \<le> limit
    \<Longrightarrow> \<exists>s'. ru crlf s = (Inr (a @ crlf), s') \<and> ready s' \<and> view s' = b"

lemma find_crlf: "13 \<notin> set a \<Longrightarrow> find_sub crlf (a @ crlf @ b) = Some (length a)"
  by (induction a) (auto simp: crlf_def)

interpretation pure_crlf: crlf_reader "\<lambda>s. s" "pure_readuntil limit" "\<lambda>s. True" limit
  by unfold_locales (simp add: pure_readuntil_def find_crlf)

interpretation raw_crlf: crlf_reader concat "raw_readuntil limit" "\<lambda>s. True" limit
  by unfold_locales (simp add: raw_readuntil_def find_crlf)

text \<open>A prefixed reader keeps it while its prefix is used up or is one byte other than CR.\<close>

definition one_byte_left :: "prefixed \<Rightarrow> bool" where
  "one_byte_left p \<longleftrightarrow> pr_remaining p = [] \<or> (\<exists>b. pr_remaining p = [b] \<and> b \<noteq> 13)"

lemma find_crlf_None: "13 \<notin> set a \<Longrightarrow> find_sub crlf a = None"
  by (induction a) (auto simp: crlf_def)

lemma prefixed_crlf:
  assumes "one_byte_left p" "pr_abs p = a @ crlf @ b" "13 \<notin> set a" "length a \<le> limit"
  shows "\<exists>p'. pr_readuntil limit crlf p = (Inr (a @ crlf), p') \<and> one_byte_left p' \<and> pr_abs p' = b"
proof -
  have r: "pr_remaining p = take (length (pr_remaining p)) a" "length (pr_remaining p) \<le> length a"
    "concat (pr_reader p) = drop (length (pr_remaining p)) a @ crlf @ b" "13 \<notin> set (pr_remaining p)"
    using assms(1,2) by (cases a; auto simp: one_byte_left_def pr_abs_def crlf_def)+
  have ov: "overlap (pr_remaining p) crlf = 0"
    using assms(1) by (auto simp: one_byte_left_def overlap_def crlf_def)
  let ?i = "length a - length (pr_remaining p)"
  have "13 \<notin> set (drop (length (pr_remaining p)) a)" using assms(3) by (auto dest: in_set_dropD)
  then have f: "find_sub crlf (concat (pr_reader p)) = Some ?i" unfolding r(3) by (subst find_crlf) simp_all
  have "raw_readuntil limit crlf (pr_reader p) =
      (Inr (drop (length (pr_remaining p)) a @ crlf), drop_chunks (?i + length crlf) (pr_reader p))"
    using f assms(4) by (simp add: raw_readuntil_def r(3))
  then have "pr_readuntil limit crlf p = (Inr (pr_remaining p @ drop (length (pr_remaining p)) a @ crlf),
      p\<lparr> pr_pos := length (pr_prefix p), pr_reader := drop_chunks (?i + length crlf) (pr_reader p) \<rparr>)"
    using ov find_crlf_None[OF r(4)] by (simp add: pr_readuntil_def Let_def bindR_apply)
  moreover have "pr_remaining p @ drop (length (pr_remaining p)) a = a" using r(1) by (metis append_take_drop_id)
  ultimately show ?thesis
    using r(2,3) by (simp add: one_byte_left_def pr_remaining_def pr_abs_def)
qed

interpretation prefixed_lines: crlf_reader pr_abs "pr_readuntil limit" one_byte_left limit
  by unfold_locales (rule prefixed_crlf)


section \<open>Well-formed requests\<close>

definition plain :: "pystr \<Rightarrow> bool" where
  "plain s \<longleftrightarrow> list_all (\<lambda>c. c < 128 \<and> c \<noteq> 10 \<and> c \<noteq> 13 \<and> c \<noteq> 32) s"

definition latin_line :: "pystr \<Rightarrow> bool" where
  "latin_line s \<longleftrightarrow> list_all (\<lambda>c. c < 256 \<and> c \<noteq> 10 \<and> c \<noteq> 13) s"

definition request_line :: "pystr \<Rightarrow> pystr \<Rightarrow> pystr \<Rightarrow> bytes" where
  "request_line m t v = map of_nat (m @ [32] @ t @ [32] @ v) @ crlf"

definition header_bytes :: "(pystr \<times> pystr) list \<Rightarrow> bytes" where
  "header_bytes hs = concat (map (\<lambda>(k, x). map of_nat (k @ [58] @ x) @ crlf) hs)"

definition header_ok :: "pystr \<times> pystr \<Rightarrow> bool" where
  "header_ok h \<longleftrightarrow> latin_line (fst h @ snd h) \<and> 58 \<notin> set (fst h) \<and> py_strip (fst h) \<noteq> []
     \<and> length (fst h) + length (snd h) \<le> 8189"

definition request_ok :: "pystr \<Rightarrow> pystr \<Rightarrow> pystr \<Rightarrow> (pystr \<times> pystr) list \<Rightarrow> bool" where
  "request_ok m t v hs \<longleftrightarrow> plain m \<and> plain t \<and> plain v \<and> prefix (U ''HTTP/1.'') v
     \<and> length (m @ t @ v) \<le> 8188 \<and> list_all header_ok hs \<and> length hs \<le> 100"

lemma split_max_field: "c \<notin> set a \<Longrightarrow> split_max c (Suc n) (a @ c # b) = a # split_max c n b"
  by (induction a) auto

lemma split_max_last: "split_max c 0 b = [b]"
  by (cases b) auto

lemma chars_back: "list_all (\<lambda>c. c < 256) s \<Longrightarrow> map unat (map of_nat s :: bytes) = s"
  by (induction s) (auto simp: unat_of_nat)

lemma rstrip_line: "s \<noteq> [] \<Longrightarrow> last s \<noteq> 13 \<Longrightarrow> last s \<noteq> 10 \<Longrightarrow> rstrip_crlf (s @ [13, 10]) = s"
  by (cases s rule: rev_cases) (auto simp: rstrip_crlf_def rdropWhile_def)

lemma of_nat_not_cr: "list_all (\<lambda>c. c < 256 \<and> c \<noteq> 13) s \<Longrightarrow> (13 :: byte) \<notin> set (map of_nat s)"
proof (induction s)
  case Nil
  then show ?case by simp
next
  case (Cons c s)
  have "(of_nat c :: byte) \<noteq> 13"
  proof
    assume "(of_nat c :: byte) = 13"
    then have "unat (of_nat c :: byte) = 13" by simp
    then show False using Cons.prems by (simp add: unat_of_nat)
  qed
  then show ?case using Cons by auto
qed

lemma request_parts_line:
  assumes "plain m" "plain t" "plain v" "v \<noteq> []"
  shows "request_parts (request_line m t v) = Some (m, t, v)"
proof -
  let ?s = "m @ [32] @ t @ [32] @ v"
  have a: "list_all (\<lambda>c. c < 128) ?s" using assms by (auto simp: plain_def list_all_iff)
  then have "list_all (\<lambda>c. c < 256) ?s" by (rule list.pred_mono_strong) simp
  then have u: "map unat (map of_nat ?s :: bytes) = ?s" by (rule chars_back)
  have "ascii_decode (request_line m t v) = Inr (?s @ [13, 10])"
  proof -
    have b: "ascii_decode bs = (if list_all (\<lambda>c. c < 128) (map unat bs) then Inr (map unat bs) else Inl UnicodeError)" for bs
      by (simp add: ascii_decode_def list.pred_map comp_def)
    have "map unat (request_line m t v) = ?s @ [13, 10]" using u by (simp add: request_line_def crlf_def)
    then show ?thesis unfolding b using a by simp
  qed
  moreover have "last ?s \<noteq> 13" "last ?s \<noteq> 10"
    using assms(3,4) last_in_set[of v] by (auto simp: plain_def list_all_iff)
  then have "rstrip_crlf (?s @ [13, 10]) = ?s" by (intro rstrip_line) auto
  moreover have "32 \<notin> set m" "32 \<notin> set t" using assms(1,2) by (auto simp: plain_def list_all_iff)
  then have "split_max 32 2 ?s = [m, t, v]"
    using split_max_field[of 32 m 1 "t @ 32 # v"] split_max_field[of 32 t 0 v]
    by (simp add: numeral_2_eq_2 split_max_last del: split_max.simps)
  ultimately show ?thesis by (simp add: request_parts_def del: append.simps)
qed

lemma header_line_parts:
  assumes "header_ok (k, x)"
  shows "partition1 58 (rstrip_crlf (latin1_decode (map of_nat (k @ [58] @ x) @ crlf))) = Some (k, x)"
proof -
  let ?s = "k @ [58] @ x"
  have a: "list_all (\<lambda>c. c < 256 \<and> c \<noteq> 10 \<and> c \<noteq> 13) ?s" using assms by (auto simp: header_ok_def latin_line_def list_all_iff)
  then have "map unat (map of_nat ?s :: bytes) = ?s" by (intro chars_back) (auto simp: list_all_iff)
  then have "latin1_decode (map of_nat ?s @ crlf) = ?s @ [13, 10]" by (simp add: latin1_decode_def crlf_def)
  moreover have "last ?s \<noteq> 13" "last ?s \<noteq> 10" using a last_in_set[of ?s] by (auto simp: list_all_iff)
  then have "rstrip_crlf (?s @ [13, 10]) = ?s" by (intro rstrip_line) auto
  moreover have "58 \<notin> set k" using assms by (simp add: header_ok_def)
  then have "partition1 58 ?s = Some (k, x)" by (induction k) (auto simp: partition1_def split: if_splits)
  ultimately show ?thesis by simp
qed

context crlf_reader
begin

lemma request_line_read:
  assumes "ready s" "view s = request_line m t v @ rest" "request_ok m t v hs" "8192 \<le> limit"
  shows "\<exists>s'. read_request_line ru (s, out) = (Inr (Some (m, t, v)), (s', out)) \<and> ready s' \<and> view s' = rest"
proof -
  let ?l = "map of_nat (m @ [32] @ t @ [32] @ v) :: bytes"
  have r: "plain m" "plain t" "plain v" "prefix (U ''HTTP/1.'') v" "length (m @ t @ v) \<le> 8188"
    using assms(3) by (simp_all add: request_ok_def)
  have cr: "13 \<notin> set ?l"
  proof (rule of_nat_not_cr)
    have "list_all (\<lambda>c. c < 256 \<and> c \<noteq> 13) s" if "plain s" for s
      using that unfolding plain_def by (rule list.pred_mono_strong) simp
    then show "list_all (\<lambda>c. c < 256 \<and> c \<noteq> 13) (m @ [32] @ t @ [32] @ v)" using r(1-3) by simp
  qed
  have len: "length ?l \<le> 8190" using r(5) by simp
  obtain s' where s': "ru crlf s = (Inr (?l @ crlf), s')" "ready s'" "view s' = rest"
    using ru_crlf[OF assms(1), of ?l rest] assms(2,4) cr len by (auto simp: request_line_def)
  have "v \<noteq> []" using r(4) by auto
  then have "request_parts (?l @ crlf) = Some (m, t, v)"
    using request_parts_line[OF r(1-3)] by (simp add: request_line_def)
  moreover have "length (?l @ crlf) \<le> max_request_line" using len by (simp add: max_request_line_def crlf_def)
  ultimately have "read_request_line ru (s, out) = (Inr (Some (m, t, v)), (s', out))"
    using r(4) by (simp add: read_request_line_def attempt_def bindR_apply s'(1) del: length_append length_map map_append)
  then show ?thesis using s' by blast
qed

lemma headers_read:
  "ready s \<Longrightarrow> view s = header_bytes hs @ crlf @ rest \<Longrightarrow> list_all header_ok hs \<Longrightarrow> length hs < n \<Longrightarrow> 8192 \<le> limit
    \<Longrightarrow> \<exists>s'. read_headers ru n acc (s, out) = (Inr (Some (acc @ map (map_prod py_strip py_strip) hs)), (s', out))
      \<and> ready s' \<and> view s' = rest"
proof (induction hs arbitrary: s n acc)
  case Nil
  then obtain k where n: "n = Suc k" by (cases n) auto
  obtain s' where "ru crlf s = (Inr crlf, s')" "ready s'" "view s' = rest"
    using ru_crlf[OF Nil.prems(1), of "[]" rest] Nil.prems(2) by (auto simp: header_bytes_def)
  then show ?case by (simp add: n attempt_def bindR_apply)
next
  case (Cons h hs)
  obtain k x where h: "h = (k, x)" by (cases h)
  obtain j where n: "n = Suc j" using Cons.prems(4) by (cases n) auto
  let ?l = "map of_nat (k @ [58] @ x) :: bytes"
  have ok: "header_ok (k, x)" using Cons.prems(3) by (simp add: h)
  have cr: "13 \<notin> set ?l" using ok by (intro of_nat_not_cr) (auto simp: header_ok_def latin_line_def list_all_iff)
  have len: "length ?l \<le> 8190" using ok by (simp add: header_ok_def)
  obtain s' where s': "ru crlf s = (Inr (?l @ crlf), s')" "ready s'" "view s' = header_bytes hs @ crlf @ rest"
    using ru_crlf[OF Cons.prems(1), of ?l "header_bytes hs @ crlf @ rest"] Cons.prems(2,5) cr len
    by (auto simp: header_bytes_def h)
  have "?l @ crlf \<noteq> crlf" by simp
  moreover have "length (?l @ crlf) \<le> max_header_line" using len by (simp add: max_header_line_def crlf_def)
  moreover have "py_strip k \<noteq> []" using ok by (simp add: header_ok_def)
  ultimately have "read_headers ru n acc (s, out) = read_headers ru j (acc @ [(py_strip k, py_strip x)]) (s', out)"
    using header_line_parts[OF ok]
    by (simp add: n attempt_def bindR_apply s'(1) del: length_append length_map map_append)
  moreover have "list_all header_ok hs" "length hs < j" using Cons.prems(3,4) n by simp_all
  ultimately show ?case
    using Cons.IH[OF s'(2,3), of j "acc @ [(py_strip k, py_strip x)]"] Cons.prems(5) by (simp add: h)
qed

lemma request_read:
  assumes "ready s" "view s = request_line m t v @ header_bytes hs @ crlf @ body" "request_ok m t v hs" "8192 \<le> limit"
  shows "\<exists>s1 s2. read_request_line ru (s, out) = (Inr (Some (m, t, v)), (s1, out))
    \<and> read_headers ru (max_headers + 1) [] (s1, out) = (Inr (Some (map (map_prod py_strip py_strip) hs)), (s2, out))
    \<and> ready s2 \<and> view s2 = body"
proof -
  obtain s1 where 1: "read_request_line ru (s, out) = (Inr (Some (m, t, v)), (s1, out))" "ready s1"
    "view s1 = header_bytes hs @ crlf @ body"
    using request_line_read[OF assms] by blast
  have h: "list_all header_ok hs" "length hs < max_headers + 1"
    using assms(3) by (simp_all add: request_ok_def max_headers_def)
  from headers_read[OF 1(2,3) h assms(4), of "[]" out] 1(1) show ?thesis by auto
qed

lemma connect_served:
  assumes "ready s" "view s = request_line m t v @ header_bytes hs @ crlf @ body" "request_ok m t v hs" "8192 \<le> limit"
    and "py_upper m = U ''CONNECT''" "parse_authority t = Some (host, port)"
  shows "\<exists>s'. handle_http netloc_ok ru (s, out) =
      (Inr (HttpConnect host port), (s', out @ B ''HTTP/1.1 200 Connection established'' @ crlf @ crlf)) \<and> view s' = body"
  using request_read[OF assms(1-4), of out] assms(5,6) by (auto simp: handle_http_def bindR_apply Let_def)

lemma forward_served:
  assumes "ready s" "view s = request_line m t v @ header_bytes hs @ crlf @ body" "request_ok m t v hs" "8192 \<le> limit"
    and "py_upper m \<noteq> U ''CONNECT''" "prefix (U ''http://'') (py_lower t)"
    and "parse_forward netloc_ok t = Inr u" "fw_host u = Some host" "fw_port u = Inr port"
    and "rewritten_head (py_upper m) (fw_path u) v (map (map_prod py_strip py_strip) hs) = Inr head"
  shows "\<exists>s'. handle_http netloc_ok ru (s, out) = (Inr (HttpForward host port head), (s', out)) \<and> view s' = body"
  using request_read[OF assms(1-4), of out] assms(5-10) by (auto simp: handle_http_def bindR_apply Let_def)

end

section \<open>What the properties need of the texts\<close>

lemma strip_none: "list_all (\<lambda>c. \<not> is_space c) s \<Longrightarrow> py_strip s = s"
proof -
  assume d: "list_all (\<lambda>c. \<not> is_space c) s"
  have "dropWhile is_space s = s" using d by (cases s) auto
  moreover have "dropWhile is_space (rev s) = rev s" using d by (cases s rule: rev_cases) auto
  ultimately show ?thesis by (simp add: py_strip_def strip_with_def rdropWhile_def)
qed

definition host_text :: "pystr \<Rightarrow> bool" where
  "host_text h \<longleftrightarrow> h \<noteq> [] \<and> list_all (\<lambda>c. 33 \<le> c \<and> c < 127) h"

lemma authority_of_target:
  assumes "host_text host" "hd host \<noteq> 91" "1 \<le> port" "port \<le> 65535"
  shows "parse_authority (host @ [58] @ show_nat port) = Some (host, int port)"
proof -
  let ?t = "host @ [58] @ show_nat port"
  have d: "list_all (\<lambda>c. 48 \<le> c \<and> c \<le> 57) (show_nat port)" using show_nat_digits by (simp add: list_all_iff)
  have sp: "\<not> is_space c" if "33 \<le> c" "c < 127" for c using that by (simp add: is_space_def)
  have a: "list_all (\<lambda>c. 33 \<le> c \<and> c < 127) ?t"
    using assms(1) d by (auto simp: host_text_def list_all_iff)
  then have "list_all (\<lambda>c. \<not> is_space c) ?t" by (rule list.pred_mono_strong) (use sp in blast)
  then have "py_strip ?t = ?t" by (rule strip_none)
  moreover have "\<not> prefix [91] ?t" using assms(1,2) by (cases host) (auto simp: host_text_def)
  moreover have "58 \<notin> set (show_nat port)" using d by (auto simp: list_all_iff)
  then have "rpartition1 58 ?t = Some (host, show_nat port)" by simp
  ultimately show ?thesis using assms by (simp add: parse_authority_def authority_port_def host_text_def)
qed


text \<open>A URL of the plain form \<open>http://host/path?query\<close>.\<close>

definition url_host :: "pystr \<Rightarrow> bool" where
  "url_host h \<longleftrightarrow> h \<noteq> [] \<and> list_all (\<lambda>c. 33 \<le> c \<and> c < 127 \<and> c \<notin> {47, 63, 35, 64, 58, 91, 93, 37} \<and> lower1 c = c) h"

definition url_path :: "pystr \<Rightarrow> bool" where
  "url_path p \<longleftrightarrow> p \<noteq> [] \<and> hd p = 47 \<and> list_all (\<lambda>c. 33 \<le> c \<and> c < 127 \<and> c \<notin> {63, 35, 59}) p"

definition url_query :: "pystr \<Rightarrow> bool" where
  "url_query q \<longleftrightarrow> list_all (\<lambda>c. 33 \<le> c \<and> c < 127 \<and> c \<noteq> 35) q"

definition with_query :: "pystr \<Rightarrow> pystr \<Rightarrow> pystr" where
  "with_query p q = p @ (if q = [] then [] else 63 # q)"

definition http_url :: "pystr \<Rightarrow> pystr \<Rightarrow> pystr \<Rightarrow> pystr" where
  "http_url h p q = U ''http://'' @ h @ with_query p q"

lemma cut_at_none: "c \<notin> set s \<Longrightarrow> cut_at c s = s"
  by (auto simp: cut_at_def takeWhile_eq_all_conv)

lemma cut_at_append: "c \<notin> set a \<Longrightarrow> cut_at c (a @ c # b) = a"
  by (induction a) (auto simp: cut_at_def)

lemma after_none: "c \<notin> set s \<Longrightarrow> after c s = []"
  by (simp add: after_def)

lemma strip_params_none:
  assumes "59 \<notin> set p"
  shows "strip_params p = p"
proof (cases "47 \<in> set p")
  case True
  then obtain a b where p: "p = a @ 47 # b" "47 \<notin> set b" by (meson split_list_last)
  then show ?thesis using assms by (simp add: strip_params_def cut_at_none)
next
  case False
  then show ?thesis using assms by (simp add: strip_params_def cut_at_none)
qed

lemma url_rest_plain:
  assumes "url_host h" "url_path p" "url_query q" "netloc_ok h"
  shows "url_rest netloc_ok (h @ with_query p q) = Inr \<lparr> u_hostname = Some h, u_port = Inr None, u_path = p \<rparr>"
    "drop (length (takeWhile (\<lambda>c. c \<notin> {47, 63, 35}) (h @ with_query p q))) (h @ with_query p q) = with_query p q"
proof -
  obtain p' where p: "p = 47 # p'" using assms(2) by (cases p) (auto simp: url_path_def)
  have h: "\<forall>c \<in> set h. c \<notin> {47, 63, 35, 64, 58, 91, 93, 37}" "h \<noteq> []" "\<forall>c \<in> set h. lower1 c = c"
    using assms(1) by (auto simp: url_host_def list_all_iff)
  have t: "takeWhile (\<lambda>c. c \<notin> {47, 63, 35}) (h @ with_query p q) = h"
    using h(1) by (simp add: with_query_def p takeWhile_append2 takeWhile_append)
  have d: "drop (length h) (h @ with_query p q) = with_query p q" by simp
  have pq: "35 \<notin> set (with_query p q)" "63 \<notin> set p" "59 \<notin> set p"
    using assms(2,3) by (auto simp: with_query_def url_path_def url_query_def list_all_iff)
  have c: "cut_at 63 (cut_at 35 (with_query p q)) = p"
    using pq cut_at_append[of 63 p q] by (simp add: cut_at_none) (simp add: with_query_def cut_at_none)
  have n: "64 \<notin> set h" "91 \<notin> set h" "93 \<notin> set h" "58 \<notin> set h" "37 \<notin> set h" using h(1) by auto
  have low: "py_lower h = h" using h(3) by (simp add: py_lower_def map_idI)
  show "drop (length (takeWhile (\<lambda>c. c \<notin> {47, 63, 35}) (h @ with_query p q))) (h @ with_query p q) = with_query p q"
    unfolding t by simp
  show "url_rest netloc_ok (h @ with_query p q) = Inr \<lparr> u_hostname = Some h, u_port = Inr None, u_path = p \<rparr>"
    unfolding url_rest_def Let_def t d c
    using n assms(4) h(2) pq low by (simp add: cut_at_none after_none strip_params_none parse_port_def)
qed

lemma parse_forward_plain:
  assumes "url_host h" "url_path p" "url_query q" "netloc_ok h"
  shows "parse_forward netloc_ok (http_url h p q) =
    Inr \<lparr> fw_host = Some h, fw_port = Inr 80, fw_path = with_query p q \<rparr>"
proof -
  have "list_all (\<lambda>c. 33 \<le> c) h" "list_all (\<lambda>c. 33 \<le> c) p" "list_all (\<lambda>c. 33 \<le> c) q"
    using assms(1-3) by (auto simp: url_host_def url_path_def url_query_def elim!: list.pred_mono_strong)
  then have "list_all (\<lambda>c. 33 \<le> c) (http_url h p q)" by (simp add: http_url_def with_query_def U_def)
  then have "list_all (\<lambda>c. \<not> url_remove c) (http_url h p q)"
    by (rule list.pred_mono_strong) (auto simp: url_remove_def)
  then have f: "filter (\<lambda>c. \<not> url_remove c) (http_url h p q) = http_url h p q"
    by (simp add: list_all_iff)
  have s: "\<not> prefix (U ''https://'') (py_lower (http_url h p q))" "drop 7 (http_url h p q) = h @ with_query p q"
    by (simp_all add: http_url_def U_def py_lower_def lower1_def)
  have pq: "35 \<notin> set (with_query p q)" "63 \<notin> set p" "p \<noteq> []"
    using assms(2,3) by (auto simp: with_query_def url_path_def url_query_def list_all_iff)
  have a: "after 63 (cut_at 35 (with_query p q)) = q"
    using pq by (simp add: cut_at_none) (simp add: with_query_def after_def)
  note r = url_rest_plain[OF assms(1-3), of netloc_ok, OF assms(4)]
  show ?thesis
    by (simp only: parse_forward_def Let_def f s if_False r a bindE_simps url_parts.simps option.case)
      (simp add: pq with_query_def)
qed


lemma plain_upper: "plain m \<Longrightarrow> plain (py_upper m)"
  unfolding plain_def py_upper_def list.pred_map comp_def
  by (erule list.pred_mono_strong) (auto simp: upper1_def)

definition forwarded :: "pystr \<Rightarrow> pystr \<Rightarrow> pystr \<Rightarrow> (pystr \<times> pystr) list \<Rightarrow> bytes" where
  "forwarded m path v hs = request_line (py_upper m) path v
     @ concat (map (\<lambda>(k, x). map of_nat (k @ [58, 32] @ x) @ crlf)
         (filter (\<lambda>h. \<not> proxy_header h) (map (map_prod py_strip py_strip) hs))) @ crlf"

lemma strip_subset: "set (py_strip s) \<subseteq> set s"
  by (auto simp: py_strip_def strip_with_def rdropWhile_def dest!: set_dropWhileD)

lemma rewritten_plain:
  assumes "plain m" "plain path" "plain v" "list_all header_ok hs"
  shows "rewritten_head (py_upper m) path v (map (map_prod py_strip py_strip) hs) = Inr (forwarded m path v hs)"
proof -
  have "list_all (\<lambda>c. c < 128) s" if "plain s" for s
    using that unfolding plain_def by (rule list.pred_mono_strong) simp
  then have l: "list_all (\<lambda>c. c < 128) (py_upper m @ [32] @ path @ [32] @ v @ [13, 10])"
    using plain_upper[OF assms(1)] assms(2,3) by simp
  let ?hs = "filter (\<lambda>h. \<not> proxy_header h) (map (map_prod py_strip py_strip) hs)"
  let ?f = "\<lambda>(k, x). k @ [58, 32] @ x @ [13, 10]"
  have h: "c < 256" if "(k, x) \<in> set hs" "c \<in> set k \<union> set x" for k x c
    using assms(4) that by (auto simp: list_all_iff header_ok_def latin_line_def)
  have "list_all (\<lambda>c. c < 256) (concat (map ?f ?hs))"
    using h strip_subset by (fastforce simp: list_all_iff)
  moreover have "map of_nat (concat (map ?f gs)) = concat (map (\<lambda>(k, x). map of_nat (k @ [58, 32] @ x) @ crlf) gs)"
    for gs :: "(pystr \<times> pystr) list" by (induction gs) (auto simp: crlf_def)
  ultimately show ?thesis
    using l by (simp add: rewritten_head_def ascii_encode_def latin1_encode_def forwarded_def request_line_def crlf_def)
qed


lemma mixed_http:
  assumes "concat s = b # rest" "b \<in> set http_method_first"
  obtains p where "handle_mixed netloc_ok limit (s, out) = (MixedHttp (handle_http netloc_ok (pr_readuntil limit) (p, out)), out)"
    "one_byte_left p" "pr_abs p = concat s"
proof -
  have b: "b \<noteq> 5" "b \<noteq> 13" using assms(2) by (auto simp: http_method_first_def B_def)
  have r: "raw_readexactly 1 s = (Inr [b], drop_chunks 1 s)" by (simp add: raw_readexactly_def assms(1))
  let ?p = "new_prefixed (drop_chunks 1 s) [b]"
  have "handle_mixed netloc_ok limit (s, out) = (MixedHttp (handle_http netloc_ok (pr_readuntil limit) (?p, out)), out)"
    using b(1) assms(2) by (simp add: handle_mixed_def r Let_def del: One_nat_def)
  moreover have "one_byte_left ?p" using b(2) by (simp add: one_byte_left_def new_prefixed_def pr_remaining_def)
  moreover have "pr_abs ?p = concat s" by (simp add: assms(1))
  ultimately show thesis by (rule that)
qed

lemma request_first_byte:
  "m \<noteq> [] \<Longrightarrow> \<exists>rest. request_line m t v @ xs = of_nat (hd m) # rest"
  by (cases m) (simp_all add: request_line_def)

lemma mixed_method: "list_all (\<lambda>c. c \<in> set (U ''CGPHDOTA'')) [hd (py_upper m)] \<Longrightarrow> m \<noteq> [] \<Longrightarrow> of_nat (hd m) \<in> set http_method_first"
proof -
  assume a: "list_all (\<lambda>c. c \<in> set (U ''CGPHDOTA'')) [hd (py_upper m)]" "m \<noteq> []"
  obtain c u where m: "m = c # u" using a(2) by (cases m) auto
  have "upper1 c \<in> {67, 71, 80, 72, 68, 79, 84, 65}" using a(1) by (auto simp: m py_upper_def U_def)
  then have "c \<in> {67, 71, 80, 72, 68, 79, 84, 65, 99, 103, 112, 104, 100, 111, 116, 97}"
    by (auto simp: upper1_def split: if_splits)
  then show ?thesis by (auto simp: m http_method_first_def B_def)
qed

section \<open>Properties\<close>

text \<open>A CONNECT request on the mixed port, however its bytes are cut, is answered 200 and dispatched to the
  host and port it names, and what the relay then reads is exactly what follows the blank line.\<close>

theorem http_connect_served:
  assumes "concat s = request_line m (host @ [58] @ show_nat port) v @ header_bytes hs @ crlf @ body"
    and "request_ok m (host @ [58] @ show_nat port) v hs" "py_upper m = U ''CONNECT''"
    and "host_text host" "hd host \<noteq> 91" "1 \<le> port" "port \<le> 65535" "8192 \<le> limit"
  shows "\<exists>p. handle_mixed netloc_ok limit (s, out) = (MixedHttp (Inr (HttpConnect host (int port)), p,
      out @ B ''HTTP/1.1 200 Connection established'' @ crlf @ crlf), out) \<and> pr_abs p = body"
proof -
  have m: "m \<noteq> []" using assms(3) by (auto simp: py_upper_def)
  obtain rest where "concat s = of_nat (hd m) # rest" using request_first_byte[OF m] assms(1) by metis
  moreover have "of_nat (hd m) \<in> set http_method_first" by (rule mixed_method[OF _ m]) (simp add: assms(3) U_def)
  ultimately obtain p where p: "handle_mixed netloc_ok limit (s, out) =
      (MixedHttp (handle_http netloc_ok (pr_readuntil limit) (p, out)), out)" "one_byte_left p" "pr_abs p = concat s"
    by (rule mixed_http)
  obtain p' where "handle_http netloc_ok (pr_readuntil limit) (p, out) =
      (Inr (HttpConnect host (int port)), (p', out @ B ''HTTP/1.1 200 Connection established'' @ crlf @ crlf))" "pr_abs p' = body"
    using prefixed_lines.connect_served[OF p(2) _ assms(2,8,3) authority_of_target[OF assms(4-7)]] p(3) assms(1)
    by fastforce
  then show ?thesis using p(1) by auto
qed

lemma sample_strips:
  "py_strip (U ''Proxy-A'') = U ''Proxy-A''" "py_strip (U ''b'') = U ''b''" "py_strip (U ''C'') = U ''C''"
  "py_strip (U '' d'') = U ''d''" "py_strip (U ''A'') = U ''A''"
  by (simp_all add: U_def strip_eval)

lemma sample_request:
  "request_line (U ''CONNECT'') (U ''h'' @ [58] @ show_nat 443) (U ''HTTP/1.1'') @ header_bytes [(U ''A'', U ''b'')] @ crlf @ [22]
    = B ''CONNECT h:443 HTTP/1.1'' @ crlf @ B ''A:b'' @ crlf @ crlf @ [22]"
  by code_simp

theorem http_connect_served_witness:
  "\<exists>p. handle_mixed (\<lambda>_. True) 262144 ([B ''CON'', B ''NECT h:443 HTTP/1.1'', [13], [10] @ B ''A:b'' @ crlf @ crlf @ [22]], []) =
     (MixedHttp (Inr (HttpConnect (U ''h'') 443), p, B ''HTTP/1.1 200 Connection established'' @ crlf @ crlf), [])
    \<and> pr_abs p = [22]"
proof -
  have "concat [B ''CON'', B ''NECT h:443 HTTP/1.1'', [13], [10] @ B ''A:b'' @ crlf @ crlf @ [22]] =
      request_line (U ''CONNECT'') (U ''h'' @ [58] @ show_nat 443) (U ''HTTP/1.1'') @ header_bytes [(U ''A'', U ''b'')] @ crlf @ [22]"
    unfolding sample_request by (simp add: B_def crlf_def)
  moreover have "request_ok (U ''CONNECT'') (U ''h'' @ [58] @ show_nat 443) (U ''HTTP/1.1'') [(U ''A'', U ''b'')]"
    unfolding request_ok_def list.pred_inject header_ok_def fst_conv snd_conv sample_strips by code_simp
  moreover have "py_upper (U ''CONNECT'') = U ''CONNECT''" "host_text (U ''h'')" "hd (U ''h'') \<noteq> 91" by code_simp+
  ultimately show ?thesis
    using http_connect_served[of _ "U ''CONNECT''" "U ''h''" 443 "U ''HTTP/1.1''" "[(U ''A'', U ''b'')]" "[22]" 262144 "\<lambda>_. True" "[]"]
    by simp
qed

text \<open>Any other request for an \<open>http://\<close> URL is dispatched to the URL's host, and the upstream receives the
  request with the target reduced to its path and query, every header but the \<open>Proxy-\<close> ones, and then the
  body untouched.\<close>

theorem http_forward_rewritten:
  assumes "concat s = request_line m (http_url host path query) v @ header_bytes hs @ crlf @ body"
    and "request_ok m (http_url host path query) v hs" "py_upper m \<noteq> U ''CONNECT''"
    and "m \<noteq> []" "hd (py_upper m) \<in> set (U ''CGPHDOTA'')"
    and "url_host host" "url_path path" "url_query query" "netloc_ok host" "8192 \<le> limit"
  shows "\<exists>p. handle_mixed netloc_ok limit (s, out) =
      (MixedHttp (Inr (HttpForward host 80 (forwarded m (with_query path query) v hs)), p, out), out) \<and> pr_abs p = body"
proof -
  obtain rest where "concat s = of_nat (hd m) # rest" using request_first_byte[OF assms(4)] assms(1) by metis
  moreover have "of_nat (hd m) \<in> set http_method_first" by (rule mixed_method[OF _ assms(4)]) (simp add: assms(5))
  ultimately obtain p where p: "handle_mixed netloc_ok limit (s, out) =
      (MixedHttp (handle_http netloc_ok (pr_readuntil limit) (p, out)), out)" "one_byte_left p" "pr_abs p = concat s"
    by (rule mixed_http)
  have ok: "plain m" "plain (http_url host path query)" "plain v" "list_all header_ok hs"
    using assms(2) by (simp_all add: request_ok_def)
  have path: "plain (with_query path query)" using ok(2) by (simp add: plain_def http_url_def)
  have low: "prefix (U ''http://'') (py_lower (http_url host path query))"
    by (simp add: http_url_def py_lower_def U_def lower1_def)
  have "\<exists>p'. handle_http netloc_ok (pr_readuntil limit) (p, out) =
      (Inr (HttpForward host 80 (forwarded m (with_query path query) v hs)), (p', out)) \<and> pr_abs p' = body"
  proof (rule prefixed_lines.forward_served[OF p(2) _ assms(2,10,3) low])
    show "pr_abs p = request_line m (http_url host path query) v @ header_bytes hs @ crlf @ body"
      using p(3) assms(1) by simp
    show "parse_forward netloc_ok (http_url host path query) =
        Inr \<lparr> fw_host = Some host, fw_port = Inr 80, fw_path = with_query path query \<rparr>"
      by (rule parse_forward_plain) (rule assms)+
  qed (simp_all add: rewritten_plain[OF ok(1) path ok(3,4)])
  then show ?thesis using p(1) by auto
qed

lemma sample_forward:
  "request_line (U ''Get'') (http_url (U ''h'') (U ''/x'') (U ''q'')) (U ''HTTP/1.1'')
    @ header_bytes [(U ''Proxy-A'', U ''b''), (U ''C'', U '' d'')] @ crlf @ [7]
    = B ''Get http://h/x?q HTTP/1.1'' @ crlf @ B ''Proxy-A:b'' @ crlf @ B ''C: d'' @ crlf @ crlf @ [7]"
  "forwarded (U ''Get'') (with_query (U ''/x'') (U ''q'')) (U ''HTTP/1.1'') [(U ''Proxy-A'', U ''b''), (U ''C'', U '' d'')]
    = B ''GET /x?q HTTP/1.1'' @ crlf @ B ''C: d'' @ crlf @ crlf"
  subgoal by code_simp
  subgoal unfolding forwarded_def list.map map_prod_simp sample_strips by code_simp
  done

theorem http_forward_rewritten_witness:
  "\<exists>p. handle_mixed (\<lambda>_. True) 262144
      ([B ''Get http://h/x?q HTTP/1.1'' @ crlf @ B ''Proxy-A:b'', crlf @ B ''C: d'' @ crlf @ crlf @ [7]], []) =
     (MixedHttp (Inr (HttpForward (U ''h'') 80 (B ''GET /x?q HTTP/1.1'' @ crlf @ B ''C: d'' @ crlf @ crlf)), p, []), [])
    \<and> pr_abs p = [7]"
proof -
  let ?hs = "[(U ''Proxy-A'', U ''b''), (U ''C'', U '' d'')]"
  have "concat [B ''Get http://h/x?q HTTP/1.1'' @ crlf @ B ''Proxy-A:b'', crlf @ B ''C: d'' @ crlf @ crlf @ [7]] =
      request_line (U ''Get'') (http_url (U ''h'') (U ''/x'') (U ''q'')) (U ''HTTP/1.1'') @ header_bytes ?hs @ crlf @ [7]"
    unfolding sample_forward(1) by simp
  moreover have "request_ok (U ''Get'') (http_url (U ''h'') (U ''/x'') (U ''q'')) (U ''HTTP/1.1'') ?hs"
    unfolding request_ok_def list.pred_inject header_ok_def fst_conv snd_conv sample_strips by code_simp
  moreover have "py_upper (U ''Get'') \<noteq> U ''CONNECT''" "hd (py_upper (U ''Get'')) \<in> set (U ''CGPHDOTA'')"
    "url_host (U ''h'')" "url_path (U ''/x'')" "url_query (U ''q'')" by code_simp+
  ultimately show ?thesis
    using http_forward_rewritten[of _ "U ''Get''" "U ''h''" "U ''/x''" "U ''q''" "U ''HTTP/1.1''" ?hs "[7]" "\<lambda>_. True" 262144 "[]"]
    unfolding sample_forward(2) by simp
qed

text \<open>\<open>urlparse\<close> splits the parameters off the last path segment; the forwarded request loses them.\<close>

lemma forward_drops_params:
  "parse_forward (\<lambda>_. True) (U ''http://h/a;b=1'') = Inr \<lparr> fw_host = Some (U ''h''), fw_port = Inr 80, fw_path = U ''/a'' \<rparr>"
  by code_simp

text \<open>The hint for a TLS client announces three bytes more than it has.\<close>

lemma tls_hint_length:
  "tls_hint = B ''HTTP/1.1 400 Bad Request'' @ crlf @ B ''Content-Type: text/plain; charset=utf-8'' @ crlf
     @ B ''Content-Length: '' @ map of_nat (show_nat (length body + 3)) @ crlf @ B ''Connection: close'' @ crlf @ crlf @ body"
  if "body = B ''Proxy does not terminate TLS. Use http:// or socks5:// scheme, not https://''"
  unfolding that by code_simp

end
