(* ===== verification/Dispatch.thy ===== *)
theory Dispatch
  imports Dns_Forwarder Registry Http_Inbound Router_Build
begin

text \<open>
  The client's dispatcher (\<open>_dispatch\<close> and \<open>_dispatch_udp\<close> of client.py), the reference to the router and
  the configuration reload (core/reload.py), and the refresh of the geo data (\<open>_geo_background\<close>).  What the
  client shares with its DNS forwarder (router, outbounds, the two caches) is kept in \<open>cl_fwd\<close>.
\<close>

section \<open>The dispatcher\<close>

record client =
  cl_fwd :: dns_fwd
  cl_dns :: bool
  cl_reg :: "registry option"
  cl_start :: json
  cl_cfg :: json
  cl_site :: "(pystr, pystr) odict"
  cl_ip :: "(pystr, pystr) odict"
  cl_legacy :: "(pystr, pystr) odict"
  cl_access :: bool

text \<open>The decision of \<open>_dispatch\<close> with its source.\<close>

definition decide_action :: "dns_env \<Rightarrow> rat \<Rightarrow> pystr \<Rightarrow> dns_fwd \<Rightarrow> (pystr \<times> pystr) \<times> dns_fwd" where
  "decide_action e now key s =
     (case df_routing s of
        None \<Rightarrow> (router_match (de_route e) (df_router s) key, s)
      | Some c \<Rightarrow>
          (case rc_get key now c of
             (Some t, c') \<Rightarrow> ((t, U ''cached''), s\<lparr> df_routing := Some c' \<rparr>)
           | (None, c') \<Rightarrow>
               (let m = router_match (de_route e) (df_router s) key
                in (m, s\<lparr> df_routing := Some (rc_put key (fst m) now c') \<rparr>))))"

text \<open>The connection as its caller knows it: a fresh id, the peer and the inbound.\<close>

record conn_args =
  ca_id :: nat
  ca_peer :: "(pystr \<times> pystr) option"
  ca_inbound :: pystr

definition new_conn :: "conn_args \<Rightarrow> conn_meta \<Rightarrow> pystr list \<Rightarrow> pystr \<times> pystr \<Rightarrow> api_conn" where
  "new_conn a m tags r = \<lparr> ac_id = ca_id a, ac_meta = m, ac_up = 0, ac_down = 0, ac_chains = tags,
     ac_rule = fst r, ac_payload = snd r, ac_closed = 0 \<rparr>"

definition conn_meta_of :: "conn_args \<Rightarrow> string \<Rightarrow> pystr \<Rightarrow> pystr \<Rightarrow> pystr \<Rightarrow> pystr \<Rightarrow> conn_meta" where
  "conn_meta_of a network inbound dst_ip dst_port host = \<lparr> me_network = U network, me_type = inbound,
     me_src_ip = (case ca_peer a of Some p \<Rightarrow> fst p | None \<Rightarrow> []), me_src_port = (case ca_peer a of Some p \<Rightarrow> snd p | None \<Rightarrow> U ''0''),
     me_dst_ip = dst_ip, me_dst_port = dst_port, me_host = host \<rparr>"

definition chain_tags :: "outb list \<Rightarrow> nat \<Rightarrow> nat \<Rightarrow> pystr list" where
  "chain_tags obs leaf a = (if leaf = a then [tag_of (obs ! leaf)] else [tag_of (obs ! leaf), tag_of (obs ! a)])"

text \<open>What the chosen outbound's \<open>handle\<close> does with the connection; a group passes it to its leaf.\<close>

datatype call = CallDirect pystr int | CallTunnel nat pystr int | CallClose

definition leaf_call :: "outb list \<Rightarrow> nat \<Rightarrow> pystr \<Rightarrow> int \<Rightarrow> call" where
  "leaf_call obs l host port = (case obs ! l of
       Direct t \<Rightarrow> CallDirect host port
     | Mirage m \<Rightarrow> CallTunnel l host port
     | _ \<Rightarrow> CallClose)"

definition handle_outbound :: "outb list \<Rightarrow> nat \<Rightarrow> pystr \<Rightarrow> int \<Rightarrow> call \<times> outb list" where
  "handle_outbound obs a host port =
     (if is_leaf (obs ! a) then (leaf_call obs a host port, obs)
      else case resolve_leaf obs a of (l, obs') \<Rightarrow> ((if l = a then CallClose else leaf_call obs' l host port), obs'))"

definition route_key :: "pystr option \<Rightarrow> pystr \<Rightarrow> pystr" where
  "route_key routing_host target_host = (case routing_host of Some h \<Rightarrow> if h = [] then target_host else h | None \<Rightarrow> target_host)"

text \<open>\<open>if routing_host\<close>\<close>

definition given :: "pystr option \<Rightarrow> bool" where
  "given h \<longleftrightarrow> (case h of Some x \<Rightarrow> x \<noteq> [] | None \<Rightarrow> False)"

definition dispatch ::
    "dns_env \<Rightarrow> rat \<Rightarrow> conn_args \<Rightarrow> pystr \<Rightarrow> int \<Rightarrow> pystr option \<Rightarrow> client \<Rightarrow> call \<times> client" where
  "dispatch e now args target_host target_port routing_host c =
     (let key = route_key routing_host target_host in
      case decide_action e now key (cl_fwd c) of
        ((action, source), f) \<Rightarrow>
          (case od_get (df_out f) action of
             None \<Rightarrow> (CallClose, c\<lparr> cl_fwd := f \<rparr>)
           | Some a \<Rightarrow>
               (case resolve_leaf (df_obs f) a of
                  (leaf, obs) \<Rightarrow>
                    (let meta = conn_meta_of args ''tcp'' (ca_inbound args) (if given routing_host then [] else target_host)
                           (show_int target_port) key;
                         info = new_conn args meta (chain_tags obs leaf a) (split_rule source)
                     in case handle_outbound obs a target_host target_port of
                       (call, obs') \<Rightarrow> (call, c\<lparr> cl_fwd := f\<lparr> df_obs := obs' \<rparr>,
                           cl_reg := map_option (reg_register info) (cl_reg c) \<rparr>)))))"

text \<open>The \<open>finally\<close> of \<open>_dispatch\<close>.\<close>

definition dispatch_end :: "rat \<Rightarrow> nat \<Rightarrow> client \<Rightarrow> client" where
  "dispatch_end now i c = c\<lparr> cl_reg := map_option (reg_unregister now i) (cl_reg c) \<rparr>"

text \<open>\<open>_dispatch_udp\<close> up to the relay: the tunnel's leaf for a tunnelled relay, none for a direct one.\<close>

datatype udp_call = UdpTunnel nat bytes | UdpDirect | UdpClose

definition dispatch_udp :: "conn_args \<Rightarrow> client \<Rightarrow> udp_call \<times> client" where
  "dispatch_udp args c =
     (let action = ro_default (df_router (cl_fwd c)) in
      case od_get (df_out (cl_fwd c)) action of
        None \<Rightarrow> (UdpClose, c)
      | Some a \<Rightarrow>
          (case resolve_leaf (df_obs (cl_fwd c)) a of
             (leaf, obs) \<Rightarrow>
               (let c = c\<lparr> cl_fwd := (cl_fwd c)\<lparr> df_obs := obs \<rparr> \<rparr>;
                    meta = conn_meta_of args ''udp'' (U ''Socks5'') (U ''0.0.0.0'') (U ''0'') (U ''udp-associate'');
                    info = new_conn args meta (chain_tags obs leaf a) (U ''Match'', action);
                    c' = c\<lparr> cl_reg := map_option (reg_register info) (cl_reg c) \<rparr>
                in case obs ! leaf of
                  Mirage m \<Rightarrow> (UdpTunnel leaf [0], c')
                | Direct t \<Rightarrow> (UdpDirect, c')
                | _ \<Rightarrow> (UdpClose, c))))"

text \<open>\<open>handle_tproxy_connection\<close>: routed by the sniffed domain, sent to the original address.\<close>

definition handle_tproxy ::
    "dns_env \<Rightarrow> rat \<Rightarrow> nat \<Rightarrow> conn_args \<Rightarrow> pystr \<Rightarrow> int \<Rightarrow> bytes list \<Rightarrow> client \<Rightarrow> call \<times> prefixed \<times> client" where
  "handle_tproxy e now k args target_host target_port s c =
     (case sniff_domain k s of
        (domain, buffered, s') \<Rightarrow>
          (case dispatch e now args target_host target_port domain c of
             (call, c') \<Rightarrow> (call, new_prefixed s' buffered, c')))"

section \<open>Reload\<close>

text \<open>Python's equality of JSON values: numbers by value, objects as mappings.\<close>

fun json_norm :: "json \<Rightarrow> json" where
  "json_norm (JBool b) = JFloat (if b then 1 else 0)"
| "json_norm (JInt i) = JFloat (of_int i)"
| "json_norm (JList xs) = JList (map json_norm xs)"
| "json_norm (JObj d) = JObj (sort_key fst (map (\<lambda>(k, v). (k, json_norm v)) d))"
| "json_norm j = j"

definition locked_fields :: "string list" where
  "locked_fields = [''schema_version'', ''inbounds'', ''outbounds'', ''api'',
     ''socks5_host'', ''socks5_port'', ''server_host'', ''server_port'', ''password'']"

definition locked_diffs :: "json \<Rightarrow> json \<Rightarrow> string list" where
  "locked_diffs old new = filter (\<lambda>k. map_option json_norm (jget old (U k)) \<noteq> map_option json_norm (jget new (U k))) locked_fields"

text \<open>The new router in place, and both caches emptied.\<close>

definition clear_caches :: "dns_fwd \<Rightarrow> dns_fwd" where
  "clear_caches f = f\<lparr> df_routing := map_option (\<lambda>c. snd (rc_invalidate None c)) (df_routing f),
     df_dns := map_option (\<lambda>c. snd (dc_invalidate c)) (df_dns f) \<rparr>"

definition replace_router :: "router \<Rightarrow> dns_fwd \<Rightarrow> dns_fwd" where
  "replace_router ro f = clear_caches (f\<lparr> df_router := ro \<rparr>)"

definition rebuild_router :: "build_env \<Rightarrow> json \<Rightarrow> (pystr, pystr) odict \<Rightarrow> (pystr, pystr) odict \<Rightarrow> client \<Rightarrow> py_error + router" where
  "rebuild_router be cfg site ip c =
     build_router be cfg site ip (Some (od_keys (df_out (cl_fwd c)))) (Some (cl_legacy c)) (U ''rules'')"

text \<open>The callback the client registers for the reload, \<open>None\<close> when it fails.\<close>

definition access_of :: "json \<Rightarrow> bool option" where
  "access_of cfg = (let t = (case jget cfg (U ''tuning'') of Some t \<Rightarrow> if truthy t then t else JObj [] | None \<Rightarrow> JObj [])
     in if is_obj t then Some (truthy (jget_or t (U ''access_log'') (jget_or cfg (U ''access_log'') (JBool False))))
        else None)"

text \<open>\<open>Reloader.reload\<close>: the summary (or the failure to load) and the new state; \<open>loaded\<close> is what
  \<open>load_config\<close> gives.\<close>

record reload_report =
  rl_ok :: bool
  rl_router :: bool
  rl_locked :: "string list"

definition reload :: "build_env \<Rightarrow> py_error + json \<Rightarrow> client \<Rightarrow> reload_report \<times> client" where
  "reload be loaded c =
     (case loaded of
        Inl e \<Rightarrow> (\<lparr> rl_ok = False, rl_router = False, rl_locked = [] \<rparr>, c)
      | Inr cfg \<Rightarrow>
          (let c1 = c\<lparr> cl_access := (case access_of cfg of Some b \<Rightarrow> b | None \<Rightarrow> cl_access c) \<rparr>;
               built = rebuild_router be cfg (cl_site c) (cl_ip c) c;
               f = (case built of Inl e \<Rightarrow> cl_fwd c | Inr ro \<Rightarrow> replace_router ro (cl_fwd c));
               f = (if cl_dns c then snd (fwd_reload cfg f) else f)
           in (\<lparr> rl_ok = True, rl_router = (case built of Inl e \<Rightarrow> False | Inr ro \<Rightarrow> True),
                 rl_locked = locked_diffs (cl_cfg c) cfg \<rparr>,
               c1\<lparr> cl_fwd := f, cl_cfg := cfg \<rparr>)))"

text \<open>One round of \<open>_geo_background\<close> with the files it got; it builds from the configuration of the start.\<close>

definition geo_refresh :: "build_env \<Rightarrow> (pystr, pystr) odict \<Rightarrow> (pystr, pystr) odict \<Rightarrow> client \<Rightarrow> client" where
  "geo_refresh be site ip c =
     (if site = [] \<and> ip = [] then c
      else case rebuild_router be (cl_start c) site ip c of
        Inl e \<Rightarrow> c
      | Inr ro \<Rightarrow> c\<lparr> cl_fwd := replace_router ro (cl_fwd c), cl_site := site, cl_ip := ip \<rparr>)"

section \<open>Runs\<close>

definition start_client :: "dns_fwd \<Rightarrow> bool \<Rightarrow> bool \<Rightarrow> json \<Rightarrow> (pystr, pystr) odict \<Rightarrow> client" where
  "start_client f dns api cfg legacy = \<lparr> cl_fwd = f, cl_dns = dns, cl_reg = (if api then Some new_registry else None),
     cl_start = cfg, cl_cfg = cfg, cl_site = [], cl_ip = [], cl_legacy = legacy, cl_access = False \<rparr>"

text \<open>Connections, DNS queries, reloads and geo refreshes in any order.\<close>

inductive client_run :: "dns_env \<Rightarrow> build_env \<Rightarrow> client \<Rightarrow> bool" for e be where
  start: "(case df_routing f of None \<Rightarrow> True | Some rc \<Rightarrow> rc_items rc = []) \<Longrightarrow> client_run e be (start_client f dns api cfg legacy)"
| dispatch: "client_run e be c \<Longrightarrow> client_run e be (snd (dispatch e now args host port rh c))"
| dispatch_end: "client_run e be c \<Longrightarrow> client_run e be (dispatch_end now i c)"
| udp: "client_run e be c \<Longrightarrow> client_run e be (snd (dispatch_udp args c))"
| dns_start: "client_run e be c \<Longrightarrow> handle_start e now d (cl_fwd c) = (r, f) \<Longrightarrow> client_run e be (c\<lparr> cl_fwd := f \<rparr>)"
| dns_finish: "client_run e be c \<Longrightarrow> handle_finish now d domain qt resp (cl_fwd c) = (r, f) \<Longrightarrow> client_run e be (c\<lparr> cl_fwd := f \<rparr>)"
| reload: "client_run e be c \<Longrightarrow> client_run e be (snd (reload be loaded c))"
| geo: "client_run e be c \<Longrightarrow> client_run e be (geo_refresh be site ip c)"

section \<open>Cached decisions are those of the rules in force\<close>

definition coherent :: "dns_env \<Rightarrow> dns_fwd \<Rightarrow> bool" where
  "coherent e f \<longleftrightarrow> (case df_routing f of None \<Rightarrow> True
     | Some rc \<Rightarrow> od_ok (rc_items rc) \<and> (\<forall>k t x. od_get (rc_items rc) k = Some (t, x) \<longrightarrow>
         (\<forall>h. py_lower h = k \<longrightarrow> fst (router_match (de_route e) (df_router f) h) = t)))"

lemma match_lower:
  assumes "py_lower h = py_lower h'"
  shows "router_match e ro h = router_match e ro h'"
proof -
  have n: "normal_host h = normal_host h'" unfolding normal_host_def assms ..
  show ?thesis unfolding router_match_def n ..
qed

lemma evict_get: "od_ok d \<Longrightarrow> od_get (evict m d) k = Some v \<Longrightarrow> od_get d k = Some v"
  unfolding evict_drop by (rule od_get_drop)


lemma decide_coherent:
  assumes "coherent e f" "decide_action e now key f = ((a, src), f')"
  shows "a = fst (router_match (de_route e) (df_router f) key)" "coherent e f'" "f' = f\<lparr> df_routing := df_routing f' \<rparr>"
proof -
  have "a = fst (router_match (de_route e) (df_router f) key) \<and> coherent e f' \<and> f' = f\<lparr> df_routing := df_routing f' \<rparr>"
  proof (cases "df_routing f")
    case None
    then show ?thesis using assms by (auto simp: decide_action_def)
  next
    case (Some rc)
    have ok: "od_ok (rc_items rc)" and co: "\<And>k t x h. od_get (rc_items rc) k = Some (t, x) \<Longrightarrow> py_lower h = k
        \<Longrightarrow> fst (router_match (de_route e) (df_router f) h) = t"
      using assms(1) by (auto simp: coherent_def Some)
    obtain r rc1 where g: "rc_get key now rc = (r, rc1)" by fastforce
    have ok1: "od_ok (rc_items rc1)" and co1: "\<And>k t x h. od_get (rc_items rc1) k = Some (t, x) \<Longrightarrow> py_lower h = k
        \<Longrightarrow> fst (router_match (de_route e) (df_router f) h) = t"
      using g ok co by (auto simp: rc_get_def Let_def split: option.splits if_splits)
    show ?thesis
    proof (cases r)
      case R: (Some t)
      then have "\<exists>x. od_get (rc_items rc) (py_lower key) = Some (t, x)"
        using g by (auto simp: rc_get_def Let_def split: option.splits if_splits)
      then have "t = fst (router_match (de_route e) (df_router f) key)" using co by blast
      then show ?thesis using assms(2) ok1 co1 by (auto simp: decide_action_def Some g R coherent_def)
    next
      case R: None
      let ?t = "fst (router_match (de_route e) (df_router f) key)"
      have ok2: "od_ok (rc_items (rc_put key ?t now rc1))"
        using ok1 by (simp add: rc_put_def Let_def evict_drop)
      have "fst (router_match (de_route e) (df_router f) h) = t"
        if "od_get (rc_items (rc_put key ?t now rc1)) k = Some (t, x)" "py_lower h = k" for k t x h
      proof -
        let ?d = "od_set (py_lower key) (?t, now + rc_ttl rc1)
            (if od_mem (py_lower key) (rc_items rc1) then od_move_to_end (py_lower key) (rc_items rc1) else rc_items rc1)"
        have d: "od_ok ?d" using ok1 by simp
        have "od_get (evict (rc_max rc1) ?d) k = Some (t, x)" using that(1) by (simp add: rc_put_def Let_def)
        then have "od_get ?d k = Some (t, x)" by (rule evict_get[OF d])
        then have "k = py_lower key \<and> t = ?t \<or> od_get (rc_items rc1) k = Some (t, x)"
          by (cases "k = py_lower key") (simp_all split: if_splits)
        then show ?thesis
        proof
          assume "k = py_lower key \<and> t = ?t"
          then show ?thesis using match_lower[of h key "de_route e" "df_router f"] that(2) by simp
        next
          assume "od_get (rc_items rc1) k = Some (t, x)"
          then show ?thesis using co1 that(2) by blast
        qed
      qed
      then show ?thesis using assms(2) ok2 by (auto simp: decide_action_def Some g R coherent_def Let_def)
    qed
  qed
  then show "a = fst (router_match (de_route e) (df_router f) key)" "coherent e f'" "f' = f\<lparr> df_routing := df_routing f' \<rparr>"
    by blast+
qed

lemma route_is_decide: "route_domain e key now f = (fst (fst (decide_action e now key f)), snd (decide_action e now key f))"
  by (simp add: route_domain_def decide_action_def Let_def split: option.split prod.split)

lemma coherent_cong: "df_routing f' = df_routing f \<Longrightarrow> df_router f' = df_router f \<Longrightarrow> coherent e f' = coherent e f"
  by (cases "df_routing f") (simp_all add: coherent_def)


lemma fwd_obs_simps [simp]: "coherent e (f\<lparr> df_obs := x \<rparr>) = coherent e f" "coherent e (f\<lparr> df_dns := c \<rparr>) = coherent e f"
  by (rule coherent_cong; simp)+

lemma tunnel_for_routing: "df_routing (snd (tunnel_for e t s)) = df_routing s \<and> df_router (snd (tunnel_for e t s)) = df_router s"
  by (auto simp: tunnel_for_def split: option.split sum.split)

lemma ask_leaf_routing:
  "df_routing (snd (ask_leaf e d domain qtype l s)) = df_routing s \<and> df_router (snd (ask_leaf e d domain qtype l s)) = df_router s"
  using tunnel_for_routing by (auto simp: ask_leaf_def split: outb.split json.split prod.split sum.split) (metis snd_conv)+

lemma handle_start_coherent:
  assumes "coherent e f" "handle_start e now d f = (r, f')"
  shows "coherent e f'"
proof (cases "extract_domain d")
  case None
  then show ?thesis using assms by (simp add: handle_start_def)
next
  case (Some domain)
  obtain cached f1 where c: "cached_answer domain (query_type d f) now f = (cached, f1)" by fastforce
  have f1: "coherent e f1"
    using cached_answer_frame[of domain "query_type d f" now f] c coherent_cong[of f1 f e] assms(1) by simp
  obtain a src f2 where dd: "decide_action e now domain f1 = ((a, src), f2)" by (metis prod.exhaust)
  note f2 = decide_coherent[OF f1 dd]
  have r: "route_domain e domain now f1 = (a, f2)" by (simp add: route_is_decide dd)
  have k: "coherent e (snd (ask_leaf e d domain q l (f2\<lparr> df_obs := obs \<rparr>)))" for q l obs
    using coherent_cong[of _ "f2\<lparr> df_obs := obs \<rparr>" e] ask_leaf_routing[of e d domain q l "f2\<lparr> df_obs := obs \<rparr>"] f2(2) by simp
  have "f' = f1 \<or> f' = f2 \<or> (\<exists>q l obs. f' = snd (ask_leaf e d domain q l (f2\<lparr> df_obs := obs \<rparr>)))"
    using assms(2) by (auto simp: handle_start_def Some Let_def c r split: option.splits prod.splits) (metis snd_conv)+
  then show ?thesis using f1 f2(2) k by blast
qed

lemma replace_coherent: "coherent e (replace_router ro f)"
  by (auto simp: coherent_def replace_router_def clear_caches_def rc_invalidate_def split: option.split)

lemma fwd_reload_coherent: "coherent e (snd (fwd_reload cfg f)) = coherent e f"
  by (rule coherent_cong) (simp_all add: fwd_reload_def Let_def)

lemma client_run_coherent: "client_run e be c \<Longrightarrow> coherent e (cl_fwd c)"
proof (induction rule: client_run.induct)
  case (start f dns api cfg legacy)
  then show ?case by (auto simp: start_client_def coherent_def split: option.splits)
next
  case (dispatch c now args host port rh)
  obtain a src f where d: "decide_action e now (route_key rh host) (cl_fwd c) = ((a, src), f)" by (metis prod.exhaust)
  show ?case
    using decide_coherent(2)[OF dispatch.IH d] by (simp add: dispatch_def Let_def d split: option.split prod.split)
next
  case (dispatch_end c now i)
  then show ?case by (simp add: dispatch_end_def)
next
  case (udp c args)
  then show ?case by (auto simp: dispatch_udp_def Let_def split: option.split prod.split outb.split)
next
  case (dns_start c now d r f)
  then show ?case using handle_start_coherent by simp
next
  case (dns_finish c now d domain qt resp r f)
  have "df_routing f = df_routing (cl_fwd c) \<and> df_router f = df_router (cl_fwd c)"
    using dns_finish.hyps(2) by (auto simp: handle_finish_def split: sum.splits option.splits)
  then show ?case using dns_finish.IH coherent_cong[of f "cl_fwd c" e] by simp
next
  case (reload c loaded)
  then show ?case
    using replace_coherent by (auto simp: reload_def Let_def fwd_reload_coherent split: sum.split)
next
  case (geo c site ip)
  then show ?case using replace_coherent by (auto simp: geo_refresh_def split: sum.split)
qed


section \<open>Properties\<close>

text \<open>C30: A cached routing decision never outlives the rules that made it: after any sequence of connections, DNS
  queries, reloads and geo refreshes, whichever rules are in force then, the outbound a connection is given,
  from the cache or not, is the one the router in force gives its host.\<close>

theorem dispatch_follows_router:
  assumes "client_run e be c"
  shows "fst (fst (decide_action e now key (cl_fwd c))) = fst (router_match (de_route e) (df_router (cl_fwd c)) key)"
proof -
  obtain a src f where d: "decide_action e now key (cl_fwd c) = ((a, src), f)" by (metis prod.exhaust)
  show ?thesis using decide_coherent(1)[OF client_run_coherent[OF assms] d] by (simp add: d)
qed

definition sample_client :: client where
  "sample_client = start_client (sample_fwd\<lparr> df_routing := Some (new_routing_cache 5 60) \<rparr>) True True (JObj []) []"

definition sample_conn :: conn_args where
  "sample_conn = \<lparr> ca_id = 0, ca_peer = None, ca_inbound = U ''HTTP'' \<rparr>"

lemma sample_client_run: "client_run sample_dns_env plain_build_env sample_client"
  unfolding sample_client_def by (rule client_run.start) (simp add: new_routing_cache_def)

theorem dispatch_follows_router_witness:
  "\<exists>c. c = snd (dispatch sample_dns_env 4 sample_conn [97] 80 None sample_client)
    \<and> fst (fst (decide_action sample_dns_env 5 [65] (cl_fwd c))) = fst (router_match plain_env (df_router (cl_fwd c)) [65])"
  using dispatch_follows_router[OF client_run.dispatch[OF sample_client_run], of 5 "[65]" 4 sample_conn "[97]" 80 None]
  by (simp add: sample_dns_env_def)

text \<open>A geo refresh undoes a reload: the router is built again from the rules of the start.\<close>

lemma refresh_undoes_reload:
  assumes "site \<noteq> []" "rebuild_router be (cl_start c) site ip c = Inr ro"
  shows "df_router (cl_fwd (geo_refresh be site ip (snd (reload be (Inr cfg) c)))) = ro"
proof -
  let ?c = "snd (reload be (Inr cfg) c)"
  have "df_out (cl_fwd ?c) = df_out (cl_fwd c)" "cl_legacy ?c = cl_legacy c" "cl_start ?c = cl_start c"
    by (auto simp: reload_def Let_def fwd_reload_def replace_router_def clear_caches_def split: sum.split)
  then have "rebuild_router be (cl_start ?c) site ip ?c = Inr ro" using assms(2) by (simp add: rebuild_router_def)
  then show ?thesis using assms(1) by (simp add: geo_refresh_def replace_router_def clear_caches_def)
qed

text \<open>A response to a query sent under the old rules enters the DNS cache after the reload has emptied it.\<close>

lemma old_answer_after_reload:
  assumes "df_dns (cl_fwd c) = Some dc"
  shows "\<exists>dc'. df_dns (snd (handle_finish now d domain (Some q) (Inr r) (cl_fwd (snd (reload be (Inr cfg) c))))) =
    Some (dc_put (domain, q) r now dc')"
proof -
  have "\<exists>dc'. df_dns (cl_fwd (snd (reload be (Inr cfg) c))) = Some dc'"
    using assms by (auto simp: reload_def Let_def fwd_reload_def replace_router_def clear_caches_def split: sum.split)
  then show ?thesis by (auto simp: handle_finish_def)
qed

end
