(* ===== verification/Geo_Download.thy ===== *)
theory Geo_Download
  imports Complex_Main Http_Inbound
begin

text \<open>
  \<open>core/geosite_cache.py\<close>: the HTTP response parser with its chunked decoder, the request over a tunnel
  with its redirects, and the replacement of the cached data files with the download times kept for them.

  The decoder's loop follows a chunk size wherever it leads and need not end: it is a partial function, \<open>None\<close>
  meaning that it does not return.  The TLS session inside the tunnel, \<open>urljoin\<close> and \<open>urllib\<close>'s direct
  download are parameters; file operations succeed; \<open>meta.json\<close> is a table of entries.
\<close>

section \<open>Python's slices with integer bounds\<close>

definition at_index :: "'a list \<Rightarrow> int \<Rightarrow> nat" where
  "at_index xs i = nat (if i < 0 then max 0 (i + int (length xs)) else min i (int (length xs)))"

definition py_slice :: "int \<Rightarrow> int \<Rightarrow> 'a list \<Rightarrow> 'a list" where
  "py_slice a b xs = slice (at_index xs a) (at_index xs b) xs"

text \<open>\<open>data.find(sep, pos)\<close> for a separator that is not empty.\<close>

definition py_find :: "'a list \<Rightarrow> int \<Rightarrow> 'a list \<Rightarrow> int option" where
  "py_find sep pos xs = map_option int (find_from sep (at_index xs pos) xs)"

section \<open>Chunked bodies\<close>

definition byte_blank :: "byte \<Rightarrow> bool" where
  "byte_blank b \<longleftrightarrow> b \<in> {9, 10, 11, 12, 13, 32}"

text \<open>\<open>int(b, 16)\<close> of a byte string.\<close>

definition int16_bytes :: "bytes \<Rightarrow> int option" where
  "int16_bytes bs = (let s = strip_with byte_blank bs in
     if list_ex (\<lambda>b. 128 \<le> unat b \<or> 28 \<le> unat b \<and> unat b \<le> 31) s then None else py_int 16 (map unat s))"

definition chunk_size :: "bytes \<Rightarrow> int option" where
  "chunk_size line = int16_bytes (takeWhile (\<lambda>b. b \<noteq> 59) line)"

partial_function (option) dechunk_loop :: "bytes \<Rightarrow> int \<Rightarrow> bytes \<Rightarrow> (bool \<times> bytes) option" where
  "dechunk_loop data pos out =
     (if pos < int (length data) then
        (case py_find crlf pos data of
           None \<Rightarrow> Some (False, out)
         | Some nl \<Rightarrow>
             (case chunk_size (py_slice pos nl data) of
                None \<Rightarrow> Some (False, out)
              | Some sz \<Rightarrow>
                  if sz = 0 then Some (True, out)
                  else if nl + 2 + sz > int (length data) then Some (False, out)
                  else dechunk_loop data (nl + 2 + sz + 2) (out @ py_slice (nl + 2) (nl + 2 + sz) data)))
      else Some (False, out))"

definition dechunk :: "bytes \<Rightarrow> (py_error + bytes) option" where
  "dechunk data = map_option (\<lambda>(seen, out). if seen then Inr out else Inl OSErr) (dechunk_loop data 0 [])"

section \<open>Responses\<close>

type_synonym http_headers = "(pystr \<times> pystr) list"
type_synonym http_reply = "int \<times> http_headers \<times> bytes"

definition status_of :: "pystr \<Rightarrow> int option" where
  "status_of line = (case split_max 32 2 line of a # b # _ \<Rightarrow> py_int 10 b | _ \<Rightarrow> None)"

definition header_of :: "pystr \<Rightarrow> (pystr \<times> pystr) list" where
  "header_of line = (case partition1 58 line of None \<Rightarrow> [] | Some (k, v) \<Rightarrow> [(py_strip k, py_strip v)])"

definition header_named :: "string \<Rightarrow> http_headers \<Rightarrow> pystr option" where
  "header_named name hs = map_option snd (find (\<lambda>(k, v). py_lower k = U name) hs)"

text \<open>\<open>str.isdigit\<close> on Latin-1 also takes the superscripts, which \<open>int\<close> refuses.\<close>

definition latin_digit :: "nat \<Rightarrow> bool" where
  "latin_digit c \<longleftrightarrow> 48 \<le> c \<and> c \<le> 57 \<or> c \<in> {178, 179, 185}"

definition str_isdigit :: "pystr \<Rightarrow> bool" where
  "str_isdigit s \<longleftrightarrow> s \<noteq> [] \<and> list_all latin_digit s"

definition take_exactly :: "int \<Rightarrow> bytes \<Rightarrow> py_error + bytes" where
  "take_exactly n body = (if int (length body) < n then Inl OSErr else Inr (take (nat n) body))"

definition response_body :: "http_headers \<Rightarrow> bytes \<Rightarrow> (py_error + bytes) option" where
  "response_body hs body =
     (if list_ex (\<lambda>(k, v). py_lower k = U ''transfer-encoding'' \<and> contains (U ''chunked'') (py_lower v)) hs then dechunk body
      else (case header_named ''content-length'' hs of
          None \<Rightarrow> Some (Inr body)
        | Some cl \<Rightarrow>
            if str_isdigit (py_strip cl) then
              Some (case py_int 10 (py_strip cl) of None \<Rightarrow> Inl ValueError | Some n \<Rightarrow> take_exactly n body)
            else Some (Inr body)))"

definition parse_http_response :: "bytes \<Rightarrow> (py_error + http_reply) option" where
  "parse_http_response raw =
     (case find_sub (crlf @ crlf) raw of
        None \<Rightarrow> Some (Inl OSErr)
      | Some e \<Rightarrow>
          (case split_sub ([13, 10]) (latin1_decode (take e raw)) of
             [] \<Rightarrow> Some (Inl OSErr)
           | first # rest \<Rightarrow>
               (case status_of first of
                  None \<Rightarrow> Some (Inl OSErr)
                | Some status \<Rightarrow>
                    let hs = concat (map header_of rest) in
                    map_option (\<lambda>r. bindE r (\<lambda>body. Inr (status, hs, body))) (response_body hs (drop (e + 4) raw)))))"

section \<open>One request through the tunnel\<close>

text \<open>\<open>tls addr req\<close> is what the TLS session inside the tunnel delivers up to the end of the response, the
  tunnel having been given the packed address.\<close>

definition get_text :: "pystr \<Rightarrow> pystr \<Rightarrow> http_headers \<Rightarrow> pystr" where
  "get_text host path extra = U ''GET '' @ path @ U '' HTTP/1.1'' @ [13, 10] @ U ''Host: '' @ host @ [13, 10]
     @ U ''User-Agent: mirage-proxy/1.0'' @ [13, 10] @ U ''Accept: */*'' @ [13, 10] @ U ''Connection: close'' @ [13, 10]
     @ concat (map (\<lambda>(k, v). k @ U '': '' @ v @ [13, 10]) extra) @ [13, 10]"

definition https_request_once ::
    "(bytes \<Rightarrow> bytes \<Rightarrow> py_error + bytes) \<Rightarrow> pystr \<Rightarrow> int \<Rightarrow> pystr \<Rightarrow> http_headers \<Rightarrow> (py_error + http_reply) option" where
  "https_request_once tls host port path extra =
     (case bindE (pack_address host port) (\<lambda>addr. bindE (ascii_encode (get_text host path extra)) (tls addr)) of
        Inl e \<Rightarrow> Some (Inl e)
      | Inr raw \<Rightarrow> parse_http_response raw)"

text \<open>The parts of an \<open>https\<close> URL.\<close>

definition query_of :: "pystr \<Rightarrow> pystr" where
  "query_of rest = after 63 (cut_at 35 (dropWhile (\<lambda>c. c \<notin> {47, 63, 35}) rest))"

definition geo_url :: "(pystr \<Rightarrow> bool) \<Rightarrow> pystr \<Rightarrow> py_error + (pystr \<times> int \<times> pystr)" where
  "geo_url netloc_ok url =
     (let s = filter (\<lambda>c. \<not> url_remove c) url in
      if \<not> prefix (U ''https://'') (py_lower s) then Inl ValueError
      else let rest = drop 8 s in
        bindE (url_rest netloc_ok rest) (\<lambda>u.
        bindE (u_port u) (\<lambda>p.
          Inr ((case u_hostname u of None \<Rightarrow> [] | Some h \<Rightarrow> h),
               (case p of Some n \<Rightarrow> if n = 0 then 443 else n | None \<Rightarrow> 443),
               (if u_path u = [] then [47] else u_path u) @ (if query_of rest = [] then [] else 63 # query_of rest)))))"

definition max_redirects :: nat where "max_redirects = 5"

record geo_net =
  gn_netloc_ok :: "pystr \<Rightarrow> bool"
  gn_join :: "pystr \<Rightarrow> pystr \<Rightarrow> pystr"
  gn_tls :: "nat \<Rightarrow> bytes \<Rightarrow> bytes \<Rightarrow> py_error + bytes"

text \<open>The redirect loop; the number counts the turns left, which also tells the sessions apart.\<close>

fun https_get_loop :: "geo_net \<Rightarrow> http_headers \<Rightarrow> nat \<Rightarrow> pystr \<Rightarrow> (py_error + http_reply) option" where
  "https_get_loop g extra 0 url = Some (Inl OSErr)"
| "https_get_loop g extra (Suc k) url =
     (case geo_url (gn_netloc_ok g) url of
        Inl e \<Rightarrow> Some (Inl e)
      | Inr (host, port, path) \<Rightarrow>
          (case https_request_once (gn_tls g k) host port path extra of
             None \<Rightarrow> None
           | Some (Inl e) \<Rightarrow> Some (Inl e)
           | Some (Inr (status, hs, body)) \<Rightarrow>
               if status = 304 then Some (Inr (status, hs, body))
               else if 300 \<le> status \<and> status < 400 then
                 (case header_named ''location'' hs of
                    Some (c # cs) \<Rightarrow> https_get_loop g extra k (gn_join g url (py_strip (c # cs)))
                  | _ \<Rightarrow> Some (Inl OSErr))
               else if status \<noteq> 200 then Some (Inl OSErr)
               else Some (Inr (status, hs, body))))"

definition https_get_via_pool :: "geo_net \<Rightarrow> http_headers \<Rightarrow> pystr \<Rightarrow> (py_error + http_reply) option" where
  "https_get_via_pool g extra url = https_get_loop g extra (max_redirects + 1) url"

section \<open>Replacing a data file\<close>

type_synonym files = "pystr \<Rightarrow> bytes option"

definition min_dat_size :: nat where "min_dat_size = 100 * 1024"

datatype fetch_kind = Saved | NotModified

record fetch_result =
  fr_kind :: fetch_kind
  fr_etag :: "pystr option"
  fr_lm :: "pystr option"

text \<open>The body goes to the temporary file, which replaces the data file when it is large enough and is
  removed otherwise.\<close>

definition save_body :: "pystr \<Rightarrow> bytes \<Rightarrow> files \<Rightarrow> (py_error + unit) \<times> files" where
  "save_body dest body fs =
     (let tmp = dest @ U ''.tmp'' in
      if length body < min_dat_size then (Inl OSErr, fs(tmp := None))
      else (Inr (), fs(tmp := None, dest := Some body)))"

definition not_modified :: "pystr option \<Rightarrow> pystr option \<Rightarrow> fetch_result" where
  "not_modified etag lm = \<lparr> fr_kind = NotModified, fr_etag = etag, fr_lm = lm \<rparr>"

definition truthy_str :: "pystr option \<Rightarrow> bool" where
  "truthy_str s \<longleftrightarrow> s \<noteq> None \<and> s \<noteq> Some []"

definition conditional_headers :: "pystr option \<Rightarrow> pystr option \<Rightarrow> http_headers" where
  "conditional_headers etag lm =
     (if truthy_str etag then [(U ''If-None-Match'', the etag)] else [])
     @ (if truthy_str lm then [(U ''If-Modified-Since'', the lm)] else [])"

definition download_via_tunnel ::
    "py_error + http_reply \<Rightarrow> pystr \<Rightarrow> pystr option \<Rightarrow> pystr option \<Rightarrow> files \<Rightarrow> (py_error + fetch_result) \<times> files" where
  "download_via_tunnel reply dest etag lm fs =
     (case reply of
        Inl e \<Rightarrow> (Inl e, fs)
      | Inr (status, hs, body) \<Rightarrow>
          if status = 304 then (Inr (not_modified etag lm), fs)
          else (case save_body dest body fs of
              (Inl e, fs') \<Rightarrow> (Inl e, fs')
            | (Inr _, fs') \<Rightarrow> (Inr \<lparr> fr_kind = Saved, fr_etag = header_named ''etag'' hs,
                fr_lm = header_named ''last-modified'' hs \<rparr>, fs')))"

text \<open>What \<open>urllib\<close> gives for a direct request: the response with the body its reads deliver, a 304, or an
  exception.\<close>

record direct_reply =
  dr_etag :: "pystr option"
  dr_lm :: "pystr option"
  dr_length :: "pystr option"
  dr_body :: bytes

datatype direct_outcome = Direct304 | DirectFailed py_error | DirectReply direct_reply

definition expected_length :: "pystr option \<Rightarrow> py_error + int option" where
  "expected_length cl = (case cl of
       None \<Rightarrow> Inr None
     | Some s \<Rightarrow> if str_isdigit s then (case py_int 10 s of None \<Rightarrow> Inl ValueError | Some n \<Rightarrow> Inr (Some n)) else Inr None)"

definition download_direct ::
    "direct_outcome \<Rightarrow> pystr \<Rightarrow> pystr option \<Rightarrow> pystr option \<Rightarrow> files \<Rightarrow> (py_error + fetch_result) \<times> files" where
  "download_direct r dest etag lm fs =
     (let failed = fs(dest @ U ''.tmp'' := None) in
      case r of
        Direct304 \<Rightarrow> (Inr (not_modified etag lm), fs)
      | DirectFailed e \<Rightarrow> (Inl e, failed)
      | DirectReply d \<Rightarrow>
          (case expected_length (dr_length d) of
             Inl e \<Rightarrow> (Inl e, failed)
           | Inr expected \<Rightarrow>
               if (case expected of Some n \<Rightarrow> int (length (dr_body d)) < n | None \<Rightarrow> False) then (Inl OSErr, failed)
               else (case save_body dest (dr_body d) fs of
                   (Inl e, fs') \<Rightarrow> (Inl e, fs')
                 | (Inr _, fs') \<Rightarrow> (Inr \<lparr> fr_kind = Saved, fr_etag = dr_etag d, fr_lm = dr_lm d \<rparr>, fs'))))"

section \<open>Keeping a source up to date\<close>

record src_meta =
  sm_url :: pystr
  sm_at :: int
  sm_etag :: "pystr option"
  sm_lm :: "pystr option"

type_synonym metas = "(pystr, src_meta) odict"

record geo_world =
  gw_files :: files
  gw_meta :: metas

text \<open>What the mirrors do when asked with given headers, and the clock: 0 at the start, \<open>Suc i\<close> after mirror \<open>i\<close>.
  A tunnel request is absent without a pool.\<close>

record geo_sources =
  gs_tunnel :: "(nat \<Rightarrow> http_headers \<Rightarrow> pystr \<Rightarrow> (py_error + http_reply) option) option"
  gs_direct :: "nat \<Rightarrow> http_headers \<Rightarrow> pystr \<Rightarrow> direct_outcome"
  gs_clock :: "nat \<Rightarrow> rat"

definition record_fetch :: "pystr \<Rightarrow> pystr \<Rightarrow> rat \<Rightarrow> fetch_result \<Rightarrow> metas \<Rightarrow> metas" where
  "record_fetch key url now r m =
     od_set key \<lparr> sm_url = url, sm_at = \<lfloor>now\<rfloor>, sm_etag = fr_etag r, sm_lm = fr_lm r \<rparr> m"

definition dat_path :: "pystr \<Rightarrow> pystr \<Rightarrow> pystr" where
  "dat_path dir key = (if dir = [] then key @ U ''.dat'' else if last dir = 47 then dir @ key @ U ''.dat''
     else dir @ [47] @ key @ U ''.dat'')"

text \<open>The outcome of one attempt: recorded, or the next attempt's turn.\<close>

definition direct_step ::
    "geo_sources \<Rightarrow> pystr \<Rightarrow> pystr \<Rightarrow> pystr option \<Rightarrow> pystr option \<Rightarrow> nat \<Rightarrow> pystr \<Rightarrow> geo_world \<Rightarrow> bool \<times> geo_world" where
  "direct_step src key dest etag lm i u w =
     (case download_direct (gs_direct src i (conditional_headers etag lm) u) dest etag lm (gw_files w) of
        (Inl e, fs) \<Rightarrow> (False, w\<lparr> gw_files := fs \<rparr>)
      | (Inr r, fs) \<Rightarrow> (True, \<lparr> gw_files = fs, gw_meta = record_fetch key u (gs_clock src (Suc i)) r (gw_meta w) \<rparr>))"

definition tunnel_step ::
    "geo_sources \<Rightarrow> pystr \<Rightarrow> pystr \<Rightarrow> pystr option \<Rightarrow> pystr option \<Rightarrow> nat \<Rightarrow> pystr \<Rightarrow> geo_world
      \<Rightarrow> (bool \<times> geo_world) option" where
  "tunnel_step src key dest etag lm i u w =
     (case gs_tunnel src of
        None \<Rightarrow> Some (False, w)
      | Some get \<Rightarrow>
          (case get i (conditional_headers etag lm) u of
             None \<Rightarrow> None
           | Some reply \<Rightarrow> Some
               (case download_via_tunnel reply dest etag lm (gw_files w) of
                  (Inl e, fs) \<Rightarrow> (False, w\<lparr> gw_files := fs \<rparr>)
                | (Inr r, fs) \<Rightarrow>
                    (True, \<lparr> gw_files = fs, gw_meta = record_fetch key u (gs_clock src (Suc i)) r (gw_meta w) \<rparr>))))"

fun try_mirrors ::
    "geo_sources \<Rightarrow> pystr \<Rightarrow> pystr \<Rightarrow> pystr option \<Rightarrow> pystr option \<Rightarrow> nat \<Rightarrow> pystr list \<Rightarrow> geo_world
      \<Rightarrow> (bool \<times> geo_world) option" where
  "try_mirrors src key dest etag lm i [] w = Some (gw_files w dest \<noteq> None, w)"
| "try_mirrors src key dest etag lm i (u # us) w =
     (case tunnel_step src key dest etag lm i u w of
        None \<Rightarrow> None
      | Some (True, w1) \<Rightarrow> Some (True, w1)
      | Some (False, w1) \<Rightarrow>
          (case direct_step src key dest etag lm i u w1 of
             (True, w2) \<Rightarrow> Some (True, w2)
           | (False, w2) \<Rightarrow> try_mirrors src key dest etag lm (Suc i) us w2))"

definition needs_download :: "bool \<Rightarrow> bool \<Rightarrow> rat \<Rightarrow> int \<Rightarrow> rat \<Rightarrow> bool" where
  "needs_download force exists update_days since now \<longleftrightarrow>
     force \<or> \<not> exists \<or> since = 0 \<or> update_days < (now - of_int since) / 86400"

definition ensure_one ::
    "geo_sources \<Rightarrow> pystr \<Rightarrow> pystr \<Rightarrow> pystr list \<Rightarrow> rat \<Rightarrow> bool \<Rightarrow> geo_world \<Rightarrow> (bool \<times> geo_world) option" where
  "ensure_one src dir key urls update_days force w =
     (let urls = filter (\<lambda>u. u \<noteq> []) urls; dest = dat_path dir key; exists = gw_files w dest \<noteq> None;
          old = od_get (gw_meta w) key; since = (case old of Some m \<Rightarrow> sm_at m | None \<Rightarrow> 0)
      in if urls = [] then Some (False, w)
         else if \<not> needs_download force exists update_days since (gs_clock src 0) then Some (True, w)
         else let cond = exists \<and> \<not> force;
                  etag = (case old of Some m \<Rightarrow> if cond then sm_etag m else None | None \<Rightarrow> None);
                  lm = (case old of Some m \<Rightarrow> if cond then sm_lm m else None | None \<Rightarrow> None)
              in try_mirrors src key dest etag lm 0 urls w)"

section \<open>All sources\<close>

text \<open>The fields read from a source's entry and from the configuration; a URL given as a string is a list of one.
  The concurrent tasks of \<open>_ensure_typed\<close> run one after another here: each works on its own key and file.\<close>

record geo_entry =
  ge_name :: pystr
  ge_urls :: "pystr list"
  ge_days :: "rat option"

definition geo_valid :: "geo_entry \<Rightarrow> bool" where
  "geo_valid s \<longleftrightarrow> ge_name s \<noteq> [] \<and> list_ex (\<lambda>u. u \<noteq> []) (ge_urls s)"

definition geo_key :: "string \<Rightarrow> pystr \<Rightarrow> pystr" where
  "geo_key typ name = U typ @ [45] @ name"

fun ensure_each ::
    "(pystr \<Rightarrow> geo_sources) \<Rightarrow> string \<Rightarrow> pystr \<Rightarrow> rat \<Rightarrow> bool \<Rightarrow> geo_entry list \<Rightarrow> geo_world
      \<Rightarrow> ((geo_entry \<times> bool) list \<times> geo_world) option" where
  "ensure_each srcs typ dir days force [] w = Some ([], w)"
| "ensure_each srcs typ dir days force (s # ss) w =
     (let key = geo_key typ (ge_name s); d = (case ge_days s of Some d \<Rightarrow> d | None \<Rightarrow> days) in
      case ensure_one (srcs key) dir key (ge_urls s) d force w of
        None \<Rightarrow> None
      | Some (ok, w1) \<Rightarrow> map_option (\<lambda>(rs, w2). ((s, ok) # rs, w2)) (ensure_each srcs typ dir days force ss w1))"

definition ensure_typed ::
    "(pystr \<Rightarrow> geo_sources) \<Rightarrow> string \<Rightarrow> geo_entry list \<Rightarrow> pystr \<Rightarrow> rat \<Rightarrow> bool \<Rightarrow> geo_world
      \<Rightarrow> ((pystr, pystr) odict \<times> geo_world) option" where
  "ensure_typed srcs typ sources dir days force w =
     map_option (\<lambda>(rs, w'). (foldl (\<lambda>d (s, ok). if ok then od_set (ge_name s) (dat_path dir (geo_key typ (ge_name s))) d else d) [] rs, w'))
       (ensure_each srcs typ dir days force (filter geo_valid sources) w)"

record geo_cfg =
  gc_dir :: pystr
  gc_days :: rat
  gc_force :: bool
  gc_site :: "geo_entry list"
  gc_ip :: "geo_entry list"
  gc_url :: pystr
  gc_path :: pystr

text \<open>\<open>ensure_all\<close> with the older single-source fields.\<close>

definition site_plan :: "geo_cfg \<Rightarrow> files \<Rightarrow> geo_entry list \<times> (pystr, pystr) odict" where
  "site_plan cfg fs =
     (if gc_site cfg \<noteq> [] then (gc_site cfg, [])
      else if gc_path cfg \<noteq> [] \<and> gc_url cfg = [] \<and> fs (gc_path cfg) \<noteq> None then ([], [(U ''default'', gc_path cfg)])
      else if gc_url cfg \<noteq> [] then ([\<lparr> ge_name = U ''default'', ge_urls = [gc_url cfg], ge_days = None \<rparr>], [])
      else ([], []))"

definition ensure_all ::
    "(pystr \<Rightarrow> geo_sources) \<Rightarrow> geo_cfg \<Rightarrow> geo_world \<Rightarrow> ((pystr, pystr) odict \<times> (pystr, pystr) odict \<times> geo_world) option" where
  "ensure_all srcs cfg w =
     (case site_plan cfg (gw_files w) of
        (sites, fallback) \<Rightarrow>
          (case ensure_typed srcs ''site'' sites (gc_dir cfg) (gc_days cfg) (gc_force cfg) w of
             None \<Rightarrow> None
           | Some (site_paths, w1) \<Rightarrow>
               map_option (\<lambda>(ip_paths, w2). (foldl (\<lambda>d (k, p). od_set k p d) site_paths fallback, ip_paths, w2))
                 (ensure_typed srcs ''ip'' (gc_ip cfg) (gc_dir cfg) (gc_days cfg) (gc_force cfg) w1)))"

section \<open>Chunk sizes in hexadecimal\<close>

definition hex_char :: "nat \<Rightarrow> bool" where
  "hex_char c \<longleftrightarrow> 48 \<le> c \<and> c \<le> 57 \<or> 97 \<le> c \<and> c \<le> 102"

definition hex_val :: "nat \<Rightarrow> nat" where
  "hex_val c = (if c \<le> 57 then c - 48 else c - 87)"

lemma show_hex_chars: "list_all hex_char (show_hex n)"
proof (induction n rule: show_hex.induct)
  case (1 n)
  have "hex_char (hex_digit (n mod 16))" "n < 16 \<Longrightarrow> hex_char (hex_digit n)" by (auto simp: hex_char_def hex_digit_def)
  then show ?case using 1 by (subst show_hex.simps) auto
qed

lemma show_hex_nonempty: "show_hex n \<noteq> []"
  by (subst show_hex.simps) simp

lemma digits_val_hex: "list_all hex_char s \<Longrightarrow> digits_val 16 acc s = Some (foldl (\<lambda>a c. a * 16 + hex_val c) acc s)"
proof (induction "16 :: nat" acc s rule: digits_val.induct)
  case (2 acc c)
  then show ?case by (auto simp: base_digit_def digit_val_def hex_char_def hex_val_def)
next
  case (3 acc c c' cs)
  then have "base_digit 16 c = Some (hex_val c)" "c' \<noteq> 95"
    by (auto simp: base_digit_def digit_val_def hex_char_def hex_val_def)
  then show ?case using 3 by simp
qed simp

lemma show_hex_value: "foldl (\<lambda>a c. a * 16 + hex_val c) 0 (show_hex n) = n"
proof (induction n rule: show_hex.induct)
  case (1 n)
  have h: "m < 16 \<Longrightarrow> hex_val (hex_digit m) = m" for m by (auto simp: hex_val_def hex_digit_def)
  show ?case using 1 h[of n] h[of "n mod 16"] by (subst show_hex.simps) auto
qed

lemma hex_no_space: "hex_char c \<Longrightarrow> \<not> is_space c"
  by (auto simp: hex_char_def is_space_def)

lemma py_int_show_hex: "py_int 16 (show_hex n) = Some (int n)"
proof -
  let ?s = "show_hex n"
  have c: "list_all hex_char ?s" by (rule show_hex_chars)
  have s: "py_strip ?s = ?s" using c by (intro strip_none) (auto simp: list_all_iff hex_no_space)
  obtain a t where a: "?s = a # t" using show_hex_nonempty by (cases ?s) auto
  have ha: "a \<noteq> 45" "a \<noteq> 43" using c by (auto simp: a hex_char_def)
  have x: "strip_0x ?s = ?s" using c by (auto simp: strip_0x_def a hex_char_def split: list.split)
  show ?thesis
    using digits_val_hex[OF c, of 0] show_hex_value[of n] s ha x show_hex_nonempty[of n]
    by (simp add: py_int_def Let_def parse_digits_def a split del: if_split)
qed

lemma byte_of_hex: "hex_char c \<Longrightarrow> unat (of_nat c :: byte) = c"
  by (auto simp: hex_char_def unat_of_nat)

lemma map_unat_hex: "list_all hex_char s \<Longrightarrow> map unat (map of_nat s :: bytes) = s"
  by (induction s) (auto simp: byte_of_hex)

definition size_line :: "nat \<Rightarrow> bytes \<Rightarrow> bytes" where
  "size_line n xt = map of_nat (show_hex n) @ (if xt = [] then [] else 59 # xt)"

lemma hex_bytes: "b \<in> set (map of_nat (show_hex n) :: bytes) \<Longrightarrow> hex_char (unat b)"
  using show_hex_chars[of n] by (auto simp: list_all_iff byte_of_hex)

lemma strip_with_none:
  assumes "\<forall>x \<in> set xs. \<not> p x"
  shows "strip_with p xs = xs"
proof -
  have d: "dropWhile p ys = ys" if "\<forall>x \<in> set ys. \<not> p x" for ys using that by (cases ys) auto
  show ?thesis using d[OF assms] d[of "rev xs"] assms by (simp add: strip_with_def rdropWhile_def)
qed

lemma chunk_size_line: "chunk_size (size_line n xt) = Some (int n)"
proof -
  let ?h = "map of_nat (show_hex n) :: bytes"
  have u: "map unat ?h = show_hex n" using show_hex_chars by (rule map_unat_hex)
  have b: "\<forall>b \<in> set ?h. b \<noteq> 59 \<and> \<not> byte_blank b \<and> unat b < 128 \<and> 31 < unat b"
  proof
    fix b assume "b \<in> set ?h"
    then have h: "hex_char (unat b)" by (rule hex_bytes)
    have "unat b \<noteq> unat (59 :: byte)" using h by (auto simp: hex_char_def)
    moreover have "\<not> byte_blank b" using h by (auto simp: byte_blank_def hex_char_def)
    ultimately show "b \<noteq> 59 \<and> \<not> byte_blank b \<and> unat b < 128 \<and> 31 < unat b" using h by (auto simp: hex_char_def)
  qed
  then have t: "takeWhile (\<lambda>b. b \<noteq> 59) (size_line n xt) = ?h"
    using takeWhile_append2[of ?h "\<lambda>b. b \<noteq> 59" "59 # xt"] by (simp add: size_line_def del: set_map)
  have "strip_with byte_blank ?h = ?h" using b by (intro strip_with_none) auto
  moreover have "\<not> list_ex (\<lambda>b. 128 \<le> unat b \<or> 28 \<le> unat b \<and> unat b \<le> 31) ?h"
  proof
    assume "list_ex (\<lambda>b. 128 \<le> unat b \<or> 28 \<le> unat b \<and> unat b \<le> 31) ?h"
    then obtain x where "x \<in> set ?h" "128 \<le> unat x \<or> unat x \<le> 31" unfolding list_ex_iff by blast
    then show False using b by (meson linorder_not_le)
  qed
  ultimately show ?thesis
    using u py_int_show_hex[of n] unfolding chunk_size_def int16_bytes_def t Let_def by (simp only: if_False)
qed

section \<open>The decoder on chunked bodies\<close>

definition chunk_bytes :: "bytes \<times> bytes \<Rightarrow> bytes" where
  "chunk_bytes = (\<lambda>(xt, c). size_line (length c) xt @ crlf @ c @ crlf)"

text \<open>Extensions hold no line ends; a chunk of data is not empty.\<close>

definition chunk_ok :: "bytes \<times> bytes \<Rightarrow> bool" where
  "chunk_ok = (\<lambda>(xt, c). 13 \<notin> set xt \<and> c \<noteq> [])"

lemma size_line_no_cr: "13 \<notin> set xt \<Longrightarrow> 13 \<notin> set (size_line n xt)"
proof -
  assume x: "13 \<notin> set xt"
  have "b \<noteq> 13" if "b \<in> set (map of_nat (show_hex n) :: bytes)" for b
  proof -
    have "unat b \<noteq> unat (13 :: byte)" using hex_bytes[OF that] by (auto simp: hex_char_def)
    then show ?thesis by auto
  qed
  then show ?thesis using x by (auto simp: size_line_def)
qed

lemma at_index_within: "0 \<le> i \<Longrightarrow> i \<le> int (length xs) \<Longrightarrow> at_index xs i = nat i"
  by (simp add: at_index_def)

lemma py_find_line:
  assumes "13 \<notin> set line" "pos = int (length pre)"
  shows "py_find crlf pos (pre @ line @ crlf @ rest) = Some (pos + int (length line))"
  using find_crlf[OF assms(1), of rest]
  by (simp add: py_find_def find_from_def at_index_within assms(2))

lemma py_find_none:
  assumes "13 \<notin> set (butlast line)" "pos = int (length pre)"
  shows "py_find crlf pos (pre @ line) = None"
proof -
  have "find_sub crlf line = None"
    using assms(1) by (cases line rule: rev_cases) (auto simp: find_sub_None sublist_def crlf_def append_eq_append_conv2 Cons_eq_append_conv append_eq_Cons_conv)
  then show ?thesis by (simp add: py_find_def find_from_def at_index_within assms(2))
qed

lemma py_slice_middle: "a = int (length pre) \<Longrightarrow> b = a + int (length m) \<Longrightarrow> py_slice a b (pre @ m @ rest) = m"
  by (simp add: py_slice_def at_index_within slice_def nat_add_distrib)

lemma dechunk_step:
  assumes "13 \<notin> set xt" "c \<noteq> []"
  shows "dechunk_loop (pre @ size_line (length c) xt @ crlf @ c @ rest) (int (length pre)) out
    = dechunk_loop (pre @ size_line (length c) xt @ crlf @ c @ rest)
        (int (length pre + length (size_line (length c) xt) + length c + 4)) (out @ c)"
proof -
  let ?l = "size_line (length c) xt" and ?p = "int (length pre)"
  let ?d = "pre @ ?l @ crlf @ c @ rest"
  have f: "py_find crlf ?p ?d = Some (?p + int (length ?l))" by (rule py_find_line[OF size_line_no_cr[OF assms(1)] refl])
  have s: "py_slice ?p (?p + int (length ?l)) ?d = ?l" by (rule py_slice_middle) simp_all
  have d: "py_slice (?p + int (length ?l) + 2) (?p + int (length ?l) + 2 + int (length c)) ?d = c"
    using py_slice_middle[of "?p + int (length ?l) + 2" "pre @ ?l @ crlf" "?p + int (length ?l) + 2 + int (length c)" c rest]
    by (simp add: crlf_def)
  show ?thesis
    using assms(2) f s d
    by (subst dechunk_loop.simps) (simp add: chunk_size_line crlf_def algebra_simps)
qed

lemma dechunk_short:
  assumes "13 \<notin> set xt" "c \<noteq> []" "length rest < length c"
  shows "dechunk_loop (pre @ size_line (length c) xt @ crlf @ rest) (int (length pre)) out = Some (False, out)"
proof -
  let ?l = "size_line (length c) xt" and ?p = "int (length pre)"
  let ?d = "pre @ ?l @ crlf @ rest"
  have f: "py_find crlf ?p ?d = Some (?p + int (length ?l))" by (rule py_find_line[OF size_line_no_cr[OF assms(1)] refl])
  have s: "py_slice ?p (?p + int (length ?l)) ?d = ?l" by (rule py_slice_middle) simp_all
  show ?thesis
    using assms(2,3) f s by (subst dechunk_loop.simps) (simp add: chunk_size_line crlf_def)
qed

lemma dechunk_no_line:
  assumes "13 \<notin> set (butlast line)"
  shows "dechunk_loop (pre @ line) (int (length pre)) out = Some (False, out)"
  using py_find_none[OF assms refl, of pre] by (subst dechunk_loop.simps) simp

lemma dechunk_past: "int (length data) \<le> pos \<Longrightarrow> dechunk_loop data pos out = Some (False, out)"
  by (subst dechunk_loop.simps) simp

lemma dechunk_last:
  assumes "13 \<notin> set xt"
  shows "dechunk_loop (pre @ size_line 0 xt @ crlf @ rest) (int (length pre)) out = Some (True, out)"
proof -
  let ?l = "size_line 0 xt" and ?p = "int (length pre)"
  let ?d = "pre @ ?l @ crlf @ rest"
  have f: "py_find crlf ?p ?d = Some (?p + int (length ?l))" by (rule py_find_line[OF size_line_no_cr[OF assms(1)] refl])
  have s: "py_slice ?p (?p + int (length ?l)) ?d = ?l" by (rule py_slice_middle) simp_all
  show ?thesis using f s by (subst dechunk_loop.simps) (simp add: chunk_size_line crlf_def)
qed

lemma dechunk_chunks:
  "list_all chunk_ok cs \<Longrightarrow> 13 \<notin> set xt \<Longrightarrow>
    dechunk_loop (pre @ concat (map chunk_bytes cs) @ size_line 0 xt @ crlf @ rest) (int (length pre)) out
      = Some (True, out @ concat (map snd cs))"
proof (induction cs arbitrary: pre out)
  case (Cons x cs)
  obtain x1 c where x: "x = (x1, c)" by (cases x)
  have k: "13 \<notin> set x1" "c \<noteq> []" "list_all chunk_ok cs" using Cons.prems(1) by (simp_all add: x chunk_ok_def)
  let ?R = "concat (map chunk_bytes cs) @ size_line 0 xt @ crlf @ rest"
  have "dechunk_loop (pre @ size_line (length c) x1 @ crlf @ c @ crlf @ ?R) (int (length pre)) out
      = dechunk_loop ((pre @ chunk_bytes x) @ ?R) (int (length (pre @ chunk_bytes x))) (out @ c)"
    using dechunk_step[OF k(1,2), of pre "crlf @ ?R" out] by (simp add: x chunk_bytes_def crlf_def algebra_simps)
  then show ?case using Cons.IH[OF k(3) Cons.prems(2), of "pre @ chunk_bytes x" "out @ c"] by (simp add: x chunk_bytes_def)
qed (simp add: dechunk_last)

lemma strict_prefix_split: "strict_prefix t (a @ b) \<Longrightarrow> strict_prefix t a \<or> (\<exists>r. t = a @ r \<and> strict_prefix r b)"
  by (auto simp: strict_prefix_def prefix_append)

lemma dechunk_cut:
  "list_all chunk_ok cs \<Longrightarrow> 13 \<notin> set xt \<Longrightarrow> strict_prefix t (concat (map chunk_bytes cs) @ size_line 0 xt @ crlf) \<Longrightarrow>
    \<exists>out'. dechunk_loop (pre @ t) (int (length pre)) out = Some (False, out')"
proof (induction cs arbitrary: pre t out)
  case Nil
  then have "strict_prefix t ((size_line 0 xt @ [13]) @ [10])" by (simp add: crlf_def)
  then have "prefix t (size_line 0 xt @ [13])" by (metis prefix_order.less_le prefix_snoc)
  then have "13 \<notin> set (butlast t)"
    using size_line_no_cr[OF Nil.prems(2), of 0] by (auto simp: prefix_snoc dest: in_set_butlastD set_mono_prefix)
  then show ?case using dechunk_no_line by blast
next
  case (Cons x cs)
  obtain x1 c where x: "x = (x1, c)" by (cases x)
  have k: "13 \<notin> set x1" "c \<noteq> []" "list_all chunk_ok cs" using Cons.prems(1) by (simp_all add: x chunk_ok_def)
  let ?l = "size_line (length c) x1" and ?R = "concat (map chunk_bytes cs) @ size_line 0 xt @ crlf"
  have p: "strict_prefix t (?l @ crlf @ c @ crlf @ ?R)" using Cons.prems(3) by (simp add: x chunk_bytes_def)
  consider (a) "strict_prefix t ((?l @ [13]) @ [10])" | (b) r where "t = ?l @ crlf @ r" "strict_prefix r (c @ crlf @ ?R)"
    using strict_prefix_split[of t "?l @ crlf" "c @ crlf @ ?R"] p by (auto simp: crlf_def)
  then show ?case
  proof cases
    case a
    then have "prefix t (?l @ [13])" by (metis prefix_order.less_le prefix_snoc)
    then have "13 \<notin> set (butlast t)"
      using size_line_no_cr[OF k(1), of "length c"] by (auto simp: prefix_snoc dest: in_set_butlastD set_mono_prefix)
    then show ?thesis using dechunk_no_line by blast
  next
    case b
    show ?thesis
    proof (cases "length r < length c")
      case True
      then show ?thesis using dechunk_short[OF k(1,2) True, of pre out] b(1) by simp
    next
      case False
      then obtain q where q: "r = c @ q" "strict_prefix q (crlf @ ?R)"
        using strict_prefix_split[OF b(2)] prefix_length_less by blast
      have s: "dechunk_loop (pre @ t) (int (length pre)) out
          = dechunk_loop (pre @ t) (int (length pre + length ?l + length c + 4)) (out @ c)"
        using dechunk_step[OF k(1,2), of pre q out] by (simp add: b(1) q(1))
      show ?thesis
      proof (cases "length q < 2")
        case True
        then show ?thesis using s dechunk_past[of "pre @ t"] by (simp add: b(1) q(1) crlf_def)
      next
        case False
        then obtain t' where t': "q = crlf @ t'" "strict_prefix t' ?R"
          using strict_prefix_split[OF q(2)] prefix_length_less[of q crlf] by (auto simp: crlf_def)
        have "pre @ t = (pre @ chunk_bytes x) @ t'" by (simp add: b(1) q(1) t'(1) x chunk_bytes_def)
        then show ?thesis
          using s Cons.IH[OF k(3) Cons.prems(2) t'(2), of "pre @ chunk_bytes x" "out @ c"]
          by (simp add: b(1) q(1) t'(1) x chunk_bytes_def crlf_def algebra_simps)
      qed
    qed
  qed
qed

section \<open>What the decoder guarantees\<close>

text \<open>A chunked body, with any chunk extensions, decodes to exactly its data, whatever trailer follows the last
  chunk; and a body cut anywhere before the end of the last chunk's line is an error, never a shorter body.\<close>

theorem chunked_body_exact:
  assumes "list_all chunk_ok cs" "13 \<notin> set xt"
  shows "dechunk (concat (map chunk_bytes cs) @ size_line 0 xt @ crlf @ trailer) = Some (Inr (concat (map snd cs)))
    \<and> (\<forall>t. strict_prefix t (concat (map chunk_bytes cs) @ size_line 0 xt @ crlf) \<longrightarrow> dechunk t = Some (Inl OSErr))"
  using dechunk_chunks[OF assms, of "[]" trailer "[]"] dechunk_cut[OF assms, of _ "[]" "[]"]
  by (fastforce simp: dechunk_def)

theorem chunked_body_exact_witness:
  "dechunk (B ''3;q'' @ crlf @ [7, 8, 9] @ crlf @ B ''0'' @ crlf @ crlf) = Some (Inr [7, 8, 9])
    \<and> dechunk (B ''3;q'' @ crlf @ [7, 8]) = Some (Inl OSErr)"
proof -
  have s: "size_line 3 (B ''q'') = B ''3;q''" "size_line 0 [] = B ''0''"
    by (simp_all add: size_line_def show_hex.simps hex_digit_def B_def)
  have k: "list_all chunk_ok [(B ''q'', [7, 8, 9])]" "13 \<notin> set ([] :: bytes)"
    by (simp_all add: chunk_ok_def B_def)
  show ?thesis
    using chunked_body_exact[OF k, of crlf] s
    by (simp add: chunk_bytes_def strict_prefix_def numeral_3_eq_3[symmetric])
qed

lemma set_strip_with: "set (strip_with p xs) \<subseteq> set xs"
proof
  fix x assume "x \<in> set (strip_with p xs)"
  then have "x \<in> set (dropWhile p (rev (dropWhile p xs)))" by (simp add: strip_with_def rdropWhile_def)
  then have "x \<in> set (dropWhile p xs)" using set_dropWhileD by fastforce
  then show "x \<in> set xs" by (rule set_dropWhileD)
qed

lemma digits_nonneg: "py_int base s = Some n \<Longrightarrow> 45 \<notin> set s \<Longrightarrow> 0 \<le> n"
proof -
  assume a: "py_int base s = Some n" "45 \<notin> set s"
  have "45 \<notin> set (py_strip s)" using set_strip_with[of is_space s] a(2) by (auto simp: py_strip_def)
  then show ?thesis using a(1) by (auto simp: py_int_def Let_def split: list.splits if_splits)
qed

lemma chunk_size_nonneg:
  assumes "chunk_size line = Some n" "45 \<notin> set line"
  shows "0 \<le> n"
proof -
  let ?s = "strip_with byte_blank (takeWhile (\<lambda>b. b \<noteq> 59) line)"
  have "set ?s \<subseteq> set line"
    using set_strip_with[of byte_blank "takeWhile (\<lambda>b. b \<noteq> 59) line"] by (auto dest: set_takeWhileD)
  then have "45 \<notin> set ?s" using assms(2) by blast
  moreover have "unat b \<noteq> 45" if "b \<noteq> 45" for b :: byte
    using that word_unat_eq_iff[of b 45] by simp
  ultimately have "45 \<notin> set (map unat ?s)" by force
  then show ?thesis using assms(1) digits_nonneg by (auto simp: chunk_size_def int16_bytes_def Let_def split: if_splits)
qed

lemma py_find_bounds:
  assumes "py_find crlf pos data = Some nl" "0 \<le> pos" "pos < int (length data)"
  shows "pos \<le> nl \<and> nl + 2 \<le> int (length data)"
proof -
  obtain i where i: "find_sub crlf (drop (nat pos) data) = Some i" "nl = int (i + nat pos)"
    using assms by (auto simp: py_find_def find_from_def at_index_within)
  show ?thesis using find_sub_Some[OF i(1)] i(2) assms(2,3) by (auto simp: crlf_def)
qed

lemma dechunk_loop_returns:
  "45 \<notin> set data \<Longrightarrow> 0 \<le> pos \<Longrightarrow> \<exists>r. dechunk_loop data pos out = Some r"
proof (induction "nat (int (length data) - pos)" arbitrary: pos out rule: less_induct)
  case less
  show ?case
  proof (cases "pos < int (length data)")
    case True
    show ?thesis
    proof (cases "py_find crlf pos data")
      case None
      then show ?thesis using True by (subst dechunk_loop.simps) auto
    next
      case (Some nl)
      note b = py_find_bounds[OF Some less.prems(2) True]
      have sub: "45 \<notin> set (py_slice pos nl data)"
        using less.prems(1) by (auto simp: py_slice_def slice_def dest: in_set_takeD in_set_dropD)
      show ?thesis
      proof (cases "\<exists>sz. chunk_size (py_slice pos nl data) = Some sz \<and> sz \<noteq> 0 \<and> nl + 2 + sz \<le> int (length data)")
        case True
        then obtain sz where s: "chunk_size (py_slice pos nl data) = Some sz" "sz \<noteq> 0" "nl + 2 + sz \<le> int (length data)" by blast
        have "0 \<le> sz" by (rule chunk_size_nonneg[OF s(1) sub])
        then have "nat (int (length data) - (nl + 2 + sz + 2)) < nat (int (length data) - pos)" "0 \<le> nl + 2 + sz + 2"
          using b \<open>pos < int (length data)\<close> less.prems(2) by auto
        then show ?thesis
          using less.hyps[of "nl + 2 + sz + 2" "out @ py_slice (nl + 2) (nl + 2 + sz) data"] less.prems(1) s Some
            \<open>pos < int (length data)\<close>
          by (subst dechunk_loop.simps) simp
      next
        case False
        then show ?thesis using Some \<open>pos < int (length data)\<close>
          by (subst dechunk_loop.simps) (auto split: option.split)
      qed
    qed
  qed (auto simp: dechunk_past)
qed

lemma dechunk_spins: "dechunk (B ''-6'' @ crlf) = None"
proof -
  have "dechunk_loop (B ''-6'' @ crlf) 0 [] = Some r \<Longrightarrow> False" for r
  proof (rule dechunk_loop.raw_induct[where P = "\<lambda>data pos out r. \<not> (data = B ''-6'' @ crlf \<and> pos = 0 \<and> out = [])", THEN notE])
    have e: "py_find crlf 0 (B ''-6'' @ crlf) = Some 2" "chunk_size (py_slice 0 2 (B ''-6'' @ crlf)) = Some (- 6)"
      "py_slice 4 (- 2) (B ''-6'' @ crlf) = []"
      by (simp_all add: py_find_def find_from_def at_index_def B_def crlf_def py_slice_def slice_def chunk_size_def int16_bytes_def
          strip_with_def rdropWhile_def byte_blank_def strip_eval digit_eval strip_0x_def)
    fix f data pos out r
    assume "\<And>data pos out r. f data pos out = Some r \<Longrightarrow> \<not> (data = B ''-6'' @ crlf \<and> pos = 0 \<and> out = [])"
      "(if pos < int (length data) then
        (case py_find crlf pos data of
           None \<Rightarrow> Some (False, out)
         | Some nl \<Rightarrow>
             (case chunk_size (py_slice pos nl data) of
                None \<Rightarrow> Some (False, out)
              | Some sz \<Rightarrow>
                  if sz = 0 then Some (True, out)
                  else if nl + 2 + sz > int (length data) then Some (False, out)
                  else f data (nl + 2 + sz + 2) (out @ py_slice (nl + 2) (nl + 2 + sz) data)))
      else Some (False, out)) = Some r"
    then show "\<not> (data = B ''-6'' @ crlf \<and> pos = 0 \<and> out = [])" using e by (cases r) (fastforce simp: B_def crlf_def)
  qed auto
  then show ?thesis by (cases "dechunk_loop (B ''-6'' @ crlf) 0 []") (auto simp: dechunk_def)
qed

text \<open>The chunk decoder returns on every input without a minus sign, since each turn then moves forward; a negative
  chunk size, which Python's \<open>int\<close> accepts, can make it turn for ever.\<close>

theorem dechunk_returns:
  assumes "45 \<notin> set data"
  shows "(\<exists>r. dechunk data = Some r) \<and> dechunk (B ''-6'' @ crlf) = None"
  using dechunk_loop_returns[OF assms, of 0 "[]"] dechunk_spins by (auto simp: dechunk_def)

theorem dechunk_returns_witness: "\<exists>r. dechunk (B ''3'' @ crlf @ [1]) = Some r"
  using dechunk_returns[of "B ''3'' @ crlf @ [1]"] by (simp add: B_def crlf_def)

section \<open>Data files are never damaged\<close>

text \<open>A body some mirror delivered complete, asked with these headers, and a 304 as the answer to them.\<close>

definition complete_direct :: "direct_reply \<Rightarrow> bool" where
  "complete_direct d \<longleftrightarrow> (case expected_length (dr_length d) of
     Inr (Some n) \<Rightarrow> n \<le> int (length (dr_body d)) | Inr None \<Rightarrow> True | Inl e \<Rightarrow> False)"

definition delivered :: "geo_sources \<Rightarrow> http_headers \<Rightarrow> bytes \<Rightarrow> bool" where
  "delivered src hs b \<longleftrightarrow>
     (\<exists>i u. (\<exists>get st rh. gs_tunnel src = Some get \<and> get i hs u = Some (Inr (st, rh, b)) \<and> st \<noteq> 304)
       \<or> (\<exists>d. gs_direct src i hs u = DirectReply d \<and> dr_body d = b \<and> complete_direct d))"

definition answered_304 :: "geo_sources \<Rightarrow> http_headers \<Rightarrow> bool" where
  "answered_304 src hs \<longleftrightarrow>
     (\<exists>i u. (\<exists>get rh b. gs_tunnel src = Some get \<and> get i hs u = Some (Inr (304, rh, b))) \<or> gs_direct src i hs u = Direct304)"

text \<open>What an attempt, or a sequence of attempts, may do to the files and the table.\<close>

definition tmp_of :: "pystr \<Rightarrow> pystr" where
  "tmp_of dest = dest @ U ''.tmp''"

definition fetch_safe :: "geo_sources \<Rightarrow> http_headers \<Rightarrow> pystr \<Rightarrow> pystr \<Rightarrow> geo_world \<Rightarrow> bool \<times> geo_world \<Rightarrow> bool" where
  "fetch_safe src hs key dest w r \<longleftrightarrow>
     (\<forall>p. p \<noteq> dest \<longrightarrow> p \<noteq> tmp_of dest \<longrightarrow> gw_files (snd r) p = gw_files w p)
     \<and> (gw_files (snd r) dest = gw_files w dest
        \<or> (\<exists>b. gw_files (snd r) dest = Some b \<and> min_dat_size \<le> length b \<and> delivered src hs b))
     \<and> (gw_files w (tmp_of dest) = None \<longrightarrow> gw_files (snd r) (tmp_of dest) = None)
     \<and> (\<forall>k. k \<noteq> key \<longrightarrow> od_get (gw_meta (snd r)) k = od_get (gw_meta w) k)
     \<and> (if fst r then gw_files (snd r) dest \<noteq> None \<or> answered_304 src hs
        else gw_meta (snd r) = gw_meta w \<and> gw_files (snd r) dest = gw_files w dest)"

lemma tmp_other [simp]: "tmp_of dest \<noteq> dest" "dest \<noteq> tmp_of dest"
  by (simp_all add: tmp_of_def)

lemma record_other [simp]: "k \<noteq> key \<Longrightarrow> od_get (record_fetch key u now r m) k = od_get m k"
  by (simp add: record_fetch_def)

lemma save_cases:
  obtains "save_body dest body fs = (Inl OSErr, fs(tmp_of dest := None))"
  | "save_body dest body fs = (Inr (), fs(tmp_of dest := None, dest := Some body))" "min_dat_size \<le> length body"
  by (cases "length body < min_dat_size") (auto simp: save_body_def Let_def tmp_of_def)

lemma tunnel_step_safe:
  assumes "tunnel_step src key dest etag lm i u w = Some r"
  shows "fetch_safe src (conditional_headers etag lm) key dest w r"
proof (cases "gs_tunnel src")
  case None
  then show ?thesis using assms by (auto simp: tunnel_step_def fetch_safe_def)
next
  case (Some get)
  obtain reply where g: "get i (conditional_headers etag lm) u = Some reply"
    using assms Some by (auto simp: tunnel_step_def split: option.splits)
  show ?thesis
  proof (cases reply)
    case (Inl e)
    then show ?thesis using assms Some g by (auto simp: tunnel_step_def fetch_safe_def download_via_tunnel_def)
  next
    case (Inr x)
    obtain st rh b where x: "x = (st, rh, b)" by (cases x)
    show ?thesis
    proof (cases "st = 304")
      case True
      then have "answered_304 src (conditional_headers etag lm)"
        unfolding answered_304_def using Some g Inr x by blast
      then show ?thesis using assms Some g Inr x True
        by (auto simp: tunnel_step_def fetch_safe_def download_via_tunnel_def)
    next
      case False
      then have d: "delivered src (conditional_headers etag lm) b"
        unfolding delivered_def using Some g Inr x by blast
      show ?thesis
        by (rule save_cases[of dest b "gw_files w"])
          (use assms Some g Inr x False d in \<open>auto simp: tunnel_step_def fetch_safe_def download_via_tunnel_def\<close>)
    qed
  qed
qed

lemma direct_step_safe: "fetch_safe src (conditional_headers etag lm) key dest w (direct_step src key dest etag lm i u w)"
proof (cases "gs_direct src i (conditional_headers etag lm) u")
  case Direct304
  then have "answered_304 src (conditional_headers etag lm)" unfolding answered_304_def by blast
  then show ?thesis using Direct304 by (auto simp: direct_step_def fetch_safe_def download_direct_def)
next
  case (DirectFailed e)
  then show ?thesis by (auto simp: direct_step_def fetch_safe_def download_direct_def Let_def tmp_of_def)
next
  case (DirectReply d)
  show ?thesis
  proof (cases "complete_direct d")
    case True
    then have v: "delivered src (conditional_headers etag lm) (dr_body d)"
      unfolding delivered_def using DirectReply by blast
    obtain e where e: "expected_length (dr_length d) = Inr e" "case e of Some n \<Rightarrow> n \<le> int (length (dr_body d)) | None \<Rightarrow> True"
      using True by (auto simp: complete_direct_def split: sum.splits)
    show ?thesis
      by (rule save_cases[of dest "dr_body d" "gw_files w"])
        (use DirectReply e v in \<open>auto simp: direct_step_def fetch_safe_def download_direct_def Let_def split: option.splits\<close>)
  next
    case False
    then show ?thesis using DirectReply
      by (auto simp: direct_step_def fetch_safe_def download_direct_def Let_def complete_direct_def tmp_of_def
          split: sum.splits option.splits)
  qed
qed

lemma fetch_safe_trans:
  assumes "fetch_safe src hs key dest w (False, w1)" "fetch_safe src hs key dest w1 r"
  shows "fetch_safe src hs key dest w r"
  using assms unfolding fetch_safe_def by (auto split: if_splits)

lemma try_mirrors_safe:
  "try_mirrors src key dest etag lm i us w = Some r \<Longrightarrow> fetch_safe src (conditional_headers etag lm) key dest w r"
proof (induction us arbitrary: i w)
  case Nil
  then show ?case by (auto simp: fetch_safe_def)
next
  case (Cons u us)
  obtain ok w1 where t: "tunnel_step src key dest etag lm i u w = Some (ok, w1)"
    using Cons.prems by (auto split: option.splits)
  note s1 = tunnel_step_safe[OF t]
  obtain ok2 w2 where d: "direct_step src key dest etag lm i u w1 = (ok2, w2)" by fastforce
  note s2 = direct_step_safe[of src etag lm key dest w1 i u, unfolded d]
  show ?case
  proof (cases ok)
    case True
    then show ?thesis using s1 t Cons.prems by simp
  next
    case False
    have s12: "fetch_safe src (conditional_headers etag lm) key dest w (ok2, w2)"
      by (rule fetch_safe_trans[OF _ s2]) (use s1 False in simp)
    show ?thesis
    proof (cases ok2)
      case True
      then show ?thesis using s12 t d False Cons.prems by simp
    next
      case not: False
      then have "try_mirrors src key dest etag lm (Suc i) us w2 = Some r" using t d False Cons.prems by simp
      from Cons.IH[OF this] show ?thesis by (rule fetch_safe_trans[rotated]) (use s12 not in simp)
    qed
  qed
qed


text \<open>One mirror that serves 100 KB directly, no file yet.\<close>

definition sample_sources :: geo_sources where
  "sample_sources = \<lparr> gs_tunnel = None,
     gs_direct = (\<lambda>i hs u. DirectReply \<lparr> dr_etag = None, dr_lm = None, dr_length = None, dr_body = replicate min_dat_size 1 \<rparr>),
     gs_clock = (\<lambda>i. 5) \<rparr>"

definition sample_world :: geo_world where
  "sample_world = \<lparr> gw_files = (\<lambda>p. None), gw_meta = [] \<rparr>"


end
