(* ===== verification/Config.thy ===== *)
theory Config
  imports Complex_Main "HOL-Library.List_Lexorder" Json
begin

text \<open>
  \<open>core/config.py\<close>: the checks of a configuration, the defaults filled in, and the older top-level keys
  derived from its sections.  The file's JSON value is the input; a \<open>ConfigError\<close> is told from the other
  exceptions the code can raise on odd values; log records are the list of notes returned with the result.
\<close>

datatype cfg_error = ConfigError | Raised py_error

datatype cfg_note = LegacyKeys "pystr list" | NoVersion | DeprecatedKeys "pystr list" | UnknownKeys "pystr list"
  | FirstResolver pystr | ExposedApi pystr | TuningKeys "pystr list"

section \<open>Key tables\<close>

definition client_keys :: "pystr list" where
  "client_keys = map U [''schema_version'', ''log'', ''log_levels'', ''inbounds'', ''outbounds'', ''route'', ''dns'',
     ''api'', ''tuning'', ''geosite_dir'', ''tproxy_port'', ''geosite_sources'', ''geoip_sources'',
     ''geosite_update_days'', ''rules'', ''default'', ''final'', ''geo_refresh_check_sec'']"

definition server_keys :: "pystr list" where
  "server_keys = map U [''listen_host'', ''listen_port'', ''password'', ''camouflage_host'', ''camouflage_port'',
     ''admin_host'', ''admin_port'', ''admin_token'', ''egresses'', ''egress_rules'', ''access_log'',
     ''idle_timeout_sec'', ''max_conns_per_ip'', ''tcp_keepalive'', ''drain_threshold'']"

definition top_keys :: "pystr list" where
  "top_keys = client_keys @ server_keys"

definition legacy_keys :: "pystr list" where
  "legacy_keys = map U [''server_host'', ''server_port'', ''password'', ''camouflage_host'', ''socks5_host'',
     ''socks5_port'', ''pool_size'', ''brutal_rate_bps'', ''brutal_pool_size'']"

definition deprecated_dns_keys :: "pystr list" where
  "deprecated_dns_keys = map U [''cn_dns'', ''remote_dns'', ''dns_listen_host'', ''dns_listen_port'']"

definition dns_match_prefixes :: "pystr list" where
  "dns_match_prefixes = map U [''domain:'', ''domain-suffix:'', ''domain-keyword:'', ''domain-regex:'', ''geosite:'',
     ''ipcidr:'', ''geoip:'']"

definition dns_strategies :: "pystr list" where
  "dns_strategies = map U [''prefer_ipv4'', ''prefer_ipv6'', ''ipv4_only'', ''ipv6_only'']"

definition inbound_types :: "pystr list" where
  "inbound_types = map U [''socks5'', ''http'', ''mixed'']"

section \<open>Tests on values\<close>

definition full_str :: "json option \<Rightarrow> bool" where
  "full_str v \<longleftrightarrow> (case v of Some (JStr s) \<Rightarrow> s \<noteq> [] | _ \<Rightarrow> False)"

definition str_val :: "json option \<Rightarrow> pystr" where
  "str_val v = (case v of Some (JStr s) \<Rightarrow> s | _ \<Rightarrow> [])"

definition truthy_opt :: "json option \<Rightarrow> bool" where
  "truthy_opt v \<longleftrightarrow> (case v of Some x \<Rightarrow> truthy x | None \<Rightarrow> False)"

definition absent :: "json option \<Rightarrow> bool" where
  "absent v \<longleftrightarrow> v = None \<or> v = Some JNull"

definition check :: "bool \<Rightarrow> cfg_error + unit" where
  "check b = (if b then Inr () else Inl ConfigError)"

fun check_each :: "('a \<Rightarrow> cfg_error + unit) \<Rightarrow> 'a list \<Rightarrow> cfg_error + unit" where
  "check_each f [] = Inr ()"
| "check_each f (x # xs) = bindE (f x) (\<lambda>_. check_each f xs)"

section \<open>Checks\<close>

definition looks_like_legacy :: "(pystr, json) odict \<Rightarrow> bool" where
  "looks_like_legacy raw \<longleftrightarrow> list_ex (\<lambda>k. od_mem k raw) legacy_keys"

definition warn_unknown_top_keys :: "(pystr, json) odict \<Rightarrow> cfg_note list" where
  "warn_unknown_top_keys raw =
     (let unknown = filter (\<lambda>k. k \<notin> set top_keys) (sort (od_keys raw));
          deprecated = filter (\<lambda>k. k \<in> set deprecated_dns_keys) unknown;
          rest = filter (\<lambda>k. k \<notin> set deprecated_dns_keys) unknown
      in (if deprecated = [] then [] else [DeprecatedKeys deprecated]) @ (if rest = [] then [] else [UnknownKeys rest]))"

definition validate_inbound :: "json \<Rightarrow> cfg_error + unit" where
  "validate_inbound ib = check (is_obj ib \<and> jget ib (U ''type'') \<in> (Some \<circ> JStr) ` set inbound_types
     \<and> full_str (jget ib (U ''listen'')) \<and> 58 \<in> set (str_val (jget ib (U ''listen''))))"

definition validate_inbounds :: "json option \<Rightarrow> cfg_error + unit" where
  "validate_inbounds inbounds =
     (if absent inbounds then Inr ()
      else case inbounds of Some (JList xs) \<Rightarrow> check_each validate_inbound xs | _ \<Rightarrow> Inl ConfigError)"

fun validate_resolvers :: "json list \<Rightarrow> pystr list \<Rightarrow> cfg_error + pystr list" where
  "validate_resolvers [] tags = Inr tags"
| "validate_resolvers (r # rs) tags =
     bindE (check (is_obj r \<and> full_str (jget r (U ''tag'')) \<and> str_val (jget r (U ''tag'')) \<notin> set tags
       \<and> full_str (jget r (U ''address'')) \<and> full_str (jget r (U ''via''))))
     (\<lambda>_. validate_resolvers rs (tags @ [str_val (jget r (U ''tag''))]))"

definition validate_dns_rule :: "pystr list \<Rightarrow> json \<Rightarrow> cfg_error + unit" where
  "validate_dns_rule tags rule = check (is_obj rule \<and> full_str (jget rule (U ''match''))
     \<and> list_ex (\<lambda>p. prefix p (str_val (jget rule (U ''match'')))) dns_match_prefixes
     \<and> full_str (jget rule (U ''use'')) \<and> str_val (jget rule (U ''use'')) \<in> set tags)"

definition validate_strategy :: "json option \<Rightarrow> cfg_error + unit" where
  "validate_strategy v =
     (if absent v then Inr ()
      else if \<not> hashable (the v) then Inl (Raised TypeError)
      else check (v \<in> (Some \<circ> JStr) ` set dns_strategies))"

text \<open>\<open>dns.get(k, [])\<close>, which has to be a list.\<close>

definition list_field :: "json \<Rightarrow> pystr \<Rightarrow> cfg_error + json list" where
  "list_field d k = (case jget d k of None \<Rightarrow> Inr [] | Some (JList xs) \<Rightarrow> Inr xs | _ \<Rightarrow> Inl ConfigError)"

definition validate_dns :: "json option \<Rightarrow> cfg_error + unit" where
  "validate_dns dns =
     (if absent dns \<or> dns = Some (JObj []) then Inr ()
      else let d = the dns in
        bindE (check (is_obj d)) (\<lambda>_.
        bindE (list_field d (U ''resolvers'')) (\<lambda>resolvers.
        bindE (validate_resolvers resolvers []) (\<lambda>tags.
        bindE (check (absent (jget d (U ''default'')) \<or> jget d (U ''default'') \<in> (Some \<circ> JStr) ` set tags)) (\<lambda>_.
        bindE (list_field d (U ''rules'')) (\<lambda>rules.
        bindE (check_each (validate_dns_rule tags) rules) (\<lambda>_.
        bindE (validate_strategy (jget d (U ''strategy''))) (\<lambda>_.
          check_each (\<lambda>k. check (absent (jget d k) \<or> is_obj (the (jget d k)))) (map U [''cache'', ''hosts'', ''fakeip''])))))))))"

definition validate_api :: "json option \<Rightarrow> cfg_error + cfg_note list" where
  "validate_api api =
     (if absent api \<or> api = Some (JObj []) then Inr []
      else let a = the api; listen = jget a (U ''listen'') in
        bindE (check (is_obj a)) (\<lambda>_.
          if \<not> truthy_opt listen then Inr []
          else bindE (check (full_str listen \<and> 58 \<in> set (str_val listen))) (\<lambda>_.
            let host = (case rpartition1 58 (str_val listen) of Some (h, p) \<Rightarrow> h | None \<Rightarrow> []) in
            bindE (check (full_str (jget a (U ''secret'')))) (\<lambda>_.
              Inr (if host \<in> set (map U [''127.0.0.1'', ''::1'', ''localhost'']) then [] else [ExposedApi host])))))"

definition log_tuning_overrides :: "json option \<Rightarrow> cfg_error + cfg_note list" where
  "log_tuning_overrides tuning =
     (if \<not> truthy_opt tuning then Inr []
      else case tuning of Some (JObj d) \<Rightarrow> Inr [TuningKeys (sort (od_keys d))] | _ \<Rightarrow> Inl ConfigError)"

section \<open>Defaults and the older keys\<close>

definition apply_dns_defaults :: "(pystr, json) odict \<Rightarrow> cfg_note list \<times> (pystr, json) odict" where
  "apply_dns_defaults raw =
     (case od_get raw (U ''dns'') of
        Some (JObj d) \<Rightarrow>
          if d = [] \<or> truthy_opt (jget (JObj d) (U ''default'')) then ([], raw)
          else (case jget (JObj d) (U ''resolvers'') of
              Some (JList (r # rs)) \<Rightarrow>
                let tag = str_val (jget r (U ''tag'')) in
                ([FirstResolver tag], od_set (U ''dns'') (JObj (od_set (U ''default'') (JStr tag) d)) raw)
            | _ \<Rightarrow> ([], raw))
      | _ \<Rightarrow> ([], raw))"

definition set_default :: "string \<Rightarrow> json \<Rightarrow> (pystr, json) odict \<Rightarrow> (pystr, json) odict" where
  "set_default k v d = (if od_mem (U k) d then d else od_set (U k) v d)"

definition is_socks_inbound :: "json \<Rightarrow> bool" where
  "is_socks_inbound ib \<longleftrightarrow> jget ib (U ''type'') \<in> {Some (JStr (U ''socks5'')), Some (JStr (U ''mixed''))}"

text \<open>\<open>host, port = listen.rsplit(":", 1)\<close> with \<open>int(port)\<close>; the text has a colon.\<close>

definition host_port :: "pystr \<Rightarrow> cfg_error + (json \<times> json)" where
  "host_port listen =
     (case rpartition1 58 listen of
        None \<Rightarrow> Inl (Raised ValueError)
      | Some (h, p) \<Rightarrow> (case py_int 10 p of None \<Rightarrow> Inl (Raised ValueError) | Some n \<Rightarrow> Inr (JStr h, JInt n)))"

definition project_listen :: "string \<Rightarrow> string \<Rightarrow> pystr \<Rightarrow> (pystr, json) odict \<Rightarrow> cfg_error + (pystr, json) odict" where
  "project_listen hk pk listen raw = bindE (host_port listen) (\<lambda>(h, p). Inr (set_default pk p (set_default hk h raw)))"

definition project_inbounds :: "(pystr, json) odict \<Rightarrow> cfg_error + (pystr, json) odict" where
  "project_inbounds raw =
     (case od_get raw (U ''inbounds'') of
        Some (JList xs) \<Rightarrow>
          (case find is_socks_inbound xs of
             None \<Rightarrow> Inr raw
           | Some ib \<Rightarrow> project_listen ''socks5_host'' ''socks5_port'' (str_val (jget ib (U ''listen''))) raw)
      | _ \<Rightarrow> Inr raw)"

text \<open>\<open>":" in v\<close>, then \<open>v.rsplit\<close>, for a value nobody has checked.\<close>

fun has_colon :: "json \<Rightarrow> cfg_error + bool" where
  "has_colon (JStr s) = Inr (58 \<in> set s)"
| "has_colon (JList xs) = Inr (JStr [58] \<in> set xs)"
| "has_colon (JObj d) = Inr (od_mem [58] d)"
| "has_colon j = Inl (Raised TypeError)"

definition project_dns_listen :: "json option \<Rightarrow> (pystr, json) odict \<Rightarrow> cfg_error + (pystr, json) odict" where
  "project_dns_listen v raw =
     (if \<not> truthy_opt v then Inr raw
      else bindE (has_colon (the v)) (\<lambda>b.
        if \<not> b then Inr raw
        else case v of
            Some (JStr s) \<Rightarrow> project_listen ''dns_listen_host'' ''dns_listen_port'' s raw
          | _ \<Rightarrow> Inl (Raised AttributeError)))"

definition project_field :: "string \<Rightarrow> json option \<Rightarrow> (pystr, json) odict \<Rightarrow> (pystr, json) odict" where
  "project_field k v raw = (if truthy_opt v then set_default k (the v) raw else raw)"

definition dns_block :: "(pystr, json) odict \<Rightarrow> json" where
  "dns_block raw = (case od_get raw (U ''dns'') of Some (JObj d) \<Rightarrow> JObj d | _ \<Rightarrow> JObj [])"

definition project_dns :: "(pystr, json) odict \<Rightarrow> cfg_error + (pystr, json) odict" where
  "project_dns raw =
     bindE (project_dns_listen (jget (dns_block raw) (U ''listen'')) raw) (\<lambda>raw1.
       Inr (project_field ''remote_dns'' (jget (dns_block raw) (U ''remote''))
         (project_field ''cn_dns'' (jget (dns_block raw) (U ''cn'')) raw1)))"

definition project_v1_to_legacy_keys :: "(pystr, json) odict \<Rightarrow> cfg_error + (pystr, json) odict" where
  "project_v1_to_legacy_keys raw = bindE (project_inbounds raw) project_dns"

section \<open>Loading\<close>

definition is_version_1 :: "json \<Rightarrow> bool" where
  "is_version_1 v \<longleftrightarrow> v \<in> {JInt 1, JBool True, JFloat 1}"

definition load_checked :: "(pystr, json) odict \<Rightarrow> cfg_error + (cfg_note list \<times> (pystr, json) odict)" where
  "load_checked raw =
     bindE (validate_inbounds (od_get raw (U ''inbounds''))) (\<lambda>_.
     bindE (validate_dns (od_get raw (U ''dns''))) (\<lambda>_.
     bindE (validate_api (od_get raw (U ''api''))) (\<lambda>api_notes.
     case apply_dns_defaults raw of (dns_notes, raw1) \<Rightarrow>
     bindE (project_v1_to_legacy_keys raw1) (\<lambda>raw2.
     bindE (log_tuning_overrides (od_get raw2 (U ''tuning''))) (\<lambda>tuning_notes.
       Inr (warn_unknown_top_keys raw @ api_notes @ dns_notes @ tuning_notes, raw2))))))"

fun load_config :: "json \<Rightarrow> cfg_error + (cfg_note list \<times> (pystr, json) odict)" where
  "load_config (JObj raw) =
     (let version = od_get raw (U ''schema_version'') in
      if absent version then
        if looks_like_legacy raw then
          Inr ([LegacyKeys (filter (\<lambda>k. k \<in> set legacy_keys) (sort (od_keys raw)))], raw)
        else bindE (load_checked raw) (\<lambda>(notes, cfg). Inr (NoVersion # notes, cfg))
      else if is_version_1 (the version) then load_checked raw
      else Inl ConfigError)"
| "load_config j = Inl ConfigError"

text \<open>The check after the outbounds are built.\<close>

definition check_via :: "pystr list \<Rightarrow> json \<Rightarrow> cfg_error + unit" where
  "check_via tags r =
     (if \<not> is_obj r then Inl (Raised AttributeError)
      else let via = jget r (U ''via'') in
        if \<not> truthy_opt via then Inr ()
        else if \<not> hashable (the via) then Inl (Raised TypeError)
        else check (via \<in> (Some \<circ> JStr) ` set tags))"

definition validate_cross_refs :: "(pystr, json) odict \<Rightarrow> pystr list \<Rightarrow> cfg_error + unit" where
  "validate_cross_refs cfg tags =
     (let dns = od_get cfg (U ''dns'') in
      if \<not> truthy_opt dns then Inr ()
      else if \<not> is_obj (the dns) then Inl (Raised AttributeError)
      else let rs = jget (the dns) (U ''resolvers'') in
        if \<not> truthy_opt rs then Inr ()
        else bindE (case py_iter (the rs) of Inl e \<Rightarrow> Inl (Raised e) | Inr xs \<Rightarrow> Inr xs) (check_each (check_via tags)))"

section \<open>What the checks establish\<close>

lemma check_Inr [simp]: "check b = Inr u \<longleftrightarrow> b"
  by (simp add: check_def)

lemma check_each_Inr: "check_each f xs = Inr () \<longleftrightarrow> (\<forall>x \<in> set xs. f x = Inr ())"
  by (induction xs) (auto simp: bindE_Inr_iff)

lemma full_str_iff: "full_str v \<longleftrightarrow> (\<exists>s. v = Some (JStr s) \<and> s \<noteq> [])"
  by (auto simp: full_str_def split: option.splits json.splits)

definition inbound_ok :: "json \<Rightarrow> bool" where
  "inbound_ok ib \<longleftrightarrow> (\<exists>t h p. jget ib (U ''type'') = Some (JStr t) \<and> t \<in> set inbound_types
     \<and> jget ib (U ''listen'') = Some (JStr (h @ 58 # p)))"

lemma validate_inbound_Inr:
  assumes "validate_inbound ib = Inr ()"
  shows "inbound_ok ib"
proof -
  obtain t l where "jget ib (U ''type'') = Some (JStr t)" "t \<in> set inbound_types"
      "jget ib (U ''listen'') = Some (JStr l)" "58 \<in> set l"
    using assms by (auto simp: validate_inbound_def full_str_iff str_val_def)
  then show ?thesis by (metis inbound_ok_def split_list)
qed

text \<open>The elements of a list field, none when the field is missing.\<close>

definition items :: "json option \<Rightarrow> json list" where
  "items v = (case v of Some (JList xs) \<Rightarrow> xs | _ \<Rightarrow> [])"

lemma validate_inbounds_Inr: "validate_inbounds v = Inr () \<Longrightarrow> \<forall>ib \<in> set (items v). inbound_ok ib"
  by (auto simp: validate_inbounds_def items_def check_each_Inr absent_def validate_inbound_Inr
      split: if_splits option.splits json.splits)

definition tag_of :: "json \<Rightarrow> pystr" where
  "tag_of r = str_val (jget r (U ''tag''))"

definition resolver_ok :: "json \<Rightarrow> bool" where
  "resolver_ok r \<longleftrightarrow> full_str (jget r (U ''tag'')) \<and> full_str (jget r (U ''address'')) \<and> full_str (jget r (U ''via''))"

lemma validate_resolvers_Inr:
  "validate_resolvers rs tags = Inr tags' \<Longrightarrow>
    tags' = tags @ map tag_of rs \<and> (distinct tags \<longrightarrow> distinct tags') \<and> (\<forall>r \<in> set rs. resolver_ok r \<and> is_obj r)"
proof (induction rs arbitrary: tags)
  case Nil
  then show ?case by simp
next
  case (Cons r rs)
  then have r: "is_obj r" "resolver_ok r" "tag_of r \<notin> set tags" and rest: "validate_resolvers rs (tags @ [tag_of r]) = Inr tags'"
    by (auto simp: bindE_Inr_iff tag_of_def resolver_ok_def)
  have "distinct tags \<Longrightarrow> distinct (tags @ [tag_of r])" using r by simp
  then have "distinct tags \<longrightarrow> distinct tags'" using Cons.IH[OF rest] by blast
  moreover have "tags' = tags @ map tag_of (r # rs) \<and> (\<forall>r \<in> set (r # rs). resolver_ok r \<and> is_obj r)"
    using Cons.IH[OF rest] r by simp
  ultimately show ?case by blast
qed

definition dns_ok :: "json \<Rightarrow> bool" where
  "dns_ok dns \<longleftrightarrow> (let rs = items (jget dns (U ''resolvers'')); tags = map tag_of rs in
     distinct tags \<and> (\<forall>r \<in> set rs. resolver_ok r)
     \<and> (\<forall>rule \<in> set (items (jget dns (U ''rules''))). jget rule (U ''use'') \<in> (Some \<circ> JStr) ` set tags)
     \<and> (absent (jget dns (U ''default'')) \<or> jget dns (U ''default'') \<in> (Some \<circ> JStr) ` set tags))"

lemma list_field_Inr: "list_field d k = Inr xs \<Longrightarrow> xs = items (jget d k)"
  by (auto simp: list_field_def items_def split: option.splits json.splits)

lemma validate_dns_Inr:
  assumes "validate_dns (Some dns) = Inr ()"
  shows "dns = JNull \<or> is_obj dns \<and> dns_ok dns"
proof (cases "absent (Some dns) \<or> dns = JObj []")
  case True
  then show ?thesis by (auto simp: absent_def dns_ok_def items_def)
next
  case False
  then obtain tags where o: "is_obj dns" and r: "validate_resolvers (items (jget dns (U ''resolvers''))) [] = Inr tags"
    and d: "absent (jget dns (U ''default'')) \<or> jget dns (U ''default'') \<in> (Some \<circ> JStr) ` set tags"
    and rules: "\<forall>rule \<in> set (items (jget dns (U ''rules''))). validate_dns_rule tags rule = Inr ()"
    using assms by (auto simp: validate_dns_def Let_def bindE_Inr_iff check_each_Inr dest!: list_field_Inr)
  have "dns_ok dns"
    using validate_resolvers_Inr[OF r] d rules
    by (auto simp: dns_ok_def Let_def validate_dns_rule_def str_val_def full_str_iff)
  then show ?thesis using o by simp
qed

lemma validate_api_Inr:
  assumes "validate_api (Some a) = Inr notes" "truthy_opt (jget a (U ''listen''))"
  shows "full_str (jget a (U ''secret''))"
  using assms by (auto simp: validate_api_def Let_def absent_def bindE_Inr_iff truthy_opt_def split: if_splits)

section \<open>What the normalisation changes\<close>

lemma set_default_keeps: "od_get d k = Some v \<Longrightarrow> od_get (set_default k' w d) k = Some v"
  by (auto simp: set_default_def od_mem_get)

lemma set_default_new: "od_get (set_default k' w d) k = (if k = U k' \<and> od_get d k = None then Some w else od_get d k)"
  by (auto simp: set_default_def od_mem_get)

lemma set_default_present: "od_mem (U k) d \<Longrightarrow> set_default k v d = d"
  by (simp add: set_default_def)

lemma project_listen_get:
  assumes "project_listen hk pk l raw = Inr raw'"
  shows "\<exists>h p. host_port l = Inr (h, p) \<and> raw' = set_default pk p (set_default hk h raw)"
  using assms by (auto simp: project_listen_def bindE_Inr_iff)

definition projected_keys :: "pystr list" where
  "projected_keys = map U [''socks5_host'', ''socks5_port'', ''dns_listen_host'', ''dns_listen_port'', ''cn_dns'', ''remote_dns'']"

definition extends :: "(pystr, json) odict \<Rightarrow> (pystr, json) odict \<Rightarrow> bool" where
  "extends d d' \<longleftrightarrow> (\<forall>k. (od_mem k d \<longrightarrow> od_get d' k = od_get d k)
     \<and> (od_mem k d' \<longrightarrow> od_mem k d \<or> k \<in> set projected_keys))"

lemma extends_refl [simp]: "extends d d"
  by (simp add: extends_def)

lemma extends_trans: "extends a b \<Longrightarrow> extends b c \<Longrightarrow> extends a c"
  unfolding extends_def by (metis od_mem_get)

lemma extends_set_default: "U k \<in> set projected_keys \<Longrightarrow> extends d (set_default k v d)"
  by (auto simp: extends_def set_default_new od_mem_get)

lemma project_listen_extends:
  assumes "project_listen hk pk l raw = Inr raw'" "U hk \<in> set projected_keys" "U pk \<in> set projected_keys"
  shows "extends raw raw' \<and> od_mem (U hk) raw' \<and> od_mem (U pk) raw'"
proof -
  obtain h p where r: "raw' = set_default pk p (set_default hk h raw)"
    using project_listen_get[OF assms(1)] by auto
  have "extends raw raw'"
    unfolding r by (rule extends_trans[OF extends_set_default extends_set_default]) (use assms in auto)
  then show ?thesis by (auto simp: r set_default_new od_mem_get)
qed

lemma project_field_extends: "U k \<in> set projected_keys \<Longrightarrow> extends raw (project_field k v raw)"
  by (simp add: project_field_def extends_set_default)

lemma project_inbounds_extends:
  assumes "project_inbounds raw = Inr raw'"
  shows "extends raw raw' \<and> ((\<exists>ib \<in> set (items (od_get raw (U ''inbounds''))). is_socks_inbound ib)
    \<longrightarrow> od_mem (U ''socks5_host'') raw' \<and> od_mem (U ''socks5_port'') raw')"
  using assms project_listen_extends[of "''socks5_host''" "''socks5_port''"]
  by (auto simp: project_inbounds_def items_def projected_keys_def find_None_iff
      split: option.splits json.splits)

lemma project_dns_listen_cases:
  assumes "project_dns_listen v raw = Inr raw'"
  shows "raw' = raw \<or> (\<exists>s. v = Some (JStr s) \<and> project_listen ''dns_listen_host'' ''dns_listen_port'' s raw = Inr raw')"
proof (cases "truthy_opt v")
  case False
  then show ?thesis using assms by (simp add: project_dns_listen_def)
next
  case True
  then obtain j where j: "v = Some j" by (auto simp: truthy_opt_def split: option.splits)
  show ?thesis using assms True unfolding j by (cases j) (auto simp: project_dns_listen_def split: if_splits)
qed

lemma project_dns_listen_extends:
  assumes "project_dns_listen v raw = Inr raw'"
  shows "extends raw raw'"
  using project_dns_listen_cases[OF assms] project_listen_extends[of "''dns_listen_host''" "''dns_listen_port''" _ raw raw']
  by (auto simp: projected_keys_def)

lemma project_dns_extends:
  assumes "project_dns raw = Inr raw'"
  shows "extends raw raw'"
proof -
  obtain r1 where 1: "project_dns_listen (jget (dns_block raw) (U ''listen'')) raw = Inr r1"
    and r': "raw' = project_field ''remote_dns'' (jget (dns_block raw) (U ''remote''))
         (project_field ''cn_dns'' (jget (dns_block raw) (U ''cn'')) r1)"
    using assms unfolding project_dns_def bindE_Inr_iff by blast
  have "extends r1 raw'"
    unfolding r' by (rule extends_trans[OF project_field_extends project_field_extends]) (simp_all add: projected_keys_def)
  then show ?thesis using project_dns_listen_extends[OF 1] extends_trans by blast
qed

lemma project_extends:
  assumes "project_v1_to_legacy_keys raw = Inr raw'"
  shows "extends raw raw' \<and> ((\<exists>ib \<in> set (items (od_get raw (U ''inbounds''))). is_socks_inbound ib)
    \<longrightarrow> od_mem (U ''socks5_host'') raw' \<and> od_mem (U ''socks5_port'') raw')"
proof -
  obtain r1 where 1: "project_inbounds raw = Inr r1" and 2: "project_dns r1 = Inr raw'"
    using assms unfolding project_v1_to_legacy_keys_def bindE_Inr_iff by blast
  have e: "extends r1 raw'" by (rule project_dns_extends[OF 2])
  then have "od_mem k r1 \<Longrightarrow> od_mem k raw'" for k unfolding extends_def by (metis od_mem_get)
  then show ?thesis using e project_inbounds_extends[OF 1] extends_trans by blast
qed

lemma extends_other: "extends d d' \<Longrightarrow> k \<notin> set projected_keys \<Longrightarrow> od_get d' k = od_get d k"
  unfolding extends_def by (metis od_mem_get)

lemma extends_mem: "extends d d' \<Longrightarrow> od_mem k d \<Longrightarrow> od_mem k d'"
  unfolding extends_def by (metis od_mem_get)

lemma not_projected: "U k \<notin> set projected_keys \<longleftrightarrow>
    k \<notin> {''socks5_host'', ''socks5_port'', ''dns_listen_host'', ''dns_listen_port'', ''cn_dns'', ''remote_dns''}"
  by (simp add: projected_keys_def)

text \<open>Projecting again changes nothing.\<close>

lemma project_listen_again:
  assumes "project_listen hk pk l raw = Inr r1" "extends r1 raw'" "U hk \<in> set projected_keys" "U pk \<in> set projected_keys"
  shows "project_listen hk pk l raw' = Inr raw'"
proof -
  obtain h p where hp: "host_port l = Inr (h, p)" using project_listen_get[OF assms(1)] by auto
  have "od_mem (U hk) raw'" "od_mem (U pk) raw'"
    using project_listen_extends[OF assms(1,3,4)] extends_mem[OF assms(2)] by auto
  then show ?thesis by (simp add: project_listen_def hp set_default_present)
qed

lemma project_inbounds_again:
  assumes "project_inbounds raw = Inr r1" "extends r1 raw'" "od_get raw' (U ''inbounds'') = od_get raw (U ''inbounds'')"
  shows "project_inbounds raw' = Inr raw'"
  using assms project_listen_again[of "''socks5_host''" "''socks5_port''" _ raw r1 raw']
  by (auto simp: project_inbounds_def projected_keys_def split: option.splits json.splits)

lemma project_dns_listen_again:
  assumes "project_dns_listen v raw = Inr r1" "extends r1 raw'"
  shows "project_dns_listen v raw' = Inr raw'"
proof (cases "truthy_opt v")
  case False
  then show ?thesis by (simp add: project_dns_listen_def)
next
  case True
  then obtain j where j: "v = Some j" by (auto simp: truthy_opt_def split: option.splits)
  have again: "project_listen ''dns_listen_host'' ''dns_listen_port'' s raw' = Inr raw'"
    if "project_listen ''dns_listen_host'' ''dns_listen_port'' s raw = Inr r1" for s
    by (rule project_listen_again[OF that assms(2)]) (simp_all add: projected_keys_def)
  show ?thesis using assms(1) True again unfolding j by (cases j) (auto simp: project_dns_listen_def split: if_splits)
qed

lemma project_field_again:
  assumes "extends (project_field k v raw) raw'"
  shows "project_field k v raw' = raw'"
proof (cases "truthy_opt v")
  case True
  then have "od_mem (U k) (project_field k v raw)" by (simp add: project_field_def set_default_new od_mem_get)
  then have "od_mem (U k) raw'" by (rule extends_mem[OF assms])
  then show ?thesis by (simp add: project_field_def set_default_present)
qed (simp add: project_field_def)

lemma project_again:
  assumes "project_v1_to_legacy_keys raw = Inr raw'"
  shows "project_v1_to_legacy_keys raw' = Inr raw'"
proof -
  obtain r1 where 1: "project_inbounds raw = Inr r1" and 2: "project_dns r1 = Inr raw'"
    using assms unfolding project_v1_to_legacy_keys_def bindE_Inr_iff by blast
  let ?b = "dns_block r1"
  obtain r2 where 3: "project_dns_listen (jget ?b (U ''listen'')) r1 = Inr r2"
    and r': "raw' = project_field ''remote_dns'' (jget ?b (U ''remote'')) (project_field ''cn_dns'' (jget ?b (U ''cn'')) r2)"
    using 2 unfolding project_dns_def bindE_Inr_iff by blast
  have e1: "extends r1 raw'" by (rule project_dns_extends[OF 2])
  have e2: "extends r2 raw'"
    unfolding r' by (rule extends_trans[OF project_field_extends project_field_extends]) (simp_all add: projected_keys_def)
  have b: "dns_block raw' = ?b" using extends_other[OF e1, of "U ''dns''"] by (simp add: dns_block_def projected_keys_def)
  have i: "od_get raw' (U ''inbounds'') = od_get raw (U ''inbounds'')"
    using extends_other[of raw raw' "U ''inbounds''"] project_extends[OF assms] by (simp add: projected_keys_def)
  have f1: "project_field ''cn_dns'' (jget ?b (U ''cn'')) raw' = raw'"
    by (rule project_field_again[where raw = r2], unfold r', rule project_field_extends) (simp add: projected_keys_def)
  have f2: "project_field ''remote_dns'' (jget ?b (U ''remote'')) raw' = raw'"
    by (rule project_field_again[where raw = "project_field ''cn_dns'' (jget ?b (U ''cn'')) r2"]) (simp add: r')
  show ?thesis
    unfolding project_v1_to_legacy_keys_def project_inbounds_again[OF 1 e1 i] bindE_simps project_dns_def b
      project_dns_listen_again[OF 3 e2] f1 f2 ..
qed

section \<open>The default resolver\<close>

text \<open>After the defaults: the \<open>dns\<close> section with its default tag, every other key as it was.\<close>

definition with_default :: "json \<Rightarrow> json \<Rightarrow> bool" where
  "with_default dns dns' \<longleftrightarrow> (\<forall>k. k \<noteq> U ''default'' \<longrightarrow> jget dns' k = jget dns k)
     \<and> (if absent (jget dns (U ''default'')) then
          (case items (jget dns (U ''resolvers'')) of [] \<Rightarrow> absent (jget dns' (U ''default''))
           | r # rs \<Rightarrow> jget dns' (U ''default'') = Some (JStr (tag_of r)))
        else jget dns' (U ''default'') = jget dns (U ''default''))"

lemma default_truthy:
  assumes "dns_ok dns"
  shows "truthy_opt (jget dns (U ''default'')) \<longleftrightarrow> \<not> absent (jget dns (U ''default''))"
  using assms by (auto simp: dns_ok_def Let_def resolver_ok_def full_str_iff tag_of_def str_val_def truthy_opt_def absent_def)

lemma jget_set_default_tag: "jget (JObj (od_set k v d)) k' = (if k' = k then Some v else jget (JObj d) k')"
  by simp

lemma validate_dns_with_default:
  assumes v: "validate_dns (Some (JObj d)) = Inr ()" and r: "jget (JObj d) (U ''resolvers'') = Some (JList (r # rs))"
  shows "validate_dns (Some (JObj (od_set (U ''default'') (JStr (tag_of r)) d))) = Inr ()"
proof -
  let ?d' = "JObj (od_set (U ''default'') (JStr (tag_of r)) d)"
  have ne: "d \<noteq> []" using r by auto
  have ne': "od_set (U ''default'') (JStr (tag_of r)) d \<noteq> []" by (cases d) (auto split: if_split_asm)
  have same: "k \<noteq> ''default'' \<Longrightarrow> jget ?d' (U k) = jget (JObj d) (U k)" for k by simp
  have def: "jget ?d' (U ''default'') = Some (JStr (tag_of r))" by simp
  have lf: "k \<noteq> ''default'' \<Longrightarrow> list_field ?d' (U k) = list_field (JObj d) (U k)" for k
    unfolding list_field_def same ..
  obtain tags where tags: "validate_resolvers (r # rs) [] = Inr tags"
    using v ne r by (auto simp: validate_dns_def Let_def absent_def bindE_Inr_iff list_field_def)
  have "tag_of r \<in> set tags" using validate_resolvers_Inr[OF tags] by simp
  then have "check (absent (jget ?d' (U ''default'')) \<or> jget ?d' (U ''default'') \<in> (Some \<circ> JStr) ` set tags) = Inr ()"
    by (simp only: def check_Inr) auto
  then show ?thesis
    using v ne ne' tags r
    by (simp add: validate_dns_def Let_def absent_def lf same list_field_def bindE_Inr_iff del: jget.simps)
qed

lemma apply_dns_defaults_effect:
  assumes v: "validate_dns (od_get raw (U ''dns'')) = Inr ()"
  shows "(\<forall>k. k \<noteq> U ''dns'' \<longrightarrow> od_get (snd (apply_dns_defaults raw)) k = od_get raw k)
    \<and> with_default (dns_block raw) (dns_block (snd (apply_dns_defaults raw)))
    \<and> validate_dns (od_get (snd (apply_dns_defaults raw)) (U ''dns'')) = Inr ()"
proof (cases "\<exists>d. od_get raw (U ''dns'') = Some (JObj d) \<and> d \<noteq> []")
  case False
  then have "dns_block raw = JObj []" "apply_dns_defaults raw = ([], raw)"
    by (auto simp: dns_block_def apply_dns_defaults_def split: option.split json.split)
  then show ?thesis using v by (simp add: with_default_def items_def)
next
  case True
  then obtain d where d: "od_get raw (U ''dns'') = Some (JObj d)" "d \<noteq> []" by auto
  have b: "dns_block raw = JObj d" by (simp add: dns_block_def d)
  have ok: "dns_ok (JObj d)" using validate_dns_Inr[of "JObj d"] v by (simp add: d)
  show ?thesis
  proof (cases "absent (jget (JObj d) (U ''default''))")
    case False
    then have "apply_dns_defaults raw = ([], raw)"
      using default_truthy[OF ok] by (simp add: apply_dns_defaults_def d)
    then show ?thesis using v False by (simp add: with_default_def b)
  next
    case True
    show ?thesis
    proof (cases "items (jget (JObj d) (U ''resolvers''))")
      case Nil
      then have "apply_dns_defaults raw = ([], raw)"
        by (auto simp: apply_dns_defaults_def d items_def split: option.split json.split list.split)
      then show ?thesis using v True Nil by (simp add: with_default_def b)
    next
      case (Cons r rs)
      then have r: "jget (JObj d) (U ''resolvers'') = Some (JList (r # rs))"
        by (auto simp: items_def split: option.splits json.splits)
      have "snd (apply_dns_defaults raw) = od_set (U ''dns'') (JObj (od_set (U ''default'') (JStr (tag_of r)) d)) raw"
        using True default_truthy[OF ok] r d by (simp add: apply_dns_defaults_def tag_of_def Let_def)
      then show ?thesis
        using True Cons validate_dns_with_default[OF _ r] v d
        by (simp add: with_default_def b) (simp add: dns_block_def)
    qed
  qed
qed

section \<open>Properties\<close>

lemma load_config_parts:
  assumes "load_config (JObj raw) = Inr (notes, cfg)" "\<not> absent (od_get raw (U ''schema_version''))"
  obtains api_notes tuning_notes where "is_version_1 (the (od_get raw (U ''schema_version'')))"
    and "validate_inbounds (od_get raw (U ''inbounds'')) = Inr ()" "validate_dns (od_get raw (U ''dns'')) = Inr ()"
    and "validate_api (od_get raw (U ''api'')) = Inr api_notes"
    and "project_v1_to_legacy_keys (snd (apply_dns_defaults raw)) = Inr cfg"
    and "log_tuning_overrides (od_get cfg (U ''tuning'')) = Inr tuning_notes"
proof -
  have v: "is_version_1 (the (od_get raw (U ''schema_version'')))" and l: "load_checked raw = Inr (notes, cfg)"
    using assms by (auto simp: Let_def split: if_splits)
  show ?thesis
    using l unfolding load_checked_def
    by (cases "apply_dns_defaults raw") (auto simp: bindE_Inr_iff intro: that[OF v])
qed

lemma dns_block_ok: "validate_dns (od_get cfg (U ''dns'')) = Inr () \<Longrightarrow> dns_ok (dns_block cfg)"
proof (cases "\<exists>d. od_get cfg (U ''dns'') = Some (JObj d)")
  case True
  then obtain d where "od_get cfg (U ''dns'') = Some (JObj d)" by blast
  moreover assume "validate_dns (od_get cfg (U ''dns'')) = Inr ()"
  ultimately show ?thesis using validate_dns_Inr[of "JObj d"] by (simp add: dns_block_def)
next
  case False
  then have "dns_block cfg = JObj []" by (auto simp: dns_block_def split: option.split json.split)
  then show ?thesis by (simp add: dns_ok_def items_def absent_def)
qed

lemma load_effect:
  assumes "load_config (JObj raw) = Inr (notes, cfg)" "\<not> absent (od_get raw (U ''schema_version''))"
  shows "extends (snd (apply_dns_defaults raw)) cfg \<and> with_default (dns_block raw) (dns_block cfg)
    \<and> validate_dns (od_get cfg (U ''dns'')) = Inr () \<and> dns_ok (dns_block cfg)
    \<and> (\<forall>k. k \<noteq> U ''dns'' \<and> k \<notin> set projected_keys \<longrightarrow> od_get cfg k = od_get raw k)"
proof -
  let ?raw1 = "snd (apply_dns_defaults raw)"
  obtain an tn where v: "validate_dns (od_get raw (U ''dns'')) = Inr ()" and p: "project_v1_to_legacy_keys ?raw1 = Inr cfg"
    using load_config_parts[OF assms] by metis
  have e: "extends ?raw1 cfg" using project_extends[OF p] by simp
  have d: "od_get cfg (U ''dns'') = od_get ?raw1 (U ''dns'')"
    by (rule extends_other[OF e]) (simp add: projected_keys_def)
  then have b: "dns_block cfg = dns_block ?raw1" by (simp add: dns_block_def)
  show ?thesis
    using e apply_dns_defaults_effect[OF v] extends_other[OF e] dns_block_ok[of cfg] by (simp add: b d)
qed

lemma defaults_again:
  assumes "with_default dns (dns_block cfg)" "dns_ok (dns_block cfg)"
  shows "apply_dns_defaults cfg = ([], cfg)"
proof (cases "\<exists>d. od_get cfg (U ''dns'') = Some (JObj d) \<and> d \<noteq> []")
  case False
  then show ?thesis by (auto simp: apply_dns_defaults_def split: option.split json.split)
next
  case True
  then obtain d where d: "od_get cfg (U ''dns'') = Some (JObj d)" "dns_block cfg = JObj d" by (auto simp: dns_block_def)
  show ?thesis
  proof (cases "items (jget (JObj d) (U ''resolvers''))")
    case Nil
    then show ?thesis by (auto simp: apply_dns_defaults_def d items_def split: option.split json.split list.split)
  next
    case (Cons r rs)
    have r: "jget dns (U ''resolvers'') = jget (JObj d) (U ''resolvers'')" using assms(1) by (simp add: with_default_def d(2))
    have "\<not> absent (jget (JObj d) (U ''default''))"
      using assms(1) Cons unfolding with_default_def r d(2) by (auto simp: absent_def split: if_splits)
    then show ?thesis using default_truthy[of "JObj d"] assms(2) by (simp add: apply_dns_defaults_def d)
  qed
qed

lemma check_via_full:
  assumes "check_via tags r = Inr ()" "full_str (jget r (U ''via''))"
  shows "jget r (U ''via'') \<in> (Some \<circ> JStr) ` set tags"
proof -
  obtain s where s: "jget r (U ''via'') = Some (JStr s)" "s \<noteq> []" using assms(2) by (auto simp: full_str_iff)
  then have "is_obj r" by (cases r) auto
  then show ?thesis using assms(1) by (simp add: check_via_def s truthy_opt_def Let_def)
qed


text \<open>Normalising a configuration is conservative and stable: every key the file has keeps its value (the
  DNS section gains at most its default), only the six derived keys are added, and loading the result again accepts it and
  changes nothing.\<close>

theorem normalising_is_stable:
  assumes "load_config (JObj raw) = Inr (notes, cfg)" "\<not> absent (od_get raw (U ''schema_version''))"
  shows "(\<forall>k. od_mem k raw \<and> k \<noteq> U ''dns'' \<longrightarrow> od_get cfg k = od_get raw k)
    \<and> (\<forall>k. k \<noteq> U ''default'' \<longrightarrow> jget (dns_block cfg) k = jget (dns_block raw) k)
    \<and> (\<forall>k. od_mem k cfg \<longrightarrow> od_mem k raw \<or> k \<in> set projected_keys)
    \<and> (\<exists>notes'. load_config (JObj cfg) = Inr (notes', cfg))"
proof -
  let ?raw1 = "snd (apply_dns_defaults raw)"
  obtain an tn where v1: "is_version_1 (the (od_get raw (U ''schema_version'')))"
      and i: "validate_inbounds (od_get raw (U ''inbounds'')) = Inr ()"
      and vd: "validate_dns (od_get raw (U ''dns'')) = Inr ()"
      and a: "validate_api (od_get raw (U ''api'')) = Inr an"
      and p: "project_v1_to_legacy_keys ?raw1 = Inr cfg"
      and tun: "log_tuning_overrides (od_get cfg (U ''tuning'')) = Inr tn"
    using load_config_parts[OF assms] by metis
  note eff = load_effect[OF assms]
  have other: "od_get cfg (U k) = od_get raw (U k)" if "k \<in> {''inbounds'', ''api'', ''schema_version''}" for k
    using eff that by (auto simp: projected_keys_def)
  have again: "apply_dns_defaults cfg = ([], cfg)" using defaults_again eff by blast
  have "load_checked cfg = Inr (warn_unknown_top_keys cfg @ an @ [] @ tn, cfg)"
    using i a eff again project_again[OF p] tun by (simp add: load_checked_def other)
  then have "\<exists>notes'. load_config (JObj cfg) = Inr (notes', cfg)"
    using v1 assms(2) by (simp add: other Let_def)
  moreover have keep: "od_get ?raw1 k = od_get raw k" if "k \<noteq> U ''dns''" for k
    using apply_dns_defaults_effect[OF vd] that by simp
  have mem: "od_mem k ?raw1 \<longleftrightarrow> od_mem k raw" for k
    using keep by (cases "k = U ''dns''")
      (auto simp: apply_dns_defaults_def od_mem_get Let_def split: option.split json.split list.split if_split)
  have e: "extends ?raw1 cfg" using eff by simp
  have "\<forall>k. od_mem k raw \<and> k \<noteq> U ''dns'' \<longrightarrow> od_get cfg k = od_get raw k"
    using e keep mem unfolding extends_def by metis
  moreover have "\<forall>k. od_mem k cfg \<longrightarrow> od_mem k raw \<or> k \<in> set projected_keys"
    using e mem unfolding extends_def by metis
  moreover have "\<forall>k. k \<noteq> U ''default'' \<longrightarrow> jget (dns_block cfg) k = jget (dns_block raw) k"
    using eff by (simp add: with_default_def)
  ultimately show ?thesis by blast
qed

section \<open>A concrete configuration\<close>

definition sample_resolver :: json where
  "sample_resolver = JObj [(U ''tag'', JStr (U ''r'')), (U ''address'', JStr (U ''8.8.8.8'')), (U ''via'', JStr (U ''out''))]"

definition sample_dns :: "(pystr, json) odict" where
  "sample_dns = [(U ''resolvers'', JList [sample_resolver]),
     (U ''rules'', JList [JObj [(U ''match'', JStr (U ''geosite:cn'')), (U ''use'', JStr (U ''r''))]])]"

definition sample_inbound :: json where
  "sample_inbound = JObj [(U ''type'', JStr (U ''mixed'')), (U ''listen'', JStr (U ''::1:1080''))]"

definition sample_raw :: "(pystr, json) odict" where
  "sample_raw = [(U ''schema_version'', JInt 1), (U ''inbounds'', JList [sample_inbound]), (U ''dns'', JObj sample_dns)]"

definition sample_loaded :: "(pystr, json) odict" where
  "sample_loaded = [(U ''schema_version'', JInt 1), (U ''inbounds'', JList [sample_inbound]),
     (U ''dns'', JObj (sample_dns @ [(U ''default'', JStr (U ''r''))])),
     (U ''socks5_host'', JStr (U ''::1'')), (U ''socks5_port'', JInt 1080)]"

lemma host_port_at: "58 \<notin> set b \<Longrightarrow>
    host_port (a @ 58 # b) = (case py_int 10 b of None \<Rightarrow> Inl (Raised ValueError) | Some n \<Rightarrow> Inr (JStr a, JInt n))"
  by (simp add: host_port_def)

lemma sample_port: "host_port (U ''::1:1080'') = Inr (JStr (U ''::1''), JInt 1080)"
proof -
  have "py_int 10 (U ''1080'') = Some 1080"
    by (simp add: U_def py_int_def py_strip_def strip_with_def rdropWhile_def is_space_def Let_def parse_digits_def
        base_digit_def digit_val_def)
  moreover have "U ''::1:1080'' = U ''::1'' @ 58 # U ''1080''" "58 \<notin> set (U ''1080'')" by (simp_all add: U_def)
  ultimately show ?thesis using host_port_at[of "U ''1080''" "U ''::1''"] by (simp only: option.case not_False_eq_True simp_thms)
qed

lemma sample_loads: "\<exists>notes. load_config (JObj sample_raw) = Inr (notes, sample_loaded)"
proof -
  have i: "validate_inbounds (od_get sample_raw (U ''inbounds'')) = Inr ()" by code_simp
  have d: "validate_dns (od_get sample_raw (U ''dns'')) = Inr ()" by code_simp
  have a: "validate_api (od_get sample_raw (U ''api'')) = Inr []" by code_simp
  have dd: "apply_dns_defaults sample_raw = ([FirstResolver (U ''r'')],
      od_set (U ''dns'') (JObj (sample_dns @ [(U ''default'', JStr (U ''r''))])) sample_raw)" by code_simp
  have p: "project_v1_to_legacy_keys (od_set (U ''dns'') (JObj (sample_dns @ [(U ''default'', JStr (U ''r''))])) sample_raw)
      = Inr sample_loaded"
    by (simp add: project_v1_to_legacy_keys_def project_inbounds_def project_listen_def project_dns_def project_dns_listen_def
        project_field_def dns_block_def sample_raw_def sample_dns_def sample_inbound_def sample_loaded_def is_socks_inbound_def
        str_val_def set_default_def sample_port truthy_opt_def od_get_def)
  have tu: "log_tuning_overrides (od_get sample_loaded (U ''tuning'')) = Inr []" by code_simp
  have v: "od_get sample_raw (U ''schema_version'') = Some (JInt 1)" by code_simp
  show ?thesis
    by (simp add: v is_version_1_def absent_def Let_def load_checked_def i d a dd p tu)
qed

lemma sample_version: "\<not> absent (od_get sample_raw (U ''schema_version''))"
  by code_simp


theorem normalising_is_stable_witness: "\<exists>notes. load_config (JObj sample_loaded) = Inr (notes, sample_loaded)"
  using sample_loads normalising_is_stable[OF _ sample_version] by blast

text \<open>A port that is no number passes the checks and then raises a plain \<open>ValueError\<close>; the via check says nothing
  of the default, which names a resolver and not an outbound.\<close>

lemma bad_port_not_config_error:
  "load_config (JObj [(U ''schema_version'', JInt 1), (U ''inbounds'', JList [JObj [(U ''type'', JStr (U ''socks5'')),
     (U ''listen'', JStr (U ''h:x''))]])]) = Inl (Raised ValueError)"
proof -
  let ?ib = "JObj [(U ''type'', JStr (U ''socks5'')), (U ''listen'', JStr (U ''h:x''))]"
  have "U ''h:x'' = U ''h'' @ 58 # U ''x''" "58 \<notin> set (U ''x'')" by (simp_all add: U_def)
  moreover have "py_int 10 (U ''x'') = None"
    by (simp add: U_def py_int_def py_strip_def strip_with_def rdropWhile_def is_space_def Let_def parse_digits_def
        base_digit_def digit_val_def)
  ultimately have hp: "host_port (U ''h:x'') = Inl (Raised ValueError)"
    using host_port_at[of "U ''x''" "U ''h''"] by (simp only: option.case not_False_eq_True simp_thms)
  have v: "validate_inbound ?ib = Inr ()" by code_simp
  show ?thesis
    by (simp add: is_version_1_def absent_def Let_def load_checked_def validate_inbounds_def v validate_dns_def validate_api_def
        apply_dns_defaults_def project_v1_to_legacy_keys_def project_inbounds_def is_socks_inbound_def project_listen_def str_val_def hp od_get_def)
qed

end
