(* ===== verification/Api_Http.thy ===== *)
theory Api_Http
  imports Http_Inbound
begin

unbundle bit_operations_syntax

text \<open>
  The management API: the HTTP/1.1 requests and responses (\<open>core/api/http_proto.py\<close>), the table of
  endpoints (\<open>core/api/router.py\<close>), and the server with its authentication, CORS headers and the loop over
  the requests of a connection (\<open>core/api/server.py\<close>).  The endpoints themselves are parameters: functions of
  the request and of the application's state \<open>'st\<close>.
\<close>

section \<open>Requests\<close>

record request =
  rq_method :: pystr
  rq_path :: pystr
  rq_query :: "(pystr, pystr) odict"
  rq_headers :: "(pystr, pystr) odict"
  rq_body :: bytes

definition header_or :: "request \<Rightarrow> string \<Rightarrow> pystr \<Rightarrow> pystr" where
  "header_or r name d = (case od_get (rq_headers r) (U name) of Some v \<Rightarrow> v | None \<Rightarrow> d)"

text \<open>\<open>urllib.parse.unquote\<close> of an ASCII text, and \<open>parse_qsl\<close> with blank values kept.\<close>

fun unquote_bytes :: "pystr \<Rightarrow> nat list" where
  "unquote_bytes (c # a # b # t) =
     (if c = 37 then
        (case (base_digit 16 a, base_digit 16 b) of
           (Some x, Some y) \<Rightarrow> (x * 16 + y) # unquote_bytes t
         | _ \<Rightarrow> c # unquote_bytes (a # b # t))
      else c # unquote_bytes (a # b # t))"
| "unquote_bytes s = s"

definition unquote :: "pystr \<Rightarrow> pystr" where
  "unquote s = (if 37 \<in> set s then utf8_replace (map of_nat (unquote_bytes s)) else s)"

definition qs_text :: "pystr \<Rightarrow> pystr" where
  "qs_text s = unquote (map (\<lambda>c. if c = 43 then 32 else c) s)"

definition qs_field :: "pystr \<Rightarrow> pystr \<times> pystr" where
  "qs_field f = (case partition1 61 f of None \<Rightarrow> (qs_text f, qs_text []) | Some (n, v) \<Rightarrow> (qs_text n, qs_text v))"

definition parse_qsl :: "pystr \<Rightarrow> (pystr \<times> pystr) list" where
  "parse_qsl q = map qs_field (filter (\<lambda>f. f \<noteq> []) (split_char 38 q))"

definition split_target :: "pystr \<Rightarrow> pystr \<times> (pystr \<times> pystr) list" where
  "split_target t = (case partition1 63 t of None \<Rightarrow> (unquote t, []) | Some (p, q) \<Rightarrow> (unquote p, parse_qsl q))"

definition dict_of :: "('k \<times> 'v) list \<Rightarrow> ('k, 'v) odict" where
  "dict_of kvs = foldl (\<lambda>d (k, v). od_set k v d) [] kvs"

definition max_body :: int where "max_body = 1024 * 1024"

definition add_header :: "pystr \<Rightarrow> pystr \<Rightarrow> (pystr, pystr) odict \<Rightarrow> (pystr, pystr) odict" where
  "add_header name v hs = (let key = py_lower (py_strip name); val = py_strip v in
     od_set key (case od_get hs key of Some w \<Rightarrow> w @ U '', '' @ val | None \<Rightarrow> val) hs)"

fun api_headers ::
    "(bytes \<Rightarrow> ('s, bytes) reading) \<Rightarrow> nat \<Rightarrow> (pystr, pystr) odict \<Rightarrow> ('s, (pystr, pystr) odict) reading" where
  "api_headers ru 0 hs = raiseR (HTTPErr 413 ''too many headers'')"
| "api_headers ru (Suc k) hs =
     bindR (attempt (ru crlf)) (\<lambda>r. case r of
       Inl LimitOverrun \<Rightarrow> raiseR (HTTPErr 413 ''header line too long'')
     | Inl IncompleteRead \<Rightarrow> raiseR (HTTPErr 400 ''headers truncated'')
     | Inl e \<Rightarrow> raiseR e
     | Inr line \<Rightarrow>
         if line = crlf then retR hs
         else if max_header_line < length line then raiseR (HTTPErr 413 ''header line too long'')
         else (let s = rstrip_crlf (latin1_decode line);
                   (name, v) = (case partition1 58 s of None \<Rightarrow> (s, []) | Some p \<Rightarrow> p)
               in if name = [] \<or> 95 \<in> set name then raiseR (HTTPErr 400 ''invalid header name'')
                  else api_headers ru k (add_header name v hs)))"

definition api_body ::
    "(nat \<Rightarrow> ('s, bytes) reading) \<Rightarrow> (pystr, pystr) odict \<Rightarrow> ('s, bytes) reading" where
  "api_body rx hs =
     (case od_get hs (U ''content-length'') of
        Some (c # cs) \<Rightarrow>
          (case py_int 10 (c # cs) of
             None \<Rightarrow> raiseR (HTTPErr 400 ''invalid Content-Length'')
           | Some n \<Rightarrow>
               if n < 0 \<or> max_body < n then raiseR (HTTPErr 413 ''body too large'')
               else if n = 0 then retR []
               else bindR (attempt (rx (nat n))) (\<lambda>r. case r of
                   Inl IncompleteRead \<Rightarrow> raiseR (HTTPErr 400 ''body truncated'')
                 | Inl e \<Rightarrow> raiseR e
                 | Inr b \<Rightarrow> retR b))
      | _ \<Rightarrow>
          if py_lower (case od_get hs (U ''transfer-encoding'') of Some v \<Rightarrow> v | None \<Rightarrow> []) = U ''chunked''
          then raiseR (HTTPErr 501 ''chunked request body not supported'') else retR [])"

text \<open>\<open>bytes.strip\<close> removes the ASCII blanks.\<close>

definition blank_line :: "bytes \<Rightarrow> bool" where
  "blank_line line \<longleftrightarrow> list_all (\<lambda>b. b \<in> {9, 10, 11, 12, 13, 32}) line"

definition request_of ::
    "(bytes \<Rightarrow> ('s, bytes) reading) \<Rightarrow> (nat \<Rightarrow> ('s, bytes) reading) \<Rightarrow> bytes \<Rightarrow> ('s, request option) reading" where
  "request_of ru rx line =
     (if blank_line line then retR None
      else if max_request_line < length line then raiseR (HTTPErr 413 ''request line too long'')
      else (case request_parts line of
          None \<Rightarrow> raiseR (HTTPErr 400 ''malformed request line'')
        | Some (m, t, v) \<Rightarrow>
            if \<not> prefix (U ''HTTP/1.'') v then
              raiseR (HTTPErr (if prefix (U ''HTTP/'') v then 505 else 400) ''only HTTP/1.x supported'')
            else (let (path, query) = split_target t in
              bindR (api_headers ru (max_headers + 1) []) (\<lambda>hs.
              bindR (api_body rx hs) (\<lambda>body.
                retR (Some \<lparr> rq_method = py_upper m, rq_path = path, rq_query = dict_of query,
                  rq_headers = hs, rq_body = body \<rparr>))))))"

definition read_request ::
    "(bytes \<Rightarrow> ('s, bytes) reading) \<Rightarrow> (nat \<Rightarrow> ('s, bytes) reading) \<Rightarrow> ('s, request option) reading" where
  "read_request ru rx =
     bindR (attempt (ru crlf)) (\<lambda>r. case r of
       Inl IncompleteRead \<Rightarrow> retR None
     | Inl LimitOverrun \<Rightarrow> raiseR (HTTPErr 413 ''request line too long'')
     | Inl e \<Rightarrow> raiseR e
     | Inr line \<Rightarrow> request_of ru rx line)"

section \<open>Responses\<close>

record response =
  rs_status :: nat
  rs_body :: bytes
  rs_type :: pystr
  rs_extra :: "(pystr \<times> pystr) list"
  rs_close :: bool

definition reasons :: "(nat \<times> string) list" where
  "reasons = [(101, ''Switching Protocols''), (200, ''OK''), (204, ''No Content''), (400, ''Bad Request''),
     (401, ''Unauthorized''), (403, ''Forbidden''), (404, ''Not Found''), (405, ''Method Not Allowed''),
     (413, ''Payload Too Large''), (500, ''Internal Server Error''), (501, ''Not Implemented'')]"

definition reason_of :: "nat \<Rightarrow> string" where
  "reason_of n = (case map_of reasons n of Some r \<Rightarrow> r | None \<Rightarrow> ''OK'')"

definition response_bytes :: "response \<Rightarrow> bool \<Rightarrow> py_error + bytes" where
  "response_bytes r keep_alive =
     bindE (ascii_encode (rs_type r)) (\<lambda>ct.
     bindE (latin1_encode (concat (map (\<lambda>(k, v). k @ [58, 32] @ v @ [13, 10]) (rs_extra r)))) (\<lambda>extra.
       Inr (B ''HTTP/1.1 '' @ map of_nat (show_nat (rs_status r)) @ [32] @ B (reason_of (rs_status r)) @ crlf
         @ B ''Content-Type: '' @ ct @ crlf
         @ B ''Content-Length: '' @ map of_nat (show_nat (length (rs_body r))) @ crlf
         @ (if keep_alive \<and> \<not> rs_close r then B ''Connection: keep-alive'' else B ''Connection: close'') @ crlf
         @ extra @ crlf @ rs_body r)))"

text \<open>\<open>json_response\<close> of a code and a message without characters to escape.\<close>

definition error_response :: "nat \<Rightarrow> string \<Rightarrow> response" where
  "error_response code msg = \<lparr> rs_status = code,
     rs_body = B ''{\"code\":'' @ map of_nat (show_nat code) @ B '',\"message\":\"'' @ B msg @ B ''\"}'',
     rs_type = U ''application/json'', rs_extra = [], rs_close = False \<rparr>"

section \<open>The table of endpoints\<close>

text \<open>A pattern is literal text with \<open>{name}\<close> for one non-empty path segment; \<open>$\<close> also matches before a final
  newline.  The literal texts of the program's table hold no character special to regular expressions.\<close>

datatype pat_item = Lit pystr | Param pystr

definition word_char :: "nat \<Rightarrow> bool" where
  "word_char c \<longleftrightarrow> 48 \<le> c \<and> c \<le> 57 \<or> 65 \<le> c \<and> c \<le> 90 \<or> 97 \<le> c \<and> c \<le> 122 \<or> c = 95"

function compile_pattern :: "pystr \<Rightarrow> pat_item list" where
  "compile_pattern [] = []"
| "compile_pattern (c # s) =
     (let name = takeWhile word_char s; rest = dropWhile word_char s in
      if c = 123 \<and> name \<noteq> [] \<and> prefix [125] rest then Param name # compile_pattern (tl rest)
      else Lit [c] # compile_pattern s)"
  by pat_completeness auto
termination
  by (relation "measure length") (auto intro!: le_imp_less_Suc order.trans[OF diff_le_self length_dropWhile_le])

declare compile_pattern.simps [simp del]

fun pat_match :: "pat_item list \<Rightarrow> pystr \<Rightarrow> (pystr \<times> pystr) list option" where
  "pat_match [] s = (if s = [] \<or> s = [10] then Some [] else None)"
| "pat_match (Lit l # ps) s = (if prefix l s then pat_match ps (drop (length l) s) else None)"
| "pat_match (Param n # ps) s =
     (case find (\<lambda>k. pat_match ps (drop k s) \<noteq> None) (rev [1 ..< length (takeWhile (\<lambda>c. c \<noteq> 47) s) + 1]) of
        None \<Rightarrow> None
      | Some k \<Rightarrow> map_option (\<lambda>g. (n, take k s) # g) (pat_match ps (drop k s)))"

type_synonym 'h routes = "(pystr \<times> pat_item list \<times> 'h) list"
type_synonym 'w ws_routes = "(pat_item list \<times> 'w) list"
type_synonym params = "(pystr \<times> pystr) list"

definition add_route :: "pystr \<Rightarrow> pystr \<Rightarrow> 'h \<Rightarrow> 'h routes \<Rightarrow> 'h routes" where
  "add_route m pat h rs = rs @ [(py_upper m, compile_pattern pat, h)]"

definition add_ws :: "pystr \<Rightarrow> 'w \<Rightarrow> 'w ws_routes \<Rightarrow> 'w ws_routes" where
  "add_ws pat h rs = rs @ [(compile_pattern pat, h)]"

fun route_loop :: "'h routes \<Rightarrow> pystr \<Rightarrow> pystr \<Rightarrow> bool \<Rightarrow> ('h \<times> params) option \<times> bool" where
  "route_loop [] m path known = (None, known)"
| "route_loop ((rm, p, h) # rs) m path known =
     (case pat_match p path of
        None \<Rightarrow> route_loop rs m path known
      | Some g \<Rightarrow> if rm = m then (Some (h, g), True) else route_loop rs m path True)"

definition route_match :: "'h routes \<Rightarrow> pystr \<Rightarrow> pystr \<Rightarrow> ('h \<times> params) option \<times> bool" where
  "route_match rs m path = route_loop rs (py_upper m) path False"

fun match_ws :: "'w ws_routes \<Rightarrow> pystr \<Rightarrow> ('w \<times> params) option" where
  "match_ws [] path = None"
| "match_ws ((p, h) # rs) path = (case pat_match p path of Some g \<Rightarrow> Some (h, g) | None \<Rightarrow> match_ws rs path)"

section \<open>Authentication and CORS\<close>

record api_cfg =
  ap_secret :: pystr
  ap_cors :: "pystr list"

definition const_eq :: "pystr \<Rightarrow> pystr \<Rightarrow> py_error + bool" where
  "const_eq a b =
     (if length a \<noteq> length b then Inr False
      else bindE (utf8_encode a) (\<lambda>x. bindE (utf8_encode b) (\<lambda>y.
        Inr (foldl (\<lambda>r (p, q). r OR (p XOR q)) 0 (zip x y) = 0))))"

definition check_auth :: "api_cfg \<Rightarrow> request \<Rightarrow> py_error + bool" where
  "check_auth cfg req =
     (let auth = header_or req ''authorization'' [] in
      if prefix (U ''Bearer '') auth then const_eq (py_strip (drop 7 auth)) (ap_secret cfg)
      else (case od_get (rq_query req) (U ''token'') of
          Some (c # cs) \<Rightarrow> const_eq (c # cs) (ap_secret cfg)
        | _ \<Rightarrow> Inr False))"

definition cors_allows :: "api_cfg \<Rightarrow> pystr \<Rightarrow> bool" where
  "cors_allows cfg origin \<longleftrightarrow> U ''*'' \<in> set (ap_cors cfg) \<or> origin \<in> set (ap_cors cfg)"

definition inject_cors :: "api_cfg \<Rightarrow> request \<Rightarrow> response \<Rightarrow> response" where
  "inject_cors cfg req r =
     (let origin = header_or req ''origin'' [] in
      if origin = [] \<or> \<not> cors_allows cfg origin then r
      else r\<lparr> rs_extra := rs_extra r @
        [(U ''Access-Control-Allow-Origin'', origin), (U ''Vary'', U ''Origin''),
         (U ''Access-Control-Allow-Credentials'', U ''true'')] @
        (if rq_method req = U ''OPTIONS'' then
           [(U ''Access-Control-Allow-Methods'', U ''GET, POST, PUT, DELETE, PATCH, OPTIONS''),
            (U ''Access-Control-Allow-Headers'', U ''Content-Type, Authorization''),
            (U ''Access-Control-Max-Age'', U ''86400'')] else []) \<rparr>)"

definition should_keep_alive :: "request \<Rightarrow> response \<Rightarrow> bool" where
  "should_keep_alive req r \<longleftrightarrow> \<not> rs_close r
     \<and> py_lower (header_or req ''connection'' (U ''keep-alive'')) \<noteq> U ''close''"

definition parse_listen :: "pystr \<Rightarrow> py_error + (pystr \<times> int)" where
  "parse_listen s =
     (if prefix [91] s then
        (case find_sub [93] s of
           None \<Rightarrow> Inl ValueError
         | Some e \<Rightarrow> (case py_int 10 (drop (e + 2) s) of None \<Rightarrow> Inl ValueError | Some p \<Rightarrow> Inr (slice 1 e s, p)))
      else (case rpartition1 58 s of
          None \<Rightarrow> Inl ValueError
        | Some (h, ps) \<Rightarrow> (case py_int 10 ps of None \<Rightarrow> Inl ValueError | Some p \<Rightarrow> Inr (h, p))))"

section \<open>Comparing secrets\<close>

text \<open>The loop compares the shorter of the two encodings, after a test of the lengths in characters; as UTF-8
  is a prefix code, it decides equality all the same.\<close>

lemma or_eq_0: "(a OR b = (0 :: byte)) \<longleftrightarrow> a = 0 \<and> b = 0"
  by (auto simp: bit_eq_iff bit_simps)

lemma xor_eq_0: "(a XOR b = (0 :: byte)) \<longleftrightarrow> a = b"
  by (auto simp: bit_eq_iff bit_simps)

lemma xor_fold_0: "foldl (\<lambda>r (p, q). r OR (p XOR q)) (r :: byte) ps = 0 \<longleftrightarrow> r = 0 \<and> list_all (\<lambda>(p, q). p = q) ps"
proof (induction ps arbitrary: r)
  case (Cons pq ps)
  obtain p q where "pq = (p, q)" by (cases pq)
  then show ?case using Cons.IH[of "r OR (p XOR q)"] by (auto simp: or_eq_0 xor_eq_0)
qed simp

lemma utf8_run_append: "utf8_encode s = Inr bs \<Longrightarrow> utf8_run (map unat bs @ rest) = map Some s @ utf8_run rest"
proof (induction s arbitrary: bs)
  case Nil
  then show ?case by simp
next
  case (Cons c s)
  obtain ns bs' where n: "utf8_cp c = Some ns" "utf8_encode s = Inr bs'" "bs = map of_nat ns @ bs'"
    using Cons.prems by (auto simp: bindE_Inr_iff split: option.splits)
  have "map unat (map of_nat ns :: bytes) = ns" using map_unat_of_nat[OF utf8_cp_bytes[OF n(1)]] by simp
  then show ?case using utf8_run_cp[OF n(1), of "map unat bs' @ rest"] Cons.IH[OF n(2)] by (simp add: n(3))
qed

lemma utf8_prefix_same:
  assumes "utf8_encode a = Inr x" "utf8_encode b = Inr (x @ z)" "length a = length b"
  shows "a = b"
proof -
  have r: "map Some b = map Some a @ utf8_run (map unat z)"
    using utf8_run_append[OF assms(1), of "map unat z"] utf8_run_encode[OF assms(2)] by simp
  have "length b = length a + length (utf8_run (map unat z))" using arg_cong[OF r, of length] by simp
  then have "map Some a = map Some b" using assms(3) r by simp
  then show ?thesis by (metis inj_Some inj_map_eq_map)
qed

lemma zip_all_eq: "list_all (\<lambda>(p, q). p = q) (zip x y) \<longleftrightarrow> prefix x y \<or> prefix y x"
proof (induction x arbitrary: y)
  case (Cons p x)
  then show ?case by (cases y) auto
qed simp

lemma const_eq_iff:
  assumes "utf8_encode a = Inr x" "utf8_encode b = Inr y"
  shows "const_eq a b = Inr (a = b)"
proof (cases "length a = length b")
  case True
  have "a = b" if "prefix x y \<or> prefix y x"
    using that utf8_prefix_same[of a x b] utf8_prefix_same[of b y a] assms True by (auto simp: prefix_def)
  moreover have "prefix x y" if "a = b" using assms that by simp
  ultimately show ?thesis using True assms by (auto simp: const_eq_def xor_fold_0 zip_all_eq)
qed (auto simp: const_eq_def)

definition carries_secret :: "api_cfg \<Rightarrow> request \<Rightarrow> bool" where
  "carries_secret cfg req \<longleftrightarrow>
     (let auth = header_or req ''authorization'' [] in
      if prefix (U ''Bearer '') auth then py_strip (drop 7 auth) = ap_secret cfg
      else ap_secret cfg \<noteq> [] \<and> od_get (rq_query req) (U ''token'') = Some (ap_secret cfg))"

lemma const_eq_true: "const_eq a b = Inr True \<Longrightarrow> a = b"
  using const_eq_iff[of a _ b] by (auto simp: const_eq_def bindE_Inr_iff split: if_splits)

lemma check_auth_true: "check_auth cfg req = Inr True \<Longrightarrow> carries_secret cfg req"
  by (auto simp: check_auth_def carries_secret_def Let_def dest!: const_eq_true split: if_splits option.splits list.splits)

lemma check_auth_iff:
  assumes "utf8_encode (ap_secret cfg) = Inr x" "utf8_encode (py_strip (drop 7 (header_or req ''authorization'' []))) = Inr y"
    "\<And>t. od_get (rq_query req) (U ''token'') = Some t \<Longrightarrow> \<exists>z. utf8_encode t = Inr z"
  shows "check_auth cfg req = Inr (carries_secret cfg req)"
  using assms by (auto simp: check_auth_def carries_secret_def Let_def const_eq_iff split: option.split list.split)

section \<open>What a client encodes\<close>

definition pct_digit :: "nat \<Rightarrow> nat" where
  "pct_digit n = (if n < 10 then 48 + n else 55 + n)"

definition unreserved :: "nat \<Rightarrow> bool" where
  "unreserved c \<longleftrightarrow> 48 \<le> c \<and> c \<le> 57 \<or> 65 \<le> c \<and> c \<le> 90 \<or> 97 \<le> c \<and> c \<le> 122 \<or> c \<in> {45, 46, 47, 95, 126}"

definition quote_byte :: "nat \<Rightarrow> pystr" where
  "quote_byte n = (if unreserved n then [n] else [37, pct_digit (n div 16), pct_digit (n mod 16)])"

definition quote :: "bytes \<Rightarrow> pystr" where
  "quote bs = concat (map (\<lambda>b. quote_byte (unat b)) bs)"

definition query_text :: "(bytes \<times> bytes) list \<Rightarrow> pystr" where
  "query_text fs = join_with [38] (map (\<lambda>(n, v). quote n @ [61] @ quote v) fs)"

definition target_text :: "bytes \<Rightarrow> (bytes \<times> bytes) list \<Rightarrow> pystr" where
  "target_text p fs = quote p @ (if fs = [] then [] else 63 # query_text fs)"

lemma pct_digit_back: "n < 16 \<Longrightarrow> base_digit 16 (pct_digit n) = Some n"
  by (auto simp: base_digit_def digit_val_def pct_digit_def)

lemma pct_digit_unreserved: "n < 16 \<Longrightarrow> unreserved (pct_digit n)"
  by (auto simp: pct_digit_def unreserved_def)

lemma unquote_plain: "c \<noteq> 37 \<Longrightarrow> unquote_bytes (c # t) = c # unquote_bytes t"
  by (cases t rule: unquote_bytes.cases; cases "tl t") auto

lemma unquote_quote_byte: "n < 256 \<Longrightarrow> unquote_bytes (quote_byte n @ t) = n # unquote_bytes t"
  by (auto simp: quote_byte_def pct_digit_back unquote_plain unreserved_def less_mult_imp_div_less)

lemma unquote_bytes_quote: "unquote_bytes (quote bs) = map unat bs"
proof (induction bs)
  case (Cons b bs)
  then show ?case using unquote_quote_byte[of "unat b" "quote bs"] unsigned_less[of b] by (simp add: quote_def)
qed (simp add: quote_def)

lemma quote_byte_chars: "n < 256 \<Longrightarrow> list_all (\<lambda>c. c = 37 \<or> unreserved c) (quote_byte n)"
  by (simp add: quote_byte_def pct_digit_unreserved less_mult_imp_div_less)

lemma quote_chars: "list_all (\<lambda>c. c = 37 \<or> unreserved c) (quote bs)"
proof (induction bs)
  case (Cons b bs)
  then show ?case using quote_byte_chars[of "unat b"] unsigned_less[of b] by (simp add: quote_def)
qed (simp add: quote_def)

lemma unquote_bytes_id: "37 \<notin> set q \<Longrightarrow> unquote_bytes q = q"
  by (induction q) (auto simp: unquote_plain)

lemma utf8_run_ascii: "list_all (\<lambda>c. c < 128) xs \<Longrightarrow> utf8_run xs = map Some xs"
  by (induction xs) (auto simp: utf8_next_def)

lemma unquote_quote:
  assumes "utf8_encode s = Inr bs"
  shows "unquote (quote bs) = s"
proof (cases "37 \<in> set (quote bs)")
  case True
  have "utf8_replace bs = s" using utf8_run_encode[OF assms] by (simp add: utf8_replace_def comp_def)
  moreover have "map of_nat (map unat bs) = bs" by (simp add: comp_def)
  ultimately show ?thesis using True by (simp add: unquote_def unquote_bytes_quote)
next
  case False
  have q: "quote bs = map unat bs" using unquote_bytes_id[OF False] unquote_bytes_quote by simp
  have "list_all (\<lambda>c. c < 128) (quote bs)"
    using quote_chars[of bs] by (rule list.pred_mono_strong) (auto simp: unreserved_def)
  then have "map Some s = map Some (quote bs)" using utf8_run_encode[OF assms] q utf8_run_ascii by metis
  then have "s = quote bs" by (metis inj_Some inj_map_eq_map)
  then show ?thesis using False by (simp add: unquote_def)
qed

lemma plus_quote: "map (\<lambda>c. if c = 43 then 32 else c) (quote bs) = quote bs"
  by (rule map_idI) (use quote_chars[of bs] in \<open>auto simp: list_all_iff unreserved_def\<close>)

lemma quote_avoids: "c \<noteq> 37 \<Longrightarrow> \<not> unreserved c \<Longrightarrow> c \<notin> set (quote bs)"
  using quote_chars[of bs] by (auto simp: list_all_iff)

lemma qs_field_quote:
  "utf8_encode n = Inr nb \<Longrightarrow> utf8_encode v = Inr vb \<Longrightarrow> qs_field (quote nb @ [61] @ quote vb) = (n, v)"
  using quote_avoids[of 61 nb]
  by (simp add: qs_field_def qs_text_def plus_quote unquote_quote unreserved_def)

lemma split_char_join:
  "xs \<noteq> [] \<Longrightarrow> \<forall>x \<in> set xs. c \<notin> set x \<Longrightarrow> split_char c (join_with [c] xs) = xs"
proof (induction xs)
  case (Cons x xs)
  show ?case
  proof (cases xs)
    case Nil
    then show ?thesis using Cons.prems by (simp add: join_with_def)
  next
    case (Cons y ys)
    then have "join_with [c] (x # xs) = x @ c # join_with [c] xs" by (simp add: join_with_def)
    then show ?thesis using Cons.IH Cons.prems Cons by (simp add: split_char_Cons del: split_char.simps)
  qed
qed simp

type_synonym fields = "(pystr \<times> pystr) list"

text \<open>The bytes of the fields' names and values.\<close>

definition encodes :: "fields \<Rightarrow> (bytes \<times> bytes) list \<Rightarrow> bool" where
  "encodes fs bs \<longleftrightarrow> list_all2 (\<lambda>(n, v) (nb, vb). utf8_encode n = Inr nb \<and> utf8_encode v = Inr vb) fs bs"

lemma parse_qsl_query:
  assumes "encodes fs bs" "bs \<noteq> []"
  shows "parse_qsl (query_text bs) = fs"
proof -
  let ?f = "\<lambda>(n, v). quote n @ [61] @ quote v"
  have "\<forall>x \<in> set (map ?f bs). 38 \<notin> set x" using quote_avoids[of 38] by (auto simp: unreserved_def)
  then have s: "split_char 38 (query_text bs) = map ?f bs"
    unfolding query_text_def by (rule split_char_join[rotated]) (use assms(2) in simp)
  have "filter (\<lambda>f. f \<noteq> []) (map ?f bs) = map ?f bs" by (rule filter_True) auto
  moreover have "map qs_field (map ?f bs) = fs"
    using assms(1) unfolding encodes_def by (induction rule: list_all2_induct) (auto simp: qs_field_quote simp del: append_Cons)
  ultimately show ?thesis by (simp add: parse_qsl_def s)
qed

lemma split_target_text:
  assumes "utf8_encode p = Inr pb" "encodes fs bs"
  shows "split_target (target_text pb bs) = (p, fs)"
proof -
  have q: "63 \<notin> set (quote pb)" using quote_avoids[of 63] by (simp add: unreserved_def)
  show ?thesis
  proof (cases "bs = []")
    case True
    then show ?thesis using assms q by (simp add: target_text_def split_target_def unquote_quote encodes_def)
  next
    case False
    then show ?thesis using assms q parse_qsl_query[OF assms(2)]
      by (simp add: target_text_def split_target_def unquote_quote)
  qed
qed

section \<open>A request is read as it was sent\<close>

definition api_header_ok :: "pystr \<times> pystr \<Rightarrow> bool" where
  "api_header_ok h \<longleftrightarrow> header_ok h \<and> 95 \<notin> set (fst h)"

definition norm_header :: "pystr \<times> pystr \<Rightarrow> pystr \<times> pystr" where
  "norm_header h = (py_lower (py_strip (fst h)), py_strip (snd h))"

definition framed_headers :: "(pystr \<times> pystr) list \<Rightarrow> bytes \<Rightarrow> (pystr \<times> pystr) list" where
  "framed_headers hs body = hs @ [(U ''Content-Length'', show_nat (length body))]"

definition request_text :: "pystr \<Rightarrow> pystr \<Rightarrow> (pystr \<times> pystr) list \<Rightarrow> bytes \<Rightarrow> bytes" where
  "request_text m t hs body = request_line m t (U ''HTTP/1.1'') @ header_bytes (framed_headers hs body) @ crlf @ body"

definition api_request_ok :: "pystr \<Rightarrow> pystr \<Rightarrow> (pystr \<times> pystr) list \<Rightarrow> bytes \<Rightarrow> bool" where
  "api_request_ok m t hs body \<longleftrightarrow> request_ok m t (U ''HTTP/1.1'') (framed_headers hs body)
     \<and> list_all api_header_ok hs \<and> distinct (map (fst \<circ> norm_header) (framed_headers hs body))
     \<and> int (length body) \<le> max_body"

lemma od_set_absent_key: "k \<notin> fst ` set d \<Longrightarrow> od_set k v d = d @ [(k, v)]"
  by (induction d) auto

lemma od_get_absent: "k \<notin> fst ` set d \<Longrightarrow> od_get d k = None"
  by (induction d) (auto simp: od_get_def)

lemma add_header_new: "fst (norm_header (k, v)) \<notin> fst ` set hs \<Longrightarrow> add_header k v hs = hs @ [norm_header (k, v)]"
  by (simp add: add_header_def norm_header_def Let_def od_set_absent_key od_get_absent)

lemma add_headers_distinct:
  "distinct (map fst acc @ map (fst \<circ> norm_header) hs)
    \<Longrightarrow> foldl (\<lambda>d (k, v). add_header k v d) acc hs = acc @ map norm_header hs"
proof (induction hs arbitrary: acc)
  case (Cons h hs)
  then show ?case by (cases h) (auto simp: add_header_new)
qed simp

locale body_reader = crlf_reader view ru ready limit + stream_reader view rx
  for view :: "'s \<Rightarrow> bytes" and ru :: "bytes \<Rightarrow> ('s, bytes) reading" and ready :: "'s \<Rightarrow> bool" and limit :: nat
    and rx :: "nat \<Rightarrow> ('s, bytes) reading"
begin

lemma api_headers_read:
  "ready s \<Longrightarrow> view s = header_bytes hs @ crlf @ rest \<Longrightarrow> list_all api_header_ok hs \<Longrightarrow> length hs < n \<Longrightarrow> 8192 \<le> limit
    \<Longrightarrow> \<exists>s'. api_headers ru n acc s = (Inr (foldl (\<lambda>d (k, v). add_header k v d) acc hs), s') \<and> ready s' \<and> view s' = rest"
proof (induction hs arbitrary: s n acc)
  case Nil
  then obtain k where n: "n = Suc k" by (cases n) auto
  obtain s' where "ru crlf s = (Inr crlf, s')" "ready s'" "view s' = rest"
    using ru_crlf[OF Nil.prems(1), of "[]" rest] Nil.prems(2) by (auto simp: header_bytes_def)
  then show ?case by (simp add: n attempt_def bindR_apply)
next
  case (Cons h hs)
  obtain k x where h: "h = (k, x)" by (cases h)
  obtain j where n: "n = Suc j" using Cons.prems(4) by (cases n) auto
  let ?l = "map of_nat (k @ [58] @ x) :: bytes"
  have ok: "header_ok (k, x)" "95 \<notin> set k" using Cons.prems(3) by (simp_all add: h api_header_ok_def)
  have cr: "13 \<notin> set ?l" using ok by (intro of_nat_not_cr) (auto simp: header_ok_def latin_line_def list_all_iff)
  have len: "length ?l \<le> 8190" using ok by (simp add: header_ok_def)
  obtain s' where s': "ru crlf s = (Inr (?l @ crlf), s')" "ready s'" "view s' = header_bytes hs @ crlf @ rest"
    using ru_crlf[OF Cons.prems(1), of ?l "header_bytes hs @ crlf @ rest"] Cons.prems(2,5) cr len
    by (auto simp: header_bytes_def h)
  have "?l @ crlf \<noteq> crlf" by simp
  moreover have "length (?l @ crlf) \<le> max_header_line" using len by (simp add: max_header_line_def crlf_def)
  moreover have "k \<noteq> []" using ok by (auto simp: header_ok_def py_strip_def strip_with_def rdropWhile_def)
  ultimately have "api_headers ru n acc s = api_headers ru j (add_header k x acc) s'"
    using header_line_parts[OF ok(1)] ok(2)
    by (simp add: n attempt_def bindR_apply s'(1) del: length_append length_map map_append)
  moreover have "list_all api_header_ok hs" "length hs < j" using Cons.prems(3,4) n by simp_all
  ultimately show ?case
    using Cons.IH[OF s'(2,3), of j "add_header k x acc"] Cons.prems(5) by (simp add: h)
qed

lemma api_body_read:
  assumes "view s = body @ rest" "int (length body) \<le> max_body" "od_get hs (U ''content-length'') = Some (show_nat (length body))"
  shows "\<exists>s'. api_body rx hs s = (Inr body, s') \<and> view s' = rest"
proof -
  obtain c cs where c: "show_nat (length body) = c # cs" using show_nat_nonempty by (cases "show_nat (length body)") auto
  have p: "py_int 10 (c # cs) = Some (int (length body))" using py_int_show_nat[of "length body"] c by simp
  show ?thesis
    using rx_enough[of "length body" s] assms c p
    by (cases "rx (length body) s") (auto simp: api_body_def attempt_def bindR_apply)
qed

lemma content_length_found:
  "od_get (map norm_header (framed_headers hs body)) (U ''content-length'') = Some (show_nat (length body))"
  if "distinct (map (fst \<circ> norm_header) (framed_headers hs body))"
proof -
  have n: "norm_header (U ''Content-Length'', show_nat (length body)) = (U ''content-length'', show_nat (length body))"
  proof -
    have "py_strip (show_nat (length body)) = show_nat (length body)"
      using show_nat_digits by (intro strip_digits) (auto simp: list_all_iff)
    moreover have "py_strip (U ''Content-Length'') = U ''Content-Length''"
      by (rule strip_none) (simp add: U_def is_space_def)
    ultimately show ?thesis by (simp add: norm_header_def py_lower_def U_def lower1_def)
  qed
  have "U ''content-length'' \<notin> fst ` set (map norm_header hs)"
    using that by (auto simp: framed_headers_def n image_image)
  then show ?thesis by (simp add: framed_headers_def n od_get_append od_get_absent) (simp add: od_get_def)
qed

lemma request_read_back:
  assumes "ready s" "view s = request_text m t hs body @ rest" "api_request_ok m t hs body" "8192 \<le> limit"
  shows "\<exists>s'. read_request ru rx s = (Inr (Some \<lparr> rq_method = py_upper m, rq_path = fst (split_target t),
      rq_query = dict_of (snd (split_target t)), rq_headers = map norm_header (framed_headers hs body), rq_body = body \<rparr>), s')
    \<and> view s' = rest"
proof -
  let ?v = "U ''HTTP/1.1''" and ?l = "map of_nat (m @ [32] @ t @ [32] @ U ''HTTP/1.1'') :: bytes"
  have r: "plain m" "plain t" "length (m @ t) \<le> 8180" "list_all api_header_ok (framed_headers hs body)"
    "length (framed_headers hs body) < max_headers + 1"
    "distinct (map (fst \<circ> norm_header) (framed_headers hs body))" "int (length body) \<le> max_body"
    using assms(3) by (auto simp: api_request_ok_def request_ok_def max_headers_def framed_headers_def api_header_ok_def U_def)
  have v: "plain ?v" "?v \<noteq> []" "prefix (U ''HTTP/1.'') ?v" by (simp_all add: plain_def U_def)
  have cr: "13 \<notin> set ?l"
  proof (rule of_nat_not_cr)
    have "list_all (\<lambda>c. c < 256 \<and> c \<noteq> 13) s" if "plain s" for s
      using that unfolding plain_def by (rule list.pred_mono_strong) simp
    then show "list_all (\<lambda>c. c < 256 \<and> c \<noteq> 13) (m @ [32] @ t @ [32] @ ?v)" using r(1,2) v(1) by simp
  qed
  have len: "length ?l \<le> 8190" using r(3) by simp
  obtain s1 where s1: "ru crlf s = (Inr (?l @ crlf), s1)" "ready s1"
    "view s1 = header_bytes (framed_headers hs body) @ crlf @ body @ rest"
    using ru_crlf[OF assms(1), of ?l "header_bytes (framed_headers hs body) @ crlf @ body @ rest"] assms(2,4) cr len
    by (auto simp: request_text_def request_line_def)
  have parts: "request_parts (?l @ crlf) = Some (m, t, ?v)"
    using request_parts_line[OF r(1,2) v(1,2)] by (simp add: request_line_def)
  have blank: "\<not> blank_line (?l @ crlf)" by (simp add: blank_line_def U_def)
  have size: "length (?l @ crlf) \<le> max_request_line" using len by (simp add: max_request_line_def crlf_def)
  obtain s2 where s2: "api_headers ru (max_headers + 1) [] s1 = (Inr (map norm_header (framed_headers hs body)), s2)"
    "view s2 = body @ rest"
    using api_headers_read[OF s1(2,3) r(4,5) assms(4), of "[]"] add_headers_distinct[of "[]" "framed_headers hs body"] r(6)
    by auto
  obtain s3 where s3: "api_body rx (map norm_header (framed_headers hs body)) s2 = (Inr body, s3)" "view s3 = rest"
    using api_body_read[OF s2(2) r(7) content_length_found[OF r(6)]] by blast
  show ?thesis
    using parts blank size s2 s3 v(3)
    by (simp add: read_request_def request_of_def attempt_def bindR_apply s1(1) split_beta del: length_append length_map map_append
        api_headers.simps)
qed

end

interpretation raw_http: body_reader concat "raw_readuntil limit" "\<lambda>s. True" limit raw_readexactly ..


text \<open>Whatever path, query fields, headers and body a client encodes (percent encoding, \<open>&\<close> and \<open>=\<close>, a
  Content-Length), the API reads exactly these, however the bytes are cut, and leaves what follows the request in the
  stream: the method in upper case, the path decoded, of equal query names the last value, header names in lower
  case and values stripped.\<close>

theorem api_request_roundtrip:
  assumes "utf8_encode p = Inr pb" "encodes fs bs" "api_request_ok m (target_text pb bs) hs body"
    and "concat s = request_text m (target_text pb bs) hs body @ rest" "8192 \<le> limit"
  shows "\<exists>s'. read_request (raw_readuntil limit) raw_readexactly s = (Inr (Some \<lparr> rq_method = py_upper m, rq_path = p,
      rq_query = dict_of fs, rq_headers = map norm_header (framed_headers hs body), rq_body = body \<rparr>), s')
    \<and> concat s' = rest"
  using raw_http.request_read_back[OF TrueI assms(4,3,5)] split_target_text[OF assms(1,2)] by simp

lemma sample_request_ok: "api_request_ok (U ''put'') (target_text (B ''/a b'') [(B ''k'', B ''v&'')]) [(U ''Host'', U '' h'')] [1, 2]"
proof -
  have "py_strip (U ''Host'') = U ''Host''" "py_strip (U ''Content-Length'') = U ''Content-Length''"
    by (rule strip_none, simp add: U_def is_space_def)+
  moreover have "show_nat (Suc (Suc 0)) = U ''2''" by (simp add: show_nat.simps U_def)
  ultimately show ?thesis
    by (simp add: api_request_ok_def request_ok_def framed_headers_def api_header_ok_def header_ok_def norm_header_def
        plain_def latin_line_def target_text_def query_text_def join_with_def quote_def quote_byte_def unreserved_def
        pct_digit_def U_def B_def py_lower_def lower1_def max_body_def)
qed

theorem api_request_roundtrip_witness:
  "\<exists>r s'. read_request (raw_readuntil 8192) raw_readexactly
      [request_text (U ''put'') (target_text (B ''/a b'') [(B ''k'', B ''v&'')]) [(U ''Host'', U '' h'')] [1, 2]] = (Inr (Some r), s')
    \<and> rq_path r = U ''/a b'' \<and> rq_query r = [(U ''k'', U ''v&'')] \<and> rq_body r = [1, 2] \<and> concat s' = []"
proof -
  have e: "utf8_encode (U ''/a b'') = Inr (B ''/a b'')" "encodes [(U ''k'', U ''v&'')] [(B ''k'', B ''v&'')]"
    by (simp_all add: U_def B_def utf8_cp_def encodes_def)
  show ?thesis
    using api_request_roundtrip[OF e sample_request_ok, where s = "[request_text (U ''put'')
        (target_text (B ''/a b'') [(B ''k'', B ''v&'')]) [(U ''Host'', U '' h'')] [1, 2]]" and rest = "[]" and limit = 8192]
    by (auto simp: dict_of_def)
qed

end
