(* ===== verification/Admin.thy ===== *)
theory Admin
  imports Complex_Main Stats Api_Http
begin

text \<open>
  \<open>core/admin.py\<close>: the server's administration page.  A connection is one read of at most 8192 bytes, parsed
  as a request; the token and the origin are checked; the operations of \<open>Stats\<close> are called; one reply is sent
  and the connection closed.  The page's HTML, the JSON text of a snapshot and the check of a network location's characters
  in \<open>urlparse\<close> are parameters.
\<close>

section \<open>Reading the request\<close>

definition head_of :: "bytes \<Rightarrow> pystr" where
  "head_of raw = latin1_decode (case find_sub (crlf @ crlf) raw of None \<Rightarrow> raw | Some e \<Rightarrow> take e raw)"

fun put_headers :: "pystr list \<Rightarrow> (pystr, pystr) odict \<Rightarrow> (pystr, pystr) odict" where
  "put_headers [] hs = hs"
| "put_headers (line # ls) hs = put_headers ls
     (case partition1 58 line of None \<Rightarrow> hs | Some (k, v) \<Rightarrow> od_set (py_lower (py_strip k)) (py_strip v) hs)"

definition parse_headers :: "bytes \<Rightarrow> (pystr, pystr) odict" where
  "parse_headers raw = put_headers (tl (split_sub [13, 10] (head_of raw))) []"

definition header_val :: "string \<Rightarrow> (pystr, pystr) odict \<Rightarrow> pystr" where
  "header_val k hs = (case od_get hs (U k) of Some v \<Rightarrow> v | None \<Rightarrow> [])"

definition csrf_ok :: "pystr \<Rightarrow> (pystr, pystr) odict \<Rightarrow> bool" where
  "csrf_ok m hs \<longleftrightarrow> m \<noteq> U ''POST'' \<or> header_val ''origin'' hs = []
     \<or> header_val ''host'' hs \<noteq> [] \<and> suffix ([47, 47] @ header_val ''host'' hs) (header_val ''origin'' hs)"

text \<open>\<open>urlparse\<close>: the path without its parameters, and the query.\<close>

definition scheme_char :: "nat \<Rightarrow> bool" where
  "scheme_char c \<longleftrightarrow> 48 \<le> c \<and> c \<le> 57 \<or> 65 \<le> c \<and> c \<le> 90 \<or> 97 \<le> c \<and> c \<le> 122 \<or> c \<in> {43, 45, 46}"

definition split_scheme :: "pystr \<Rightarrow> pystr \<times> pystr" where
  "split_scheme s = (case partition1 58 s of
       Some (a, b) \<Rightarrow> if a \<noteq> [] \<and> (65 \<le> hd a \<and> hd a \<le> 90 \<or> 97 \<le> hd a \<and> hd a \<le> 122) \<and> list_all scheme_char a
         then (py_lower a, b) else ([], s)
     | None \<Rightarrow> ([], s))"

definition params_schemes :: "pystr list" where
  "params_schemes = map U ['''', ''ftp'', ''hdl'', ''prospero'', ''http'', ''https'', ''shttp'', ''rtsp'', ''rtspu'', ''sip'',
     ''sips'', ''mms'', ''sftp'', ''tel'']"

definition urlparse :: "(pystr \<Rightarrow> bool) \<Rightarrow> pystr \<Rightarrow> py_error + (pystr \<times> pystr)" where
  "urlparse netloc_ok url =
     (let s = filter (\<lambda>c. \<not> url_remove c) (dropWhile (\<lambda>c. c \<le> 32) url);
          (scheme, rest) = split_scheme s;
          netloc = (if prefix [47, 47] rest then takeWhile (\<lambda>c. c \<notin> {47, 63, 35}) (drop 2 rest) else []);
          tail = (if prefix [47, 47] rest then drop (2 + length netloc) rest else rest);
          path = cut_at 63 (cut_at 35 tail)
      in if (91 \<in> set netloc) \<noteq> (93 \<in> set netloc) \<or> \<not> netloc_ok netloc then Inl ValueError
         else Inr (if scheme \<in> set params_schemes then strip_params path else path, after 63 (cut_at 35 tail)))"

text \<open>\<open>unquote\<close> works on the runs of ASCII characters; \<open>parse_qs\<close> leaves out fields without a value.\<close>

function unquote_text :: "pystr \<Rightarrow> pystr" where
  "unquote_text [] = []"
| "unquote_text (c # s) =
     (if c < 128 then unquote (takeWhile (\<lambda>x. x < 128) (c # s)) @ unquote_text (dropWhile (\<lambda>x. x < 128) s)
      else c # unquote_text s)"
  by pat_completeness auto
termination
  by (relation "measure length") (auto simp: le_imp_less_Suc length_dropWhile_le)

declare unquote_text.simps [simp del]

definition qs_decode :: "pystr \<Rightarrow> pystr" where
  "qs_decode s = unquote_text (map (\<lambda>c. if c = 43 then 32 else c) s)"

definition parse_qs :: "pystr \<Rightarrow> (pystr \<times> pystr) list" where
  "parse_qs q = concat (map (\<lambda>f. case partition1 61 f of
       Some (n, v) \<Rightarrow> if v = [] then [] else [(qs_decode n, qs_decode v)]
     | None \<Rightarrow> []) (split_char 38 q))"

definition first_param :: "(pystr \<times> pystr) list \<Rightarrow> string \<Rightarrow> pystr" where
  "first_param ps k = (case map_of ps (U k) of Some v \<Rightarrow> v | None \<Rightarrow> [])"

text \<open>Method and target of the first line; \<open>None\<close> when it does not have two parts in UTF-8.\<close>

definition request_line :: "bytes \<Rightarrow> (pystr \<times> pystr) option" where
  "request_line raw =
     (case utf8_decode (case find_sub crlf raw of None \<Rightarrow> raw | Some e \<Rightarrow> take e raw) of
        Inl e \<Rightarrow> None
      | Inr s \<Rightarrow> (case split_char 32 s of m # t # _ \<Rightarrow> Some (m, t) | _ \<Rightarrow> None))"

section \<open>Handling it\<close>

text \<open>\<open>hmac.compare_digest\<close> of two strings wants both ASCII.\<close>

definition compare_digest :: "pystr \<Rightarrow> pystr \<Rightarrow> py_error + bool" where
  "compare_digest a b = (if list_all (\<lambda>c. c < 128) a \<and> list_all (\<lambda>c. c < 128) b then Inr (a = b) else Inl TypeError)"

datatype reply_body = Text string | Page | StatsJson snapshot

record reply =
  rp_status :: nat
  rp_type :: string
  rp_body :: reply_body

datatype outcome = Closed | Crash py_error | Reply reply

definition reply :: "nat \<Rightarrow> string \<Rightarrow> reply_body \<Rightarrow> outcome" where
  "reply status ct body = Reply \<lparr> rp_status = status, rp_type = ct, rp_body = body \<rparr>"

definition json_reply :: "nat \<Rightarrow> string \<Rightarrow> outcome" where
  "json_reply status s = reply status ''application/json'' (Text s)"

text \<open>The operation of a path: the outcome, the writers of closed connections, the statistics after it.\<close>

definition admin_kill :: "pystr \<Rightarrow> stats \<Rightarrow> bool \<times> nat list" where
  "admin_kill s st = (case py_int 10 s of
       Some n \<Rightarrow> if n < 0 then (False, []) else kill (nat n) st
     | None \<Rightarrow> (False, []))"

definition admin_block :: "pystr \<Rightarrow> stats \<Rightarrow> nat list \<times> stats" where
  "admin_block ip st = (if ip = [] then ([], st) else block ip st)"

definition admin_unblock :: "pystr \<Rightarrow> stats \<Rightarrow> stats" where
  "admin_unblock ip st = (if ip = [] then st else unblock ip st)"

definition admin_post :: "pystr \<Rightarrow> (pystr \<times> pystr) list \<Rightarrow> stats \<Rightarrow> outcome \<times> nat list \<times> stats" where
  "admin_post path ps st =
     (if path = U ''/api/block'' then (json_reply 200 ''{\"ok\":true}'', admin_block (first_param ps ''ip'') st)
      else if path = U ''/api/unblock'' then (json_reply 200 ''{\"ok\":true}'', [], admin_unblock (first_param ps ''ip'') st)
      else (case admin_kill (first_param ps ''id'') st of
           (ok, ws) \<Rightarrow> (json_reply 200 (if ok then ''{\"ok\":true}'' else ''{\"ok\":false}''), ws, st)))"

definition post_paths :: "pystr list" where
  "post_paths = map U [''/api/block'', ''/api/unblock'', ''/api/kill'']"

definition admin_route :: "rat \<Rightarrow> pystr \<Rightarrow> pystr \<Rightarrow> (pystr \<times> pystr) list \<Rightarrow> stats \<Rightarrow> outcome \<times> nat list \<times> stats" where
  "admin_route now m path ps st =
     (if path = U ''/'' \<or> path = [] then (reply 200 ''text/html; charset=utf-8'' Page, [], st)
      else if path = U ''/api/stats'' then (reply 200 ''application/json'' (StatsJson (snapshot now st)), [], st)
      else if path \<in> set post_paths \<and> m = U ''POST'' then admin_post path ps st
      else (reply 404 ''text/plain'' (Text ''Not Found''), [], st))"

definition admin_checks :: "pystr \<Rightarrow> pystr \<Rightarrow> bytes \<Rightarrow> (pystr \<times> pystr) list \<Rightarrow> outcome option" where
  "admin_checks token m raw ps =
     (case (if token = [] then Inr True else compare_digest (first_param ps ''token'') token) of
        Inl e \<Rightarrow> Some (Crash e)
      | Inr False \<Rightarrow> Some (json_reply 401 ''{\"error\":\"unauthorized\"}'')
      | Inr True \<Rightarrow>
          if \<not> csrf_ok m (parse_headers raw) then Some (json_reply 403 ''{\"error\":\"cross-origin POST denied\"}'') else None)"

definition admin_request :: "(pystr \<Rightarrow> bool) \<Rightarrow> pystr \<Rightarrow> rat \<Rightarrow> bytes \<Rightarrow> stats \<Rightarrow> outcome \<times> nat list \<times> stats" where
  "admin_request netloc_ok token now raw st =
     (case request_line raw of
        None \<Rightarrow> (Closed, [], st)
      | Some (m, target) \<Rightarrow>
          (case urlparse netloc_ok target of
             Inl e \<Rightarrow> (Crash e, [], st)
           | Inr (path, query) \<Rightarrow>
               (case admin_checks token m raw (parse_qs query) of
                  Some out \<Rightarrow> (out, [], st)
                | None \<Rightarrow> admin_route now m path (parse_qs query) st)))"

text \<open>The first read: the bytes waiting, at most 8192 of them, or an exception.\<close>

definition admin_handle :: "(pystr \<Rightarrow> bool) \<Rightarrow> pystr \<Rightarrow> rat \<Rightarrow> bytes option \<Rightarrow> stats \<Rightarrow> outcome \<times> nat list \<times> stats" where
  "admin_handle netloc_ok token now arrived st =
     (case arrived of
        None \<Rightarrow> (Closed, [], st)
      | Some bs \<Rightarrow> admin_request netloc_ok token now (take 8192 bs) st)"

text \<open>The bytes of a reply.\<close>

definition admin_phrase :: "nat \<Rightarrow> string" where
  "admin_phrase n = (if n = 200 then ''OK'' else if n = 401 then ''Unauthorized'' else if n = 403 then ''Forbidden''
     else if n = 404 then ''Not Found'' else ''Error'')"

definition body_bytes :: "bytes \<Rightarrow> (snapshot \<Rightarrow> bytes) \<Rightarrow> reply_body \<Rightarrow> bytes" where
  "body_bytes html dumps b = (case b of Text s \<Rightarrow> B s | Page \<Rightarrow> html | StatsJson sn \<Rightarrow> dumps sn)"

definition respond_bytes :: "bytes \<Rightarrow> (snapshot \<Rightarrow> bytes) \<Rightarrow> reply \<Rightarrow> bytes" where
  "respond_bytes html dumps r = (let body = body_bytes html dumps (rp_body r) in
     B ''HTTP/1.1 '' @ map of_nat (show_nat (rp_status r)) @ [32] @ B (admin_phrase (rp_status r)) @ crlf
     @ B ''Content-Type: '' @ B (rp_type r) @ crlf
     @ B ''Content-Length: '' @ map of_nat (show_nat (length body)) @ crlf @ B ''Connection: close'' @ crlf @ crlf @ body)"

section \<open>What the checks guard\<close>

text \<open>Method, path and fields of a request that can be parsed.\<close>

definition admin_parts :: "(pystr \<Rightarrow> bool) \<Rightarrow> bytes \<Rightarrow> (pystr \<times> pystr \<times> (pystr \<times> pystr) list) option" where
  "admin_parts netloc_ok raw =
     (case request_line raw of
        None \<Rightarrow> None
      | Some (m, target) \<Rightarrow>
          (case urlparse netloc_ok target of Inl e \<Rightarrow> None | Inr (path, query) \<Rightarrow> Some (m, path, parse_qs query)))"

definition authorised :: "(pystr \<Rightarrow> bool) \<Rightarrow> pystr \<Rightarrow> bytes \<Rightarrow> bool" where
  "authorised netloc_ok token raw \<longleftrightarrow>
     (case admin_parts netloc_ok raw of
        None \<Rightarrow> False
      | Some (m, path, ps) \<Rightarrow> (token = [] \<or> first_param ps ''token'' = token) \<and> csrf_ok m (parse_headers raw))"

lemma admin_checks_None:
  "admin_checks token m raw ps = None \<Longrightarrow> (token = [] \<or> first_param ps ''token'' = token) \<and> csrf_ok m (parse_headers raw)"
  by (auto simp: admin_checks_def compare_digest_def split: if_splits sum.splits bool.splits)

lemma admin_request_parts:
  "admin_request netloc_ok token now raw st =
     (case admin_parts netloc_ok raw of
        None \<Rightarrow> (fst (admin_request netloc_ok token 0 raw new_stats), [], st)
      | Some (m, path, ps) \<Rightarrow>
          (case admin_checks token m raw ps of Some out \<Rightarrow> (out, [], st) | None \<Rightarrow> admin_route now m path ps st))"
proof (cases "request_line raw")
  case (Some r)
  then obtain m target where r: "request_line raw = Some (m, target)" by (cases r) auto
  show ?thesis by (cases "urlparse netloc_ok target") (auto simp: admin_request_def admin_parts_def r)
qed (simp add: admin_request_def admin_parts_def)

lemma unauthorised_request:
  assumes "\<not> authorised netloc_ok token raw"
  shows "admin_request netloc_ok token now raw st = (fst (admin_request netloc_ok token 0 raw new_stats), [], st)"
proof (cases "admin_parts netloc_ok raw")
  case None
  then show ?thesis by (simp add: admin_request_parts[of netloc_ok token now])
next
  case (Some r)
  then obtain m path ps where r: "admin_parts netloc_ok raw = Some (m, path, ps)" by (cases r) auto
  have "admin_checks token m raw ps \<noteq> None"
    using admin_checks_None[of token m raw ps] assms by (auto simp: authorised_def r)
  then obtain out where "admin_checks token m raw ps = Some out" by blast
  then show ?thesis by (simp add: admin_request_parts[of netloc_ok token now] admin_request_parts[of netloc_ok token 0] r)
qed

lemma admin_post_blocks:
  assumes "admin_post path ps st = (out, ws, st')"
  shows "\<forall>ip. is_blocked st' ip \<noteq> is_blocked st ip \<longrightarrow> ip = first_param ps ''ip''"
proof -
  let ?ip = "first_param ps ''ip''"
  consider "st' = st" | "(ws, st') = admin_block ?ip st" | "st' = admin_unblock ?ip st"
    using assms by (auto simp: admin_post_def split: if_splits prod.splits)
  then show ?thesis
    by cases (auto simp: is_blocked_def admin_block_def admin_unblock_def block_def unblock_def split: if_splits)
qed

lemma admin_route_effect:
  assumes "admin_route now m path ps st = (out, ws, st')"
  shows "(st' \<noteq> st \<or> ws \<noteq> [] \<longrightarrow> m = U ''POST'' \<and> path \<in> set post_paths)
    \<and> (\<forall>ip. is_blocked st' ip \<noteq> is_blocked st ip \<longrightarrow> ip = first_param ps ''ip'')"
proof (cases "m = U ''POST'' \<and> path \<in> set post_paths \<and> admin_route now m path ps st = admin_post path ps st")
  case True
  then have "admin_post path ps st = (out, ws, st')" using assms by simp
  from admin_post_blocks[OF this] show ?thesis using True by blast
next
  case False
  then have "st' = st \<and> ws = []"
    using assms by (auto simp only: admin_route_def prod.inject split: if_split_asm)
  then show ?thesis by simp
qed


section \<open>Where the checks end\<close>

text \<open>Only the first 8192 bytes are read, and the origin is looked for in them: behind a target long enough, the
  header is not seen and a request of another origin passes.\<close>

lemma split_sub_none: "find_sub sep s = None \<Longrightarrow> split_sub sep s = [s]"
  by (simp add: split_sub.simps[of sep s])

lemma find_sub_absent: "a \<notin> set s \<Longrightarrow> find_sub (a # sep) s = None"
  by (auto simp: find_sub_None sublist_def)

lemma unat_numeral_13: "unat (13 :: byte) = 13"
  by simp

lemma unat_is_13: "13 = unat (b :: byte) \<longleftrightarrow> b = 13"
  by (metis unat_numeral_13 unsigned_word_eqI)

lemma long_target_hides_origin:
  assumes "13 \<notin> set (take 8192 bs)"
  shows "csrf_ok m (parse_headers (take 8192 bs))"
proof -
  have n: "find_sub (crlf @ crlf) (take 8192 bs) = None"
    using find_sub_absent[OF assms, of "[10, 13, 10]"] by (simp add: crlf_def)
  have "13 \<notin> set (latin1_decode (take 8192 bs))"
    using assms by (simp add: latin1_decode_def image_iff unat_is_13)
  then have "split_sub [13, 10] (head_of (take 8192 bs)) = [latin1_decode (take 8192 bs)]"
    by (simp add: head_of_def n split_sub_none find_sub_absent)
  then show ?thesis by (simp add: parse_headers_def csrf_ok_def header_val_def)
qed

text \<open>A token field with a character outside ASCII ends the handler with an exception.\<close>

lemma non_ascii_token_raises:
  "c \<ge> 128 \<Longrightarrow> c \<in> set (first_param ps ''token'') \<Longrightarrow> token \<noteq> [] \<Longrightarrow> admin_checks token m raw ps = Some (Crash TypeError)"
  by (auto simp: admin_checks_def compare_digest_def list_all_iff)

section \<open>A concrete request\<close>

definition sample_line :: pystr where "sample_line = U ''POST /api/block?token=t&ip=a''"

definition sample_post :: bytes where "sample_post = map of_nat sample_line"

lemma sample_parts:
  "admin_parts (\<lambda>_. True) sample_post = Some (U ''POST'', U ''/api/block'', [(U ''token'', U ''t''), (U ''ip'', U ''a'')])"
proof -
  have u: "utf8_decode sample_post = Inr sample_line"
    unfolding sample_post_def by (rule utf8_decode_encode, rule utf8_encode_ascii) (simp add: sample_line_def U_def)
  have f: "find_sub crlf sample_post = None"
    unfolding crlf_def by (rule find_sub_absent) (simp add: sample_post_def sample_line_def U_def)
  have s: "split_char 32 sample_line = [U ''POST'', U ''/api/block?token=t&ip=a'']" by code_simp
  have p: "urlparse (\<lambda>_. True) (U ''/api/block?token=t&ip=a'') = Inr (U ''/api/block'', U ''token=t&ip=a'')" by code_simp
  have q: "parse_qs (U ''token=t&ip=a'') = [(U ''token'', U ''t''), (U ''ip'', U ''a'')]" by code_simp
  show ?thesis by (simp add: admin_parts_def request_line_def u f s p q)
qed


text \<open>The same request with its token does block the address.\<close>

lemma sample_post_blocks:
  "is_blocked (snd (snd (admin_handle (\<lambda>_. True) (U ''t'') 0 (Some sample_post) st))) (U ''a'')"
proof -
  have t: "take 8192 sample_post = sample_post" by (simp add: sample_post_def sample_line_def)
  have c: "csrf_ok m (parse_headers sample_post)" for m
    using long_target_hides_origin[of sample_post m] unfolding t by (simp add: sample_post_def sample_line_def U_def)
  have "admin_checks (U ''t'') (U ''POST'') sample_post [(U ''token'', U ''t''), (U ''ip'', U ''a'')] = None"
    by (simp add: admin_checks_def first_param_def compare_digest_def c) (simp add: U_def)
  then show ?thesis
    by (simp add: admin_handle_def t admin_request_parts[of _ "U ''t''"] sample_parts admin_route_def post_paths_def
        admin_post_def admin_block_def first_param_def block_def is_blocked_def)
qed

end
