(* ===== verification/Ws_Proto.thy ===== *)
theory Ws_Proto
  imports Api_Http
begin

text \<open>
  \<open>core/api/ws_proto.py\<close>: the WebSocket handshake, the frame codec, and the connection with its reading loop
  and its sends.  SHA-1 is a parameter; the mask of a client frame is in the frame.
\<close>

unbundle bit_operations_syntax

section \<open>Handshake\<close>

definition b64_char :: "nat \<Rightarrow> byte" where
  "b64_char n = (if n < 26 then of_nat (65 + n) else if n < 52 then of_nat (71 + n)
     else if n < 62 then of_nat (n - 4) else if n = 62 then 43 else 47)"

fun b64encode :: "bytes \<Rightarrow> bytes" where
  "b64encode [] = []"
| "b64encode [a] = [b64_char (unat a div 4), b64_char (unat a mod 4 * 16), 61, 61]"
| "b64encode [a, b] = [b64_char (unat a div 4), b64_char (unat a mod 4 * 16 + unat b div 16),
     b64_char (unat b mod 16 * 4), 61]"
| "b64encode (a # b # c # t) = [b64_char (unat a div 4), b64_char (unat a mod 4 * 16 + unat b div 16),
     b64_char (unat b mod 16 * 4 + unat c div 64), b64_char (unat c mod 64)] @ b64encode t"

definition ws_guid :: bytes where "ws_guid = B ''258EAFA5-E914-47DA-95CA-C5AB0DC85B11''"

definition perform_handshake :: "(bytes \<Rightarrow> bytes) \<Rightarrow> request \<Rightarrow> py_error + bytes" where
  "perform_handshake sha1 req =
     (if rq_method req \<noteq> U ''GET'' then Inl (HTTPErr 405 ''WS upgrade requires GET'')
      else if py_lower (header_or req ''upgrade'' []) \<noteq> U ''websocket'' then
        Inl (HTTPErr 400 ''missing Upgrade: websocket'')
      else if \<not> contains (U ''upgrade'') (py_lower (header_or req ''connection'' [])) then
        Inl (HTTPErr 400 ''missing Connection: Upgrade'')
      else if header_or req ''sec-websocket-version'' [] \<noteq> U ''13'' then
        Inl (HTTPErr 400 ''unsupported Sec-WebSocket-Version (need 13)'')
      else let key = py_strip (header_or req ''sec-websocket-key'' []) in
        if key = [] then Inl (HTTPErr 400 ''missing Sec-WebSocket-Key'')
        else bindE (ascii_encode key) (\<lambda>k.
          Inr (B ''HTTP/1.1 101 Switching Protocols'' @ crlf @ B ''Upgrade: websocket'' @ crlf
            @ B ''Connection: Upgrade'' @ crlf
            @ B ''Sec-WebSocket-Accept: '' @ b64encode (sha1 (k @ ws_guid)) @ crlf @ crlf)))"

section \<open>Frames\<close>

definition op_text :: byte where "op_text = 1"
definition op_close :: byte where "op_close = 8"
definition op_ping :: byte where "op_ping = 9"
definition op_pong :: byte where "op_pong = 10"

definition max_frame_payload :: nat where "max_frame_payload = 1024 * 1024"

definition encode_frame :: "byte \<Rightarrow> bytes \<Rightarrow> py_error + bytes" where
  "encode_frame opcode payload =
     (let n = length payload in
      if n < 126 then Inr ([0x80 OR opcode, of_nat n] @ payload)
      else if n < 65536 then bindE (pack_be 2 n) (\<lambda>l. Inr ([0x80 OR opcode, 126] @ l @ payload))
      else bindE (pack_be 8 n) (\<lambda>l. Inr ([0x80 OR opcode, 127] @ l @ payload)))"

text \<open>\<open>bytes(b ^ mask[i & 3] for i, b in enumerate(payload))\<close>.\<close>

definition unmask :: "bytes \<Rightarrow> bytes \<Rightarrow> bytes" where
  "unmask key payload = map (\<lambda>(i, b). b XOR key ! (i mod 4)) (enumerate 0 payload)"

definition frame_length :: "(nat \<Rightarrow> ('s, bytes) reading) \<Rightarrow> nat \<Rightarrow> ('s, nat) reading" where
  "frame_length rx plen =
     (if plen = 126 then bindR (rx 2) (\<lambda>b. retR (from_be b))
      else if plen = 127 then bindR (rx 8) (\<lambda>b. retR (from_be b))
      else retR plen)"

definition read_frame :: "(nat \<Rightarrow> ('s, bytes) reading) \<Rightarrow> ('s, bool \<times> byte \<times> bytes) reading" where
  "read_frame rx =
     bindR (rx 2) (\<lambda>head.
       let fin = head ! 0 AND 0x80 \<noteq> 0; opcode = head ! 0 AND 0x0F; masked = head ! 1 AND 0x80 \<noteq> 0
       in bindR (frame_length rx (unat (head ! 1 AND 0x7F))) (\<lambda>plen.
          if max_frame_payload < plen then raiseR ConnectionErr
          else bindR (if masked then rx 4 else retR []) (\<lambda>key.
               bindR (if plen \<noteq> 0 then rx plen else retR []) (\<lambda>payload.
                 retR (fin, opcode, if key \<noteq> [] then unmask key payload else payload)))))"

section \<open>The connection\<close>

record ws =
  ws_closed :: bool
  ws_out :: bytes

text \<open>\<open>_send_raw\<close> under its lock: the whole frame, or the exception of the writer (\<open>ok\<close>) and the connection
  is marked closed.\<close>

definition send_raw :: "bool \<Rightarrow> byte \<Rightarrow> bytes \<Rightarrow> ws \<Rightarrow> (py_error + unit) \<times> ws" where
  "send_raw ok opcode payload w =
     (case (if ok then encode_frame opcode payload else Inl ConnectionErr) of
        Inl e \<Rightarrow> (Inl e, w\<lparr> ws_closed := True \<rparr>)
      | Inr f \<Rightarrow> (Inr (), w\<lparr> ws_out := ws_out w @ f \<rparr>))"

definition send_text :: "bool \<Rightarrow> pystr \<Rightarrow> ws \<Rightarrow> (py_error + unit) \<times> ws" where
  "send_text ok s w =
     (if ws_closed w then (Inl ConnectionErr, w)
      else case utf8_encode s of Inl e \<Rightarrow> (Inl e, w) | Inr b \<Rightarrow> send_raw ok op_text b w)"

text \<open>\<open>close\<close>; the arguments of every call encode.\<close>

definition ws_close :: "bool \<Rightarrow> nat \<Rightarrow> bytes \<Rightarrow> ws \<Rightarrow> py_error + ws" where
  "ws_close ok code reason w =
     (if ws_closed w then Inr w
      else bindE (pack_be 2 code) (\<lambda>c. Inr (snd (send_raw ok op_close (c @ reason) (w\<lparr> ws_closed := True \<rparr>)))))"

text \<open>One turn of \<open>_read_loop\<close>: \<open>None\<close> when the loop goes on.\<close>

definition on_frame :: "bool \<Rightarrow> byte \<Rightarrow> bytes \<Rightarrow> ws \<Rightarrow> bool \<times> ws" where
  "on_frame ok opcode payload w =
     (if opcode = op_close then
        (True, snd (send_raw ok op_close (if 2 \<le> length payload then take 2 payload else []) (w\<lparr> ws_closed := True \<rparr>)))
      else if opcode = op_ping then
        (case send_raw ok op_pong payload w of (Inl e, w') \<Rightarrow> (True, w') | (Inr _, w') \<Rightarrow> (False, w'))
      else (False, w))"

text \<open>The loop with \<open>ok i\<close> for the writer at its \<open>i\<close>-th frame; \<open>None\<close> when the fuel runs out.  Whatever ends it,
  the connection is closed.\<close>

fun read_loop ::
    "(nat \<Rightarrow> ('s, bytes) reading) \<Rightarrow> (nat \<Rightarrow> bool) \<Rightarrow> nat \<Rightarrow> 's \<Rightarrow> ws \<Rightarrow> (ws \<times> 's) option" where
  "read_loop rx ok 0 s w = None"
| "read_loop rx ok (Suc k) s w =
     (case read_frame rx s of
        (Inl e, s') \<Rightarrow> Some (w\<lparr> ws_closed := True \<rparr>, s')
      | (Inr (fin, opcode, payload), s') \<Rightarrow>
          (case on_frame (ok k) opcode payload w of
             (True, w') \<Rightarrow> Some (w'\<lparr> ws_closed := True \<rparr>, s')
           | (False, w') \<Rightarrow> read_loop rx ok k s' w'))"

section \<open>Frames are read as they were written\<close>

text \<open>A frame of a client, masked with four bytes (RFC 6455), and of the server, not masked.\<close>

definition wire_length :: "bool \<Rightarrow> nat \<Rightarrow> bytes" where
  "wire_length masked n = (let m = (if masked then 0x80 else 0) in
     if n < 126 then [m OR of_nat n] else if n < 65536 then (m OR 126) # to_be 2 n else (m OR 127) # to_be 8 n)"

definition client_frame :: "bytes \<Rightarrow> byte \<Rightarrow> bytes \<Rightarrow> bytes" where
  "client_frame key opcode payload = [0x80 OR opcode] @ wire_length True (length payload) @ key @ unmask key payload"

lemma length_unmask [simp]: "length (unmask key p) = length p"
  by (simp add: unmask_def)

lemma unmask_unmask [simp]: "unmask key (unmask key p) = p"
  by (rule nth_equalityI) (simp_all add: unmask_def nth_enumerate_eq ac_simps flip: xor.assoc)

lemma small_low:
  fixes w :: byte
  assumes "unat w < 2 ^ n"
  shows "w AND mask n = w"
  by (rule word_unat_eq_iff[THEN iffD2]) (use assms in \<open>simp add: take_bit_nat_eq_self unsigned_take_bit_eq flip: take_bit_eq_mask\<close>)

lemma low_bits:
  fixes w :: byte
  shows "w < 16 \<Longrightarrow> w AND 0x0F = w" "w < 128 \<Longrightarrow> w AND 0x7F = w" "w < 128 \<Longrightarrow> w AND 0x80 = 0"
proof -
  show a: "w < 16 \<Longrightarrow> w AND 0x0F = w"
    using small_low[of w 4] by (simp add: word_less_nat_alt mask_eq_exp_minus_1)
  show b: "w < 128 \<Longrightarrow> w AND 0x7F = w"
    using small_low[of w 7] by (simp add: word_less_nat_alt mask_eq_exp_minus_1)
  have "(w AND 0x7F) AND 0x80 = (0 :: byte)" by (simp add: and.assoc)
  then show "w < 128 \<Longrightarrow> w AND 0x80 = 0" using b by simp
qed

lemma first_byte:
  fixes op :: byte
  assumes "op < 16"
  shows "(0x80 OR op) AND 0x80 \<noteq> 0" "(0x80 OR op) AND 0x0F = op"
  using assms low_bits[of op] by (simp_all add: bit.conj_disj_distrib2)

lemma second_byte:
  fixes w :: byte
  assumes "w < 128"
  shows "(0x80 OR w) AND 0x80 \<noteq> 0" "(0x80 OR w) AND 0x7F = w" "w AND 0x80 = 0" "w AND 0x7F = w"
  using assms low_bits[of w] by (simp_all add: bit.conj_disj_distrib2)

lemma byte_length:
  assumes "n < 128"
  shows "unat ((of_nat n :: byte) AND 0x7F) = n" "(of_nat n :: byte) AND 0x80 = 0"
    "unat ((0x80 OR of_nat n :: byte) AND 0x7F) = n" "(0x80 OR of_nat n :: byte) AND 0x80 \<noteq> 0"
proof -
  have w: "(of_nat n :: byte) < 128" "unat (of_nat n :: byte) = n"
    using assms by (simp_all add: word_less_nat_alt unat_of_nat)
  show "unat ((of_nat n :: byte) AND 0x7F) = n" "(of_nat n :: byte) AND 0x80 = 0"
    "unat ((0x80 OR of_nat n :: byte) AND 0x7F) = n" "(0x80 OR of_nat n :: byte) AND 0x80 \<noteq> 0"
    using second_byte[OF w(1)] w(2) by simp_all
qed

lemma length_wire: "length (wire_length masked n) = (if n < 126 then 1 else if n < 65536 then 3 else 9)"
  by (simp add: wire_length_def Let_def)

lemma head_back:
  assumes "op < 16" "n \<le> max_frame_payload"
  shows "(let b = wire_length masked n in
     ([0x80 OR op] @ b) ! 0 = 0x80 OR op \<and> (b ! 0 AND 0x80 \<noteq> 0) = masked
     \<and> frame_length pure_readexactly (unat (b ! 0 AND 0x7F)) (tl b @ rest) = (Inr n, rest))"
proof -
  have n: "n < 256 ^ 8" using assms(2) by (simp add: max_frame_payload_def)
  show ?thesis
    using byte_length[of n] n
    by (cases masked)
      (auto simp: wire_length_def Let_def frame_length_def bind_pure)
qed

lemma read_frame_pure:
  assumes "op < 16" "length p \<le> max_frame_payload" "if masked then length key = 4 else key = []" "length q = length p"
  shows "read_frame pure_readexactly ([0x80 OR op] @ wire_length masked (length p) @ key @ q @ rest)
    = (Inr (True, op, if masked then unmask key q else q), rest)"
proof -
  obtain b0 bt where b: "wire_length masked (length p) = b0 # bt"
    using length_wire[of masked "length p"] by (cases "wire_length masked (length p)") (auto split: if_splits)
  have h: "(b0 AND 0x80 \<noteq> 0) = masked"
    "frame_length pure_readexactly (unat (b0 AND 0x7F)) (bt @ key @ q @ rest) = (Inr (length p), key @ q @ rest)"
    using head_back[OF assms(1,2), of masked "key @ q @ rest"] by (simp_all add: b Let_def)
  have "pure_readexactly 2 ((0x80 OR op) # b0 # bt @ key @ q @ rest) = (Inr [0x80 OR op, b0], bt @ key @ q @ rest)"
    by (simp add: pure_readexactly_def)
  moreover have "(if length p \<noteq> 0 then pure_readexactly (length p) else retR []) (q @ rest) = (Inr q, rest)"
    using assms(4) by (auto simp: pure_readexactly_def)
  moreover have "(if masked then pure_readexactly 4 else retR []) (key @ q @ rest) = (Inr key, q @ rest)"
    using assms(3) by (auto simp: pure_readexactly_def)
  moreover have "key \<noteq> [] \<longleftrightarrow> masked" using assms(3) by (cases masked) auto
  ultimately show ?thesis
    using first_byte[OF assms(1)] h assms(2) by (simp add: read_frame_def bindR_apply Let_def b)
qed

lemma encode_frame_wire: "encode_frame op p = Inr f \<Longrightarrow> f = [0x80 OR op] @ wire_length False (length p) @ p"
  by (auto simp: encode_frame_def wire_length_def Let_def pack_be_def split: if_splits)

context stream_reader
begin

lemma read_frame_sim: "sim view (read_frame rx) (read_frame pure_readexactly)"
  unfolding read_frame_def frame_length_def Let_def by (intro sim_intros rx_sim)

lemma read_client_frame:
  assumes "view s = client_frame key op p @ rest" "op < 16" "length p \<le> max_frame_payload" "length key = 4"
  shows "\<exists>s'. read_frame rx s = (Inr (True, op, p), s') \<and> view s' = rest"
  using simD[OF read_frame_sim, of s] read_frame_pure[OF assms(2,3), of True key "unmask key p" rest] assms
  by (cases "read_frame rx s") (auto simp: client_frame_def)

lemma read_server_frame:
  assumes "view s = f @ rest" "encode_frame op p = Inr f" "op < 16" "length p \<le> max_frame_payload"
  shows "\<exists>s'. read_frame rx s = (Inr (True, op, p), s') \<and> view s' = rest"
  using simD[OF read_frame_sim, of s] read_frame_pure[OF assms(3,4), of False "[]" p rest] assms(1,4) encode_frame_wire[OF assms(2)]
  by (cases "read_frame rx s") auto

end

section \<open>Control frames are answered\<close>

text \<open>What the server is to write for one frame, and the frames a client may send.\<close>

definition reply :: "byte \<Rightarrow> bytes \<Rightarrow> bytes" where
  "reply op p = (case encode_frame op p of Inl e \<Rightarrow> [] | Inr f \<Rightarrow> f)"

type_synonym frame_sent = "bytes \<times> byte \<times> bytes"

definition sent_ok :: "frame_sent \<Rightarrow> bool" where
  "sent_ok = (\<lambda>(key, op, p). length key = 4 \<and> op < 16 \<and> length p \<le> max_frame_payload)"

definition sent_bytes :: "frame_sent list \<Rightarrow> bytes" where
  "sent_bytes fs = concat (map (\<lambda>(key, op, p). client_frame key op p) fs)"

definition pongs :: "frame_sent list \<Rightarrow> bytes" where
  "pongs fs = concat (map (\<lambda>(key, op, p). if op = op_ping then reply op_pong p else []) fs)"

lemma encode_reply: "length p \<le> max_frame_payload \<Longrightarrow> encode_frame op p = Inr (reply op p)"
  by (auto simp: reply_def encode_frame_def max_frame_payload_def pack_be_def Let_def)

context stream_reader
begin

lemma read_loop_answers:
  assumes "view s = sent_bytes fs @ client_frame key op_close p @ rest" "list_all sent_ok fs"
    "list_all (\<lambda>(key, op, p). op \<noteq> op_close) fs" "sent_ok (key, op_close, p)" "length fs < n"
  shows "\<exists>s'. read_loop rx (\<lambda>i. True) n s w = Some (w\<lparr> ws_closed := True,
      ws_out := ws_out w @ pongs fs @ reply op_close (if 2 \<le> length p then take 2 p else []) \<rparr>, s') \<and> view s' = rest"
  using assms
proof (induction fs arbitrary: s w n)
  case Nil
  then obtain k where n: "n = Suc k" by (cases n) auto
  obtain s' where "read_frame rx s = (Inr (True, op_close, p), s')" "view s' = rest"
    using read_client_frame[of s key op_close p rest] Nil.prems by (auto simp: sent_bytes_def sent_ok_def op_close_def)
  moreover have "encode_frame op_close (if 2 \<le> length p then take 2 p else []) = Inr (reply op_close (if 2 \<le> length p then take 2 p else []))"
    by (rule encode_reply) (simp add: max_frame_payload_def)
  ultimately show ?case by (simp add: n on_frame_def send_raw_def pongs_def)
next
  case (Cons f fs)
  obtain k op q where f: "f = (k, op, q)" by (cases f)
  obtain j where n: "n = Suc j" using Cons.prems(5) by (cases n) auto
  obtain s' where r: "read_frame rx s = (Inr (True, op, q), s')" "view s' = sent_bytes fs @ client_frame key op_close p @ rest"
    using read_client_frame[of s k op q "sent_bytes fs @ client_frame key op_close p @ rest"] Cons.prems(1,2)
    by (auto simp: f sent_bytes_def sent_ok_def)
  have e: "encode_frame op_pong q = Inr (reply op_pong q)" using Cons.prems(2) by (intro encode_reply) (simp add: f sent_ok_def)
  have pre: "list_all sent_ok fs" "list_all (\<lambda>(key, op, p). op \<noteq> op_close) fs" "length fs < j" "op \<noteq> op_close"
    using Cons.prems(2,3,5) n by (simp_all add: f)
  show ?case
    using Cons.IH[OF r(2) pre(1,2) Cons.prems(4) pre(3), of "if op = op_ping then w\<lparr> ws_out := ws_out w @ reply op_pong q \<rparr> else w"]
      pre(4) e r(1)
    by (auto simp: n f on_frame_def send_raw_def pongs_def)
qed

end

text \<open>A client's control frames are answered in order: for any masked frames the client sends, however the
  stream is cut, each ping gets a pong with its payload, other frames get nothing, and a close frame gets its status
  code back and ends the loop with the connection closed, at the first byte behind the frame.\<close>

theorem ws_control_frames_answered:
  assumes "concat s = sent_bytes fs @ client_frame key op_close p @ rest" "list_all sent_ok fs"
    "list_all (\<lambda>(key, op, p). op \<noteq> op_close) fs" "sent_ok (key, op_close, p)" "length fs < n"
  shows "\<exists>s'. read_loop raw_readexactly (\<lambda>i. True) n s w = Some (w\<lparr> ws_closed := True,
      ws_out := ws_out w @ pongs fs @ reply op_close (if 2 \<le> length p then take 2 p else []) \<rparr>, s') \<and> concat s' = rest"
  by (rule raw.read_loop_answers[OF assms])

theorem ws_control_frames_answered_witness:
  "\<exists>s'. read_loop raw_readexactly (\<lambda>i. True) 3
      [sent_bytes [([1, 2, 3, 4], 9, [7, 8]), ([0, 0, 0, 0], 1, [5])] @ client_frame [9, 9, 9, 9] op_close [3, 232, 1]]
      \<lparr> ws_closed = False, ws_out = [] \<rparr>
    = Some (\<lparr> ws_closed = True, ws_out = [0x8A, 2, 7, 8, 0x88, 2, 3, 232] \<rparr>, s')"
  using ws_control_frames_answered[of "[sent_bytes [([1, 2, 3, 4], 9, [7, 8]), ([0, 0, 0, 0], 1, [5])] @ client_frame [9, 9, 9, 9] op_close [3, 232, 1]]"
    "[([1, 2, 3, 4], 9, [7, 8]), ([0, 0, 0, 0], 1, [5])]" "[9, 9, 9, 9]" "[3, 232, 1]" "[]" 3 "\<lparr> ws_closed = False, ws_out = [] \<rparr>"]
  by (auto simp: sent_ok_def op_close_def op_ping_def op_pong_def max_frame_payload_def pongs_def reply_def encode_frame_def)

end
