(* ===== verification/Api_Server.thy ===== *)
theory Api_Server
  imports Ws_Proto
begin

text \<open>
  The API server (\<open>core/api/server.py\<close>): dispatch of a request, the WebSocket upgrade, and the loop over the
  requests of one connection.  \<open>h\<close> stands for the endpoints and \<open>wh\<close> for the WebSocket handlers, which take
  over the reader and what was written; both may change the application's state \<open>'st\<close>.  Writes succeed.
\<close>

type_synonym ('h, 'st) endpoints = "'h \<Rightarrow> request \<Rightarrow> params \<Rightarrow> 'st \<Rightarrow> (py_error + response) \<times> 'st"
type_synonym ('w, 's, 'st) ws_endpoints = "'w \<Rightarrow> request \<Rightarrow> params \<Rightarrow> 's \<times> bytes \<Rightarrow> 'st \<Rightarrow> ('s \<times> bytes) \<times> 'st"

record ('h, 'w) api =
  ai_cfg :: api_cfg
  ai_routes :: "'h routes"
  ai_ws :: "'w ws_routes"
  ai_sha1 :: "bytes \<Rightarrow> bytes"

definition api_dispatch ::
    "('h, 'w) api \<Rightarrow> ('h, 'st) endpoints \<Rightarrow> request \<Rightarrow> 'st \<Rightarrow> (py_error + response) \<times> 'st" where
  "api_dispatch a h req st =
     (if rq_method req = U ''OPTIONS'' then
        (Inr \<lparr> rs_status = 204, rs_body = [], rs_type = U ''application/json'', rs_extra = [], rs_close = False \<rparr>, st)
      else (case check_auth (ai_cfg a) req of
          Inl e \<Rightarrow> (Inl e, st)
        | Inr False \<Rightarrow> (Inr (error_response 401 ''unauthorized''), st)
        | Inr True \<Rightarrow>
            (case route_match (ai_routes a) (rq_method req) (rq_path req) of
               (None, known) \<Rightarrow> (Inr (if known then error_response 405 ''method not allowed''
                  else error_response 404 ''not found''), st)
             | (Some (x, g), known) \<Rightarrow> h x req g st)))"

text \<open>An answer on the connection, whose left side is an exception of the encoding.\<close>

definition answer :: "response \<Rightarrow> bool \<Rightarrow> 's \<times> bytes \<Rightarrow> py_error + 's \<times> bytes" where
  "answer r keep c = bindE (response_bytes r keep) (\<lambda>b. Inr (fst c, snd c @ b))"

definition closing :: "response \<Rightarrow> response" where
  "closing r = r\<lparr> rs_close := True \<rparr>"

text \<open>\<open>_maybe_dispatch_ws\<close>: \<open>None\<close> where no WebSocket endpoint has the path.\<close>

definition ws_dispatch ::
    "('h, 'w) api \<Rightarrow> ('w, 's, 'st) ws_endpoints \<Rightarrow> request \<Rightarrow> 's \<times> bytes \<Rightarrow> 'st
      \<Rightarrow> ((py_error + 's \<times> bytes) \<times> 'st) option" where
  "ws_dispatch a wh req c st =
     (case match_ws (ai_ws a) (rq_path req) of
        None \<Rightarrow> None
      | Some (x, g) \<Rightarrow> Some
          (case check_auth (ai_cfg a) req of
             Inl e \<Rightarrow> (Inl e, st)
           | Inr False \<Rightarrow>
               (answer (inject_cors (ai_cfg a) req (closing (error_response 401 ''unauthorized''))) False c, st)
           | Inr True \<Rightarrow>
               (case perform_handshake (ai_sha1 a) req of
                  Inl (HTTPErr code msg) \<Rightarrow> (answer (closing (error_response code msg)) False c, st)
                | Inl e \<Rightarrow> (Inl e, st)
                | Inr hs \<Rightarrow> (case wh x req g (fst c, snd c @ hs) st of (c', st') \<Rightarrow> (Inr c', st')))))"

text \<open>One request: the connection after it, and whether the loop goes on; an exception on the left.\<close>

definition wants_ws :: "request \<Rightarrow> bool" where
  "wants_ws req \<longleftrightarrow> rq_method req = U ''GET'' \<and> contains (U ''websocket'') (py_lower (header_or req ''upgrade'' []))"

definition serve_http ::
    "('h, 'w) api \<Rightarrow> ('h, 'st) endpoints \<Rightarrow> request \<Rightarrow> 's \<times> bytes \<Rightarrow> 'st
      \<Rightarrow> (py_error + ('s \<times> bytes) \<times> bool) \<times> 'st" where
  "serve_http a h req c st =
     (case api_dispatch a h req st of
        (Inl e, st') \<Rightarrow> (Inl e, st')
      | (Inr r, st') \<Rightarrow>
          (let keep = should_keep_alive req r in
           (bindE (answer (inject_cors (ai_cfg a) req r) keep c) (\<lambda>c'. Inr (c', keep)), st')))"

definition serve_request ::
    "('h, 'w) api \<Rightarrow> ('h, 'st) endpoints \<Rightarrow> ('w, 's, 'st) ws_endpoints \<Rightarrow> request \<Rightarrow> 's \<times> bytes \<Rightarrow> 'st
      \<Rightarrow> (py_error + ('s \<times> bytes) \<times> bool) \<times> 'st" where
  "serve_request a h wh req c st =
     (case (if wants_ws req then ws_dispatch a wh req c st else None) of
        Some (r, st') \<Rightarrow> (bindE r (\<lambda>c'. Inr (c', False)), st')
      | None \<Rightarrow> serve_http a h req c st)"

text \<open>The \<open>except\<close> clauses around the loop.\<close>

definition conn_failed :: "py_error \<Rightarrow> 's \<times> bytes \<Rightarrow> 's \<times> bytes" where
  "conn_failed e c =
     (case e of
        ConnectionErr \<Rightarrow> c
      | HTTPErr code msg \<Rightarrow>
          (case answer (closing (error_response code msg)) False c of Inl e \<Rightarrow> c | Inr c' \<Rightarrow> c')
      | _ \<Rightarrow> (case answer (closing (error_response 500 ''internal error'')) False c of Inl e \<Rightarrow> c | Inr c' \<Rightarrow> c'))"

text \<open>One turn of the loop in \<open>_handle_conn\<close>: on the left the connection is over, on the right it goes on.  A
  request that does not come within 75 seconds is the reader's \<open>TimeoutErr\<close>.\<close>

definition conn_turn ::
    "('h, 'w) api \<Rightarrow> ('h, 'st) endpoints \<Rightarrow> ('w, 's, 'st) ws_endpoints
      \<Rightarrow> (bytes \<Rightarrow> ('s, bytes) reading) \<Rightarrow> (nat \<Rightarrow> ('s, bytes) reading) \<Rightarrow> 's \<times> bytes \<Rightarrow> 'st
      \<Rightarrow> (('s \<times> bytes) \<times> 'st) + (('s \<times> bytes) \<times> 'st)" where
  "conn_turn a h wh ru rx c st =
     (case read_request ru rx (fst c) of
        (Inl e, s) \<Rightarrow> Inl (if e = TimeoutErr then (s, snd c) else conn_failed e (s, snd c), st)
      | (Inr None, s) \<Rightarrow> Inl ((s, snd c), st)
      | (Inr (Some req), s) \<Rightarrow>
          (case serve_request a h wh req (s, snd c) st of
             (Inl e, st') \<Rightarrow> Inl (conn_failed e (s, snd c), st')
           | (Inr (c', keep), st') \<Rightarrow> (if keep then Inr (c', st') else Inl (c', st'))))"

fun handle_conn ::
    "('h, 'w) api \<Rightarrow> ('h, 'st) endpoints \<Rightarrow> ('w, 's, 'st) ws_endpoints
      \<Rightarrow> (bytes \<Rightarrow> ('s, bytes) reading) \<Rightarrow> (nat \<Rightarrow> ('s, bytes) reading) \<Rightarrow> nat \<Rightarrow> 's \<times> bytes \<Rightarrow> 'st
      \<Rightarrow> (('s \<times> bytes) \<times> 'st) option" where
  "handle_conn a h wh ru rx 0 c st = None"
| "handle_conn a h wh ru rx (Suc n) c st =
     (case conn_turn a h wh ru rx c st of
        Inl r \<Rightarrow> Some r
      | Inr (c', st') \<Rightarrow> handle_conn a h wh ru rx n c' st')"

section \<open>Every connection ends\<close>

definition shrinks :: "(bytes list, 'a) reading \<Rightarrow> bool" where
  "shrinks m \<longleftrightarrow> (\<forall>s. length (concat (snd (m s))) \<le> length (concat s))"

named_theorems shrink_intros "readings that never put bytes back"

lemma shrinks_ret [shrink_intros]: "shrinks (retR x)" by (simp add: shrinks_def)

lemma shrinks_raise [shrink_intros]: "shrinks (raiseR e)" by (simp add: shrinks_def)

lemma shrinks_bind [shrink_intros]:
  assumes "shrinks m" "\<And>x. shrinks (f x)"
  shows "shrinks (bindR m f)"
  unfolding shrinks_def
proof
  fix s
  obtain r s1 where m: "m s = (r, s1)" by fastforce
  have "length (concat s1) \<le> length (concat s)" using assms(1) m by (metis shrinks_def snd_conv)
  moreover have "length (concat (snd (f x s1))) \<le> length (concat s1)" for x using assms(2) by (simp add: shrinks_def)
  ultimately show "length (concat (snd (bindR m f s))) \<le> length (concat s)"
    by (cases r) (auto simp: bindR_apply m intro: le_trans)
qed

lemma shrinks_attempt [shrink_intros]: "shrinks m \<Longrightarrow> shrinks (attempt m)"
  by (simp add: shrinks_def attempt_def split: prod.split) (metis snd_conv)

lemma shrinks_until [shrink_intros]: "shrinks (raw_readuntil l sep)"
  by (auto simp: shrinks_def raw_readuntil_def split: option.split)

lemma shrinks_exactly [shrink_intros]: "shrinks (raw_readexactly n)"
  by (simp add: shrinks_def raw_readexactly_def)

lemma shrinks_if [shrink_intros]: "(c \<Longrightarrow> shrinks a) \<Longrightarrow> (\<not> c \<Longrightarrow> shrinks b) \<Longrightarrow> shrinks (if c then a else b)"
  by simp

lemma shrinks_headers: "shrinks (api_headers (raw_readuntil l) n hs)"
proof (induction n arbitrary: hs)
  case (Suc n)
  show ?case unfolding api_headers.simps
    by (rule shrinks_bind[OF shrinks_attempt[OF shrinks_until]])
      (auto simp: Let_def Suc.IH split: sum.split py_error.split prod.split intro!: shrink_intros)
qed (simp add: shrink_intros)

lemma shrinks_body: "shrinks (api_body raw_readexactly hs)"
  unfolding api_body_def by (auto split: option.split list.split sum.split py_error.split intro!: shrink_intros)

lemma line_taken: "raw_readuntil l crlf s = (Inr line, s') \<Longrightarrow> length (concat s') < length (concat s)"
  using find_sub_Some[of crlf "concat s"]
  by (auto simp: raw_readuntil_def crlf_def split: option.splits if_splits)

lemma shrinks_request_of: "shrinks (request_of (raw_readuntil l) raw_readexactly line)"
  unfolding request_of_def
  by (auto split: option.split prod.split simp del: api_headers.simps intro!: shrink_intros shrinks_headers shrinks_body)

lemma request_consumes:
  assumes "read_request (raw_readuntil l) raw_readexactly s = (Inr (Some req), s')"
  shows "length (concat s') < length (concat s)"
proof -
  obtain r s1 where r: "raw_readuntil l crlf s = (r, s1)" by fastforce
  obtain line where line: "r = Inr line"
    using assms r by (cases r) (auto simp: read_request_def bindR_apply attempt_def split: py_error.splits)
  then have "request_of (raw_readuntil l) raw_readexactly line s1 = (Inr (Some req), s')"
    using assms r by (simp add: read_request_def bindR_apply attempt_def)
  then have "length (concat s') \<le> length (concat s1)"
    using shrinks_request_of[of l line] unfolding shrinks_def by (metis snd_conv)
  then show ?thesis using line_taken r line by fastforce
qed

lemma served_on: "serve_request a h wh req c st = (Inr (c', True), st') \<Longrightarrow> fst c' = fst c"
  by (auto simp: serve_request_def serve_http_def answer_def Let_def bindE_Inr_iff split: option.splits prod.splits sum.splits)

lemma turn_consumes:
  assumes "conn_turn a h wh (raw_readuntil l) raw_readexactly (s, out) st = Inr (c', st')"
  shows "length (concat (fst c')) < length (concat s)"
proof -
  obtain r s1 where r: "read_request (raw_readuntil l) raw_readexactly s = (r, s1)" by fastforce
  obtain req where q: "r = Inr (Some req)" "serve_request a h wh req (s1, out) st = (Inr (c', True), st')"
    using assms r by (auto simp: conn_turn_def split: sum.splits option.splits prod.splits if_splits)
  show ?thesis using request_consumes[of l s req s1] r q served_on[OF q(2)] by simp
qed

text \<open>C39: Serving a connection ends: every turn of the loop that goes on has taken bytes off the stream, so after
  more turns than the client has sent bytes the connection is over, whatever the endpoints do.\<close>

theorem api_connection_ends:
  assumes "length (concat s) < n"
  shows "\<exists>c' st'. handle_conn a h wh (raw_readuntil l) raw_readexactly n (s, out) st = Some (c', st')"
  using assms
proof (induction n arbitrary: s out st)
  case (Suc n)
  show ?case
  proof (cases "conn_turn a h wh (raw_readuntil l) raw_readexactly (s, out) st")
    case (Inl x)
    then show ?thesis by (cases x) simp
  next
    case (Inr x)
    obtain c' st' where x: "x = (c', st')" by (cases x)
    have "length (concat (fst c')) < n" using turn_consumes[OF Inr[unfolded x]] Suc.prems by simp
    then show ?thesis using Suc.IH[of "fst c'" "snd c'" st'] Inr x by simp
  qed
qed simp

section \<open>Endpoints run for the secret only\<close>

lemma serve_agrees:
  assumes "\<And>x req g st. carries_secret (ai_cfg a) req \<Longrightarrow> h x req g st = h' x req g st"
    and "\<And>x req g c st. carries_secret (ai_cfg a) req \<Longrightarrow> wh x req g c st = wh' x req g c st"
  shows "serve_request a h wh req c st = serve_request a h' wh' req c st"
proof -
  have d: "api_dispatch a h req st = api_dispatch a h' req st"
    using assms(1) check_auth_true[of "ai_cfg a" req] by (auto simp: api_dispatch_def split: sum.split bool.split prod.split option.split)
  have w: "ws_dispatch a wh req c st = ws_dispatch a wh' req c st"
    using assms(2) check_auth_true[of "ai_cfg a" req] by (auto simp: ws_dispatch_def split: option.split sum.split bool.split py_error.split)
  show ?thesis unfolding serve_request_def serve_http_def d w ..
qed

text \<open>C32: An endpoint runs only for a request that carries the secret, as a bearer token or as the \<open>token\<close> field of
  the query: two sets of HTTP and WebSocket endpoints that agree on those requests serve every connection alike,
  byte for byte, and leave the application in the same state, whatever else they would do.\<close>

theorem api_needs_secret:
  assumes "\<And>x req g st. carries_secret (ai_cfg a) req \<Longrightarrow> h x req g st = h' x req g st"
    and "\<And>x req g c st. carries_secret (ai_cfg a) req \<Longrightarrow> wh x req g c st = wh' x req g c st"
  shows "handle_conn a h wh ru rx n c st = handle_conn a h' wh' ru rx n c st"
proof (induction n arbitrary: c st)
  case (Suc n)
  have s: "serve_request a h wh req c st = serve_request a h' wh' req c st" for req c st
    by (rule serve_agrees) (use assms in auto)
  have t: "conn_turn a h wh ru rx c st = conn_turn a h' wh' ru rx c st" unfolding conn_turn_def s ..
  show ?case unfolding handle_conn.simps t Suc.IH ..
qed simp

text \<open>A counter of the calls of its one endpoint, for the witnesses.\<close>

definition sample_api :: "(unit, unit) api" where
  "sample_api = \<lparr> ai_cfg = \<lparr> ap_secret = U ''s'', ap_cors = [] \<rparr>,
     ai_routes = add_route (U ''GET'') (U ''/version'') () [], ai_ws = [], ai_sha1 = (\<lambda>b. []) \<rparr>"

definition sample_endpoint :: "(unit, nat) endpoints" where
  "sample_endpoint = (\<lambda>x req g n. (Inr (error_response 200 ''ok''), n + 1))"

definition sample_request :: bytes where
  "sample_request = B ''GET /version HTTP/1.1'' @ crlf @ crlf"

theorem api_connection_ends_witness:
  "\<exists>c' st'. handle_conn sample_api sample_endpoint (\<lambda>x req g c st. (c, st)) (raw_readuntil 65536) raw_readexactly 26
    ([sample_request], []) 0 = Some (c', st')"
  by (rule api_connection_ends) (simp add: sample_request_def B_def crlf_def)

theorem api_needs_secret_witness:
  "handle_conn sample_api sample_endpoint (\<lambda>x req g c st. (c, st)) (raw_readuntil 65536) raw_readexactly 26 ([sample_request], []) 0
    = handle_conn sample_api (\<lambda>x req g n. if carries_secret (ai_cfg sample_api) req then sample_endpoint x req g n
        else (Inl OSErr, n + 7)) (\<lambda>x req g c st. (c, st)) (raw_readuntil 65536) raw_readexactly 26 ([sample_request], []) 0"
  by (rule api_needs_secret) (simp_all add: sample_endpoint_def)

end
