(* ===== verification/Time_Sync.thy ===== *)
theory Time_Sync
  imports Complex_Main "HOL-Library.Multiset" Json Hello_Auth
begin

text \<open>
  \<open>core/time_sync.py\<close>: durations of the configuration, the reply of a time server, the Date header of an
  HTTPS answer, and the maintenance of the clock offset that \<open>hello_auth\<close> adds to the system clock.

  Times are rationals where the code has floats.  Reading a number from text and a date from a header line
  are parameters (\<open>float()\<close>, \<open>parsedate_to_datetime\<close>); so is what a server answers, \<open>None\<close> standing for any
  exception.  The class attributes are the record \<open>time_state\<close>.
\<close>

section \<open>Durations\<close>

definition unit_seconds :: "nat \<Rightarrow> rat option" where
  "unit_seconds c = (if c = 115 then Some 1 else if c = 109 then Some 60 else if c = 104 then Some 3600
     else if c = 100 then Some 86400 else None)"

definition duration_text :: "(pystr \<Rightarrow> rat option) \<Rightarrow> pystr \<Rightarrow> rat" where
  "duration_text parse s =
     (if s = [] then 0
      else case unit_seconds (last s) of
          Some m \<Rightarrow> (case parse (butlast s) of Some f \<Rightarrow> f * m | None \<Rightarrow> 0)
        | None \<Rightarrow> (case parse s of Some f \<Rightarrow> f | None \<Rightarrow> 0))"

fun parse_duration :: "(pystr \<Rightarrow> rat option) \<Rightarrow> (json \<Rightarrow> pystr) \<Rightarrow> json \<Rightarrow> rat" where
  "parse_duration parse py_repr (JInt i) = of_int i"
| "parse_duration parse py_repr (JBool b) = (if b then 1 else 0)"
| "parse_duration parse py_repr (JFloat f) = f"
| "parse_duration parse py_repr j = duration_text parse (py_lower (py_strip (py_str py_repr j)))"

section \<open>One source\<close>

definition ntp_epoch_offset :: int where "ntp_epoch_offset = 2208988800"

definition ntp_request :: bytes where
  "ntp_request = 0x1b # replicate 47 0"

text \<open>The transmit timestamp of a reply: seconds since 1900 and a binary fraction.\<close>

definition ntp_time :: "bytes \<Rightarrow> rat option" where
  "ntp_time data =
     (if length data < 48 then None
      else let secs = from_be (slice 40 44 data); frac = from_be (slice 44 48 data) in
        if secs = 0 then None else Some (of_int (int secs - ntp_epoch_offset) + of_nat frac / 2 ^ 32))"

definition ntp_query_udp :: "bytes option \<Rightarrow> rat option" where
  "ntp_query_udp reply = (case reply of None \<Rightarrow> None | Some data \<Rightarrow> ntp_time data)"

text \<open>The answer to the HEAD request, read until its end, a failed or empty read, or the size limit.\<close>

definition head_limit :: nat where "head_limit = 16384"

fun head_bytes :: "bytes \<Rightarrow> bytes option list \<Rightarrow> bytes" where
  "head_bytes buf [] = buf"
| "head_bytes buf (r # rs) =
     (if find_sub [13, 10, 13, 10] buf \<noteq> None then buf
      else case r of
          None \<Rightarrow> buf
        | Some chunk \<Rightarrow>
            if chunk = [] then buf
            else if head_limit < length (buf @ chunk) then buf @ chunk
            else head_bytes (buf @ chunk) rs)"

definition is_date_line :: "bytes \<Rightarrow> bool" where
  "is_date_line line \<longleftrightarrow> prefix (U ''date:'') (py_lower (latin1_decode line))"

definition date_of :: "(pystr \<Rightarrow> rat option) \<Rightarrow> bytes \<Rightarrow> rat option" where
  "date_of parsedate line =
     (case ascii_decode (drop 5 line) of Inl e \<Rightarrow> None | Inr s \<Rightarrow> parsedate (py_strip s))"

text \<open>\<open>None\<close>: the connection or the writing failed.\<close>

definition ntp_query_https :: "(pystr \<Rightarrow> rat option) \<Rightarrow> bytes option list option \<Rightarrow> rat option" where
  "ntp_query_https parsedate answer =
     (case answer of
        None \<Rightarrow> None
      | Some reads \<Rightarrow>
          (case find is_date_line (split_sub [13, 10] (head_bytes [] reads)) of
             None \<Rightarrow> None
           | Some line \<Rightarrow> date_of parsedate line))"

section \<open>The offset\<close>

record time_cfg =
  tc_enabled :: bool
  tc_udp :: json
  tc_tcp :: json
  tc_interval :: rat
  tc_startup :: rat
  tc_max :: rat

definition default_udp :: json where
  "default_udp = JList (map (JStr \<circ> U) [''pool.ntp.org'', ''time.cloudflare.com'', ''time.google.com''])"

definition default_tcp :: json where
  "default_tcp = JList (map (JStr \<circ> U) [''www.apple.com'', ''www.cloudflare.com'', ''www.microsoft.com''])"

definition time_section :: "json \<Rightarrow> json" where
  "time_section cfg = (case jget cfg (U ''time_sync'') of Some (JObj d) \<Rightarrow> JObj d | _ \<Rightarrow> JObj [])"

definition or_default :: "json option \<Rightarrow> json \<Rightarrow> json" where
  "or_default v d = (case v of Some x \<Rightarrow> if truthy x then x else d | None \<Rightarrow> d)"

definition new_time_sync :: "(pystr \<Rightarrow> rat option) \<Rightarrow> (json \<Rightarrow> pystr) \<Rightarrow> json \<Rightarrow> py_error + time_cfg" where
  "new_time_sync parse py_repr cfg =
     (let t = time_section cfg in
      bindE (py_float_of parse (jget_or t (U ''max_offset_sec'') (JInt 86400))) (\<lambda>mx.
        Inr \<lparr> tc_enabled = truthy (jget_or t (U ''enabled'') (JBool True)),
              tc_udp = or_default (jget t (U ''udp_servers'')) default_udp,
              tc_tcp = or_default (jget t (U ''tcp_servers'')) default_tcp,
              tc_interval = parse_duration parse py_repr (jget_or t (U ''interval'') (JStr (U ''1h''))),
              tc_startup = parse_duration parse py_repr (jget_or t (U ''startup_timeout'') (JStr (U ''5s''))),
              tc_max = mx \<rparr>))"

datatype time_source = NoSource | Ntp | Https

record time_state =
  ts_offset :: rat
  ts_source :: time_source
  ts_at :: rat
  ts_count :: nat
  ts_init :: bool

definition time_start :: time_state where
  "time_start = \<lparr> ts_offset = 0, ts_source = NoSource, ts_at = 0, ts_count = 0, ts_init = False \<rparr>"

definition corrected_time :: "time_state \<Rightarrow> rat \<Rightarrow> rat" where
  "corrected_time s clock = clock + ts_offset s"

text \<open>Ask the servers in turn until three have answered; the number tells the queries apart.\<close>

fun collect_samples :: "(nat \<Rightarrow> json \<Rightarrow> rat option) \<Rightarrow> nat \<Rightarrow> json list \<Rightarrow> rat list \<Rightarrow> rat list" where
  "collect_samples ask i [] acc = acc"
| "collect_samples ask i (srv # srvs) acc =
     (let acc' = (case ask i srv of Some t \<Rightarrow> acc @ [t] | None \<Rightarrow> acc) in
      if 3 \<le> length acc' then acc' else collect_samples ask (Suc i) srvs acc')"

record time_net =
  tn_udp :: "nat \<Rightarrow> json \<Rightarrow> bytes option"
  tn_tcp :: "nat \<Rightarrow> json \<Rightarrow> bytes option list option"
  tn_parsedate :: "pystr \<Rightarrow> rat option"

definition gather_samples :: "time_cfg \<Rightarrow> time_net \<Rightarrow> py_error + (time_source \<times> rat list)" where
  "gather_samples cfg net =
     bindE (py_iter (tc_udp cfg)) (\<lambda>udp.
       let samples = collect_samples (\<lambda>i s. ntp_query_udp (tn_udp net i s)) 0 udp [] in
       if samples \<noteq> [] then Inr (Ntp, samples)
       else bindE (py_iter (tc_tcp cfg)) (\<lambda>tcp.
         Inr (Https, collect_samples (\<lambda>i s. ntp_query_https (tn_parsedate net) (tn_tcp net i s)) 0 tcp [])))"

definition median_of :: "rat list \<Rightarrow> rat" where
  "median_of samples = sort samples ! (length samples div 2)"

text \<open>\<open>now\<close> is the clock when the samples are in, \<open>stamp\<close> when the new offset has been stored.\<close>

definition adopt_samples :: "time_cfg \<Rightarrow> rat \<Rightarrow> rat \<Rightarrow> time_source \<Rightarrow> rat list \<Rightarrow> time_state \<Rightarrow> bool \<times> time_state" where
  "adopt_samples cfg now stamp src samples s =
     (if samples = [] then (False, s)
      else let offset = median_of samples - now in
        if tc_max cfg < \<bar>offset\<bar> then (False, s)
        else (True, \<lparr> ts_offset = offset, ts_source = src, ts_at = stamp, ts_count = length samples, ts_init = True \<rparr>))"

definition sync_once :: "time_cfg \<Rightarrow> time_net \<Rightarrow> rat \<Rightarrow> rat \<Rightarrow> time_state \<Rightarrow> py_error + (bool \<times> time_state)" where
  "sync_once cfg net now stamp s =
     bindE (gather_samples cfg net) (\<lambda>(src, samples). Inr (adopt_samples cfg now stamp src samples s))"

text \<open>At start-up the first synchronisation may be cut off by its timeout; it changes the state only after its
  last wait, so a cut leaves the state alone.\<close>

definition initial_sync ::
    "time_cfg \<Rightarrow> bool \<Rightarrow> time_net \<Rightarrow> rat \<Rightarrow> rat \<Rightarrow> time_state \<Rightarrow> py_error + (bool \<times> time_state)" where
  "initial_sync cfg timed_out net now stamp s =
     (if \<not> tc_enabled cfg then Inr (False, s)
      else if timed_out then Inr (False, s)
      else sync_once cfg net now stamp s)"

text \<open>One turn of the background loop: an exception is logged and the loop goes on.\<close>

definition loop_turn :: "time_cfg \<Rightarrow> time_net \<Rightarrow> rat \<Rightarrow> rat \<Rightarrow> time_state \<Rightarrow> time_state" where
  "loop_turn cfg net now stamp s = (case sync_once cfg net now stamp s of Inl e \<Rightarrow> s | Inr (ok, s') \<Rightarrow> s')"

text \<open>The process: the first synchronisation, then the turns of the loop, which runs only when enabled.\<close>

inductive time_reach :: "time_cfg \<Rightarrow> time_state \<Rightarrow> bool" for cfg where
  start: "time_reach cfg time_start"
| first: "time_reach cfg s \<Longrightarrow> initial_sync cfg timed_out net now stamp s = Inr (ok, s') \<Longrightarrow> time_reach cfg s'"
| turn: "time_reach cfg s \<Longrightarrow> tc_enabled cfg \<Longrightarrow> time_reach cfg (loop_turn cfg net now stamp s)"

section \<open>Timestamps\<close>

text \<open>A reply that carries the time \<open>n\<close>, in units of 2^-32 seconds since 1900, in its two 32-bit fields.\<close>

definition ntp_reply :: "bytes \<Rightarrow> nat \<Rightarrow> bytes" where
  "ntp_reply hdr n = hdr @ to_be 4 (n div 2 ^ 32 mod 2 ^ 32) @ to_be 4 (n mod 2 ^ 32)"

definition ntp_seconds :: "nat \<Rightarrow> rat" where
  "ntp_seconds n = of_nat n / 2 ^ 32 - of_int ntp_epoch_offset"

lemma ntp_split: "(of_nat n :: rat) / 2 ^ 32 = of_nat (n div 2 ^ 32) + of_nat (n mod 2 ^ 32) / 2 ^ 32"
proof -
  have "of_nat n = (of_nat (n div 2 ^ 32 * 2 ^ 32 + n mod 2 ^ 32) :: rat)" by (simp only: div_mult_mod_eq)
  also have "\<dots> = of_nat (n div 2 ^ 32) * 2 ^ 32 + of_nat (n mod 2 ^ 32)" by (simp only: of_nat_add of_nat_mult) simp
  finally show ?thesis by (simp add: field_simps)
qed

lemma ntp_era: "(of_nat (s mod 2 ^ 32) :: rat) = of_nat s - 2 ^ 32 * of_nat (s div 2 ^ 32)"
proof -
  have "of_nat s = (of_nat (s div 2 ^ 32 * 2 ^ 32 + s mod 2 ^ 32) :: rat)" by (simp only: div_mult_mod_eq)
  also have "\<dots> = of_nat (s div 2 ^ 32) * 2 ^ 32 + of_nat (s mod 2 ^ 32)" by (simp only: of_nat_add of_nat_mult) simp
  finally show ?thesis by simp
qed

lemma ntp_time_reply:
  assumes "length hdr = 40"
  shows "ntp_time (ntp_reply hdr n) =
    (if n div 2 ^ 32 mod 2 ^ 32 = 0 then None else Some (ntp_seconds n - 2 ^ 32 * of_nat (n div 2 ^ 64)))"
proof -
  let ?s = "n div 2 ^ 32 mod 2 ^ 32" and ?f = "n mod 2 ^ 32"
  have s: "from_be (slice 40 44 (ntp_reply hdr n)) = ?s" and f: "from_be (slice 44 48 (ntp_reply hdr n)) = ?f"
    using assms by (simp_all add: ntp_reply_def slice_def)
  have "(of_nat (n div 2 ^ 32 mod 2 ^ 32) :: rat) = of_nat (n div 2 ^ 32) - 2 ^ 32 * of_nat (n div 2 ^ 32 div 2 ^ 32)"
    by (rule ntp_era)
  then have "(of_nat ?s :: rat) + of_nat ?f / 2 ^ 32 = of_nat n / 2 ^ 32 - 2 ^ 32 * of_nat (n div 2 ^ 64)"
    using ntp_split[of n] by (simp add: div_mult2_eq[symmetric])
  then show ?thesis
    using s f assms by (simp add: ntp_time_def ntp_seconds_def Let_def ntp_reply_def)
qed

section \<open>The median\<close>

lemma sorted_nth_filter:
  assumes "sorted (xs :: rat list)" "k < length xs" "lo \<le> hi"
    and "2 * length (filter (\<lambda>x. x < lo \<or> hi < x) xs) < length xs" "k = length xs div 2"
  shows "lo \<le> xs ! k \<and> xs ! k \<le> hi"
proof (rule ccontr)
  let ?bad = "\<lambda>x. x < lo \<or> hi < x"
  assume "\<not> ?thesis"
  then consider (low) "xs ! k < lo" | (high) "hi < xs ! k" by auto
  then show False
  proof cases
    case low
    have "\<forall>x \<in> set (take (Suc k) xs). ?bad x"
    proof
      fix x assume "x \<in> set (take (Suc k) xs)"
      then obtain i where "i \<le> k" "i < length xs" "x = xs ! i" by (auto simp: in_set_conv_nth less_Suc_eq_le)
      then have "x \<le> xs ! k" using assms(1,2) by (simp add: sorted_nth_mono)
      then show "?bad x" using low by simp
    qed
    then have "length (filter ?bad (take (Suc k) xs)) = Suc k" using assms(2) by (simp add: filter_True)
    moreover have "length (filter ?bad (take (Suc k) xs)) \<le> length (filter ?bad xs)"
      by (metis append_take_drop_id filter_append le_add1 length_append)
    ultimately show False using assms(4,5) by linarith
  next
    case high
    have "\<forall>x \<in> set (drop k xs). ?bad x"
    proof
      fix x assume "x \<in> set (drop k xs)"
      then obtain i where "i < length xs - k" "x = xs ! (k + i)" by (auto simp: in_set_conv_nth)
      then have "k + i < length xs" "x = xs ! (k + i)" by simp_all
      then have "xs ! k \<le> x" using assms(1) by (simp add: sorted_nth_mono)
      then show "?bad x" using high by simp
    qed
    then have "length (filter ?bad (drop k xs)) = length xs - k" by (simp add: filter_True)
    moreover have "length (filter ?bad (drop k xs)) \<le> length (filter ?bad xs)"
      by (metis append_take_drop_id filter_append le_add2 length_append)
    ultimately show False using assms(4,5) by linarith
  qed
qed

lemma length_filter_sort: "length (filter P (sort xs)) = length (filter P xs)"
proof -
  have "mset (filter P (sort xs)) = mset (filter P xs)" by simp
  then show ?thesis by (rule mset_eq_length)
qed

lemma median_within:
  assumes "2 * length (filter (\<lambda>x. x < lo \<or> hi < x) samples) < length samples" "lo \<le> hi"
  shows "lo \<le> median_of samples \<and> median_of samples \<le> hi"
proof -
  have "samples \<noteq> []" using assms(1) by auto
  then have k: "length samples div 2 < length (sort samples)" by (cases samples) auto
  show ?thesis
    unfolding median_of_def
    by (rule sorted_nth_filter[OF _ k assms(2)]) (use assms(1) in \<open>simp_all only: length_filter_sort length_sort sorted_sort\<close>)
qed

lemma collect_samples_length: "length acc < 3 \<Longrightarrow> length (collect_samples ask i srvs acc) \<le> 3"
  by (induction ask i srvs acc rule: collect_samples.induct) (auto simp: Let_def split: option.split)

lemma gather_samples_shape:
  assumes "gather_samples cfg net = Inr (src, samples)"
  shows "length samples \<le> 3 \<and> src \<noteq> NoSource"
  using assms by (auto simp: gather_samples_def bindE_Inr_iff Let_def collect_samples_length split: if_splits)

section \<open>The offset stays sane\<close>

definition time_inv :: "time_cfg \<Rightarrow> time_state \<Rightarrow> bool" where
  "time_inv cfg s \<longleftrightarrow> (if ts_init s then \<bar>ts_offset s\<bar> \<le> tc_max cfg \<and> tc_enabled cfg \<and> 1 \<le> ts_count s
      \<and> ts_count s \<le> 3 \<and> ts_source s \<noteq> NoSource else s = time_start)"

lemma adopt_samples_inv:
  assumes "time_inv cfg s" "tc_enabled cfg" "length samples \<le> 3" "src \<noteq> NoSource"
    and "adopt_samples cfg now stamp src samples s = (ok, s')"
  shows "time_inv cfg s'"
  using assms by (cases samples) (auto simp: adopt_samples_def time_inv_def Let_def split: if_splits)

lemma sync_once_inv:
  assumes "time_inv cfg s" "tc_enabled cfg" "sync_once cfg net now stamp s = Inr (ok, s')"
  shows "time_inv cfg s'"
proof -
  obtain src samples where g: "gather_samples cfg net = Inr (src, samples)"
      and a: "adopt_samples cfg now stamp src samples s = (ok, s')"
    using assms(3) by (auto simp: sync_once_def bindE_Inr_iff)
  then show ?thesis using adopt_samples_inv[OF assms(1,2) _ _ a] gather_samples_shape[OF g] by simp
qed

text \<open>However the time servers behave and whatever the clock shows, the process never runs on an
  offset beyond the configured maximum: before the first successful synchronisation it is exactly the system clock,
  afterwards the offset lies within the limit and rests on one to three samples of a named source; with
  synchronisation disabled nothing ever changes.\<close>

theorem clock_offset_stays_sane:
  assumes "time_reach cfg s"
  shows "(if ts_init s then \<bar>ts_offset s\<bar> \<le> tc_max cfg \<and> tc_enabled cfg \<and> 1 \<le> ts_count s
      \<and> ts_count s \<le> 3 \<and> ts_source s \<noteq> NoSource else s = time_start)"
proof -
  have "time_inv cfg s" using assms
  proof induction
    case start
    then show ?case by (simp add: time_inv_def time_start_def)
  next
    case (first s timed_out net now stamp ok s')
    then show ?case by (auto simp: initial_sync_def intro: sync_once_inv split: if_splits)
  next
    case (turn s net now stamp)
    then show ?case by (auto simp: loop_turn_def intro: sync_once_inv split: sum.split)
  qed
  then show ?thesis by (simp add: time_inv_def)
qed

section \<open>Synchronised hosts\<close>

text \<open>A synchronisation at true time \<open>T\<close> and clock \<open>now\<close> whose samples are mostly right within \<open>e\<close>, the clock
  being wrong by less than the limit.\<close>

definition mostly_right :: "time_cfg \<Rightarrow> time_net \<Rightarrow> rat \<Rightarrow> rat \<Rightarrow> rat \<Rightarrow> bool" where
  "mostly_right cfg net now T e \<longleftrightarrow>
     (case gather_samples cfg net of
        Inl x \<Rightarrow> False
      | Inr (src, samples) \<Rightarrow> 2 * length (filter (\<lambda>x. x < T - e \<or> T + e < x) samples) < length samples)
     \<and> 0 \<le> e \<and> \<bar>T - now\<bar> + e \<le> tc_max cfg"

lemma sync_mostly_right:
  assumes "mostly_right cfg net now T e" "sync_once cfg net now stamp s = Inr (ok, s')"
  shows "ok \<and> \<bar>corrected_time s' (now + d) - (T + d)\<bar> \<le> e"
proof -
  obtain src samples where g: "gather_samples cfg net = Inr (src, samples)"
      and a: "adopt_samples cfg now stamp src samples s = (ok, s')"
    using assms(2) by (auto simp: sync_once_def bindE_Inr_iff)
  have bad: "2 * length (filter (\<lambda>x. x < T - e \<or> T + e < x) samples) < length samples" and e: "0 \<le> e"
      and lim: "\<bar>T - now\<bar> + e \<le> tc_max cfg"
    using assms(1) g by (simp_all add: mostly_right_def)
  have m: "T - e \<le> median_of samples \<and> median_of samples \<le> T + e"
    using median_within[OF bad] e by simp
  have ne: "samples \<noteq> []" using bad by auto
  have le: "\<bar>median_of samples - now\<bar> \<le> tc_max cfg" using m lim by (auto simp: abs_if split: if_splits)
  then have "ok \<and> ts_offset s' = median_of samples - now"
    using a ne by (auto simp: adopt_samples_def Let_def split: if_splits)
  then show ?thesis using m by (auto simp: corrected_time_def abs_if)
qed

lemma sync_mostly_right_returns: "mostly_right cfg net now T e \<Longrightarrow> \<exists>s'. sync_once cfg net now stamp s = Inr (True, s')"
proof -
  assume m: "mostly_right cfg net now T e"
  then obtain src samples where "gather_samples cfg net = Inr (src, samples)"
    by (auto simp: mostly_right_def split: sum.splits)
  then obtain ok s' where "sync_once cfg net now stamp s = Inr (ok, s')"
    by (cases "adopt_samples cfg now stamp src samples s") (simp add: sync_once_def)
  then show ?thesis using sync_mostly_right[OF m, of _ s ok s' 0] by auto
qed

text \<open>\<open>_now()\<close> of hello_auth.py with the corrected clock.\<close>

definition now_of :: "time_state \<Rightarrow> rat \<Rightarrow> int" where
  "now_of s clock = (let t = corrected_time s clock in if t < 0 then - \<lfloor>- t\<rfloor> else \<lfloor>t\<rfloor>)"

lemma trunc_close:
  fixes a b :: rat
  assumes "a - b \<le> of_int k" "0 \<le> k"
  shows "(if a < 0 then - \<lfloor>- a\<rfloor> else \<lfloor>a\<rfloor>) \<le> (if b < 0 then - \<lfloor>- b\<rfloor> else \<lfloor>b\<rfloor>) + k"
proof -
  have 1: "\<lfloor>a\<rfloor> \<le> \<lfloor>b\<rfloor> + k" using floor_mono[of a "b + of_int k"] assms(1) by simp
  have 2: "- \<lfloor>- a\<rfloor> \<le> - \<lfloor>- b\<rfloor> + k" using floor_mono[of "- b - of_int k" "- a"] assms(1) by simp
  have 3: "\<lfloor>b\<rfloor> \<le> - \<lfloor>- b\<rfloor>" by linarith
  show ?thesis
  proof (cases "a < 0 \<and> 0 \<le> b")
    case True
    then have "0 \<le> \<lfloor>- a\<rfloor>" and "0 \<le> \<lfloor>b\<rfloor>" by simp_all
    then have "- \<lfloor>- a\<rfloor> \<le> \<lfloor>b\<rfloor> + k" using assms(2) by linarith
    then show ?thesis using True by simp
  next
    case False
    then show ?thesis using 1 2 3 by auto
  qed
qed

lemma now_of_close:
  assumes "\<bar>corrected_time s c - corrected_time s' c'\<bar> \<le> of_int k" "0 \<le> k"
  shows "\<bar>now_of s c - now_of s' c'\<bar> \<le> k"
  using trunc_close[of "corrected_time s c" "corrected_time s' c'" k]
    trunc_close[of "corrected_time s' c'" "corrected_time s c" k] assms
  by (simp add: now_of_def Let_def abs_le_iff)

text \<open>C31: Client and server whose system clocks are wrong, even by hours, still authenticate: when each has synchronised with
  fewer than half of its samples wrong, a token the client makes later is accepted by the server as long as the two
  errors and the transit time add up to no more than 60 seconds.\<close>

theorem synchronised_hosts_authenticate:
  assumes "crypto_ok cr" "length random_prefix = 8"
    and "mostly_right ccfg cnet cnow cT ce" "sync_once ccfg cnet cnow cstamp cs = Inr (cok, cs')"
    and "mostly_right scfg snet snow sT se" "sync_once scfg snet snow sstamp ss = Inr (sok, ss')"
    and "make_session_token cr password (now_of cs' (cnow + cd)) random_prefix = Inr token"
    and "cT + cd \<le> sT + sd" "ce + se + ((sT + sd) - (cT + cd)) \<le> 60"
  shows "verify_session_token cr password (now_of ss' (snow + sd)) token = Inr True"
proof -
  have c: "\<bar>corrected_time cs' (cnow + cd) - (cT + cd)\<bar> \<le> ce"
    and s: "\<bar>corrected_time ss' (snow + sd) - (sT + sd)\<bar> \<le> se"
    using sync_mostly_right assms(3-6) by blast+
  have "\<bar>corrected_time ss' (snow + sd) - corrected_time cs' (cnow + cd)\<bar> \<le> of_int 60"
    using c s assms(8,9) by (simp add: abs_le_iff)
  then have "\<bar>now_of ss' (snow + sd) - now_of cs' (cnow + cd)\<bar> \<le> timestamp_tolerance"
    unfolding timestamp_tolerance_def by (rule now_of_close) simp
  then show ?thesis using verify_make_token[OF assms(1,2,7)] by simp
qed

text \<open>A reply that states the time in the protocol's 64 bits is read exactly until the seconds wrap in February 2036
  (a zero seconds field is refused); afterwards the value falls 2^32 seconds behind for every era, and a
  synchronisation on such a sample is refused by any limit below 2^31 seconds.\<close>

theorem ntp_exact_until_wrap:
  assumes "length hdr = 40"
  shows "ntp_query_udp (Some (ntp_reply hdr n)) =
      (if n div 2 ^ 32 mod 2 ^ 32 = 0 then None else Some (ntp_seconds n - 2 ^ 32 * of_nat (n div 2 ^ 64)))
    \<and> (2 ^ 64 \<le> n \<and> tc_max cfg < 2 ^ 31 \<and> \<bar>ntp_seconds n - now\<bar> \<le> 2 ^ 31 \<longrightarrow>
        adopt_samples cfg now stamp Ntp [ntp_seconds n - 2 ^ 32 * of_nat (n div 2 ^ 64)] s = (False, s))"
proof -
  have "tc_max cfg < \<bar>ntp_seconds n - 2 ^ 32 * of_nat (n div 2 ^ 64) - now\<bar>"
    if n: "2 ^ 64 \<le> n" and lim: "tc_max cfg < 2 ^ 31" and near: "\<bar>ntp_seconds n - now\<bar> \<le> 2 ^ 31"
  proof -
    have "1 \<le> n div 2 ^ 64" using n div_le_mono[of "2 ^ 64" n "2 ^ 64"] by simp
    then have "(1::rat) \<le> of_nat (n div 2 ^ 64)" by (metis of_nat_1 of_nat_le_iff)
    then have "2 ^ 32 \<le> 2 ^ 32 * (of_nat (n div 2 ^ 64) :: rat)" by simp
    moreover have "ntp_seconds n - now \<le> 2 ^ 31" using near by (simp add: abs_le_iff)
    ultimately have "2 ^ 31 \<le> - (ntp_seconds n - 2 ^ 32 * of_nat (n div 2 ^ 64) - now)" by simp
    then show ?thesis using lim by linarith
  qed
  then show ?thesis
    by (simp add: ntp_query_udp_def ntp_time_reply[OF assms] adopt_samples_def median_of_def)
qed

section \<open>A concrete network\<close>

definition sample_now :: nat where "sample_now = 2208989800 * 2 ^ 32"

definition sample_time_net :: time_net where
  "sample_time_net = \<lparr> tn_udp = (\<lambda>i srv. if i = 1 then None else Some (ntp_reply (replicate 40 0) sample_now)),
     tn_tcp = (\<lambda>i srv. None), tn_parsedate = (\<lambda>s. None) \<rparr>"

definition sample_time_cfg :: time_cfg where
  "sample_time_cfg = \<lparr> tc_enabled = True, tc_udp = default_udp, tc_tcp = default_tcp, tc_interval = 3600,
     tc_startup = 5, tc_max = 86400 \<rparr>"

lemma sample_gather: "gather_samples sample_time_cfg sample_time_net = Inr (Ntp, [1000, 1000])"
proof -
  have "ntp_time (ntp_reply (replicate 40 0) sample_now) = Some 1000"
    by (simp add: ntp_time_reply sample_now_def ntp_seconds_def ntp_epoch_offset_def)
  then show ?thesis
    by (simp add: gather_samples_def sample_time_cfg_def sample_time_net_def default_udp_def ntp_query_udp_def)
qed

lemma sample_sync: "sync_once sample_time_cfg sample_time_net now stamp s =
    Inr (if \<bar>1000 - now\<bar> \<le> 86400 then
      (True, \<lparr> ts_offset = 1000 - now, ts_source = Ntp, ts_at = stamp, ts_count = 2, ts_init = True \<rparr>) else (False, s))"
proof -
  have mx: "tc_max sample_time_cfg = 86400" by (simp add: sample_time_cfg_def)
  show ?thesis by (simp add: sync_once_def sample_gather adopt_samples_def median_of_def Let_def mx)
qed

lemma sample_right: "\<bar>1000 - now\<bar> \<le> 80000 \<Longrightarrow> mostly_right sample_time_cfg sample_time_net now 1000 0"
  by (simp add: mostly_right_def sample_gather) (simp add: sample_time_cfg_def)

theorem clock_offset_stays_sane_witness:
  "\<bar>ts_offset (snd (True, \<lparr> ts_offset = 600, ts_source = Ntp, ts_at = 401, ts_count = 2, ts_init = True \<rparr>))\<bar> \<le> (86400 :: rat)"
proof -
  have "initial_sync sample_time_cfg False sample_time_net 400 401 time_start =
      Inr (True, \<lparr> ts_offset = 600, ts_source = Ntp, ts_at = 401, ts_count = 2, ts_init = True \<rparr>)"
    using sample_sync[of 400 401 time_start] by (simp add: initial_sync_def sample_time_cfg_def)
  from clock_offset_stays_sane[OF time_reach.first[OF time_reach.start this]]
  show ?thesis by (simp add: sample_time_cfg_def)
qed

theorem synchronised_hosts_authenticate_witness:
  "\<exists>cs' ss'. sync_once sample_time_cfg sample_time_net 400 401 time_start = Inr (True, cs')
     \<and> sync_once sample_time_cfg sample_time_net 5000 5001 time_start = Inr (True, ss')
     \<and> verify_session_token zero_crypto (U ''p'') (now_of ss' (5000 + 30)) zero_token = Inr True"
proof -
  let ?c = "\<lparr> ts_offset = 600, ts_source = Ntp, ts_at = 401, ts_count = 2, ts_init = True \<rparr>"
  let ?s = "\<lparr> ts_offset = - 4000, ts_source = Ntp, ts_at = 5001, ts_count = 2, ts_init = True \<rparr>"
  have c: "sync_once sample_time_cfg sample_time_net 400 401 time_start = Inr (True, ?c)"
    and s: "sync_once sample_time_cfg sample_time_net 5000 5001 time_start = Inr (True, ?s)"
    using sample_sync[of 400 401 time_start] sample_sync[of 5000 5001 time_start] by simp_all
  have tok: "make_session_token zero_crypto (U ''p'') (now_of ?c (400 + 0)) (replicate 8 1) = Inr zero_token"
    using zero_token_made by (simp add: now_of_def corrected_time_def)
  have "verify_session_token zero_crypto (U ''p'') (now_of ?s (5000 + 30)) zero_token = Inr True"
    by (rule synchronised_hosts_authenticate[OF zero_crypto_ok _ sample_right c sample_right s tok]) simp_all
  then show ?thesis using c s by blast
qed

theorem ntp_exact_until_wrap_witness:
  "ntp_query_udp (Some (ntp_reply (replicate 40 0) (2208989800 * 2 ^ 32 + 2 ^ 31))) = Some (1000 + 1 / 2)
    \<and> adopt_samples sample_time_cfg (1000 + 2 ^ 32) 0 Ntp [1000] time_start = (False, time_start)"
proof -
  have "ntp_seconds (2208989800 * 2 ^ 32 + 2 ^ 64) = 1000 + 2 ^ 32"
    by (simp add: ntp_seconds_def ntp_epoch_offset_def)
  then show ?thesis
    using ntp_exact_until_wrap[of "replicate 40 0" "2208989800 * 2 ^ 32 + 2 ^ 31"]
      ntp_exact_until_wrap[of "replicate 40 0" "2208989800 * 2 ^ 32 + 2 ^ 64" sample_time_cfg "1000 + 2 ^ 32" 0 time_start]
    by (simp add: ntp_seconds_def ntp_epoch_offset_def) (simp add: sample_time_cfg_def)
qed

end
