(* ===== verification/Clash_Api.thy ===== *)
theory Clash_Api
  imports Complex_Main Api_Server Outbound_Build Rules Registry Time_Sync
begin

text \<open>
  The endpoints of the management API: \<open>core/api/clash_endpoints.py\<close> and the ones of \<open>mirage_endpoints.py\<close> that
  show the clock and the caches.  They read and change one state, \<open>clash\<close>: the configuration, the outbound objects with their
  tags, the router, the connection table.  Replies are JSON values; their text, the text of a time, the parsing of a body and the
  readings of clocks and memory are parameters (\<open>clash_env\<close>); \<open>ev_conn\<close> gives the
  identifier and start time of a connection.  Showing a group asks for its latency,
  which may move the choice of a urltest group, as in the code.
\<close>

record clash_env =
  ev_dumps :: "json \<Rightarrow> bytes"
  ev_loads :: "pystr \<Rightarrow> json option"
  ev_iso :: "rat \<Rightarrow> pystr"
  ev_repr :: "json \<Rightarrow> pystr"
  ev_wall :: rat
  ev_mono :: rat
  ev_rss :: int
  ev_version :: pystr
  ev_conn :: "nat \<Rightarrow> pystr \<times> rat"

record clash =
  cl_conf :: "(pystr, json) odict"
  cl_tags :: "(pystr, nat) odict"
  cl_obs :: "outb list"
  cl_router :: "router option"
  cl_registry :: "registry option"

type_synonym clash_reply = "(py_error + response) \<times> clash"

definition json_response :: "clash_env \<Rightarrow> nat \<Rightarrow> json \<Rightarrow> response" where
  "json_response ev status j = \<lparr> rs_status = status, rs_body = ev_dumps ev j, rs_type = U ''application/json'',
     rs_extra = [], rs_close = False \<rparr>"

definition ok_json :: "clash_env \<Rightarrow> json \<Rightarrow> clash \<Rightarrow> clash_reply" where
  "ok_json ev j st = (Inr (json_response ev 200 j), st)"

definition err_json :: "clash_env \<Rightarrow> nat \<Rightarrow> pystr \<Rightarrow> clash \<Rightarrow> clash_reply" where
  "err_json ev code msg st =
     (Inr (json_response ev code (JObj [(U ''code'', JInt (int code)), (U ''message'', JStr msg)])), st)"

definition no_content :: "clash \<Rightarrow> clash_reply" where
  "no_content st = (Inr \<lparr> rs_status = 204, rs_body = [], rs_type = U ''application/json'', rs_extra = [], rs_close = False \<rparr>, st)"

section \<open>The configuration without its secrets\<close>

definition stars :: json where "stars = JStr (U ''***'')"

definition secret_top :: "pystr list" where "secret_top = map U [''password'', ''secret'']"
definition secret_api :: "pystr list" where "secret_api = map U [''secret'']"
definition secret_outbound :: "pystr list" where "secret_outbound = map U [''password'', ''credential'']"

definition redact_dict :: "pystr list \<Rightarrow> (pystr, json) odict \<Rightarrow> (pystr, json) odict" where
  "redact_dict ks d = map (\<lambda>(k, v). (k, if k \<in> set ks \<and> truthy v then stars else v)) d"

fun redact_obj :: "pystr list \<Rightarrow> json \<Rightarrow> json" where
  "redact_obj ks (JObj d) = JObj (redact_dict ks d)"
| "redact_obj ks j = j"

definition redact_field :: "pystr \<Rightarrow> json \<Rightarrow> json" where
  "redact_field k v =
     (if k \<in> set secret_top then stars
      else if k = U ''api'' then redact_obj secret_api v
      else if k = U ''outbounds'' then
        (case v of JList os \<Rightarrow> JList (map (redact_obj secret_outbound) os) | _ \<Rightarrow> v)
      else v)"

definition redact_cfg :: "(pystr, json) odict \<Rightarrow> (pystr, json) odict" where
  "redact_cfg cfg = map (\<lambda>(k, v). (k, redact_field k v)) cfg"

definition str_lower :: "clash_env \<Rightarrow> json \<Rightarrow> pystr" where
  "str_lower ev j = py_lower (py_str (ev_repr ev) j)"

text \<open>A truthy field of a value that is an object.\<close>

definition sub_field :: "json option \<Rightarrow> string \<Rightarrow> json option" where
  "sub_field v k = (case v of Some (JObj d) \<Rightarrow> (case od_get d (U k) of Some x \<Rightarrow> if truthy x then Some x else None | None \<Rightarrow> None)
     | _ \<Rightarrow> None)"

definition derive_log_level :: "clash_env \<Rightarrow> (pystr, json) odict \<Rightarrow> pystr" where
  "derive_log_level ev cfg =
     (case sub_field (od_get cfg (U ''log_levels'')) ''default'' of
        Some d \<Rightarrow> str_lower ev d
      | None \<Rightarrow> (case sub_field (sub_field (od_get cfg (U ''tuning'')) ''log_levels'') ''root'' of
          Some r \<Rightarrow> str_lower ev r
        | None \<Rightarrow> (case sub_field (od_get cfg (U ''log'')) ''level'' of
            Some l \<Rightarrow> str_lower ev l
          | None \<Rightarrow> U ''info'')))"

definition configs :: "clash_env \<Rightarrow> clash \<Rightarrow> clash_reply" where
  "configs ev st =
     (let cfg = cl_conf st; port = (case od_get cfg (U ''socks5_port'') of Some v \<Rightarrow> if truthy v then v else JInt 0 | None \<Rightarrow> JInt 0)
      in case py_int_of port of
           Inl e \<Rightarrow> (Inl e, st)
         | Inr p \<Rightarrow> ok_json ev (JObj [
             (U ''port'', JInt 0), (U ''socks-port'', JInt p), (U ''redir-port'', JInt 0), (U ''tproxy-port'', JInt 0),
             (U ''mixed-port'', JInt 0), (U ''allow-lan'', JBool False),
             (U ''bind-address'', JStr (py_str (ev_repr ev)
                (case od_get cfg (U ''socks5_host'') of Some v \<Rightarrow> v | None \<Rightarrow> JStr (U ''127.0.0.1'')))),
             (U ''mode'', JStr (U ''rule'')), (U ''log-level'', JStr (derive_log_level ev cfg)), (U ''ipv6'', JBool True),
             (U ''mirage'', JObj (redact_cfg cfg))]) st)"

definition version :: "clash_env \<Rightarrow> clash \<Rightarrow> clash_reply" where
  "version ev st = ok_json ev (JObj [(U ''version'', JStr (ev_version ev)), (U ''meta'', JBool True), (U ''premium'', JBool False)]) st"

section \<open>Outbounds as proxies\<close>

fun clash_type :: "outb \<Rightarrow> string" where
  "clash_type (Mirage m) = ''Trojan''"
| "clash_type (Direct t) = ''Direct''"
| "clash_type (Block t) = ''Reject''"
| "clash_type (UrlTest t cs tol cur) = ''URLTest''"
| "clash_type (Fallback t cs) = ''Fallback''"
| "clash_type (Selector t cs sel) = ''Selector''"

text \<open>\<open>round(x)\<close>: ties to the even integer.\<close>

definition round_even :: "rat \<Rightarrow> int" where
  "round_even x = (let f = \<lfloor>x\<rfloor>; r = x - of_int f in
     if r < 1 / 2 then f else if 1 / 2 < r then f + 1 else if even f then f else f + 1)"

text \<open>The properties \<open>latency_ms\<close> and \<open>latency_age_sec\<close> of any outbound; only a mirage outbound has an age.\<close>

definition latency_ms :: "outb list \<Rightarrow> nat \<Rightarrow> rat option \<times> outb list" where
  "latency_ms obs a = latency (2 * a + 3) obs a"

fun age_sec :: "rat \<Rightarrow> outb \<Rightarrow> rat option" where
  "age_sec now (Mirage m) = latency_age now m"
| "age_sec now x = None"

definition history_for :: "clash_env \<Rightarrow> outb list \<Rightarrow> nat \<Rightarrow> json \<times> outb list" where
  "history_for ev obs a =
     (case latency_ms obs a of
        (None, obs1) \<Rightarrow> (JList [], obs1)
      | (Some lat, obs1) \<Rightarrow>
          (JList [JObj [(U ''time'', JStr (ev_iso ev (case age_sec (ev_mono ev) (obs1 ! a) of
               None \<Rightarrow> 0 | Some age \<Rightarrow> max 0 (ev_wall ev - age)))), (U ''delay'', JInt (round_even lat))]], obs1))"

definition tag_at :: "outb list \<Rightarrow> nat list \<Rightarrow> pystr" where
  "tag_at obs cs = (if cs = [] then [] else tag_of (obs ! hd cs))"

text \<open>The fields after the common ones.\<close>

definition proxy_fields :: "outb list \<Rightarrow> nat \<Rightarrow> (pystr \<times> json) list \<times> outb list" where
  "proxy_fields obs a =
     (let kids = JList (map (\<lambda>c. JStr (tag_of (obs ! c))) (children (obs ! a))) in
      case obs ! a of
        Mirage m \<Rightarrow> ([(U ''server'', case n_host (m_cfg m) of Some h \<Rightarrow> h | None \<Rightarrow> JNull),
                      (U ''port'', JInt (n_port (m_cfg m)))], obs)
      | UrlTest t cs tol cur \<Rightarrow>
          ([(U ''all'', kids), (U ''now'', JStr (case cur of Some c \<Rightarrow> tag_of (obs ! c) | None \<Rightarrow> tag_at obs cs))], obs)
      | Selector t cs sel \<Rightarrow>
          ([(U ''all'', kids), (U ''now'', JStr (case sel of Some s \<Rightarrow> if s = [] then tag_at obs cs else s
             | None \<Rightarrow> tag_at obs cs))], obs)
      | Fallback t cs \<Rightarrow>
          (case resolve_leaf obs a of
             (leaf, obs1) \<Rightarrow> ([(U ''all'', kids), (U ''now'', JStr (if leaf = a then tag_at obs1 cs else tag_of (obs1 ! leaf)))], obs1))
      | _ \<Rightarrow> ([], obs))"

definition outbound_to_clash :: "clash_env \<Rightarrow> pystr \<Rightarrow> outb list \<Rightarrow> nat \<Rightarrow> (pystr, json) odict \<times> outb list" where
  "outbound_to_clash ev tag obs a =
     (let alive = healthy obs a in
      case history_for ev obs a of
        (hist, obs1) \<Rightarrow>
          (case proxy_fields obs1 a of
             (rest, obs2) \<Rightarrow>
               ([(U ''type'', JStr (U (clash_type (obs ! a)))), (U ''name'', JStr tag), (U ''udp'', JBool True),
                 (U ''alive'', JBool alive), (U ''history'', hist), (U ''extra'', JObj [])] @ rest, obs2)))"

fun proxy_table :: "clash_env \<Rightarrow> (pystr, nat) odict \<Rightarrow> outb list \<Rightarrow> (pystr, json) odict \<Rightarrow> (pystr, json) odict \<times> outb list" where
  "proxy_table ev [] obs out = (out, obs)"
| "proxy_table ev ((tag, a) # ts) obs out =
     (case outbound_to_clash ev tag obs a of
        (p, obs1) \<Rightarrow> proxy_table ev ts obs1 (od_set tag (JObj p) out))"

definition global_proxy :: "clash \<Rightarrow> (pystr, json) odict" where
  "global_proxy st =
     (let typ = (\<lambda>(t, a). type_of (cl_obs st ! a));
          selectable = map fst (filter (\<lambda>ta. typ ta \<noteq> U ''block'') (cl_tags st));
          primary = (case find (\<lambda>ta. typ ta \<notin> {U ''direct'', U ''block''}) (cl_tags st) of
             Some (t, a) \<Rightarrow> t
           | None \<Rightarrow> (case selectable of t # _ \<Rightarrow> t | [] \<Rightarrow> U ''DIRECT''))
      in [(U ''type'', JStr (U ''Selector'')), (U ''name'', JStr (U ''GLOBAL'')), (U ''all'', JList (map JStr selectable)),
          (U ''now'', JStr primary), (U ''udp'', JBool True), (U ''history'', JList []), (U ''extra'', JObj [])])"

text \<open>\<open>{**d, "name": alias}\<close>\<close>

fun renamed :: "string \<Rightarrow> json \<Rightarrow> json" where
  "renamed alias (JObj d) = JObj (od_set (U ''name'') (JStr (U alias)) d)"
| "renamed alias j = j"

definition add_alias :: "string \<Rightarrow> string \<Rightarrow> (pystr, nat) odict \<Rightarrow> (pystr, json) odict \<Rightarrow> (pystr, json) odict" where
  "add_alias tag alias tags out =
     (if od_mem (U tag) tags \<and> \<not> od_mem (U alias) out then
        (case od_get out (U tag) of Some p \<Rightarrow> od_set (U alias) (renamed alias p) out | None \<Rightarrow> out)
      else out)"

definition proxies :: "clash_env \<Rightarrow> clash \<Rightarrow> clash_reply" where
  "proxies ev st =
     (if cl_tags st = [] then ok_json ev (JObj [(U ''proxies'', JObj [])]) st
      else case proxy_table ev (cl_tags st) (cl_obs st) [] of
        (out, obs) \<Rightarrow>
          (let st1 = st\<lparr> cl_obs := obs \<rparr>;
               out = od_set (U ''GLOBAL'') (JObj (global_proxy st1)) out;
               out = add_alias ''block'' ''REJECT'' (cl_tags st) (add_alias ''direct'' ''DIRECT'' (cl_tags st) out)
           in ok_json ev (JObj [(U ''proxies'', JObj out)]) st1))"

definition proxy_not_found :: "clash_env \<Rightarrow> clash \<Rightarrow> clash_reply" where
  "proxy_not_found ev st = err_json ev 404 (U ''proxy not found'') st"

text \<open>One outbound under a name of its own or an alias.\<close>

definition show_proxy :: "clash_env \<Rightarrow> pystr \<Rightarrow> (json \<Rightarrow> json) \<Rightarrow> nat \<Rightarrow> clash \<Rightarrow> clash_reply" where
  "show_proxy ev tag f a st =
     (case outbound_to_clash ev tag (cl_obs st) a of (p, obs) \<Rightarrow> ok_json ev (f (JObj p)) (st\<lparr> cl_obs := obs \<rparr>))"

definition proxy_one :: "clash_env \<Rightarrow> pystr \<Rightarrow> clash \<Rightarrow> clash_reply" where
  "proxy_one ev name st =
     (if cl_tags st = [] then proxy_not_found ev st
      else if name = U ''GLOBAL'' then ok_json ev (JObj (global_proxy st)) st
      else case (if name = U ''DIRECT'' then od_get (cl_tags st) (U ''direct'') else None) of
        Some a \<Rightarrow> show_proxy ev (U ''direct'') (renamed ''DIRECT'') a st
      | None \<Rightarrow> (case (if name = U ''REJECT'' then od_get (cl_tags st) (U ''block'') else None) of
          Some a \<Rightarrow> show_proxy ev (U ''block'') (renamed ''REJECT'') a st
        | None \<Rightarrow> (case od_get (cl_tags st) name of
            None \<Rightarrow> proxy_not_found ev st
          | Some a \<Rightarrow> show_proxy ev name id a st)))"

fun is_selector :: "outb \<Rightarrow> bool" where
  "is_selector (Selector t cs sel) = True"
| "is_selector x = False"

text \<open>The member named in a request's body: \<open>Inl\<close> the message of a refusal.\<close>

definition body_target :: "clash_env \<Rightarrow> request \<Rightarrow> string + pystr" where
  "body_target ev req =
     (case utf8_decode (rq_body req) of
        Inl e \<Rightarrow> Inl ''invalid body''
      | Inr s \<Rightarrow> (case ev_loads ev (if s = [] then U ''{}'' else s) of
          Some (JObj d) \<Rightarrow> (case od_get d (U ''name'') of
              Some (JStr (c # cs)) \<Rightarrow> Inr (c # cs)
            | _ \<Rightarrow> Inl (CHR 0x27 # ''name'' @ CHR 0x27 # '' required''))
        | _ \<Rightarrow> Inl ''invalid body''))"

definition proxy_select :: "clash_env \<Rightarrow> request \<Rightarrow> pystr \<Rightarrow> clash \<Rightarrow> clash_reply" where
  "proxy_select ev req name st =
     (if cl_tags st = [] \<or> name \<noteq> U ''GLOBAL'' \<and> \<not> od_mem name (cl_tags st) then proxy_not_found ev st
      else case od_get (cl_tags st) name of
        None \<Rightarrow> no_content st
      | Some a \<Rightarrow>
          if \<not> is_selector (cl_obs st ! a) then no_content st
          else (case body_target ev req of
            Inl msg \<Rightarrow> err_json ev 400 (U msg) st
          | Inr target \<Rightarrow>
              (case selector_select (cl_obs st) a target of
                 (True, obs) \<Rightarrow> no_content (st\<lparr> cl_obs := obs \<rparr>)
               | (False, obs) \<Rightarrow> err_json ev 400 (39 # target @ 39 # U '' is not a member of selector '' @ 39 # name @ [39]) st)))"

definition proxy_delay :: "clash_env \<Rightarrow> pystr \<Rightarrow> clash \<Rightarrow> clash_reply" where
  "proxy_delay ev name st =
     (case od_get (cl_tags st) name of
        None \<Rightarrow> proxy_not_found ev st
      | Some a \<Rightarrow>
          (case latency_ms (cl_obs st) a of
             (lat, obs) \<Rightarrow>
               (let st1 = st\<lparr> cl_obs := obs \<rparr> in
                case lat of
                  Some l \<Rightarrow> if healthy obs a then
                      ok_json ev (JObj [(U ''delay'', JInt (round_even l)), (U ''meanDelay'', JInt (round_even l))]) st1
                    else err_json ev 400 (U ''An error occurred in the delay test'') st1
                | None \<Rightarrow> err_json ev 400 (U ''An error occurred in the delay test'') st1)))"

section \<open>Rules, connections, clock\<close>

definition rule_json :: "rule_view \<Rightarrow> json" where
  "rule_json v = JObj [(U ''type'', JStr (rv_type v)), (U ''payload'', JStr (rv_payload v)), (U ''proxy'', JStr (rv_proxy v)),
     (U ''invert'', JBool (rv_invert v))]"

definition rules_list :: "router option \<Rightarrow> json list" where
  "rules_list r = (case r of
       None \<Rightarrow> []
     | Some ro \<Rightarrow> map rule_json (router_rules ro) @
         [rule_json \<lparr> rv_type = U ''Match'', rv_payload = [], rv_proxy = ro_default ro, rv_invert = False \<rparr>])"

definition rules :: "clash_env \<Rightarrow> clash \<Rightarrow> clash_reply" where
  "rules ev st = ok_json ev (JObj [(U ''rules'', JList (rules_list (cl_router st)))]) st"

definition meta_json :: "conn_meta \<Rightarrow> json" where
  "meta_json m = JObj [(U ''network'', JStr (me_network m)), (U ''type'', JStr (me_type m)), (U ''sourceIP'', JStr (me_src_ip m)),
     (U ''sourcePort'', JStr (me_src_port m)), (U ''destinationIP'', JStr (me_dst_ip m)),
     (U ''destinationPort'', JStr (me_dst_port m)), (U ''host'', JStr (me_host m)), (U ''dnsMode'', JStr (U ''normal'')),
     (U ''processPath'', JStr [])]"

definition conn_json :: "clash_env \<Rightarrow> api_conn \<Rightarrow> json" where
  "conn_json ev c = (case ev_conn ev (ac_id c) of (uuid, start) \<Rightarrow>
     JObj [(U ''id'', JStr uuid), (U ''metadata'', meta_json (ac_meta c)), (U ''upload'', JInt (ac_up c)),
       (U ''download'', JInt (ac_down c)), (U ''start'', JStr (ev_iso ev start)), (U ''chains'', JList (map JStr (ac_chains c))),
       (U ''rule'', JStr (ac_rule c)), (U ''rulePayload'', JStr (ac_payload c))])"

definition connections :: "clash_env \<Rightarrow> clash \<Rightarrow> clash_reply" where
  "connections ev st =
     (case cl_registry st of
        None \<Rightarrow> ok_json ev (JObj [(U ''downloadTotal'', JInt 0), (U ''uploadTotal'', JInt 0), (U ''memory'', JInt (ev_rss ev)),
            (U ''connections'', JList [])]) st
      | Some r \<Rightarrow> (case list_active (ev_mono ev) r of
          (cs, r') \<Rightarrow> ok_json ev (JObj [(U ''downloadTotal'', JInt (rg_down r)), (U ''uploadTotal'', JInt (rg_up r)),
            (U ''memory'', JInt (ev_rss ev)), (U ''connections'', JList (map (conn_json ev) cs))])
            (st\<lparr> cl_registry := Some r' \<rparr>)))"

section \<open>The table\<close>

datatype clash_handler = Version | Configs | Connections | Proxies | ProxyOne | ProxySelect | ProxyDelay | RuleList

definition clash_routes :: "clash_handler routes" where
  "clash_routes =
     add_route (U ''GET'') (U ''/rules'') RuleList
      (add_route (U ''GET'') (U ''/proxies/{name}/delay'') ProxyDelay
      (add_route (U ''PUT'') (U ''/proxies/{name}'') ProxySelect
      (add_route (U ''GET'') (U ''/proxies/{name}'') ProxyOne
      (add_route (U ''GET'') (U ''/proxies'') Proxies
      (add_route (U ''GET'') (U ''/connections'') Connections
      (add_route (U ''GET'') (U ''/configs'') Configs
      (add_route (U ''GET'') (U ''/version'') Version [])))))))"

definition the_name :: "params \<Rightarrow> pystr" where
  "the_name g = (case map_of g (U ''name'') of Some n \<Rightarrow> n | None \<Rightarrow> [])"

fun clash_endpoint :: "clash_env \<Rightarrow> (clash_handler, clash) endpoints" where
  "clash_endpoint ev Version req g st = version ev st"
| "clash_endpoint ev Configs req g st = configs ev st"
| "clash_endpoint ev Connections req g st = connections ev st"
| "clash_endpoint ev Proxies req g st = proxies ev st"
| "clash_endpoint ev ProxyOne req g st = proxy_one ev (the_name g) st"
| "clash_endpoint ev ProxySelect req g st = proxy_select ev req (the_name g) st"
| "clash_endpoint ev ProxyDelay req g st = proxy_delay ev (the_name g) st"
| "clash_endpoint ev RuleList req g st = rules ev st"

section \<open>Secrets stay hidden\<close>

text \<open>Two configurations that differ in secrets only.\<close>

definition same_but :: "pystr list \<Rightarrow> json \<Rightarrow> json \<Rightarrow> bool" where
  "same_but ks v v' \<longleftrightarrow> v = v' \<or> (\<exists>d d'. v = JObj d \<and> v' = JObj d'
     \<and> list_all2 (\<lambda>(k, x) (k', x'). k = k' \<and> (x = x' \<or> k \<in> set ks \<and> truthy x \<and> truthy x')) d d')"

definition same_public :: "(pystr, json) odict \<Rightarrow> (pystr, json) odict \<Rightarrow> bool" where
  "same_public = list_all2 (\<lambda>(k, v) (k', v'). k = k' \<and> (k \<in> set secret_top \<or> v = v'
     \<or> k = U ''api'' \<and> same_but secret_api v v'
     \<or> k = U ''outbounds'' \<and> (\<exists>os os'. v = JList os \<and> v' = JList os' \<and> list_all2 (same_but secret_outbound) os os')))"

lemma redact_dict_eq:
  "list_all2 (\<lambda>(k, x) (k', x'). k = k' \<and> (x = x' \<or> k \<in> set ks \<and> truthy x \<and> truthy x')) d d'
    \<Longrightarrow> redact_dict ks d = redact_dict ks d'"
  by (induction rule: list_all2_induct) (auto simp: redact_dict_def)

lemma redact_obj_eq: "same_but ks v v' \<Longrightarrow> redact_obj ks v = redact_obj ks v'"
  by (auto simp: same_but_def redact_dict_eq)

lemma redact_objs_eq: "list_all2 (same_but ks) os os' \<Longrightarrow> map (redact_obj ks) os = map (redact_obj ks) os'"
  by (induction rule: list_all2_induct) (auto simp: redact_obj_eq)

lemma special_keys: "U ''api'' \<notin> set secret_top" "U ''outbounds'' \<notin> set secret_top"
  by (simp_all add: secret_top_def)

lemma redact_cfg_eq: "same_public cfg cfg' \<Longrightarrow> redact_cfg cfg = redact_cfg cfg'"
  unfolding same_public_def
proof (induction rule: list_all2_induct)
  case (Cons kv kvs kv' kvs')
  obtain k v k' v' where kv: "kv = (k, v)" "kv' = (k', v')" by (cases kv, cases kv') auto
  have "redact_field k v = redact_field k' v'"
    using Cons(1) redact_obj_eq[of secret_api v v'] redact_objs_eq[of secret_outbound]
    by (auto simp: kv redact_field_def special_keys)
  then show ?case using Cons by (simp add: kv redact_cfg_def)
qed (simp add: redact_cfg_def)

lemma public_get:
  assumes "k \<notin> set secret_top" "k \<noteq> U ''api''" "k \<noteq> U ''outbounds''"
  shows "same_public cfg cfg' \<Longrightarrow> od_get cfg k = od_get cfg' k"
  unfolding same_public_def
proof (induction rule: list_all2_induct)
  case (Cons kv kvs kv' kvs')
  then show ?case using assms by (cases kv, cases kv') (auto simp: od_get_def)
qed simp


section \<open>Reading changes nothing that matters\<close>

lemma latency_ms_same: "latency_ms obs a = (l, obs') \<Longrightarrow> same obs' obs"
  using latency_same[of "2 * a + 3" obs a] by (simp add: latency_ms_def)

lemma history_same: "history_for ev obs a = (h, obs') \<Longrightarrow> same obs' obs"
  by (auto simp: history_for_def split: prod.splits option.splits dest!: latency_ms_same)

lemma proxy_fields_same: "proxy_fields obs a = (f, obs') \<Longrightarrow> same obs' obs"
  using resolve_same[of "2 * a + 2" obs a]
  by (auto simp: proxy_fields_def resolve_leaf_def Let_def split: outb.splits prod.splits)

lemma outbound_to_clash_same: "outbound_to_clash ev tag obs a = (p, obs') \<Longrightarrow> same obs' obs"
  by (auto simp: outbound_to_clash_def Let_def split: prod.splits dest!: history_same proxy_fields_same intro: same_trans)

lemma proxy_table_same: "proxy_table ev ts obs out = (out', obs') \<Longrightarrow> same obs' obs"
  by (induction ev ts obs out rule: proxy_table.induct)
    (auto split: prod.splits dest!: outbound_to_clash_same intro: same_trans)

text \<open>The endpoints other than PUT leave all but the memory of urltest groups and the expired connections.\<close>

definition only_read :: "clash \<Rightarrow> clash \<Rightarrow> bool" where
  "only_read st st' \<longleftrightarrow> cl_conf st' = cl_conf st \<and> cl_tags st' = cl_tags st \<and> cl_router st' = cl_router st
     \<and> same (cl_obs st') (cl_obs st)"

lemma only_read_refl [simp]: "only_read st st"
  by (simp add: only_read_def)

lemma show_proxy_reads: "show_proxy ev tag f a st = (r, st') \<Longrightarrow> only_read st st'"
  by (auto simp: show_proxy_def ok_json_def only_read_def split: prod.splits dest: outbound_to_clash_same)

lemma proxies_reads: "proxies ev st = (r, st') \<Longrightarrow> only_read st st'"
  by (auto simp: proxies_def ok_json_def only_read_def Let_def split: prod.splits if_splits dest: proxy_table_same)

lemma proxy_delay_reads: "proxy_delay ev name st = (r, st') \<Longrightarrow> only_read st st'"
  by (auto simp: proxy_delay_def proxy_not_found_def err_json_def ok_json_def only_read_def Let_def
      split: prod.splits if_splits option.splits dest: latency_ms_same)

lemma proxy_one_reads: "proxy_one ev name st = (r, st') \<Longrightarrow> only_read st st'"
  unfolding proxy_one_def
  by (auto simp: proxy_not_found_def err_json_def ok_json_def split: if_splits option.splits dest: show_proxy_reads)

lemma connections_reads: "connections ev st = (r, st') \<Longrightarrow> only_read st st'"
  by (auto simp: connections_def ok_json_def only_read_def split: prod.splits option.splits)

lemma configs_reads: "configs ev st = (r, st') \<Longrightarrow> only_read st st'"
  by (auto simp: configs_def ok_json_def Let_def split: sum.splits)

lemma endpoint_reads:
  assumes "clash_endpoint ev x req g st = (r, st')" "x \<noteq> ProxySelect"
  shows "only_read st st'"
  using assms
  by (cases x) (auto simp: version_def rules_def ok_json_def
      dest: proxies_reads proxy_one_reads proxy_delay_reads connections_reads configs_reads)

section \<open>Choosing a member\<close>

lemma select_resolves:
  assumes "obs_ok obs" "a < length obs" "obs ! a = Selector g cs (Some target)" "selected_child obs cs (Some target) = Some c"
  shows "resolve_leaf obs a = resolve_leaf obs c"
proof -
  have "c \<in> set cs" using assms(4) by (auto simp: selected_child_def find_Some_iff)
  then have c: "c < a" "c < length obs" using assms(1-3) by (force simp: obs_ok_def)+
  have "resolve_leaf obs a = resolve (2 * a + 1) obs c"
    using assms(3,4) by (simp add: resolve_leaf_def numeral_2_eq_2)
  also have "\<dots> = resolve_leaf obs c" by (rule resolve_fuel[OF assms(1) c(2)]) (use c(1) in simp)
  finally show ?thesis .
qed

lemma shown_choice:
  assumes "a < length obs" "obs ! a = Selector g cs (Some target)" "target \<noteq> []"
  shows "od_get (fst (outbound_to_clash ev tag obs a)) (U ''now'') = Some (JStr target)"
proof -
  obtain h obs1 where h: "history_for ev obs a = (h, obs1)" by (cases "history_for ev obs a")
  have "shape (obs1 ! a) = Selector g cs (Some target)" using same_shape[OF history_same[OF h] assms(1)] assms(2) by simp
  then have "obs1 ! a = Selector g cs (Some target)" by (cases "obs1 ! a") auto
  then show ?thesis using assms(3) by (simp add: outbound_to_clash_def h proxy_fields_def Let_def od_get_def)
qed

text \<open>Choosing a member of a selector group through the API takes effect and nothing else: if the body names a direct member
  the reply is 204, from then on the group leads where that member leads and GET shows it as the current one, and no other
  object has changed; any other name gets 400 and changes nothing.\<close>

theorem proxy_choice_takes_effect:
  assumes "obs_ok (cl_obs st)" "od_get (cl_tags st) name = Some a" "a < length (cl_obs st)"
    and "cl_obs st ! a = Selector g cs sel" "body_target ev req = Inr target"
  shows "if list_ex (\<lambda>c. tag_of (cl_obs st ! c) = target) cs
    then (\<exists>c st'. proxy_select ev req name st = no_content st'
        \<and> st' = st\<lparr> cl_obs := (cl_obs st)[a := Selector g cs (Some target)] \<rparr> \<and> obs_ok (cl_obs st')
        \<and> c \<in> set cs \<and> tag_of (cl_obs st ! c) = target
        \<and> resolve_leaf (cl_obs st') a = resolve_leaf (cl_obs st') c
        \<and> od_get (fst (outbound_to_clash ev name (cl_obs st') a)) (U ''now'') = Some (JStr target))
    else (\<exists>msg. proxy_select ev req name st = err_json ev 400 msg st)"
proof -
  let ?obs = "cl_obs st"
  have t: "cl_tags st \<noteq> []" "od_mem name (cl_tags st)" using assms(2) by (auto simp: od_mem_get)
  have ne: "target \<noteq> []"
    using assms(5) by (auto simp: body_target_def split: sum.splits option.splits json.splits list.splits)
  show ?thesis
  proof (cases "list_ex (\<lambda>c. tag_of (?obs ! c) = target) cs")
    case False
    then show ?thesis using t assms(2,4,5) by (simp add: proxy_select_def selector_select_def) blast
  next
    case True
    let ?obs' = "?obs[a := Selector g cs (Some target)]"
    have step: "outb_step ?obs (snd (selector_select ?obs a target))" by (rule outb_step.Select[OF assms(3)])
    have sel: "selector_select ?obs a target = (True, ?obs')" using True assms(4) by (simp add: selector_select_def)
    have ok: "obs_ok ?obs'" using outb_step_ok[OF step assms(1)] sel by simp
    have at: "?obs' ! a = Selector g cs (Some target)" using assms(3) by simp
    then have "selected_child ?obs' cs (Some target) \<noteq> None" using ok assms(3) by (auto simp: obs_ok_def)
    then obtain c where c: "selected_child ?obs' cs (Some target) = Some c" by blast
    have "c \<in> set cs" "tag_of (?obs' ! c) = target" using c by (auto simp: selected_child_def find_Some_iff)
    moreover have "c \<noteq> a" using \<open>c \<in> set cs\<close> assms(1,3,4) by (force simp: obs_ok_def)
    moreover have "resolve_leaf ?obs' a = resolve_leaf ?obs' c"
      by (rule select_resolves[OF ok _ at c]) (use assms(3) in simp)
    moreover have "od_get (fst (outbound_to_clash ev name ?obs' a)) (U ''now'') = Some (JStr target)"
      by (rule shown_choice[OF _ at ne]) (use assms(3) in simp)
    moreover have "proxy_select ev req name st = no_content (st\<lparr> cl_obs := ?obs' \<rparr>)"
      using t sel assms(2,4,5) by (simp add: proxy_select_def)
    ultimately show ?thesis using True ok by (auto intro!: exI[of _ c])
  qed
qed

section \<open>A concrete state\<close>

definition sample_body :: pystr where "sample_body = U ''{\"name\":\"e\"}''"

definition sample_clash_env :: clash_env where
  "sample_clash_env = \<lparr> ev_dumps = (\<lambda>j. case j of JObj d \<Rightarrow> replicate (length d) 1 | _ \<Rightarrow> []),
     ev_loads = (\<lambda>s. if s = sample_body then Some (JObj [(U ''name'', JStr (U ''e''))]) else None),
     ev_iso = (\<lambda>t. []), ev_repr = (\<lambda>j. []), ev_wall = 0, ev_mono = 0, ev_rss = 0, ev_version = [],
     ev_conn = (\<lambda>i. ([], 0)) \<rparr>"

definition sample_clash :: clash where
  "sample_clash = \<lparr> cl_conf = [], cl_tags = [(U ''d'', 0), (U ''e'', 1), (U ''s'', 2)],
     cl_obs = [Direct (U ''d''), Direct (U ''e''), Selector (U ''s'') [0, 1] (Some (U ''d''))],
     cl_router = None, cl_registry = None \<rparr>"

definition sample_put :: request where
  "sample_put = \<lparr> rq_method = U ''PUT'', rq_path = U ''/proxies/s'', rq_query = [], rq_headers = [],
     rq_body = map of_nat sample_body \<rparr>"


theorem proxy_choice_takes_effect_witness:
  "\<exists>st'. proxy_select sample_clash_env sample_put (U ''s'') sample_clash = no_content st'
    \<and> cl_obs st' ! 2 = Selector (U ''s'') [0, 1] (Some (U ''e''))"
proof -
  have d: "utf8_decode (map of_nat sample_body) = Inr sample_body"
    by (rule utf8_decode_encode, rule utf8_encode_ascii) (simp add: sample_body_def U_def)
  have b: "body_target sample_clash_env sample_put = Inr (U ''e'')"
    by (simp add: body_target_def sample_put_def d sample_clash_env_def) (simp add: sample_body_def U_def od_get_def)
  have ok: "obs_ok (cl_obs sample_clash)"
    by (auto simp: obs_ok_def sample_clash_def selected_child_def less_Suc_eq nth_Cons')
  have s: "cl_obs sample_clash ! 2 = Selector (U ''s'') [0, 1] (Some (U ''d''))" by (simp add: sample_clash_def)
  show ?thesis
    using proxy_choice_takes_effect[OF ok _ _ s b, of "U ''s''"] by (auto simp: sample_clash_def od_get_def)
qed

end
