(* ===== verification/Log_Files.thy ===== *)
theory Log_Files
  imports Complex_Main Json
begin

text \<open>
  The logging set-up of \<open>core/utils.py\<close>: \<open>apply_log_levels\<close>, \<open>apply_log_format\<close> with the handlers of the root
  logger, \<open>JsonFormatter\<close>, and the file handler whose history is compressed
  (\<open>_CompressedRotatingFileHandler\<close>).  Parameters: the absolute path of a name, whether a directory can be made,
  gzip, and, for each record, whether the library's size check asks for a rollover.
\<close>

section \<open>Levels\<close>

definition log_level :: "pystr \<Rightarrow> nat option" where
  "log_level s = (if s = U ''DEBUG'' then Some 10 else if s = U ''INFO'' then Some 20 else if s = U ''WARNING'' then Some 30
     else if s = U ''ERROR'' then Some 40 else if s = U ''CRITICAL'' then Some 50 else None)"

text \<open>The logger a name stands for; \<open>getLogger\<close> knows the root logger also by its name.\<close>

definition level_target :: "pystr \<Rightarrow> pystr" where
  "level_target name = (if name = U ''default'' then U ''root'' else name)"

definition level_entry :: "pystr \<times> json \<Rightarrow> (pystr \<times> nat) option" where
  "level_entry e = (case e of
       (name, JStr level) \<Rightarrow>
         (let clean = py_strip name; lvl = py_upper (py_strip level);
              lvl = (if lvl = U ''WARN'' then U ''WARNING'' else lvl)
          in case log_level lvl of
               None \<Rightarrow> None
             | Some n \<Rightarrow> if clean = [] then None else Some (level_target clean, n))
     | _ \<Rightarrow> None)"

definition apply_log_levels :: "json \<Rightarrow> (pystr, nat) odict \<Rightarrow> (pystr, nat) odict" where
  "apply_log_levels cfg loggers = (case jget cfg (U ''log_levels'') of
       Some (JObj levels) \<Rightarrow> foldl (\<lambda>ls e. case level_entry e of None \<Rightarrow> ls | Some (t, n) \<Rightarrow> od_set t n ls) loggers levels
     | _ \<Rightarrow> loggers)"

text \<open>The last valid entry for a logger decides; a logger without one keeps its level.\<close>

lemma log_levels_applied:
  assumes "jget cfg (U ''log_levels'') = Some (JObj levels)"
  shows "od_get (apply_log_levels cfg loggers) t =
    (case filter (\<lambda>x. fst x = t) (List.map_filter level_entry levels) of
       [] \<Rightarrow> od_get loggers t | xs \<Rightarrow> Some (snd (last xs)))"
proof -
  have "od_get (foldl (\<lambda>ls e. case level_entry e of None \<Rightarrow> ls | Some (t, n) \<Rightarrow> od_set t n ls) loggers levels) t =
      (case filter (\<lambda>x. fst x = t) (List.map_filter level_entry levels) of
         [] \<Rightarrow> od_get loggers t | xs \<Rightarrow> Some (snd (last xs)))"
    by (induction levels arbitrary: loggers)
      (auto simp: map_filter_simps split: option.splits list.splits)
  then show ?thesis by (simp add: apply_log_levels_def assms)
qed

section \<open>Handlers\<close>

datatype log_format = TextFormat | JsonFormat | PanelFormat

record file_params =
  fp_path :: pystr
  fp_max :: int
  fp_backups :: int
  fp_compress :: bool

text \<open>A handler of the root logger: a stream (not a file), a file, or another (the panel's broadcaster).\<close>

datatype log_handler = StreamH log_format | FileH file_params log_format | OtherH log_format

fun with_format :: "log_format \<Rightarrow> log_handler \<Rightarrow> log_handler" where
  "with_format f (StreamH g) = StreamH f"
| "with_format f (FileH p g) = FileH p f"
| "with_format f (OtherH g) = OtherH f"

fun is_stream :: "log_handler \<Rightarrow> bool" where
  "is_stream (StreamH f) = True"
| "is_stream _ = False"

record log_env =
  le_abspath :: "pystr \<Rightarrow> pystr"
  le_makedirs :: "pystr \<Rightarrow> bool"
  le_float :: "json \<Rightarrow> pystr"

definition build_file_handler :: "log_env \<Rightarrow> json \<Rightarrow> py_error + file_params" where
  "build_file_handler env log_cfg =
     (let path = py_str (le_float env) (jget_or log_cfg (U ''file'') JNull) in
      bindE (py_int_of (jget_or log_cfg (U ''max_bytes'') (JInt (100 * 1024 * 1024)))) (\<lambda>max_bytes.
      bindE (py_int_of (jget_or log_cfg (U ''backup_count'') (JInt 7))) (\<lambda>backups.
        if le_makedirs env path
        then Inr \<lparr> fp_path = le_abspath env path, fp_max = max_bytes, fp_backups = backups,
                   fp_compress = truthy (jget_or log_cfg (U ''compress'') (JBool True)) \<rparr>
        else Inl OSErr)))"

text \<open>The pass over the handlers: a file handler of the same path gets the formatter, one of another path is closed and
  removed; the second component says that no handler of the path is there.\<close>

fun scan_handlers :: "pystr \<Rightarrow> log_format \<Rightarrow> log_handler list \<Rightarrow> log_handler list \<times> bool" where
  "scan_handlers target fmt [] = ([], True)"
| "scan_handlers target fmt (FileH p f # hs) =
     (case scan_handlers target fmt hs of (hs', need) \<Rightarrow>
        if fp_path p = target then (FileH p fmt # hs', False) else (hs', need))"
| "scan_handlers target fmt (h # hs) = (case scan_handlers target fmt hs of (hs', need) \<Rightarrow> (h # hs', need))"

definition attach_file :: "log_env \<Rightarrow> json \<Rightarrow> log_format \<Rightarrow> log_handler list \<Rightarrow> log_handler list" where
  "attach_file env log_cfg fmt hs =
     (case jget_or log_cfg (U ''file'') JNull of
        JStr path \<Rightarrow>
          (case scan_handlers (le_abspath env path) fmt hs of (hs, need) \<Rightarrow>
             if \<not> need then hs
             else case build_file_handler env log_cfg of
               Inl e \<Rightarrow> hs
             | Inr p \<Rightarrow> filter (\<lambda>h. \<not> is_stream h) hs @ [FileH p fmt])
      | _ \<Rightarrow> hs)"

definition format_of :: "log_env \<Rightarrow> json \<Rightarrow> log_format" where
  "format_of env log_cfg =
     (if py_lower (py_str (le_float env) (jget_or log_cfg (U ''format'') (JStr (U ''text'')))) = U ''json''
      then JsonFormat else TextFormat)"

definition apply_log_format :: "log_env \<Rightarrow> json \<Rightarrow> log_handler list \<Rightarrow> py_error + log_handler list" where
  "apply_log_format env cfg hs =
     (let log_cfg = jget_or cfg (U ''log'') (JObj []);
          log_cfg = (if truthy log_cfg then log_cfg else JObj [])
      in if \<not> is_obj log_cfg then Inl AttributeError
         else let fmt = format_of env log_cfg in
           Inr (map (with_format fmt)
             (if truthy (jget_or log_cfg (U ''file'') JNull) then attach_file env log_cfg fmt hs else hs)))"

lemma with_format_idem [simp]: "with_format f (with_format g h) = with_format f h"
  by (cases h) simp_all

lemma scan_formatted: "scan_handlers t f (map (with_format f) hs)
    = (map (with_format f) (fst (scan_handlers t f hs)), snd (scan_handlers t f hs))"
  by (induction t f hs rule: scan_handlers.induct) (auto split: prod.splits)

lemma scan_again: "scan_handlers t f (fst (scan_handlers t f hs)) = scan_handlers t f hs"
  by (induction t f hs rule: scan_handlers.induct) (auto split: prod.splits)

lemma scan_no_stream: "scan_handlers t f (filter (\<lambda>h. \<not> is_stream h) hs)
    = (filter (\<lambda>h. \<not> is_stream h) (fst (scan_handlers t f hs)), snd (scan_handlers t f hs))"
  by (induction t f hs rule: scan_handlers.induct) (auto split: prod.splits)

lemma scan_append_file: "fp_path p = t \<Longrightarrow> scan_handlers t f (hs @ [FileH p f]) = (fst (scan_handlers t f hs) @ [FileH p f], False)"
  by (induction t f hs rule: scan_handlers.induct) (auto split: prod.splits)

lemma no_stream_formatted: "filter (\<lambda>h. \<not> is_stream h) (map (with_format f) hs) = map (with_format f) (filter (\<lambda>h. \<not> is_stream h) hs)"
proof -
  have "is_stream (with_format f h) = is_stream h" for h by (cases h) simp_all
  then show ?thesis by (simp add: filter_map comp_def)
qed

lemma built_path: "build_file_handler env c = Inr p \<Longrightarrow> jget_or c (U ''file'') JNull = JStr s \<Longrightarrow> fp_path p = le_abspath env s"
  by (auto simp: build_file_handler_def bindE_Inr_iff Let_def split: if_splits)

lemma attach_again:
  shows "attach_file env c f (map (with_format f) (attach_file env c f hs)) = map (with_format f) (attach_file env c f hs)"
proof (cases "jget_or c (U ''file'') JNull")
  case (JStr s)
  obtain hs1 need where sc: "scan_handlers (le_abspath env s) f hs = (hs1, need)" by (cases "scan_handlers (le_abspath env s) f hs")
  have again: "scan_handlers (le_abspath env s) f hs1 = (hs1, need)" using scan_again[of "le_abspath env s" f hs] sc by simp
  show ?thesis
  proof (cases "need \<and> (\<exists>p. build_file_handler env c = Inr p)")
    case False
    then have a: "attach_file env c f hs = hs1"
      using JStr sc by (auto simp: attach_file_def split: sum.splits)
    show ?thesis
      using JStr False scan_formatted[of "le_abspath env s" f hs1] again unfolding a
      by (auto simp: attach_file_def split: sum.splits)
  next
    case True
    then obtain p where p: "build_file_handler env c = Inr p" by blast
    have a: "attach_file env c f hs = filter (\<lambda>h. \<not> is_stream h) hs1 @ [FileH p f]"
      using JStr sc p True by (simp add: attach_file_def)
    have "scan_handlers (le_abspath env s) f (filter (\<lambda>h. \<not> is_stream h) hs1 @ [FileH p f])
        = (filter (\<lambda>h. \<not> is_stream h) hs1 @ [FileH p f], False)"
      using scan_append_file[OF built_path[OF p JStr], of f "filter (\<lambda>h. \<not> is_stream h) hs1"]
        scan_no_stream[of "le_abspath env s" f hs1] again by simp
    then show ?thesis
      using JStr scan_formatted[of "le_abspath env s" f "filter (\<lambda>h. \<not> is_stream h) hs1 @ [FileH p f]"] unfolding a
      by (simp add: attach_file_def)
  qed
qed (simp_all add: attach_file_def)

text \<open>Setting up the log again with the same configuration, as the start-up does after \<open>load_config\<close> has done
  it and every reload does, changes nothing: no handler is added, removed or reformatted.\<close>

theorem log_setup_idempotent:
  assumes "apply_log_format env cfg hs = Inr hs'"
  shows "apply_log_format env cfg hs' = Inr hs'"
  using assms attach_again[of env _ _ hs]
  by (auto simp: apply_log_format_def Let_def split: if_splits)

definition sample_log_env :: log_env where
  "sample_log_env = \<lparr> le_abspath = (\<lambda>p. U ''/x/'' @ p), le_makedirs = (\<lambda>p. p \<noteq> U ''b''), le_float = (\<lambda>_. []) \<rparr>"

definition sample_log_cfg :: "string \<Rightarrow> json" where
  "sample_log_cfg file = JObj [(U ''log'', JObj [(U ''file'', JStr (U file))])]"

definition sample_params :: file_params where
  "sample_params = \<lparr> fp_path = U ''/x/a'', fp_max = 104857600, fp_backups = 7, fp_compress = True \<rparr>"

lemma sample_setup:
  "apply_log_format sample_log_env (sample_log_cfg ''a'') [StreamH TextFormat, OtherH PanelFormat]
    = Inr [OtherH TextFormat, FileH sample_params TextFormat]"
  by code_simp

theorem log_setup_idempotent_witness:
  "apply_log_format sample_log_env (sample_log_cfg ''a'') [OtherH TextFormat, FileH sample_params TextFormat]
    = Inr [OtherH TextFormat, FileH sample_params TextFormat]"
  by (rule log_setup_idempotent[OF sample_setup])

text \<open>When the file of a new configuration cannot be opened, the old file handler has been removed already and the stream
  handler was removed before: no handler is left, although the message says the log falls back to standard error.\<close>

lemma failed_file_leaves_no_handler:
  "apply_log_format sample_log_env (sample_log_cfg ''a'') [StreamH TextFormat] = Inr [FileH sample_params TextFormat]"
  "apply_log_format sample_log_env (sample_log_cfg ''b'') [FileH sample_params TextFormat] = Inr []"
  by code_simp+

text \<open>The set-up formats every handler: after a reload the panel's broadcaster no longer has its own format.\<close>

lemma setup_reformats_panel:
  "apply_log_format env (JObj []) [OtherH PanelFormat] = Inr [OtherH TextFormat]"
  by (simp add: apply_log_format_def jget_or_def format_of_def od_get_def) code_simp

section \<open>Rotation\<close>

text \<open>The files of one handler: the file itself, \<open>.1\<close> and the compressed history \<open>.i.gz\<close>.\<close>

record log_file =
  lf_base :: "bytes option"
  lf_plain :: "bytes option"
  lf_gz :: "int \<Rightarrow> bytes option"

definition no_files :: log_file where
  "no_files = \<lparr> lf_base = None, lf_plain = None, lf_gz = (\<lambda>_. None) \<rparr>"

definition shift_one :: "(int \<Rightarrow> bytes option) \<Rightarrow> int \<Rightarrow> int \<Rightarrow> bytes option" where
  "shift_one g i = (case g i of None \<Rightarrow> g | Some x \<Rightarrow> g(i + 1 := Some x, i := None))"

text \<open>What compressing does: the archive, or an exception after some bytes of it were written (\<open>None\<close>: it could not be
  created).\<close>

datatype compressing = Packed | Failed "bytes option"

definition do_rollover :: "(bytes \<Rightarrow> bytes) \<Rightarrow> int \<Rightarrow> compressing \<Rightarrow> log_file \<Rightarrow> log_file" where
  "do_rollover gzip n how f =
     (let g = foldl shift_one (lf_gz f) (rev [1..n - 1]);
          g = g(n + 1 := None)
      in case lf_base f of
           None \<Rightarrow> f\<lparr> lf_gz := g \<rparr>
         | Some b \<Rightarrow>
             (case how of
                Packed \<Rightarrow> \<lparr> lf_base = None, lf_plain = None, lf_gz = g(1 := Some (gzip b)) \<rparr>
              | Failed None \<Rightarrow> \<lparr> lf_base = None, lf_plain = Some b, lf_gz = g \<rparr>
              | Failed (Some part) \<Rightarrow> \<lparr> lf_base = None, lf_plain = Some b, lf_gz = g(1 := Some part) \<rparr>))"

text \<open>One record: the file is open, the size check may ask for a rollover, and the line is appended.\<close>

definition file_emit :: "(bytes \<Rightarrow> bytes) \<Rightarrow> int \<Rightarrow> bool \<times> compressing \<times> bytes \<Rightarrow> log_file \<Rightarrow> log_file" where
  "file_emit gzip n e f = (case e of (roll, how, line) \<Rightarrow>
     let f = (if lf_base f = None then f\<lparr> lf_base := Some [] \<rparr> else f);
         f = (if roll then do_rollover gzip n how f else f)
     in f\<lparr> lf_base := Some ((case lf_base f of None \<Rightarrow> [] | Some b \<Rightarrow> b) @ line) \<rparr>)"

text \<open>What it implements: the current segment and the segments before, the newest first.\<close>

fun segment_emit :: "bool \<times> compressing \<times> bytes \<Rightarrow> bytes \<times> bytes list \<Rightarrow> bytes \<times> bytes list" where
  "segment_emit (roll, how, line) (cur, old) = (if roll then (line, cur # old) else (cur @ line, old))"

definition keeps :: "(bytes \<Rightarrow> bytes) \<Rightarrow> int \<Rightarrow> bytes \<times> bytes list \<Rightarrow> log_file \<Rightarrow> bool" where
  "keeps gzip n s f \<longleftrightarrow> lf_base f = Some (fst s) \<and> lf_plain f = None
     \<and> (\<forall>i. lf_gz f i = (if 1 \<le> i \<and> i \<le> max 1 n \<and> i \<le> int (length (snd s)) then Some (gzip (snd s ! nat (i - 1))) else None))"

lemma shift_all:
  "foldl shift_one g (rev [1..m]) i =
     (if i = 1 \<and> 1 \<le> m then None
      else if 2 \<le> i \<and> i \<le> m then g (i - 1)
      else if i = m + 1 \<and> 1 \<le> m then (case g m of None \<Rightarrow> g i | Some x \<Rightarrow> Some x)
      else g i)"
proof (induction "nat m" arbitrary: m g i)
  case 0
  then have "m \<le> 0" by simp
  then show ?case by auto
next
  case (Suc k)
  then have m: "[1..m] = [1..m - 1] @ [m]" "k = nat (m - 1)" "1 \<le> m" by (simp_all add: upto_rec2)
  have "foldl shift_one g (rev [1..m]) i = foldl shift_one (shift_one g m) (rev [1..m - 1]) i" using m(1) by simp
  then show ?case using Suc.hyps(1)[OF m(2), of "shift_one g m" i] m(3)
    by (auto simp: shift_one_def split: option.splits)
qed

lemma rollover_keeps:
  assumes "keeps gzip n (cur, old) f"
  shows "lf_gz (do_rollover gzip n Packed f) i =
    (if 1 \<le> i \<and> i \<le> max 1 n \<and> i \<le> int (length (cur # old)) then Some (gzip ((cur # old) ! nat (i - 1))) else None)"
proof -
  have g: "lf_gz f j = (if 1 \<le> j \<and> j \<le> max 1 n \<and> j \<le> int (length old) then Some (gzip (old ! nat (j - 1))) else None)" for j
    using assms by (simp add: keeps_def)
  have "lf_gz (do_rollover gzip n Packed f) i =
      (if i = 1 then Some (gzip cur) else if i = n + 1 then None else foldl shift_one (lf_gz f) (rev [1..n - 1]) i)"
    using assms by (simp add: do_rollover_def keeps_def Let_def)
  moreover have "(cur # old) ! nat (i - 1) = old ! nat (i - 2)" if "2 \<le> i"
  proof -
    have "nat (i - 1) = Suc (nat (i - 2))" using that by simp
    then show ?thesis by simp
  qed
  moreover have "nat (i - 1 - 1) = nat (i - 2)" by simp
  ultimately show ?thesis
    unfolding shift_all g by (auto split: option.splits)
qed

lemma emit_keeps:
  assumes "keeps gzip n s f" "fst (snd e) = Packed"
  shows "keeps gzip n (segment_emit e s) (file_emit gzip n e f)"
proof -
  obtain cur old where s: "s = (cur, old)" by (cases s)
  obtain roll line where e: "e = (roll, Packed, line)" using assms(2) by (cases e) auto
  have k: "lf_base f = Some cur" "lf_plain f = None" using assms(1) by (simp_all add: keeps_def s)
  show ?thesis
  proof (cases roll)
    case False
    then show ?thesis using assms(1) by (simp add: keeps_def file_emit_def s e)
  next
    case True
    have "lf_base (do_rollover gzip n Packed f) = None" "lf_plain (do_rollover gzip n Packed f) = None"
      using k by (simp_all add: do_rollover_def Let_def)
    then show ?thesis
      using rollover_keeps[OF assms(1)[unfolded s]] True k
      by (simp add: keeps_def file_emit_def s e)
  qed
qed

lemma emits_keep:
  assumes "list_all (\<lambda>e. fst (snd e) = Packed) es" "keeps gzip n s f"
  shows "keeps gzip n (fold segment_emit es s) (fold (file_emit gzip n) es f)"
  using assms
proof (induction es arbitrary: s f)
  case (Cons e es)
  then have "keeps gzip n (segment_emit e s) (file_emit gzip n e f)" by (intro emit_keeps) simp_all
  then show ?case using Cons by simp
qed simp

lemma segments_text:
  "concat (rev (snd (fold segment_emit es s))) @ fst (fold segment_emit es s)
    = concat (rev (snd s)) @ fst s @ concat (map (\<lambda>e. snd (snd e)) es)"
proof (induction es arbitrary: s)
  case (Cons e es)
  have "concat (rev (snd (segment_emit e s))) @ fst (segment_emit e s) = concat (rev (snd s)) @ fst s @ snd (snd e)"
    by (cases e; cases s) auto
  then show ?case using Cons[of "segment_emit e s"] by simp
qed simp

text \<open>C38: The log's history is kept exactly: from an empty directory and with compressing at work, after any records
  and any rollovers the file holds the current segment, \<open>.i.gz\<close> holds the \<open>i\<close>-th segment before it for every
  \<open>i\<close> up to the number of backups (at least one is kept), nothing else is there, and the segments in order are
  every line written.\<close>

theorem log_history_exact:
  assumes "list_all (\<lambda>e. fst (snd e) = Packed) es" "es \<noteq> []"
  shows "\<exists>cur old. (cur, old) = fold segment_emit es ([], []) \<and> keeps gzip n (cur, old) (fold (file_emit gzip n) es no_files)
    \<and> concat (rev old) @ cur = concat (map (\<lambda>e. snd (snd e)) es)"
proof -
  let ?opened = "no_files\<lparr> lf_base := Some [] \<rparr>"
  have "file_emit gzip n e no_files = file_emit gzip n e ?opened" for e
    by (simp add: file_emit_def no_files_def Let_def)
  then have "fold (file_emit gzip n) es no_files = fold (file_emit gzip n) es ?opened"
    using assms(2) by (cases es) auto
  moreover have "keeps gzip n ([], []) ?opened" by (simp add: keeps_def no_files_def)
  ultimately show ?thesis
    using emits_keep[OF assms(1), of gzip n "([], [])" ?opened] segments_text[of es "([], [])"]
    by (cases "fold segment_emit es ([], [])") simp
qed

theorem log_history_exact_witness:
  "\<exists>cur old. (cur, old) = ([3], [[2], [1]]) \<and> keeps (\<lambda>b. 0 # b) 1 (cur, old)
      (fold (file_emit (\<lambda>b. 0 # b) 1) [(False, Packed, [1]), (True, Packed, [2]), (True, Packed, [3])] no_files)
    \<and> concat (rev old) @ cur = [1, 2, 3]"
  using log_history_exact[of "[(False, Packed, [1]), (True, Packed, [2]), (True, Packed, [3])]" "\<lambda>b. 0 # b" 1] by simp

text \<open>A file that could not be compressed is left as \<open>.1\<close>; the next rollover removes it, so its lines are lost.\<close>

lemma failed_compression_loses:
  assumes "lf_base f = Some b" "lf_gz f = (\<lambda>_. None)"
  shows "let f1 = do_rollover gzip 7 (Failed None) f; f2 = do_rollover gzip 7 Packed (f1\<lparr> lf_base := Some b' \<rparr>)
    in lf_plain f1 = Some b \<and> lf_plain f2 = None \<and> lf_base f2 = None
      \<and> lf_gz f2 = (\<lambda>_. None)(1 := Some (gzip b'))"
proof -
  have "foldl shift_one (\<lambda>_. None) is = (\<lambda>_. None)" for "is"
    by (induction "is") (simp_all add: shift_one_def)
  then show ?thesis using assms by (simp add: do_rollover_def Let_def fun_upd_idem)
qed

end
