(* ===== verification/Live_Views.thy ===== *)
theory Live_Views
  imports Complex_Main "HOL-Library.Sublist" Clash_Api Log_Files
begin

text \<open>
  \<open>core/api/ws_endpoints.py\<close>: the live views over WebSocket (\<open>/traffic\<close>, \<open>/logs\<close>, \<open>/memory\<close>,
  \<open>/connections\<close>) and \<open>LogBroadcaster\<close>, which hands every log record to the queues of its subscribers; and
  \<open>JsonFormatter\<close> of \<open>core/utils.py\<close>.  A handler is cut at its waits; the reading loop of its connection, its own
  turns, new records and other subscribers interleave freely.  \<open>json.dumps\<close> and the printing of times are parameters.
\<close>

section \<open>Records\<close>

text \<open>\<open>lr_message\<close> is \<open>None\<close> when \<open>getMessage\<close> raises (arguments that do not fit the format).\<close>

record log_record =
  lr_name :: pystr
  lr_level :: pystr
  lr_levelno :: nat
  lr_message :: "pystr option"
  lr_exc :: "pystr option"
  lr_dict :: "(pystr, json) odict"

definition builtin_attrs :: "pystr list" where
  "builtin_attrs = map U [''args'', ''asctime'', ''created'', ''exc_info'', ''exc_text'', ''filename'', ''funcName'',
     ''levelname'', ''levelno'', ''lineno'', ''message'', ''module'', ''msecs'', ''msg'', ''name'', ''pathname'', ''process'',
     ''processName'', ''relativeCreated'', ''stack_info'', ''thread'', ''threadName'', ''taskName'']"

definition record_extras :: "log_record \<Rightarrow> (pystr, json) odict" where
  "record_extras r = filter (\<lambda>(k, v). k \<notin> set builtin_attrs \<and> take 1 k \<noteq> U ''_'') (lr_dict r)"

definition json_format :: "pystr \<Rightarrow> log_record \<Rightarrow> py_error + json" where
  "json_format ts r = (case lr_message r of
       None \<Rightarrow> Inl TypeError
     | Some msg \<Rightarrow> Inr (JObj ([(U ''ts'', JStr ts), (U ''level'', JStr (py_lower (lr_level r))), (U ''logger'', JStr (lr_name r)),
           (U ''msg'', JStr msg)]
         @ (if record_extras r = [] then [] else [(U ''extra'', JObj (record_extras r))])
         @ (case lr_exc r of None \<Rightarrow> [] | Some x \<Rightarrow> [(U ''exc'', JStr x)]))))"

text \<open>\<open>logging.Formatter\<close> with the broadcaster's pattern; the traceback goes on lines of its own.\<close>

definition panel_format :: "log_record \<Rightarrow> py_error + pystr" where
  "panel_format r = (case lr_message r of
       None \<Rightarrow> Inl TypeError
     | Some msg \<Rightarrow>
         let s = U ''['' @ lr_name r @ U ''] '' @ msg
         in Inr (case lr_exc r of None \<Rightarrow> s
           | Some x \<Rightarrow> if x = [] then s else if s \<noteq> [] \<and> last s = 10 then s @ x else s @ [10] @ x))"

section \<open>The broadcaster\<close>

record log_msg =
  lm_type :: pystr
  lm_payload :: pystr
  lm_levelno :: nat

definition log_queue_max :: nat where "log_queue_max = 256"

record hub =
  hb_queues :: "(nat, log_msg list) odict"
  hb_next :: nat

definition new_hub :: hub where "new_hub = \<lparr> hb_queues = [], hb_next = 0 \<rparr>"

definition subscribe :: "hub \<Rightarrow> nat \<times> hub" where
  "subscribe h = (hb_next h, h\<lparr> hb_queues := hb_queues h @ [(hb_next h, [])], hb_next := hb_next h + 1 \<rparr>)"

definition unsubscribe :: "nat \<Rightarrow> hub \<Rightarrow> hub" where
  "unsubscribe i h = h\<lparr> hb_queues := od_del i (hb_queues h) \<rparr>"

definition put_msg :: "log_msg \<Rightarrow> log_msg list \<Rightarrow> log_msg list" where
  "put_msg m q = (if log_queue_max \<le> length q then tl q else q) @ [m]"

definition record_msg :: "log_record \<Rightarrow> log_msg option" where
  "record_msg r = (case panel_format r of Inl e \<Rightarrow> None
     | Inr text \<Rightarrow> Some \<lparr> lm_type = py_lower (lr_level r), lm_payload = text, lm_levelno = lr_levelno r \<rparr>)"

definition broadcast :: "log_record \<Rightarrow> hub \<Rightarrow> hub" where
  "broadcast r h = (if hb_queues h = [] then h
     else case record_msg r of None \<Rightarrow> h
       | Some m \<Rightarrow> h\<lparr> hb_queues := map (\<lambda>(i, q). (i, put_msg m q)) (hb_queues h) \<rparr>)"

section \<open>The log view\<close>

text \<open>\<open>getattr(logging, name, INFO)\<close>: the module's names that are capital; its one string of these is no level.\<close>

definition min_level :: "request \<Rightarrow> nat" where
  "min_level req =
     (let q = od_get (rq_query req) (U ''level'');
          name = py_upper (case q of Some s \<Rightarrow> if s = [] then U ''info'' else s | None \<Rightarrow> U ''info'')
      in case log_level name of Some n \<Rightarrow> n
         | None \<Rightarrow> if name = U ''WARN'' then 30 else if name = U ''FATAL'' then 50 else if name = U ''NOTSET'' then 0 else 20)"

record log_view =
  lv_queue :: nat
  lv_min :: nat
  lv_ws :: ws
  lv_over :: bool

definition log_json :: "log_msg \<Rightarrow> json" where
  "log_json m = JObj [(U ''type'', JStr (lm_type m)), (U ''payload'', JStr (lm_payload m))]"

definition shut :: "bool \<Rightarrow> ws \<Rightarrow> ws" where
  "shut ok w = (case ws_close ok 1000 [] w of Inr w' \<Rightarrow> w' | Inl e \<Rightarrow> w)"

text \<open>The \<open>finally\<close> clause.\<close>

definition leave_view :: "bool \<Rightarrow> hub \<Rightarrow> log_view \<Rightarrow> hub \<times> log_view" where
  "leave_view ok h v = (unsubscribe (lv_queue v) h,
     v\<lparr> lv_ws := shut ok (lv_ws v), lv_over := True \<rparr>)"

text \<open>One wake-up, with a message or after the five seconds; \<open>ok\<close> and \<open>ok'\<close> say whether the writer takes the
  message and the closing frame.\<close>

definition view_turn :: "(json \<Rightarrow> pystr) \<Rightarrow> bool \<Rightarrow> bool \<Rightarrow> hub \<Rightarrow> log_view \<Rightarrow> hub \<times> log_view" where
  "view_turn dumps ok ok' h v =
     (if lv_over v then (h, v)
      else case od_get (hb_queues h) (lv_queue v) of
        Some (m # q) \<Rightarrow>
          (let h = h\<lparr> hb_queues := od_set (lv_queue v) q (hb_queues h) \<rparr> in
           if lm_levelno m < lv_min v then (if ws_closed (lv_ws v) then leave_view ok' h v else (h, v))
           else case send_text ok (dumps (log_json m)) (lv_ws v) of
             (Inl e, w) \<Rightarrow> leave_view ok' h (v\<lparr> lv_ws := w \<rparr>)
           | (Inr u, w) \<Rightarrow> (h, v\<lparr> lv_ws := w \<rparr>))
      | _ \<Rightarrow> if ws_closed (lv_ws v) then leave_view ok' h v else (h, v))"

text \<open>The handler's beginning without a broadcaster, and with one.\<close>

definition no_broadcaster :: "(json \<Rightarrow> pystr) \<Rightarrow> bool \<Rightarrow> bool \<Rightarrow> ws \<Rightarrow> py_error + ws" where
  "no_broadcaster dumps ok ok' w =
     (case send_text ok (dumps (JObj [(U ''type'', JStr (U ''warning'')), (U ''payload'', JStr (U ''log broadcaster not active''))])) w of
        (Inl e, w) \<Rightarrow> Inl e | (Inr u, w) \<Rightarrow> Inr (shut ok' w))"

record panel =
  pn_hub :: hub
  pn_views :: "(nat, log_view) odict"

definition open_view :: "request \<Rightarrow> ws \<Rightarrow> panel \<Rightarrow> panel" where
  "open_view req w p = (case subscribe (pn_hub p) of
     (i, h) \<Rightarrow> \<lparr> pn_hub = h,
       pn_views = od_set i \<lparr> lv_queue = i, lv_min = min_level req, lv_ws = w, lv_over = False \<rparr> (pn_views p) \<rparr>)"

text \<open>What happens: a log record, a view opened, a wake-up of a view, a frame on its connection, the end of its
  reading loop, and its cancellation.\<close>

datatype panel_event =
    Logged log_record
  | Opened request ws
  | Woken nat bool bool
  | Framed nat bool byte bytes
  | Lost nat
  | Aborted nat bool

definition on_view :: "nat \<Rightarrow> (log_view \<Rightarrow> log_view) \<Rightarrow> panel \<Rightarrow> panel" where
  "on_view i f p = (case od_get (pn_views p) i of None \<Rightarrow> p | Some v \<Rightarrow> p\<lparr> pn_views := od_set i (f v) (pn_views p) \<rparr>)"

definition put_view :: "nat \<Rightarrow> hub \<times> log_view \<Rightarrow> panel \<Rightarrow> panel" where
  "put_view i r p = \<lparr> pn_hub = fst r, pn_views = od_set i (snd r) (pn_views p) \<rparr>"

fun panel_step :: "(json \<Rightarrow> pystr) \<Rightarrow> panel_event \<Rightarrow> panel \<Rightarrow> panel" where
  "panel_step dumps (Logged r) p = p\<lparr> pn_hub := broadcast r (pn_hub p) \<rparr>"
| "panel_step dumps (Opened req w) p = open_view req w p"
| "panel_step dumps (Woken i ok ok') p = (case od_get (pn_views p) i of None \<Rightarrow> p
     | Some v \<Rightarrow> put_view i (view_turn dumps ok ok' (pn_hub p) v) p)"
| "panel_step dumps (Framed i ok opcode payload) p =
     on_view i (\<lambda>v. v\<lparr> lv_ws := snd (on_frame ok opcode payload (lv_ws v)) \<rparr>) p"
| "panel_step dumps (Lost i) p = on_view i (\<lambda>v. v\<lparr> lv_ws := (lv_ws v)\<lparr> ws_closed := True \<rparr> \<rparr>) p"
| "panel_step dumps (Aborted i ok) p = (case od_get (pn_views p) i of None \<Rightarrow> p
     | Some v \<Rightarrow> if lv_over v then p else put_view i (leave_view ok (pn_hub p) v) p)"

definition panel_run :: "(json \<Rightarrow> pystr) \<Rightarrow> panel_event list \<Rightarrow> panel \<Rightarrow> panel" where
  "panel_run dumps es p = fold (panel_step dumps) es p"

section \<open>What a view has shown\<close>

definition log_frame :: "(json \<Rightarrow> pystr) \<Rightarrow> log_msg \<Rightarrow> py_error + bytes" where
  "log_frame dumps m = bindE (utf8_encode (dumps (log_json m))) (encode_frame op_text)"

definition logged :: "panel_event list \<Rightarrow> log_msg list" where
  "logged es = List.map_filter (\<lambda>e. case e of Logged r \<Rightarrow> record_msg r | _ \<Rightarrow> None) es"

text \<open>The output of a connection: its frames, of which the text frames are the messages given, from the least level up.\<close>

definition shown :: "(json \<Rightarrow> pystr) \<Rightarrow> nat \<Rightarrow> bytes \<Rightarrow> log_msg list \<Rightarrow> bytes \<Rightarrow> bool" where
  "shown dumps lvl before taken out \<longleftrightarrow> (\<exists>fs. out = before @ concat (map snd fs)
     \<and> map (\<lambda>f. Inr (snd f)) (filter (\<lambda>f. fst f = op_text) fs)
        = map (log_frame dumps) (filter (\<lambda>m. lvl \<le> lm_levelno m) taken))"

text \<open>A queue: the newest messages, and together with what was taken before a part of what was logged, in order.\<close>

definition queue_ok :: "log_msg list \<Rightarrow> log_msg list \<Rightarrow> log_msg list \<Rightarrow> bool" where
  "queue_ok E taken q \<longleftrightarrow> length q \<le> log_queue_max \<and> suffix q E \<and> subseq (taken @ q) E"

definition view_ok :: "(json \<Rightarrow> pystr) \<Rightarrow> nat \<Rightarrow> bytes \<Rightarrow> log_msg list \<Rightarrow> bool \<Rightarrow> nat \<Rightarrow> panel \<Rightarrow> bool" where
  "view_ok dumps lvl before E calm i p \<longleftrightarrow> (\<exists>v taken. od_get (pn_views p) i = Some v \<and> lv_queue v = i \<and> lv_min v = lvl
     \<and> shown dumps lvl before taken (ws_out (lv_ws v))
     \<and> (case od_get (hb_queues (pn_hub p)) i of
          None \<Rightarrow> lv_over v \<and> subseq taken E \<and> (calm \<longrightarrow> prefix taken E)
        | Some q \<Rightarrow> \<not> lv_over v \<and> queue_ok E taken q \<and> (calm \<longrightarrow> taken @ q = E)))"

definition panel_ok :: "panel \<Rightarrow> bool" where
  "panel_ok p \<longleftrightarrow> (\<forall>j v. od_get (pn_views p) j = Some v \<longrightarrow> lv_queue v = j \<and> j < hb_next (pn_hub p))
     \<and> (\<forall>j q. od_get (hb_queues (pn_hub p)) j = Some q \<longrightarrow> j < hb_next (pn_hub p))"

lemma od_get_map: "od_get (map (\<lambda>(i, q). (i, f q)) d) k = map_option f (od_get d k)"
  by (induction d) (auto simp: od_get_def)

lemma broadcast_queue: "od_get (hb_queues (broadcast r h)) i
    = (case record_msg r of None \<Rightarrow> od_get (hb_queues h) i | Some m \<Rightarrow> map_option (put_msg m) (od_get (hb_queues h) i))"
  by (auto simp: broadcast_def od_get_map split: option.splits)

lemma broadcast_next [simp]: "hb_next (broadcast r h) = hb_next h"
  by (auto simp: broadcast_def split: option.splits)

lemma view_turn_frame:
  assumes "view_turn dumps ok ok' h v = (h', v')"
  shows "lv_queue v' = lv_queue v" "hb_next h' = hb_next h"
    "i \<noteq> lv_queue v \<Longrightarrow> od_get (hb_queues h') i = od_get (hb_queues h) i"
  using assms
  by (auto simp: view_turn_def leave_view_def unsubscribe_def Let_def split: if_splits option.splits list.splits prod.splits sum.splits)

lemma shown_other:
  assumes "op \<noteq> op_text" "shown dumps lvl b taken (ws_out w)"
  shows "shown dumps lvl b taken (ws_out (snd (send_raw ok op payload w)))"
proof -
  obtain fs where "ws_out w = b @ concat (map snd fs)"
      "map (\<lambda>f. Inr (snd f)) (filter (\<lambda>f. fst f = op_text) fs) = map (log_frame dumps) (filter (\<lambda>m. lvl \<le> lm_levelno m) taken)"
    using assms(2) by (auto simp: shown_def)
  then show ?thesis using assms(1)
    by (auto simp: shown_def send_raw_def intro: exI[of _ fs] exI[of _ "fs @ [(op, f)]" for f] split: sum.split)
qed

lemma shown_close: "shown dumps lvl b taken (ws_out w) \<Longrightarrow> ws_close ok c r w = Inr w' \<Longrightarrow> shown dumps lvl b taken (ws_out w')"
  using shown_other[of op_close dumps lvl b taken "w\<lparr> ws_closed := True \<rparr>" ok]
  by (auto simp: ws_close_def bindE_Inr_iff op_close_def op_text_def split: if_splits)

lemma shown_leave: "shown dumps lvl b taken (ws_out (lv_ws v)) \<Longrightarrow> shown dumps lvl b taken (ws_out (lv_ws (snd (leave_view ok h v))))"
  by (auto simp: leave_view_def shut_def shown_close split: sum.split)

lemma shown_frame: "shown dumps lvl b taken (ws_out w) \<Longrightarrow> shown dumps lvl b taken (ws_out (snd (on_frame ok opcode payload w)))"
  using shown_other[of op_close dumps lvl b taken "w\<lparr> ws_closed := True \<rparr>" ok]
    shown_other[of op_pong dumps lvl b taken w ok payload]
  by (auto simp: on_frame_def op_close_def op_pong_def op_text_def split: prod.split sum.split)

lemma shown_text:
  assumes "shown dumps lvl b taken (ws_out w)" "lvl \<le> lm_levelno m" "send_text ok (dumps (log_json m)) w = (r, w')"
  shows "case r of Inl e \<Rightarrow> ws_out w' = ws_out w | Inr u \<Rightarrow> shown dumps lvl b (taken @ [m]) (ws_out w')"
proof (cases r)
  case (Inl e)
  then show ?thesis using assms(3) by (auto simp: send_text_def send_raw_def split: if_splits sum.splits)
next
  case (Inr u)
  then obtain f where f: "log_frame dumps m = Inr f" "ws_out w' = ws_out w @ f"
    using assms(3) by (auto simp: send_text_def send_raw_def log_frame_def split: if_splits sum.splits)
  obtain fs where "ws_out w = b @ concat (map snd fs)"
      "map (\<lambda>f. Inr (snd f)) (filter (\<lambda>f. fst f = op_text) fs) = map (log_frame dumps) (filter (\<lambda>m. lvl \<le> lm_levelno m) taken)"
    using assms(1) by (auto simp: shown_def)
  then show ?thesis using assms(2) f Inr by (auto simp: shown_def intro!: exI[of _ "fs @ [(op_text, f)]"])
qed

lemma shown_filtered: "shown dumps lvl b taken out \<Longrightarrow> lm_levelno m < lvl \<Longrightarrow> shown dumps lvl b (taken @ [m]) out"
  by (simp add: shown_def)

lemma queue_put:
  assumes "queue_ok E taken q"
  shows "queue_ok (E @ [m]) taken (put_msg m q)"
proof -
  have "subseq (taken @ (if log_queue_max \<le> length q then tl q else q)) (taken @ q)" 
    by (intro list_emb_append_mono) (cases q, auto)
  then have "subseq ((taken @ (if log_queue_max \<le> length q then tl q else q)) @ [m]) (E @ [m])"
    using assms by (intro list_emb_append_mono) (auto simp: queue_ok_def intro: subseq_order.trans)
  moreover have "suffix (if log_queue_max \<le> length q then tl q else q) E"
    using assms by (auto simp: queue_ok_def intro: suffix_order.trans suffix_tl)
  ultimately show ?thesis using assms by (auto simp: queue_ok_def put_msg_def log_queue_max_def)
qed

lemma subseq_left: "subseq (xs @ ys) zs \<Longrightarrow> subseq xs zs"
  by (rule subseq_order.trans[OF prefix_imp_subseq]) auto

text \<open>A wake-up of the view itself.\<close>

lemma own_turn:
  assumes "view_turn dumps ok ok' h v = (h', v')" "lv_min v = lvl"
    and "shown dumps lvl b taken (ws_out (lv_ws v))"
    and "case od_get (hb_queues h) (lv_queue v) of
          None \<Rightarrow> lv_over v \<and> subseq taken E \<and> (calm \<longrightarrow> prefix taken E)
        | Some q \<Rightarrow> \<not> lv_over v \<and> queue_ok E taken q \<and> (calm \<longrightarrow> taken @ q = E)"
  shows "lv_min v' = lvl \<and> (\<exists>taken. shown dumps lvl b taken (ws_out (lv_ws v'))
    \<and> (case od_get (hb_queues h') (lv_queue v) of
          None \<Rightarrow> lv_over v' \<and> subseq taken E \<and> (calm \<longrightarrow> prefix taken E)
        | Some q \<Rightarrow> \<not> lv_over v' \<and> queue_ok E taken q \<and> (calm \<longrightarrow> taken @ q = E)))"
proof (cases "od_get (hb_queues h) (lv_queue v)")
  case None
  then show ?thesis using assms by (auto simp: view_turn_def)
next
  case (Some q)
  then have v: "\<not> lv_over v" "queue_ok E taken q" "calm \<longrightarrow> taken @ q = E" using assms(4) by simp_all
  have sub: "subseq taken E" using v(2) unfolding queue_ok_def by (blast intro: subseq_left)
  have pre: "calm \<longrightarrow> prefix taken E" using v(3) by auto
  show ?thesis
  proof (cases q)
    case Nil
    show ?thesis
    proof (cases "ws_closed (lv_ws v)")
      case True
      then have "(h', v') = leave_view ok' h v" using assms(1) Some Nil v(1) by (simp add: view_turn_def)
      then show ?thesis using shown_leave[OF assms(3), of ok' h] sub pre assms(2)
        by (auto simp: leave_view_def unsubscribe_def)
    next
      case False
      then show ?thesis using assms Some Nil v by (auto simp: view_turn_def)
    qed
  next
    case (Cons m q')
    let ?h = "h\<lparr> hb_queues := od_set (lv_queue v) q' (hb_queues h) \<rparr>"
    have q': "queue_ok E (taken @ [m]) q'" "calm \<longrightarrow> (taken @ [m]) @ q' = E"
      using v Cons by (auto simp: queue_ok_def suffix_def)
    then have "subseq ((taken @ [m]) @ q') E" by (simp only: queue_ok_def)
    note left = subseq_left[OF this]
    have sub': "subseq (taken @ [m]) E" "calm \<longrightarrow> prefix (taken @ [m]) E"
      using q'(2) left by (auto intro: prefixI[of _ _ q'])
    show ?thesis
    proof (cases "lm_levelno m < lvl")
      case True
      note sh = shown_filtered[OF assms(3) True]
      show ?thesis
      proof (cases "ws_closed (lv_ws v)")
        case c: True
        then have "(h', v') = leave_view ok' ?h v" using assms(1,2) Some Cons v(1) True by (simp add: view_turn_def)
        then show ?thesis using shown_leave[OF sh, of ok' ?h] sub' assms(2)
          by (auto simp: leave_view_def unsubscribe_def)
      next
        case False
        then have "view_turn dumps ok ok' h v = (?h, v)" using assms(2) Some Cons v(1) True by (simp add: view_turn_def)
        then have "h' = ?h" "v' = v" using assms(1) by simp_all
        then show ?thesis using sh q' v(1) assms(2) by auto
      qed
    next
      case False
      obtain r w where s: "send_text ok (dumps (log_json m)) (lv_ws v) = (r, w)" by (cases "send_text ok (dumps (log_json m)) (lv_ws v)")
      note st = shown_text[OF assms(3) _ s]
      show ?thesis
      proof (cases r)
        case (Inl e)
        then have e: "(h', v') = leave_view ok' ?h (v\<lparr> lv_ws := w \<rparr>)" using assms(1,2) Some Cons v(1) False s by (simp add: view_turn_def)
        have "shown dumps lvl b taken (ws_out (lv_ws (v\<lparr> lv_ws := w \<rparr>)))" using st False Inl assms(3) by simp
        from shown_leave[OF this, of ok' ?h] show ?thesis using e sub pre assms(2)
          by (auto simp: leave_view_def unsubscribe_def)
      next
        case (Inr u)
        then have "(h', v') = (?h, v\<lparr> lv_ws := w \<rparr>)" using assms(1,2) Some Cons v(1) False s by (simp add: view_turn_def)
        then show ?thesis using st False Inr q' v(1) assms(2) by auto
      qed
    qed
  qed
qed

section \<open>Any interleaving\<close>

lemma panel_ok_step: "panel_ok p \<Longrightarrow> panel_ok (panel_step dumps e p)"
proof (cases e)
  case (Logged r)
  assume "panel_ok p"
  then show ?thesis using Logged by (auto simp: panel_ok_def broadcast_queue split: option.splits)
next
  case (Opened req w)
  assume "panel_ok p"
  then show ?thesis using Opened
    by (auto simp: panel_ok_def open_view_def subscribe_def od_get_append less_Suc_eq split: if_splits option.splits)
      (auto simp: od_get_def split: if_splits)
next
  case (Woken i ok ok')
  assume ok: "panel_ok p"
  show ?thesis
  proof (cases "od_get (pn_views p) i")
    case (Some v)
    obtain h' v' where t: "view_turn dumps ok ok' (pn_hub p) v = (h', v')" by (cases "view_turn dumps ok ok' (pn_hub p) v")
    have i: "lv_queue v = i" "i < hb_next (pn_hub p)" using ok Some by (auto simp: panel_ok_def)
    have "j < hb_next h'" if "od_get (hb_queues h') j = Some q" for j q
      using that view_turn_frame(2) [OF t] view_turn_frame(3)[OF t, of j] i ok by (cases "j = i") (auto simp: panel_ok_def)
    then show ?thesis using ok i view_turn_frame(1,2)[OF t] Woken Some t
      by (auto simp: panel_ok_def put_view_def split: if_splits)
  qed (use ok Woken in simp)
next
  case (Aborted i ok)
  assume "panel_ok p"
  then show ?thesis using Aborted
    by (auto simp: panel_ok_def put_view_def leave_view_def unsubscribe_def split: option.splits if_splits)
qed (auto simp: panel_ok_def on_view_def split: option.splits if_splits)

lemma view_ok_step:
  assumes "panel_ok p" "view_ok dumps lvl b E calm i p"
    and "calm' \<longrightarrow> calm \<and> (case od_get (hb_queues (pn_hub p)) i of Some q \<Rightarrow> length q < log_queue_max | None \<Rightarrow> True)"
  shows "view_ok dumps lvl b (E @ logged [e]) calm' i (panel_step dumps e p)"
proof -
  obtain v taken where v: "od_get (pn_views p) i = Some v" "lv_queue v = i" "lv_min v = lvl"
      "shown dumps lvl b taken (ws_out (lv_ws v))"
      "case od_get (hb_queues (pn_hub p)) i of
          None \<Rightarrow> lv_over v \<and> subseq taken E \<and> (calm \<longrightarrow> prefix taken E)
        | Some q \<Rightarrow> \<not> lv_over v \<and> queue_ok E taken q \<and> (calm \<longrightarrow> taken @ q = E)"
    using assms(2) unfolding view_ok_def by blast
  have i: "i < hb_next (pn_hub p)" using assms(1) v(1) by (auto simp: panel_ok_def)
  have c: "calm' \<longrightarrow> calm" using assms(3) by simp
  have keep: "view_ok dumps lvl b (E @ []) calm' i p'"
    if "od_get (pn_views p') i = Some v" "od_get (hb_queues (pn_hub p')) i = od_get (hb_queues (pn_hub p)) i" for p'
    using that v c unfolding view_ok_def by (intro exI[of _ v] exI[of _ taken]) (auto split: option.splits)
  show ?thesis
  proof (cases e)
    case (Logged r)
    show ?thesis
    proof (cases "record_msg r")
      case None
      then show ?thesis using keep[of "panel_step dumps e p"] Logged v(1) by (simp add: logged_def map_filter_simps broadcast_queue)
    next
      case (Some m)
      have l: "logged [e] = [m]" using Logged Some by (simp add: logged_def map_filter_simps)
      show ?thesis
      proof (cases "od_get (hb_queues (pn_hub p)) i")
        case None
        then show ?thesis using v c Logged Some unfolding view_ok_def l
          by (intro exI[of _ v] exI[of _ taken]) (auto simp: broadcast_queue)
      next
        case q: (Some q)
        then have "calm' \<longrightarrow> put_msg m q = q @ [m]" using assms(3) by (auto simp: put_msg_def)
        then show ?thesis using v c Logged Some q queue_put[of E taken q m] unfolding view_ok_def l
          by (intro exI[of _ v] exI[of _ taken]) (auto simp: broadcast_queue)
      qed
    qed
  next
    case (Opened req w)
    have "od_get (hb_queues (pn_hub p) @ [(hb_next (pn_hub p), [])]) i = od_get (hb_queues (pn_hub p)) i"
      using i by (simp add: od_get_append split: option.split) (simp add: od_get_def)
    then show ?thesis using keep[of "panel_step dumps e p"] v(1) i Opened
      by (simp add: logged_def map_filter_simps open_view_def subscribe_def)
  next
    case (Woken j ok ok')
    show ?thesis
    proof (cases "od_get (pn_views p) j")
      case (Some v2)
      obtain h' v' where t: "view_turn dumps ok ok' (pn_hub p) v2 = (h', v')" by (cases "view_turn dumps ok ok' (pn_hub p) v2")
      have j: "lv_queue v2 = j" using assms(1) Some by (auto simp: panel_ok_def)
      show ?thesis
      proof (cases "j = i")
        case False
        then show ?thesis using keep[of "panel_step dumps e p"] view_turn_frame(3)[OF t, of i] j v(1) Woken Some t
          by (simp add: logged_def map_filter_simps put_view_def)
      next
        case True
        then have t': "view_turn dumps ok ok' (pn_hub p) v = (h', v')" using t Some v(1) by simp
        show ?thesis
          using own_turn[OF t' v(3,4), of E calm] v(1,2,5) c Woken True t' view_turn_frame(1)[OF t'] unfolding view_ok_def
          by (fastforce simp: logged_def map_filter_simps put_view_def split: option.splits)
      qed
    qed (use keep Woken v in \<open>simp add: logged_def map_filter_simps\<close>)
  next
    case (Framed j ok opcode payload)
    show ?thesis
    proof (cases "j = i")
      case True
      show ?thesis using v c Framed True shown_frame[OF v(4), of ok opcode payload] unfolding view_ok_def
        by (intro exI[of _ "v\<lparr> lv_ws := snd (on_frame ok opcode payload (lv_ws v)) \<rparr>"] exI[of _ taken])
          (auto simp: logged_def map_filter_simps on_view_def split: option.splits)
    qed (use keep[of "panel_step dumps e p"] v Framed in \<open>auto simp: logged_def map_filter_simps on_view_def split: option.splits\<close>)
  next
    case (Lost j)
    show ?thesis
    proof (cases "j = i")
      case True
      show ?thesis using v c Lost True unfolding view_ok_def
        by (intro exI[of _ "v\<lparr> lv_ws := (lv_ws v)\<lparr> ws_closed := True \<rparr> \<rparr>"] exI[of _ taken])
          (auto simp: logged_def map_filter_simps on_view_def split: option.splits)
    qed (use keep[of "panel_step dumps e p"] v Lost in \<open>auto simp: logged_def map_filter_simps on_view_def split: option.splits\<close>)
  next
    case (Aborted j ok)
    show ?thesis
    proof (cases "j = i \<and> \<not> lv_over v")
      case True
      then obtain q where q: "od_get (hb_queues (pn_hub p)) i = Some q" "queue_ok E taken q" "calm \<longrightarrow> taken @ q = E"
        using v(5) by (auto split: option.splits)
      have "subseq taken E" "calm \<longrightarrow> prefix taken E" using q by (auto simp: queue_ok_def intro: subseq_left)
      then show ?thesis using v(1-4) c Aborted True shown_leave[OF v(4), of ok "pn_hub p"] unfolding view_ok_def
        by (intro exI[of _ "snd (leave_view ok (pn_hub p) v)"] exI[of _ taken])
          (auto simp: logged_def map_filter_simps put_view_def leave_view_def unsubscribe_def)
    next
      case False
      have q: "od_get (pn_views p) j = Some v2 \<Longrightarrow> lv_queue v2 = j" for v2 using assms(1) by (auto simp: panel_ok_def)
      have "od_get (pn_views (panel_step dumps e p)) i = Some v"
        "od_get (hb_queues (pn_hub (panel_step dumps e p))) i = od_get (hb_queues (pn_hub p)) i"
        using q v(1,2) Aborted False
        by (cases "j = i"; auto simp: put_view_def leave_view_def unsubscribe_def split: option.splits)+
      then show ?thesis using keep[of "panel_step dumps e p"] Aborted by (simp add: logged_def map_filter_simps)
    qed
  qed
qed

definition new_panel :: panel where
  "new_panel = \<lparr> pn_hub = new_hub, pn_views = [] \<rparr>"

lemma panel_run_ok: "panel_ok p \<Longrightarrow> panel_ok (panel_run dumps es p)"
  by (induction es arbitrary: p) (auto simp: panel_run_def panel_ok_step)

lemma panel_run_snoc: "panel_run dumps (es @ [e]) p = panel_step dumps e (panel_run dumps es p)"
  by (simp add: panel_run_def)

lemma logged_snoc: "logged (es @ [e]) = logged es @ logged [e]"
  by (simp add: logged_def map_filter_def)

text \<open>The queue of a view never full when something happens.\<close>

definition keeps_up :: "(json \<Rightarrow> pystr) \<Rightarrow> nat \<Rightarrow> panel_event list \<Rightarrow> panel \<Rightarrow> bool" where
  "keeps_up dumps i es p \<longleftrightarrow> (\<forall>k<length es.
     case od_get (hb_queues (pn_hub (panel_run dumps (take k es) p))) i of Some q \<Rightarrow> length q < log_queue_max | None \<Rightarrow> True)"

lemma keeps_up_snoc: "keeps_up dumps i (es @ [e]) p \<longleftrightarrow> keeps_up dumps i es p
    \<and> (case od_get (hb_queues (pn_hub (panel_run dumps es p))) i of Some q \<Rightarrow> length q < log_queue_max | None \<Rightarrow> True)"
proof -
  have "take k (es @ [e]) = take k es" if "k < length es" for k using that by simp
  then show ?thesis by (auto simp: keeps_up_def less_Suc_eq all_conj_distrib)
qed

lemma log_view_aux:
  fixes dumps es0 req w
  defines "p0 \<equiv> panel_run dumps es0 new_panel"
  defines "i \<equiv> hb_next (pn_hub p0)"
  defines "p1 \<equiv> open_view req w p0"
  shows "view_ok dumps (min_level req) (ws_out w) (logged es) (keeps_up dumps i es p1) i (panel_run dumps es p1)"
proof (induction es rule: rev_induct)
  case Nil
  have "panel_ok p0" unfolding p0_def by (rule panel_run_ok) (simp add: panel_ok_def new_panel_def new_hub_def)
  then have "od_get (hb_queues (pn_hub p0)) i = None" by (force simp: panel_ok_def i_def)
  then have q: "od_get (hb_queues (pn_hub p0) @ [(i, [])]) i = Some []" by (simp add: od_get_append) (simp add: od_get_def)
  have "shown dumps (min_level req) (ws_out w) [] (ws_out w)" by (simp add: shown_def exI[of _ "[]"])
  then show ?case using q
    by (auto simp: view_ok_def intro!: exI[of _ "[] :: log_msg list"] simp: panel_run_def p1_def open_view_def subscribe_def i_def logged_def map_filter_def queue_ok_def log_queue_max_def)
next
  case (snoc e es)
  have "panel_ok p1" unfolding p1_def p0_def
    using panel_ok_step[OF panel_run_ok, of new_panel dumps "Opened req w" dumps es0]
    by (simp add: panel_ok_def new_panel_def new_hub_def)
  then show ?case
    unfolding panel_run_snoc logged_snoc keeps_up_snoc
    by (intro view_ok_step[OF panel_run_ok snoc.IH]) auto
qed

text \<open>C34: A log view shows what is logged while it is open, in order, from its least level up: whatever other views come
  and go, whatever control frames arrive and however slow its client is, the text frames on its connection are the frames
  of a subsequence of the records, none twice; its queue holds the newest records, at most 256; a client that keeps up
  misses nothing; and once the view has ended its queue is gone.\<close>

theorem log_view_faithful:
  "let p0 = panel_run dumps es0 new_panel; i = hb_next (pn_hub p0); p1 = open_view req w p0
   in view_ok dumps (min_level req) (ws_out w) (logged es) (keeps_up dumps i es p1) i (panel_run dumps es p1)"
  unfolding Let_def by (rule log_view_aux)

section \<open>The other views\<close>

text \<open>\<open>/traffic\<close>: the totals at the last turn; a turn sends the differences.\<close>

definition traffic_json :: "int \<Rightarrow> int \<Rightarrow> json" where
  "traffic_json up down = JObj [(U ''up'', JInt up), (U ''down'', JInt down)]"

text \<open>One turn after the second's sleep, and whether the view goes on.\<close>

definition traffic_turn ::
    "(json \<Rightarrow> pystr) \<Rightarrow> bool \<Rightarrow> bool \<Rightarrow> registry \<Rightarrow> (int \<times> int) \<times> ws \<Rightarrow> bool \<times> (int \<times> int) \<times> ws" where
  "traffic_turn dumps ok ok' r s = (case s of ((up, down), w) \<Rightarrow>
     if ws_closed w then (False, (up, down), w)
     else case send_text ok (dumps (traffic_json (rg_up r - up) (rg_down r - down))) w of
       (Inl e, w) \<Rightarrow> (False, (up, down), shut ok' w)
     | (Inr u, w) \<Rightarrow> (True, (rg_up r, rg_down r), w))"

lemma traffic_turn_sends:
  assumes "traffic_turn dumps ok ok' r ((up, down), w) = (True, s', w')"
  shows "s' = (rg_up r, rg_down r) \<and> (\<exists>f. ws_out w' = ws_out w @ f
    \<and> bindE (utf8_encode (dumps (traffic_json (rg_up r - up) (rg_down r - down)))) (encode_frame op_text) = Inr f)"
  using assms by (auto simp: traffic_turn_def send_text_def send_raw_def split: if_splits sum.splits prod.splits)

text \<open>A view opened when the meter stood at \<open>r0\<close>, with the meters at its turns; the differences sent.\<close>

fun traffic_sent :: "int \<times> int \<Rightarrow> registry list \<Rightarrow> (int \<times> int) list" where
  "traffic_sent s [] = []"
| "traffic_sent (up, down) (r # rs) = (rg_up r - up, rg_down r - down) # traffic_sent (rg_up r, rg_down r) rs"

lemma traffic_adds_up:
  "rs \<noteq> [] \<Longrightarrow> sum_list (map fst (traffic_sent (u, d) rs)) = rg_up (last rs) - u
     \<and> sum_list (map snd (traffic_sent (u, d) rs)) = rg_down (last rs) - d"
  by (induction rs arbitrary: u d) (fastforce split: if_splits)+

definition memory_json :: "int \<Rightarrow> json" where
  "memory_json rss = JObj [(U ''inuse'', JInt rss), (U ''oslimit'', JInt 0)]"

text \<open>\<open>/proc/self/statm\<close>: its second field times the page size, zero when anything fails.\<close>

definition rss_bytes :: "pystr option \<Rightarrow> int \<Rightarrow> int" where
  "rss_bytes statm page = (case statm of None \<Rightarrow> 0
     | Some s \<Rightarrow> (case filter (\<lambda>x. x \<noteq> []) (split_char 32 (map (\<lambda>c. if is_space c then 32 else c) s)) of
          a # b # xs \<Rightarrow> (case py_int 10 b of Some n \<Rightarrow> n * page | None \<Rightarrow> 0)
        | _ \<Rightarrow> 0))"

definition connections_json :: "clash_env \<Rightarrow> registry option \<Rightarrow> json \<times> registry option" where
  "connections_json ev reg = (case reg of
       None \<Rightarrow> (JObj [(U ''downloadTotal'', JInt 0), (U ''uploadTotal'', JInt 0), (U ''memory'', JInt 0),
         (U ''connections'', JList [])], None)
     | Some r \<Rightarrow> (case list_active (ev_mono ev) r of
         (cs, r') \<Rightarrow> (JObj [(U ''downloadTotal'', JInt (rg_down r)), (U ''uploadTotal'', JInt (rg_up r)),
           (U ''memory'', JInt (ev_rss ev)), (U ''connections'', JList (map (conn_json ev) cs))], Some r')))"

text \<open>\<open>/traffic\<close> without a registry, and one turn of \<open>/memory\<close> and \<open>/connections\<close>, which send first and sleep then.\<close>

definition no_traffic :: "(json \<Rightarrow> pystr) \<Rightarrow> bool \<Rightarrow> bool \<Rightarrow> ws \<Rightarrow> py_error + ws" where
  "no_traffic dumps ok ok' w = (case send_text ok (dumps (traffic_json 0 0)) w of
     (Inl e, w) \<Rightarrow> Inl e | (Inr u, w) \<Rightarrow> Inr (shut ok' w))"

definition push_turn :: "(json \<Rightarrow> pystr) \<Rightarrow> bool \<Rightarrow> bool \<Rightarrow> json \<Rightarrow> ws \<Rightarrow> bool \<times> ws" where
  "push_turn dumps ok ok' j w =
     (if ws_closed w then (False, w)
      else case send_text ok (dumps j) w of (Inl e, w) \<Rightarrow> (False, shut ok' w) | (Inr u, w) \<Rightarrow> (True, w))"

text \<open>\<open>/connections\<close> shows what \<open>GET /connections\<close> answers, when there is a registry.\<close>

lemma connections_json_rest:
  assumes "cl_registry st = Some r"
  shows "fst (connections ev st) = Inr (json_response ev 200 (fst (connections_json ev (Some r))))"
  by (simp add: connections_def connections_json_def assms ok_json_def case_prod_beta split: prod.split)

end
