(* ===== verification/Relay.thy ===== *)
theory Relay
  imports Complex_Main Tunnel
begin

text \<open>
  The byte relays: \<open>relay\<close>, \<open>wait_both_with_grace\<close> and \<open>safe_close\<close> of \<open>core/utils.py\<close>, the two directions of
  \<open>_bidi_tunnel_relay\<close> (\<open>core/outbound.py\<close>) and of the server's \<open>handle_client\<close> (\<open>server.py\<close>).

  One direction is a leg: it reads from its source and puts into its sink until the source ends or an exception is
  raised, then finishes the sink (a half close, or the tunnel's close alert).  What the source will give is the
  list of its events; a leg whose list is empty waits.  The two legs of a connection are tasks; a relay step is
  a turn of one of them, the end of the grace time, a cancellation, or the closing at the end.  Flow
  control (\<open>drain\<close>) changes no byte and is left out.
\<close>

section \<open>Sinks\<close>

text \<open>A socket's writer; \<open>wr_room\<close> is the number of writes that still succeed before the transport raises.\<close>

record writer =
  wr_out :: bytes
  wr_eof :: bool
  wr_closed :: bool
  wr_room :: "nat option"

definition new_writer :: "nat option \<Rightarrow> writer" where
  "new_writer room = \<lparr> wr_out = [], wr_eof = False, wr_closed = False, wr_room = room \<rparr>"

definition put_writer :: "bytes \<Rightarrow> writer \<Rightarrow> bool \<times> writer" where
  "put_writer d w = (case wr_room w of
       Some 0 \<Rightarrow> (False, w)
     | Some (Suc n) \<Rightarrow> (True, w\<lparr> wr_out := wr_out w @ d, wr_room := Some n \<rparr>)
     | None \<Rightarrow> (True, w\<lparr> wr_out := wr_out w @ d \<rparr>))"

text \<open>\<open>write_eof\<close>, whose exception on a broken transport is passed over.\<close>

definition fin_writer :: "writer \<Rightarrow> writer" where
  "fin_writer w = (if wr_room w = Some 0 then w else w\<lparr> wr_eof := True \<rparr>)"

text \<open>\<open>safe_close\<close>: nothing for a writer that is closing; reading off what is left in the receive buffer gives nothing
  to anybody.\<close>

definition safe_close :: "writer \<Rightarrow> writer" where
  "safe_close w = (if wr_closed w then w else (fin_writer w)\<lparr> wr_closed := True \<rparr>)"

text \<open>The sending side of a tunnel, with what it has written to the connection.\<close>

record tunnel_out =
  to_tun :: tunnel
  to_wire :: bytes
  to_closed :: bool

definition put_tunnel :: "aead \<Rightarrow> (nat \<Rightarrow> nat) \<Rightarrow> bytes \<Rightarrow> tunnel_out \<Rightarrow> bool \<times> tunnel_out" where
  "put_tunnel a dr d k = (case send a dr (to_tun k) d of
       (r, t, w) \<Rightarrow> (r = Inr (), k\<lparr> to_tun := t, to_wire := to_wire k @ w \<rparr>))"

definition fin_tunnel :: "aead \<Rightarrow> tunnel_out \<Rightarrow> tunnel_out" where
  "fin_tunnel a k = (case send_close_notify a (to_closed k) (to_tun k) of
       (r, t, w) \<Rightarrow> k\<lparr> to_tun := t, to_wire := to_wire k @ w \<rparr>)"

section \<open>Legs\<close>

datatype event = Got bytes | Stop

datatype leg_state = Running | Ended | Cancelled

text \<open>\<open>lg_pending\<close>: bytes put whose counting waits for \<open>send\<close> to return.\<close>

record 'k leg =
  lg_in :: "event list"
  lg_sink :: 'k
  lg_count :: nat
  lg_pending :: nat
  lg_state :: leg_state

definition new_leg :: "event list \<Rightarrow> 'k \<Rightarrow> 'k leg" where
  "new_leg es k = \<lparr> lg_in = es, lg_sink = k, lg_count = 0, lg_pending = 0, lg_state = Running \<rparr>"

text \<open>How a leg works: its sink's operations, whether empty data ends it (a stream's end; a tunnel may carry empty
  messages), and when the bytes are counted: before they are put, right after, or after a wait that a cancellation may cut.\<close>

datatype counting = Before | After | AfterWait

record 'k leg_kind =
  lk_put :: "bytes \<Rightarrow> 'k \<Rightarrow> bool \<times> 'k"
  lk_fin :: "'k \<Rightarrow> 'k"
  lk_eof :: bool
  lk_when :: counting

definition plain_kind :: "writer leg_kind" where
  "plain_kind = \<lparr> lk_put = put_writer, lk_fin = fin_writer, lk_eof = True, lk_when = After \<rparr>"

definition local_to_tunnel_leg :: "aead \<Rightarrow> (nat \<Rightarrow> nat) \<Rightarrow> tunnel_out leg_kind" where
  "local_to_tunnel_leg a dr = \<lparr> lk_put = put_tunnel a dr, lk_fin = fin_tunnel a, lk_eof = True, lk_when = AfterWait \<rparr>"

definition tunnel_to_local_leg :: "writer leg_kind" where
  "tunnel_to_local_leg = \<lparr> lk_put = put_writer, lk_fin = fin_writer, lk_eof = False, lk_when = After \<rparr>"

definition tunnel_to_target_leg :: "writer leg_kind" where
  "tunnel_to_target_leg = \<lparr> lk_put = put_writer, lk_fin = fin_writer, lk_eof = False, lk_when = Before \<rparr>"

definition target_to_tunnel_leg :: "aead \<Rightarrow> (nat \<Rightarrow> nat) \<Rightarrow> tunnel_out leg_kind" where
  "target_to_tunnel_leg a dr = \<lparr> lk_put = put_tunnel a dr, lk_fin = fin_tunnel a, lk_eof = True, lk_when = Before \<rparr>"

definition finish_leg :: "'k leg_kind \<Rightarrow> 'k leg \<Rightarrow> 'k leg" where
  "finish_leg kd l = l\<lparr> lg_sink := lk_fin kd (lg_sink l), lg_state := Ended \<rparr>"

definition put_leg :: "'k leg_kind \<Rightarrow> bytes \<Rightarrow> 'k leg \<Rightarrow> 'k leg" where
  "put_leg kd d l =
     (case lk_put kd d (lg_sink l) of
        (True, k) \<Rightarrow> (if lk_when kd = AfterWait then l\<lparr> lg_sink := k, lg_pending := length d \<rparr>
          else l\<lparr> lg_sink := k, lg_count := lg_count l + length d \<rparr>)
      | (False, k) \<Rightarrow> finish_leg kd (l\<lparr> lg_sink := k,
          lg_count := lg_count l + (if lk_when kd = Before then length d else 0) \<rparr>))"

text \<open>One turn of the loop; \<open>None\<close> for a leg that waits or is over.\<close>

definition leg_turn :: "'k leg_kind \<Rightarrow> 'k leg \<Rightarrow> 'k leg option" where
  "leg_turn kd l =
     (if lg_state l \<noteq> Running then None
      else if lg_pending l \<noteq> 0 then Some (l\<lparr> lg_count := lg_count l + lg_pending l, lg_pending := 0 \<rparr>)
      else case lg_in l of
        [] \<Rightarrow> None
      | Stop # es \<Rightarrow> Some (finish_leg kd (l\<lparr> lg_in := es \<rparr>))
      | Got d # es \<Rightarrow> Some (if d = [] \<and> lk_eof kd then finish_leg kd (l\<lparr> lg_in := es \<rparr>)
          else put_leg kd d (l\<lparr> lg_in := es \<rparr>)))"

definition leg_measure :: "'k leg \<Rightarrow> nat" where
  "leg_measure l = 2 * length (lg_in l) + (if lg_pending l = 0 then 0 else 1)"

lemma leg_turn_shorter: "leg_turn kd l = Some l' \<Longrightarrow> leg_measure l' < leg_measure l"
  by (auto simp: leg_turn_def finish_leg_def put_leg_def leg_measure_def
      split: if_splits list.splits event.splits prod.splits bool.splits)

text \<open>A leg left alone: turns until it waits or is over.\<close>

function run_leg :: "'k leg_kind \<Rightarrow> 'k leg \<Rightarrow> 'k leg" where
  "run_leg kd l = (case leg_turn kd l of None \<Rightarrow> l | Some l' \<Rightarrow> run_leg kd l')"
  by pat_completeness auto

termination
  by (relation "measure (\<lambda>(kd, l). leg_measure l)") (auto dest: leg_turn_shorter)

declare run_leg.simps [simp del]

section \<open>A connection\<close>

record ('a, 'b) conn =
  cn_a :: "'a leg"
  cn_b :: "'b leg"
  cn_done :: bool

definition cancel_leg :: "'k leg \<Rightarrow> 'k leg" where
  "cancel_leg l = (if lg_state l = Running then l\<lparr> lg_state := Cancelled \<rparr> else l)"

text \<open>What happens to a connection: turns of its legs; \<open>Expire\<close>, the grace time after the first leg has ended;
  \<open>Cancel\<close>, a cancellation from outside; \<open>Close\<close>, the \<open>finally\<close> clause once no leg runs.\<close>

datatype conn_event = TurnA | TurnB | Expire | Cancel | Close

definition conn_step :: "'a leg_kind \<Rightarrow> 'b leg_kind \<Rightarrow> ('a \<Rightarrow> 'a) \<Rightarrow> ('b \<Rightarrow> 'b) \<Rightarrow> conn_event \<Rightarrow> ('a, 'b) conn \<Rightarrow> ('a, 'b) conn option" where
  "conn_step ka kb ca cb e c =
     (if cn_done c then None
      else case e of
        TurnA \<Rightarrow> map_option (\<lambda>l. c\<lparr> cn_a := l \<rparr>) (leg_turn ka (cn_a c))
      | TurnB \<Rightarrow> map_option (\<lambda>l. c\<lparr> cn_b := l \<rparr>) (leg_turn kb (cn_b c))
      | Expire \<Rightarrow> if lg_state (cn_a c) = Running \<and> lg_state (cn_b c) = Running then None
          else Some (c\<lparr> cn_a := cancel_leg (cn_a c), cn_b := cancel_leg (cn_b c) \<rparr>)
      | Cancel \<Rightarrow> Some (c\<lparr> cn_a := cancel_leg (cn_a c), cn_b := cancel_leg (cn_b c) \<rparr>)
      | Close \<Rightarrow> if lg_state (cn_a c) = Running \<or> lg_state (cn_b c) = Running then None
          else Some (c\<lparr> cn_a := (cn_a c)\<lparr> lg_sink := ca (lg_sink (cn_a c)) \<rparr>,
                        cn_b := (cn_b c)\<lparr> lg_sink := cb (lg_sink (cn_b c)) \<rparr>, cn_done := True \<rparr>))"

definition close_tunnel :: "tunnel_out \<Rightarrow> tunnel_out" where
  "close_tunnel k = k\<lparr> to_closed := True \<rparr>"

inductive conn_run :: "'a leg_kind \<Rightarrow> 'b leg_kind \<Rightarrow> ('a \<Rightarrow> 'a) \<Rightarrow> ('b \<Rightarrow> 'b) \<Rightarrow> ('a, 'b) conn \<Rightarrow> ('a, 'b) conn \<Rightarrow> bool"
  for ka kb ca cb c0 where
  conn_start: "conn_run ka kb ca cb c0 c0"
| conn_more: "conn_run ka kb ca cb c0 c \<Longrightarrow> conn_step ka kb ca cb e c = Some c' \<Longrightarrow> conn_run ka kb ca cb c0 c'"

text \<open>\<open>relay\<close>: local to remote and remote to local, both over plain writers.\<close>

definition plain_run :: "(writer, writer) conn \<Rightarrow> (writer, writer) conn \<Rightarrow> bool" where
  "plain_run = conn_run plain_kind plain_kind safe_close safe_close"

section \<open>What a leg has done\<close>

text \<open>The interface of a sink: \<open>wrote k k' ms\<close> says that \<open>k'\<close> is \<open>k\<close> after the messages \<open>ms\<close>.\<close>

locale sink =
  fixes put :: "bytes \<Rightarrow> 'k \<Rightarrow> bool \<times> 'k"
    and wrote :: "'k \<Rightarrow> 'k \<Rightarrow> bytes list \<Rightarrow> bool"
  assumes wrote_none: "wrote k k []"
    and wrote_put: "wrote k k1 ms \<Longrightarrow> put d k1 = (True, k2) \<Longrightarrow> wrote k k2 (ms @ [d])"
begin

text \<open>Before its end a leg has put exactly the data it has read, in order; at its end it stopped at the first event
  that ends it, or at the first message its sink refused.\<close>

definition progress :: "event list \<Rightarrow> 'k \<Rightarrow> 'k leg_kind \<Rightarrow> 'k leg \<Rightarrow> bool" where
  "progress es k0 kd l \<longleftrightarrow> (\<exists>ms. wrote k0 (lg_sink l) ms \<and> es = map Got ms @ lg_in l
     \<and> lg_count l + lg_pending l = length (concat ms) \<and> (lg_pending l \<noteq> 0 \<longrightarrow> lk_when kd = AfterWait)
     \<and> (lk_eof kd \<longrightarrow> [] \<notin> set ms))"

definition finished :: "event list \<Rightarrow> 'k \<Rightarrow> 'k leg_kind \<Rightarrow> 'k leg \<Rightarrow> bool" where
  "finished es k0 kd l \<longleftrightarrow> (\<exists>ms k1 e. wrote k0 k1 ms \<and> es = map Got ms @ e # lg_in l \<and> (lk_eof kd \<longrightarrow> [] \<notin> set ms)
     \<and> (((e = Stop \<or> e = Got [] \<and> lk_eof kd) \<and> lg_sink l = lk_fin kd k1 \<and> lg_count l = length (concat ms))
        \<or> (\<exists>d k2. e = Got d \<and> put d k1 = (False, k2) \<and> lg_sink l = lk_fin kd k2
            \<and> lg_count l = length (concat ms) + (if lk_when kd = Before then length d else 0))))"

definition leg_ok :: "event list \<Rightarrow> 'k \<Rightarrow> 'k leg_kind \<Rightarrow> 'k leg \<Rightarrow> bool" where
  "leg_ok es k0 kd l \<longleftrightarrow> (if lg_state l = Ended then finished es k0 kd l else progress es k0 kd l)"

lemma new_leg_ok: "leg_ok es k kd (new_leg es k)"
  using wrote_none by (auto simp: leg_ok_def progress_def new_leg_def)

lemma cancel_ok: "leg_ok es k0 kd l \<Longrightarrow> leg_ok es k0 kd (cancel_leg l)"
  by (auto simp: leg_ok_def cancel_leg_def progress_def)

lemma turn_ok:
  assumes kd: "lk_put kd = put" and ok: "leg_ok es k0 kd l" and turn: "leg_turn kd l = Some l'"
  shows "leg_ok es k0 kd l'"
proof -
  have r: "lg_state l = Running" using turn by (auto simp: leg_turn_def split: if_splits)
  then obtain ms where ms: "wrote k0 (lg_sink l) ms" "es = map Got ms @ lg_in l" "lg_count l + lg_pending l = length (concat ms)"
      "lg_pending l \<noteq> 0 \<longrightarrow> lk_when kd = AfterWait" "lk_eof kd \<longrightarrow> [] \<notin> set ms"
    using ok by (auto simp: leg_ok_def progress_def)
  show ?thesis
  proof (cases "lg_pending l = 0")
    case False
    then show ?thesis using turn r ms by (auto simp: leg_turn_def leg_ok_def progress_def)
  next
    case p: True
    then obtain e es' where e: "lg_in l = e # es'" using turn r by (auto simp: leg_turn_def split: list.splits)
    show ?thesis
    proof (cases "e = Stop \<or> e = Got [] \<and> lk_eof kd")
      case True
      then have "l' = finish_leg kd (l\<lparr> lg_in := es' \<rparr>)"
        using turn r p e by (auto simp: leg_turn_def)
      then show ?thesis using ms e p True
        by (auto simp: leg_ok_def finished_def finish_leg_def intro!: exI[of _ ms] exI[of _ "lg_sink l"])
    next
      case False
      then obtain d where d: "e = Got d" "\<not> (d = [] \<and> lk_eof kd)" by (cases e) auto
      then have l': "l' = put_leg kd d (l\<lparr> lg_in := es' \<rparr>)"
        using turn r p e by (auto simp: leg_turn_def)
      obtain b k where pk: "put d (lg_sink l) = (b, k)" by (cases "put d (lg_sink l)")
      show ?thesis
      proof (cases b)
        case True
        then have "wrote k0 k (ms @ [d])" using wrote_put[OF ms(1)] pk by simp
        then show ?thesis using ms e p d r pk True
          by (auto simp: leg_ok_def progress_def l' put_leg_def kd intro!: exI[of _ "ms @ [d]"])
      next
        case False
        then have "finished es k0 kd l'"
          unfolding finished_def using ms e p d pk
          by (intro exI[of _ ms] exI[of _ "lg_sink l"] exI[of _ e]) (simp add: l' put_leg_def finish_leg_def kd)
        moreover have "lg_state l' = Ended" using False pk by (simp add: l' put_leg_def finish_leg_def kd)
        ultimately show ?thesis by (simp add: leg_ok_def)
      qed
    qed
  qed
qed

end

text \<open>The two legs of a connection, each over a sink of its own.\<close>

locale two_sinks = A: sink putA wroteA + B: sink putB wroteB
  for putA :: "bytes \<Rightarrow> 'a \<Rightarrow> bool \<times> 'a" and wroteA :: "'a \<Rightarrow> 'a \<Rightarrow> bytes list \<Rightarrow> bool"
    and putB :: "bytes \<Rightarrow> 'b \<Rightarrow> bool \<times> 'b" and wroteB :: "'b \<Rightarrow> 'b \<Rightarrow> bytes list \<Rightarrow> bool"
begin

definition legs_ok ::
    "event list \<Rightarrow> 'a \<Rightarrow> 'a leg_kind \<Rightarrow> event list \<Rightarrow> 'b \<Rightarrow> 'b leg_kind \<Rightarrow> ('a, 'b) conn \<Rightarrow> bool" where
  "legs_ok ea a0 ka eb b0 kb c \<longleftrightarrow> A.leg_ok ea a0 ka (cn_a c) \<and> B.leg_ok eb b0 kb (cn_b c)"

text \<open>Whatever the interleaving, each leg does as it would alone; after the closing only the closed marks differ.\<close>

lemma conn_run_ok:
  assumes "lk_put ka = putA" "lk_put kb = putB"
    and "conn_run ka kb ca cb \<lparr> cn_a = new_leg ea a0, cn_b = new_leg eb b0, cn_done = False \<rparr> c"
  shows "if cn_done c then (\<exists>c1. legs_ok ea a0 ka eb b0 kb c1 \<and> lg_state (cn_a c1) \<noteq> Running \<and> lg_state (cn_b c1) \<noteq> Running
        \<and> c = \<lparr> cn_a = (cn_a c1)\<lparr> lg_sink := ca (lg_sink (cn_a c1)) \<rparr>,
            cn_b = (cn_b c1)\<lparr> lg_sink := cb (lg_sink (cn_b c1)) \<rparr>, cn_done = True \<rparr>)
      else legs_ok ea a0 ka eb b0 kb c"
  using assms(3)
proof induction
  case conn_start
  then show ?case by (simp add: legs_ok_def A.new_leg_ok B.new_leg_ok)
next
  case (conn_more c e c')
  have nd: "\<not> cn_done c" using conn_more(2) by (auto simp: conn_step_def)
  then have ok: "legs_ok ea a0 ka eb b0 kb c" using conn_more.IH by simp
  show ?case
  proof (cases e)
    case TurnA
    then show ?thesis using conn_more(2) nd ok A.turn_ok[OF assms(1)] by (auto simp: conn_step_def legs_ok_def)
  next
    case TurnB
    then show ?thesis using conn_more(2) nd ok B.turn_ok[OF assms(2)] by (auto simp: conn_step_def legs_ok_def)
  next
    case Close
    then have r: "lg_state (cn_a c) \<noteq> Running" "lg_state (cn_b c) \<noteq> Running"
      and c': "c' = c\<lparr> cn_a := (cn_a c)\<lparr> lg_sink := ca (lg_sink (cn_a c)) \<rparr>,
            cn_b := (cn_b c)\<lparr> lg_sink := cb (lg_sink (cn_b c)) \<rparr>, cn_done := True \<rparr>"
      using conn_more(2) nd by (auto simp: conn_step_def split: if_splits)
    then show ?thesis using ok by (auto intro!: exI[of _ c])
  qed (use conn_more(2) nd ok A.cancel_ok B.cancel_ok in \<open>auto simp: conn_step_def legs_ok_def split: if_splits\<close>)
qed

end

definition writer_wrote :: "writer \<Rightarrow> writer \<Rightarrow> bytes list \<Rightarrow> bool" where
  "writer_wrote w w' ms \<longleftrightarrow> wr_out w' = wr_out w @ concat ms \<and> wr_eof w' = wr_eof w \<and> wr_closed w' = wr_closed w
     \<and> (wr_room w = None \<longrightarrow> wr_room w' = None)"

interpretation plain: two_sinks put_writer writer_wrote put_writer writer_wrote
  by unfold_locales (auto simp: writer_wrote_def put_writer_def split: option.splits nat.splits)

definition tunnel_wrote :: "aead \<Rightarrow> (nat \<Rightarrow> nat) \<Rightarrow> tunnel_out \<Rightarrow> tunnel_out \<Rightarrow> bytes list \<Rightarrow> bool" where
  "tunnel_wrote a dr k k' ms \<longleftrightarrow> (\<exists>w. send_all a dr (to_tun k) ms = (Inr (), to_tun k', w)
     \<and> to_wire k' = to_wire k @ w \<and> to_closed k' = to_closed k)"

lemma send_all_snoc:
  assumes "send_all a dr t ms = (Inr (), t1, w1)" "send a dr t1 d = (Inr (), t2, w2)"
  shows "send_all a dr t (ms @ [d]) = (Inr (), t2, w1 @ w2)"
  using assms by (induction ms arbitrary: t w1) (auto split: prod.splits sum.splits)

interpretation tunnelled: two_sinks "put_tunnel a dr" "tunnel_wrote a dr" put_writer writer_wrote for a dr
proof (unfold_locales, goal_cases)
  case (1 k)
  then show ?case by (simp add: tunnel_wrote_def)
next
  case (2 k k1 ms d k2)
  then show ?case
    using send_all_snoc[of a dr "to_tun k" ms "to_tun k1" _ d]
    by (auto simp: tunnel_wrote_def put_tunnel_def split: prod.splits)
qed

section \<open>Plain relays\<close>

text \<open>The bytes of a stream, up to its end or the first exception.\<close>

fun stream_data :: "event list \<Rightarrow> bytes" where
  "stream_data [] = []"
| "stream_data (Stop # es) = []"
| "stream_data (Got d # es) = (if d = [] then [] else d @ stream_data es)"

lemma stream_data_append: "[] \<notin> set ms \<Longrightarrow> stream_data (map Got ms @ es) = concat ms @ stream_data es"
  by (induction ms) auto

text \<open>What one direction has leg_delivered.\<close>

definition leg_delivered :: "event list \<Rightarrow> nat option \<Rightarrow> bool \<Rightarrow> writer leg \<Rightarrow> bool" where
  "leg_delivered es room over l \<longleftrightarrow> prefix (wr_out (lg_sink l)) (stream_data es)
     \<and> lg_count l = length (wr_out (lg_sink l))
     \<and> (lg_state l = Ended \<and> room = None \<longrightarrow> wr_out (lg_sink l) = stream_data es)
     \<and> (room = None \<longrightarrow> wr_eof (lg_sink l) = (over \<or> lg_state l = Ended) \<and> wr_room (lg_sink l) = None)
     \<and> wr_closed (lg_sink l) = over"

lemma plain_kind_simps: "lk_put plain_kind = put_writer" "lk_fin plain_kind = fin_writer" "lk_eof plain_kind = True"
    "lk_when plain_kind = After"
  by (simp_all add: plain_kind_def)

lemma plain_leg_delivered:
  assumes "plain.A.leg_ok es (new_writer room) plain_kind l"
  shows "leg_delivered es room False l"
proof (cases "lg_state l = Ended")
  case False
  then obtain ms where "wr_out (lg_sink l) = concat ms" "es = map Got ms @ lg_in l" "lg_count l = length (concat ms)"
      "[] \<notin> set ms" "\<not> wr_eof (lg_sink l)" "\<not> wr_closed (lg_sink l)" "room = None \<longrightarrow> wr_room (lg_sink l) = None"
    using assms by (auto simp: plain.A.leg_ok_def plain.A.progress_def plain_kind_def writer_wrote_def new_writer_def)
  then show ?thesis using False by (simp add: leg_delivered_def stream_data_append)
next
  case True
  then have "plain.A.finished es (new_writer room) plain_kind l"
    using assms by (simp add: plain.A.leg_ok_def)
  then obtain ms k1 e where w: "writer_wrote (new_writer room) k1 ms" and es: "es = map Got ms @ e # lg_in l"
      and ne: "True \<longrightarrow> [] \<notin> set ms"
      and fin0: "((e = Stop \<or> e = Got [] \<and> True) \<and> lg_sink l = fin_writer k1 \<and> lg_count l = length (concat ms))
        \<or> (\<exists>d k2. e = Got d \<and> put_writer d k1 = (False, k2) \<and> lg_sink l = fin_writer k2
            \<and> lg_count l = length (concat ms) + (if After = Before then length d else 0))"
    unfolding plain.A.finished_def plain_kind_simps by (elim exE conjE) (rule that)
  have es: "es = map Got ms @ e # lg_in l" "[] \<notin> set ms" using es ne by simp_all
  have fin: "(e = Stop \<or> e = Got []) \<and> lg_sink l = fin_writer k1 \<and> lg_count l = length (concat ms)
        \<or> (\<exists>d k2. put_writer d k1 = (False, k2) \<and> lg_sink l = fin_writer k2 \<and> lg_count l = length (concat ms))"
    using fin0 by (elim disjE exE conjE) (simp_all, blast)
  have k1: "wr_out k1 = concat ms" "\<not> wr_closed k1" "room = None \<longrightarrow> wr_room k1 = None"
    using w by (simp_all add: writer_wrote_def new_writer_def)
  have same: "k2 = k1 \<and> room \<noteq> None" if "put_writer d k1 = (False, k2)" for d k2
    using that k1(3) by (auto simp: put_writer_def split: option.splits nat.splits)
  from fin show ?thesis
  proof
    assume "(e = Stop \<or> e = Got []) \<and> lg_sink l = fin_writer k1 \<and> lg_count l = length (concat ms)"
    then show ?thesis using es k1 True by (auto simp: leg_delivered_def stream_data_append fin_writer_def)
  next
    assume "\<exists>d k2. put_writer d k1 = (False, k2) \<and> lg_sink l = fin_writer k2 \<and> lg_count l = length (concat ms)"
    then have "room \<noteq> None" "lg_sink l = fin_writer k1" "lg_count l = length (concat ms)" using same by blast+
    then show ?thesis using es(2) k1 True unfolding es(1) by (auto simp: leg_delivered_def stream_data_append fin_writer_def)
  qed
qed

lemma leg_delivered_closed:
  "leg_delivered es room False l \<Longrightarrow> leg_delivered es room True (l\<lparr> lg_sink := safe_close (lg_sink l) \<rparr>)"
  by (auto simp: leg_delivered_def safe_close_def fin_writer_def)


definition sample_relay :: "(writer, writer) conn" where
  "sample_relay = \<lparr> cn_a = new_leg [Got [1, 2], Got []] (new_writer None), cn_b = new_leg [Got [3]] (new_writer (Some 0)),
     cn_done = False \<rparr>"


section \<open>Through the tunnel\<close>

lemma run_leg_turn: "leg_turn kd l = Some l' \<Longrightarrow> run_leg kd l = run_leg kd l'"
  by (simp add: run_leg.simps[of kd l])

text \<open>A leg whose sink takes every message.\<close>

fun puts :: "(bytes \<Rightarrow> 'k \<Rightarrow> bool \<times> 'k) \<Rightarrow> 'k \<Rightarrow> bytes list \<Rightarrow> 'k option" where
  "puts put k [] = Some k"
| "puts put k (d # ds) = (case put d k of (True, k') \<Rightarrow> puts put k' ds | (False, k') \<Rightarrow> None)"

definition ends :: "'k leg_kind \<Rightarrow> event \<Rightarrow> bool" where
  "ends kd e \<longleftrightarrow> e = Stop \<or> e = Got [] \<and> lk_eof kd"

lemma run_leg_puts:
  assumes "puts (lk_put kd) k ds = Some k'" "lk_eof kd \<longrightarrow> [] \<notin> set ds" "ends kd e"
  shows "run_leg kd \<lparr> lg_in = map Got ds @ e # es, lg_sink = k, lg_count = n, lg_pending = 0, lg_state = Running \<rparr>
    = \<lparr> lg_in = es, lg_sink = lk_fin kd k', lg_count = n + length (concat ds), lg_pending = 0, lg_state = Ended \<rparr>"
  using assms(1,2)
proof (induction ds arbitrary: k n)
  case Nil
  then show ?case using assms(3)
    by (subst run_leg.simps) (auto simp: leg_turn_def finish_leg_def ends_def run_leg.simps)
next
  case (Cons d ds)
  obtain k1 where k1: "lk_put kd d k = (True, k1)" "puts (lk_put kd) k1 ds = Some k'"
    using Cons.prems(1) by (auto split: prod.splits bool.splits)
  let ?next = "\<lparr> lg_in = map Got ds @ e # es, lg_sink = k1, lg_count = n + length d, lg_pending = 0, lg_state = Running \<rparr>"
  let ?l = "\<lparr> lg_in = map Got (d # ds) @ e # es, lg_sink = k, lg_count = n, lg_pending = 0, lg_state = Running \<rparr>"
  have nd: "\<not> (d = [] \<and> lk_eof kd)" using Cons.prems(2) by auto
  have "run_leg kd ?l = run_leg kd ?next"
  proof (cases "lk_when kd = AfterWait \<and> d \<noteq> []")
    case False
    then have "leg_turn kd ?l = Some ?next" using nd k1 by (auto simp: leg_turn_def put_leg_def)
    then show ?thesis by (rule run_leg_turn)
  next
    case True
    let ?mid = "\<lparr> lg_in = map Got ds @ e # es, lg_sink = k1, lg_count = n, lg_pending = length d, lg_state = Running \<rparr>"
    have "leg_turn kd ?l = Some ?mid" "leg_turn kd ?mid = Some ?next" using nd k1 True by (auto simp: leg_turn_def put_leg_def)
    then show ?thesis by (simp only: run_leg_turn)
  qed
  then show ?case using Cons.IH[OF k1(2), of "n + length d"] Cons.prems(2) by (auto simp: add.assoc)
qed

lemma send_advances:
  assumes "send a d t m = (Inr x, t', out)"
  shows "send_key t' = send_key t \<and> send_nonce t' \<le> send_nonce t + length m"
  using assms
proof (induction a d t m arbitrary: t' out rule: send.induct)
  case (1 a d t m)
  show ?case
  proof (cases "m = []")
    case False
    let ?n = "next_record_size (d (send_nonce t))"
    obtain rec t1 out1 where s: "seal a t (take ?n m @ [0x17]) = (Inr rec, t1)"
      and r: "send a d t1 (drop ?n m) = (Inr x, t', out1)"
      by (rule send_step[OF 1(2) False])
    have t1: "t1 = t\<lparr>send_nonce := send_nonce t + 1\<rparr>" by (rule seal_Inr[OF s])
    have "send_key t' = send_key t1" "send_nonce t' \<le> send_nonce t1 + length (drop ?n m)"
      using 1(1)[OF False refl refl s[symmetric] refl r] by blast+
    moreover have "length (drop ?n m) + 1 \<le> length m" using False next_record_size_pos[of "d (send_nonce t)"]
      by (cases m) (auto simp: diff_le_self diff_less Suc_diff_le less_Suc_eq_le[symmetric] simp del: next_record_size_pos)
    ultimately show ?thesis by (simp add: t1)
  qed (use 1(2) in \<open>simp add: send.simps\<close>)
qed

lemma tunnel_takes_all:
  assumes "aead_ok a" "send_key t \<noteq> None" "send_nonce t + length (concat ds) \<le> 256 ^ 12"
  shows "\<exists>t' out. send_all a dr t ds = (Inr (), t', out) \<and> send_key t' = send_key t
    \<and> send_nonce t' \<le> send_nonce t + length (concat ds)
    \<and> (\<forall>w. puts (put_tunnel a dr) \<lparr> to_tun = t, to_wire = w, to_closed = c \<rparr> ds
          = Some \<lparr> to_tun = t', to_wire = w @ out, to_closed = c \<rparr>)"
  using assms(2,3)
proof (induction ds arbitrary: t)
  case (Cons d ds)
  have le: "send_nonce t + length d \<le> 256 ^ 12" using Cons.prems(2) by simp
  obtain t1 o1 where s: "send a dr t d = (Inr (), t1, o1)"
    using send_total_aux[OF assms(1) Cons.prems(1) le, of dr] by (cases "send a dr t d") auto
  have t1: "send_key t1 = send_key t" "send_nonce t1 \<le> send_nonce t + length d"
    using send_advances[OF s] by simp_all
  obtain t2 o2 where r: "send_all a dr t1 ds = (Inr (), t2, o2)" "send_key t2 = send_key t1"
      "send_nonce t2 \<le> send_nonce t1 + length (concat ds)"
      "\<And>w. puts (put_tunnel a dr) \<lparr> to_tun = t1, to_wire = w, to_closed = c \<rparr> ds
          = Some \<lparr> to_tun = t2, to_wire = w @ o2, to_closed = c \<rparr>"
    using Cons.IH[of t1] t1 Cons.prems by auto
  have p: "put_tunnel a dr d \<lparr> to_tun = t, to_wire = w, to_closed = c \<rparr>
      = (True, \<lparr> to_tun = t1, to_wire = w @ o1, to_closed = c \<rparr>)" for w
    using s by (simp add: put_tunnel_def)
  show ?case using s t1 r p by auto
qed simp

lemma writer_takes_all: "puts put_writer (new_writer None) ds = Some ((new_writer None)\<lparr> wr_out := concat ds \<rparr>)"
proof -
  have "puts put_writer \<lparr> wr_out = w, wr_eof = False, wr_closed = False, wr_room = None \<rparr> ds
      = Some \<lparr> wr_out = w @ concat ds, wr_eof = False, wr_closed = False, wr_room = None \<rparr>" for w
    by (induction ds arbitrary: w) (simp_all add: put_writer_def)
  then show ?thesis by (simp add: new_writer_def)
qed

text \<open>What a receiving leg sees of a tunnel: its messages, then the exception.\<close>

definition tunnel_events :: "bytes list \<times> py_error option \<times> tunnel \<times> 's \<Rightarrow> event list" where
  "tunnel_events r = map Got (fst r) @ (if fst (snd r) = None then [] else [Stop])"

text \<open>A stream carried by a sending leg, the connection cut anywhere, and a receiving leg.\<close>

definition carried ::
    "aead \<Rightarrow> tunnel_out leg_kind \<Rightarrow> tunnel \<Rightarrow> writer leg_kind \<Rightarrow> tunnel \<Rightarrow> bytes list \<Rightarrow> bool" where
  "carried a ks t kr u ds \<longleftrightarrow>
     (let l = run_leg ks (new_leg (map Got ds @ [Got []]) \<lparr> to_tun = t, to_wire = [], to_closed = False \<rparr>) in
      lg_state l = Ended \<and> lg_count l = length (concat ds)
      \<and> (\<forall>s rest. concat s = to_wire (lg_sink l) @ rest \<longrightarrow>
           (\<exists>n. let r = recv_loop a raw_readexactly n u s;
                    m = run_leg kr (new_leg (tunnel_events r) (new_writer None))
             in fst (snd r) = Some EOFErr \<and> concat (snd (snd (snd r))) = rest
              \<and> lg_state m = Ended \<and> lg_count m = length (concat ds)
              \<and> lg_sink m = (new_writer None)\<lparr> wr_out := concat ds, wr_eof := True \<rparr>)))"

lemma carried_through:
  assumes ok: "aead_ok a" and p: "paired t u" and room: "send_nonce t + length (concat ds) < 256 ^ 12"
    and ne: "[] \<notin> set ds"
    and ks: "lk_put ks = put_tunnel a dr" "lk_fin ks = fin_tunnel a" "lk_eof ks"
    and kr: "lk_put kr = put_writer" "lk_fin kr = fin_writer" "\<not> lk_eof kr"
  shows "carried a ks t kr u ds"
proof -
  have k: "send_key t \<noteq> None" using p unfolding paired_def by blast
  obtain t' out where s: "send_all a dr t ds = (Inr (), t', out)" "send_key t' = send_key t"
      "send_nonce t' \<le> send_nonce t + length (concat ds)"
      "puts (put_tunnel a dr) \<lparr> to_tun = t, to_wire = [], to_closed = False \<rparr> ds
          = Some \<lparr> to_tun = t', to_wire = out, to_closed = False \<rparr>"
    using tunnel_takes_all[OF ok k, of ds dr False] room by fastforce
  have lt: "send_nonce t' < 256 ^ 12" using s(3) room by linarith
  obtain fin where fin: "seal a t' [0x01, 0x00, 0x15] = (Inr fin, t'\<lparr>send_nonce := send_nonce t' + 1\<rparr>)"
    using seal_total[OF ok, of t' "[0x01, 0x00, 0x15]"] k s(2) lt by auto
  have l: "run_leg ks (new_leg (map Got ds @ [Got []]) \<lparr> to_tun = t, to_wire = [], to_closed = False \<rparr>)
      = \<lparr> lg_in = [], lg_sink = fin_tunnel a \<lparr> to_tun = t', to_wire = out, to_closed = False \<rparr>,
          lg_count = length (concat ds), lg_pending = 0, lg_state = Ended \<rparr>"
    using run_leg_puts[of ks _ ds _ "Got []" "[]" 0] s(4) ks ne by (simp add: new_leg_def ends_def)
  have wire: "to_wire (fin_tunnel a \<lparr> to_tun = t', to_wire = out, to_closed = False \<rparr>) = out @ fin"
    using fin k s(2) by (auto simp: fin_tunnel_def send_close_notify_def)
  obtain cs u1 where cs: "concat cs = concat ds" "paired t' u1"
    "\<And>k rest. recv_loop a pure_readexactly (length cs + k) u (out @ rest) =
        (let (bs, r) = recv_loop a pure_readexactly k u1 rest in (cs @ bs, r))"
    using recv_loop_send_all[OF ok p s(1)] by blast
  have r: "run_leg kr (new_leg (map Got cs @ [Stop]) (new_writer None))
      = \<lparr> lg_in = [], lg_sink = fin_writer ((new_writer None)\<lparr> wr_out := concat cs \<rparr>),
          lg_count = length (concat cs), lg_pending = 0, lg_state = Ended \<rparr>"
    using run_leg_puts[of kr _ cs _ Stop "[]" 0] writer_takes_all[of cs] kr by (simp add: new_leg_def ends_def)
  have arrives: "\<exists>n. let r = recv_loop a raw_readexactly n u s; m = run_leg kr (new_leg (tunnel_events r) (new_writer None))
      in fst (snd r) = Some EOFErr \<and> concat (snd (snd (snd r))) = rest
        \<and> lg_state m = Ended \<and> lg_count m = length (concat ds)
        \<and> lg_sink m = (new_writer None)\<lparr> wr_out := concat ds, wr_eof := True \<rparr>"
    if c: "concat s = (out @ fin) @ rest" for s rest
  proof -
    have "recv_loop a pure_readexactly (length cs + 1) u (concat s) =
        (cs, Some EOFErr, u1\<lparr>recv_nonce := recv_nonce u1 + 1\<rparr>, rest)"
      using recv_sealed(1)[OF ok cs(2) fin, of rest] cs(3)[of 1 "fin @ rest"] c by simp
    then obtain u' s' where l: "recv_loop a raw_readexactly (length cs + 1) u s = (cs, Some EOFErr, u', s')" "concat s' = rest"
      using raw.recv_loop_sim[of a "length cs + 1" u s]
      by (cases "recv_loop a raw_readexactly (length cs + 1) u s") auto
    have e: "tunnel_events (cs, Some EOFErr, u', s') = map Got cs @ [Stop]" by (simp add: tunnel_events_def)
    show ?thesis
      by (rule exI[of _ "length cs + 1"]) (simp only: l(1) Let_def e r, simp add: l(2) cs(1) fin_writer_def new_writer_def)
  qed
  show ?thesis
    unfolding carried_def Let_def l using arrives by (simp add: wire Let_def)
qed



end
