(* ===== verification/Dns_Session.thy ===== *)
theory Dns_Session
  imports Complex_Main Dns_Upstream "HOL-Library.Multiset"
begin

text \<open>
  The life of the tunnel under \<open>UdpUpstream\<close> and \<open>DotUpstream\<close> (\<open>core/dns/upstream.py\<close>): \<open>query\<close> with its
  semaphore and its retry, \<open>_ensure_ready\<close> under the set-up lock, \<open>_drop\<close>, and the reader task.  Queries and readers
  are tasks; a task is cut at its waits, and the pieces of all tasks interleave freely (some pieces that run without
  a wait in between are separate events as well, which only adds runs).  The pipeline inside is \<open>Dns_Upstream\<close>'s.
\<close>

section \<open>The state\<close>

datatype dns_error = Raised py_error | CancelledErr

text \<open>Where a query stands: before \<open>_ensure_ready\<close>, waiting for the lock, waiting for the pool, sending the address
  (and, for DoT, shaking hands) on a tunnel, about to send, and waiting for its future.\<close>

datatype query_stage = Begin | Queued | Acquiring | Opening nat | Ready | Waiting nat nat

record dns_query =
  dq_data :: bytes
  dq_again :: bool
  dq_stage :: query_stage

text \<open>\<open>ds_tasks\<close>: the reader tasks that are not done, and whether they are cancelled.  \<open>ds_open\<close>: the tunnels taken
  from the pool and not closed.  \<open>ds_lost\<close> is no field of the code: the tunnels nothing refers to any more.\<close>

record session =
  ds_pipe :: pipe
  ds_ready :: "nat option"
  ds_reader :: "nat option"
  ds_lock :: "nat option"
  ds_tasks :: "(nat, bool) odict"
  ds_open :: "nat list"
  ds_lost :: "nat list"
  ds_queries :: "(nat, dns_query) odict"
  ds_fresh :: nat
  ds_answers :: "(nat \<times> (dns_error + bytes)) list"

definition new_session :: session where
  "new_session = \<lparr> ds_pipe = new_pipe, ds_ready = None, ds_reader = None, ds_lock = None, ds_tasks = [], ds_open = [],
     ds_lost = [], ds_queries = [], ds_fresh = 0, ds_answers = [] \<rparr>"

text \<open>How the two classes differ: the number of queries in flight, the bytes on a new tunnel that count as sent, and the
  reader's loop.\<close>

record session_kind =
  sk_max :: nat
  sk_drain :: "pipe \<Rightarrow> (py_error + unit) \<times> pipe"

definition udp_kind :: session_kind where
  "udp_kind = \<lparr> sk_max = 64, sk_drain = (\<lambda>p. (Inr (), drain p)) \<rparr>"

definition dot_kind :: session_kind where
  "dot_kind = \<lparr> sk_max = 32, sk_drain = dot_drain \<rparr>"

section \<open>The steps\<close>

definition set_query :: "nat \<Rightarrow> dns_query \<Rightarrow> session \<Rightarrow> session" where
  "set_query q x s = s\<lparr> ds_queries := od_set q x (ds_queries s) \<rparr>"

definition set_stage :: "nat \<Rightarrow> dns_query \<Rightarrow> query_stage \<Rightarrow> session \<Rightarrow> session" where
  "set_stage q x st s = set_query q (x\<lparr> dq_stage := st \<rparr>) s"

definition is_ready :: "session \<Rightarrow> bool" where
  "is_ready s \<longleftrightarrow> ds_ready s \<noteq> None \<and> (case ds_reader s of None \<Rightarrow> False | Some r \<Rightarrow> od_mem r (ds_tasks s))"

definition close_one :: "nat \<Rightarrow> session \<Rightarrow> session" where
  "close_one t s = s\<lparr> ds_open := remove1 t (ds_open s) \<rparr>"

definition close_ready :: "session \<Rightarrow> session" where
  "close_ready s = (case ds_ready s of None \<Rightarrow> s | Some t \<Rightarrow> (close_one t s)\<lparr> ds_ready := None \<rparr>)"

text \<open>\<open>_drop\<close>\<close>

definition drop_session :: "session \<Rightarrow> session" where
  "drop_session s = (let s = close_ready s in
     s\<lparr> ds_tasks := (case ds_reader s of Some r \<Rightarrow> if od_mem r (ds_tasks s) then od_set r True (ds_tasks s) else ds_tasks s
                     | None \<Rightarrow> ds_tasks s),
        ds_reader := None \<rparr>)"

definition give_answer :: "nat \<Rightarrow> dns_error + bytes \<Rightarrow> session \<Rightarrow> session" where
  "give_answer q r s = s\<lparr> ds_queries := od_del q (ds_queries s), ds_answers := ds_answers s @ [(q, r)] \<rparr>"

text \<open>The \<open>except\<close> clause of \<open>query\<close>: drop, then the second attempt or the exception.\<close>

definition failed :: "nat \<Rightarrow> dns_query \<Rightarrow> dns_error \<Rightarrow> session \<Rightarrow> session" where
  "failed q x e s = (let s = drop_session s in
     if dq_again x then give_answer q (Inl e) s else set_query q (x\<lparr> dq_again := True, dq_stage := Begin \<rparr>) s)"

text \<open>An exception of an attempt; a timeout passes through.\<close>

definition raised :: "nat \<Rightarrow> dns_query \<Rightarrow> py_error \<Rightarrow> session \<Rightarrow> session" where
  "raised q x e s = (if e = TimeoutErr then give_answer q (Inl (Raised e)) s else failed q x (Raised e) s)"

definition unlock :: "session \<Rightarrow> session" where
  "unlock s = s\<lparr> ds_lock := None \<rparr>"

text \<open>Under the lock the test is made again.\<close>

definition locked :: "nat \<Rightarrow> dns_query \<Rightarrow> session \<Rightarrow> session" where
  "locked q x s = (if is_ready s then set_stage q x Ready s else (set_stage q x Acquiring s)\<lparr> ds_lock := Some q \<rparr>)"

datatype dns_event =
    Ask bytes
  | Look nat
  | Turn nat
  | Acquired nat bool
  | Opened nat "py_error + unit"
  | Sent nat bool
  | Wake nat
  | Interrupt nat
  | Chunk nat bytes
  | Broken nat
  | Ended nat
  | Stopped nat
  | Shut

definition pop_number :: "nat \<Rightarrow> session \<Rightarrow> session" where
  "pop_number tx s = s\<lparr> ds_pipe := (ds_pipe s)\<lparr> p_pending := od_del tx (p_pending (ds_pipe s)) \<rparr> \<rparr>"

text \<open>The end of a reader: its \<open>finally\<close> clause drops whatever tunnel is there.\<close>

definition reader_over :: "nat \<Rightarrow> session \<Rightarrow> session" where
  "reader_over r s = (let s = drop_session s in s\<lparr> ds_tasks := od_del r (ds_tasks s) \<rparr>)"

definition query_step :: "nat \<Rightarrow> dns_query \<Rightarrow> dns_event \<Rightarrow> session \<Rightarrow> session option" where
  "query_step q x e s =
     (case (e, dq_stage x) of
        (Look _, Begin) \<Rightarrow>
          Some (if is_ready s then set_stage q x Ready s
                else if ds_lock s = None then locked q x s else set_stage q x Queued s)
      | (Turn _, Queued) \<Rightarrow> if ds_lock s = None then Some (locked q x s) else None
      | (Acquired _ avail, Acquiring) \<Rightarrow>
          Some (if avail then (set_stage q x (Opening (ds_fresh s)) s)\<lparr> ds_open := ds_fresh s # ds_open s, ds_fresh := ds_fresh s + 1 \<rparr>
                else raised q x OSErr (unlock s))
      | (Opened _ outcome, Opening t) \<Rightarrow>
          Some (case outcome of Inr u \<Rightarrow> (set_stage q x Ready (unlock s))\<lparr> ds_ready := Some t, ds_reader := Some (ds_fresh s),
                     ds_tasks := od_set (ds_fresh s) False (ds_tasks s), ds_fresh := ds_fresh s + 1,
                     ds_pipe := (ds_pipe s)\<lparr> p_buf := [] \<rparr> \<rparr>
                | Inl e \<Rightarrow> raised q x e (unlock (close_one t s)))
      | (Sent _ ok, Ready) \<Rightarrow>
          Some (if ds_ready s = None then raised q x AttributeError s
                else case pipe_send ok (dq_data x) (ds_pipe s) of
                  (Inl e, p) \<Rightarrow> raised q x e (s\<lparr> ds_pipe := p \<rparr>)
                | (Inr (tx, f), p) \<Rightarrow> set_stage q x (Waiting tx f) (s\<lparr> ds_pipe := p \<rparr>))
      | (Wake _, Waiting tx f) \<Rightarrow>
          (case pipe_finish tx (take 2 (dq_data x)) f (ds_pipe s) of
             (Inr r, p) \<Rightarrow> Some (give_answer q (Inr r) (s\<lparr> ds_pipe := p \<rparr>))
           | (Inl e, p) \<Rightarrow> Some (raised q x e (s\<lparr> ds_pipe := p \<rparr>)))
      | (Interrupt _, Acquiring) \<Rightarrow> Some (failed q x CancelledErr (unlock s))
      | (Interrupt _, Opening t) \<Rightarrow> Some (failed q x CancelledErr (unlock (s\<lparr> ds_lost := t # ds_lost s \<rparr>)))
      | (Interrupt _, Waiting tx f) \<Rightarrow> Some (failed q x CancelledErr (pop_number tx s))
      | (Interrupt _, Queued) \<Rightarrow> Some (failed q x CancelledErr s)
      | _ \<Rightarrow> None)"

definition reader_step :: "session_kind \<Rightarrow> nat \<Rightarrow> bool \<Rightarrow> dns_event \<Rightarrow> session \<Rightarrow> session option" where
  "reader_step k r cancelled e s =
     (case e of
        Chunk _ c \<Rightarrow>
          if cancelled then None
          else (case sk_drain k (with_buf (p_buf (ds_pipe s) @ c) (ds_pipe s)) of
                  (Inr u, p) \<Rightarrow> Some (s\<lparr> ds_pipe := p \<rparr>)
                | (Inl e, p) \<Rightarrow> Some (reader_over r (s\<lparr> ds_pipe := reader_fail p \<rparr>)))
      | Broken _ \<Rightarrow> if cancelled then None else Some (reader_over r (s\<lparr> ds_pipe := reader_fail (ds_pipe s) \<rparr>))
      | Ended _ \<Rightarrow> if cancelled then None else Some (reader_over r s)
      | Stopped _ \<Rightarrow> if cancelled then Some (reader_over r s) else None
      | _ \<Rightarrow> None)"

definition dns_step :: "session_kind \<Rightarrow> dns_event \<Rightarrow> session \<Rightarrow> session option" where
  "dns_step k e s =
     (let on_query = (\<lambda>q. case od_get (ds_queries s) q of None \<Rightarrow> None | Some x \<Rightarrow> query_step q x e s);
          on_reader = (\<lambda>r. case od_get (ds_tasks s) r of None \<Rightarrow> None | Some c \<Rightarrow> reader_step k r c e s)
      in case e of
        Ask data \<Rightarrow>
          if 2 \<le> length data \<and> length (ds_queries s) < sk_max k
          then Some (set_query (ds_fresh s) \<lparr> dq_data = data, dq_again = False, dq_stage = Begin \<rparr> (s\<lparr> ds_fresh := ds_fresh s + 1 \<rparr>))
          else None
      | Look q \<Rightarrow> on_query q | Turn q \<Rightarrow> on_query q | Acquired q b \<Rightarrow> on_query q | Opened q b \<Rightarrow> on_query q
      | Sent q b \<Rightarrow> on_query q | Wake q \<Rightarrow> on_query q | Interrupt q \<Rightarrow> on_query q
      | Chunk r c \<Rightarrow> on_reader r | Broken r \<Rightarrow> on_reader r | Ended r \<Rightarrow> on_reader r | Stopped r \<Rightarrow> on_reader r
      | Shut \<Rightarrow> Some (drop_session s))"

inductive dns_reach :: "session_kind \<Rightarrow> session \<Rightarrow> bool" for k where
  dns_start: "dns_reach k new_session"
| dns_more: "dns_reach k s \<Longrightarrow> dns_step k e s = Some s' \<Longrightarrow> dns_reach k s'"

section \<open>Tunnels, readers and the lock\<close>

definition being_opened :: "session \<Rightarrow> nat list" where
  "being_opened s = (case ds_lock s of None \<Rightarrow> [] | Some q \<Rightarrow> (case od_get (ds_queries s) q of None \<Rightarrow> []
     | Some x \<Rightarrow> (case dq_stage x of Opening t \<Rightarrow> [t] | _ \<Rightarrow> [])))"

definition setting_up :: "dns_query \<Rightarrow> bool" where
  "setting_up x \<longleftrightarrow> (case dq_stage x of Acquiring \<Rightarrow> True | Opening t \<Rightarrow> True | _ \<Rightarrow> False)"

definition tunnels_ok :: "session \<Rightarrow> nat list \<Rightarrow> bool" where
  "tunnels_ok s op \<longleftrightarrow> (ds_ready s = None \<longleftrightarrow> ds_reader s = None)
     \<and> (\<forall>r. od_get (ds_tasks s) r = Some False \<longleftrightarrow> ds_reader s = Some r)
     \<and> (\<forall>r. od_mem r (ds_tasks s) \<longrightarrow> r < ds_fresh s)
     \<and> mset (ds_open s) = mset (case ds_ready s of None \<Rightarrow> [] | Some t \<Rightarrow> [t]) + mset op + mset (ds_lost s)
     \<and> distinct (ds_open s) \<and> (\<forall>t\<in>set (ds_open s). t < ds_fresh s)"

definition lock_ok :: "session \<Rightarrow> bool" where
  "lock_ok s \<longleftrightarrow> (\<forall>q x. od_get (ds_queries s) q = Some x \<longrightarrow> (setting_up x \<longleftrightarrow> ds_lock s = Some q))
     \<and> (\<forall>q. ds_lock s = Some q \<longrightarrow> od_mem q (ds_queries s)) \<and> (ds_lock s \<noteq> None \<longrightarrow> ds_ready s = None)"

lemma is_ready_iff: "tunnels_ok s op \<Longrightarrow> is_ready s \<longleftrightarrow> ds_ready s \<noteq> None"
  by (fastforce simp: is_ready_def tunnels_ok_def od_mem_get split: option.split)

lemma tunnels_drop: "tunnels_ok s op \<Longrightarrow> tunnels_ok (drop_session s) op"
  by (cases "ds_ready s"; cases "ds_reader s")
    (auto simp: tunnels_ok_def drop_session_def close_ready_def close_one_def Let_def od_mem_get dest: in_set_remove1)

lemma drop_frame [simp]:
  "ds_queries (drop_session s) = ds_queries s" "ds_lock (drop_session s) = ds_lock s" "ds_fresh (drop_session s) = ds_fresh s"
  "ds_pipe (drop_session s) = ds_pipe s" "ds_ready (drop_session s) = None" "ds_lost (drop_session s) = ds_lost s"
  by (simp_all add: drop_session_def close_ready_def close_one_def Let_def split: option.split)

lemma tunnels_frame [simp]:
  "tunnels_ok (set_query q x s) op = tunnels_ok s op" "tunnels_ok (set_stage q x st s) op = tunnels_ok s op"
  "tunnels_ok (give_answer q r s) op = tunnels_ok s op" "tunnels_ok (unlock s) op = tunnels_ok s op"
  "tunnels_ok (s\<lparr> ds_pipe := p \<rparr>) op = tunnels_ok s op" "tunnels_ok (s\<lparr> ds_lock := l \<rparr>) op = tunnels_ok s op"
  "tunnels_ok (pop_number n s) op = tunnels_ok s op"
  by (simp_all add: tunnels_ok_def set_query_def set_stage_def give_answer_def unlock_def pop_number_def)

lemma tunnels_failed: "tunnels_ok s op \<Longrightarrow> tunnels_ok (failed q x e s) op" "tunnels_ok s op \<Longrightarrow> tunnels_ok (raised q x e' s) op"
  by (simp_all add: failed_def raised_def Let_def tunnels_drop)

lemma tunnels_reader_over: "tunnels_ok s op \<Longrightarrow> od_get (ds_tasks s) r \<noteq> None \<Longrightarrow> tunnels_ok (reader_over r s) op"
  using tunnels_drop[of s op]
  by (auto simp: reader_over_def Let_def tunnels_ok_def od_mem_get split: if_splits)

text \<open>A query that changes its stage or leaves, with the lock as its new stage wants it.\<close>

lemma lock_change:
  assumes "lock_ok s" "od_get (ds_queries s) q = Some x"
    and "ds_queries s' = od_set q x' (ds_queries s) \<or> ds_queries s' = od_del q (ds_queries s) \<and> \<not> setting_up x'"
    and "ds_lock s' = (if setting_up x' then Some q else if setting_up x then None else ds_lock s)"
    and "setting_up x' \<longrightarrow> setting_up x \<or> ds_lock s = None"
    and "ds_lock s' \<noteq> None \<longrightarrow> ds_ready s' = None"
  shows "lock_ok s'" "being_opened s' = (if setting_up x' then (case dq_stage x' of Opening t \<Rightarrow> [t] | _ \<Rightarrow> [])
    else if setting_up x then [] else being_opened s)"
proof -
  have l: "setting_up y \<longleftrightarrow> ds_lock s = Some r" if "od_get (ds_queries s) r = Some y" for r y
    using assms(1) that by (simp add: lock_ok_def)
  have m: "ds_lock s = Some r \<Longrightarrow> od_mem r (ds_queries s)" for r using assms(1) by (simp add: lock_ok_def)
  show "lock_ok s'"
    using assms(3-6) l[OF assms(2)] l m unfolding lock_ok_def od_mem_get
    by (auto split: if_splits)
  show "being_opened s' = (if setting_up x' then (case dq_stage x' of Opening t \<Rightarrow> [t] | _ \<Rightarrow> [])
    else if setting_up x then [] else being_opened s)"
    using assms(3,4) l[OF assms(2)] by (auto simp: being_opened_def split: option.splits)
qed

lemma failed_queries:
  "ds_queries (failed q x e s) = od_set q (x\<lparr> dq_again := True, dq_stage := Begin \<rparr>) (ds_queries s)
    \<or> ds_queries (failed q x e s) = od_del q (ds_queries s) \<and> \<not> setting_up (x\<lparr> dq_again := True, dq_stage := Begin \<rparr>)"
  "ds_queries (raised q x e' s) = od_set q (x\<lparr> dq_again := True, dq_stage := Begin \<rparr>) (ds_queries s)
    \<or> ds_queries (raised q x e' s) = od_del q (ds_queries s) \<and> \<not> setting_up (x\<lparr> dq_again := True, dq_stage := Begin \<rparr>)"
  "ds_lock (failed q x e s) = ds_lock s" "ds_lock (raised q x e' s) = ds_lock s"
  "ds_ready s = None \<Longrightarrow> ds_ready (failed q x e s) = None" "ds_ready s = None \<Longrightarrow> ds_ready (raised q x e' s) = None"
  "ds_fresh (failed q x e s) = ds_fresh s" "ds_fresh (raised q x e' s) = ds_fresh s"
  by (auto simp: failed_def raised_def Let_def give_answer_def set_query_def setting_up_def)

lemma query_step_tunnels:
  assumes tun: "tunnels_ok s (being_opened s)" and lock: "lock_ok s" and x: "od_get (ds_queries s) q = Some x"
    and step: "query_step q x e s = Some s'"
  shows "tunnels_ok s' (being_opened s') \<and> lock_ok s'"
proof -
  have l: "setting_up x \<longleftrightarrow> ds_lock s = Some q" using lock x by (simp add: lock_ok_def)
  have r: "ds_lock s \<noteq> None \<Longrightarrow> ds_ready s = None" using lock by (simp add: lock_ok_def)
  have got: "tunnels_ok s (being_opened s) \<Longrightarrow> is_ready s \<Longrightarrow> ds_lock s = None"
    using r is_ready_iff by blast
  note change = lock_change[OF lock x]
  let ?b = "x\<lparr> dq_again := True, dq_stage := Begin \<rparr>"
  have nb: "\<not> setting_up ?b" by (simp add: setting_up_def)
  have go: "lock_ok (locked q x s) \<and> tunnels_ok (locked q x s) (being_opened (locked q x s))"
    if "\<not> setting_up x" "ds_lock s = None"
  proof (cases "is_ready s")
    case True
    have "lock_ok (set_stage q x Ready s)" "being_opened (set_stage q x Ready s) = being_opened s"
      using change[of "set_stage q x Ready s" "x\<lparr> dq_stage := Ready \<rparr>"] that
      by (simp_all add: set_stage_def set_query_def setting_up_def)
    then show ?thesis using True tun by (simp add: locked_def)
  next
    case False
    let ?s = "(set_stage q x Acquiring s)\<lparr> ds_lock := Some q \<rparr>"
    have "lock_ok ?s" "being_opened ?s = []"
      using change[of ?s "x\<lparr> dq_stage := Acquiring \<rparr>"] that is_ready_iff[OF tun] False
      by (simp_all add: set_stage_def set_query_def setting_up_def)
    moreover have "being_opened s = []" using that by (simp add: being_opened_def)
    ultimately show ?thesis using False tun by (simp add: locked_def)
  qed
  have fail: "tunnels_ok s' (being_opened s') \<and> lock_ok s'"
    if "s' = failed q x e1 s1 \<or> s' = raised q x e2 s1" "ds_queries s1 = ds_queries s"
      "ds_lock s1 = (if setting_up x then None else ds_lock s)" "ds_ready s1 = ds_ready s"
      "tunnels_ok s1 (if setting_up x then [] else being_opened s)" for e1 e2 s1
  proof -
    have "lock_ok s' \<and> being_opened s' = (if setting_up x then [] else being_opened s)"
      using change[of s' ?b] that nb r failed_queries(1)[of q x e1 s1] failed_queries(2)[of q x e2 s1]
        failed_queries(3)[of q x e1 s1] failed_queries(4)[of q x e2 s1] failed_queries(5)[of s1 q x e1] failed_queries(6)[of s1 q x e2]
      by (auto split: if_splits)
    then show ?thesis using that(1,5) tunnels_failed by auto
  qed
  show ?thesis
  proof (cases "dq_stage x")
    case Begin
    then have "\<not> setting_up x" by (simp add: setting_up_def)
    then have stays: "tunnels_ok s' (being_opened s') \<and> lock_ok s'" if "s' = set_stage q x st s" "st = Ready \<or> st = Queued" for st
      using change[of s' "x\<lparr> dq_stage := st \<rparr>"] that r tun
      by (auto simp: set_stage_def set_query_def setting_up_def tunnels_frame(1)[unfolded set_query_def])
    consider "s' = set_stage q x Ready s" | "ds_lock s = None" "s' = locked q x s" | "s' = set_stage q x Queued s"
      using step Begin by (auto simp: query_step_def split: dns_event.splits if_splits)
    then show ?thesis by cases (use stays go \<open>\<not> setting_up x\<close> in auto)
  next
    case Queued
    then have n: "\<not> setting_up x" by (simp add: setting_up_def)
    consider "ds_lock s = None" "s' = locked q x s" | "s' = failed q x CancelledErr s"
      using step Queued by (auto simp: query_step_def split: dns_event.splits if_splits)
    then show ?thesis
    proof cases
      case 1
      then show ?thesis using go n by simp
    next
      case 2
      then show ?thesis using fail[of CancelledErr s undefined] n tun by simp
    qed
  next
    case Acquiring
    then have su: "setting_up x" and op: "being_opened s = []" using l x by (simp_all add: setting_up_def being_opened_def)
    then have rn: "ds_ready s = None" using l r by blast
    consider "s' = raised q x OSErr (unlock s) \<or> s' = failed q x CancelledErr (unlock s)"
      | "s' = (set_stage q x (Opening (ds_fresh s)) s)\<lparr> ds_open := ds_fresh s # ds_open s, ds_fresh := ds_fresh s + 1 \<rparr>"
      using step Acquiring by (auto simp: query_step_def split: dns_event.splits if_splits)
    then show ?thesis
    proof cases
      case 1
      then show ?thesis using fail[of CancelledErr "unlock s" OSErr] su op tun by (auto simp: unlock_def)
    next
      case 2
      then have "lock_ok s'" "being_opened s' = [ds_fresh s]"
        using change[of s' "x\<lparr> dq_stage := Opening (ds_fresh s) \<rparr>"] su l rn by (simp_all add: set_stage_def set_query_def setting_up_def)
      then show ?thesis using tun 2 op rn
        by (auto simp: tunnels_ok_def set_stage_def set_query_def less_Suc_eq)
    qed
  next
    case (Opening t)
    then have su: "setting_up x" and op: "being_opened s = [t]" using l x by (simp_all add: setting_up_def being_opened_def)
    then have rn: "ds_ready s = None" using l r by blast
    let ?ok = "(set_stage q x Ready (unlock s))\<lparr> ds_ready := Some t, ds_reader := Some (ds_fresh s),
       ds_tasks := od_set (ds_fresh s) False (ds_tasks s), ds_fresh := ds_fresh s + 1, ds_pipe := (ds_pipe s)\<lparr> p_buf := [] \<rparr> \<rparr>"
    consider e where "s' = raised q x e (unlock (close_one t s))" | "s' = ?ok"
      | "s' = failed q x CancelledErr (unlock (s\<lparr> ds_lost := t # ds_lost s \<rparr>))"
      using step Opening by (auto simp: query_step_def split: dns_event.splits sum.splits)
    then show ?thesis
    proof cases
      case (1 e)
      have "tunnels_ok (close_one t s) []" using tun op rn by (auto simp: tunnels_ok_def close_one_def dest: in_set_remove1)
      then show ?thesis using fail[of undefined "unlock (close_one t s)" e] 1 su by (simp add: unlock_def close_one_def)
    next
      case 2
      have "lock_ok s'" "being_opened s' = []"
        using change[of s' "x\<lparr> dq_stage := Ready \<rparr>"] su 2 by (simp_all add: set_stage_def set_query_def setting_up_def unlock_def)
      moreover have "tunnels_ok s' []"
        using tun op rn unfolding 2 by (auto simp: tunnels_ok_def set_stage_def set_query_def unlock_def od_mem_get less_Suc_eq)
      ultimately show ?thesis by simp
    next
      case 3
      have "tunnels_ok (s\<lparr> ds_lost := t # ds_lost s \<rparr>) []" using tun op rn by (auto simp: tunnels_ok_def)
      then show ?thesis using fail[of CancelledErr "unlock (s\<lparr> ds_lost := t # ds_lost s \<rparr>)" undefined] 3 su by (simp add: unlock_def)
    qed
  next
    case Ready
    then have n: "\<not> setting_up x" by (simp add: setting_up_def)
    consider e s1 where "s' = raised q x e s1" "s1 = s \<or> (\<exists>p. s1 = s\<lparr> ds_pipe := p \<rparr>)"
      | tx f p where "s' = set_stage q x (Waiting tx f) (s\<lparr> ds_pipe := p \<rparr>)"
      using step Ready by (auto simp: query_step_def split: dns_event.splits if_splits sum.splits prod.splits)
    then show ?thesis
    proof cases
      case (1 e s1)
      then show ?thesis using fail[of undefined s1 e] n tun by auto
    next
      case (2 tx f p)
      then have "lock_ok s' \<and> being_opened s' = being_opened s"
        using change[of s' "x\<lparr> dq_stage := Waiting tx f \<rparr>"] n r by (simp add: set_stage_def set_query_def setting_up_def)
      then show ?thesis using tun 2 by simp
    qed
  next
    case (Waiting tx f)
    then have n: "\<not> setting_up x" by (simp add: setting_up_def)
    consider e s1 where "s' = raised q x e s1" "\<exists>p. s1 = s\<lparr> ds_pipe := p \<rparr>" | r p where "s' = give_answer q (Inr r) (s\<lparr> ds_pipe := p \<rparr>)"
      | "s' = failed q x CancelledErr (pop_number tx s)"
      using step Waiting by (auto simp: query_step_def split: dns_event.splits if_splits sum.splits prod.splits)
    then show ?thesis
    proof cases
      case (1 e s1)
      then show ?thesis using fail[of undefined s1 e] n tun by auto
    next
      case (2 y p)
      then have "lock_ok s' \<and> being_opened s' = being_opened s"
        using change[of s' x] n r by (simp add: give_answer_def)
      then show ?thesis using tun 2 by simp
    next
      case 3
      then show ?thesis using fail[of CancelledErr "pop_number tx s" undefined] n tun by (simp add: pop_number_def)
    qed
  qed
qed

section \<open>Queries in flight and their numbers\<close>

definition queries_ok :: "session_kind \<Rightarrow> session \<Rightarrow> bool" where
  "queries_ok k s \<longleftrightarrow> od_ok (ds_queries s) \<and> (\<forall>q. od_mem q (ds_queries s) \<longrightarrow> q < ds_fresh s) \<and> length (ds_queries s) \<le> sk_max k
     \<and> number_ok (p_next (ds_pipe s))
     \<and> (\<forall>tx. od_mem tx (p_pending (ds_pipe s)) \<longrightarrow> (\<exists>q x f. od_get (ds_queries s) q = Some x \<and> dq_stage x = Waiting tx f))"

lemma od_mem_del [simp]: "od_mem k (od_del j d) \<longleftrightarrow> k \<noteq> j \<and> od_mem k d"
  by (simp add: od_mem_get)

lemma queries_change:
  assumes "queries_ok k s" "od_get (ds_queries s) q = Some x"
    and "ds_queries s' = od_set q x' (ds_queries s) \<or> ds_queries s' = od_del q (ds_queries s)"
    and "ds_fresh s \<le> ds_fresh s'" "number_ok (p_next (ds_pipe s'))"
    and "\<And>tx. od_mem tx (p_pending (ds_pipe s')) \<Longrightarrow>
      od_mem tx (p_pending (ds_pipe s)) \<and> (\<forall>f. dq_stage x \<noteq> Waiting tx f)
      \<or> ds_queries s' = od_set q x' (ds_queries s) \<and> (\<exists>f. dq_stage x' = Waiting tx f)"
  shows "queries_ok k s'"
proof -
  have "od_ok (ds_queries s')" "length (ds_queries s') \<le> sk_max k"
    using assms(1-3) length_od_del_le[of q "ds_queries s"] by (auto simp: queries_ok_def length_od_set od_mem_get)
  moreover have "\<forall>r. od_mem r (ds_queries s') \<longrightarrow> r < ds_fresh s'"
    using assms(1-4) by (fastforce simp: queries_ok_def od_mem_get split: if_splits)
  moreover have "\<exists>r y f. od_get (ds_queries s') r = Some y \<and> dq_stage y = Waiting tx f"
    if "od_mem tx (p_pending (ds_pipe s'))" for tx
    using assms(6)[OF that]
  proof
    assume old: "od_mem tx (p_pending (ds_pipe s)) \<and> (\<forall>f. dq_stage x \<noteq> Waiting tx f)"
    then obtain r y f where "od_get (ds_queries s) r = Some y" "dq_stage y = Waiting tx f" using assms(1) by (auto simp: queries_ok_def)
    moreover have "r \<noteq> q" using old calculation assms(2) by auto
    ultimately show ?thesis using assms(3) by (intro exI[of _ r] exI[of _ y] exI[of _ f]) auto
  qed auto
  ultimately show ?thesis using assms(5) by (auto simp: queries_ok_def)
qed

lemma pipe_send_pending:
  assumes "pipe_send ok data p = (r, p')" "number_ok (p_next p)"
  shows "number_ok (p_next p')" "od_mem tx (p_pending p') \<Longrightarrow> od_mem tx (p_pending p) \<or> (\<exists>f. r = Inr (tx, f))"
  using assms(1) allocate_number[OF assms(2), of "p_pending p"]
  by (cases rule: pipe_send_cases; auto simp: od_mem_get split: if_splits)+

lemma query_step_queries:
  assumes ok: "queries_ok k s" and x: "od_get (ds_queries s) q = Some x" and step: "query_step q x e s = Some s'"
  shows "queries_ok k s'"
proof -
  note change = queries_change[OF ok x]
  have n: "number_ok (p_next (ds_pipe s))" using ok by (simp add: queries_ok_def)
  let ?b = "x\<lparr> dq_again := True, dq_stage := Begin \<rparr>"
  have fail: "queries_ok k s'"
    if "s' = failed q x e1 s1 \<or> s' = raised q x e2 s1" "ds_queries s1 = ds_queries s" "ds_fresh s1 = ds_fresh s"
      "number_ok (p_next (ds_pipe s1))"
      "\<And>tx. od_mem tx (p_pending (ds_pipe s1)) \<Longrightarrow> od_mem tx (p_pending (ds_pipe s)) \<and> (\<forall>f. dq_stage x \<noteq> Waiting tx f)" for e1 e2 s1
  proof -
    have "ds_pipe s' = ds_pipe s1" using that(1) by (auto simp: failed_def raised_def Let_def give_answer_def set_query_def)
    then show ?thesis
      using change[of s' ?b] that failed_queries(1)[of q x e1 s1] failed_queries(2)[of q x e2 s1]
        failed_queries(7)[of q x e1 s1] failed_queries(8)[of q x e2 s1] by auto
  qed
  show ?thesis
  proof (cases "\<exists>tx f. dq_stage x = Waiting tx f")
    case True
    then obtain tx f where w: "dq_stage x = Waiting tx f" by blast
    consider e s1 where "s' = raised q x e s1" "s1 = s\<lparr> ds_pipe := (ds_pipe s)\<lparr> p_pending := od_del tx (p_pending (ds_pipe s)) \<rparr> \<rparr>"
      | r where "s' = give_answer q (Inr r) (s\<lparr> ds_pipe := (ds_pipe s)\<lparr> p_pending := od_del tx (p_pending (ds_pipe s)) \<rparr> \<rparr>)"
      | "s' = failed q x CancelledErr (pop_number tx s)"
      using step w by (auto simp: query_step_def pipe_finish_def split: dns_event.splits if_splits sum.splits option.splits)
    then show ?thesis
    proof cases
      case (1 e s1)
      then show ?thesis using fail[of undefined s1 e] n w by simp
    next
      case (2 r)
      then show ?thesis using change[of s' x] n w by (simp add: give_answer_def)
    next
      case 3
      then show ?thesis using fail[of CancelledErr "pop_number tx s" undefined] n w by (simp add: pop_number_def)
    qed
  next
    case nw: False
    show ?thesis
    proof (cases "dq_stage x = Ready")
      case True
      consider "s' = raised q x AttributeError s"
        | ok e p where "pipe_send ok (dq_data x) (ds_pipe s) = (Inl e, p)" "s' = raised q x e (s\<lparr> ds_pipe := p \<rparr>)"
        | ok tx f p where "pipe_send ok (dq_data x) (ds_pipe s) = (Inr (tx, f), p)" "s' = set_stage q x (Waiting tx f) (s\<lparr> ds_pipe := p \<rparr>)"
        using step True by (auto simp: query_step_def split: dns_event.splits if_splits sum.splits prod.splits)
      then show ?thesis
      proof cases
        case 1
        then show ?thesis using fail[of undefined s AttributeError] n nw by auto
      next
        case (2 ok e p)
        then show ?thesis using fail[of undefined "s\<lparr> ds_pipe := p \<rparr>" e] nw pipe_send_pending[OF 2(1) n] by auto
      next
        case (3 ok tx f p)
        then show ?thesis using change[of s' "x\<lparr> dq_stage := Waiting tx f \<rparr>"] nw pipe_send_pending[OF 3(1) n]
          by (auto simp: set_stage_def set_query_def)
      qed
    next
      case False
      have same: "queries_ok k s'" if "ds_queries s' = od_set q x' (ds_queries s)" "ds_fresh s \<le> ds_fresh s'"
          "p_pending (ds_pipe s') = p_pending (ds_pipe s)" "p_next (ds_pipe s') = p_next (ds_pipe s)" for x'
        using change[of s' x'] that n nw by auto
      have fail': "queries_ok k s'" if "s' = failed q x e1 s1 \<or> s' = raised q x e2 s1" "ds_queries s1 = ds_queries s"
          "ds_fresh s1 = ds_fresh s" "ds_pipe s1 = ds_pipe s" for e1 e2 s1
        using fail[of e1 s1 e2] that n nw by auto
      show ?thesis
      proof (cases "dq_stage x")
        case Begin
        then show ?thesis using step same
          by (auto simp: query_step_def locked_def set_stage_def set_query_def split: dns_event.splits if_splits)
      next
        case Queued
        then show ?thesis using step same fail'[of CancelledErr s undefined]
          by (auto simp: query_step_def locked_def set_stage_def set_query_def split: dns_event.splits if_splits)
      next
        case Acquiring
        then show ?thesis using step same fail'[of CancelledErr "unlock s" OSErr]
          by (auto simp: query_step_def set_stage_def set_query_def unlock_def split: dns_event.splits if_splits)
      next
        case (Opening t)
        then show ?thesis using step same fail'[of CancelledErr "unlock (s\<lparr> ds_lost := t # ds_lost s \<rparr>)" undefined]
            fail'[of undefined "unlock (close_one t s)"]
          by (auto simp: query_step_def set_stage_def set_query_def unlock_def close_one_def split: dns_event.splits sum.splits)
      qed (use nw False in auto)
    qed
  qed
qed

section \<open>All runs\<close>

definition kind_ok :: "session_kind \<Rightarrow> bool" where
  "kind_ok k \<longleftrightarrow> sk_max k < 65535 \<and> (\<forall>p u p'. sk_drain k p = (u, p') \<longrightarrow> p_next p' = p_next p
     \<and> (\<forall>tx. od_mem tx (p_pending p') \<longrightarrow> od_mem tx (p_pending p)))"

lemma deliver_pending: "p_next (deliver r p) = p_next p \<and> (od_mem tx (p_pending (deliver r p)) \<longrightarrow> od_mem tx (p_pending p))"
  by (auto simp: deliver_def Let_def split: option.splits prod.splits)

lemma drain_pending: "p_next (drain p) = p_next p \<and> (od_mem tx (p_pending (drain p)) \<longrightarrow> od_mem tx (p_pending p))"
proof (induction p rule: drain.induct)
  case (1 p)
  show ?case
  proof (cases "length (p_buf p) < 2 \<or> length (p_buf p) < 2 + from_be (take 2 (p_buf p))")
    case True
    then show ?thesis by (subst (1 2) drain.simps) (auto simp: Let_def)
  next
    case False
    then show ?thesis using 1[OF _ refl]
        deliver_pending[of "slice 2 (2 + from_be (take 2 (p_buf p))) (p_buf p)" "p\<lparr> p_buf := drop (2 + from_be (take 2 (p_buf p))) (p_buf p) \<rparr>" tx]
      by (subst (1 2) drain.simps) (auto simp: Let_def)
  qed
qed

lemma dot_drain_pending:
  "p_next (snd (dot_drain p)) = p_next p \<and> (od_mem tx (p_pending (snd (dot_drain p))) \<longrightarrow> od_mem tx (p_pending p))"
proof (induction p rule: dot_drain.induct)
  case (1 p)
  show ?case
  proof (cases "length (p_buf p) < 2 \<or> max_response_bytes < from_be (take 2 (p_buf p)) \<or> length (p_buf p) < 2 + from_be (take 2 (p_buf p))")
    case True
    then show ?thesis by (subst (1 2) dot_drain.simps) (auto simp: Let_def)
  next
    case False
    then show ?thesis using 1[OF _ refl]
        deliver_pending[of "slice 2 (2 + from_be (take 2 (p_buf p))) (p_buf p)" "p\<lparr> p_buf := drop (2 + from_be (take 2 (p_buf p))) (p_buf p) \<rparr>" tx]
      by (subst (1 2) dot_drain.simps) (auto simp: Let_def)
  qed
qed

lemma kinds_ok: "kind_ok udp_kind" "kind_ok dot_kind"
proof -
  show "kind_ok udp_kind" using drain_pending by (simp add: kind_ok_def udp_kind_def)
  have "p_next p' = p_next p \<and> (\<forall>tx. od_mem tx (p_pending p') \<longrightarrow> od_mem tx (p_pending p))" if "dot_drain p = (u, p')" for p u p'
    using dot_drain_pending[of p] that by simp
  then show "kind_ok dot_kind" by (simp add: kind_ok_def dot_kind_def)
qed

definition session_ok :: "session_kind \<Rightarrow> session \<Rightarrow> bool" where
  "session_ok k s \<longleftrightarrow> tunnels_ok s (being_opened s) \<and> lock_ok s \<and> queries_ok k s"

lemma reader_over_frame: "ds_queries (reader_over r s) = ds_queries s" "ds_lock (reader_over r s) = ds_lock s"
  "ds_fresh (reader_over r s) = ds_fresh s" "ds_pipe (reader_over r s) = ds_pipe s" "ds_ready (reader_over r s) = None"
  by (simp_all add: reader_over_def Let_def)

lemma being_opened_cong: "ds_queries s' = ds_queries s \<Longrightarrow> ds_lock s' = ds_lock s \<Longrightarrow> being_opened s' = being_opened s"
  unfolding being_opened_def by (simp only:)

lemma reader_over_ok: "session_ok k s \<Longrightarrow> od_get (ds_tasks s) r \<noteq> None \<Longrightarrow> session_ok k (reader_over r s)"
  using tunnels_reader_over[of s "being_opened s" r] reader_over_frame[of r s] being_opened_cong[of "reader_over r s" s]
  by (auto simp: session_ok_def lock_ok_def queries_ok_def)

lemma with_pipe_ok:
  assumes "session_ok k s" "p_next p = p_next (ds_pipe s)"
    and "\<And>tx. od_mem tx (p_pending p) \<Longrightarrow> od_mem tx (p_pending (ds_pipe s))"
  shows "session_ok k (s\<lparr> ds_pipe := p \<rparr>)"
  using assms being_opened_cong[of "s\<lparr> ds_pipe := p \<rparr>" s] by (auto simp: session_ok_def lock_ok_def queries_ok_def)

lemma reader_step_ok:
  assumes "kind_ok k" "session_ok k s" "od_get (ds_tasks s) r = Some c" "reader_step k r c e s = Some s'"
  shows "session_ok k s'"
proof -
  have f: "session_ok k (reader_over r (s\<lparr> ds_pipe := reader_fail p \<rparr>))" if "p_next p = p_next (ds_pipe s)" for p
    using assms(2,3) that by (intro reader_over_ok with_pipe_ok) (simp_all add: reader_fail_def)
  have d: "p_next p = p_next (ds_pipe s) \<and> (\<forall>tx. od_mem tx (p_pending p) \<longrightarrow> od_mem tx (p_pending (ds_pipe s)))"
    if "sk_drain k (with_buf b (ds_pipe s)) = (u, p)" for b u p
    using assms(1) that unfolding kind_ok_def by (fastforce simp: with_buf_def)
  show ?thesis
    using assms(2-4) f d reader_over_ok[OF assms(2), of r] with_pipe_ok[OF assms(2)]
    by (auto simp: reader_step_def split: dns_event.splits if_splits prod.splits sum.splits)
qed

lemma dns_step_cases:
  assumes "dns_step k e s = Some s'" "\<forall>data. e \<noteq> Ask data" "e \<noteq> Shut"
  shows "(\<exists>q x. od_get (ds_queries s) q = Some x \<and> query_step q x e s = Some s')
    \<or> (\<exists>r c. od_get (ds_tasks s) r = Some c \<and> reader_step k r c e s = Some s')"
  using assms by (cases e; force simp: dns_step_def split: option.splits)

lemma dns_step_ok:
  assumes "kind_ok k" "session_ok k s" "dns_step k e s = Some s'"
  shows "session_ok k s'"
proof (cases "\<exists>data. e = Ask data")
  case False
  show ?thesis
  proof (cases "e = Shut")
    case True
    then have "s' = drop_session s" using assms(3) by (simp add: dns_step_def)
    then show ?thesis using assms(2) tunnels_drop[of s "being_opened s"] being_opened_cong[of s' s]
      by (auto simp: session_ok_def lock_ok_def queries_ok_def)
  next
    case ns: False
    show ?thesis
    using dns_step_cases[OF assms(3)] False ns assms(2) query_step_tunnels[of s _ _ e s'] query_step_queries[of k s _ _ e s']
      reader_step_ok[OF assms(1,2), of _ _ e s']
    unfolding session_ok_def by blast
  qed
next
  case True
  then obtain data where s': "length (ds_queries s) < sk_max k"
      "s' = set_query (ds_fresh s) \<lparr> dq_data = data, dq_again = False, dq_stage = Begin \<rparr> (s\<lparr> ds_fresh := ds_fresh s + 1 \<rparr>)"
    using assms(3) by (auto simp: dns_step_def split: if_splits)
  have new: "od_get (ds_queries s) (ds_fresh s) = None" using assms(2) by (force simp: session_ok_def queries_ok_def od_mem_get)
  have b: "being_opened s' = being_opened s" using new s'(2)
    by (auto simp: being_opened_def set_query_def split: option.split)
  have "tunnels_ok s' (being_opened s)" using assms(2) s'(2)
    by (auto simp: session_ok_def tunnels_ok_def set_query_def less_Suc_eq)
  moreover have "lock_ok s'" using assms(2) s'(2) new
    by (auto simp: session_ok_def lock_ok_def set_query_def setting_up_def od_mem_get split: if_splits)
  moreover have "queries_ok k s'" using assms(2) s' new
    unfolding session_ok_def queries_ok_def
    by (auto simp: set_query_def length_od_set od_mem_get less_Suc_eq split: if_splits) (metis option.distinct(1))+
  ultimately show ?thesis using b by (simp add: session_ok_def)
qed

lemma dns_reach_ok: "dns_reach k s \<Longrightarrow> kind_ok k \<Longrightarrow> session_ok k s"
proof (induction rule: dns_reach.induct)
  case dns_start
  then show ?case
    by (simp add: session_ok_def new_session_def tunnels_ok_def lock_ok_def queries_ok_def being_opened_def new_pipe_def number_ok_def)
qed (auto intro: dns_step_ok)

text \<open>C17: However the queries of a DNS upstream, their failures, retries and cancellations and its readers interleave:
  at most one query sets up a tunnel, and only when none is ready; every tunnel taken from the pool and not closed is the
  ready one, the one being set up, or one whose set-up was cancelled; a ready tunnel has exactly one reader that is not
  cancelled and otherwise none has; the queries in flight stay within the limit and the transaction numbers never run out.\<close>

theorem dns_session_sound:
  assumes "dns_reach k s" "k \<in> {udp_kind, dot_kind}"
  shows "(\<forall>q x. od_get (ds_queries s) q = Some x \<and> setting_up x \<longrightarrow> ds_lock s = Some q \<and> ds_ready s = None)
    \<and> distinct (ds_open s)
    \<and> mset (ds_open s) = mset (case ds_ready s of None \<Rightarrow> [] | Some t \<Rightarrow> [t]) + mset (being_opened s) + mset (ds_lost s)
    \<and> {r. od_get (ds_tasks s) r = Some False} = (if ds_ready s = None then {} else {the (ds_reader s)})
    \<and> length (ds_queries s) \<le> sk_max k
    \<and> (\<exists>tx. fst (allocate_tx (p_next (ds_pipe s)) (p_pending (ds_pipe s))) = Inr tx)"
proof -
  have kind: "kind_ok k" using assms(2) kinds_ok by auto
  have ok: "session_ok k s" by (rule dns_reach_ok[OF assms(1) kind])
  have n: "number_ok (p_next (ds_pipe s))" using ok by (simp add: session_ok_def queries_ok_def)
  have numbers: "\<exists>tx. fst (allocate_tx (p_next (ds_pipe s)) (p_pending (ds_pipe s))) = Inr tx"
  proof (rule ccontr)
    assume "\<nexists>tx. fst (allocate_tx (p_next (ds_pipe s)) (p_pending (ds_pipe s))) = Inr tx"
    then obtain e where "fst (allocate_tx (p_next (ds_pipe s)) (p_pending (ds_pipe s))) = Inl e" by (metis sum.exhaust)
    then have all: "number_ok t \<Longrightarrow> od_mem t (p_pending (ds_pipe s))" for t
      using allocate_loop_ok[OF n, of "0x10000" "p_pending (ds_pipe s)"] numbers_covered[OF n, of t]
      unfolding allocate_tx_def by metis
    define tx_of :: "dns_query \<Rightarrow> nat" where "tx_of x = (case dq_stage x of Waiting tx f \<Rightarrow> tx | _ \<Rightarrow> 0)" for x
    have "{1..65535} \<subseteq> (\<lambda>(q, x). tx_of x) ` set (ds_queries s)"
    proof
      fix t :: nat assume "t \<in> {1..65535}"
      then have "od_mem t (p_pending (ds_pipe s))" using all by (simp add: number_ok_def)
      then obtain q x f where "od_get (ds_queries s) q = Some x" "dq_stage x = Waiting t f"
        using ok by (auto simp: session_ok_def queries_ok_def)
      then show "t \<in> (\<lambda>(q, x). tx_of x) ` set (ds_queries s)"
        by (intro rev_image_eqI[of "(q, x)"]) (auto simp: tx_of_def od_get_def dest: map_of_SomeD)
    qed
    then have "65535 \<le> card ((\<lambda>(q, x). tx_of x) ` set (ds_queries s))"
      using card_mono[of "(\<lambda>(q, x). tx_of x) ` set (ds_queries s)" "{1..65535 :: nat}"] by simp
    also have "\<dots> \<le> length (ds_queries s)" using card_image_le card_length le_trans by blast
    also have "\<dots> < 65535" using ok kind by (simp add: session_ok_def queries_ok_def kind_ok_def)
    finally show False by simp
  qed
  have "{r. od_get (ds_tasks s) r = Some False} = (if ds_ready s = None then {} else {the (ds_reader s)})"
    using ok by (auto simp: session_ok_def tunnels_ok_def)
  then show ?thesis using ok numbers by (auto simp: session_ok_def tunnels_ok_def lock_ok_def queries_ok_def)
qed

definition dns_exec :: "session_kind \<Rightarrow> dns_event list \<Rightarrow> session \<Rightarrow> session option" where
  "dns_exec k es s = fold (\<lambda>e r. Option.bind r (dns_step k e)) es (Some s)"

lemma dns_exec_reach: "dns_exec k es new_session = Some s \<Longrightarrow> dns_reach k s"
proof (induction es arbitrary: s rule: rev_induct)
  case (snoc e es)
  then show ?case by (auto simp: dns_exec_def bind_eq_Some_conv intro: dns_more)
qed (simp add: dns_exec_def dns_start)

lemmas exec_simps = dns_exec_def dns_step_def query_step_def reader_step_def set_stage_def set_query_def locked_def is_ready_def
  raised_def failed_def give_answer_def unlock_def drop_session_def close_ready_def close_one_def reader_over_def new_session_def
  new_pipe_def udp_kind_def pipe_send_def allocate_free next_number_def pack_be_def od_get_def od_del_def Let_def

definition opened_events :: "dns_event list" where
  "opened_events = [Ask [1, 1, 0], Look 0, Acquired 0 True, Opened 0 (Inr ())]"

theorem dns_session_sound_witness:
  "\<exists>s. dns_exec udp_kind opened_events new_session = Some s \<and> ds_ready s = Some 1 \<and> ds_open s = [1]
    \<and> {r. od_get (ds_tasks s) r = Some False} = {2}"
proof -
  obtain s where s: "dns_exec udp_kind opened_events new_session = Some s" "ds_ready s = Some 1" "ds_reader s = Some 2" "ds_open s = [1]"
    by (simp add: opened_events_def exec_simps)
  show ?thesis using dns_session_sound[OF dns_exec_reach[OF s(1)]] s by simp
qed

text \<open>A failed send: the query drops the tunnel, which cancels its reader, and opens another for its second attempt.  When
  it does so without a wait, the cancelled reader ends only then, and its \<open>finally\<close> clause drops the new tunnel: the query
  waits for an answer that no reader can bring.\<close>

lemma late_reader_drops_new_tunnel:
  "\<exists>s x. dns_exec udp_kind (opened_events @ [Sent 0 False, Look 0, Acquired 0 True, Opened 0 (Inr ()), Sent 0 True, Stopped 2])
      new_session = Some s
    \<and> ds_queries s = [(0, x)] \<and> (\<exists>tx f. dq_stage x = Waiting tx f) \<and> dq_again x
    \<and> ds_ready s = None \<and> ds_open s = [] \<and> ds_tasks s = [(4, True)]"
  by (simp add: opened_events_def exec_simps)

text \<open>A query cancelled while it sets up a tunnel leaves the tunnel open; and the cancellation is taken for a failure of the
  first attempt: the query goes on.\<close>

lemma cancelled_setup_leaks:
  "\<exists>s x. dns_exec udp_kind [Ask [1, 1, 0], Look 0, Acquired 0 True, Interrupt 0] new_session = Some s
    \<and> ds_open s = [1] \<and> ds_lost s = [1] \<and> ds_queries s = [(0, x)] \<and> dq_stage x = Begin"
  by (simp add: exec_simps)

end
