(* ===== verification/Tls_Pump.thy ===== *)
theory Tls_Pump
  imports Complex_Main Relay Geo_Download
begin

text \<open>
  TLS inside the tunnel: \<open>TlsOverTunnel\<close> (\<open>core/dns/tls_over_tunnel.py\<close>) and the session of
  \<open>_https_request_once\<close> (\<open>core/geosite_cache.py\<close>).  Both drive an \<open>SSLObject\<close> over two \<open>MemoryBIO\<close>s and carry the
  bytes to and from the tunnel.  The engine is a parameter: for an operation, what is in the incoming BIO and whether that is at
  its end, it gives a result, its next state, the number of bytes it took from that BIO and the bytes it put into the other.
  What the tunnel will give is a list; an exception of \<open>tunnel.send\<close> is the sink's refusal.
\<close>

section \<open>The engine and its BIOs\<close>

datatype ssl_op = Handshake | Write bytes | ReadMax nat | Unwrap

datatype ssl_result = Finished | Took nat | Plain bytes | WantRead | WantWrite | ZeroReturn | SslFailed

type_synonym 'e engine = "ssl_op \<Rightarrow> 'e \<Rightarrow> bytes \<Rightarrow> bool \<Rightarrow> ssl_result \<times> 'e \<times> nat \<times> bytes"

datatype arrival = Data bytes | Gone py_error

record ('e, 'k) pump =
  tp_ssl :: 'e
  tp_in :: bytes
  tp_eof :: bool
  tp_out :: bytes
  tp_sink :: 'k
  tp_arriving :: "arrival list"

definition new_pump :: "'e \<Rightarrow> 'k \<Rightarrow> arrival list \<Rightarrow> ('e, 'k) pump" where
  "new_pump e k es = \<lparr> tp_ssl = e, tp_in = [], tp_eof = False, tp_out = [], tp_sink = k, tp_arriving = es \<rparr>"

text \<open>\<open>Blocked\<close>: the coroutine waits for the tunnel; \<open>Unsent\<close>: the tunnel's send raised.\<close>

datatype 'a outcome = Value 'a | Raises py_error | Unsent | Blocked

definition ssl_call :: "'e engine \<Rightarrow> ssl_op \<Rightarrow> ('e, 'k) pump \<Rightarrow> ssl_result \<times> ('e, 'k) pump" where
  "ssl_call eng op s = (case eng op (tp_ssl s) (tp_in s) (tp_eof s) of
     (r, e, n, out) \<Rightarrow> (r, s\<lparr> tp_ssl := e, tp_in := drop n (tp_in s), tp_out := tp_out s @ out \<rparr>))"

text \<open>\<open>_flush_out\<close>: one message with all that is pending; the second \<open>read\<close> finds nothing.\<close>

definition flush_out :: "(bytes \<Rightarrow> 'k \<Rightarrow> bool \<times> 'k) \<Rightarrow> ('e, 'k) pump \<Rightarrow> bool \<times> ('e, 'k) pump" where
  "flush_out put s = (if tp_out s = [] then (True, s)
     else case put (tp_out s) (tp_sink s) of (ok, k) \<Rightarrow> (ok, s\<lparr> tp_out := [], tp_sink := k \<rparr>))"

text \<open>\<open>_read_into_bio\<close>; a \<open>MemoryBIO\<close> at its end takes no more.\<close>

definition read_into_bio :: "('e, 'k) pump \<Rightarrow> unit outcome \<times> ('e, 'k) pump" where
  "read_into_bio s = (case tp_arriving s of
       [] \<Rightarrow> (Blocked, s)
     | Gone e # es \<Rightarrow> (Raises e, s\<lparr> tp_arriving := es \<rparr>)
     | Data d # es \<Rightarrow>
         if d = [] then (Value (), s\<lparr> tp_arriving := es, tp_eof := True \<rparr>)
         else if tp_eof s then (Raises OSErr, s\<lparr> tp_arriving := es \<rparr>)
         else (Value (), s\<lparr> tp_arriving := es, tp_in := tp_in s @ d \<rparr>))"

section \<open>TlsOverTunnel\<close>

partial_function (option) do_handshake ::
    "'e engine \<Rightarrow> (bytes \<Rightarrow> 'k \<Rightarrow> bool \<times> 'k) \<Rightarrow> ('e, 'k) pump \<Rightarrow> (unit outcome \<times> ('e, 'k) pump) option" where
  "do_handshake eng put s =
     (case ssl_call eng Handshake s of (r, s) \<Rightarrow>
        if r = SslFailed \<or> r = ZeroReturn then Some (Raises OSErr, s)
        else case flush_out put s of (sent, s) \<Rightarrow>
          if \<not> sent then Some (Unsent, s)
          else if r = WantWrite then do_handshake eng put s
          else if r = WantRead then (case read_into_bio s of (o1, s) \<Rightarrow>
            if o1 = Value () then do_handshake eng put s else Some (o1, s))
          else Some (Value (), s))"

text \<open>Every \<open>write\<close> that does not take bytes raises.\<close>

partial_function (option) tls_send ::
    "'e engine \<Rightarrow> (bytes \<Rightarrow> 'k \<Rightarrow> bool \<times> 'k) \<Rightarrow> bytes \<Rightarrow> ('e, 'k) pump \<Rightarrow> (unit outcome \<times> ('e, 'k) pump) option" where
  "tls_send eng put d s =
     (if d = [] then Some (Value (), s)
      else case ssl_call eng (Write d) s of (r, s) \<Rightarrow>
        (case r of
           Took n \<Rightarrow> (case flush_out put s of (sent, s) \<Rightarrow> if sent then tls_send eng put (drop n d) s else Some (Unsent, s))
         | _ \<Rightarrow> Some (Raises OSErr, s)))"

text \<open>A wake-up takes an arrival, so the loop ends.\<close>

function tls_recv :: "'e engine \<Rightarrow> nat \<Rightarrow> ('e, 'k) pump \<Rightarrow> bytes outcome \<times> ('e, 'k) pump" where
  "tls_recv eng n s =
     (case ssl_call eng (ReadMax n) s of (r, s) \<Rightarrow>
        (case r of
           Plain c \<Rightarrow> (if c = [] then Raises EOFErr else Value c, s)
         | WantRead \<Rightarrow> (case read_into_bio s of
             (Value u, s) \<Rightarrow> tls_recv eng n s
           | (Raises e, s) \<Rightarrow> (Raises e, s)
           | (Unsent, s) \<Rightarrow> (Unsent, s)
           | (Blocked, s) \<Rightarrow> (Blocked, s))
         | _ \<Rightarrow> (Raises OSErr, s)))"
  by pat_completeness auto

termination
  by (relation "measure (\<lambda>(eng, n, s). length (tp_arriving s))")
    (auto simp: ssl_call_def read_into_bio_def split: prod.splits list.splits arrival.splits if_splits)

declare tls_recv.simps [simp del]

text \<open>\<open>recv_exactly\<close>: a piece of data is not empty, so the loop ends when the engine gives no more than is asked for.\<close>

partial_function (option) recv_exactly ::
    "'e engine \<Rightarrow> nat \<Rightarrow> bytes \<Rightarrow> ('e, 'k) pump \<Rightarrow> (bytes outcome \<times> ('e, 'k) pump) option" where
  "recv_exactly eng n buf s =
     (if n \<le> length buf then Some (Value buf, s)
      else case tls_recv eng (n - length buf) s of (r, s) \<Rightarrow>
        (case r of Value c \<Rightarrow> recv_exactly eng n (buf @ c) s | _ \<Rightarrow> Some (r, s)))"

text \<open>\<open>close\<close>: whatever \<open>unwrap\<close> raises is passed over, and nothing is flushed.\<close>

definition tls_close :: "'e engine \<Rightarrow> ('e, 'k) pump \<Rightarrow> ('e, 'k) pump" where
  "tls_close eng s = snd (ssl_call eng Unwrap s)"

section \<open>The session of a geo download\<close>

text \<open>\<open>feed\<close>: false at a timeout, the tunnel's end or an empty message.\<close>

definition geo_feed :: "('e, 'k) pump \<Rightarrow> bool outcome \<times> ('e, 'k) pump" where
  "geo_feed s = (case tp_arriving s of
       [] \<Rightarrow> (Value False, s)
     | Gone e # es \<Rightarrow> (if e \<in> {TimeoutErr, IncompleteRead, EOFErr} then Value False else Raises e, s\<lparr> tp_arriving := es \<rparr>)
     | Data d # es \<Rightarrow> (if d = [] then (Value False, s\<lparr> tp_arriving := es \<rparr>)
         else (Value True, s\<lparr> tp_arriving := es, tp_in := tp_in s @ d \<rparr>)))"

partial_function (option) geo_handshake ::
    "'e engine \<Rightarrow> (bytes \<Rightarrow> 'k \<Rightarrow> bool \<times> 'k) \<Rightarrow> ('e, 'k) pump \<Rightarrow> (unit outcome \<times> ('e, 'k) pump) option" where
  "geo_handshake eng put s =
     (case ssl_call eng Handshake s of (r, s) \<Rightarrow>
        if r = SslFailed \<or> r = ZeroReturn then Some (Raises OSErr, s)
        else case flush_out put s of (sent, s) \<Rightarrow>
          if \<not> sent then Some (Unsent, s)
          else if r = WantWrite then geo_handshake eng put s
          else if r = WantRead then (case geo_feed s of (o1, s) \<Rightarrow>
            (case o1 of Value more_data \<Rightarrow> if more_data then geo_handshake eng put s else Some (Raises OSErr, s)
             | Raises e \<Rightarrow> Some (Raises e, s) | Unsent \<Rightarrow> Some (Unsent, s) | Blocked \<Rightarrow> Some (Blocked, s)))
          else Some (Value (), s))"

text \<open>The loop that reads to the end of the response.\<close>

partial_function (option) geo_read ::
    "'e engine \<Rightarrow> bytes \<Rightarrow> ('e, 'k) pump \<Rightarrow> (bytes outcome \<times> ('e, 'k) pump) option" where
  "geo_read eng raw s =
     (case ssl_call eng (ReadMax 65536) s of (r, s) \<Rightarrow>
        if r = ZeroReturn then Some (Value raw, s)
        else if r = WantRead \<or> r = Plain [] then (case geo_feed s of (o1, s) \<Rightarrow>
          (case o1 of Value more_data \<Rightarrow> if more_data then geo_read eng raw s else Some (Value raw, s)
           | Raises e \<Rightarrow> Some (Raises e, s) | Unsent \<Rightarrow> Some (Unsent, s) | Blocked \<Rightarrow> Some (Blocked, s)))
        else (case r of Plain c \<Rightarrow> geo_read eng (raw @ c) s | _ \<Rightarrow> Some (Raises OSErr, s)))"

text \<open>What follows the address: handshake, the request in one write whose count is not looked at, the response.\<close>

definition geo_request ::
    "'e engine \<Rightarrow> (bytes \<Rightarrow> 'k \<Rightarrow> bool \<times> 'k) \<Rightarrow> (py_error + bytes) \<Rightarrow> ('e, 'k) pump \<Rightarrow> (bytes outcome \<times> ('e, 'k) pump) option" where
  "geo_request eng put req s =
     (case geo_handshake eng put s of
        None \<Rightarrow> None
      | Some (o1, s) \<Rightarrow>
          (case o1 of
             Raises e \<Rightarrow> Some (Raises e, s) | Unsent \<Rightarrow> Some (Unsent, s) | Blocked \<Rightarrow> Some (Blocked, s)
           | Value u \<Rightarrow>
               (case req of
                  Inl e \<Rightarrow> Some (Raises e, s)
                | Inr bs \<Rightarrow>
                    (case ssl_call eng (Write bs) s of (r, s) \<Rightarrow>
                       (case r of
                          Took n \<Rightarrow> (case flush_out put s of (sent, s) \<Rightarrow> if sent then geo_read eng [] s else Some (Unsent, s))
                        | _ \<Rightarrow> Some (Raises OSErr, s))))))"

text \<open>\<open>_https_request_once\<close> on a tunnel of the pool: \<open>None\<close> inside for a response whose chunks never end.\<close>

definition https_request_pumped ::
    "'e engine \<Rightarrow> (bytes \<Rightarrow> 'k \<Rightarrow> bool \<times> 'k) \<Rightarrow> 'e \<Rightarrow> 'k \<Rightarrow> arrival list \<Rightarrow> pystr \<Rightarrow> int \<Rightarrow> pystr \<Rightarrow> http_headers
      \<Rightarrow> (py_error + http_reply) option" where
  "https_request_pumped eng put e0 k es host port path extra =
     (case pack_address host port of
        Inl e \<Rightarrow> Some (Inl e)
      | Inr addr \<Rightarrow>
          (case put addr k of (sent, k) \<Rightarrow>
             if \<not> sent then Some (Inl OSErr)
             else (case geo_request eng put (ascii_encode (get_text host path extra)) (new_pump e0 k es) of
                 None \<Rightarrow> None
               | Some (Value raw, s) \<Rightarrow> parse_http_response raw
               | Some (Raises e, s) \<Rightarrow> Some (Inl e)
               | Some (_, s) \<Rightarrow> Some (Inl OSErr))))"

declare do_handshake.simps [code] tls_send.simps [code] recv_exactly.simps [code] geo_handshake.simps [code] geo_read.simps [code]

section \<open>Nothing is lost\<close>

text \<open>An engine that keeps account of what it took and gave.\<close>

type_synonym 'e ledger = "'e \<times> bytes \<times> bytes"

definition traced :: "'e engine \<Rightarrow> 'e ledger engine" where
  "traced eng op x inb eof = (case x of (e, took, gave) \<Rightarrow>
     (case eng op e inb eof of (r, e', n, out) \<Rightarrow> (r, (e', took @ take n inb, gave @ out), n, out)))"

abbreviation took_of :: "('e ledger, 'k) pump \<Rightarrow> bytes" where "took_of s \<equiv> fst (snd (tp_ssl s))"
abbreviation gave_of :: "('e ledger, 'k) pump \<Rightarrow> bytes" where "gave_of s \<equiv> snd (snd (tp_ssl s))"

text \<open>The stream the messages of a tunnel carry, up to the empty one that ends it.\<close>

fun received :: "arrival list \<Rightarrow> bytes" where
  "received [] = []"
| "received (Gone e # es) = received es"
| "received (Data d # es) = (if d = [] then [] else d @ received es)"

lemma received_gone [simp]: "received (es @ [Gone e]) = received es"
  by (induction es rule: received.induct) auto

lemma received_data: "received (es @ [Data d]) = received es @ (if Data [] \<in> set es then [] else d)"
  by (induction es rule: received.induct) auto

datatype tls_op = DoHandshake | Send bytes | Recv nat | CloseTls

lemma map_outcome_Value [simp]: "map_outcome f r = Value v \<longleftrightarrow> (\<exists>y. r = Value y \<and> v = f y)"
  by (cases r) auto

text \<open>One call of a \<open>TlsOverTunnel\<close>: how it ended and the state after it.\<close>

definition tls_do :: "'e engine \<Rightarrow> (bytes \<Rightarrow> 'k \<Rightarrow> bool \<times> 'k) \<Rightarrow> tls_op \<Rightarrow> ('e, 'k) pump \<Rightarrow> (bytes outcome \<times> ('e, 'k) pump) option" where
  "tls_do eng put op s = (case op of
       DoHandshake \<Rightarrow> map_option (\<lambda>(r, s). (map_outcome (\<lambda>u. []) r, s)) (do_handshake eng put s)
     | Send d \<Rightarrow> map_option (\<lambda>(r, s). (map_outcome (\<lambda>u. []) r, s)) (tls_send eng put d s)
     | Recv n \<Rightarrow> Some (tls_recv eng n s)
     | CloseTls \<Rightarrow> Some (Value [], tls_close eng s))"

text \<open>Any sequence of calls, as long as the tunnel takes what is sent.\<close>

inductive tls_run :: "'e engine \<Rightarrow> (bytes \<Rightarrow> 'k \<Rightarrow> bool \<times> 'k) \<Rightarrow> ('e, 'k) pump \<Rightarrow> ('e, 'k) pump \<Rightarrow> bool"
  for eng put s0 where
  tls_new: "tls_run eng put s0 s0"
| tls_call: "tls_run eng put s0 s \<Longrightarrow> tls_do eng put op s = Some (r, s') \<Longrightarrow> r \<noteq> Unsent \<Longrightarrow> tls_run eng put s0 s'"

context sink
begin

definition pump_ok :: "'k \<Rightarrow> arrival list \<Rightarrow> ('e ledger, 'k) pump \<Rightarrow> bool" where
  "pump_ok k0 es0 s \<longleftrightarrow> (\<exists>ms taken. wrote k0 (tp_sink s) ms \<and> [] \<notin> set ms \<and> concat ms @ tp_out s = gave_of s
     \<and> es0 = taken @ tp_arriving s \<and> took_of s @ tp_in s = received taken \<and> (Data [] \<in> set taken \<longleftrightarrow> tp_eof s))"

lemma new_pump_ok: "pump_ok k es (new_pump (e, [], []) k es)"
  unfolding pump_ok_def by (rule exI[of _ "[]"], rule exI[of _ "[]"]) (simp add: new_pump_def wrote_none)

lemma ssl_call_ok: "pump_ok k0 es0 s \<Longrightarrow> pump_ok k0 es0 (snd (ssl_call (traced eng) op s))"
  by (fastforce simp: pump_ok_def ssl_call_def traced_def split: prod.splits)

lemma flush_out_ok:
  assumes "pump_ok k0 es0 s" "flush_out put s = (True, s')"
  shows "pump_ok k0 es0 s' \<and> tp_out s' = []"
proof (cases "tp_out s = []")
  case True
  then show ?thesis using assms by (simp add: flush_out_def)
next
  case False
  obtain ms taken where ms: "wrote k0 (tp_sink s) ms" "[] \<notin> set ms" "concat ms @ tp_out s = gave_of s"
      "es0 = taken @ tp_arriving s" "took_of s @ tp_in s = received taken" "Data [] \<in> set taken \<longleftrightarrow> tp_eof s"
    using assms(1) by (auto simp: pump_ok_def)
  obtain k where k: "put (tp_out s) (tp_sink s) = (True, k)" and s': "s' = s\<lparr> tp_out := [], tp_sink := k \<rparr>"
    using assms(2) False by (auto simp: flush_out_def split: prod.splits)
  have "wrote k0 k (ms @ [tp_out s])" by (rule wrote_put[OF ms(1) k])
  then show ?thesis using ms False
    unfolding pump_ok_def s' by (intro conjI exI[of _ "ms @ [tp_out s]"] exI[of _ taken]) simp_all
qed

lemma read_into_bio_ok: "pump_ok k0 es0 s \<Longrightarrow> pump_ok k0 es0 (snd (read_into_bio s))"
  unfolding pump_ok_def read_into_bio_def
  apply (elim exE conjE)
  subgoal for ms taken
    apply (cases "tp_arriving s")
     apply auto[1]
    subgoal for e es
      by (rule exI[of _ ms], rule exI[of _ "if tp_arriving s = [] then taken else taken @ [e]"], cases e)
        (auto simp: received_data)
    done
  done

lemma read_into_bio_not_unsent: "fst (read_into_bio s) \<noteq> Unsent"
  by (auto simp: read_into_bio_def split: list.splits arrival.splits)

lemma do_handshake_ok:
  assumes "do_handshake (traced eng) put s = Some (r, s')" "pump_ok k0 es0 s" "r \<noteq> Unsent"
  shows "pump_ok k0 es0 s' \<and> (r = Value () \<longrightarrow> tp_out s' = [])"
proof -
  have "eng' = traced eng \<longrightarrow> put' = put \<longrightarrow> pump_ok k0 es0 s \<longrightarrow> fst x \<noteq> Unsent \<longrightarrow>
      pump_ok k0 es0 (snd x) \<and> (fst x = Value () \<longrightarrow> tp_out (snd x) = [])"
    if "do_handshake eng' put' s = Some x" for eng' put' s x
    using that
  proof (rule do_handshake.raw_induct[rotated], goal_cases)
    case (1 rec eng1 put1 s1 x1)
    obtain r2 s2 where c: "ssl_call eng1 Handshake s1 = (r2, s2)" by fastforce
    obtain sent s3 where f: "flush_out put1 s2 = (sent, s3)" by fastforce
    obtain o4 s4 where rd: "read_into_bio s3 = (o4, s4)" by fastforce
    show ?case
    proof (intro impI)
      assume a: "eng1 = traced eng" "put1 = put" "pump_ok k0 es0 s1" "fst x1 \<noteq> Unsent"
      have o2: "pump_ok k0 es0 s2" using ssl_call_ok[OF a(3), of eng Handshake] c a(1) by simp
      have o3: "pump_ok k0 es0 s3 \<and> tp_out s3 = []" if sent using flush_out_ok[OF o2] f a(2) that by simp
      have o4: "pump_ok k0 es0 s4" if sent using read_into_bio_ok o3[OF that] rd by (metis snd_conv)
      have nu: "o4 \<noteq> Unsent" using read_into_bio_not_unsent[of s3] rd by simp
      show "pump_ok k0 es0 (snd x1) \<and> (fst x1 = Value () \<longrightarrow> tp_out (snd x1) = [])"
        using 1(2)[unfolded c prod.case f rd] 1(1)[of "traced eng" put s3 x1] 1(1)[of "traced eng" put s4 x1] a o2 o3 o4
        by (auto split: if_splits)
    qed
  qed
  then show ?thesis using assms by fastforce
qed

lemma tls_send_ok:
  assumes "tls_send (traced eng) put d s = Some (r, s')" "pump_ok k0 es0 s" "r \<noteq> Unsent"
  shows "pump_ok k0 es0 s' \<and> (r = Value () \<and> d \<noteq> [] \<longrightarrow> tp_out s' = [])"
proof -
  have "eng' = traced eng \<longrightarrow> put' = put \<longrightarrow> pump_ok k0 es0 s \<longrightarrow> fst x \<noteq> Unsent \<longrightarrow>
      pump_ok k0 es0 (snd x) \<and> (fst x = Value () \<and> (d \<noteq> [] \<or> tp_out s = []) \<longrightarrow> tp_out (snd x) = [])"
    if "tls_send eng' put' d s = Some x" for eng' put' d s x
    using that
  proof (rule tls_send.raw_induct[rotated], goal_cases)
    case (1 rec eng1 put1 d1 s1 x1)
    obtain r2 s2 where c: "ssl_call eng1 (Write d1) s1 = (r2, s2)" by fastforce
    obtain sent s3 where f: "flush_out put1 s2 = (sent, s3)" by fastforce
    show ?case
    proof (intro impI)
      assume a: "eng1 = traced eng" "put1 = put" "pump_ok k0 es0 s1" "fst x1 \<noteq> Unsent"
      have o2: "pump_ok k0 es0 s2" using ssl_call_ok[OF a(3), of eng "Write d1"] c a(1) by simp
      have o3: "pump_ok k0 es0 s3 \<and> tp_out s3 = []" if sent using flush_out_ok[OF o2] f a(2) that by simp
      show "pump_ok k0 es0 (snd x1) \<and> (fst x1 = Value () \<and> (d1 \<noteq> [] \<or> tp_out s1 = []) \<longrightarrow> tp_out (snd x1) = [])"
      proof (cases "\<exists>n. r2 = Took n \<and> d1 \<noteq> []")
        case True
        then obtain n where n: "r2 = Took n" "d1 \<noteq> []" by blast
        show ?thesis
          using 1(2)[unfolded c prod.case n ssl_result.case f] 1(1)[of "traced eng" put "drop n d1" s3 x1] a o3 n(2)
          by (auto split: if_splits)
      next
        case False
        then show ?thesis using 1(2)[unfolded c prod.case] a o2 by (cases r2) (auto split: if_splits)
      qed
    qed
  qed
  then show ?thesis using assms by fastforce
qed

lemma tls_recv_ok: "pump_ok k0 es0 s \<Longrightarrow> pump_ok k0 es0 (snd (tls_recv (traced eng) n s)) \<and> fst (tls_recv (traced eng) n s) \<noteq> Unsent"
proof (induction "traced eng" n s rule: tls_recv.induct)
  case (1 n s)
  obtain r1 s1 where c: "ssl_call (traced eng) (ReadMax n) s = (r1, s1)" by fastforce
  obtain o2 s2 where rd: "read_into_bio s1 = (o2, s2)" by fastforce
  have o1: "pump_ok k0 es0 s1" using ssl_call_ok[OF "1.prems", of eng "ReadMax n"] c by simp
  have o2: "pump_ok k0 es0 s2" using read_into_bio_ok[OF o1] rd by simp
  have nu: "o2 \<noteq> Unsent" using read_into_bio_not_unsent[of s1] rd by simp
  show ?case
  proof (cases r1)
    case WantRead
    then show ?thesis using o2 nu 1(1)[OF c[symmetric] WantRead rd[symmetric]]
      by (cases o2) (simp_all add: tls_recv.simps[of "traced eng" n s] c rd)
  qed (use o1 in \<open>simp_all add: tls_recv.simps[of "traced eng" n s] c\<close>)
qed

lemma tls_do_ok:
  assumes "tls_do (traced eng) put op s = Some (r, s')" "pump_ok k0 es0 s" "r \<noteq> Unsent"
  shows "pump_ok k0 es0 s'"
proof (cases op)
  case DoHandshake
  then obtain r0 where "do_handshake (traced eng) put s = Some (r0, s')" "r0 \<noteq> Unsent"
    using assms(1,3) by (fastforce simp: tls_do_def)
  then show ?thesis using do_handshake_ok assms(2) by blast
next
  case (Send d)
  then obtain r0 where "tls_send (traced eng) put d s = Some (r0, s')" "r0 \<noteq> Unsent"
    using assms(1,3) by (fastforce simp: tls_do_def)
  then show ?thesis using tls_send_ok assms(2) by blast
next
  case (Recv n)
  then show ?thesis using assms(1) tls_recv_ok[OF assms(2), of eng n] by (simp add: tls_do_def)
next
  case CloseTls
  then show ?thesis using assms(1) ssl_call_ok[OF assms(2), of eng Unwrap] by (simp add: tls_do_def tls_close_def)
qed

lemma tls_run_ok: "tls_run (traced eng) put s0 s \<Longrightarrow> pump_ok k0 es0 s0 \<Longrightarrow> pump_ok k0 es0 s"
  by (induction rule: tls_run.induct) (auto intro: tls_do_ok)

end

section \<open>Keeping account changes nothing\<close>

definition unledgered :: "('e ledger, 'k) pump \<Rightarrow> ('e, 'k) pump" where
  "unledgered x = \<lparr> tp_ssl = fst (tp_ssl x), tp_in = tp_in x, tp_eof = tp_eof x, tp_out = tp_out x,
     tp_sink = tp_sink x, tp_arriving = tp_arriving x \<rparr>"

lemma unledgered_new: "unledgered (new_pump (e, took, gave) k es) = new_pump e k es"
  by (simp add: unledgered_def new_pump_def)

lemma ssl_call_traced: "ssl_call eng op (unledgered x) = apsnd unledgered (ssl_call (traced eng) op x)"
  by (cases "tp_ssl x", cases "eng op (fst (tp_ssl x)) (tp_in x) (tp_eof x)") (simp add: ssl_call_def traced_def unledgered_def)

lemma flush_out_traced: "flush_out put (unledgered x) = apsnd unledgered (flush_out put x)"
  by (auto simp: flush_out_def unledgered_def split: prod.splits)

lemma read_into_bio_traced: "read_into_bio (unledgered x) = apsnd unledgered (read_into_bio x)"
  by (auto simp: read_into_bio_def unledgered_def split: list.splits arrival.splits)

lemmas pump_traced = ssl_call_traced flush_out_traced read_into_bio_traced

lemma do_handshake_traced:
  assumes "do_handshake eng put (unledgered x) = Some (r, s')"
  shows "\<exists>x'. do_handshake (traced eng) put x = Some (r, x') \<and> unledgered x' = s'"
proof -
  have "\<forall>x. s = unledgered x \<longrightarrow> (\<exists>x'. do_handshake (traced eng) put x = Some (fst y, x') \<and> unledgered x' = snd y)"
    if "do_handshake eng put s = Some y" for eng :: "'a engine" and put :: "bytes \<Rightarrow> 'b \<Rightarrow> bool \<times> 'b" and s y
    using that
  proof (rule do_handshake.raw_induct[rotated], goal_cases)
    case (1 rec eng put s y)
    show ?case
    proof (intro allI impI)
      fix x assume x: "s = unledgered x"
      obtain r2 x2 where c: "ssl_call (traced eng) Handshake x = (r2, x2)" by fastforce
      obtain sent x3 where f: "flush_out put x2 = (sent, x3)" by fastforce
      obtain o4 x4 where rd: "read_into_bio x3 = (o4, x4)" by fastforce
      note ih = 1(1)[of eng put "unledgered x3" y] 1(1)[of eng put "unledgered x4" y]
      show "\<exists>x'. do_handshake (traced eng) put x = Some (fst y, x') \<and> unledgered x' = snd y"
        using 1(2) ih unfolding x
        by (subst do_handshake.simps) (auto simp: pump_traced c f rd split: if_splits)
    qed
  qed
  then show ?thesis using assms by fastforce
qed

lemma tls_send_traced:
  assumes "tls_send eng put d (unledgered x) = Some (r, s')"
  shows "\<exists>x'. tls_send (traced eng) put d x = Some (r, x') \<and> unledgered x' = s'"
proof -
  have "\<forall>x. s = unledgered x \<longrightarrow> (\<exists>x'. tls_send (traced eng) put d x = Some (fst y, x') \<and> unledgered x' = snd y)"
    if "tls_send eng put d s = Some y" for eng :: "'a engine" and put :: "bytes \<Rightarrow> 'b \<Rightarrow> bool \<times> 'b" and d s y
    using that
  proof (rule tls_send.raw_induct[rotated], goal_cases)
    case (1 rec eng put d s y)
    show ?case
    proof (intro allI impI)
      fix x assume x: "s = unledgered x"
      obtain r2 x2 where c: "ssl_call (traced eng) (Write d) x = (r2, x2)" by fastforce
      obtain sent x3 where f: "flush_out put x2 = (sent, x3)" by fastforce
      show "\<exists>x'. tls_send (traced eng) put d x = Some (fst y, x') \<and> unledgered x' = snd y"
      proof (cases "\<exists>n. r2 = Took n")
        case True
        then obtain n where n: "r2 = Took n" by blast
        show ?thesis using 1(2) 1(1)[of eng put "drop n d" "unledgered x3" y] unfolding x
          by (subst tls_send.simps) (auto simp: pump_traced c f n split: if_splits)
      next
        case False
        then show ?thesis using 1(2) unfolding x
          by (subst tls_send.simps) (cases r2; auto simp: pump_traced c split: if_splits)
      qed
    qed
  qed
  then show ?thesis using assms by fastforce
qed

lemma tls_recv_traced: "tls_recv eng n (unledgered x) = apsnd unledgered (tls_recv (traced eng) n x)"
proof (induction "traced eng" n x rule: tls_recv.induct)
  case (1 n x)
  obtain r1 x1 where c: "ssl_call (traced eng) (ReadMax n) x = (r1, x1)" by fastforce
  obtain o2 x2 where rd: "read_into_bio x1 = (o2, x2)" by fastforce
  show ?case
  proof (cases r1)
    case WantRead
    then show ?thesis using 1[OF c[symmetric] WantRead rd[symmetric]]
      by (cases o2) (simp_all add: tls_recv.simps[of "traced eng" n x] tls_recv.simps[of eng n "unledgered x"] pump_traced c rd)
  qed (simp_all add: tls_recv.simps[of "traced eng" n x] tls_recv.simps[of eng n "unledgered x"] pump_traced c)
qed

lemma tls_do_traced:
  assumes "tls_do eng put op (unledgered x) = Some (r, s')"
  shows "\<exists>x'. tls_do (traced eng) put op x = Some (r, x') \<and> unledgered x' = s'"
proof (cases op)
  case DoHandshake
  then show ?thesis using assms do_handshake_traced[of eng put x] by (fastforce simp: tls_do_def)
next
  case (Send d)
  then show ?thesis using assms tls_send_traced[of eng put d x] by (fastforce simp: tls_do_def)
next
  case (Recv n)
  then show ?thesis using assms by (cases "tls_recv (traced eng) n x") (simp add: tls_do_def tls_recv_traced)
next
  case CloseTls
  then show ?thesis using assms by (simp add: tls_do_def tls_close_def pump_traced)
qed

lemma tls_run_traced:
  assumes "tls_run eng put (unledgered x0) s"
  shows "\<exists>x. tls_run (traced eng) put x0 x \<and> unledgered x = s"
  using assms
proof (induction rule: tls_run.induct)
  case tls_new
  then show ?case using tls_run.tls_new by blast
next
  case (tls_call s op r s')
  then show ?case using tls_do_traced by (metis tls_run.tls_call)
qed

section \<open>Properties\<close>

lemma tls_peer_reads:
  assumes "aead_ok a" "paired t u" "tunnel_wrote a dr \<lparr> to_tun = t, to_wire = [], to_closed = c \<rparr> k ms"
  shows "\<exists>cs u'. recv_loop a pure_readexactly (length cs) u (to_wire k) = (cs, None, u', []) \<and> concat cs = concat ms"
proof -
  have "send_all a dr t ms = (Inr (), to_tun k, to_wire k)" using assms(3) by (auto simp: tunnel_wrote_def)
  then obtain cs u' where cs: "concat cs = concat ms"
    "\<And>n rest. recv_loop a pure_readexactly (length cs + n) u (to_wire k @ rest) =
        (let (bs, r) = recv_loop a pure_readexactly n u' rest in (cs @ bs, r))"
    using recv_loop_send_all[OF assms(1,2)] by blast
  show ?thesis using cs(1) cs(2)[of 0 "[]"] by auto
qed

text \<open>C18: TLS inside the tunnel loses and reorders nothing: whatever calls are made of a \<open>TlsOverTunnel\<close> (handshake,
  sends, receives, closes, in any order, also after failed ones), as long as the tunnel sends, the bytes the peer of the tunnel reads from the
  connection followed by those still pending are exactly the bytes the TLS engine has given out, and those the engine took
  followed by those still in its BIO are exactly the stream the tunnel delivered; a handshake or a send that returns leaves nothing
  pending.\<close>

theorem tls_pump_lossless:
  assumes "aead_ok a"
    and "handshake_as_initiator cr a pw rnd new_tunnel = Inr t"
    and "handshake_as_responder cr a pw rnd new_tunnel = Inr u"
    and "tls_run eng (put_tunnel a dr) (new_pump e0 \<lparr> to_tun = t, to_wire = [], to_closed = False \<rparr> es) s"
  shows "(\<exists>x taken cs u'. tls_run (traced eng) (put_tunnel a dr) (new_pump (e0, [], []) \<lparr> to_tun = t, to_wire = [], to_closed = False \<rparr> es) x
      \<and> unledgered x = s \<and> es = taken @ tp_arriving s \<and> took_of x @ tp_in s = received taken
      \<and> recv_loop a pure_readexactly (length cs) u (to_wire (tp_sink s)) = (cs, None, u', [])
      \<and> concat cs @ tp_out s = gave_of x)
    \<and> (\<forall>op s' v. tls_do eng (put_tunnel a dr) op s = Some (Value v, s')
         \<and> (op = DoHandshake \<or> (\<exists>d. op = Send d \<and> d \<noteq> [])) \<longrightarrow> tp_out s' = [])"
proof -
  let ?k = "\<lparr> to_tun = t, to_wire = [], to_closed = False \<rparr>"
  obtain x where x: "tls_run (traced eng) (put_tunnel a dr) (new_pump (e0, [], []) ?k es) x" "unledgered x = s"
    using tls_run_traced[of eng "put_tunnel a dr" "new_pump (e0, [], []) ?k es" s] assms(4) by (auto simp: unledgered_new)
  have ok: "tunnelled.A.pump_ok a dr ?k es x"
    by (rule tunnelled.A.tls_run_ok[OF x(1) tunnelled.A.new_pump_ok])
  then obtain ms taken where ms: "tunnel_wrote a dr ?k (tp_sink x) ms" "concat ms @ tp_out x = gave_of x"
      "es = taken @ tp_arriving x" "took_of x @ tp_in x = received taken"
    by (auto simp: tunnelled.A.pump_ok_def)
  obtain cs u' where cs: "recv_loop a pure_readexactly (length cs) u (to_wire (tp_sink x)) = (cs, None, u', [])" "concat cs = concat ms"
    using tls_peer_reads[OF assms(1) handshake_paired(1)[OF assms(2,3)] ms(1)] by blast
  have eq: "tp_arriving s = tp_arriving x" "tp_in s = tp_in x" "tp_out s = tp_out x" "tp_sink s = tp_sink x"
    unfolding x(2)[symmetric] by (simp_all add: unledgered_def)
  have empty: "tp_out s' = []"
    if d: "tls_do eng (put_tunnel a dr) op s = Some (Value v, s')" "op = DoHandshake \<or> (\<exists>d. op = Send d \<and> d \<noteq> [])" for op s' v
  proof -
    obtain x' where x': "tls_do (traced eng) (put_tunnel a dr) op x = Some (Value v, x')" "unledgered x' = s'"
      using tls_do_traced d(1) x(2) by blast
    have "tp_out x' = []" using d(2)
    proof (elim disjE exE conjE)
      assume "op = DoHandshake"
      then have "do_handshake (traced eng) (put_tunnel a dr) x = Some (Value (), x')"
        using x'(1) by (auto simp: tls_do_def)
      then show ?thesis using tunnelled.A.do_handshake_ok[OF _ ok] by blast
    next
      fix d assume "op = Send d" "d \<noteq> []"
      moreover from this have "tls_send (traced eng) (put_tunnel a dr) d x = Some (Value (), x')"
        using x'(1) by (auto simp: tls_do_def)
      ultimately show ?thesis using tunnelled.A.tls_send_ok[OF _ ok] by blast
    qed
    then show ?thesis unfolding x'(2)[symmetric] by (simp add: unledgered_def)
  qed
  show ?thesis
  proof (intro conjI allI impI)
    show "tp_out s' = []" if "tls_do eng (put_tunnel a dr) op s = Some (Value v, s') \<and> (op = DoHandshake \<or> (\<exists>d. op = Send d \<and> d \<noteq> []))" for op s' v
      using empty that by blast
  qed (rule exI[of _ x], rule exI[of _ taken], rule exI[of _ cs], rule exI[of _ u'], use x ms(2-4) cs in \<open>simp add: eq\<close>)
qed

text \<open>An engine that shakes hands with one message each way and then passes bytes through.\<close>

definition plain_engine :: "nat engine" where
  "plain_engine op e inb eof = (case op of
       Handshake \<Rightarrow> if inb = [] then (WantRead, 1, 0, if e = 0 then [22] else []) else (Finished, 2, 1, [])
     | Write d \<Rightarrow> (Took (length d), e, 0, d)
     | ReadMax n \<Rightarrow> if inb = [] \<and> \<not> eof then (WantRead, e, 0, []) else (Plain (take n inb), e, n, [])
     | Unwrap \<Rightarrow> (WantRead, e, 0, [21]))"

definition greeting_pump :: "(nat, tunnel_out) pump" where
  "greeting_pump = new_pump 0 \<lparr> to_tun = sample_tunnel, to_wire = [], to_closed = False \<rparr> [Data [2], Data [7, 8]]"

lemma greeting_handshake:
  "\<exists>s. tls_do plain_engine (put_tunnel zero_aead (\<lambda>_. 0)) DoHandshake greeting_pump = Some (Value [], s)
     \<and> tp_ssl s = 2 \<and> tp_in s = [] \<and> tp_arriving s = [Data [7, 8]]"
  unfolding tls_do_def tls_op.case
  by (subst do_handshake.simps, subst do_handshake.simps)
    (simp add: greeting_pump_def new_pump_def ssl_call_def plain_engine_def flush_out_def put_tunnel_def send.simps seal_def
      nonce_bytes_def pack_be_def zero_aead_def sample_tunnel_def next_record_size_def Let_def read_into_bio_def)

theorem tls_pump_lossless_witness:
  "\<exists>s s'. tls_do plain_engine (put_tunnel zero_aead (\<lambda>_. 0)) DoHandshake greeting_pump = Some (Value [], s)
     \<and> tls_do plain_engine (put_tunnel zero_aead (\<lambda>_. 0)) CloseTls s = Some (Value [], s')
     \<and> tp_out s = [] \<and> tp_out s' = [21]
     \<and> (\<exists>cs u'. recv_loop zero_aead pure_readexactly (length cs) sample_tunnel (to_wire (tp_sink s')) = (cs, None, u', []))"
proof -
  let ?put = "put_tunnel zero_aead (\<lambda>_. 0)"
  obtain s where s: "tls_do plain_engine ?put DoHandshake greeting_pump = Some (Value [], s)" "tp_ssl s = 2" "tp_in s = []"
      "tp_arriving s = [Data [7, 8]]"
    using greeting_handshake by blast
  have c: "tls_do plain_engine ?put CloseTls s = Some (Value [], tls_close plain_engine s)" by (simp add: tls_do_def)
  have r0: "tls_run plain_engine ?put (new_pump 0 \<lparr> to_tun = sample_tunnel, to_wire = [], to_closed = False \<rparr> [Data [2], Data [7, 8]]) greeting_pump"
    unfolding greeting_pump_def by (rule tls_run.tls_new)
  have r1: "tls_run plain_engine ?put (new_pump 0 \<lparr> to_tun = sample_tunnel, to_wire = [], to_closed = False \<rparr> [Data [2], Data [7, 8]]) s"
    by (rule tls_run.tls_call[OF r0 s(1)]) simp
  have r2: "tls_run plain_engine ?put (new_pump 0 \<lparr> to_tun = sample_tunnel, to_wire = [], to_closed = False \<rparr> [Data [2], Data [7, 8]])
      (tls_close plain_engine s)"
    by (rule tls_run.tls_call[OF r1 c]) simp
  have "tp_out s = []" using tls_pump_lossless[OF zero_aead_ok sample_handshake r0] s(1) by blast
  moreover have "tp_out (tls_close plain_engine s) = tp_out s @ [21]"
    by (simp add: tls_close_def ssl_call_def plain_engine_def)
  ultimately show ?thesis using s(1) c tls_pump_lossless[OF zero_aead_ok sample_handshake r2] by auto
qed

text \<open>What the engine gives at a close is not sent, then or by a later close.\<close>

lemma close_alert_stays:
  assumes "eng Unwrap (tp_ssl s) (tp_in s) (tp_eof s) = (r, e, n, alert)"
  shows "tp_out (tls_close eng s) = tp_out s @ alert" "tp_sink (tls_close eng s) = tp_sink s"
  using assms by (simp_all add: tls_close_def ssl_call_def)

text \<open>What a session has to say to go on reading (a key update, a renewed handshake) waits for the next send.\<close>

lemma recv_sends_nothing: "tp_sink (snd (tls_recv eng n s)) = tp_sink s"
proof (induction eng n s rule: tls_recv.induct)
  case (1 eng n s)
  obtain r1 s1 where c: "ssl_call eng (ReadMax n) s = (r1, s1)" by fastforce
  obtain o2 s2 where rd: "read_into_bio s1 = (o2, s2)" by fastforce
  have k: "tp_sink s1 = tp_sink s" "tp_sink s2 = tp_sink s1"
    using c rd by (auto simp: ssl_call_def read_into_bio_def split: prod.splits list.splits arrival.splits if_splits)
  show ?case
  proof (cases r1)
    case WantRead
    then show ?thesis using 1[OF c[symmetric] WantRead rd[symmetric]] k
      by (cases o2) (simp_all add: tls_recv.simps[of eng n s] c rd)
  qed (use k in \<open>simp_all add: tls_recv.simps[of eng n s] c\<close>)
qed

text \<open>A send returns when the engine takes some of what it is offered.\<close>

lemma tls_send_returns:
  assumes "\<And>d e inb eof. d \<noteq> [] \<Longrightarrow> \<exists>n e' k out. eng (Write d) e inb eof = (Took n, e', k, out) \<and> 0 < n"
  shows "\<exists>r s'. tls_send eng put d s = Some (r, s') \<and> (r = Value () \<or> r = Unsent)"
proof (induction "length d" arbitrary: d s rule: less_induct)
  case less
  show ?case
  proof (cases "d = []")
    case False
    obtain n e k out where w: "eng (Write d) (tp_ssl s) (tp_in s) (tp_eof s) = (Took n, e, k, out)" "0 < n"
      using assms[OF False] by blast
    obtain s1 where c: "ssl_call eng (Write d) s = (Took n, s1)" using w(1) by (simp add: ssl_call_def)
    obtain sent s2 where f: "flush_out put s1 = (sent, s2)" by fastforce
    have "length (drop n d) < length d" using w(2) False by simp
    then show ?thesis using less[of "drop n d" s2] False by (subst tls_send.simps) (auto simp: c f)
  qed (simp add: tls_send.simps)
qed

text \<open>The download's session is the one its request was modelled over.\<close>

lemma https_request_pumped_is:
  assumes "pack_address host port = Inr addr" "put addr k = (True, k')" "ascii_encode (get_text host path extra) = Inr req"
    and "geo_request eng put (Inr req) (new_pump e0 k' es) = Some (r, s)" "r = Value raw \<or> r = Raises e"
  shows "https_request_pumped eng put e0 k es host port path extra
    = https_request_once (\<lambda>_ _. case r of Raises e \<Rightarrow> Inl e | Value raw \<Rightarrow> Inr raw) host port path extra"
  using assms by (auto simp: https_request_pumped_def https_request_once_def)

end
