(* ===== verification/Udp_Session.thy ===== *)
theory Udp_Session
  imports Complex_Main Udp_Relay "HOL-Library.Sublist"
begin

text \<open>
  The life of a UDP association: the client's \<open>UDPRelay\<close> from \<open>start\<close> to \<open>_cleanup\<close> and the server's
  \<open>handle_udp_tunnel\<close> (core/udp_relay.py), with their tasks, queues, idle watchers and sockets.  A step is what happens between two
  waits; what the steps hand out is kept in order.
\<close>

section \<open>Idle watchers\<close>

definition check_interval :: "rat \<Rightarrow> rat" where
  "check_interval idle = max 5 (idle / 4)"

text \<open>Both sides run the same watcher.  A step of the side is at the time \<open>now\<close>; it may be an activity; while the watcher
  runs it goes on to the next check, unless the check stops it.\<close>

locale idle_watched =
  fixes runs :: "'s \<Rightarrow> bool" and activity began check now :: "'s \<Rightarrow> rat" and idle :: rat
    and step :: "'s \<Rightarrow> 's \<Rightarrow> bool"
  assumes time: "step s s' \<Longrightarrow> now s \<le> now s'"
    and activity: "step s s' \<Longrightarrow> activity s' = activity s \<or> activity s' = now s'"
    and watch: "step s s' \<Longrightarrow> runs s' \<Longrightarrow>
      (runs s \<and> began s' = began s \<and> check s' = check s \<and> now s' \<le> check s)
      \<or> (runs s \<and> began s' = began s \<and> check s' = now s' + check_interval idle \<and> activity s' = activity s \<and> now s' - activity s \<le> idle)
      \<or> (began s' = now s' \<and> check s' = now s' + check_interval idle)"
begin

definition watched :: "'s \<Rightarrow> bool" where
  "watched s \<longleftrightarrow> activity s \<le> now s \<and>
     (runs s \<longrightarrow> now s \<le> check s \<and> check s \<le> max (activity s + idle) (began s) + check_interval idle)"

lemma watched_step:
  assumes "watched s" "step s s'"
  shows "watched s'"
proof -
  have i: "0 < check_interval idle" by (simp add: check_interval_def)
  have a: "activity s \<le> activity s'" "activity s' \<le> now s'"
    using activity[OF assms(2)] time[OF assms(2)] assms(1) by (auto simp: watched_def)
  show ?thesis
  proof (cases "runs s'")
    case True
    from watch[OF assms(2) True] show ?thesis
    proof (elim disjE conjE)
      assume w: "runs s" "began s' = began s" "check s' = check s" "now s' \<le> check s"
      have "check s \<le> max (activity s + idle) (began s) + check_interval idle" using assms(1) w(1) by (simp add: watched_def)
      then show ?thesis using w a by (auto simp: watched_def max_def split: if_splits)
    qed (use a i in \<open>auto simp: watched_def max_def\<close>)
  qed (use a in \<open>simp add: watched_def\<close>)
qed

lemma watched_idle: "watched s \<Longrightarrow> runs s \<Longrightarrow> now s \<le> max (activity s + idle) (began s) + check_interval idle"
  by (auto simp: watched_def)

end

section \<open>The client's relay\<close>

datatype udp_task = UplinkTask | ControlTask | IdleTask | TunnelTask

datatype udp_phase = Created | Bound | Serving | Departed

record udp_session =
  us_relay :: udp_relay
  us_phase :: udp_phase
  us_local :: bool
  us_direct :: bool
  us_tasks :: "udp_task list"
  us_began :: rat
  us_check :: rat
  us_time :: rat

definition new_udp_session :: "bool \<Rightarrow> rat \<Rightarrow> udp_session" where
  "new_udp_session tun now = \<lparr> us_relay = new_udp_relay tun now, us_phase = Created, us_local = False, us_direct = False,
     us_tasks = [], us_began = now, us_check = now, us_time = now \<rparr>"

text \<open>What can happen: the binding of the local socket; the reply to the SOCKS5 client; the entry of \<open>run\<close>, where a direct
  relay makes its socket; a datagram of the client; a turn of the uplink's consumer; a message of the tunnel or its failure; a
  datagram for the direct socket; what the control connection gives; the watcher's timer; the end of \<open>run\<close>.  A Boolean says
  whether the call in question succeeds.\<close>

datatype udp_event =
    Bind bool | Associated bool | Serve bool | Arrives bytes "pystr \<times> int" | Uplink bool
  | FromTunnel bytes bool | TunnelBroken | DirectArrives "pystr \<times> int" bytes bool
  | ControlReads bytes | ControlBroken | IdleTimer | Leave bool

definition stop_relay :: "udp_session \<Rightarrow> udp_session" where
  "stop_relay s = s\<lparr> us_relay := (us_relay s)\<lparr> stopped := True \<rparr> \<rparr>"

definition task_over :: "udp_task \<Rightarrow> udp_session \<Rightarrow> udp_session" where
  "task_over k s = s\<lparr> us_tasks := filter (\<lambda>j. j \<noteq> k) (us_tasks s) \<rparr>"

definition udp_cleanup :: "udp_session \<Rightarrow> udp_session" where
  "udp_cleanup s = s\<lparr> us_local := False, us_direct := False \<rparr>"

text \<open>\<open>run\<close> up to its wait; the tasks are made after the direct socket.\<close>

definition enter_run :: "rat \<Rightarrow> rat \<Rightarrow> bool \<Rightarrow> udp_session \<Rightarrow> udp_session" where
  "enter_run idle now ok s =
     (let s = s\<lparr> us_began := now, us_check := now + check_interval idle \<rparr> in
      if via_tunnel (us_relay s) then s\<lparr> us_phase := Serving, us_tasks := [UplinkTask, ControlTask, IdleTask, TunnelTask] \<rparr>
      else if ok then s\<lparr> us_phase := Serving, us_direct := True, us_tasks := [UplinkTask, ControlTask, IdleTask] \<rparr>
      else s\<lparr> us_phase := Departed \<rparr>)"

definition idle_turn :: "rat \<Rightarrow> rat \<Rightarrow> udp_session \<Rightarrow> udp_session" where
  "idle_turn idle now s =
     (let s = s\<lparr> us_relay := idle_check idle now (us_relay s) \<rparr> in
      if stopped (us_relay s) then task_over IdleTask s else s\<lparr> us_check := now + check_interval idle \<rparr>)"

text \<open>\<open>run\<close> goes on when \<open>stop\<close> is set, or is cancelled: the tasks are cancelled and the sockets closed.\<close>

definition leave_run :: "udp_session \<Rightarrow> udp_session" where
  "leave_run s = udp_cleanup (s\<lparr> us_tasks := [], us_phase := Departed \<rparr>)"

definition us_event :: "rat \<Rightarrow> rat \<Rightarrow> udp_event \<Rightarrow> udp_session \<Rightarrow> (udp_session \<times> udp_out list) option" where
  "us_event idle now e s = (case e of
       Bind ok \<Rightarrow> if us_phase s \<noteq> Created then None
         else Some (if ok then s\<lparr> us_phase := Bound, us_local := True \<rparr> else s\<lparr> us_phase := Departed \<rparr>, [])
     | Associated ok \<Rightarrow> if us_phase s \<noteq> Bound then None else Some (if ok then s else s\<lparr> us_phase := Departed \<rparr>, [])
     | Serve ok \<Rightarrow> if us_phase s \<noteq> Bound then None else Some (enter_run idle now ok s, [])
     | Arrives data addr \<Rightarrow> if \<not> us_local s then None
         else Some (s\<lparr> us_relay := datagram_received (us_relay s) data addr \<rparr>, [])
     | Uplink ok \<Rightarrow> if UplinkTask \<notin> set (us_tasks s) then None
         else (case uplink_consume ok now (us_relay s) of (r, out) \<Rightarrow> Some (s\<lparr> us_relay := r \<rparr>, out))
     | FromTunnel chunk ok \<Rightarrow> if TunnelTask \<notin> set (us_tasks s) then None
         else (case tunnel_to_local ok now (us_relay s) chunk of
             (r, out) \<Rightarrow> Some (if chunk = [] then task_over TunnelTask (s\<lparr> us_relay := r \<rparr>) else s\<lparr> us_relay := r \<rparr>, out))
     | TunnelBroken \<Rightarrow> if TunnelTask \<notin> set (us_tasks s) then None else Some (task_over TunnelTask (stop_relay s), [])
     | DirectArrives addr data ok \<Rightarrow> if \<not> us_direct s then None
         else (case on_direct_reply ok now (us_relay s) addr data of (r, out) \<Rightarrow> Some (s\<lparr> us_relay := r \<rparr>, out))
     | ControlReads d \<Rightarrow> if ControlTask \<notin> set (us_tasks s) then None
         else Some (if d = [] then task_over ControlTask (stop_relay s) else s, [])
     | ControlBroken \<Rightarrow> if ControlTask \<notin> set (us_tasks s) then None else Some (task_over ControlTask (stop_relay s), [])
     | IdleTimer \<Rightarrow> if IdleTask \<notin> set (us_tasks s) \<or> stopped (us_relay s) \<or> now \<noteq> us_check s then None
         else Some (idle_turn idle now s, [])
     | Leave cancelled \<Rightarrow> if us_phase s \<noteq> Serving \<or> \<not> (stopped (us_relay s) \<or> cancelled) then None
         else Some (leave_run s, []))"

definition idle_running :: "udp_session \<Rightarrow> bool" where
  "idle_running s \<longleftrightarrow> IdleTask \<in> set (us_tasks s) \<and> \<not> stopped (us_relay s)"

text \<open>An event at a time: the clock goes forward, and the watcher's timer is not late.\<close>

definition us_step :: "rat \<Rightarrow> rat \<times> udp_event \<Rightarrow> udp_session \<Rightarrow> (udp_session \<times> udp_out list) option" where
  "us_step idle te s = (case te of (now, e) \<Rightarrow>
     if now < us_time s \<or> (idle_running s \<and> us_check s < now) then None
     else (case us_event idle now e s of None \<Rightarrow> None | Some (s', out) \<Rightarrow> Some (s'\<lparr> us_time := now \<rparr>, out)))"

fun us_steps :: "rat \<Rightarrow> (rat \<times> udp_event) list \<Rightarrow> udp_session \<Rightarrow> (udp_session \<times> udp_out list) option" where
  "us_steps idle [] s = Some (s, [])"
| "us_steps idle (te # tes) s = (case us_step idle te s of
     None \<Rightarrow> None
   | Some (s1, out1) \<Rightarrow> (case us_steps idle tes s1 of None \<Rightarrow> None | Some (s2, out2) \<Rightarrow> Some (s2, out1 @ out2)))"

section \<open>The server's side\<close>

datatype srv_task = ToTarget | ToClient | SrvIdle

record udp_server =
  sv_buf :: bytes
  sv_queue :: "(bytes \<times> (pystr \<times> int)) list"
  sv_activity :: rat
  sv_stopped :: bool
  sv_tasks :: "srv_task list"
  sv_open :: bool
  sv_began :: rat
  sv_check :: rat
  sv_time :: rat

definition new_udp_server :: "rat \<Rightarrow> rat \<Rightarrow> rat \<Rightarrow> udp_server" where
  "new_udp_server idle t0 now = \<lparr> sv_buf = [], sv_queue = [], sv_activity = t0, sv_stopped = False,
     sv_tasks = [ToTarget, ToClient, SrvIdle], sv_open = True, sv_began = now, sv_check = now + check_interval idle, sv_time = now \<rparr>"

text \<open>A message of the tunnel, with the datagrams the socket takes; the tunnel's failure; a datagram from a target; a turn of the
  downlink's consumer; the timer; the end.\<close>

datatype usrv_event = SvChunk bytes "frame \<Rightarrow> bool" | SvBroken | SvDatagram bytes "pystr \<times> int" | SvDownlink bool | SvTimer | SvLeave bool

definition srv_over :: "srv_task \<Rightarrow> udp_server \<Rightarrow> udp_server" where
  "srv_over k s = s\<lparr> sv_tasks := filter (\<lambda>j. j \<noteq> k) (sv_tasks s), sv_stopped := True \<rparr>"

definition srv_received :: "bytes \<Rightarrow> pystr \<times> int \<Rightarrow> udp_server \<Rightarrow> udp_server" where
  "srv_received data addr s =
     (if length (sv_queue s) < udp_queue_maxsize then s\<lparr> sv_queue := sv_queue s @ [(data, addr)] \<rparr> else s)"

definition srv_downlink :: "bool \<Rightarrow> rat \<Rightarrow> udp_server \<Rightarrow> udp_server \<times> udp_out list" where
  "srv_downlink ok now s = (case sv_queue s of
       [] \<Rightarrow> (s, [])
     | (data, addr) # q \<Rightarrow>
         (case downlink_consume ok data addr of (up, out) \<Rightarrow>
            let s = s\<lparr> sv_queue := q, sv_activity := now \<rparr> in (if up then s else srv_over ToClient s, out)))"

definition srv_idle :: "rat \<Rightarrow> rat \<Rightarrow> udp_server \<Rightarrow> udp_server" where
  "srv_idle idle now s = (if now - sv_activity s > idle then srv_over SrvIdle s else s\<lparr> sv_check := now + check_interval idle \<rparr>)"

definition usrv_event :: "rat \<Rightarrow> rat \<Rightarrow> usrv_event \<Rightarrow> udp_server \<Rightarrow> (udp_server \<times> udp_out list) option" where
  "usrv_event idle now e s = (case e of
       SvChunk chunk ok \<Rightarrow> if ToTarget \<notin> set (sv_tasks s) then None
         else if chunk = [] then Some (srv_over ToTarget s, [])
         else (case tunnel_to_target ok (sv_buf s) chunk of
             (buf, out) \<Rightarrow> Some (s\<lparr> sv_buf := buf, sv_activity := now \<rparr>, out))
     | SvBroken \<Rightarrow> if ToTarget \<notin> set (sv_tasks s) then None else Some (srv_over ToTarget s, [])
     | SvDatagram data addr \<Rightarrow> if \<not> sv_open s then None else Some (srv_received data addr s, [])
     | SvDownlink ok \<Rightarrow> if ToClient \<notin> set (sv_tasks s) then None else Some (srv_downlink ok now s)
     | SvTimer \<Rightarrow> if SrvIdle \<notin> set (sv_tasks s) \<or> sv_stopped s \<or> now \<noteq> sv_check s then None else Some (srv_idle idle now s, [])
     | SvLeave cancelled \<Rightarrow> if \<not> sv_open s \<or> \<not> (sv_stopped s \<or> cancelled) then None
         else Some (s\<lparr> sv_tasks := [], sv_open := False \<rparr>, []))"

definition srv_running :: "udp_server \<Rightarrow> bool" where
  "srv_running s \<longleftrightarrow> SrvIdle \<in> set (sv_tasks s) \<and> \<not> sv_stopped s"

definition srv_step :: "rat \<Rightarrow> rat \<times> usrv_event \<Rightarrow> udp_server \<Rightarrow> (udp_server \<times> udp_out list) option" where
  "srv_step idle te s = (case te of (now, e) \<Rightarrow>
     if now < sv_time s \<or> (srv_running s \<and> sv_check s < now) then None
     else (case usrv_event idle now e s of None \<Rightarrow> None | Some (s', out) \<Rightarrow> Some (s'\<lparr> sv_time := now \<rparr>, out)))"

fun srv_steps :: "rat \<Rightarrow> (rat \<times> usrv_event) list \<Rightarrow> udp_server \<Rightarrow> (udp_server \<times> udp_out list) option" where
  "srv_steps idle [] s = Some (s, [])"
| "srv_steps idle (te # tes) s = (case srv_step idle te s of
     None \<Rightarrow> None
   | Some (s1, out1) \<Rightarrow> (case srv_steps idle tes s1 of None \<Rightarrow> None | Some (s2, out2) \<Rightarrow> Some (s2, out1 @ out2)))"

section \<open>Idle ends\<close>

abbreviation us_after :: "rat \<Rightarrow> udp_session \<Rightarrow> udp_session \<Rightarrow> bool" where
  "us_after idle s s' \<equiv> \<exists>te out. us_step idle te s = Some (s', out)"

abbreviation srv_after :: "rat \<Rightarrow> udp_server \<Rightarrow> udp_server \<Rightarrow> bool" where
  "srv_after idle s s' \<equiv> \<exists>te out. srv_step idle te s = Some (s', out)"

lemma handle_uplink_activity:
  "handle_uplink ok now r data addr = (r', out) \<Longrightarrow> last_activity r' = last_activity r \<or> last_activity r' = now"
  by (auto simp: handle_uplink_def Let_def split: if_splits option.splits sum.splits)

lemma handle_uplink_stopped: "handle_uplink ok now r data addr = (r', out) \<Longrightarrow> stopped r \<Longrightarrow> stopped r'"
  by (auto simp: handle_uplink_def Let_def split: if_splits option.splits sum.splits)

lemma us_event_activity:
  assumes "us_event idle now e s = Some (s', out)"
  shows "last_activity (us_relay s') = last_activity (us_relay s) \<or> last_activity (us_relay s') = now"
  using assms
  by (cases e) (auto simp: us_event_def enter_run_def idle_turn_def idle_check_def leave_run_def udp_cleanup_def task_over_def
      stop_relay_def datagram_received_def uplink_consume_def tunnel_to_local_def on_direct_reply_def Let_def
      dest!: handle_uplink_activity split: if_splits prod.splits list.splits)

lemma us_event_running:
  assumes "us_event idle now e s = Some (s', out)" "idle_running s'"
  shows "(idle_running s \<and> us_began s' = us_began s \<and> us_check s' = us_check s)
    \<or> (idle_running s \<and> e = IdleTimer \<and> us_began s' = us_began s \<and> us_check s' = now + check_interval idle
        \<and> us_relay s' = us_relay s \<and> now - last_activity (us_relay s) \<le> idle)
    \<or> (us_began s' = now \<and> us_check s' = now + check_interval idle)"
  using assms
  by (cases e) (auto simp: us_event_def enter_run_def idle_turn_def idle_check_def leave_run_def udp_cleanup_def task_over_def
      stop_relay_def datagram_received_def uplink_consume_def tunnel_to_local_def on_direct_reply_def Let_def idle_running_def
      dest: handle_uplink_stopped split: if_splits prod.splits list.splits)

interpretation client_idle: idle_watched idle_running "\<lambda>s. last_activity (us_relay s)" us_began us_check us_time idle "us_after idle"
  for idle
proof (unfold_locales, goal_cases)
  case (1 s s')
  then show ?case by (auto simp: us_step_def split: prod.splits if_splits option.splits)
next
  case (2 s s')
  then show ?case using us_event_activity by (fastforce simp: us_step_def split: prod.splits if_splits option.splits)
next
  case (3 s s')
  then obtain now e out s1 where e: "us_event idle now e s = Some (s1, out)" "s' = s1\<lparr> us_time := now \<rparr>"
      "\<not> (idle_running s \<and> us_check s < now)"
    by (auto simp: us_step_def split: prod.splits if_splits option.splits)
  have "idle_running s1" using 3(2) e(2) by (simp add: idle_running_def)
  then show ?case using us_event_running[OF e(1)] e(2,3) by auto
qed

lemma usrv_event_running:
  assumes "usrv_event idle now e s = Some (s', out)"
  shows "sv_activity s' = sv_activity s \<or> sv_activity s' = now"
    "srv_running s' \<Longrightarrow> srv_running s \<and> sv_began s' = sv_began s \<and> (sv_check s' = sv_check s
      \<or> (sv_check s' = now + check_interval idle \<and> sv_activity s' = sv_activity s \<and> now - sv_activity s \<le> idle))"
  using assms
  by (cases e; auto simp: usrv_event_def srv_over_def srv_received_def srv_downlink_def srv_idle_def srv_running_def Let_def
      split: if_splits prod.splits list.splits)+

interpretation server_idle: idle_watched srv_running sv_activity sv_began sv_check sv_time idle "srv_after idle" for idle
proof (unfold_locales, goal_cases)
  case (1 s s')
  then show ?case by (auto simp: srv_step_def split: prod.splits if_splits option.splits)
next
  case (2 s s')
  then show ?case using usrv_event_running(1) by (fastforce simp: srv_step_def split: prod.splits if_splits option.splits)
next
  case (3 s s')
  then obtain now e out s1 where e: "usrv_event idle now e s = Some (s1, out)" "s' = s1\<lparr> sv_time := now \<rparr>"
      "\<not> (srv_running s \<and> sv_check s < now)"
    by (auto simp: srv_step_def split: prod.splits if_splits option.splits)
  have "srv_running s1" using 3(2) e(2) by (simp add: srv_running_def)
  then show ?case using usrv_event_running(2)[OF e(1)] e(2,3) by auto
qed

lemma us_steps_watched: "us_steps idle tes s = Some (s', out) \<Longrightarrow> client_idle.watched idle s \<Longrightarrow> client_idle.watched idle s'"
  using client_idle.watched_step by (induction tes arbitrary: s out) (auto split: option.splits, blast)

lemma srv_steps_watched: "srv_steps idle tes s = Some (s', out) \<Longrightarrow> server_idle.watched idle s \<Longrightarrow> server_idle.watched idle s'"
  using server_idle.watched_step by (induction tes arbitrary: s out) (auto split: option.splits, blast)

section \<open>Queues and streams\<close>

text \<open>What a queue's consumer has made of a queue and the arrivals: frames of what it took off, in order; all of them as long as
  nothing has failed, and nothing that arrived is missing when there was room.\<close>

definition relayed :: "('d \<Rightarrow> frame option) \<Rightarrow> 'd list \<Rightarrow> 'd list \<Rightarrow> 'd list \<Rightarrow> frame list \<Rightarrow> bool \<Rightarrow> bool" where
  "relayed f q arrived q' fs failed \<longleftrightarrow> (\<exists>taken. subseq (taken @ q') (q @ arrived)
     \<and> (length q + length arrived \<le> udp_queue_maxsize \<longrightarrow> taken @ q' = q @ arrived)
     \<and> subseq fs (List.map_filter f taken) \<and> (\<not> failed \<longrightarrow> fs = List.map_filter f taken))"

lemma map_filter_append: "List.map_filter f (xs @ ys) = List.map_filter f xs @ List.map_filter f ys"
  by (simp add: List.map_filter_def)

lemma relayed_none: "relayed f q [] q [] failed"
  by (auto simp: relayed_def List.map_filter_def intro: exI[of _ "[]"])

lemma relayed_append:
  assumes "relayed f q a1 q1 fs1 x1" "relayed f q1 a2 q2 fs2 x2" "x1 \<longrightarrow> x2"
  shows "relayed f q (a1 @ a2) q2 (fs1 @ fs2) x2"
proof -
  obtain t1 where 1: "subseq (t1 @ q1) (q @ a1)" "length q + length a1 \<le> udp_queue_maxsize \<longrightarrow> t1 @ q1 = q @ a1"
      "subseq fs1 (List.map_filter f t1)" "\<not> x1 \<longrightarrow> fs1 = List.map_filter f t1"
    using assms(1) by (auto simp: relayed_def)
  obtain t2 where 2: "subseq (t2 @ q2) (q1 @ a2)" "length q1 + length a2 \<le> udp_queue_maxsize \<longrightarrow> t2 @ q2 = q1 @ a2"
      "subseq fs2 (List.map_filter f t2)" "\<not> x2 \<longrightarrow> fs2 = List.map_filter f t2"
    using assms(2) by (auto simp: relayed_def)
  have "subseq (t1 @ t2 @ q2) (t1 @ q1 @ a2)"
    by (rule list_emb_append_mono[OF subseq_order.order_refl 2(1)])
  moreover have "subseq (t1 @ q1 @ a2) (q @ a1 @ a2)"
    using list_emb_append_mono[OF 1(1) subseq_order.order_refl[of a2]] by simp
  ultimately have s: "subseq ((t1 @ t2) @ q2) (q @ a1 @ a2)" using subseq_order.order_trans by fastforce
  have e: "(t1 @ t2) @ q2 = q @ a1 @ a2" if l: "length q + length (a1 @ a2) \<le> udp_queue_maxsize"
  proof -
    have t1: "t1 @ q1 = q @ a1" using 1(2) l by simp
    then have "length q1 \<le> length q + length a1" by (metis le_add2 length_append)
    then have "t2 @ q2 = q1 @ a2" using 2(2) l by simp
    then show ?thesis using t1 by (metis append.assoc)
  qed
  show ?thesis
    unfolding relayed_def
    by (rule exI[of _ "t1 @ t2"])
      (use s e 1(3,4) 2(3,4) assms(3) in \<open>auto simp: map_filter_append intro: list_emb_append_mono\<close>)
qed

definition tunnel_bytes :: "udp_out list \<Rightarrow> bytes" where
  "tunnel_bytes out = concat (map (\<lambda>x. case x of TunnelSend b \<Rightarrow> b | _ \<Rightarrow> []) out)"

definition direct_sends :: "udp_out list \<Rightarrow> ((pystr \<times> int) \<times> bytes) list" where
  "direct_sends out = concat (map (\<lambda>x. case x of DirectSend a d \<Rightarrow> [(a, d)] | _ \<Rightarrow> []) out)"

definition client_sends :: "udp_out list \<Rightarrow> ((pystr \<times> int) \<times> bytes) list" where
  "client_sends out = concat (map (\<lambda>x. case x of ClientSend a d \<Rightarrow> [(a, d)] | _ \<Rightarrow> []) out)"

lemma out_append [simp]:
  "tunnel_bytes (a @ b) = tunnel_bytes a @ tunnel_bytes b"
  "direct_sends (a @ b) = direct_sends a @ direct_sends b"
  "client_sends (a @ b) = client_sends a @ client_sends b"
  by (simp_all add: tunnel_bytes_def direct_sends_def client_sends_def)

text \<open>What has come in: datagrams of the client, messages of the tunnel; the same for the server.\<close>

definition us_arrivals :: "(rat \<times> udp_event) list \<Rightarrow> (bytes \<times> (pystr \<times> int)) list" where
  "us_arrivals tes = concat (map (\<lambda>te. case snd te of Arrives d a \<Rightarrow> [(d, a)] | _ \<Rightarrow> []) tes)"

definition tunnel_chunks :: "(rat \<times> udp_event) list \<Rightarrow> bytes list" where
  "tunnel_chunks tes = concat (map (\<lambda>te. case snd te of FromTunnel c ok \<Rightarrow> if c = [] then [] else [c] | _ \<Rightarrow> []) tes)"

definition srv_arrivals :: "(rat \<times> usrv_event) list \<Rightarrow> (bytes \<times> (pystr \<times> int)) list" where
  "srv_arrivals tes = concat (map (\<lambda>te. case snd te of SvDatagram d a \<Rightarrow> [(d, a)] | _ \<Rightarrow> []) tes)"

definition srv_chunks :: "(rat \<times> usrv_event) list \<Rightarrow> bytes list" where
  "srv_chunks tes = concat (map (\<lambda>te. case snd te of SvChunk c ok \<Rightarrow> if c = [] then [] else [c] | _ \<Rightarrow> []) tes)"

lemma in_Cons:
  "us_arrivals (te # tes) = us_arrivals [te] @ us_arrivals tes" "tunnel_chunks (te # tes) = tunnel_chunks [te] @ tunnel_chunks tes"
  "srv_arrivals (se # ses) = srv_arrivals [se] @ srv_arrivals ses" "srv_chunks (se # ses) = srv_chunks [se] @ srv_chunks ses"
  by (simp_all add: us_arrivals_def tunnel_chunks_def srv_arrivals_def srv_chunks_def)

text \<open>The frame made of a client's datagram, if any; what a target is sent for a frame; the frame made of a reply; what the client is
  sent for a frame.\<close>

definition accepted :: "bytes \<times> (pystr \<times> int) \<Rightarrow> frame option" where
  "accepted da = (if length (fst da) > udp_max_packet then None else parse_socks5_udp_header (fst da))"

definition deliverable :: "frame \<Rightarrow> ((pystr \<times> int) \<times> bytes) option" where
  "deliverable f = (case f of (h, p, d) \<Rightarrow>
     if length d > udp_max_packet \<or> \<not> is_ip_literal h then None else Some (normalize_addr_for_dualstack h p, d))"

definition reply_frame :: "bytes \<times> (pystr \<times> int) \<Rightarrow> frame" where
  "reply_frame da = (unmap_v4 (fst (snd da)), snd (snd da), fst da)"

definition shown_reply :: "frame \<Rightarrow> bytes option" where
  "shown_reply f = (case f of (h, p, d) \<Rightarrow> (case build_socks5_udp_header h p of Inl e \<Rightarrow> None | Inr b \<Rightarrow> Some (b @ d)))"

lemma pack_all_append:
  "pack_all (fs @ gs) = bindE (pack_all fs) (\<lambda>a. bindE (pack_all gs) (\<lambda>b. Inr (a @ b)))"
  by (induction fs rule: pack_all.induct) (auto simp: bindE_def split: sum.splits)

lemma feed_all_append:
  "feed_all buf (cs @ ds) = (case feed_all buf cs of (fs, b1) \<Rightarrow> (case feed_all b1 ds of (gs, b2) \<Rightarrow> (fs @ gs, b2)))"
  by (induction cs arbitrary: buf) (auto simp: Let_def split: prod.splits)

subsection \<open>One step\<close>

lemma uplink_consume_relays:
  assumes "uplink_consume ok now r = (r', out)" "via_tunnel r"
  shows "\<exists>fs. pack_all fs = Inr (tunnel_bytes out) \<and> relayed accepted (uplink_q r) [] (uplink_q r') fs (stopped r')"
proof (cases "uplink_q r")
  case Nil
  then have "r' = r" "out = []" using assms(1) by (auto simp: uplink_consume_def)
  then show ?thesis using relayed_none by (intro exI[of _ "[]"]) (simp add: tunnel_bytes_def)
next
  case (Cons da q)
  obtain data addr where da: "da = (data, addr)" by (cases da) blast
  have h: "handle_uplink ok now (r\<lparr> uplink_q := q \<rparr>) data addr = (r', out)"
    using assms(1) Cons da by (simp add: uplink_consume_def)
  have q: "uplink_q r' = q" using h by (auto simp: handle_uplink_def Let_def split: if_splits option.splits sum.splits)
  have r: "relayed accepted (da # q) [] q fs x"
    if "subseq fs (List.map_filter accepted [da])" "\<not> x \<longrightarrow> fs = List.map_filter accepted [da]" for fs x
    unfolding relayed_def by (rule exI[of _ "[da]"]) (use that in simp)
  show ?thesis
  proof (cases "accepted da")
    case None
    then have "out = []" using h da by (auto simp: accepted_def handle_uplink_def Let_def split: if_splits)
    then show ?thesis unfolding Cons q
      by (intro exI[of _ "[]"] conjI r) (simp_all add: None tunnel_bytes_def List.map_filter_def)
  next
    case (Some f)
    obtain hh p d where f: "f = (hh, p, d)" by (cases f)
    have a: "\<not> length data > udp_max_packet" "parse_socks5_udp_header data = Some (hh, p, d)"
      using Some f da by (auto simp: accepted_def split: if_splits)
    consider (sent) b where "pack_udp_frame hh p d = Inr b" "out = [TunnelSend b, CountUp (length d)]"
      | (failed) "stopped r'" "out = []"
      using h a assms(2) by (auto simp: handle_uplink_def Let_def split: sum.splits if_splits)
    then show ?thesis
    proof cases
      case sent
      then show ?thesis unfolding Cons q
        by (intro exI[of _ "[f]"] conjI r) (simp_all add: f tunnel_bytes_def Some List.map_filter_def)
    next
      case failed
      then show ?thesis unfolding Cons q
        by (intro exI[of _ "[]"] conjI r) (simp_all add: tunnel_bytes_def)
    qed
  qed
qed

lemma quiet_out:
  "tunnel_bytes (send_to_socks_client ok r f) = []" "tunnel_bytes (concat (map (send_to_socks_client ok r) fs)) = []"
  "tunnel_bytes (frame_to_target b f) = []" "tunnel_bytes (concat (map (\<lambda>f. frame_to_target (okf f) f) fs)) = []"
  "tunnel_bytes [] = []" "client_sends [] = []" "direct_sends [] = []"
proof -
  show a: "tunnel_bytes (send_to_socks_client ok r f) = []" for f
    by (auto simp: tunnel_bytes_def send_to_socks_client_def split: prod.split option.split sum.split)
  show b: "tunnel_bytes (frame_to_target b f) = []" for b f
    by (auto simp: tunnel_bytes_def frame_to_target_def split: prod.split)
  show "tunnel_bytes (concat (map (send_to_socks_client ok r) fs)) = []"
    using a by (induction fs) (simp_all, simp add: tunnel_bytes_def)
  show "tunnel_bytes (concat (map (\<lambda>f. frame_to_target (okf f) f) fs)) = []"
    using b by (induction fs) (simp_all, simp add: tunnel_bytes_def)
qed (simp_all add: tunnel_bytes_def client_sends_def direct_sends_def)

lemma queued:
  assumes "q' = (if length q < udp_queue_maxsize then q @ [da] else q)"
  shows "relayed f q [da] q' [] failed"
  unfolding relayed_def using assms by (intro exI[of _ "[]"]) (auto simp: List.map_filter_def)

text \<open>The steps that leave the queue alone and send nothing into the tunnel.\<close>

lemma us_event_quiet:
  assumes "us_event idle now e s = Some (s', out)" "\<forall>ok. e \<noteq> Uplink ok" "\<forall>d a. e \<noteq> Arrives d a"
  shows "uplink_q (us_relay s') = uplink_q (us_relay s) \<and> tunnel_bytes out = [] \<and> us_arrivals [(now, e)] = []"
  using assms
  by (cases e) (auto simp: us_event_def enter_run_def idle_turn_def idle_check_def leave_run_def udp_cleanup_def task_over_def
      stop_relay_def tunnel_to_local_def on_direct_reply_def Let_def quiet_out us_arrivals_def split: if_splits prod.splits)

lemma us_event_keeps:
  assumes "us_event idle now e s = Some (s', out)"
  shows "via_tunnel (us_relay s') = via_tunnel (us_relay s)" "stopped (us_relay s) \<Longrightarrow> stopped (us_relay s')"
proof -
  have h: "via_tunnel r' = via_tunnel r" if "handle_uplink ok now r d a = (r', out)" for ok r d a r'
    using that by (auto simp: handle_uplink_def Let_def split: if_splits option.splits sum.splits)
  show "via_tunnel (us_relay s') = via_tunnel (us_relay s)"
    using assms
    by (cases e) (auto simp: us_event_def enter_run_def idle_turn_def idle_check_def leave_run_def udp_cleanup_def task_over_def
      stop_relay_def datagram_received_def tunnel_to_local_def on_direct_reply_def uplink_consume_def Let_def
      dest!: h split: if_splits prod.splits list.splits)
  show "stopped (us_relay s) \<Longrightarrow> stopped (us_relay s')"
    using assms
    by (cases e) (auto simp: us_event_def enter_run_def idle_turn_def idle_check_def leave_run_def udp_cleanup_def task_over_def
      stop_relay_def datagram_received_def tunnel_to_local_def on_direct_reply_def uplink_consume_def Let_def
      dest: handle_uplink_stopped split: if_splits prod.splits list.splits)
qed

lemma us_event_relays:
  assumes e: "us_event idle now e s = Some (s', out)" and v: "via_tunnel (us_relay s)"
  shows "\<exists>fs. pack_all fs = Inr (tunnel_bytes out)
    \<and> relayed accepted (uplink_q (us_relay s)) (us_arrivals [(now, e)]) (uplink_q (us_relay s')) fs (stopped (us_relay s'))"
proof (cases e)
  case (Uplink ok)
  then obtain r out' where u: "uplink_consume ok now (us_relay s) = (r, out')" "us_relay s' = r" "out' = out"
    using e by (auto simp: us_event_def split: if_splits prod.splits)
  then show ?thesis using uplink_consume_relays[OF _ v] by (simp add: Uplink us_arrivals_def)
next
  case (Arrives d a)
  then have "us_relay s' = datagram_received (us_relay s) d a" "out = []"
    using e by (auto simp: us_event_def split: if_splits)
  then show ?thesis
    by (intro exI[of _ "[]"] conjI) (simp_all add: Arrives us_arrivals_def quiet_out datagram_received_def queued)
qed (use us_event_quiet[OF e] relayed_none in \<open>auto intro!: exI[of _ "[]"]\<close>)

lemma usrv_event_relays:
  assumes e: "usrv_event idle now e s = Some (s', out)"
  shows "(sv_stopped s \<longrightarrow> sv_stopped s') \<and> (\<exists>fs. pack_all fs = Inr (tunnel_bytes out)
    \<and> relayed (\<lambda>da. Some (reply_frame da)) (sv_queue s) (srv_arrivals [(now, e)]) (sv_queue s') fs (sv_stopped s'))"
proof (cases e)
  case (SvDatagram d a)
  then have "s' = srv_received d a s" "out = []" using e by (auto simp: usrv_event_def split: if_splits)
  then show ?thesis
    by (intro conjI exI[of _ "[]"]) (simp_all add: SvDatagram srv_arrivals_def quiet_out srv_received_def queued)
next
  case (SvDownlink ok)
  then have d: "srv_downlink ok now s = (s', out)" using e by (auto simp: usrv_event_def split: if_splits)
  show ?thesis
  proof (cases "sv_queue s")
    case Nil
    then show ?thesis using d relayed_none
      by (auto simp: SvDownlink srv_downlink_def srv_arrivals_def quiet_out intro!: exI[of _ "[]"])
  next
    case (Cons da q)
    obtain data addr where da: "da = (data, addr)" by (cases da) blast
    have r: "relayed (\<lambda>da. Some (reply_frame da)) (da # q) [] q fs x"
      if "subseq fs [reply_frame da]" "\<not> x \<longrightarrow> fs = [reply_frame da]" for fs x
      unfolding relayed_def by (rule exI[of _ "[da]"]) (use that in \<open>simp add: List.map_filter_def\<close>)
    consider (sent) b where "pack_udp_frame (unmap_v4 (fst addr)) (snd addr) data = Inr b" "out = [TunnelSend b, CountDown (length data)]"
        "sv_queue s' = q" "sv_stopped s' = sv_stopped s"
      | (failed) "out = []" "sv_queue s' = q" "sv_stopped s'"
      using d Cons da by (auto simp: srv_downlink_def downlink_consume_def srv_over_def Let_def split: sum.splits if_splits)
    then show ?thesis
    proof cases
      case sent
      then show ?thesis using r[of "[reply_frame da]" "sv_stopped s'"]
        by (intro conjI exI[of _ "[reply_frame da]"])
          (simp_all add: SvDownlink Cons srv_arrivals_def reply_frame_def da tunnel_bytes_def)
    next
      case failed
      then show ?thesis
        by (intro conjI exI[of _ "[]"]) (simp_all add: SvDownlink Cons srv_arrivals_def r quiet_out)
    qed
  qed
next
  case (SvChunk c ok)
  then have "sv_queue s' = sv_queue s" "tunnel_bytes out = []" "sv_stopped s \<longrightarrow> sv_stopped s'"
    using e by (auto simp: usrv_event_def tunnel_to_target_def srv_over_def quiet_out Let_def split: if_splits prod.splits)
  then show ?thesis using relayed_none by (intro conjI exI[of _ "[]"]) (simp_all add: SvChunk srv_arrivals_def)
qed (use e in \<open>auto simp: usrv_event_def srv_over_def srv_idle_def srv_arrivals_def quiet_out relayed_none split: if_splits intro!: exI[of _ "[]"]\<close>)

subsection \<open>Runs\<close>

lemma us_steps_relay:
  assumes "us_steps idle tes s = Some (s', out)" "via_tunnel (us_relay s)"
  shows "(stopped (us_relay s) \<longrightarrow> stopped (us_relay s')) \<and> (\<exists>fs. pack_all fs = Inr (tunnel_bytes out)
    \<and> relayed accepted (uplink_q (us_relay s)) (us_arrivals tes) (uplink_q (us_relay s')) fs (stopped (us_relay s')))"
  using assms
proof (induction tes arbitrary: s out)
  case Nil
  then show ?case using relayed_none by (auto simp: us_arrivals_def quiet_out intro!: exI[of _ "[]"])
next
  case (Cons te tes)
  obtain now e where te: "te = (now, e)" by (cases te)
  obtain s1 out1 out2 where 1: "us_event idle now e s = Some (s1, out1)" "us_steps idle tes (s1\<lparr> us_time := now \<rparr>) = Some (s', out2)"
      "out = out1 @ out2"
    using Cons.prems(1) by (auto simp: te us_step_def split: if_splits option.splits)
  note k = us_event_keeps[OF 1(1)]
  obtain fs1 where f1: "pack_all fs1 = Inr (tunnel_bytes out1)"
      "relayed accepted (uplink_q (us_relay s)) (us_arrivals [te]) (uplink_q (us_relay s1)) fs1 (stopped (us_relay s1))"
    using us_event_relays[OF 1(1) Cons.prems(2)] te by blast
  have i: "(stopped (us_relay s1) \<longrightarrow> stopped (us_relay s')) \<and> (\<exists>fs. pack_all fs = Inr (tunnel_bytes out2)
    \<and> relayed accepted (uplink_q (us_relay s1)) (us_arrivals tes) (uplink_q (us_relay s')) fs (stopped (us_relay s')))"
    using Cons.IH[OF 1(2)] Cons.prems(2) k(1) by simp
  then obtain fs2 where f2: "pack_all fs2 = Inr (tunnel_bytes out2)"
      "relayed accepted (uplink_q (us_relay s1)) (us_arrivals tes) (uplink_q (us_relay s')) fs2 (stopped (us_relay s'))"
    by blast
  have "relayed accepted (uplink_q (us_relay s)) (us_arrivals (te # tes)) (uplink_q (us_relay s')) (fs1 @ fs2) (stopped (us_relay s'))"
    unfolding in_Cons(1)[of te tes] using relayed_append[OF f1(2) f2(2)] i by blast
  then show ?case using f1(1) f2(1) i k(2) by (auto simp: 1(3) pack_all_append bindE_def intro!: exI[of _ "fs1 @ fs2"])
qed

lemma srv_steps_relay:
  assumes "srv_steps idle tes s = Some (s', out)"
  shows "(sv_stopped s \<longrightarrow> sv_stopped s') \<and> (\<exists>fs. pack_all fs = Inr (tunnel_bytes out)
    \<and> relayed (\<lambda>da. Some (reply_frame da)) (sv_queue s) (srv_arrivals tes) (sv_queue s') fs (sv_stopped s'))"
  using assms
proof (induction tes arbitrary: s out)
  case Nil
  then show ?case using relayed_none by (auto simp: srv_arrivals_def quiet_out intro!: exI[of _ "[]"])
next
  case (Cons te tes)
  obtain now e where te: "te = (now, e)" by (cases te)
  obtain s1 out1 out2 where 1: "usrv_event idle now e s = Some (s1, out1)" "srv_steps idle tes (s1\<lparr> sv_time := now \<rparr>) = Some (s', out2)"
      "out = out1 @ out2"
    using Cons.prems(1) by (auto simp: te srv_step_def split: if_splits option.splits)
  note k = usrv_event_relays[OF 1(1)]
  then obtain fs1 where f1: "pack_all fs1 = Inr (tunnel_bytes out1)"
      "relayed (\<lambda>da. Some (reply_frame da)) (sv_queue s) (srv_arrivals [te]) (sv_queue s1) fs1 (sv_stopped s1)"
    using te by blast
  have i: "(sv_stopped s1 \<longrightarrow> sv_stopped s') \<and> (\<exists>fs. pack_all fs = Inr (tunnel_bytes out2)
    \<and> relayed (\<lambda>da. Some (reply_frame da)) (sv_queue s1) (srv_arrivals tes) (sv_queue s') fs (sv_stopped s'))"
    using Cons.IH[OF 1(2)] by simp
  then obtain fs2 where f2: "pack_all fs2 = Inr (tunnel_bytes out2)"
      "relayed (\<lambda>da. Some (reply_frame da)) (sv_queue s1) (srv_arrivals tes) (sv_queue s') fs2 (sv_stopped s')"
    by blast
  have "relayed (\<lambda>da. Some (reply_frame da)) (sv_queue s) (srv_arrivals (te # tes)) (sv_queue s') (fs1 @ fs2) (sv_stopped s')"
    unfolding in_Cons(3)[of te tes] using relayed_append[OF f1(2) f2(2)] i by blast
  then show ?case using f1(1) f2(1) i k by (auto simp: 1(3) pack_all_append bindE_def intro!: exI[of _ "fs1 @ fs2"])
qed

text \<open>The streams the other way: what the tunnel's messages make the server send and the client hand back.\<close>

definition sockets_take :: "(rat \<times> usrv_event) list \<Rightarrow> bool" where
  "sockets_take tes \<longleftrightarrow> (\<forall>te \<in> set tes. \<forall>c ok. snd te = SvChunk c ok \<longrightarrow> (\<forall>f. ok f))"

definition client_takes :: "(rat \<times> udp_event) list \<Rightarrow> bool" where
  "client_takes tes \<longleftrightarrow> (\<forall>te \<in> set tes. \<forall>c ok. snd te = FromTunnel c ok \<longrightarrow> ok)"

lemma frame_to_target_is:
  "direct_sends (frame_to_target b f) = (case deliverable f of None \<Rightarrow> [] | Some x \<Rightarrow> if b then [x] else [])"
  by (cases f) (simp add: frame_to_target_def deliverable_def direct_sends_def)

lemma socks_client_is:
  "client_sends (send_to_socks_client ok r f) = (case socks_client_addr r of None \<Rightarrow> []
     | Some a \<Rightarrow> (case shown_reply f of None \<Rightarrow> [] | Some d \<Rightarrow> if ok then [(a, d)] else []))"
  by (cases f) (simp add: send_to_socks_client_def shown_reply_def client_sends_def split: option.split sum.split)

lemma frame_to_target_sends:
  "subseq (direct_sends (concat (map (\<lambda>f. frame_to_target (ok f) f) fs))) (List.map_filter deliverable fs)
    \<and> ((\<forall>f. ok f) \<longrightarrow> direct_sends (concat (map (\<lambda>f. frame_to_target (ok f) f) fs)) = List.map_filter deliverable fs)"
  by (induction fs) (auto simp: frame_to_target_is List.map_filter_simps quiet_out split: option.split)

lemma socks_client_sends:
  "subseq (map snd (client_sends (concat (map (send_to_socks_client ok r) fs)))) (List.map_filter shown_reply fs)
    \<and> (ok \<and> socks_client_addr r \<noteq> None
        \<longrightarrow> map snd (client_sends (concat (map (send_to_socks_client ok r) fs))) = List.map_filter shown_reply fs)
    \<and> fst ` set (client_sends (concat (map (send_to_socks_client ok r) fs))) \<subseteq> set_option (socks_client_addr r)"
proof (induction fs)
  case (Cons f fs)
  show ?case
    by (cases "socks_client_addr r"; cases "shown_reply f"; cases ok)
      (use Cons in \<open>simp_all add: socks_client_is List.map_filter_simps list_emb_Cons\<close>)
qed (simp add: quiet_out List.map_filter_simps)

lemma usrv_event_targets:
  assumes "usrv_event idle now e s = Some (s', out)"
  shows "\<exists>gs. feed_all (sv_buf s) (srv_chunks [(now, e)]) = (gs, sv_buf s')
    \<and> subseq (direct_sends out) (List.map_filter deliverable gs)
    \<and> (sockets_take [(now, e)] \<longrightarrow> direct_sends out = List.map_filter deliverable gs)"
proof (cases e)
  case (SvChunk c ok)
  show ?thesis
  proof (cases "c = []")
    case True
    then show ?thesis using assms
      by (auto simp: SvChunk usrv_event_def srv_over_def srv_chunks_def quiet_out List.map_filter_def split: if_splits)
  next
    case False
    obtain gs buf where g: "frames (feed (sv_buf s) c) = (gs, buf)" by fastforce
    have "out = concat (map (\<lambda>f. frame_to_target (ok f) f) gs)" "sv_buf s' = buf"
      using assms False by (auto simp: SvChunk usrv_event_def tunnel_to_target_def g split: if_splits)
    then show ?thesis using False frame_to_target_sends[of ok gs]
      by (auto simp: SvChunk srv_chunks_def g sockets_take_def)
  qed
qed (use assms in \<open>auto simp: usrv_event_def srv_over_def srv_idle_def srv_received_def srv_downlink_def downlink_consume_def srv_chunks_def
    direct_sends_def List.map_filter_def Let_def split: if_splits list.splits sum.splits\<close>)

lemma srv_steps_targets:
  assumes "srv_steps idle tes s = Some (s', out)"
  shows "\<exists>gs. feed_all (sv_buf s) (srv_chunks tes) = (gs, sv_buf s')
    \<and> subseq (direct_sends out) (List.map_filter deliverable gs)
    \<and> (sockets_take tes \<longrightarrow> direct_sends out = List.map_filter deliverable gs)"
  using assms
proof (induction tes arbitrary: s out)
  case Nil
  then show ?case by (simp add: srv_chunks_def quiet_out List.map_filter_def)
next
  case (Cons te tes)
  obtain now e where te: "te = (now, e)" by (cases te)
  obtain s1 out1 out2 where 1: "usrv_event idle now e s = Some (s1, out1)" "srv_steps idle tes (s1\<lparr> sv_time := now \<rparr>) = Some (s', out2)"
      "out = out1 @ out2"
    using Cons.prems(1) by (auto simp: te srv_step_def split: if_splits option.splits)
  obtain g1 where g1: "feed_all (sv_buf s) (srv_chunks [te]) = (g1, sv_buf s1)" "subseq (direct_sends out1) (List.map_filter deliverable g1)"
      "sockets_take [te] \<longrightarrow> direct_sends out1 = List.map_filter deliverable g1"
    using usrv_event_targets[OF 1(1)] te by blast
  obtain g2 where g2: "feed_all (sv_buf s1) (srv_chunks tes) = (g2, sv_buf s')" "subseq (direct_sends out2) (List.map_filter deliverable g2)"
      "sockets_take tes \<longrightarrow> direct_sends out2 = List.map_filter deliverable g2"
    using Cons.IH[OF 1(2)] by auto
  show ?case
    using g1 g2 list_emb_append_mono[OF g1(2) g2(2)]
    by (auto simp: in_Cons(4)[of te tes] feed_all_append 1(3) map_filter_append sockets_take_def intro!: exI[of _ "g1 @ g2"])
qed

lemma us_event_replies:
  assumes e: "us_event idle now e s = Some (s', out)" and d: "\<not> us_direct s" and v: "via_tunnel (us_relay s)"
  shows "\<not> us_direct s' \<and> (socks_client_addr (us_relay s) \<noteq> None \<longrightarrow> socks_client_addr (us_relay s') \<noteq> None)
    \<and> (\<exists>gs. feed_all (frame_buf (us_relay s)) (tunnel_chunks [(now, e)]) = (gs, frame_buf (us_relay s'))
      \<and> subseq (map snd (client_sends out)) (List.map_filter shown_reply gs)
      \<and> (client_takes [(now, e)] \<and> socks_client_addr (us_relay s) \<noteq> None \<longrightarrow> map snd (client_sends out) = List.map_filter shown_reply gs)
      \<and> fst ` set (client_sends out) \<subseteq> set_option (socks_client_addr (us_relay s)))"
proof (cases e)
  case (FromTunnel c ok)
  show ?thesis
  proof (cases "c = []")
    case True
    then show ?thesis using e d
      by (auto simp: FromTunnel us_event_def tunnel_to_local_def task_over_def tunnel_chunks_def quiet_out List.map_filter_simps split: if_splits)
  next
    case False
    obtain gs buf where g: "frames (feed (frame_buf (us_relay s)) c) = (gs, buf)" by fastforce
    have "out = concat (map (send_to_socks_client ok (us_relay s)) gs)" "frame_buf (us_relay s') = buf"
        "us_direct s' = us_direct s" "socks_client_addr (us_relay s') = socks_client_addr (us_relay s)"
      using e False by (auto simp: FromTunnel us_event_def tunnel_to_local_def g split: if_splits)
    then show ?thesis using False d socks_client_sends[of ok "us_relay s" gs]
      by (auto simp: FromTunnel tunnel_chunks_def g client_takes_def)
  qed
next
  case (Uplink ok)
  then obtain r where u: "uplink_consume ok now (us_relay s) = (r, out)" "s' = s\<lparr> us_relay := r \<rparr>"
    using e by (auto simp: us_event_def split: if_splits prod.splits)
  have "frame_buf r = frame_buf (us_relay s) \<and> client_sends out = []
      \<and> (socks_client_addr (us_relay s) \<noteq> None \<longrightarrow> socks_client_addr r \<noteq> None)"
    using u(1) v by (auto simp: uplink_consume_def handle_uplink_def Let_def client_sends_def split: list.splits if_splits option.splits sum.splits)
  then show ?thesis using u(2) d by (simp add: Uplink tunnel_chunks_def List.map_filter_simps)
qed (use e d v in \<open>auto simp: us_event_def enter_run_def idle_turn_def idle_check_def leave_run_def udp_cleanup_def task_over_def
    stop_relay_def datagram_received_def Let_def tunnel_chunks_def quiet_out List.map_filter_simps split: if_splits\<close>)

lemma us_steps_replies:
  assumes "us_steps idle tes s = Some (s', out)" "\<not> us_direct s" "via_tunnel (us_relay s)"
  shows "\<exists>gs. feed_all (frame_buf (us_relay s)) (tunnel_chunks tes) = (gs, frame_buf (us_relay s'))
      \<and> subseq (map snd (client_sends out)) (List.map_filter shown_reply gs)
      \<and> (client_takes tes \<and> socks_client_addr (us_relay s) \<noteq> None \<longrightarrow> map snd (client_sends out) = List.map_filter shown_reply gs)"
  using assms
proof (induction tes arbitrary: s out)
  case Nil
  then show ?case by (simp add: tunnel_chunks_def quiet_out List.map_filter_simps)
next
  case (Cons te tes)
  obtain now e where te: "te = (now, e)" by (cases te)
  obtain s1 out1 out2 where 1: "us_event idle now e s = Some (s1, out1)" "us_steps idle tes (s1\<lparr> us_time := now \<rparr>) = Some (s', out2)"
      "out = out1 @ out2"
    using Cons.prems(1) by (auto simp: te us_step_def split: if_splits option.splits)
  obtain g1 where g1: "feed_all (frame_buf (us_relay s)) (tunnel_chunks [te]) = (g1, frame_buf (us_relay s1))"
      "subseq (map snd (client_sends out1)) (List.map_filter shown_reply g1)"
      "client_takes [te] \<and> socks_client_addr (us_relay s) \<noteq> None \<longrightarrow> map snd (client_sends out1) = List.map_filter shown_reply g1"
      "\<not> us_direct s1" "socks_client_addr (us_relay s) \<noteq> None \<longrightarrow> socks_client_addr (us_relay s1) \<noteq> None"
    using us_event_replies[OF 1(1) Cons.prems(2,3)] te by blast
  obtain g2 where g2: "feed_all (frame_buf (us_relay s1)) (tunnel_chunks tes) = (g2, frame_buf (us_relay s'))"
      "subseq (map snd (client_sends out2)) (List.map_filter shown_reply g2)"
      "client_takes tes \<and> socks_client_addr (us_relay s1) \<noteq> None \<longrightarrow> map snd (client_sends out2) = List.map_filter shown_reply g2"
    using Cons.IH[OF 1(2)] g1(4) us_event_keeps(1)[OF 1(1)] Cons.prems(3) by auto
  show ?case
    using g1 g2 list_emb_append_mono[OF g1(2) g2(2)]
    by (auto simp: in_Cons(2)[of te tes] feed_all_append 1(3) map_filter_append client_takes_def intro!: exI[of _ "g1 @ g2"])
qed

lemma us_steps_carries:
  assumes "us_steps idle tes s = Some (s', out)" "via_tunnel (us_relay s)" "\<not> us_direct s"
  shows "via_tunnel (us_relay s')" "\<not> us_direct s'"
proof -
  have "via_tunnel (us_relay s') \<and> \<not> us_direct s'"
    using assms
  proof (induction tes arbitrary: s out)
    case (Cons te tes)
    obtain now e where te: "te = (now, e)" by (cases te)
    obtain s1 out1 out2 where 1: "us_event idle now e s = Some (s1, out1)" "us_steps idle tes (s1\<lparr> us_time := now \<rparr>) = Some (s', out2)"
      using Cons.prems(1) by (auto simp: te us_step_def split: if_splits option.splits)
    show ?case using Cons.IH[OF 1(2)] us_event_keeps(1)[OF 1(1)] us_event_replies[OF 1(1) Cons.prems(3,2)] Cons.prems(2) by simp
  qed simp
  then show "via_tunnel (us_relay s')" "\<not> us_direct s'" by simp_all
qed

lemma us_steps_append:
  "us_steps idle tes s = Some (s1, out1) \<Longrightarrow> us_steps idle tes2 s1 = Some (s2, out2) \<Longrightarrow>
    us_steps idle (tes @ tes2) s = Some (s2, out1 @ out2)"
  by (induction tes arbitrary: s out1) (auto split: option.splits)

text \<open>Nobody but the clients of the association is sent to.\<close>

lemma us_event_socks:
  assumes "us_event idle now e s = Some (s', out)" "\<forall>ok. e \<noteq> Uplink ok"
  shows "socks_client_addr (us_relay s') = socks_client_addr (us_relay s)"
  using assms
  by (cases e) (auto simp: us_event_def enter_run_def idle_turn_def idle_check_def leave_run_def udp_cleanup_def task_over_def
      stop_relay_def datagram_received_def tunnel_to_local_def on_direct_reply_def Let_def split: if_splits prod.splits)

lemma us_event_addresses:
  assumes "us_event idle now e s = Some (s', out)"
    and "set_option (socks_client_addr (us_relay s)) \<union> snd ` set (uplink_q (us_relay s)) \<subseteq> A" "snd ` set (us_arrivals [(now, e)]) \<subseteq> A"
  shows "set_option (socks_client_addr (us_relay s')) \<union> snd ` set (uplink_q (us_relay s')) \<subseteq> A"
    and "fst ` set (client_sends out) \<subseteq> A"
proof -
  have u: "set_option (socks_client_addr r') \<union> snd ` set (uplink_q r') \<subseteq> A \<and> client_sends out' = []"
    if "uplink_consume ok now (us_relay s) = (r', out')" for ok r' out'
  proof -
    have "set (uplink_q r') \<subseteq> set (uplink_q (us_relay s))"
      and "set_option (socks_client_addr r') \<subseteq> set_option (socks_client_addr (us_relay s)) \<union> snd ` set (uplink_q (us_relay s))"
      and "client_sends out' = []"
      using that
      by (auto simp: uplink_consume_def handle_uplink_def Let_def client_sends_def split: list.splits if_splits option.splits sum.splits)
    then show ?thesis using assms(2) by blast
  qed
  have c: "fst ` set (client_sends (send_to_socks_client ok r f)) \<subseteq> set_option (socks_client_addr r)" for ok r f
    by (auto simp: socks_client_is split: option.splits)
  show "set_option (socks_client_addr (us_relay s')) \<union> snd ` set (uplink_q (us_relay s')) \<subseteq> A"
  proof (cases "\<exists>ok. e = Uplink ok")
    case True
    then obtain ok r where "uplink_consume ok now (us_relay s) = (r, out)" "s' = s\<lparr> us_relay := r \<rparr>"
      using assms(1) by (auto simp: us_event_def split: if_splits prod.splits)
    then show ?thesis using u by simp
  next
    case False
    have k: "socks_client_addr (us_relay s') = socks_client_addr (us_relay s)"
      using us_event_socks[OF assms(1)] False by blast
    show ?thesis
    proof (cases "\<exists>d a. e = Arrives d a")
      case True
      then have "set (uplink_q (us_relay s')) \<subseteq> set (uplink_q (us_relay s)) \<union> set (us_arrivals [(now, e)])"
        using assms(1) by (auto simp: us_event_def datagram_received_def us_arrivals_def split: if_splits)
      then have "snd ` set (uplink_q (us_relay s')) \<subseteq> snd ` set (uplink_q (us_relay s)) \<union> snd ` set (us_arrivals [(now, e)])"
        by (metis image_Un image_mono)
      moreover have "snd ` set (uplink_q (us_relay s)) \<union> snd ` set (us_arrivals [(now, e)]) \<subseteq> A"
        using assms(2,3) by simp
      ultimately have "snd ` set (uplink_q (us_relay s')) \<subseteq> A" by (rule subset_trans)
      then show ?thesis using assms(2) by (simp add: k)
    next
      case False
      then show ?thesis using us_event_quiet[OF assms(1)] \<open>\<not> (\<exists>ok. e = Uplink ok)\<close> assms(2) k by simp
    qed
  qed
  show "fst ` set (client_sends out) \<subseteq> A"
  proof (cases e)
    case (FromTunnel chunk ok)
    then have "out = [] \<or> (\<exists>gs. out = concat (map (send_to_socks_client ok (us_relay s)) gs))"
      using assms(1) by (auto simp: us_event_def tunnel_to_local_def split: if_splits prod.splits)
    then have "fst ` set (client_sends out) \<subseteq> set_option (socks_client_addr (us_relay s))"
      using socks_client_sends[of ok "us_relay s"] by (elim disjE exE) (simp add: quiet_out, blast)
    then show ?thesis using assms(2) by blast
  next
    case (DirectArrives a d ok)
    then obtain f r where "out = send_to_socks_client ok r f" "socks_client_addr r = socks_client_addr (us_relay s)"
      using assms(1) by (auto simp: us_event_def on_direct_reply_def split: if_splits)
    then have "fst ` set (client_sends out) \<subseteq> set_option (socks_client_addr (us_relay s))" using c by metis
    then show ?thesis using assms(2) by blast
  qed (use assms(1) u in \<open>auto simp: us_event_def quiet_out split: if_splits prod.splits\<close>)
qed

lemma us_steps_addresses:
  assumes "us_steps idle tes s = Some (s', out)"
    and "set_option (socks_client_addr (us_relay s)) \<union> snd ` set (uplink_q (us_relay s)) \<subseteq> A" "snd ` set (us_arrivals tes) \<subseteq> A"
  shows "fst ` set (client_sends out) \<subseteq> A"
  using assms
proof (induction tes arbitrary: s out)
  case (Cons te tes)
  obtain now e where te: "te = (now, e)" by (cases te)
  obtain s1 out1 out2 where 1: "us_event idle now e s = Some (s1, out1)" "us_steps idle tes (s1\<lparr> us_time := now \<rparr>) = Some (s', out2)"
      "out = out1 @ out2"
    using Cons.prems(1) by (auto simp: te us_step_def split: if_splits option.splits)
  have a: "snd ` set (us_arrivals [(now, e)]) \<subseteq> A" "snd ` set (us_arrivals tes) \<subseteq> A"
    using Cons.prems(3) unfolding in_Cons(1)[of "(now, e)" tes] te by (simp_all add: image_Un)
  note u = us_event_addresses[OF 1(1) Cons.prems(2) a(1)]
  have "fst ` set (client_sends out2) \<subseteq> A" using Cons.IH[OF 1(2) _ a(2)] u(1) by simp
  then show ?case using u(2) by (simp add: 1(3) image_Un)
qed (simp add: quiet_out)

section \<open>Sockets\<close>

lemma octet4_c_number: "octet4 p = Some n \<Longrightarrow> c_number p = Some n \<and> n < 256 \<and> list_all is_digit p"
proof -
  assume o: "octet4 p = Some n"
  then have p: "p \<noteq> []" "list_all is_digit p" "\<not> (hd p = 48 \<and> 1 < length p)" "parse_digits 10 p = Some n" "n \<le> 255"
    by (auto simp: octet4_def split: if_splits option.splits)
  have u: "95 \<notin> set p" using p(2) by (auto simp: list_all_iff is_digit_def)
  have "c_number p = Some n"
  proof (cases "hd p = 48")
    case True
    then have "p = [48]" using p(1,3) by (cases p; cases "tl p") auto
    then show ?thesis using p(4) by (auto simp: c_number_def parse_digits_def base_digit_def digit_val_def)
  next
    case False
    then have "take 2 p \<noteq> [48, 120]" "take 2 p \<noteq> [48, 88]" using p(1) by (cases p; simp)+
    then show ?thesis using False p(1,4) u by (simp add: c_number_def)
  qed
  then show ?thesis using p(2,5) by simp
qed

lemma split_char_all: "\<forall>w \<in> set (split_char c s). list_all P w \<Longrightarrow> list_all (\<lambda>x. x = c \<or> P x) s"
  by (induction c s rule: split_char.induct) (auto split: if_splits list.splits)

lemma parse_v4_aton:
  assumes "parse_v4 s = Some n"
  shows "aton s \<noteq> None"
proof -
  obtain a b c d where o: "map octet4 (split_char 46 s) = [Some a, Some b, Some c, Some d]"
    using assms by (auto simp: parse_v4_def split: list.splits option.splits)
  have w: "\<exists>m. octet4 w = Some m" if "w \<in> set (split_char 46 s)" for w
  proof -
    have "octet4 w \<in> set (map octet4 (split_char 46 s))" using that by simp
    then show ?thesis unfolding o by auto
  qed
  then have "\<forall>w \<in> set (split_char 46 s). list_all is_digit w" using octet4_c_number by blast
  then have "list_all (\<lambda>x. x = 46 \<or> is_digit x) s" by (rule split_char_all)
  then have t: "takeWhile (\<lambda>c. \<not> c_space c) s = s"
    by (auto simp: takeWhile_eq_all_conv list_all_iff is_digit_def c_space_def)
  have "map c_number (split_char 46 s) = map octet4 (split_char 46 s)"
    using w octet4_c_number by fastforce
  moreover have "a < 256" "b < 256" "c < 256" "d < 256"
    using o octet4_c_number by (auto simp: map_eq_Cons_conv)
  ultimately show ?thesis by (simp add: aton_def t o aton_parts_def)
qed

lemma parse_v6_colon: "parse_v6 s = Some n \<Longrightarrow> 58 \<in> set s"
proof (rule ccontr)
  assume p: "parse_v6 s = Some n" and c: "58 \<notin> set s"
  obtain a where a: "strip_scope s = Some a" "\<not> length (split_char 58 a) < 3"
    using p by (auto simp: parse_v6_def Let_def split: option.splits if_splits)
  have "set a \<subseteq> set s" using a(1) set_takeWhileD
    by (fastforce simp: strip_scope_def partition1_def split: if_splits option.splits)
  then have "split_char 58 a = [a]" using c by (intro split_char_single) auto
  then show False using a(2) by simp
qed

text \<open>Every address given to the outgoing socket is an IPv6 one: the socket of the fallback, which is for IPv4 only, can send to
  none of them.\<close>

lemma targets_are_v6: "deliverable f = Some (a, d) \<Longrightarrow> 58 \<in> set (fst a)"
proof -
  assume f: "deliverable f = Some (a, d)"
  obtain h p where h: "is_ip_literal h" "a = normalize_addr_for_dualstack h p"
    using f by (auto simp: deliverable_def split: prod.splits if_splits)
  show ?thesis
  proof (cases "58 \<in> set h")
    case False
    then obtain n where "parse_v4 h = Some n"
      using h(1) parse_v6_colon by (auto simp: is_ip_literal_def ip_address_def split: option.splits)
    then show ?thesis using parse_v4_aton False h(2) by (auto simp: normalize_addr_for_dualstack_def U_def split: option.split)
  qed (simp add: h(2) normalize_addr_for_dualstack_def)
qed

text \<open>A session whose reply cannot be written, or whose direct socket cannot be made, never runs, and its local socket stays.\<close>

lemma left_stays: "us_steps idle tes s = Some (s', out) \<Longrightarrow> us_phase s = Departed \<Longrightarrow> us_tasks s = [] \<Longrightarrow> \<not> us_direct s \<Longrightarrow>
  us_phase s' = Departed \<and> us_local s' = us_local s \<and> us_tasks s' = []"
proof (induction tes arbitrary: s out)
  case (Cons te tes)
  obtain now e where te: "te = (now, e)" by (cases te)
  obtain s1 out1 out2 where 1: "us_event idle now e s = Some (s1, out1)" "us_steps idle tes (s1\<lparr> us_time := now \<rparr>) = Some (s', out2)"
    using Cons.prems(1) by (auto simp: te us_step_def split: if_splits option.splits)
  have "us_phase s1 = Departed \<and> us_local s1 = us_local s \<and> us_tasks s1 = [] \<and> \<not> us_direct s1"
    using 1(1) Cons.prems(2-) by (cases e) (auto simp: us_event_def split: if_splits)
  then show ?case using Cons.IH[OF 1(2)] by simp
qed simp

lemma failed_reply_leaks_socket:
  assumes "us_steps idle ([(t, Bind True), (t, Associated False)] @ tes) (new_udp_session tun t) = Some (s, out)"
  shows "us_local s"
proof -
  let ?s1 = "(new_udp_session tun t)\<lparr> us_phase := Departed, us_local := True \<rparr>"
  have "us_steps idle tes ?s1 = Some (s, out)"
    using assms by (auto simp: us_step_def us_event_def new_udp_session_def idle_running_def split: option.splits prod.splits)
  then show ?thesis using left_stays[of idle tes ?s1] by (simp add: new_udp_session_def)
qed

lemma failed_direct_socket_leaks:
  assumes "us_steps idle ([(t, Bind True), (t, Serve False)] @ tes) (new_udp_session False t) = Some (s, out)"
  shows "us_local s"
proof -
  let ?s1 = "(new_udp_session False t)\<lparr> us_phase := Departed, us_local := True, us_check := t + check_interval idle \<rparr>"
  have "us_steps idle tes ?s1 = Some (s, out)"
    using assms by (auto simp: us_step_def us_event_def new_udp_session_def new_udp_relay_def enter_run_def idle_running_def
      split: option.splits prod.splits)
  then show ?thesis using left_stays[of idle tes ?s1] by (simp add: new_udp_session_def)
qed

section \<open>Properties\<close>

text \<open>C10: UDP through the tunnel, outwards.  Over any run of a client's relay and of the server's handler, when the bytes the server
  has read from the tunnel are a first part of what the relay has sent: the datagrams the server sends to targets are, in the order
  the client's datagrams came in, for datagrams with a valid header, and with its payload and target address, none twice and none
  that was not asked for; and when the relay has not been stopped, no more than the queue holds have come in, all has been read and the socket
  takes everything, they are exactly those of the datagrams that have left the queue whose target is an address literal.\<close>

theorem udp_uplink_faithful:
  assumes "us_steps idle tes (new_udp_session True t0) = Some (s, out)"
    and "srv_steps idle' ses (new_udp_server idle' t1 t2) = Some (v, out')"
    and "tunnel_bytes out = concat (srv_chunks ses) @ rest"
  shows "\<exists>taken. subseq (taken @ uplink_q (us_relay s)) (us_arrivals tes)
    \<and> subseq (direct_sends out') (List.map_filter deliverable (List.map_filter accepted taken))
    \<and> (length (us_arrivals tes) \<le> udp_queue_maxsize \<longrightarrow> taken @ uplink_q (us_relay s) = us_arrivals tes)
    \<and> (\<not> stopped (us_relay s) \<and> rest = [] \<and> sockets_take ses
        \<longrightarrow> direct_sends out' = List.map_filter deliverable (List.map_filter accepted taken))"
proof -
  have v: "via_tunnel (us_relay (new_udp_session True t0))" by (simp add: new_udp_session_def new_udp_relay_def)
  have q: "uplink_q (us_relay (new_udp_session True t0)) = []" by (simp add: new_udp_session_def new_udp_relay_def)
  obtain fs taken where fs: "pack_all fs = Inr (tunnel_bytes out)" "subseq fs (List.map_filter accepted taken)"
      "\<not> stopped (us_relay s) \<longrightarrow> fs = List.map_filter accepted taken" "subseq (taken @ uplink_q (us_relay s)) (us_arrivals tes)"
      "length (us_arrivals tes) \<le> udp_queue_maxsize \<longrightarrow> taken @ uplink_q (us_relay s) = us_arrivals tes"
    using us_steps_relay[OF assms(1) v] by (auto simp: relayed_def q)
  have b: "sv_buf (new_udp_server idle' t1 t2) = []" by (simp add: new_udp_server_def)
  obtain gs where gs: "feed_all [] (srv_chunks ses) = (gs, sv_buf v)" "subseq (direct_sends out') (List.map_filter deliverable gs)"
      "sockets_take ses \<longrightarrow> direct_sends out' = List.map_filter deliverable gs"
    using srv_steps_targets[OF assms(2)] by (auto simp: b)
  have "frames (concat (srv_chunks ses)) = (gs, sv_buf v)"
    using feed_all_concat[of "[]" "srv_chunks ses"] gs(1) by (simp add: frames_short)
  then obtain gs' where p: "fs = gs @ gs'" "rest = [] \<longrightarrow> gs' = []"
    using frames_pack_all[OF fs(1)] frames_append[of "concat (srv_chunks ses)" rest] assms(3) by (cases "rest = []") auto
  have "subseq gs fs" unfolding p(1) by (intro prefix_imp_subseq prefixI) simp
  then have "subseq gs (List.map_filter accepted taken)" using fs(2) subseq_order.order_trans by blast
  then have "subseq (List.map_filter deliverable gs) (List.map_filter deliverable (List.map_filter accepted taken))"
    unfolding List.map_filter_def[of deliverable] by (intro subseq_map subseq_filter)
  then have "subseq (direct_sends out') (List.map_filter deliverable (List.map_filter accepted taken))"
    using gs(2) subseq_order.order_trans by blast
  then show ?thesis using fs p gs(3) by auto
qed

text \<open>C11: UDP through the tunnel, inwards.  When the bytes the client's relay has read from the tunnel are a first part of what the
  server has sent: what the relay hands its SOCKS5 clients are, in order, replies that came from targets, each with a header
  naming where it came from; it goes only to addresses that have sent a datagram to this association; and when nothing fails and no
  more than the queue holds have come in, every reply taken off the queue is handed on.\<close>

theorem udp_downlink_faithful:
  assumes "srv_steps idle' ses (new_udp_server idle' t1 t2) = Some (v, out')"
    and "us_steps idle tes0 (new_udp_session True t0) = Some (s0, out0)" "tunnel_chunks tes0 = []"
    and "us_steps idle tes s0 = Some (s, out)"
    and "tunnel_bytes out' = concat (tunnel_chunks tes) @ rest"
  shows "fst ` set (client_sends out) \<subseteq> snd ` set (us_arrivals (tes0 @ tes))
    \<and> (\<exists>taken. subseq (taken @ sv_queue v) (srv_arrivals ses)
      \<and> subseq (map snd (client_sends out)) (List.map_filter shown_reply (map reply_frame taken))
      \<and> (length (srv_arrivals ses) \<le> udp_queue_maxsize \<longrightarrow> taken @ sv_queue v = srv_arrivals ses)
      \<and> (\<not> sv_stopped v \<and> rest = [] \<and> client_takes tes \<and> socks_client_addr (us_relay s0) \<noteq> None
          \<longrightarrow> map snd (client_sends out) = List.map_filter shown_reply (map reply_frame taken)))"
proof -
  have n: "via_tunnel (us_relay (new_udp_session True t0))" "\<not> us_direct (new_udp_session True t0)"
    "frame_buf (us_relay (new_udp_session True t0)) = []" "uplink_q (us_relay (new_udp_session True t0)) = []"
    "socks_client_addr (us_relay (new_udp_session True t0)) = None"
    by (simp_all add: new_udp_session_def new_udp_relay_def)
  have q: "sv_queue (new_udp_server idle' t1 t2) = []" by (simp add: new_udp_server_def)
  have mf: "List.map_filter (\<lambda>da. Some (reply_frame da)) xs = map reply_frame xs" for xs
    by (induction xs) (simp_all add: List.map_filter_simps)
  obtain fs taken where fs: "pack_all fs = Inr (tunnel_bytes out')" "subseq fs (map reply_frame taken)"
      "\<not> sv_stopped v \<longrightarrow> fs = map reply_frame taken" "subseq (taken @ sv_queue v) (srv_arrivals ses)"
      "length (srv_arrivals ses) \<le> udp_queue_maxsize \<longrightarrow> taken @ sv_queue v = srv_arrivals ses"
    using srv_steps_relay[OF assms(1)] by (auto simp: relayed_def q mf)
  note s0 = us_steps_carries[OF assms(2) n(1,2)]
  have b: "frame_buf (us_relay s0) = []" using us_steps_replies[OF assms(2) n(2,1)] assms(3) n(3) by simp
  obtain gs where gs: "feed_all [] (tunnel_chunks tes) = (gs, frame_buf (us_relay s))"
      "subseq (map snd (client_sends out)) (List.map_filter shown_reply gs)"
      "client_takes tes \<and> socks_client_addr (us_relay s0) \<noteq> None \<longrightarrow> map snd (client_sends out) = List.map_filter shown_reply gs"
    using us_steps_replies[OF assms(4)] s0 b by auto
  have "frames (concat (tunnel_chunks tes)) = (gs, frame_buf (us_relay s))"
    using feed_all_concat[of "[]" "tunnel_chunks tes"] gs(1) by (simp add: frames_short)
  then obtain gs' where p: "fs = gs @ gs'" "rest = [] \<longrightarrow> gs' = []"
    using frames_pack_all[OF fs(1)] frames_append[of "concat (tunnel_chunks tes)" rest] assms(5) by (cases "rest = []") auto
  have "subseq gs fs" unfolding p(1) by (intro prefix_imp_subseq prefixI) simp
  then have "subseq gs (map reply_frame taken)" using fs(2) subseq_order.order_trans by blast
  then have "subseq (List.map_filter shown_reply gs) (List.map_filter shown_reply (map reply_frame taken))"
    unfolding List.map_filter_def[of shown_reply] by (intro subseq_map subseq_filter)
  then have s: "subseq (map snd (client_sends out)) (List.map_filter shown_reply (map reply_frame taken))"
    using gs(2) subseq_order.order_trans by blast
  have "us_steps idle (tes0 @ tes) (new_udp_session True t0) = Some (s, out0 @ out)"
    by (rule us_steps_append[OF assms(2,4)])
  then have "fst ` set (client_sends (out0 @ out)) \<subseteq> snd ` set (us_arrivals (tes0 @ tes))"
    by (rule us_steps_addresses) (simp_all add: n)
  then have "fst ` set (client_sends out) \<subseteq> snd ` set (us_arrivals (tes0 @ tes))" by (simp add: image_Un)
  then show ?thesis using s fs p gs(3) by auto
qed


text \<open>An association with one query of a client to an address and its answer.\<close>

definition query_datagram :: bytes where
  "query_datagram = [0, 0, 0, 1, 1, 2, 3, 4, 0, 53, 7]"
definition query_frame :: bytes where
  "query_frame = [0, 11, 7, 49, 46, 50, 46, 51, 46, 52, 0, 53, 7]"

lemma query_parsed: "parse_socks5_udp_header query_datagram = Some (U ''1.2.3.4'', 53, [7])"
  by code_simp
lemma query_packed: "pack_udp_frame (U ''1.2.3.4'') 53 [7] = Inr query_frame"
  by (simp add: pack_udp_frame_def pack_address_def pack_port_def eval_be U_def utf8_cp_def query_frame_def)
lemma query_address: "parse_v4 (U ''1.2.3.4'') = Some 16909060"
  by (simp add: parse_v4_def octet4_def is_digit_def parse_digits_def base_digit_def digit_val_def U_def)

lemma query_delivered: "deliverable (U ''1.2.3.4'', 53, [7]) = Some ((U ''::ffff:1.2.3.4'', 53), [7])"
proof -
  have "is_ip_literal (U ''1.2.3.4'')" using query_address by (simp add: is_ip_literal_def ip_address_def)
  moreover have "normalize_addr_for_dualstack (U ''1.2.3.4'') 53 = (U ''::ffff:1.2.3.4'', 53)"
    using parse_v4_aton[OF query_address] by (auto simp: normalize_addr_for_dualstack_def U_def)
  ultimately show ?thesis by (simp add: deliverable_def udp_max_packet_def)
qed

lemma query_framed: "frames query_frame = ([(U ''1.2.3.4'', 53, [7])], [])"
  using frames_pack_udp_frame[OF query_packed, of "[]"] by (simp add: frames_short)

definition query_run :: "(rat \<times> udp_event) list" where
  "query_run = [(0, Bind True), (0, Associated True), (0, Serve True), (1, Arrives query_datagram (U ''c'', 9)), (1, Uplink True)]"

lemma query_sent:
  "\<exists>s. us_steps 60 query_run (new_udp_session True 0) = Some (s, [TunnelSend query_frame, CountUp 1])
    \<and> \<not> stopped (us_relay s) \<and> uplink_q (us_relay s) = [] \<and> socks_client_addr (us_relay s) = Some (U ''c'', 9) \<and> idle_running s
    \<and> TunnelTask \<in> set (us_tasks s) \<and> us_time s = 1 \<and> us_check s = 15"
  by (simp add: query_run_def us_step_def us_event_def new_udp_session_def new_udp_relay_def idle_running_def enter_run_def
    check_interval_def datagram_received_def udp_queue_maxsize_def uplink_consume_def handle_uplink_def query_parsed query_packed
    udp_max_packet_def Let_def) (simp add: query_datagram_def)
lemma query_out:
  "\<exists>v. srv_steps 600 [(1, SvChunk query_frame (\<lambda>_. True))] (new_udp_server 600 0 0)
     = Some (v, [DirectSend (U ''::ffff:1.2.3.4'', 53) [7], CountUp 1])"
  using query_delivered
  by (auto simp add: srv_step_def usrv_event_def new_udp_server_def srv_running_def check_interval_def tunnel_to_target_def
    query_framed feed_def frame_to_target_def deliverable_def split: if_splits) (simp add: query_frame_def)+

theorem udp_uplink_faithful_witness:
  "\<exists>taken. subseq taken [(query_datagram, (U ''c'', 9))]
    \<and> [((U ''::ffff:1.2.3.4'', 53), [7])] = List.map_filter deliverable (List.map_filter accepted taken)"
proof -
  obtain s where s: "us_steps 60 query_run (new_udp_session True 0) = Some (s, [TunnelSend query_frame, CountUp 1])"
      "\<not> stopped (us_relay s)" "uplink_q (us_relay s) = []"
    using query_sent by blast
  obtain v where v: "srv_steps 600 [(1, SvChunk query_frame (\<lambda>_. True))] (new_udp_server 600 0 0)
      = Some (v, [DirectSend (U ''::ffff:1.2.3.4'', 53) [7], CountUp 1])"
    using query_out by blast
  have w: "tunnel_bytes [TunnelSend query_frame, CountUp 1] = concat (srv_chunks [(1, SvChunk query_frame (\<lambda>_. True))]) @ []"
    by (simp add: tunnel_bytes_def srv_chunks_def query_frame_def)
  have a: "us_arrivals query_run = [(query_datagram, (U ''c'', 9))]" by (simp add: query_run_def us_arrivals_def)
  have t: "sockets_take [(1, SvChunk query_frame (\<lambda>_. True))]" by (simp add: sockets_take_def)
  obtain taken where taken: "subseq (taken @ uplink_q (us_relay s)) (us_arrivals query_run)"
      "direct_sends [DirectSend (U ''::ffff:1.2.3.4'', 53) [7], CountUp 1] = List.map_filter deliverable (List.map_filter accepted taken)"
    using udp_uplink_faithful[OF s(1) v w] s(2) t by blast
  show ?thesis
    by (rule exI[of _ taken]) (use taken in \<open>simp add: a s(3) direct_sends_def\<close>)
qed


definition answer_frame :: bytes where
  "answer_frame = [0, 11, 7, 49, 46, 50, 46, 51, 46, 52, 0, 53, 8]"

lemma answer_packed: "pack_udp_frame (U ''1.2.3.4'') 53 [8] = Inr answer_frame"
  by (simp add: pack_udp_frame_def pack_address_def pack_port_def eval_be U_def utf8_cp_def answer_frame_def)

lemma answer_framed: "frames answer_frame = ([(U ''1.2.3.4'', 53, [8])], [])"
  using frames_pack_udp_frame[OF answer_packed, of "[]"] by (simp add: frames_short)

lemma answer_sent:
  "\<exists>v. srv_steps 600 [(2, SvDatagram [8] (U ''1.2.3.4'', 53)), (2, SvDownlink True)] (new_udp_server 600 0 0)
     = Some (v, [TunnelSend answer_frame, CountDown 1]) \<and> \<not> sv_stopped v \<and> sv_queue v = []"
proof -
  have "unmap_v4 (U ''1.2.3.4'') = U ''1.2.3.4''" using query_address by (simp add: unmap_v4_def ip_address_def)
  then show ?thesis
    by (simp add: srv_step_def usrv_event_def new_udp_server_def srv_running_def check_interval_def srv_received_def udp_queue_maxsize_def
        srv_downlink_def downlink_consume_def answer_packed)
qed

theorem udp_downlink_faithful_witness:
  "\<exists>s0 s out taken. us_steps 60 query_run (new_udp_session True 0) = Some (s0, [TunnelSend query_frame, CountUp 1])
    \<and> us_steps 60 [(3, FromTunnel answer_frame True)] s0 = Some (s, out)
    \<and> fst ` set (client_sends out) \<subseteq> {(U ''c'', 9)}
    \<and> map snd (client_sends out) = List.map_filter shown_reply (map reply_frame taken)
    \<and> subseq taken [([8], (U ''1.2.3.4'', 53))]"
proof -
  obtain s0 where s0: "us_steps 60 query_run (new_udp_session True 0) = Some (s0, [TunnelSend query_frame, CountUp 1])"
      "socks_client_addr (us_relay s0) = Some (U ''c'', 9)" "TunnelTask \<in> set (us_tasks s0)" "us_time s0 = 1" "us_check s0 = 15"
    using query_sent by blast
  obtain s out where s: "us_steps 60 [(3, FromTunnel answer_frame True)] s0 = Some (s, out)"
    using s0(3-5) by (cases "tunnel_to_local True 3 (us_relay s0) answer_frame") (auto simp: us_step_def us_event_def)
  obtain v where v: "srv_steps 600 [(2, SvDatagram [8] (U ''1.2.3.4'', 53)), (2, SvDownlink True)] (new_udp_server 600 0 0)
      = Some (v, [TunnelSend answer_frame, CountDown 1])" "\<not> sv_stopped v" "sv_queue v = []"
    using answer_sent by blast
  have c: "tunnel_chunks query_run = []" by (simp add: query_run_def tunnel_chunks_def)
  have w: "tunnel_bytes [TunnelSend answer_frame, CountDown 1] = concat (tunnel_chunks [(3, FromTunnel answer_frame True)]) @ []"
    by (simp add: tunnel_bytes_def tunnel_chunks_def answer_frame_def)
  have k: "client_takes [(3, FromTunnel answer_frame True)]" by (simp add: client_takes_def)
  have a: "snd ` set (us_arrivals (query_run @ [(3, FromTunnel answer_frame True)])) = {(U ''c'', 9)}"
    "srv_arrivals [(2, SvDatagram [8] (U ''1.2.3.4'', 53)), (2, SvDownlink True)] = [([8], (U ''1.2.3.4'', 53))]"
    by (simp_all add: query_run_def us_arrivals_def srv_arrivals_def)
  have n: "socks_client_addr (us_relay s0) \<noteq> None" using s0(2) by simp
  obtain taken where "fst ` set (client_sends out) \<subseteq> {(U ''c'', 9)}" "subseq (taken @ sv_queue v) [([8], (U ''1.2.3.4'', 53))]"
      "map snd (client_sends out) = List.map_filter shown_reply (map reply_frame taken)"
    using udp_downlink_faithful[OF v(1) s0(1) c s w] v(2) k n unfolding a by blast
  then show ?thesis using s0(1) s v(3) by auto
qed
end
