(* ===== verification/Health_Check.thy ===== *)
theory Health_Check
  imports Complex_Main Outbound_Build
begin

text \<open>
  The health check (core/healthcheck.py): a task that looks at every Mirage outbound once in a scan interval and starts a
  probe of each whose newest latency sample is old.  A probe is a build of the outbound's pool (\<open>probe_once\<close>), which ends in a sample
  or a failure within the pool's build timeout; traffic makes samples, failures and choices too (\<open>outb_step\<close>).
\<close>

definition scan_interval :: rat where "scan_interval = 60"

definition stale_after :: rat where "stale_after = 300"

fun is_mirage :: "outb \<Rightarrow> bool" where
  "is_mirage (Mirage m) = True"
| "is_mirage _ = False"

text \<open>\<open>hl_probing\<close>: the probes under way, each with the time it began; \<open>hl_scanned\<close>: the time of the last scan of this run of the
  task; \<open>hl_began\<close>: when the task was started.\<close>

record health =
  hl_obs :: "outb list"
  hl_targets :: "nat list"
  hl_task :: bool
  hl_next :: rat
  hl_probing :: "(nat \<times> rat) list"
  hl_began :: rat
  hl_scanned :: "rat option"
  hl_now :: rat

definition new_health :: "outb list \<Rightarrow> nat list \<Rightarrow> rat \<Rightarrow> health" where
  "new_health obs values now = \<lparr> hl_obs = obs, hl_targets = filter (\<lambda>a. is_mirage (obs ! a)) values, hl_task = False, hl_next = now,
     hl_probing = [], hl_began = now, hl_scanned = None, hl_now = now \<rparr>"

definition health_start :: "rat \<Rightarrow> health \<Rightarrow> health" where
  "health_start now h = (if hl_task h \<or> hl_targets h = [] then h
     else h\<lparr> hl_task := True, hl_next := now + scan_interval, hl_began := now, hl_scanned := None \<rparr>)"

text \<open>\<open>stop\<close> ends the scanning; probes under way go on.\<close>

definition health_stop :: "health \<Rightarrow> health" where
  "health_stop h = h\<lparr> hl_task := False \<rparr>"

definition sample_stale :: "rat \<Rightarrow> outb \<Rightarrow> bool" where
  "sample_stale now x = (case x of
       Mirage m \<Rightarrow> (case latency_age now m of None \<Rightarrow> True | Some age \<Rightarrow> age > stale_after)
     | _ \<Rightarrow> False)"

definition health_scan :: "rat \<Rightarrow> health \<Rightarrow> health" where
  "health_scan now h = h\<lparr> hl_probing := hl_probing h @ map (\<lambda>a. (a, now)) (filter (\<lambda>a. sample_stale now (hl_obs h ! a)) (hl_targets h)),
     hl_next := now + scan_interval, hl_scanned := Some now \<rparr>"

definition probe_ended :: "nat \<times> rat \<Rightarrow> rat option \<Rightarrow> rat \<Rightarrow> health \<Rightarrow> health" where
  "probe_ended p result now h = (case hl_obs h ! fst p of
       Mirage m \<Rightarrow> h\<lparr> hl_obs := (hl_obs h)[fst p := Mirage (case result of Some ms \<Rightarrow> record_latency ms now m | None \<Rightarrow> record_failure m)],
         hl_probing := remove1 p (hl_probing h) \<rparr>
     | _ \<Rightarrow> h\<lparr> hl_probing := remove1 p (hl_probing h) \<rparr>)"

text \<open>What happens at a time: the clock goes forward, no scan is late and no probe outlives the build timeout.\<close>

inductive health_run :: "rat \<Rightarrow> health \<Rightarrow> health \<Rightarrow> bool" for timeout h0 where
  hl_init: "health_run timeout h0 h0"
| hl_tick: "health_run timeout h0 h \<Longrightarrow> hl_now h \<le> t \<Longrightarrow> hl_task h \<longrightarrow> t \<le> hl_next h \<Longrightarrow> \<forall>p \<in> set (hl_probing h). t \<le> snd p + timeout
    \<Longrightarrow> health_run timeout h0 (h\<lparr> hl_now := t \<rparr>)"
| hl_started: "health_run timeout h0 h \<Longrightarrow> health_run timeout h0 (health_start (hl_now h) h)"
| hl_stopped: "health_run timeout h0 h \<Longrightarrow> health_run timeout h0 (health_stop h)"
| hl_scans: "health_run timeout h0 h \<Longrightarrow> hl_task h \<Longrightarrow> hl_now h = hl_next h \<Longrightarrow> health_run timeout h0 (health_scan (hl_now h) h)"
| hl_probed: "health_run timeout h0 h \<Longrightarrow> p \<in> set (hl_probing h) \<Longrightarrow> health_run timeout h0 (probe_ended p result (hl_now h) h)"
| hl_traffic: "health_run timeout h0 h \<Longrightarrow> a < length (hl_obs h) \<Longrightarrow> hl_obs h ! a = Mirage m
    \<Longrightarrow> health_run timeout h0 (h\<lparr> hl_obs := (hl_obs h)[a := Mirage (record_latency ms (hl_now h) m)] \<rparr>)"
| hl_fails: "health_run timeout h0 h \<Longrightarrow> a < length (hl_obs h) \<Longrightarrow> hl_obs h ! a = Mirage m
    \<Longrightarrow> health_run timeout h0 (h\<lparr> hl_obs := (hl_obs h)[a := Mirage (record_failure m)] \<rparr>)"
| hl_select: "health_run timeout h0 h \<Longrightarrow> a < length (hl_obs h) \<Longrightarrow> health_run timeout h0 (h\<lparr> hl_obs := snd (selector_select (hl_obs h) a t) \<rparr>)"
| hl_use: "health_run timeout h0 h \<Longrightarrow> a < length (hl_obs h) \<Longrightarrow> health_run timeout h0 (h\<lparr> hl_obs := snd (resolve_leaf (hl_obs h) a) \<rparr>)"

section \<open>The outbounds\<close>

lemma mirage_same: "same obs' obs \<Longrightarrow> a < length obs \<Longrightarrow> obs ! a = Mirage m \<Longrightarrow> obs' ! a = Mirage m"
  using same_shape[of obs' obs a] by (cases "obs' ! a") auto

lemma resolve_leaf_same: "same (snd (resolve_leaf obs a)) obs"
  using resolve_same[of "2 * a + 2" obs a] by (simp add: resolve_leaf_def)

lemma select_mirage: "obs ! b = Mirage m \<Longrightarrow> snd (selector_select obs a t) ! b = Mirage m"
  by (cases "a = b"; cases "obs ! a") (auto simp: selector_select_def)

lemma select_length: "length (snd (selector_select obs a t)) = length obs"
  by (simp add: selector_select_def split: outb.split)

text \<open>Health checking does to the outbounds what may happen to them anyway.\<close>

lemma health_run_outb_steps:
  assumes "health_run timeout h0 h" "\<forall>a \<in> set (hl_targets h0). a < length (hl_obs h0) \<and> is_mirage (hl_obs h0 ! a)" "hl_probing h0 = []"
  shows "outb_step\<^sup>*\<^sup>* (hl_obs h0) (hl_obs h) \<and> hl_targets h = hl_targets h0 \<and> length (hl_obs h) = length (hl_obs h0)
    \<and> fst ` set (hl_probing h) \<subseteq> set (hl_targets h0) \<and> (\<forall>a \<in> set (hl_targets h0). is_mirage (hl_obs h ! a))"
  using assms(1)
proof (induction rule: health_run.induct)
  case hl_init
  then show ?case using assms(2,3) by simp
next
  case (hl_started h)
  then show ?case by (simp add: health_start_def)
next
  case (hl_scans h)
  then show ?case by (auto simp: health_scan_def)
next
  case (hl_probed h p result)
  then have p: "fst p \<in> set (hl_targets h0)" by auto
  then obtain m where m: "hl_obs h ! fst p = Mirage m" "fst p < length (hl_obs h)"
    using hl_probed assms(2) by (metis is_mirage.elims(2))
  have "outb_step (hl_obs h) (hl_obs (probe_ended p result (hl_now h) h))"
    using m outb_step.Sample[OF m(2,1)] outb_step.Failure[OF m(2,1)] by (cases result) (simp_all add: probe_ended_def)
  then show ?case using hl_probed m set_remove1_subset[of p "hl_probing h"]
    by (auto simp: probe_ended_def nth_list_update dest: rtranclp.rtrancl_into_rtrancl)
next
  case (hl_traffic h a m ms)
  then show ?case using outb_step.Sample[OF hl_traffic(2,3)] by (auto simp: nth_list_update intro: rtranclp.rtrancl_into_rtrancl)
next
  case (hl_fails h a m)
  then show ?case using outb_step.Failure[OF hl_fails(2,3)] by (auto simp: nth_list_update intro: rtranclp.rtrancl_into_rtrancl)
next
  case (hl_select h a t)
  have "is_mirage (snd (selector_select (hl_obs h) a t) ! b)" if "is_mirage (hl_obs h ! b)" for b
    using that select_mirage by (metis is_mirage.elims(2) is_mirage.simps(1))
  then show ?case using hl_select outb_step.Select[OF hl_select(2)] by (auto simp: select_length intro: rtranclp.rtrancl_into_rtrancl)
next
  case (hl_use h a)
  have "is_mirage (snd (resolve_leaf (hl_obs h) a) ! b)" if "is_mirage (hl_obs h ! b)" "b < length (hl_obs h)" for b
    using that mirage_same[OF resolve_leaf_same] by (metis is_mirage.elims(2) is_mirage.simps(1))
  then show ?case using hl_use outb_step.Use[OF hl_use(2)] assms(2) same_length[OF resolve_leaf_same]
    by (auto intro: rtranclp.rtrancl_into_rtrancl)
qed (simp_all add: health_stop_def)

section \<open>Stale outbounds are probed\<close>

text \<open>At the last scan the outbound's sample was fresh or has come since, or the probe of that scan is under way, or has failed.\<close>

definition checked :: "health \<Rightarrow> nat \<Rightarrow> bool" where
  "checked h a \<longleftrightarrow> (\<forall>m s. hl_obs h ! a = Mirage m \<longrightarrow> hl_scanned h = Some s \<longrightarrow>
     (m_last_sample m \<noteq> 0 \<and> s \<le> m_last_sample m + stale_after) \<or> (a, s) \<in> set (hl_probing h) \<or> 0 < m_fails m)"

definition health_ok :: "rat \<Rightarrow> health \<Rightarrow> bool" where
  "health_ok timeout h \<longleftrightarrow> 0 < hl_now h
     \<and> (\<forall>p \<in> set (hl_probing h). snd p \<le> hl_now h \<and> hl_now h \<le> snd p + timeout)
     \<and> (hl_task h \<longrightarrow> hl_now h \<le> hl_next h
          \<and> hl_next h = (case hl_scanned h of None \<Rightarrow> hl_began h | Some s \<Rightarrow> s) + scan_interval)
     \<and> (\<forall>s. hl_scanned h = Some s \<longrightarrow> s \<le> hl_now h)
     \<and> (\<forall>a \<in> set (hl_targets h). checked h a)"

lemma checked_now: "checked (h\<lparr> hl_now := t \<rparr>) a = checked h a"
  by (simp add: checked_def)

lemma checked_other:
  assumes "checked h a" "obs' ! a = hl_obs h ! a" "\<forall>s. (a, s) \<in> set (hl_probing h) \<longrightarrow> (a, s) \<in> set ps"
  shows "checked (h\<lparr> hl_obs := obs', hl_probing := ps \<rparr>) a"
  using assms by (auto simp: checked_def)

lemma new_sample_checked:
  assumes "health_ok timeout h" "obs' = (hl_obs h)[b := Mirage (record_latency ms (hl_now h) m)]" "b < length (hl_obs h)"
    and "a \<in> set (hl_targets h)" "set ps \<union> {(b, s) |s. True} \<supseteq> set (hl_probing h)"
  shows "checked (h\<lparr> hl_obs := obs', hl_probing := ps \<rparr>) a"
proof (cases "a = b")
  case True
  have "s \<le> hl_now h + stale_after" if "hl_scanned h = Some s" for s
    using assms(1) that by (force simp: health_ok_def stale_after_def)
  then show ?thesis using assms(1,3) True by (simp add: checked_def assms(2) record_latency_def Let_def health_ok_def)
next
  case False
  have "checked h a" using assms(1,4) by (simp add: health_ok_def)
  then show ?thesis using False assms(2,5) by (intro checked_other) auto
qed

lemma new_failure_checked:
  assumes "health_ok timeout h" "obs' = (hl_obs h)[b := Mirage (record_failure m)]" "b < length (hl_obs h)"
    and "a \<in> set (hl_targets h)" "set ps \<union> {(b, s) |s. True} \<supseteq> set (hl_probing h)"
  shows "checked (h\<lparr> hl_obs := obs', hl_probing := ps \<rparr>) a"
proof (cases "a = b")
  case True
  then show ?thesis using assms(3) by (simp add: checked_def assms(2) record_failure_def)
next
  case False
  have "checked h a" using assms(1,4) by (simp add: health_ok_def)
  then show ?thesis using False assms(2,5) by (intro checked_other) auto
qed

lemma health_run_ok:
  assumes "health_run timeout h0 h" "\<forall>a \<in> set (hl_targets h0). a < length (hl_obs h0) \<and> is_mirage (hl_obs h0 ! a)" "hl_probing h0 = []"
    and "health_ok timeout h0" "0 \<le> timeout"
  shows "health_ok timeout h"
  using assms(1)
proof (induction rule: health_run.induct)
  case hl_init
  then show ?case by (rule assms(4))
next
  case (hl_tick h t)
  then have "0 < t" "\<forall>s. hl_scanned h = Some s \<longrightarrow> s \<le> t" by (auto simp: health_ok_def)
  moreover have "\<forall>p \<in> set (hl_probing h). snd p \<le> t" using hl_tick by (auto simp: health_ok_def)
  ultimately show ?case using hl_tick by (simp add: health_ok_def checked_now split: option.split)
next
  case (hl_started h)
  then show ?case by (auto simp: health_ok_def health_start_def checked_def scan_interval_def)
next
  case (hl_stopped h)
  then show ?case by (auto simp: health_ok_def health_stop_def checked_def)
next
  case (hl_scans h)
  have "checked (health_scan (hl_now h) h) a" if "a \<in> set (hl_targets h)" for a
    using that by (auto simp: checked_def health_scan_def sample_stale_def latency_age_def split: if_splits)
  then show ?case using hl_scans assms(5) by (auto simp: health_ok_def health_scan_def scan_interval_def)
next
  case (hl_probed h p result)
  note o = health_run_outb_steps[OF hl_probed(1) assms(2,3)]
  have "fst p \<in> set (hl_targets h0)" using o hl_probed(2) by auto
  then obtain m where m: "hl_obs h ! fst p = Mirage m" "fst p < length (hl_obs h)"
    using o assms(2) by (metis is_mirage.elims(2))
  have s: "set (hl_probing h) \<subseteq> set (remove1 p (hl_probing h)) \<union> {(fst p, s) |s. True}"
  proof
    fix x assume "x \<in> set (hl_probing h)"
    then show "x \<in> set (remove1 p (hl_probing h)) \<union> {(fst p, s) |s. True}" by (cases "x = p") (cases p, auto)
  qed
  have k: "checked (probe_ended p result (hl_now h) h) a" if "a \<in> set (hl_targets h)" for a
    using new_sample_checked[OF hl_probed.IH refl m(2) that s, of _ m] new_failure_checked[OF hl_probed.IH refl m(2) that s, of m]
    by (cases result) (simp_all add: probe_ended_def m(1))
  have q: "set (remove1 p (hl_probing h)) \<subseteq> set (hl_probing h)" by (rule set_remove1_subset)
  show ?case using hl_probed.IH k q m(1) by (auto simp: health_ok_def probe_ended_def split: option.splits)
next
  case (hl_traffic h a m ms)
  have "checked (h\<lparr> hl_obs := (hl_obs h)[a := Mirage (record_latency ms (hl_now h) m)], hl_probing := hl_probing h \<rparr>) b"
    if "b \<in> set (hl_targets h)" for b
    by (rule new_sample_checked[OF hl_traffic.IH refl hl_traffic(2) that]) simp
  then show ?case using hl_traffic.IH by (auto simp: health_ok_def split: option.splits)
next
  case (hl_fails h a m)
  have "checked (h\<lparr> hl_obs := (hl_obs h)[a := Mirage (record_failure m)], hl_probing := hl_probing h \<rparr>) b"
    if "b \<in> set (hl_targets h)" for b
    by (rule new_failure_checked[OF hl_fails.IH refl hl_fails(2) that]) simp
  then show ?case using hl_fails.IH by (auto simp: health_ok_def split: option.splits)
next
  case (hl_select h a t)
  note o = health_run_outb_steps[OF hl_select(1) assms(2,3)]
  have "checked (h\<lparr> hl_obs := snd (selector_select (hl_obs h) a t) \<rparr>) b" if b: "b \<in> set (hl_targets h)" for b
  proof -
    obtain m where "hl_obs h ! b = Mirage m" using o b by (metis is_mirage.elims(2))
    then show ?thesis using hl_select.IH b select_mirage[of "hl_obs h" b m a t] by (auto simp: health_ok_def checked_def)
  qed
  then show ?case using hl_select.IH by (auto simp: health_ok_def split: option.splits)
next
  case (hl_use h a)
  note o = health_run_outb_steps[OF hl_use(1) assms(2,3)]
  have "checked (h\<lparr> hl_obs := snd (resolve_leaf (hl_obs h) a) \<rparr>) b" if b: "b \<in> set (hl_targets h)" for b
  proof -
    obtain m where m: "hl_obs h ! b = Mirage m" using o b by (metis is_mirage.elims(2))
    have "b < length (hl_obs h)" using o b assms(2) by simp
    from mirage_same[OF resolve_leaf_same this m, of a] show ?thesis
      using hl_use.IH b m by (auto simp: health_ok_def checked_def)
  qed
  then show ?case using hl_use.IH by (auto simp: health_ok_def split: option.splits)
qed

section \<open>Properties\<close>

text \<open>C21: No Mirage outbound goes unwatched: while the health check runs, whatever traffic, choices, samples and failures
  there are, each target's newest latency sample is at most 360 seconds old, or a probe of it has been under way for no longer than the build
  timeout, or its last builds have failed, or the check has run for less than 60 seconds; what the check does to the outbounds is
  what may happen to them anyway; and a probe that succeeds makes its outbound healthy.\<close>

theorem stale_outbounds_are_probed:
  assumes "health_run timeout (new_health obs values t0) h" "\<forall>a \<in> set values. a < length obs" "0 < t0" "0 \<le> timeout"
  shows "(hl_task h \<longrightarrow> (\<forall>a \<in> set (hl_targets h). \<exists>m. hl_obs h ! a = Mirage m \<and>
        (hl_now h \<le> m_last_sample m + (stale_after + scan_interval) \<or> (\<exists>s. (a, s) \<in> set (hl_probing h) \<and> hl_now h \<le> s + timeout)
          \<or> 0 < m_fails m \<or> hl_now h \<le> hl_began h + scan_interval)))
    \<and> outb_step\<^sup>*\<^sup>* obs (hl_obs h) \<and> set (hl_targets h) = {a \<in> set values. is_mirage (obs ! a)}
    \<and> (\<forall>p \<in> set (hl_probing h). \<forall>ms. \<exists>m. hl_obs (probe_ended p (Some ms) (hl_now h) h) ! fst p = Mirage m \<and> mirage_healthy m)"
proof (intro conjI impI ballI allI)
  let ?h0 = "new_health obs values t0"
  have h0: "\<forall>a \<in> set (hl_targets ?h0). a < length (hl_obs ?h0) \<and> is_mirage (hl_obs ?h0 ! a)" "hl_probing ?h0 = []"
    "health_ok timeout ?h0"
    using assms(2,3) by (auto simp: new_health_def health_ok_def checked_def)
  note o = health_run_outb_steps[OF assms(1) h0(1,2)]
  have k: "health_ok timeout h" by (rule health_run_ok[OF assms(1) h0 assms(4)])
  show "outb_step\<^sup>*\<^sup>* obs (hl_obs h)" using o by (simp add: new_health_def)
  show "set (hl_targets h) = {a \<in> set values. is_mirage (obs ! a)}" using o by (simp add: new_health_def)
  show "\<exists>m. hl_obs h ! a = Mirage m \<and>
        (hl_now h \<le> m_last_sample m + (stale_after + scan_interval) \<or> (\<exists>s. (a, s) \<in> set (hl_probing h) \<and> hl_now h \<le> s + timeout)
          \<or> 0 < m_fails m \<or> hl_now h \<le> hl_began h + scan_interval)"
    if run: "hl_task h" and a: "a \<in> set (hl_targets h)" for a
  proof -
    obtain m where m: "hl_obs h ! a = Mirage m" using o a by (metis is_mirage.elims(2))
    show ?thesis
    proof (cases "hl_scanned h")
      case None
      then show ?thesis using k run m by (auto simp: health_ok_def)
    next
      case (Some s)
      then have "hl_now h \<le> s + scan_interval" "checked h a" using k run a by (auto simp: health_ok_def)
      then show ?thesis using m Some k by (force simp: checked_def health_ok_def)
    qed
  qed
  show "\<exists>m. hl_obs (probe_ended p (Some ms) (hl_now h) h) ! fst p = Mirage m \<and> mirage_healthy m" if "p \<in> set (hl_probing h)" for p ms
  proof -
    have p: "fst p \<in> set (hl_targets ?h0)" using o that by auto
    then obtain m where m: "hl_obs h ! fst p = Mirage m" using o by (metis is_mirage.elims(2))
    have "fst p < length (hl_obs h)" using p h0(1) o by simp
    then show ?thesis
      by (simp add: probe_ended_def m record_latency_def Let_def mirage_healthy_def unhealthy_after_fails_def)
  qed
qed

text \<open>An outbound whose builds fail is probed at every scan, that is every minute, as a failure leaves its sample as old as it was.\<close>

lemma dead_outbound_probed_every_scan:
  assumes "hl_obs h ! a = Mirage m" "m_last_sample m = 0" "a \<in> set (hl_targets h)" "a < length (hl_obs h)"
  shows "(a, t) \<in> set (hl_probing (health_scan t h))
    \<and> (a, t + scan_interval) \<in> set (hl_probing (health_scan (t + scan_interval) (probe_ended (a, t) None t' (health_scan t h))))"
  using assms by (simp add: health_scan_def sample_stale_def latency_age_def probe_ended_def record_failure_def)

theorem stale_outbounds_are_probed_witness:
  "\<exists>h. health_run 10 (new_health [Mirage (new_mirage (U ''a'') undefined)] [0] 1) h \<and> hl_task h \<and> hl_now h = 61
    \<and> hl_probing h = [(0, 61)] \<and> outb_step\<^sup>*\<^sup>* [Mirage (new_mirage (U ''a'') undefined)] (hl_obs h)"
proof -
  let ?h0 = "new_health [Mirage (new_mirage (U ''a'') undefined)] [0] 1"
  have 1: "health_run 10 ?h0 (health_start (hl_now ?h0) ?h0)" by (intro hl_started hl_init)
  have s: "health_start (hl_now ?h0) ?h0 = ?h0\<lparr> hl_task := True, hl_next := 61, hl_began := 1 \<rparr>"
    by (simp add: health_start_def new_health_def scan_interval_def)
  have 2: "health_run 10 ?h0 ((?h0\<lparr> hl_task := True, hl_next := 61, hl_began := 1 \<rparr>)\<lparr> hl_now := 61 \<rparr>)"
    by (rule hl_tick[OF 1[unfolded s]]) (simp_all add: new_health_def)
  have 3: "health_run 10 ?h0 (health_scan 61 ((?h0\<lparr> hl_task := True, hl_next := 61, hl_began := 1 \<rparr>)\<lparr> hl_now := 61 \<rparr>))"
    (is "health_run 10 _ ?h")
    using hl_scans[OF 2] by simp
  have "outb_step\<^sup>*\<^sup>* [Mirage (new_mirage (U ''a'') undefined)] (hl_obs ?h)"
    using stale_outbounds_are_probed[OF 3] by simp
  then show ?thesis
    by (intro exI[of _ ?h]) (use 3 in \<open>simp add: health_scan_def new_health_def sample_stale_def latency_age_def new_mirage_def\<close>)
qed

end
