(* ===== verification/Startup.thy ===== *)
theory Startup
  imports Complex_Main Config Outbound_Build Server Time_Sync
begin

text \<open>
  Starting up and shutting down: \<open>main\<close> of \<open>client.py\<close> and \<open>server.py\<close> as far as the loaded configuration
  decides it, and \<open>_check_brutal_kernel\<close> of both.  A configuration is the dictionary that \<open>load_config\<close> gives.  What the
  system answers (is the kernel module there, does a listener start) is an argument; the parts that are started are
  modelled in their own theories.
\<close>

section \<open>TCP Brutal without its kernel module\<close>

definition rate_key :: pystr where
  "rate_key = U ''brutal_rate_bps''"

definition raw_obs :: "json \<Rightarrow> json" where
  "raw_obs cfg = (if truthy_opt (jget cfg (U ''outbounds'')) then the (jget cfg (U ''outbounds'')) else JList [])"

text \<open>The \<open>any\<close> over the outbounds, which stops at the first positive rate.\<close>

fun uses_brutal :: "json list \<Rightarrow> py_error + bool" where
  "uses_brutal [] = Inr False"
| "uses_brutal (x # xs) =
     (if is_obj x then bindE (py_int_of (jget_or x rate_key (JInt 0))) (\<lambda>r. if 0 < r then Inr True else uses_brutal xs)
      else uses_brutal xs)"

definition zero_rate :: "json \<Rightarrow> json" where
  "zero_rate x = (case x of
       JObj d \<Rightarrow> if truthy (jget_or x rate_key (JInt 0)) then JObj (od_set rate_key (JInt 0) d) else x
     | _ \<Rightarrow> x)"

definition zero_rates :: "(pystr, json) odict \<Rightarrow> (pystr, json) odict" where
  "zero_rates cfg =
     (let cfg = od_set rate_key (JInt 0) cfg in
      case od_get cfg (U ''outbounds'') of
        Some (JList xs) \<Rightarrow> od_set (U ''outbounds'') (JList (map zero_rate xs)) cfg
      | _ \<Rightarrow> cfg)"

text \<open>\<open>client._check_brutal_kernel\<close>\<close>

definition check_brutal_kernel :: "py_error + bool \<Rightarrow> (pystr, json) odict \<Rightarrow> py_error + (pystr, json) odict" where
  "check_brutal_kernel available cfg =
     (let raw = raw_obs (JObj cfg) in
      bindE (if truthy (jget_or (JObj cfg) rate_key (JInt 0)) then Inr True else bindE (py_iter raw) uses_brutal) (\<lambda>uses.
        if \<not> uses then Inr cfg
        else bindE available (\<lambda>ok. if ok then Inr cfg else bindE (py_iter raw) (\<lambda>_. Inr (zero_rates cfg)))))"

text \<open>\<open>server._check_brutal_kernel\<close>\<close>

definition server_check_brutal :: "py_error + bool \<Rightarrow> (pystr, json) odict \<Rightarrow> py_error + (pystr, json) odict" where
  "server_check_brutal available cfg =
     (if \<not> truthy (jget_or (JObj cfg) rate_key (JInt 0)) then Inr cfg
      else bindE available (\<lambda>ok. Inr (if ok then cfg else od_set rate_key (JInt 0) cfg)))"

subsection \<open>What is built then\<close>

definition rates_zero :: "json list \<Rightarrow> bool" where
  "rates_zero xs \<longleftrightarrow> (\<forall>x \<in> set xs. \<forall>r. is_obj x \<and> py_int_of (jget_or x rate_key (JInt 0)) = Inr r \<longrightarrow> r \<le> 0)"

definition mirage_rates_zero :: "outb list \<Rightarrow> bool" where
  "mirage_rates_zero obs \<longleftrightarrow> (\<forall>m. Mirage m \<in> set obs \<longrightarrow> n_rate (m_cfg m) \<le> 0)"

lemma uses_brutal_False: "uses_brutal xs = Inr False \<Longrightarrow> rates_zero xs"
  by (induction xs) (auto simp: rates_zero_def bindE_Inr_iff split: if_splits)

lemma falsy_int: "\<not> truthy v \<Longrightarrow> py_int_of v = Inr r \<Longrightarrow> r = 0"
  by (cases v) (auto simp: py_int_def py_strip_def strip_with_def rdropWhile_def parse_digits_def Let_def split: if_splits option.splits)

lemma zero_rate_int: "is_obj x \<Longrightarrow> py_int_of (jget_or (zero_rate x) rate_key (JInt 0)) = Inr r \<Longrightarrow> r = 0"
proof (cases x)
  case (JObj d)
  assume r: "py_int_of (jget_or (zero_rate x) rate_key (JInt 0)) = Inr r"
  show ?thesis
  proof (cases "truthy (jget_or x rate_key (JInt 0))")
    case True
    then show ?thesis using r JObj by (simp add: zero_rate_def jget_or_def)
  next
    case False
    then show ?thesis using r JObj falsy_int by (simp add: zero_rate_def)
  qed
qed auto

lemma zero_rates_zero: "rates_zero (map zero_rate xs)"
proof -
  have "is_obj (zero_rate x) = is_obj x" for x by (cases x) (simp_all add: zero_rate_def)
  then show ?thesis using zero_rate_int by (fastforce simp: rates_zero_def)
qed

lemma normalized_rate: "normalize_mirage_cfg e item = Inr cfg \<Longrightarrow> py_int_of (jget_or item rate_key (JInt 0)) = Inr (n_rate cfg)"
  by (auto simp: normalize_mirage_cfg_def bindE_Inr_iff rate_key_def)

lemma build_leaf_rates:
  assumes "build_leaf e t otype item s = Inr s'" "mirage_rates_zero (fst (fst s))" "rates_zero [item]" "is_obj item"
  shows "mirage_rates_zero (fst (fst s'))"
proof (cases "otype = U ''mirage'' \<or> otype = U ''pyrealiy''")
  case True
  then obtain cfg h where "normalize_mirage_cfg e item = Inr cfg"
      "s' = (add_outbound t (Mirage (new_mirage t (cfg\<lparr>n_host := Some h\<rparr>))) (fst s), snd s)"
    using assms(1) by (auto simp: build_leaf_def bindE_Inr_iff split: option.splits if_splits)
  then show ?thesis using normalized_rate[of e item cfg] assms(2-4)
    by (auto simp: mirage_rates_zero_def add_outbound_def new_mirage_def rates_zero_def)
next
  case False
  then show ?thesis using assms(1,2) by (auto simp: build_leaf_def mirage_rates_zero_def add_outbound_def split: if_splits)
qed

lemma build_leaves_rates:
  "build_leaves e its s = Inr s' \<Longrightarrow> mirage_rates_zero (fst (fst s)) \<Longrightarrow> rates_zero its \<Longrightarrow> mirage_rates_zero (fst (fst s'))"
proof (induction e its s rule: build_leaves.induct)
  case (2 e item its s)
  obtain t o1 s1 where 1: "is_obj item" "build_leaf e t o1 item s = Inr s1" "build_leaves e its s1 = Inr s'"
      "jget item (U ''tag'') = Some (JStr t)" "jget item (U ''type'') = Some (JStr o1)" "t \<noteq> []" "o1 \<noteq> []" "\<not> od_mem t (snd (fst s))"
    using 2(2) by (auto simp: bindE_Inr_iff split: if_splits option.splits json.splits)
  have r: "rates_zero [item]" "rates_zero its" using 2(4) by (auto simp: rates_zero_def)
  have "mirage_rates_zero (fst (fst s1))" by (rule build_leaf_rates[OF 1(2) 2(3) r(1) 1(1)])
  then show ?case using 2(1) 1 r(2) by simp
qed simp

lemma build_groups_rates:
  "group_entry item s = Inr (Some s') \<Longrightarrow> mirage_rates_zero (fst s) \<Longrightarrow> mirage_rates_zero (fst s')"
proof -
  assume g: "group_entry item s = Inr (Some s')" and s: "mirage_rates_zero (fst s)"
  have "g \<noteq> Mirage m" if "make_group item t o1 cs obs = Inr g" for t o1 cs obs g m
    using that by (auto simp: make_group_def bindE_Inr_iff new_urltest_def new_selector_def Let_def split: if_splits)
  then have "\<exists>t g. s' = add_outbound t g s \<and> (\<forall>m. g \<noteq> Mirage m)"
    using g by (fastforce simp: group_entry_def bindE_Inr_iff split: option.splits json.splits if_splits)
  then show ?thesis using s by (auto simp: add_outbound_def mirage_rates_zero_def)
qed

lemma group_round_rates:
  "group_round its s = Inr (s', nxt, pr) \<Longrightarrow> mirage_rates_zero (fst s) \<Longrightarrow> mirage_rates_zero (fst s')"
proof (induction its arbitrary: s s' nxt pr)
  case (Cons item its)
  obtain r where r: "group_entry item s = Inr r" using Cons.prems(1) by (auto simp: bindE_Inr_iff)
  show ?case
  proof (cases r)
    case None
    then obtain n1 where "group_round its s = Inr (s', n1, pr)" using Cons.prems(1) r by (auto simp: bindE_Inr_iff)
    then show ?thesis using Cons.IH Cons.prems(2) by blast
  next
    case (Some s1)
    then obtain n1 p1 where "group_round its s1 = Inr (s', n1, p1)" using Cons.prems(1) r by (auto simp: bindE_Inr_iff)
    then show ?thesis using Cons.IH build_groups_rates r Some Cons.prems(2) by blast
  qed
qed auto

lemma group_fixpoint_rates:
  "group_fixpoint pending s = Inr s' \<Longrightarrow> mirage_rates_zero (fst s) \<Longrightarrow> mirage_rates_zero (fst s')"
proof (induction pending s rule: group_fixpoint.induct)
  case (1 pending s)
  show ?case
  proof (cases "pending = []")
    case False
    then obtain s1 nxt pr where g: "group_round pending s = Inr (s1, nxt, pr)"
      using "1.prems"(1) by (subst (asm) group_fixpoint.simps) (auto split: sum.splits)
    then have "pr" "group_fixpoint nxt s1 = Inr s'"
      using "1.prems"(1) False by (subst (asm) group_fixpoint.simps, simp split: if_splits)+
    then show ?thesis using 1(1)[OF False g] group_round_rates[OF g "1.prems"(2)] by simp
  qed (use 1 in \<open>simp add: group_fixpoint.simps\<close>)
qed

lemma build_outbounds_rates:
  assumes "build_outbounds e cfg = Inr (obs, out)" "\<forall>xs. raw_outbounds cfg = Inr xs \<longrightarrow> rates_zero xs"
  shows "mirage_rates_zero obs"
proof -
  obtain its s deferred where 1: "raw_outbounds cfg = Inr its" "build_leaves e its (([], []), []) = Inr (s, deferred)"
      "group_fixpoint deferred (add_implicit (U ''block'') (Block (U ''block'')) (add_implicit (U ''direct'') (Direct (U ''direct'')) s))
        = Inr (obs, out)"
    using assms(1) by (auto simp: build_outbounds_def bindE_Inr_iff)
  have "mirage_rates_zero (fst s)" using build_leaves_rates[OF 1(2)] assms(2) 1(1) by (simp add: mirage_rates_zero_def)
  then have "mirage_rates_zero (fst (add_implicit (U ''block'') (Block (U ''block'')) (add_implicit (U ''direct'') (Direct (U ''direct'')) s)))"
    by (auto simp: mirage_rates_zero_def add_implicit_def add_outbound_def)
  then show ?thesis using group_fixpoint_rates[OF 1(3)] by simp
qed

lemma checked_raw_outbounds:
  assumes "check_brutal_kernel (Inr False) cfg = Inr cfg'" "raw_outbounds (JObj cfg') = Inr xs"
  shows "rates_zero xs"
proof -
  have ne: "rate_key \<noteq> U ''outbounds''" "rate_key \<noteq> U ''server_host''" "rate_key \<noteq> U ''server_port''" "rate_key \<noteq> U ''password''"
    by (simp_all add: rate_key_def)
  have synth: "rates_zero ys" if "synthesize_legacy_outbound (JObj c) = Inr ys"
      "\<forall>r. py_int_of (jget_or (JObj c) rate_key (JInt 0)) = Inr r \<longrightarrow> r \<le> 0" for c ys
    using that by (auto simp: synthesize_legacy_outbound_def bindE_Inr_iff rates_zero_def jget_or_def rate_key_def od_get_def U_def)
  consider (unused) "\<not> truthy (jget_or (JObj cfg) rate_key (JInt 0))" "bindE (py_iter (raw_obs (JObj cfg))) uses_brutal = Inr False" "cfg' = cfg"
    | (zeroed) ys where "py_iter (raw_obs (JObj cfg)) = Inr ys" "cfg' = zero_rates cfg"
    using assms(1) by (auto simp: check_brutal_kernel_def Let_def bindE_Inr_iff split: if_splits)
  then show ?thesis
  proof cases
    case unused
    then obtain ys where ys: "py_iter (raw_obs (JObj cfg)) = Inr ys" "rates_zero ys"
      using uses_brutal_False by (auto simp: bindE_Inr_iff)
    show ?thesis
    proof (cases "truthy_opt (od_get cfg (U ''outbounds''))")
      case True
      then show ?thesis using assms(2) ys unused(3) by (auto simp: raw_outbounds_def raw_obs_def truthy_opt_def split: option.splits)
    next
      case False
      then have "synthesize_legacy_outbound (JObj cfg) = Inr xs"
        using assms(2) unused(3) by (auto simp: raw_outbounds_def truthy_opt_def split: option.splits if_splits)
      then show ?thesis using synth unused(1) falsy_int by fastforce
    qed
  next
    case zeroed
    have rate: "od_get cfg' rate_key = Some (JInt 0)"
      by (auto simp: zeroed(2) zero_rates_def Let_def od_get_set ne split: option.split json.split)
    have obs: "od_get cfg' (U ''outbounds'') = (case od_get cfg (U ''outbounds'') of
        Some (JList zs) \<Rightarrow> Some (JList (map zero_rate zs)) | v \<Rightarrow> v)"
      using ne by (auto simp: zeroed(2) zero_rates_def Let_def od_get_set split: option.split json.split)
    show ?thesis
    proof (cases "truthy_opt (od_get cfg' (U ''outbounds''))")
      case True
      then obtain v where v: "od_get cfg' (U ''outbounds'') = Some v" "truthy v" "py_iter v = Inr xs"
        using assms(2) by (auto simp: raw_outbounds_def truthy_opt_def split: option.splits if_splits)
      show ?thesis
      proof (cases "\<exists>zs. v = JList zs")
        case True
        then show ?thesis using obs v zero_rates_zero by (auto split: option.splits json.splits)
      next
        case False
        then have "\<forall>x \<in> set xs. \<not> is_obj x" using v(3) by (cases v) auto
        then show ?thesis by (auto simp: rates_zero_def)
      qed
    next
      case False
      then have "synthesize_legacy_outbound (JObj cfg') = Inr xs"
        using assms(2) by (auto simp: raw_outbounds_def truthy_opt_def split: option.splits if_splits)
      then show ?thesis using synth rate by (simp add: jget_or_def)
    qed
  qed
qed

section \<open>The client's listeners\<close>

datatype listener_kind = Socks5In | HttpIn | MixedIn

definition kind_of :: "json \<Rightarrow> listener_kind option" where
  "kind_of v = (if v = JStr (U ''socks5'') then Some Socks5In else if v = JStr (U ''http'') then Some HttpIn
     else if v = JStr (U ''mixed'') then Some MixedIn else None)"

text \<open>\<open>v[k]\<close> with a text for \<open>k\<close>\<close>

definition subscript :: "json \<Rightarrow> pystr \<Rightarrow> py_error + json" where
  "subscript v k = (if is_obj v then key_or_error v k else Inl TypeError)"

text \<open>Without inbounds there is one for SOCKS5 from the older keys.\<close>

definition inbounds_of :: "(json \<Rightarrow> pystr) \<Rightarrow> json \<Rightarrow> json" where
  "inbounds_of py_repr cfg =
     (if truthy_opt (jget cfg (U ''inbounds'')) then the (jget cfg (U ''inbounds''))
      else JList [JObj [(U ''type'', JStr (U ''socks5'')),
        (U ''listen'', JStr (py_str py_repr (jget_or cfg (U ''socks5_host'') (JStr (U ''127.0.0.1'')))
           @ [58] @ py_str py_repr (jget_or cfg (U ''socks5_port'') (JInt 1080))))]])"

text \<open>One entry: what it listens as and where; \<open>None\<close> for a type that is passed over.\<close>

definition listener_of :: "json \<Rightarrow> py_error + (listener_kind \<times> pystr \<times> int) option" where
  "listener_of ib =
     bindE (subscript ib (U ''type'')) (\<lambda>ty.
     bindE (subscript ib (U ''listen'')) (\<lambda>listen.
       case listen of
         JStr s \<Rightarrow> (case rpartition1 58 s of
             None \<Rightarrow> Inl ValueError
           | Some (h, p) \<Rightarrow> (case py_int 10 p of
               None \<Rightarrow> Inl ValueError
             | Some n \<Rightarrow> if \<not> hashable ty then Inl TypeError else Inr (map_option (\<lambda>k. (k, h, n)) (kind_of ty))))
       | _ \<Rightarrow> Inl AttributeError))"

fun open_listeners :: "(pystr \<Rightarrow> int \<Rightarrow> py_error option) \<Rightarrow> json list \<Rightarrow> py_error + (listener_kind \<times> pystr \<times> int) list" where
  "open_listeners start_server [] = Inr []"
| "open_listeners start_server (ib # ibs) =
     bindE (listener_of ib) (\<lambda>l. case l of
         None \<Rightarrow> open_listeners start_server ibs
       | Some (k, h, n) \<Rightarrow> (case start_server h n of
           Some e \<Rightarrow> Inl e
         | None \<Rightarrow> bindE (open_listeners start_server ibs) (\<lambda>ls. Inr ((k, h, n) # ls))))"

definition client_listeners :: "(json \<Rightarrow> pystr) \<Rightarrow> (pystr \<Rightarrow> int \<Rightarrow> py_error option) \<Rightarrow> json \<Rightarrow> py_error + (listener_kind \<times> pystr \<times> int) list" where
  "client_listeners py_repr start_server cfg = bindE (py_iter (inbounds_of py_repr cfg)) (open_listeners start_server)"

section \<open>The client's start\<close>

definition is_mirage_at :: "outb list \<Rightarrow> nat \<Rightarrow> bool" where
  "is_mirage_at obs a = (case obs ! a of Mirage m \<Rightarrow> True | _ \<Rightarrow> False)"

text \<open>\<open>sv_build\<close>: name resolution and the parsing of numbers; the other fields are the exceptions of the parts
  that are started: the router's construction, a listener, the DNS forwarder, the API, the transparent proxy.\<close>

record start_env =
  sv_os :: os
  sv_build :: outbound_env
  sv_repr :: "json \<Rightarrow> pystr"
  sv_router :: "py_error option"
  sv_bind :: "pystr \<Rightarrow> int \<Rightarrow> py_error option"
  sv_dns :: "py_error option"
  sv_api :: "py_error option"
  sv_tproxy :: "py_error option"

datatype service = TimeSyncS | HealthS | InboundS "listener_kind \<times> pystr \<times> int" | DnsS | LogTapS | ApiS | TproxyS json | GeoS

definition exit_with :: "py_error + 'a \<Rightarrow> cfg_error + 'a" where
  "exit_with r = (case r of Inl e \<Rightarrow> Inl (Raised e) | Inr v \<Rightarrow> Inr v)"

text \<open>\<open>v.get(k) or {}\<close>, which is asked for a key next.\<close>

definition subsection_of :: "json \<Rightarrow> string \<Rightarrow> py_error + json" where
  "subsection_of v k = (if \<not> truthy_opt (jget v (U k)) then Inr (JObj [])
     else if is_obj (the (jget v (U k))) then Inr (the (jget v (U k))) else Inl AttributeError)"

definition access_log :: "json \<Rightarrow> py_error + bool" where
  "access_log cfg = bindE (subsection_of cfg ''tuning'') (\<lambda>t.
     Inr (truthy (jget_or t (U ''access_log'') (jget_or cfg (U ''access_log'') (JBool False)))))"

definition routing_cache_of :: "(pystr \<Rightarrow> rat option) \<Rightarrow> json \<Rightarrow> py_error + (int \<times> rat) option" where
  "routing_cache_of parse cfg =
     bindE (subsection_of cfg ''tuning'') (\<lambda>t.
     bindE (subsection_of t ''routing_cache'') (\<lambda>r.
       if \<not> truthy (jget_or r (U ''enabled'') (JBool True)) then Inr None
       else bindE (py_int_of (jget_or r (U ''max_entries'') (JInt 10000))) (\<lambda>m.
         bindE (py_float_of parse (jget_or r (U ''ttl_sec'') (JInt 3600))) (\<lambda>ttl. Inr (Some (m, ttl))))))"

definition dns_cache_of :: "json \<Rightarrow> py_error + int option" where
  "dns_cache_of cfg =
     (if \<not> truthy (jget_or cfg (U ''dns_listen_port'') (JInt 0)) then Inr None
      else bindE (subsection_of cfg ''tuning'') (\<lambda>t.
        bindE (subsection_of t ''dns_cache'') (\<lambda>d.
          if \<not> truthy (jget_or d (U ''enabled'') (JBool True)) then Inr None
          else bindE (py_int_of (jget_or d (U ''max_entries'') (JInt 10000))) (\<lambda>m. Inr (Some m)))))"

definition udp_cfg :: "json \<Rightarrow> json \<times> json" where
  "udp_cfg cfg = (jget_or cfg (U ''udp_relay_host'') (jget_or cfg (U ''socks5_host'') (JStr (U ''127.0.0.1''))),
     jget_or cfg (U ''udp_idle_timeout'') (JInt 60))"

definition api_listens :: "json \<Rightarrow> py_error + bool" where
  "api_listens cfg = bindE (subsection_of cfg ''api'') (\<lambda>a. Inr (truthy_opt (jget a (U ''listen''))))"

text \<open>A part whose \<open>OSError\<close> is logged; another exception ends the program.\<close>

definition optional_part :: "bool \<Rightarrow> py_error option \<Rightarrow> service list \<Rightarrow> py_error + service list" where
  "optional_part wanted failure svs =
     (if \<not> wanted then Inr [] else case failure of None \<Rightarrow> Inr svs | Some e \<Rightarrow> if e = OSErr then Inr [] else Inl e)"

record client_up =
  cu_cfg :: "(pystr, json) odict"
  cu_built :: built
  cu_access_log :: bool
  cu_drain :: int
  cu_udp :: "json \<times> json"
  cu_routing_cache :: "(int \<times> rat) option"
  cu_dns_cache :: "int option"
  cu_services :: "service list"

definition client_start :: "start_env \<Rightarrow> (pystr, json) odict \<Rightarrow> cfg_error + client_up" where
  "client_start e cfg0 =
     bindE (exit_with (new_time_sync (oe_float (sv_build e)) (sv_repr e) (JObj cfg0))) (\<lambda>ts.
     bindE (exit_with (access_log (JObj cfg0))) (\<lambda>alog.
     bindE (exit_with (py_int_of (jget_or (JObj cfg0) (U ''drain_threshold'') (JInt 65536)))) (\<lambda>drain.
     bindE (exit_with (check_brutal_kernel (is_available (sv_os e)) cfg0)) (\<lambda>cfg.
     bindE (exit_with (build_outbounds (sv_build e) (JObj cfg))) (\<lambda>bt.
     bindE (validate_cross_refs cfg (od_keys (snd bt))) (\<lambda>_.
     bindE (case sv_router e of None \<Rightarrow> Inr () | Some x \<Rightarrow> Inl (Raised x)) (\<lambda>_.
     bindE (exit_with (api_listens (JObj cfg))) (\<lambda>api.
     bindE (exit_with (routing_cache_of (oe_float (sv_build e)) (JObj cfg))) (\<lambda>rc.
     bindE (exit_with (client_listeners (sv_repr e) (sv_bind e) (JObj cfg))) (\<lambda>ls.
     bindE (exit_with (dns_cache_of (JObj cfg))) (\<lambda>dc.
     bindE (exit_with (optional_part (truthy (jget_or (JObj cfg) (U ''dns_listen_port'') (JInt 0))) (sv_dns e) [DnsS])) (\<lambda>dns.
     bindE (exit_with (optional_part api (sv_api e) [LogTapS, ApiS])) (\<lambda>apis.
     let tport = jget_or (JObj cfg) (U ''tproxy_port'') (JInt 0) in
     bindE (exit_with (optional_part (truthy tport) (sv_tproxy e) [TproxyS tport])) (\<lambda>tproxy.
       Inr \<lparr> cu_cfg = cfg, cu_built = bt, cu_access_log = alog, cu_drain = drain, cu_udp = udp_cfg (JObj cfg), cu_routing_cache = rc,
             cu_dns_cache = dc,
             cu_services = (if tc_enabled ts then [TimeSyncS] else [])
               @ (if \<exists>a \<in> set (map snd (snd bt)). is_mirage_at (fst bt) a then [HealthS] else [])
               @ map InboundS ls @ dns @ apis @ tproxy @ [GeoS] \<rparr>))))))))))))))"

text \<open>The end: the listeners are closed, the last one first, then the \<open>finally\<close> clause.\<close>

fun is_listening :: "service \<Rightarrow> bool" where
  "is_listening (InboundS l) = True"
| "is_listening (TproxyS p) = True"
| "is_listening s = False"

definition client_stop :: "service list \<Rightarrow> service list" where
  "client_stop svs = rev (filter is_listening svs) @ [GeoS, TimeSyncS, HealthS]
     @ (if ApiS \<in> set svs then [ApiS] else []) @ (if LogTapS \<in> set svs then [LogTapS] else []) @ (if DnsS \<in> set svs then [DnsS] else [])"

section \<open>The server's start\<close>

record server_up =
  su_cfg :: "(pystr, json) odict"
  su_access_log :: bool
  su_drain :: int
  su_idle :: rat
  su_cap :: int
  su_keepalive :: bool
  su_egresses :: egresses
  su_egress_rules :: bool
  su_listen :: "json \<times> json"
  su_preset :: bool
  su_admin :: "(json \<times> json \<times> json) option"

text \<open>\<open>fams\<close> are the families of the listening sockets; the exceptions of the start of the listener and of the page are arguments.\<close>

definition server_start ::
    "os \<Rightarrow> outbound_env \<Rightarrow> (json \<Rightarrow> pystr) \<Rightarrow> family list \<Rightarrow> py_error option \<Rightarrow> py_error option \<Rightarrow> (pystr, json) odict \<Rightarrow> py_error + server_up" where
  "server_start os e py_repr fams listen_fails admin_fails cfg0 =
     bindE (server_check_brutal (is_available os) cfg0) (\<lambda>cfg. let c = JObj cfg in
      bindE (new_time_sync (oe_float e) py_repr c) (\<lambda>ts.
      bindE (py_int_of (jget_or c (U ''drain_threshold'') (JInt 65536))) (\<lambda>drain.
      bindE (py_float_of (oe_float e) (jget_or c (U ''idle_timeout_sec'') (JInt 1800))) (\<lambda>idle.
      bindE (py_int_of (jget_or c (U ''max_conns_per_ip'') (JInt 100))) (\<lambda>cap.
      bindE (key_or_error c (U ''camouflage_host'')) (\<lambda>camouflage.
      bindE (build_egresses (probe_mark os) c) (\<lambda>es.
      bindE (key_or_error c (U ''listen_host'')) (\<lambda>host.
      bindE (key_or_error c (U ''listen_port'')) (\<lambda>port.
      bindE (case listen_fails of Some x \<Rightarrow> Inl x | None \<Rightarrow> Inr ()) (\<lambda>_.
      bindE (if truthy (jget_or c rate_key (JInt 0)) then fst (preset_algorithm os fams (map (\<lambda>_. []) fams)) else Inr False) (\<lambda>preset.
      let aport = jget_or c (U ''admin_port'') (JInt 0) in
      bindE (if \<not> truthy aport then Inr None
        else case admin_fails of Some x \<Rightarrow> Inl x
          | None \<Rightarrow> Inr (Some (jget_or c (U ''admin_host'') (JStr (U ''127.0.0.1'')), aport, jget_or c (U ''admin_token'') (JStr [])))) (\<lambda>admin.
        Inr \<lparr> su_cfg = cfg, su_access_log = truthy (jget_or c (U ''access_log'') (JBool False)), su_drain = drain, su_idle = idle,
              su_cap = cap, su_keepalive = truthy (jget_or c (U ''tcp_keepalive'') (JBool True)), su_egresses = es,
              su_egress_rules = truthy_opt (jget c (U ''egress_rules'')), su_listen = (host, port),
              su_preset = preset, su_admin = admin \<rparr>))))))))))))"

text \<open>The environment of the handlers that the started server gives to each connection.\<close>

definition handler_env ::
    "crypto \<Rightarrow> aead \<Rightarrow> pystr \<Rightarrow> (route_env \<times> router) option \<Rightarrow> os \<Rightarrow> (sock_opt \<Rightarrow> bool) \<Rightarrow> (nat \<Rightarrow> family option) \<Rightarrow> server_up \<Rightarrow> server_env" where
  "handler_env cr a pw ro os has peer u = \<lparr> se_crypto = cr, se_aead = a, se_password = pw, se_cap = su_cap u, se_egresses = su_egresses u,
     se_router = ro, se_os = os, se_has = has, se_keepalive = su_keepalive u, se_rate = jget_or (JObj (su_cfg u)) rate_key (JInt 0),
     se_peer = peer \<rparr>"

section \<open>What is started\<close>

lemma exit_with_Inr [simp]: "exit_with r = Inr v \<longleftrightarrow> r = Inr v"
  by (auto simp: exit_with_def split: sum.splits)

lemma optional_part_Inr: "optional_part w f svs = Inr xs \<Longrightarrow> xs = [] \<or> w \<and> f = None \<and> xs = svs"
  by (auto simp: optional_part_def split: if_splits option.splits)

text \<open>The services of a client that has started.\<close>

lemma client_services:
  assumes "client_start e cfg0 = Inr u"
  obtains ts hs ls dns apis tproxy where
    "cu_services u = ts @ hs @ map InboundS ls @ dns @ apis @ tproxy @ [GeoS]"
    "ts = [] \<or> ts = [TimeSyncS]" "hs = [] \<or> hs = [HealthS]" "dns = [] \<or> dns = [DnsS]" "apis = [] \<or> apis = [LogTapS, ApiS]"
    "tproxy = [] \<or> (\<exists>p. tproxy = [TproxyS p])"
    "client_listeners (sv_repr e) (sv_bind e) (JObj (cu_cfg u)) = Inr ls"
    "check_brutal_kernel (is_available (sv_os e)) cfg0 = Inr (cu_cfg u)"
    "build_outbounds (sv_build e) (JObj (cu_cfg u)) = Inr (cu_built u)"
    "validate_cross_refs (cu_cfg u) (od_keys (snd (cu_built u))) = Inr ()"
  using assms unfolding client_start_def Let_def bindE_Inr_iff exit_with_Inr
proof (elim exE conjE, goal_cases)
  case (1 ts alog drain cfg bt x y api rc ls dc dns apis tproxy)
  note p = 1(2-)
  note r = sum.inject(2)[THEN iffD1, OF p(15), symmetric]
  let ?ts = "if tc_enabled ts then [TimeSyncS] else []"
  let ?hs = "if \<exists>a \<in> set (map snd (snd bt)). is_mirage_at (fst bt) a then [HealthS] else []"
  have u: "cu_services u = ?ts @ ?hs @ map InboundS ls @ dns @ apis @ tproxy @ [GeoS]" "cu_cfg u = cfg" "cu_built u = bt"
    unfolding r by simp_all
  have o: "dns = [] \<or> dns = [DnsS]" "apis = [] \<or> apis = [LogTapS, ApiS]" "tproxy = [] \<or> (\<exists>p. tproxy = [TproxyS p])"
    using p optional_part_Inr by blast+
  show ?case
    by (rule that[OF u(1) _ _ o]) (use p u(2,3) in simp_all)
qed

text \<open>Every part that was started is stopped.\<close>

lemma client_stops_all:
  assumes "client_start e cfg0 = Inr u"
  shows "set (cu_services u) \<subseteq> set (client_stop (cu_services u))"
    and "set (client_stop (cu_services u)) - {TimeSyncS, HealthS} \<subseteq> set (cu_services u)"
proof -
  obtain ts hs ls dns apis tproxy where s: "cu_services u = ts @ hs @ map InboundS ls @ dns @ apis @ tproxy @ [GeoS]"
    "ts = [] \<or> ts = [TimeSyncS]" "hs = [] \<or> hs = [HealthS]" "dns = [] \<or> dns = [DnsS]" "apis = [] \<or> apis = [LogTapS, ApiS]"
    "tproxy = [] \<or> (\<exists>p. tproxy = [TproxyS p])"
    by (rule client_services[OF assms])
  show "set (cu_services u) \<subseteq> set (client_stop (cu_services u))"
  proof
    fix x assume x: "x \<in> set (cu_services u)"
    show "x \<in> set (client_stop (cu_services u))" by (cases x) (use x in \<open>simp_all add: client_stop_def\<close>)
  qed
  show "set (client_stop (cu_services u)) - {TimeSyncS, HealthS} \<subseteq> set (cu_services u)"
    by (auto simp: client_stop_def s(1))
qed

definition inbound_at :: "json \<Rightarrow> pystr \<times> pystr" where
  "inbound_at ib = the (rpartition1 58 (str_val (jget ib (U ''listen''))))"

definition planned :: "json \<Rightarrow> listener_kind \<times> pystr \<times> int" where
  "planned ib = (the (kind_of (the (jget ib (U ''type'')))), fst (inbound_at ib), the (py_int 10 (snd (inbound_at ib))))"

lemma listener_of_ok:
  assumes "inbound_ok ib"
  shows "listener_of ib = (case py_int 10 (snd (inbound_at ib)) of None \<Rightarrow> Inl ValueError | Some n \<Rightarrow> Inr (Some (planned ib)))"
proof -
  obtain ty h p where i: "jget ib (U ''type'') = Some (JStr ty)" "ty \<in> set inbound_types" "jget ib (U ''listen'') = Some (JStr (h @ 58 # p))"
    using assms by (auto simp: inbound_ok_def)
  obtain h' p' where s: "h @ 58 # p = h' @ 58 # p'" "58 \<notin> set p'" using split_list_last[of 58 "h @ 58 # p"] by auto
  then have a: "rpartition1 58 (h @ 58 # p) = Some (h', p')" by (simp add: s(1))
  have "\<exists>k. kind_of (JStr ty) = Some k" using i(2) by (auto simp: inbound_types_def kind_of_def)
  moreover have "is_obj ib" using i(1) by (cases ib) auto
  ultimately show ?thesis
    using i a by (auto simp: listener_of_def subscript_def key_or_error_def bindE_def inbound_at_def planned_def str_val_def split: option.split)
qed

section \<open>Properties\<close>

text \<open>A server whose machine lacks the kernel module drops no client over its rate, whatever was configured.\<close>

theorem server_without_module_accepts:
  assumes "server_start os e py_repr fams l a cfg0 = Inr u" "is_available os = Inr False"
  shows "tuned (handler_env cr ae pw ro os has peer u) k = Inr ()"
proof -
  have c: "server_check_brutal (Inr False) cfg0 = Inr (su_cfg u)"
    using assms by (auto simp: server_start_def Let_def bindE_Inr_iff)
  then have "su_cfg u = cfg0 \<and> \<not> truthy (jget_or (JObj cfg0) rate_key (JInt 0)) \<or> su_cfg u = od_set rate_key (JInt 0) cfg0"
    by (auto simp: server_check_brutal_def split: if_splits)
  then have "\<not> truthy (jget_or (JObj (su_cfg u)) rate_key (JInt 0))" by (auto simp: jget_or_def)
  then show ?thesis by (simp add: tuned_def handler_env_def tuning_fails_iff split: option.split)
qed

text \<open>Where the module is there, a rate that is not an integer (or does not fit 64 bits) ends every handler that has accepted
  its client.\<close>

theorem bad_rate_refuses_everyone:
  assumes "truthy rate" "\<forall>ps. brutal_params rate default_gain \<noteq> Inr ps" "se_rate env = rate" "se_peer env k = Some f"
  shows "tuned env k = Inl StructError"
  using assms by (simp add: tuned_def tuning_fails_iff)

text \<open>Without the kernel module no pool asks for TCP Brutal: when the client starts on a machine that lacks it, every Mirage
  outbound that is built, from the older keys or from the list, nested under whatever groups, has a sending rate of zero or less,
  and keeps it whatever happens at run time.\<close>

theorem missing_module_falls_back:
  assumes "client_start e cfg0 = Inr u" "is_available (sv_os e) = Inr False" "outb_step\<^sup>*\<^sup>* (fst (cu_built u)) obs" "Mirage m \<in> set obs"
  shows "n_rate (m_cfg m) \<le> 0"
proof -
  have b: "check_brutal_kernel (Inr False) cfg0 = Inr (cu_cfg u)" "build_outbounds (sv_build e) (JObj (cu_cfg u)) = Inr (cu_built u)"
    by (rule client_services[OF assms(1)], use assms(2) in simp)+
  have start: "mirage_rates_zero (fst (cu_built u))"
    using build_outbounds_rates[of "sv_build e" "JObj (cu_cfg u)" "fst (cu_built u)" "snd (cu_built u)"]
      checked_raw_outbounds[OF b(1)] b(2) by simp
  have keeps: "mirage_rates_zero obs'" if "outb_step o1 obs'" "mirage_rates_zero o1" for o1 obs'
    using that
  proof cases
    case (Sample a m ms now)
    then show ?thesis using that(2) by (force simp: mirage_rates_zero_def record_latency_def Let_def dest!: set_update_subset_insert[THEN subsetD] nth_mem)
  next
    case (Failure a m)
    then show ?thesis using that(2) by (force simp: mirage_rates_zero_def record_failure_def dest!: set_update_subset_insert[THEN subsetD] nth_mem)
  next
    case (Select a t)
    then show ?thesis using that(2) by (auto simp: mirage_rates_zero_def selector_select_def dest!: set_update_subset_insert[THEN subsetD] split: outb.splits if_splits)
  next
    case (Use a)
    show ?thesis unfolding mirage_rates_zero_def
    proof (intro allI impI)
      fix m assume "Mirage m \<in> set obs'"
      then obtain b where b: "b < length obs'" "obs' ! b = Mirage m" by (auto simp: in_set_conv_nth)
      have s: "same obs' o1" using resolve_same[of "2 * a + 2" o1 a] Use by (simp add: resolve_leaf_def)
      then have "o1 ! b = Mirage m" "b < length o1"
        using same_shape[OF s, of b] b same_length[OF s] by (cases "o1 ! b"; auto)+
      then show "n_rate (m_cfg m) \<le> 0" using that(2) nth_mem by (fastforce simp: mirage_rates_zero_def)
    qed
  qed
  have "mirage_rates_zero obs" using assms(3)
  proof (induction rule: rtranclp_induct)
    case (step y z)
    then show ?case using keeps by blast
  qed (rule start)
  then show ?thesis using assms(4) by (simp add: mirage_rates_zero_def)
qed

text \<open>A configuration that has been loaded opens its inbounds: entry by entry, in order, with the handler of its type, at the host and
  port it names; only a port that is not a number stops it.\<close>

theorem loaded_inbounds_listen:
  assumes "load_config (JObj raw) = Inr (notes, cfg)" "\<not> absent (od_get raw (U ''schema_version''))"
    and "od_get cfg (U ''inbounds'') = Some (JList ibs)" "ibs \<noteq> []" "\<forall>h n. start_server h n = None"
  shows "client_listeners py_repr start_server (JObj cfg) =
    (if \<exists>ib \<in> set ibs. py_int 10 (snd (inbound_at ib)) = None then Inl ValueError else Inr (map planned ibs))"
proof -
  have ok: "inbound_ok ib" if "ib \<in> set ibs" for ib
  proof -
    have "validate_inbounds (od_get raw (U ''inbounds'')) = Inr ()" using load_config_parts[OF assms(1,2)] by metis
    moreover have "od_get cfg (U ''inbounds'') = od_get raw (U ''inbounds'')"
      using load_effect[OF assms(1,2)] by (auto simp: projected_keys_def)
    ultimately show ?thesis using validate_inbounds_Inr assms(3) that by (fastforce simp: items_def)
  qed
  have "open_listeners start_server xs =
      (if \<exists>ib \<in> set xs. py_int 10 (snd (inbound_at ib)) = None then Inl ValueError else Inr (map planned xs))"
    if "set xs \<subseteq> set ibs" for xs
    using that
  proof (induction xs)
    case (Cons ib xs)
    then have "inbound_ok ib" using ok by simp
    then show ?case using listener_of_ok[of ib] Cons assms(5)
      by (cases "py_int 10 (snd (inbound_at ib))") (auto simp: planned_def bindE_def)
  qed simp
  then show ?thesis using assms(3,4) by (simp add: client_listeners_def inbounds_of_def truthy_opt_def)
qed

end
