(* ===== verification/Mirage_Api.thy ===== *)
theory Mirage_Api
  imports Complex_Main Clash_Api Conn_Pool Decision_Cache Geo_Download Time_Sync Config
begin

text \<open>
  The diagnostic views of \<open>core/api/mirage_endpoints.py\<close>: tunnel pools, clock, decision caches, data files.  They read
  what the other theories model and change nothing.  Floats are rationals; the working directory (\<open>os.path.abspath\<close>) and
  the text of \<open>meta.json\<close> are parameters.
\<close>

section \<open>Numbers and paths\<close>

text \<open>\<open>round(x, n)\<close>\<close>

definition round_to :: "nat \<Rightarrow> rat \<Rightarrow> rat" where
  "round_to n x = of_int (round_even (x * 10 ^ n)) / 10 ^ n"

definition path_join :: "pystr \<Rightarrow> pystr \<Rightarrow> pystr" where
  "path_join a b = (if b \<noteq> [] \<and> hd b = 47 then b else if a = [] \<or> last a = 47 then a @ b else a @ [47] @ b)"

definition float_or_null :: "rat option \<Rightarrow> json" where
  "float_or_null v = (case v of None \<Rightarrow> JNull | Some x \<Rightarrow> JFloat x)"

section \<open>What the views read\<close>

text \<open>The context of the API and the objects it reaches: \<open>dg_pools\<close> gives the pool of the mirage outbound at an address.\<close>

record diag =
  dg_cfg :: "(pystr, json) odict"
  dg_tags :: "(pystr, nat) odict"
  dg_obs :: "outb list"
  dg_pools :: "nat \<Rightarrow> pool"
  dg_time :: time_state
  dg_routing :: "routing_cache option"
  dg_dns :: "dns_cache option"
  dg_files :: files
  dg_meta :: "pystr \<Rightarrow> py_error + json"
  dg_abspath :: "pystr \<Rightarrow> pystr"
  dg_float :: "pystr \<Rightarrow> rat option"

type_synonym view = "diag \<Rightarrow> py_error + json"

section \<open>Pools\<close>

definition pool_view :: "rat \<Rightarrow> pool \<Rightarrow> mirage \<Rightarrow> json" where
  "pool_view now p m =
     (let next = (case po_next_at p of None \<Rightarrow> 0 | Some t \<Rightarrow> t) in
      JObj [(U ''ready'', JInt (int (length (po_queue p)))), (U ''building'', JInt (po_building p)), (U ''target'', JInt (po_size p)),
        (U ''next_build_in_sec'', JFloat (round_to 3 (if 0 < next then max 0 (next - now) else 0))),
        (U ''stagger_step_sec'', JFloat (po_step p)),
        (U ''latency_ms'', float_or_null (map_option (round_to 1) (mirage_latency m))),
        (U ''latency_age_sec'', float_or_null (map_option (round_to 2) (latency_age now m))),
        (U ''healthy'', JBool (mirage_healthy m)), (U ''consecutive_failures'', JInt (int (m_fails m)))])"

text \<open>Only mirage outbounds have a pool.\<close>

fun pool_entry :: "rat \<Rightarrow> pool \<Rightarrow> pystr \<Rightarrow> outb \<Rightarrow> (pystr \<times> json) list" where
  "pool_entry now p t (Mirage m) = [(t, pool_view now p m)]"
| "pool_entry now p t x = []"

definition pools_view :: "rat \<Rightarrow> view" where
  "pools_view now g = Inr (JObj (concat (map (\<lambda>(t, a). pool_entry now (dg_pools g a) t (dg_obs g ! a)) (dg_tags g))))"

section \<open>Clock\<close>

fun source_name :: "time_source \<Rightarrow> pystr" where
  "source_name NoSource = []"
| "source_name Ntp = U ''ntp''"
| "source_name Https = U ''https''"

definition time_view :: "rat \<Rightarrow> view" where
  "time_view wall g =
     (let ts = dg_time g; t0 = ts_at ts; sub = od_get (dg_cfg g) (U ''time_sync'') in
      bindE (if \<not> truthy_opt sub then Inr (JObj []) else if is_obj (the sub) then Inr (the sub) else Inl AttributeError) (\<lambda>sec.
      bindE (py_float_of (dg_float g) (jget_or sec (U ''max_offset_sec'') (JInt 86400))) (\<lambda>mx.
        Inr (JObj [(U ''offset_sec'', JFloat (round_to 3 (ts_offset ts))), (U ''last_source'', JStr (source_name (ts_source ts))),
          (U ''last_sync_epoch'', float_or_null (if 0 < t0 then Some (round_to 0 t0) else None)),
          (U ''last_sample_count'', JInt (int (ts_count ts))), (U ''max_offset_sec'', JFloat mx),
          (U ''since_sync_sec'', float_or_null (if 0 < t0 then Some (round_to 1 (wall - t0)) else None))]))))"

section \<open>Caches\<close>

definition hit_rate :: "nat \<Rightarrow> nat \<Rightarrow> rat" where
  "hit_rate h m = (if h + m = 0 then 0 else round_to 4 (of_nat h / of_nat (h + m)))"

definition cache_stats :: "nat \<times> nat \<times> nat \<times> nat \<Rightarrow> (pystr \<times> json) list" where
  "cache_stats s = (case s of (n, mx, h, m) \<Rightarrow>
     [(U ''entries'', JInt (int n)), (U ''max'', JInt (int mx)), (U ''hits'', JInt (int h)), (U ''misses'', JInt (int m))])"

definition routing_stats :: "routing_cache \<Rightarrow> json" where
  "routing_stats c = (case rc_stats c of (n, mx, h, m, ttl) \<Rightarrow>
     JObj (cache_stats (n, mx, h, m) @ [(U ''ttl_sec'', JFloat ttl), (U ''hit_rate'', JFloat (hit_rate h m))]))"

definition dns_stats :: "dns_cache \<Rightarrow> json" where
  "dns_stats c = (case dc_stats c of (n, mx, h, m) \<Rightarrow> JObj (cache_stats (n, mx, h, m) @ [(U ''hit_rate'', JFloat (hit_rate h m))]))"

definition caches_view :: view where
  "caches_view g = Inr (JObj
     [(U ''routing'', case dg_routing g of None \<Rightarrow> JNull | Some c \<Rightarrow> routing_stats c),
      (U ''dns'', case dg_dns g of None \<Rightarrow> JNull | Some c \<Rightarrow> dns_stats c)])"

section \<open>Data files\<close>

text \<open>One source of \<open>meta.json\<close>\<close>

definition source_view :: "(pystr \<Rightarrow> rat option) \<Rightarrow> files \<Rightarrow> pystr \<Rightarrow> rat \<Rightarrow> pystr \<Rightarrow> json \<Rightarrow> py_error + json" where
  "source_view parse fs dir now key info =
     (let dat = path_join dir (key @ U ''.dat'') in
      bindE (if is_obj info then py_float_of parse (jget_or info (U ''downloaded_at'') (JInt 0)) else Inr 0) (\<lambda>t0.
        Inr (JObj [(U ''key'', JStr key), (U ''file_path'', JStr dat), (U ''exists'', JBool (fs dat \<noteq> None)),
          (U ''file_size'', JInt (case fs dat of None \<Rightarrow> 0 | Some b \<Rightarrow> int (length b))),
          (U ''downloaded_epoch'', if 0 < t0 then JInt \<lfloor>t0\<rfloor> else JNull),
          (U ''age_days'', float_or_null (if 0 < t0 then Some (round_to 2 ((now - t0) / 86400)) else None)),
          (U ''url'', if is_obj info then jget_or info (U ''url'') (JStr []) else JStr [])])))"

text \<open>The loop stops at the first entry that raises; the exception is swallowed and the entries so far are shown.\<close>

fun source_views :: "(pystr \<Rightarrow> json \<Rightarrow> py_error + json) \<Rightarrow> (pystr, json) odict \<Rightarrow> json list" where
  "source_views f [] = []"
| "source_views f ((k, v) # d) = (case f k v of Inl e \<Rightarrow> [] | Inr j \<Rightarrow> j # source_views f d)"

fun meta_sources :: "json \<Rightarrow> (pystr, json) odict" where
  "meta_sources (JObj m) = (case od_get m (U ''sources'') of Some (JObj d) \<Rightarrow> d | _ \<Rightarrow> [])"
| "meta_sources v = []"

definition geo_view :: "rat \<Rightarrow> view" where
  "geo_view now g =
     (let c = JObj (dg_cfg g); raw = jget c (U ''geosite_dir'') in
      bindE (case (if truthy_opt raw then the raw else JStr (U ''.geosite'')) of JStr d \<Rightarrow> Inr (dg_abspath g d) | _ \<Rightarrow> Inl TypeError) (\<lambda>dir.
      bindE (py_float_of (dg_float g) (jget_or c (U ''geosite_update_days'') (JInt 7))) (\<lambda>days.
        Inr (JObj [(U ''cache_dir'', JStr dir), (U ''update_days'', JFloat days),
          (U ''sources'', JList (case dg_meta g (path_join dir (U ''meta.json'')) of
               Inl e \<Rightarrow> []
             | Inr meta \<Rightarrow> source_views (source_view (dg_float g) (dg_files g) dir now) (meta_sources meta)))]))))"

section \<open>The table\<close>

datatype diag_handler = PoolView | TimeView | GeoView | CacheView

definition diag_routes :: "diag_handler routes" where
  "diag_routes = foldl (\<lambda>r (p, h). add_route (U ''GET'') (U p) h r) []
     [(''/mirage/pool'', PoolView), (''/mirage/timesync'', TimeView), (''/mirage/geo'', GeoView), (''/mirage/cache'', CacheView),
      (''/pyrealiy/pool'', PoolView), (''/pyrealiy/timesync'', TimeView), (''/pyrealiy/geo'', GeoView),
      (''/pyrealiy/cache'', CacheView)]"

fun diag_json :: "clash_env \<Rightarrow> diag_handler \<Rightarrow> view" where
  "diag_json ev PoolView = pools_view (ev_mono ev)"
| "diag_json ev TimeView = time_view (ev_wall ev)"
| "diag_json ev GeoView = geo_view (ev_wall ev)"
| "diag_json ev CacheView = caches_view"

definition diag_endpoint :: "clash_env \<Rightarrow> (diag_handler, diag) endpoints" where
  "diag_endpoint ev h req g st = (map_sum id (json_response ev 200) (diag_json ev h st), st)"

section \<open>Properties\<close>

text \<open>An outbound without the server it leads to and its password.\<close>

fun forget :: "node_cfg \<Rightarrow> outb \<Rightarrow> outb" where
  "forget c (Mirage m) = Mirage (m\<lparr> m_cfg := c \<rparr>)"
| "forget c x = x"

lemma pool_entry_forget: "pool_entry now p t (forget c x) = pool_entry now p t x"
  by (cases x) (simp_all add: pool_view_def mirage_latency_def latency_age_def mirage_healthy_def)

definition shown_keys :: "pystr list" where
  "shown_keys = map U [''time_sync'', ''geosite_dir'', ''geosite_update_days'']"

text \<open>The diagnostic views tell nothing about the servers and the secrets: two states that agree but for the hosts, ports,
  passwords and names of the outbounds' nodes, and but for keys of the configuration other than three, get the same answer.\<close>

theorem diagnostics_hide_secrets:
  assumes "\<forall>k \<in> set shown_keys. od_get cfg k = od_get (dg_cfg g) k" "\<forall>(t, a) \<in> set (dg_tags g). a < length (dg_obs g)"
  shows "diag_json ev h (g\<lparr> dg_cfg := cfg, dg_obs := map (forget c) (dg_obs g) \<rparr>) = diag_json ev h g"
proof (cases h)
  case PoolView
  show ?thesis
    using assms(2) by (auto simp: PoolView pools_view_def pool_entry_forget intro!: arg_cong[where f = concat] map_cong)
next
  case TimeView
  then show ?thesis using assms(1) by (simp add: time_view_def shown_keys_def)
next
  case GeoView
  then show ?thesis using assms(1) by (simp add: geo_view_def jget_or_def shown_keys_def cong: json.case_cong sum.case_cong)
next
  case CacheView
  then show ?thesis by (simp add: caches_view_def)
qed

text \<open>Every path of the table is served, the older names by the same view.\<close>

theorem diag_paths_served:
  "map (\<lambda>p. fst (route_match diag_routes (U ''GET'') (U p)))
     [''/mirage/pool'', ''/mirage/timesync'', ''/mirage/geo'', ''/mirage/cache'', ''/pyrealiy/pool'', ''/pyrealiy/timesync'',
      ''/pyrealiy/geo'', ''/pyrealiy/cache'']
   = map (\<lambda>h. Some (h, [])) [PoolView, TimeView, GeoView, CacheView, PoolView, TimeView, GeoView, CacheView]"
  by code_simp

text \<open>\<open>_write_meta\<close>'s value for what the downloads recorded.\<close>

definition null_or :: "pystr option \<Rightarrow> json" where
  "null_or v = (case v of None \<Rightarrow> JNull | Some s \<Rightarrow> JStr s)"

definition meta_entry :: "src_meta \<Rightarrow> json" where
  "meta_entry m = JObj [(U ''url'', JStr (sm_url m)), (U ''downloaded_at'', JInt (sm_at m)), (U ''etag'', null_or (sm_etag m)),
     (U ''last_modified'', null_or (sm_lm m))]"

definition meta_value :: "int \<Rightarrow> metas \<Rightarrow> json" where
  "meta_value v ms = JObj [(U ''v'', JInt v), (U ''sources'', JObj (map (\<lambda>(k, m). (k, meta_entry m)) ms))]"

definition source_shown :: "files \<Rightarrow> pystr \<Rightarrow> rat \<Rightarrow> pystr \<times> src_meta \<Rightarrow> json" where
  "source_shown fs dir now x = (case x of (k, m) \<Rightarrow> JObj [(U ''key'', JStr k), (U ''file_path'', JStr (dat_path dir k)),
     (U ''exists'', JBool (fs (dat_path dir k) \<noteq> None)),
     (U ''file_size'', JInt (case fs (dat_path dir k) of None \<Rightarrow> 0 | Some b \<Rightarrow> int (length b))),
     (U ''downloaded_epoch'', if 0 < sm_at m then JInt (sm_at m) else JNull),
     (U ''age_days'', float_or_null (if 0 < sm_at m then Some (round_to 2 ((now - of_int (sm_at m)) / 86400)) else None)),
     (U ''url'', JStr (sm_url m))])"

lemma dat_path_join: "key = [] \<or> hd key \<noteq> 47 \<Longrightarrow> path_join dir (key @ U ''.dat'') = dat_path dir key"
  by (cases key) (auto simp: path_join_def dat_path_def U_def)

lemma source_view_shown:
  "k = [] \<or> hd k \<noteq> 47 \<Longrightarrow> source_view parse fs dir now k (meta_entry m) = Inr (source_shown fs dir now (k, m))"
  by (simp add: source_view_def source_shown_def meta_entry_def jget_or_def od_get_def bindE_def Let_def dat_path_join)

text \<open>The view of the data files is the record of the downloads: each source once, with the file the download writes.\<close>

theorem geo_view_shows_downloads:
  assumes "dg_meta g (path_join dir (U ''meta.json'')) = Inr (meta_value v ms)" "\<forall>(k, m) \<in> set ms. k = [] \<or> hd k \<noteq> 47"
    and "jget (JObj (dg_cfg g)) (U ''geosite_dir'') = Some (JStr d)" "d \<noteq> []" "dg_abspath g d = dir"
    and "py_float_of (dg_float g) (jget_or (JObj (dg_cfg g)) (U ''geosite_update_days'') (JInt 7)) = Inr days"
  shows "geo_view now g = Inr (JObj [(U ''cache_dir'', JStr dir), (U ''update_days'', JFloat days),
    (U ''sources'', JList (map (source_shown (dg_files g) dir now) ms))])"
proof -
  have "source_views (source_view (dg_float g) (dg_files g) dir now) (map (\<lambda>(k, m). (k, meta_entry m)) ms)
      = map (source_shown (dg_files g) dir now) ms"
    using assms(2)
    by (induction ms) (auto simp: source_view_shown)
  then show ?thesis
    using assms(1,3-6) by (simp add: geo_view_def truthy_opt_def meta_value_def od_get_def bindE_def)
qed

end
