(* ===== verification/Stable_Choice.thy ===== *)
theory Stable_Choice
  imports Complex_Main Outbounds
begin

text \<open>
  Choosing twice is choosing once.  Looking up a leaf moves the current choice of urltest groups on the way, also of groups
  that are only measured; the dispatcher, the API and the outbound's \<open>handle\<close> each look up for themselves.  An outbound is
  \<open>settled\<close> when a look-up would leave everything as it is; a look-up settles its outbound and what it passed, and
  never unsettles another.
\<close>

section \<open>Settled outbounds\<close>

definition candidates :: "outb list \<Rightarrow> nat list \<Rightarrow> nat list" where
  "candidates obs cs = filter (healthy obs) cs"

text \<open>The measured candidates, when \<open>V\<close> gives their leaves.\<close>

definition gauges :: "outb list \<Rightarrow> (nat \<Rightarrow> nat) \<Rightarrow> nat list \<Rightarrow> (nat \<times> rat) list" where
  "gauges obs V cs = concat (map (\<lambda>x. case leaf_latency obs (V x) of None \<Rightarrow> [] | Some l \<Rightarrow> [(x, l)]) cs)"

text \<open>A urltest group keeps its choice \<open>c\<close>.\<close>

definition sticks :: "outb list \<Rightarrow> (nat \<Rightarrow> nat) \<Rightarrow> int \<Rightarrow> (nat \<times> rat) list \<Rightarrow> nat \<Rightarrow> bool" where
  "sticks obs V tol wl c \<longleftrightarrow> wl = [] \<or> fst (first_min wl) = c
     \<or> (\<exists>l. leaf_latency obs (V c) = Some l \<and> l - snd (first_min wl) < of_int tol)"

inductive settled :: "outb list \<Rightarrow> nat \<Rightarrow> nat \<Rightarrow> bool" for obs where
  leaf: "is_leaf (obs ! a) \<Longrightarrow> settled obs a a"
| none: "obs ! a = UrlTest t cs tol cur \<Longrightarrow> candidates obs cs = [] \<Longrightarrow> settled obs a a"
| urltest: "obs ! a = UrlTest t cs tol (Some c) \<Longrightarrow> c \<in> set (candidates obs cs) \<Longrightarrow> \<forall>x \<in> set (candidates obs cs). settled obs x (V x)
    \<Longrightarrow> sticks obs V tol (gauges obs V (candidates obs cs)) c \<Longrightarrow> settled obs a (V c)"
| fallback: "obs ! a = Fallback t cs \<Longrightarrow> cs \<noteq> [] \<Longrightarrow> settled obs (case find (healthy obs) cs of Some c \<Rightarrow> c | None \<Rightarrow> hd cs) l \<Longrightarrow> settled obs a l"
| selector: "obs ! a = Selector t cs sel \<Longrightarrow> selected_child obs cs sel = Some c \<Longrightarrow> settled obs c l \<Longrightarrow> settled obs a l"

lemma candidates_child:
  assumes "obs_ok obs" "a < length obs" "children (obs ! a) = cs" "a \<le> n"
  shows "filter (is_healthy n obs) cs = candidates obs cs"
  unfolding candidates_def
proof (rule filter_cong[OF refl])
  fix x assume "x \<in> set cs"
  then have "x < a" "x < length obs" using obs_okD[OF assms(1,2)] assms(3) by auto
  then show "is_healthy n obs x = healthy obs x" using is_healthy_healthy[OF assms(1)] assms(4) by simp
qed

lemma find_child:
  assumes "obs_ok obs" "a < length obs" "children (obs ! a) = cs" "a \<le> n"
  shows "find (is_healthy n obs) cs = find (healthy obs) cs"
proof (rule find_cong_set)
  fix x assume "x \<in> set cs"
  then have "x < a" "x < length obs" using obs_okD[OF assms(1,2)] assms(3) by auto
  then show "is_healthy n obs x = healthy obs x" using is_healthy_healthy[OF assms(1)] assms(4) by simp
qed

section \<open>Looking up a settled outbound\<close>

text \<open>What a look-up and a measurement give when nothing moves.\<close>

definition looks_up :: "outb list \<Rightarrow> nat \<Rightarrow> nat \<Rightarrow> bool" where
  "looks_up obs a l \<longleftrightarrow> l \<le> a \<and> (\<forall>n. 2 * a + 2 \<le> n \<longrightarrow> resolve n obs a = (l, obs)) \<and> (\<forall>n. 2 * a + 3 \<le> n \<longrightarrow> latency n obs a = (leaf_latency obs l, obs))
     \<and> (\<forall>n. 2 * l + 3 \<le> n \<longrightarrow> latency n obs l = (leaf_latency obs l, obs))"

lemma latencies_settled:
  assumes "\<forall>x \<in> set cs. looks_up obs x (V x) \<and> 2 * x + 3 \<le> n"
  shows "latencies n obs cs = (gauges obs V cs, obs)"
  using assms by (induction cs) (auto simp: gauges_def looks_up_def split: option.split)

lemma latency_group: "\<not> is_leaf (obs ! a) \<Longrightarrow> latency (Suc n) obs a = (case resolve n obs a of (leaf, obs1) \<Rightarrow>
    if leaf = a then (None, obs1) else latency n obs1 leaf)"
  by (cases "obs ! a") simp_all

lemma group_looks_up:
  assumes "\<not> is_leaf (obs ! a)" "\<And>n. 2 * a + 1 \<le> n \<Longrightarrow> resolve (Suc n) obs a = (l, obs)"
    and "l = a \<or> l < a \<and> (\<forall>n. 2 * l + 3 \<le> n \<longrightarrow> latency n obs l = (leaf_latency obs l, obs))"
  shows "looks_up obs a l"
proof -
  have r: "resolve n obs a = (l, obs)" if "2 * a + 2 \<le> n" for n using assms(2)[of "n - 1"] that by (cases n) auto
  have "latency n obs a = (leaf_latency obs l, obs)" if "2 * a + 3 \<le> n" for n
  proof -
    define k where "k = n - 1"
    have k: "n = Suc k" "2 * a + 2 \<le> k" using that by (simp_all add: k_def)
    have "leaf_latency obs a = None" using assms(1) by (cases "obs ! a") (simp_all add: leaf_latency_def)
    then show ?thesis using assms(3) r[OF k(2)] k(2) unfolding k(1) latency_group[OF assms(1)] by auto
  qed
  then show ?thesis using r assms(3) by (auto simp: looks_up_def)
qed

lemma urltest_kept:
  assumes "obs ! a = UrlTest t cs tol (Some c)" "filter (is_healthy n obs) cs = cand" "c \<in> set cand"
    and "\<forall>x \<in> set cand. looks_up obs x (V x) \<and> x < a" "sticks obs V tol (gauges obs V cand) c" "2 * a + 1 \<le> n"
  shows "resolve (Suc n) obs a = (V c, obs)"
proof -
  have L: "latencies n obs cand = (gauges obs V cand, obs)" by (rule latencies_settled) (use assms(4,6) in force)
  have x: "resolve n obs x = (V x, obs)" "latency n obs x = (leaf_latency obs (V x), obs)" if "x \<in> set cand" for x
    using assms(4,6) that by (force simp: looks_up_def)+
  have ne: "cand \<noteq> []" using assms(3) by auto
  obtain b bl where b: "first_min (gauges obs V cand) = (b, bl)" by fastforce
  have upd: "obs[a := UrlTest t cs tol (Some c)] = obs" using assms(1) by (metis list_update_id)
  show ?thesis
    using assms(1,2,3,5) ne L b x[OF assms(3)] upd
    by (auto simp: sticks_def Let_def split: option.split)
qed

lemma settled_looks_up: "settled obs a l \<Longrightarrow> obs_ok obs \<Longrightarrow> a < length obs \<Longrightarrow> looks_up obs a l"
proof (induction rule: settled.induct)
  case (leaf a)
  have "latency n obs a = (leaf_latency obs a, obs)" if "2 * a + 3 \<le> n" for n
    using that leaf latency_leaf[of obs a "n - 1"] by (simp add: leaf_latency_def)
  then show ?case using leaf resolve_is_leaf by (simp add: looks_up_def)
next
  case (none a t cs tol cur)
  have "resolve (Suc n) obs a = (a, obs)" if "2 * a + 1 \<le> n" for n
    using candidates_child[OF none(3,4), of cs n] that none(1,2) by simp
  then show ?case using none(1) by (intro group_looks_up) auto
next
  case (urltest a t cs tol c V)
  have lt: "x < a" "x < length obs" if "x \<in> set (candidates obs cs)" for x
    using that obs_okD[OF urltest.prems, of x] urltest.hyps(1) by (auto simp: candidates_def)
  have v: "looks_up obs x (V x)" if "x \<in> set (candidates obs cs)" for x
    using urltest.IH that lt[OF that] urltest.prems(1) by blast
  have "resolve (Suc n) obs a = (V c, obs)" if "2 * a + 1 \<le> n" for n
    using urltest_kept[OF urltest.hyps(1) candidates_child[OF urltest.prems] urltest.hyps(2) _ urltest.hyps(3) that]
      urltest.hyps(1) v lt that by auto
  then show ?case using urltest.hyps(1) v[OF urltest.hyps(2)] lt(1)[OF urltest.hyps(2)] by (intro group_looks_up) (auto simp: looks_up_def)
next
  case (fallback a t cs l)
  let ?c = "case find (healthy obs) cs of Some c \<Rightarrow> c | None \<Rightarrow> hd cs"
  have "?c \<in> set cs" using fallback(2) by (auto simp: find_Some_iff split: option.split)
  then have lt: "?c < a" "?c < length obs" using obs_okD[OF fallback(5,6), of ?c] fallback(1) by auto
  have v: "looks_up obs ?c l" using fallback(4) lt fallback.prems(1) by blast
  have "resolve (Suc n) obs a = (l, obs)" if "2 * a + 1 \<le> n" for n
    using find_child[OF fallback(5,6), of cs n] that fallback(1,2) v lt(1) by (force simp: looks_up_def split: option.splits)
  then show ?case using fallback(1) v lt(1) by (intro group_looks_up) (auto simp: looks_up_def)
next
  case (selector a t cs sel c l)
  have "c \<in> set cs" using selector(2) by (rule selected_child_in)
  then have lt: "c < a" "c < length obs" using obs_okD[OF selector(5,6), of c] selector(1) by auto
  have v: "looks_up obs c l" using selector(4) lt selector.prems(1) by blast
  have "resolve (Suc n) obs a = (l, obs)" if "2 * a + 1 \<le> n" for n
    using that selector(1,2) v lt(1) by (simp add: looks_up_def)
  then show ?case using selector(1) v lt(1) by (intro group_looks_up) (auto simp: looks_up_def)
qed

section \<open>A look-up changes only what is not settled\<close>

definition grows :: "outb list \<Rightarrow> outb list \<Rightarrow> bool" where
  "grows obs obs' \<longleftrightarrow> same obs' obs \<and> (\<forall>b < length obs. (\<exists>l. settled obs b l) \<longrightarrow> obs' ! b = obs ! b)"

lemma leaf_latency_same: "same obs' obs \<Longrightarrow> a < length obs \<Longrightarrow> leaf_latency obs' a = leaf_latency obs a"
  using same_shape[of obs' obs a] by (cases "obs ! a"; cases "obs' ! a") (auto simp: leaf_latency_def)

lemma candidates_same:
  "same obs' obs \<Longrightarrow> obs_ok obs \<Longrightarrow> \<forall>c \<in> set cs. c < length obs \<Longrightarrow> candidates obs' cs = candidates obs cs"
  using healthy_same by (auto simp: candidates_def intro!: filter_cong)

lemma first_same:
  "same obs' obs \<Longrightarrow> obs_ok obs \<Longrightarrow> \<forall>c \<in> set cs. c < length obs \<Longrightarrow> find (healthy obs') cs = find (healthy obs) cs"
  using healthy_same by (auto intro!: find_cong_set)

lemma gauges_same:
  "same obs' obs \<Longrightarrow> \<forall>c \<in> set cs. V c < length obs \<Longrightarrow> gauges obs' V cs = gauges obs V cs"
  using leaf_latency_same by (auto simp: gauges_def intro!: arg_cong[where f = concat] map_cong)

lemma sticks_same: "same obs' obs \<Longrightarrow> V c < length obs \<Longrightarrow> sticks obs' V tol wl c = sticks obs V tol wl c"
  by (simp add: sticks_def leaf_latency_same)

lemma settled_le: "settled obs a l \<Longrightarrow> obs_ok obs \<Longrightarrow> a < length obs \<Longrightarrow> l \<le> a"
  using settled_looks_up[of obs a l] unfolding looks_up_def by blast

lemma settled_resolve: "settled obs a l \<Longrightarrow> obs_ok obs \<Longrightarrow> a < length obs \<Longrightarrow> 2 * a + 2 \<le> n \<Longrightarrow> resolve n obs a = (l, obs)"
  using settled_looks_up[of obs a l] unfolding looks_up_def by blast

lemma settled_unique:
  assumes "settled obs a l" "settled obs a l'" "obs_ok obs" "a < length obs"
  shows "l = l'"
  using settled_resolve[OF assms(1,3,4) order_refl] settled_resolve[OF assms(2,3,4) order_refl] by simp

lemma grows_same: "grows obs obs' \<Longrightarrow> same obs' obs"
  by (simp add: grows_def)

lemma grows_keep: "grows obs obs' \<Longrightarrow> settled obs b l \<Longrightarrow> b < length obs \<Longrightarrow> obs' ! b = obs ! b"
  unfolding grows_def by blast

lemma grows_settled:
  assumes "settled obs x l" "grows obs obs'" "obs_ok obs" "x < length obs"
  shows "settled obs' x l"
  using assms(1,4)
proof (induction rule: settled.induct)
  case (leaf a)
  have "is_leaf (obs' ! a)" using same_facts(3)[OF grows_same[OF assms(2)] leaf.prems] leaf.hyps by simp
  then show ?case by (rule settled.leaf)
next
  case (none a t cs tol cur)
  have "obs' ! a = UrlTest t cs tol cur" using grows_keep[OF assms(2) settled.none[OF none.hyps] none.prems] none.hyps(1) by simp
  moreover have "\<forall>c \<in> set cs. c < length obs" using obs_okD(2)[OF assms(3) none.prems] none.hyps(1) by simp
  then have "candidates obs' cs = []" using candidates_same[OF grows_same[OF assms(2)] assms(3)] none.hyps(2) by simp
  ultimately show ?case by (rule settled.none)
next
  case (urltest a t cs tol c V)
  note s = grows_same[OF assms(2)]
  have lt: "x < length obs" if "x \<in> set cs" for x
    using that obs_okD(2)[OF assms(3) urltest.prems, of x] urltest.hyps(1) by simp
  have sub: "x \<in> set (candidates obs cs) \<Longrightarrow> x \<in> set cs" for x by (simp add: candidates_def)
  have cand: "candidates obs' cs = candidates obs cs" by (rule candidates_same[OF s assms(3)]) (use lt in blast)
  have v: "V x < length obs" if "x \<in> set (candidates obs cs)" for x
  proof -
    have "settled obs x (V x)" using urltest.IH that by blast
    then show ?thesis using settled_le[OF _ assms(3) lt[OF sub[OF that]]] lt[OF sub[OF that]] le_less_trans by blast
  qed
  have st: "settled obs a (V c)" by (rule settled.urltest[OF urltest.hyps(1,2) _ urltest.hyps(3)]) (use urltest.IH in blast)
  then have a: "obs' ! a = UrlTest t cs tol (Some c)" using grows_keep[OF assms(2) _ urltest.prems] urltest.hyps(1) by simp
  have 1: "c \<in> set (candidates obs' cs)" using urltest.hyps(2) by (simp add: cand)
  have 2: "\<forall>x \<in> set (candidates obs' cs). settled obs' x (V x)" using urltest.IH lt[OF sub] unfolding cand by blast
  have 3: "sticks obs' V tol (gauges obs' V (candidates obs' cs)) c"
    unfolding cand using urltest.hyps(3) gauges_same[OF s, of "candidates obs cs" V] v sticks_same[of obs' obs V c, OF s v[OF urltest.hyps(2)]] by simp
  show ?case by (rule settled.urltest[OF a 1 2 3])
next
  case (fallback a t cs l)
  note s = grows_same[OF assms(2)]
  have st: "settled obs a l" by (rule settled.fallback[OF fallback.hyps])
  then have a: "obs' ! a = Fallback t cs" using grows_keep[OF assms(2) _ fallback.prems] fallback.hyps(1) by simp
  have lt: "x < length obs" if "x \<in> set cs" for x
    using that obs_okD(2)[OF assms(3) fallback.prems, of x] fallback.hyps(1) by auto
  have f: "find (healthy obs') cs = find (healthy obs) cs" by (rule first_same[OF s assms(3)]) (use lt in blast)
  have "(case find (healthy obs) cs of Some c \<Rightarrow> c | None \<Rightarrow> hd cs) \<in> set cs"
    using fallback.hyps(2) by (auto simp: find_Some_iff split: option.split)
  then show ?case using settled.fallback[OF a fallback.hyps(2)] f fallback.IH lt by simp
next
  case (selector a t cs sel c l)
  note s = grows_same[OF assms(2)]
  have st: "settled obs a l" by (rule settled.selector[OF selector.hyps])
  then have a: "obs' ! a = Selector t cs sel" using grows_keep[OF assms(2) _ selector.prems] selector.hyps(1) by simp
  have lt: "x < length obs" if "x \<in> set cs" for x
    using that obs_okD(2)[OF assms(3) selector.prems, of x] selector.hyps(1) by auto
  have "selected_child obs' cs sel = Some c" using selected_child_same[OF s, of cs sel] lt selector.hyps(2) by simp
  then show ?case by (rule settled.selector[OF a]) (rule selector.IH[OF lt[OF selected_child_in[OF selector.hyps(2)]]])
qed

lemma grows_refl: "grows obs obs"
  by (simp add: grows_def)

lemma grows_trans: "grows o1 o2 \<Longrightarrow> grows o2 o3 \<Longrightarrow> obs_ok o1 \<Longrightarrow> grows o1 o3"
  using grows_settled[of o1 _ _ o2] grows_keep same_trans[of o3 o2 o1] same_length[of o2 o1] unfolding grows_def by metis

section \<open>A look-up settles\<close>

text \<open>What is proved of a look-up of \<open>a\<close>: it settles \<open>a\<close>, unsettles nothing, and touches nothing above.\<close>

definition settles :: "outb list \<Rightarrow> nat \<Rightarrow> outb list \<Rightarrow> nat \<Rightarrow> bool" where
  "settles obs a obs' l \<longleftrightarrow> grows obs obs' \<and> settled obs' a l \<and> (\<forall>b > a. obs' ! b = obs ! b)"

lemma urltest_settled:
  assumes "settled obs a l" "obs ! a = UrlTest t cs tol cur" "candidates obs cs \<noteq> []" "obs_ok obs" "a < length obs"
    and "\<forall>x \<in> set (candidates obs cs). settled obs x (V x)"
  obtains c where "cur = Some c" "c \<in> set (candidates obs cs)" "sticks obs V tol (gauges obs V (candidates obs cs)) c"
  using assms(1)
proof cases
  case (urltest t' cs' tol' c W)
  have e: "cs' = cs" "tol' = tol" "cur = Some c" using urltest(2) assms(2) by simp_all
  have W: "V x = W x" if "x \<in> set (candidates obs cs)" for x
    using settled_unique[of obs x "V x" "W x"] that urltest(4) assms(4-6) obs_okD(2)[OF assms(4,5), of x] assms(2)
    by (auto simp: e candidates_def)
  have "gauges obs V (candidates obs cs) = gauges obs W (candidates obs cs)"
    using W by (auto simp: gauges_def intro!: arg_cong[where f = concat] map_cong)
  then show thesis using that[OF e(3)] urltest(3,5) W by (simp add: e sticks_def)
qed (use assms(2,3) in auto)

lemma choose_settles:
  assumes "obs_ok obs" "a < length obs" "obs ! a = UrlTest t cs tol cur" "d \<in> set (candidates obs cs)"
    and "\<forall>x \<in> set (candidates obs cs). settled obs x (V x)" "sticks obs V tol (gauges obs V (candidates obs cs)) d"
    and "cur = Some d \<or> (\<forall>l. \<not> settled obs a l)"
  defines "obs' \<equiv> obs[a := UrlTest t cs tol (Some d)]"
  shows "settles obs a obs' (V d)" "settled obs' d (V d)"
proof -
  have s: "same obs' obs" unfolding obs'_def by (rule same_update[OF same_refl assms(3)])
  have g: "grows obs obs'"
    using assms(7)
  proof
    assume "cur = Some d"
    then show ?thesis using assms(3) grows_refl unfolding obs'_def by (metis list_update_id)
  next
    assume u: "\<forall>l. \<not> settled obs a l"
    have "obs' ! b = obs ! b" if "settled obs b l" for b l
      using that u unfolding obs'_def by (cases "b = a") auto
    then show ?thesis using s by (auto simp: grows_def)
  qed
  have lt: "x < length obs" if "x \<in> set cs" for x using that obs_okD(2)[OF assms(1,2), of x] assms(3) by simp
  have sub: "x \<in> set (candidates obs cs) \<Longrightarrow> x \<in> set cs" for x by (simp add: candidates_def)
  have cand: "candidates obs' cs = candidates obs cs" by (rule candidates_same[OF s assms(1)]) (use lt in blast)
  have v: "V x < length obs" if "x \<in> set (candidates obs cs)" for x
    using settled_le[OF _ assms(1) lt[OF sub[OF that]]] assms(5) that lt[OF sub[OF that]] le_less_trans by blast
  have st: "settled obs' x (V x)" if "x \<in> set (candidates obs cs)" for x
    using grows_settled[OF _ g assms(1) lt[OF sub[OF that]]] assms(5) that by blast
  have a: "obs' ! a = UrlTest t cs tol (Some d)" unfolding obs'_def using assms(2) by simp
  have 1: "d \<in> set (candidates obs' cs)" using assms(4) by (simp add: cand)
  have 2: "\<forall>x \<in> set (candidates obs' cs). settled obs' x (V x)" unfolding cand using st by blast
  have 3: "sticks obs' V tol (gauges obs' V (candidates obs' cs)) d"
    unfolding cand using assms(6) gauges_same[OF s, of "candidates obs cs" V] v sticks_same[of obs' obs V d, OF s v[OF assms(4)]] by simp
  have "obs' ! b = obs ! b" if "a < b" for b using that by (simp add: obs'_def)
  then show "settles obs a obs' (V d)" using g settled.urltest[OF a 1 2 3] by (simp add: settles_def)
  show "settled obs' d (V d)" using st assms(4) by blast
qed

text \<open>A measurement settles what it measures.\<close>

definition gauge_ok :: "nat \<Rightarrow> bool" where
  "gauge_ok n \<longleftrightarrow> (\<forall>obs a. obs_ok obs \<longrightarrow> a < length obs \<longrightarrow> 2 * a + 3 \<le> n \<longrightarrow>
     (\<exists>l. settles obs a (snd (latency n obs a)) l \<and> fst (latency n obs a) = leaf_latency (snd (latency n obs a)) l))"

lemma gauges_cong: "(\<And>x. x \<in> set cs \<Longrightarrow> V x = W x) \<Longrightarrow> gauges obs V cs = gauges obs W cs"
  by (auto simp: gauges_def intro!: arg_cong[where f = concat] map_cong)

lemma gauges_Cons: "gauges obs V (x # cs) = (case leaf_latency obs (V x) of None \<Rightarrow> [] | Some l \<Rightarrow> [(x, l)]) @ gauges obs V cs"
  by (simp add: gauges_def)

lemma latencies_settle:
  assumes "gauge_ok n" "obs_ok obs" "\<forall>x \<in> set cs. x < length obs \<and> 2 * x + 3 \<le> n" "latencies n obs cs = (wl, obs')"
  shows "\<exists>V. grows obs obs' \<and> (\<forall>x \<in> set cs. settled obs' x (V x)) \<and> wl = gauges obs' V cs \<and> (\<forall>b. (\<forall>x \<in> set cs. x < b) \<longrightarrow> obs' ! b = obs ! b)"
  using assms(2-4)
proof (induction cs arbitrary: obs wl)
  case Nil
  then show ?case by (simp add: gauges_def grows_refl)
next
  case (Cons c cs)
  obtain v o1 where l1: "latency n obs c = (v, o1)" by fastforce
  obtain l where s1: "settles obs c o1 l" "v = leaf_latency o1 l"
    using assms(1) Cons.prems(1,2) l1 unfolding gauge_ok_def by (metis fst_conv snd_conv list.set_intros(1))
  obtain wl1 where l2: "latencies n o1 cs = (wl1, obs')" "wl = (case v of None \<Rightarrow> wl1 | Some x \<Rightarrow> (c, x) # wl1)"
    using Cons.prems(3) l1 by (auto split: prod.splits)
  have sm: "same o1 obs" and g1: "grows obs o1" using s1(1) grows_same by (auto simp: settles_def)
  note ok1 = obs_ok_same[OF sm Cons.prems(1)] and len1 = same_length[OF sm]
  have "\<forall>x \<in> set cs. x < length o1 \<and> 2 * x + 3 \<le> n" using Cons.prems(2) len1 by simp
  then obtain V where V: "grows o1 obs'" "\<forall>x \<in> set cs. settled obs' x (V x)" "wl1 = gauges obs' V cs"
      "\<forall>b. (\<forall>x \<in> set cs. x < b) \<longrightarrow> obs' ! b = o1 ! b"
    using Cons.IH[OF ok1 _ l2(1)] by blast
  have c: "c < length o1" using Cons.prems(2) len1 by simp
  have sc: "settled obs' c l" using grows_settled[OF _ V(1) ok1 c] s1(1) by (simp add: settles_def)
  have ok': "obs_ok obs'" "length obs' = length o1" using obs_ok_same[OF grows_same[OF V(1)] ok1] same_length[OF grows_same[OF V(1)]] by simp_all
  define W where "W = V(c := l)"
  have W: "W x = V x" if "x \<in> set cs" for x
    using settled_unique[OF sc _ ok'(1)] V(2) that c ok'(2) by (auto simp: W_def)
  have 1: "\<forall>x \<in> set (c # cs). settled obs' x (W x)" using V(2) sc by (simp add: W_def)
  have "l \<le> c" using settled_le[OF _ ok1 c] s1(1) by (simp add: settles_def)
  then have "l < length o1" using c by simp
  then have "leaf_latency obs' l = v" using leaf_latency_same[OF grows_same[OF V(1)]] s1(2) by simp
  then have 2: "wl = gauges obs' W (c # cs)" using gauges_cong[of cs W V obs'] W V(3) l2(2) by (simp add: gauges_Cons W_def split: option.split)
  have 3: "obs' ! b = obs ! b" if "\<forall>x \<in> set (c # cs). x < b" for b using that V(4) s1(1) by (simp add: settles_def)
  show ?case using grows_trans[OF g1 V(1) Cons.prems(1)] 1 2 3 by blast
qed

text \<open>A urltest group goes on with a candidate it keeps from then on.\<close>

lemma urltest_picks:
  assumes "obs ! a = UrlTest t cs tol cur" "filter (is_healthy n obs) cs = cand" "cand \<noteq> []" "latencies n obs cand = (gauges obs1 V cand, obs1)"
    and "obs1 ! a = obs ! a" "\<forall>x \<in> set cand. latency n obs1 x = (leaf_latency obs1 (V x), obs1)"
  obtains d where "d \<in> set cand" "sticks obs1 V tol (gauges obs1 V cand) d"
    "resolve (Suc n) obs a = resolve n (obs1[a := UrlTest t cs tol (Some d)]) d"
    "cur = Some d \<or> \<not> (\<exists>c. cur = Some c \<and> c \<in> set cand \<and> sticks obs1 V tol (gauges obs1 V cand) c)"
proof -
  let ?wl = "gauges obs1 V cand"
  have upd: "obs1[a := UrlTest t cs tol (Some c)] = obs1" if "cur = Some c" for c using assms(1,5) that by (metis list_update_id)
  show thesis
  proof (cases "\<exists>c. cur = Some c \<and> c \<in> set cand")
    case True
    then obtain c where c: "cur = Some c" "c \<in> set cand" by blast
    note l = assms(6)[rule_format, OF c(2)]
    show thesis
    proof (cases "sticks obs1 V tol ?wl c")
      case True
      have "resolve (Suc n) obs a = resolve n obs1 c"
        using True assms(1-4) c l upd[OF c(1)] by (cases "first_min ?wl") (auto simp: sticks_def Let_def split: option.split)
      then show thesis using that[OF c(2) True] c(1) upd[OF c(1)] by simp
    next
      case False
      then have ne: "?wl \<noteq> []" by (auto simp: sticks_def)
      obtain b bl where b: "first_min ?wl = (b, bl)" by fastforce
      have "b \<in> set cand" using first_min_in[OF ne] b by (auto simp: gauges_def split: option.splits)
      moreover have "sticks obs1 V tol ?wl b" using b by (simp add: sticks_def)
      moreover have "resolve (Suc n) obs a = resolve n (obs1[a := UrlTest t cs tol (Some b)]) b"
        using False assms(1-4) c l b ne by (auto simp: sticks_def Let_def split: option.split)
      ultimately show thesis using that False c(1) by blast
    qed
  next
    case nocur: False
    show thesis
    proof (cases "?wl = []")
      case True
      have "resolve (Suc n) obs a = resolve n (obs1[a := UrlTest t cs tol (Some (hd cand))]) (hd cand)"
        using True assms(1-4) nocur by (auto simp: Let_def split: option.split)
      moreover have "sticks obs1 V tol ?wl (hd cand)" using True by (simp add: sticks_def)
      ultimately show thesis using that[OF hd_in_set[OF assms(3)]] nocur by blast
    next
      case False
      obtain b bl where b: "first_min ?wl = (b, bl)" by fastforce
      have "b \<in> set cand" using first_min_in[OF False] b by (auto simp: gauges_def split: option.splits)
      moreover have "sticks obs1 V tol ?wl b" using b by (simp add: sticks_def)
      moreover have "resolve (Suc n) obs a = resolve n (obs1[a := UrlTest t cs tol (Some b)]) b"
        using False assms(1-4) nocur b by (auto simp: Let_def split: option.split)
      ultimately show thesis using that nocur by blast
    qed
  qed
qed

lemma urltest_settles:
  assumes "obs_ok obs" "a < length obs" "obs ! a = UrlTest t cs tol cur" "2 * a + 1 \<le> n" "gauge_ok n"
  shows "settles obs a (snd (resolve (Suc n) obs a)) (fst (resolve (Suc n) obs a))"
proof (cases "candidates obs cs = []")
  case True
  have "resolve (Suc n) obs a = (a, obs)" using candidates_child[OF assms(1,2), of cs n] assms(3,4) True by simp
  then show ?thesis using settled.none[OF assms(3) True] by (simp add: settles_def grows_refl)
next
  case False
  let ?cand = "candidates obs cs"
  have lt: "x < a" "x < length obs" if "x \<in> set cs" for x using that obs_okD[OF assms(1,2), of x] assms(3) by simp_all
  have sub: "x \<in> set ?cand \<Longrightarrow> x \<in> set cs" for x by (simp add: candidates_def)
  have f: "filter (is_healthy n obs) cs = ?cand" by (rule candidates_child[OF assms(1,2)]) (use assms(3,4) in simp_all)
  have b: "\<forall>x \<in> set ?cand. x < length obs \<and> 2 * x + 3 \<le> n" using lt sub assms(4) by force
  obtain wl obs1 where L: "latencies n obs ?cand = (wl, obs1)" by fastforce
  obtain V where V: "grows obs obs1" "\<forall>x \<in> set ?cand. settled obs1 x (V x)" "wl = gauges obs1 V ?cand"
      "\<forall>b. (\<forall>x \<in> set ?cand. x < b) \<longrightarrow> obs1 ! b = obs ! b"
    using latencies_settle[OF assms(5,1) b L] by blast
  note s1 = grows_same[OF V(1)]
  note ok1 = obs_ok_same[OF s1 assms(1)] and len1 = same_length[OF s1]
  have above: "obs1 ! b = obs ! b" if "a \<le> b" for b using V(4) lt(1) sub that less_le_trans by blast
  have cand1: "candidates obs1 cs = ?cand" by (rule candidates_same[OF s1 assms(1)]) (use lt in blast)
  have lat: "\<forall>x \<in> set ?cand. latency n obs1 x = (leaf_latency obs1 (V x), obs1)"
    using settled_looks_up[OF _ ok1] V(2) b len1 unfolding looks_up_def by metis
  obtain d where d: "d \<in> set ?cand" "sticks obs1 V tol (gauges obs1 V ?cand) d"
      "resolve (Suc n) obs a = resolve n (obs1[a := UrlTest t cs tol (Some d)]) d"
      "cur = Some d \<or> \<not> (\<exists>c. cur = Some c \<and> c \<in> set ?cand \<and> sticks obs1 V tol (gauges obs1 V ?cand) c)"
    by (rule urltest_picks[OF assms(3) f False L[unfolded V(3)] above[OF order_refl] lat])
  have a1: "obs1 ! a = UrlTest t cs tol cur" using above[OF order_refl] assms(3) by simp
  have u: "cur = Some d \<or> (\<forall>l. \<not> settled obs1 a l)"
    using d(4) urltest_settled[OF _ a1 _ ok1, of _ V] False V(2) assms(2) len1 unfolding cand1 by metis
  note c = choose_settles[OF ok1 _ a1 _ _ _ u, unfolded cand1, of V, OF _ d(1) V(2) d(2)]
  have al: "a < length obs1" using assms(2) len1 by simp
  let ?o = "obs1[a := UrlTest t cs tol (Some d)]"
  have st: "settles obs1 a ?o (V d)" "settled ?o d (V d)" using c[OF al] by blast+
  have so: "same ?o obs1" using st(1) grows_same by (simp add: settles_def)
  have db: "d < length obs" "2 * d + 3 \<le> n" using b d(1) by blast+
  have "resolve n ?o d = (V d, ?o)"
    using settled_resolve[OF st(2) obs_ok_same[OF so ok1]] db len1 by simp
  then show ?thesis
    using d(3) grows_trans[OF V(1) _ assms(1)] st(1) above unfolding settles_def by simp
qed

lemma child_settles:
  assumes "settles obs c obs' l" "c < a" "obs_ok obs" "a < length obs" "\<And>obs'. same obs' obs \<Longrightarrow> obs' ! a = obs ! a \<Longrightarrow> settled obs' c l \<Longrightarrow> settled obs' a l"
  shows "settles obs a obs' l"
  using assms grows_same by (auto simp: settles_def)

lemma look_ups_settle:
  "(\<forall>obs a. obs_ok obs \<longrightarrow> a < length obs \<longrightarrow> 2 * a + 2 \<le> n \<longrightarrow> settles obs a (snd (resolve n obs a)) (fst (resolve n obs a))) \<and> gauge_ok n"
proof (induction n)
  case 0
  then show ?case by (simp add: gauge_ok_def)
next
  case (Suc n)
  then have res: "\<And>obs a. obs_ok obs \<Longrightarrow> a < length obs \<Longrightarrow> 2 * a + 2 \<le> n \<Longrightarrow> settles obs a (snd (resolve n obs a)) (fst (resolve n obs a))"
    and lat: "gauge_ok n" by blast+
  have leafs: "settles obs a obs a" if "is_leaf (obs ! a)" for obs a
    using that settled.leaf grows_refl by (simp add: settles_def)
  have R: "settles obs a (snd (resolve (Suc n) obs a)) (fst (resolve (Suc n) obs a))"
    if p: "obs_ok obs" "a < length obs" "2 * a + 2 \<le> Suc n" for obs a
  proof (cases "obs ! a")
    case (UrlTest t cs tol cur)
    show ?thesis by (rule urltest_settles[OF p(1,2) UrlTest _ lat]) (use p(3) in simp)
  next
    case (Fallback t cs)
    have ne: "cs \<noteq> []" using p(1,2) Fallback by (force simp: obs_ok_def)
    let ?c = "case find (healthy obs) cs of Some c \<Rightarrow> c | None \<Rightarrow> hd cs"
    have "?c \<in> set cs" using ne by (auto simp: find_Some_iff split: option.split)
    then have lt: "?c < a" "?c < length obs" using obs_okD[OF p(1,2), of ?c] Fallback by auto
    have kids: "\<forall>c \<in> set cs. c < length obs" using obs_okD(2)[OF p(1,2)] Fallback by simp
    have r: "resolve (Suc n) obs a = resolve n obs ?c"
      using find_child[OF p(1,2), of cs n] p(3) Fallback ne by (auto split: option.split)
    have "settles obs a (snd (resolve n obs ?c)) (fst (resolve n obs ?c))"
    proof (rule child_settles[OF res[OF p(1) lt(2)] lt(1) p(1,2)])
      show "2 * ?c + 2 \<le> n" using lt(1) p(3) by simp
      fix o' assume "same o' obs" "o' ! a = obs ! a" "settled o' ?c (fst (resolve n obs ?c))"
      then show "settled o' a (fst (resolve n obs ?c))"
        using settled.fallback[of o' a t cs "fst (resolve n obs ?c)"] first_same[of o' obs cs, OF _ p(1) kids] Fallback ne
        by (simp del: resolve.simps)
    qed
    then show ?thesis by (simp only: r)
  next
    case (Selector t cs sel)
    have "selected_child obs cs sel \<noteq> None" using p(1,2) Selector unfolding obs_ok_def by blast
    then obtain c where c: "selected_child obs cs sel = Some c" by blast
    have lt: "c < a" "c < length obs" using obs_okD[OF p(1,2), of c] selected_child_in[OF c] Selector by auto
    have kids: "\<forall>c \<in> set cs. c < length obs" using obs_okD(2)[OF p(1,2)] Selector by simp
    have r: "resolve (Suc n) obs a = resolve n obs c" using c Selector by simp
    have "settles obs a (snd (resolve n obs c)) (fst (resolve n obs c))"
    proof (rule child_settles[OF res[OF p(1) lt(2)] lt(1) p(1,2)])
      show "2 * c + 2 \<le> n" using lt(1) p(3) by simp
      fix o' assume "same o' obs" "o' ! a = obs ! a" "settled o' c (fst (resolve n obs c))"
      then show "settled o' a (fst (resolve n obs c))"
        using settled.selector[of o' a t cs sel c "fst (resolve n obs c)"] selected_child_same[of o' obs cs sel, OF _ kids] Selector c
        by (simp del: resolve.simps)
    qed
    then show ?thesis by (simp only: r)
  qed (use leafs resolve_is_leaf in simp_all)
  have "\<exists>l. settles obs a (snd (latency (Suc n) obs a)) l \<and> fst (latency (Suc n) obs a) = leaf_latency (snd (latency (Suc n) obs a)) l"
    if p: "obs_ok obs" "a < length obs" "2 * a + 3 \<le> Suc n" for obs a
  proof (cases "is_leaf (obs ! a)")
    case True
    then show ?thesis using leafs[OF True] latency_leaf[OF True, of n] by (auto simp: leaf_latency_def)
  next
    case False
    obtain l o1 where r: "resolve n obs a = (l, o1)" by fastforce
    have s: "settles obs a o1 l" using res[OF p(1,2)] p(3) r by simp
    then have so: "same o1 obs" using grows_same by (simp add: settles_def)
    note ok1 = obs_ok_same[OF so p(1)]
    have u: "looks_up o1 a l" using settled_looks_up[of o1 a l] s ok1 same_length[OF so] p(2) by (simp add: settles_def)
    have "leaf_latency o1 a = None"
      using False same_shape[OF so p(2)] by (cases "obs ! a"; cases "o1 ! a") (auto simp: leaf_latency_def)
    moreover have "latency n o1 l = (leaf_latency o1 l, o1)" if "l \<noteq> a"
      using u that p(3) by (simp add: looks_up_def)
    ultimately have "latency (Suc n) obs a = (leaf_latency o1 l, o1)" unfolding latency_group[OF False] r by simp
    then show ?thesis using s by auto
  qed
  then show ?case using R by (simp add: gauge_ok_def del: resolve.simps latency.simps)
qed

section \<open>Choosing twice\<close>

lemma look_up_settles:
  assumes "obs_ok obs" "a < length obs" "resolve_leaf obs a = (l, obs')"
  shows "settled obs' a l" "grows obs obs'" "obs_ok obs'" "length obs' = length obs"
proof -
  have "settles obs a obs' l"
    using look_ups_settle[of "2 * a + 2"] assms unfolding resolve_leaf_def by (metis fst_conv order_refl snd_conv)
  then show "settled obs' a l" "grows obs obs'" by (simp_all add: settles_def)
  then show "obs_ok obs'" "length obs' = length obs" using obs_ok_same assms(1) same_length grows_same by blast+
qed

lemma choosing_twice:
  assumes "obs_ok obs" "a < length obs" "resolve_leaf obs a = (l, obs')"
  shows "resolve_leaf obs' a = (l, obs')"
  using settled_resolve[OF look_up_settles(1,3)[OF assms] _ order_refl] look_up_settles(4)[OF assms] assms(2) by (simp add: resolve_leaf_def)

text \<open>The order of look-ups between two samples: any sequence of them.\<close>

definition look_ups :: "nat list \<Rightarrow> outb list \<Rightarrow> outb list" where
  "look_ups as obs = foldl (\<lambda>o' a. snd (resolve_leaf o' a)) obs as"

lemma look_ups_keep:
  "\<forall>b \<in> set as. b < length obs \<Longrightarrow> obs_ok obs \<Longrightarrow> settled obs a l \<Longrightarrow> a < length obs
    \<Longrightarrow> settled (look_ups as obs) a l \<and> obs_ok (look_ups as obs) \<and> length (look_ups as obs) = length obs"
proof (induction as arbitrary: obs)
  case (Cons b as)
  obtain m o1 where r: "resolve_leaf obs b = (m, o1)" by fastforce
  note s = look_up_settles[OF Cons.prems(2) _ r]
  have "settled o1 a l" using grows_settled[OF Cons.prems(3) s(2) Cons.prems(2,4)] Cons.prems(1) by simp
  then show ?case using Cons.IH[of o1] s Cons.prems(1,4) r by (simp add: look_ups_def)
qed (simp add: look_ups_def)

text \<open>C20: Choosing an outbound twice is choosing it once: between two samples, whatever other outbounds are looked up
  meanwhile, at any nesting and sharing of urltest, fallback and selector groups, looking it up again gives the same leaf and
  changes nothing; so no connection moves a group back and forth, and the leaf that is logged and shown is the one that
  is used.\<close>

theorem choosing_is_idempotent:
  assumes "obs_ok obs" "a < length obs" "resolve_leaf obs a = (l, obs')" "\<forall>b \<in> set as. b < length obs"
  shows "resolve_leaf (look_ups as obs') a = (l, look_ups as obs')"
proof -
  note s = look_up_settles[OF assms(1-3)]
  have "settled (look_ups as obs') a l \<and> obs_ok (look_ups as obs') \<and> length (look_ups as obs') = length obs'"
    using look_ups_keep[of as obs' a l] s assms(2,4) by simp
  then show ?thesis using settled_resolve[of _ a l "2 * a + 2"] s(4) assms(2) by (simp add: resolve_leaf_def)
qed

lemma sample_choice: "resolve_leaf sample_nodes 2 = (1, sample_nodes[2 := UrlTest (U ''u'') [0, 1] 40 (Some 1)])"
  by code_simp

theorem choosing_is_idempotent_witness:
  "resolve_leaf (look_ups [0, 2, 1] (sample_nodes[2 := UrlTest (U ''u'') [0, 1] 40 (Some 1)])) 2
    = (1, look_ups [0, 2, 1] (sample_nodes[2 := UrlTest (U ''u'') [0, 1] 40 (Some 1)]))"
  using choosing_is_idempotent[OF sample_nodes_facts(1) _ sample_choice, of "[0, 2, 1]"] sample_nodes_facts(3) by simp

end
