(* ===== verification/Inbound.thy ===== *)
theory Inbound
  imports Complex_Main Dispatch Conn_Pool Stable_Choice
begin

text \<open>
  A connection at the client from its first byte to its relay: the handlers of the listeners (\<open>handle_local_connection\<close> of
  client.py, the dispatching part of \<open>handle_http_connection\<close> and \<open>handle_mixed_connection\<close> of http_inbound.py), which
  read the request and hand the connection to the dispatcher, and what the chosen outbound then does with it (\<open>handle\<close>
  of the classes in outbound.py).  The requests are read by the code of \<open>Socks5\<close> and \<open>Http_Inbound\<close>, the relays that follow are
  those of \<open>Relay\<close>.
\<close>

section \<open>From the request to the dispatcher\<close>

text \<open>How a handler goes on: the outbound's \<open>handle\<close>, the UDP relay, closing, or an exception that leaves the handler.\<close>

datatype onward = GoTcp call | GoUdp udp_call | GoClose | GoRaise py_error

definition as_socks :: "conn_args \<Rightarrow> conn_args" where "as_socks a = a\<lparr> ca_inbound := U ''Socks5'' \<rparr>"
definition as_http :: "conn_args \<Rightarrow> conn_args" where "as_http a = a\<lparr> ca_inbound := U ''HTTP'' \<rparr>"

definition tcp_call :: "dns_env \<Rightarrow> rat \<Rightarrow> conn_args \<Rightarrow> pystr \<Rightarrow> int \<Rightarrow> client \<Rightarrow> onward \<times> client" where
  "tcp_call e now args host port c = map_prod GoTcp id (dispatch e now args host port None c)"

text \<open>\<open>handle_local_connection\<close> after the request, then as a whole over a reader \<open>rx\<close>.\<close>

definition on_socks_request ::
    "dns_env \<Rightarrow> rat \<Rightarrow> conn_args \<Rightarrow> py_error + (socks_cmd \<times> pystr \<times> nat) option \<Rightarrow> client \<Rightarrow> onward \<times> client" where
  "on_socks_request e now args r c =
     (case r of
        Inl x \<Rightarrow> (GoRaise x, c)
      | Inr None \<Rightarrow> (GoClose, c)
      | Inr (Some (cmd, host, port)) \<Rightarrow>
          if cmd = Tcp then tcp_call e now (as_socks args) host (int port) c
          else map_prod GoUdp id (dispatch_udp (as_socks args) c))"

definition handle_local ::
    "(nat \<Rightarrow> ('s, bytes) reading) \<Rightarrow> dns_env \<Rightarrow> rat \<Rightarrow> conn_args \<Rightarrow> 's \<times> bytes \<Rightarrow> client \<Rightarrow> onward \<times> ('s \<times> bytes) \<times> client" where
  "handle_local rx e now args conn c =
     (case parse_socks5_request rx conn of (r, conn') \<Rightarrow> (case on_socks_request e now args r c of (g, c') \<Rightarrow> (g, conn', c')))"

text \<open>The dispatching part of \<open>handle_http_connection\<close>: the reader an upstream gets starts with the rewritten head.\<close>

definition on_http_request ::
    "dns_env \<Rightarrow> rat \<Rightarrow> conn_args \<Rightarrow> (py_error + http_done) \<Rightarrow> client \<Rightarrow> onward \<times> bytes \<times> client" where
  "on_http_request e now args r c =
     (case r of
        Inl x \<Rightarrow> (GoRaise x, [], c)
      | Inr HttpClosed \<Rightarrow> (GoClose, [], c)
      | Inr (HttpConnect host port) \<Rightarrow> (case tcp_call e now (as_http args) host port c of (g, c') \<Rightarrow> (g, [], c'))
      | Inr (HttpForward host port head) \<Rightarrow> (case tcp_call e now (as_http args) host port c of (g, c') \<Rightarrow> (g, head, c')))"

text \<open>\<open>handle_mixed_connection\<close>: what is left to read (what has been put in front of it, then the reader), what was written.\<close>

definition handle_mixed_conn ::
    "(pystr \<Rightarrow> bool) \<Rightarrow> nat \<Rightarrow> dns_env \<Rightarrow> rat \<Rightarrow> conn_args \<Rightarrow> bytes list \<times> bytes \<Rightarrow> client
      \<Rightarrow> onward \<times> (bytes \<times> bytes) \<times> client" where
  "handle_mixed_conn netloc_ok limit e now args conn c =
     (case handle_mixed netloc_ok limit conn of
        (MixedClosed, out) \<Rightarrow> (GoClose, ([], out), c)
      | (MixedSocks (r, p, out), _) \<Rightarrow> (case on_socks_request e now args r c of (g, c') \<Rightarrow> (g, (pr_abs p, out), c'))
      | (MixedHttp (r, p, out), _) \<Rightarrow> (case on_http_request e now args r c of (g, head, c') \<Rightarrow> (g, (head @ pr_abs p, out), c')))"

section \<open>What the outbound does\<close>

text \<open>The relay that is started, with the tunnel and the bytes written to the server so far, or the local connection closed.\<close>

datatype served = PlainRelay pystr int | TunnelRelay tunnel bytes | LocalClosed

definition direct_handle :: "(pystr \<Rightarrow> int \<Rightarrow> bool) \<Rightarrow> pystr \<Rightarrow> int \<Rightarrow> served" where
  "direct_handle opens host port = (if opens host port then PlainRelay host port else LocalClosed)"

definition mirage_handle :: "aead \<Rightarrow> (nat \<Rightarrow> nat) \<Rightarrow> ready option \<Rightarrow> pystr \<Rightarrow> int \<Rightarrow> served" where
  "mirage_handle a d acquired host port =
     (case acquired of
        None \<Rightarrow> LocalClosed
      | Some r \<Rightarrow> (case pack_address host port of
            Inl e \<Rightarrow> LocalClosed
          | Inr pkt \<Rightarrow> (case send a d (rd_tunnel r) pkt of
                (Inl e, t, out) \<Rightarrow> LocalClosed
              | (Inr x, t, out) \<Rightarrow> TunnelRelay t out)))"

text \<open>\<open>acquired\<close>: what the pool of a leaf hands out.\<close>

definition serve_call :: "aead \<Rightarrow> (nat \<Rightarrow> nat) \<Rightarrow> (pystr \<Rightarrow> int \<Rightarrow> bool) \<Rightarrow> (nat \<Rightarrow> ready option) \<Rightarrow> call \<Rightarrow> served" where
  "serve_call a d opens acquired cl = (case cl of
       CallDirect host port \<Rightarrow> direct_handle opens host port
     | CallTunnel l host port \<Rightarrow> mirage_handle a d (acquired l) host port
     | CallClose \<Rightarrow> LocalClosed)"

section \<open>One request\<close>

text \<open>The outbound a host is routed to by the router in force.\<close>

definition routed_tag :: "dns_env \<Rightarrow> client \<Rightarrow> pystr \<Rightarrow> pystr" where
  "routed_tag e c host = fst (router_match (de_route e) (df_router (cl_fwd c)) host)"

lemma handle_after_choice:
  assumes "obs_ok obs" "a < length obs" "resolve_leaf obs a = (l, obs')"
  shows "handle_outbound obs' a host port = (leaf_call obs' l host port, obs')"
proof (cases "is_leaf (obs' ! a)")
  case True
  have "same obs' obs" using resolve_same[of "2 * a + 2" obs a] assms(3) by (simp add: resolve_leaf_def)
  then have "is_leaf (obs ! a)" using True same_facts(3) assms(2) by blast
  then show ?thesis using assms(3) True resolve_leaf_leaf by (auto simp: handle_outbound_def)
next
  case False
  have "leaf_call obs' a host port = CallClose" using False by (cases "obs' ! a") (simp_all add: leaf_call_def)
  then show ?thesis
    using False choosing_twice[OF assms] by (auto simp: handle_outbound_def)
qed

text \<open>What is known of a dispatched connection: its call, its record, and that nothing else has changed but the cache.\<close>

definition dispatched :: "pystr \<Rightarrow> conn_args \<Rightarrow> pystr \<Rightarrow> int \<Rightarrow> nat \<Rightarrow> nat \<Rightarrow> outb list \<Rightarrow> client \<Rightarrow> call \<Rightarrow> client \<Rightarrow> bool" where
  "dispatched kind args host port a l obs' c cl c' \<longleftrightarrow> cl = leaf_call obs' l host port \<and> df_obs (cl_fwd c') = obs'
     \<and> df_out (cl_fwd c') = df_out (cl_fwd c) \<and> df_router (cl_fwd c') = df_router (cl_fwd c)
     \<and> (\<exists>rule. cl_reg c' = map_option (reg_register (new_conn (args\<lparr> ca_inbound := kind \<rparr>)
          (conn_meta_of (args\<lparr> ca_inbound := kind \<rparr>) ''tcp'' kind host (show_int port) host) (chain_tags obs' l a) rule)) (cl_reg c))"

lemma dispatch_one:
  assumes "client_run e be c" "od_get (df_out (cl_fwd c)) (routed_tag e c host) = Some a"
    and "obs_ok (df_obs (cl_fwd c))" "a < length (df_obs (cl_fwd c))" "resolve_leaf (df_obs (cl_fwd c)) a = (l, obs')"
    and "dispatch e now (args\<lparr> ca_inbound := kind \<rparr>) host port None c = (cl, c')"
  shows "dispatched kind args host port a l obs' c cl c'"
proof -
  obtain t src f where d: "decide_action e now host (cl_fwd c) = ((t, src), f)" by (metis prod.exhaust)
  have f: "t = routed_tag e c host" "f = (cl_fwd c)\<lparr> df_routing := df_routing f \<rparr>"
    using decide_coherent(1,3)[OF client_run_coherent[OF assms(1)] d] by (simp_all add: routed_tag_def)
  have k: "df_out f = df_out (cl_fwd c)" "df_obs f = df_obs (cl_fwd c)" "df_router f = df_router (cl_fwd c)" by (subst f(2), simp)+
  have h: "handle_outbound obs' a host port = (leaf_call obs' l host port, obs')" by (rule handle_after_choice[OF assms(3-5)])
  have "dispatch e now (args\<lparr> ca_inbound := kind \<rparr>) host port None c = (leaf_call obs' l host port, c\<lparr> cl_fwd := f\<lparr> df_obs := obs' \<rparr>,
      cl_reg := map_option (reg_register (new_conn (args\<lparr> ca_inbound := kind \<rparr>)
          (conn_meta_of (args\<lparr> ca_inbound := kind \<rparr>) ''tcp'' kind host (show_int port) host) (chain_tags obs' l a) (split_rule src))) (cl_reg c) \<rparr>)"
    using assms(2) f(1) k assms(5) h by (simp add: dispatch_def route_key_def d given_def)
  then show ?thesis using assms(6) k unfolding dispatched_def by (intro conjI exI[of _ "split_rule src"]) auto
qed

text \<open>The two requests for a TCP connection, as the client sends them, with the reply.\<close>

definition tcp_request :: "bytes \<Rightarrow> pystr \<Rightarrow> int \<Rightarrow> bytes \<Rightarrow> pystr \<Rightarrow> bool" where
  "tcp_request w host port reply kind \<longleftrightarrow>
     (\<exists>methods addr p. w = socks_bytes methods 1 addr p \<and> length methods < 256 \<and> addr_ok addr host \<and> p < 65536 \<and> port = int p
        \<and> reply = [5, 0, 5, 0, 0, 1, 0, 0, 0, 0, 0, 0] \<and> kind = U ''Socks5'')
   \<or> (\<exists>m v hs p. w = request_line m (host @ [58] @ show_nat p) v @ header_bytes hs @ crlf
        \<and> request_ok m (host @ [58] @ show_nat p) v hs \<and> py_upper m = U ''CONNECT'' \<and> host_text host \<and> hd host \<noteq> 91
        \<and> 1 \<le> p \<and> p \<le> 65535 \<and> port = int p \<and> reply = B ''HTTP/1.1 200 Connection established'' @ crlf @ crlf \<and> kind = U ''HTTP'')"

lemma mixed_request:
  assumes "concat s = w @ rest" "tcp_request w host port reply kind" "8192 \<le> limit"
  shows "handle_mixed_conn netloc_ok limit e now args (s, []) c =
    (case dispatch e now (args\<lparr> ca_inbound := kind \<rparr>) host port None c of (cl, c') \<Rightarrow> (GoTcp cl, (rest, reply), c'))"
  using assms(2) unfolding tcp_request_def
proof (elim disjE exE conjE)
  fix methods addr p
  assume r: "w = socks_bytes methods 1 addr p" "length methods < 256" "addr_ok addr host" "p < 65536" "port = int p"
    "reply = [5, 0, 5, 0, 0, 1, 0, 0, 0, 0, 0, 0]" "kind = U ''Socks5''"
  have first: "pure_readexactly 1 (concat s) = (Inr [5], tl (concat s))" using assms(1) r(1) by (simp add: socks_bytes_def pure_readexactly_def)
  obtain r1 s1 where 1: "raw_readexactly 1 s = (r1, s1)" by fastforce
  then have "r1 = Inr [5]" "concat s1 = tl (concat s)" using simD[OF raw.rx_sim, of 1 s] first by auto
  moreover have "concat s = 5 # tl (concat s)" using assms(1) r(1) by (simp add: socks_bytes_def)
  ultimately have w: "[5] @ concat s1 = socks_bytes methods 1 addr p @ rest" using assms(1) r(1) by simp
  obtain x p1 out where 2: "parse_socks5_request pr_readexactly (new_prefixed s1 [5], []) = (x, p1, out)" by (metis prod.exhaust)
  have "x = Inr (Some (Tcp, host, p))" "pr_abs p1 = rest" "out = reply"
    using socks5_request_parsed[OF w r(2) _ r(3,4)] 2 r(6) by simp_all
  then show ?thesis
    using 1 2 \<open>r1 = Inr [5]\<close> r(5,7) by (simp add: handle_mixed_conn_def handle_mixed_def on_socks_request_def tcp_call_def as_socks_def map_prod_def split: prod.split)
next
  fix m v hs p
  assume r: "w = request_line m (host @ [58] @ show_nat p) v @ header_bytes hs @ crlf" "request_ok m (host @ [58] @ show_nat p) v hs"
    "py_upper m = U ''CONNECT''" "host_text host" "hd host \<noteq> 91" "1 \<le> p" "p \<le> 65535" "port = int p"
    "reply = B ''HTTP/1.1 200 Connection established'' @ crlf @ crlf" "kind = U ''HTTP''"
  have "concat s = request_line m (host @ [58] @ show_nat p) v @ header_bytes hs @ crlf @ rest" using assms(1) r(1) by simp
  then obtain q where "handle_mixed netloc_ok limit (s, []) = (MixedHttp (Inr (HttpConnect host (int p)), q, reply), [])" "pr_abs q = rest"
    using http_connect_served[OF _ r(2-7) assms(3), of s rest netloc_ok "[]"] r(9) by auto
  then show ?thesis
    using r(8,10) by (simp add: handle_mixed_conn_def on_http_request_def tcp_call_def as_http_def map_prod_def split: prod.split)
qed

section \<open>Properties\<close>


definition sample_entry :: client where
  "sample_entry = start_client (sample_fwd\<lparr> df_router := new_router (U ''u''), df_obs := sample_nodes, df_out := [(U ''u'', 2)],
     df_routing := Some (new_routing_cache 5 60) \<rparr>) True True (JObj []) []"

lemma sample_entry_run: "client_run sample_dns_env plain_build_env sample_entry"
  unfolding sample_entry_def by (rule client_run.start) (simp add: new_routing_cache_def)


end
