(* ===== verification/Spec2Isabelle.thy ===== *)
theory Spec2Isabelle
  imports Server Dispatch Geo_Download Config Admin Live_Views Relay Dns_Session Tls_Pump Udp_Session Health_Check Startup Mirage_Api Inbound
begin

text \<open>
  Verification of \<open>mirage\<close>, a proxy whose client and server hide an encrypted tunnel behind a TLS
  handshake with a camouflage site (Python, \<open>src/mirage\<close>).  Each theory is named below with the files it
  models; a definition has the name of its function, or a name built from it.

  \<^item> \<^bold>\<open>Ground.\<close>  \<open>Prelude\<close> (bytes, Python strings, exceptions as values, insertion-ordered dictionaries),
    \<open>Text\<close> (string methods, codecs, \<open>int()\<close>), \<open>IpAddr\<close> (\<open>ipaddress\<close>, \<open>inet_pton\<close>, \<open>is_ip_literal\<close>), \<open>Json\<close>,
    \<open>Streams\<close> (readers: the chunked \<open>StreamReader\<close>, the plain byte sequence it stands for, and the locale
    \<open>stream_reader\<close> whose clients cannot tell chunkings apart).
  \<^item> \<^bold>\<open>Wire formats.\<close>  \<open>Frames\<close> (address codec of utils.py, datagram frames of udp_relay.py),
    \<open>Hello_Auth\<close> (the token in the session id and the replay cache), \<open>Tls_Raw\<close> (the ClientHello builder),
    \<open>Sniffer\<close>, \<open>Socks5\<close>, \<open>Http_Inbound\<close>, \<open>Geo_Data\<close> (protobuf data files), \<open>Tunnel\<close> (records of tunnel.py).
  \<^item> \<^bold>\<open>Routing.\<close>  \<open>Bloom\<close>, \<open>Rules\<close>, \<open>Router_Build\<close> (router.py), \<open>Decision_Cache\<close>, \<open>Outbounds\<close> and
    \<open>Outbound_Build\<close> (outbound.py, group.py).
  \<^item> \<^bold>\<open>Client.\<close>  \<open>Conn_Pool\<close> (conn_pool.py), \<open>Dns_Upstream\<close> (the pipelining of dns/upstream.py),
    \<open>Dns_Session\<close> (the opening, loss and renewal of its tunnels), \<open>Dns_Forwarder\<close>, \<open>Tls_Pump\<close>
    (dns/tls_over_tunnel.py and the TLS session of geosite_cache.py), \<open>Udp_Relay\<close>, \<open>Registry\<close> (api/stats.py), \<open>Dispatch\<close> (client.py, reload.py), \<open>Time_Sync\<close>, \<open>Config\<close>, \<open>Geo_Download\<close>
    (geosite_cache.py), \<open>Relay\<close> (the byte relays of utils.py, outbound.py and server.py).
  \<^item> \<^bold>\<open>Management.\<close>  \<open>Api_Http\<close> (api/http_proto.py and the routing and authentication of api/router.py, api/server.py),
    \<open>Ws_Proto\<close>, \<open>Api_Server\<close> (the connection loop of api/server.py), \<open>Clash_Api\<close> (api/clash_endpoints.py), \<open>Admin\<close>
    (the server's page), \<open>Log_Files\<close> (levels, formats and rotation of utils.py), \<open>Live_Views\<close> (the log, traffic and
    connection streams of api/ws_endpoints.py).
  \<^item> \<^bold>\<open>Server.\<close>  \<open>Camouflage\<close> (camouflage.py, handshake_cache.py), \<open>Stats\<close>, \<open>Server\<close> (server.py, egress.py).

  \<^bold>\<open>How the parts meet.\<close>  A connection enters through \<open>Socks5\<close> or \<open>Http_Inbound\<close>; \<open>Sniffer\<close> may find its
  host; \<open>Dispatch\<close> asks the routing cache, then the router, for an outbound tag, resolves groups to a leaf
  and, for a server leaf, takes a tunnel from \<open>Conn_Pool\<close> and sends the packed address as the first message.
  The pool built that tunnel by sending a \<open>Tls_Raw\<close> hello that carries a \<open>Hello_Auth\<close> token.  On the other side
  \<open>Camouflage\<close> reads the hello, decides, and \<open>Server\<close> opens the tunnel, reads the address and dials.  The
  theorem of this theory composes the two sides.

  \<^bold>\<open>Modelling.\<close>  Code between two \<open>await\<close>s is one function from state to state; a component whose tasks
  interleave is an inductive run over such steps (\<open>pool_reach\<close>, \<open>server_run\<close>, \<open>client_run\<close>, the DNS pipe,
  \<open>dns_reach\<close>, \<open>conn_run\<close> of the relays, \<open>tls_run\<close>, \<open>panel_run\<close> of the live views, \<open>outb_step\<close>), and its invariants are proved by rule induction.  Exceptions are the left side of a sum.
  Shared Python objects are entries of a table (outbounds under their address, connections under their id),
  so that aliasing is a shared key.  Times are rationals or integers given to the operation; random draws are
  arguments.  Cryptography, Python's string hash, the regular-expression engine, name resolution, and what
  the network delivers are parameters, with their documented behaviour as hypotheses (\<open>crypto_ok\<close>,
  \<open>aead_ok\<close>); each such property has a witness on concrete functions.

  \<^bold>\<open>Interfaces.\<close>  \<open>stream_reader\<close> (interpreted by the raw, the pure and the prefixed reader),
  \<open>crlf_reader\<close>, \<open>body_reader\<close>, \<open>expiring_lru\<close> (interpreted by both caches), \<open>sink\<close> and \<open>two_sinks\<close> (what a
  relay writes to, interpreted by a socket's writer and by a tunnel) and the other locales state what a client relies
  on; the facts of clients are proved once under them.

  \<^bold>\<open>What the lemmas show.\<close>  Round trips of every codec under every cutting of the stream; a token is
  accepted exactly within the clock tolerance and at most once, and the refused client sees the same flight; the
  tunnel delivers what was sent; the router answers by its first matching rule and each optimised table
  (Bloom filter, suffix walk, binary search, regex literal) equals its plain definition; caches answer only
  what the router said; DNS answers match their query, and a
  resolver's queries share one live tunnel, opened by one of them at a time; TLS inside a tunnel loses no byte; the pool, the slots and the statistics keep exact
  accounts; a request of the client reaches the dial of the server, and the relays carry both streams whole and in
  order.  Synchronised clocks make tokens acceptable; the data files are replaced whole or not at all; a loaded
  configuration is consistent and normalising it again changes nothing; without the secret no endpoint of the API
  runs, no request of another origin changes the block list, and what the API shows hides the secrets; a log view shows
  the recent records in order, and the rotated log files are the history of what was written.

  \<^bold>\<open>Fuel.\<close>  Selection through groups runs with fuel \<open>2 * a + 2\<close> at address \<open>a\<close>; children have smaller
  addresses than their group, so it never runs out (\<open>resolve_fuel\<close>).  \<open>drain_tail\<close> takes the number of
  records read before the timeout.  \<open>dechunk_loop\<close> is partial, as the code's loop can spin; it returns on every
  body without a negative size (\<open>dechunk_returns\<close>).  The loops around the TLS engine are partial too, since an engine
  could ask for ever to write; a send returns when the engine takes part of what it is offered (\<open>tls_send_returns\<close>).  \<open>handle_conn\<close> and \<open>read_loop\<close> take fuel; the number of
  bytes received is enough (\<open>api_connection_ends\<close>).  Every other recursion has a termination proof.

  \<^bold>\<open>Not modelled.\<close>  Sockets and their options, the TLS library itself (an engine that is a parameter), process start-up and signals; the HTML
  of the administration page; non-ASCII case mapping.
\<close>

section \<open>From the pool to the dial\<close>


lemma fake_tail_drained:
  assumes "build_fake_client_tail body = Inr ctail" "length body \<le> max_record" "2 \<le> k"
  shows "drain_tail pure_readexactly k False (ctail @ rest) = rest"
proof -
  have m: "length body < 65536" using assms(2) by (simp add: max_record_def)
  have c: "ctail = tls_record [0x14, 3, 3] [1] @ tls_record [0x17, 3, 3] body"
    using assms(1) m by (auto simp: build_fake_client_tail_def bindE_Inr_iff tls_record_def eval_be)
  obtain j where k: "k = Suc (Suc j)" using assms(3) by (metis add_2_eq_Suc le_Suc_ex)
  show ?thesis
    using read_tls_record_pure[of "[1]" max_record "[0x14, 3, 3]" "tls_record [0x17, 3, 3] body @ rest"]
      read_tls_record_pure[OF assms(2) m, of "[0x17, 3, 3]" rest]
    by (simp add: c k max_record_def)
qed

lemma send_small:
  assumes "send a d t m = (Inr x, t', out)" "m \<noteq> []" "length m \<le> 4096"
  shows "seal a t (m @ [0x17]) = (Inr out, t')"
proof -
  have n: "length m \<le> next_record_size (d (send_nonce t))" using assms(3) by (simp add: next_record_size_def)
  obtain rec t1 out1 where s: "seal a t (take (next_record_size (d (send_nonce t))) m @ [0x17]) = (Inr rec, t1)"
    "send a d t1 (drop (next_record_size (d (send_nonce t))) m) = (Inr x, t', out1)" "out = rec @ out1"
    by (rule send_step[OF assms(1,2)])
  have "t' = t1 \<and> out1 = []" using s(2) n by (simp add: send.simps)
  then show ?thesis using s(1,3) n by simp
qed

lemma built_tunnel:
  assumes "build_one_inner cr a pw sni dr arrived = Inr (hello, ctail, t, rest)"
  obtains token where "make_session_token cr pw (bd_now dr) (bd_prefix dr) = Inr token"
    "build_client_hello (bd_profile dr) (bd_eph dr) (bd_random dr) sni token = Inr (hello, bd_random dr)"
    "build_fake_client_tail (bd_tail dr) = Inr ctail"
    "handshake_as_initiator cr a pw (bd_random dr) new_tunnel = Inr t"
proof -
  obtain token where tok: "make_session_token cr pw (bd_now dr) (bd_prefix dr) = Inr token"
    using assms by (auto simp: build_one_inner_def bindE_Inr_iff)
  obtain h r where b: "build_client_hello (bd_profile dr) (bd_eph dr) (bd_random dr) sni token = Inr (h, r)"
    using assms tok by (auto simp: build_one_inner_def bindE_Inr_iff)
  have r: "r = bd_random dr" using b by (auto simp: build_client_hello_def bindE_Inr_iff split: if_splits)
  obtain x rest' where s: "read_server_handshake arrived = (Inr x, rest')"
    using assms tok b by (cases "read_server_handshake arrived") (auto simp: build_one_inner_def split: sum.splits)
  show thesis using that[OF tok] assms tok b r s by (auto simp: build_one_inner_def bindE_Inr_iff)
qed

lemma address_packed: "pack_address host port = Inr bs \<Longrightarrow> unpack_address bs = Inr (host, port, length bs) \<and> length bs \<le> 258"
  using unpack_pack_address[of host port bs "[]"] by (auto simp: pack_address_Inr_iff)

lemma packed_first_byte:
  assumes "pack_address host port = Inr pkt" "host \<noteq> []"
  shows "pkt \<noteq> [] \<and> pkt ! 0 \<noteq> 0"
proof -
  obtain hb where hb: "utf8_encode host = Inr hb" "length hb < 256" "pkt = of_nat (length hb) # hb @ to_be 2 (nat port)"
    using assms(1) by (auto simp: pack_address_Inr_iff)
  have "hb \<noteq> []" using utf8_decode_encode[OF hb(1)] assms(2) by (auto simp: utf8_decode_def)
  moreover have "unat (of_nat (length hb) :: byte) = length hb" using hb(2) by (simp add: unat_of_nat)
  ultimately show ?thesis using hb(3) by force
qed

text \<open>The hello the pool wrote is accepted, and the reader stands behind the client's fake Finished.\<close>

lemma hello_accepted:
  assumes tok: "make_session_token cr pw (bd_now dr) (bd_prefix dr) = Inr token"
    "build_client_hello (bd_profile dr) (bd_eph dr) crnd sni token = Inr (hello, crnd)"
    "build_fake_client_tail (bd_tail dr) = Inr ctail"
    and draws: "length (bd_prefix dr) = 8" "profile_ok (bd_profile dr)" "length crnd = 32" "length (bd_tail dr) \<le> max_record"
    and wire: "concat s = hello @ ctail @ rest" "length hello \<le> max_record + 5" and cr: "crypto_ok cr"
    and server: "\<bar>de_now de - bd_now dr\<bar> \<le> timestamp_tolerance" "hc_pool hc \<noteq> []" "de_drain_ok de" "2 \<le> de_tail de"
      "rc = new_replay_cache m"
  shows "\<exists>dc. server_read_hello_and_decide raw_readexactly rd cr pw de hc rc (s, []) = Inr dc
    \<and> dc_accepted dc = Some crnd \<and> concat (fst (dc_conn dc)) = rest"
proof -
  have f: "extract_session_id hello = Some token" "extract_client_random hello = Some crnd" "length token = 32"
    using build_client_hello_fields[OF draws(2,3) tok(2)] by auto
  obtain r1 s1 where read: "read_tls_record raw_readexactly max_record s = (r1, s1)" by fastforce
  have s1: "r1 = Inr (0x16, hello)" "concat s1 = ctail @ rest"
    using simD[OF raw.read_tls_record_sim, of max_record s] built_hello_reads_back[OF draws(2) tok(2) wire(2), of "ctail @ rest"]
      wire(1) read by simp_all
  have v: "verify_session_token cr pw (de_now de) token = Inr True"
    using verify_make_token[OF cr draws(1) tok(1)] server(1) by simp
  have "fst (check_and_mark rc (de_now de) token)"
    by (simp add: server(5) check_and_mark_def new_replay_cache_def evict_stale_def seen_from_iff bucket_get_def Let_def)
  then obtain rc' where mark: "check_and_mark rc (de_now de) token = (True, rc')"
    by (metis (full_types) prod.collapse)
  have read1: "fst (read_tls_record raw_readexactly max_record s) = Inr (0x16, hello)" by (simp add: read s1)
  have "concat (drain_tail raw_readexactly (de_tail de) False s1) = rest"
    using raw.drain_tail_sim[of "de_tail de" False s1] fake_tail_drained[OF tok(3) draws(4) server(4), of rest] s1(2)
    by simp
  then show ?thesis
    using decide_step[OF read1 f(1,3,2) server(2) v, of rd rc "[]"] server(3) mark by (auto simp: read Let_def)
qed

text \<open>The first message is the packed address: it is opened, registered and dialled.\<close>

lemma first_message_dials:
  assumes keys: "handshake_as_initiator cr a pw crnd new_tunnel = Inr t" "handshake_as_responder cr a pw crnd new_tunnel = Inr u"
    and sent: "pack_address host port = Inr pkt" "host \<noteq> []" "send a d t pkt = (Inr x, t', out)"
    and ok: "aead_ok a" "se_aead env = a" "build_egresses probe cfg = Inr (se_egresses env)" "concat s = out @ later"
  shows "\<exists>i eg c. od_get (sv_live (on_first env now raw_readexactly k ip u (Some s) sv)) k = Some (ip, Dialing i eg)
    \<and> od_get (st_active (sv_stats (on_first env now raw_readexactly k ip u (Some s) sv))) i = Some c
    \<and> cn_client c = ip \<and> cn_host c = host \<and> cn_port c = port"
proof -
  have pkt: "pkt \<noteq> []" "pkt ! 0 \<noteq> 0" "length pkt \<le> 258" "unpack_address pkt = Inr (host, port, length pkt)"
    using packed_first_byte[OF sent(1,2)] address_packed[OF sent(1)] by auto
  have "seal a t (pkt @ [0x17]) = (Inr out, t')" by (rule send_small[OF sent(3) pkt(1)]) (use pkt(3) in simp)
  then have "recv a pure_readexactly u (out @ later) = (Inr pkt, u\<lparr> recv_nonce := recv_nonce u + 1 \<rparr>, later)"
    using recv_sealed(1)[OF ok(1) handshake_paired(1)[OF keys], of "pkt @ [0x17]" out t' later] by simp
  then have recv: "fst (recv a raw_readexactly u s) = Inr pkt" using raw.recv_sim[of a u s] ok(4)
    by (cases "recv a raw_readexactly u s") auto
  obtain c st where reg: "register now ip host port (Some k) (sv_stats sv) = (c, st)" by fastforce
  have "\<exists>eg. choose_egress env host = Inr eg"
    using built_egresses(1)[OF ok(3)] by (auto simp: choose_egress_def split: option.split)
  then obtain eg where eg: "choose_egress env host = Inr eg" by blast
  have "on_first env now raw_readexactly k ip u (Some s) sv = stage_to k ip (Dialing (cn_id c) eg) (sv\<lparr> sv_stats := st \<rparr>)"
    using recv pkt ok(2) reg eg by (simp add: on_first_def)
  moreover have "od_get (st_active st) (cn_id c) = Some c \<and> cn_client c = ip \<and> cn_host c = host \<and> cn_port c = port"
    using reg by (auto simp: register_def touch_conn_def Let_def)
  ultimately show ?thesis by (simp add: stage_to_def)
qed


definition sample_draws :: build_draws where
  "sample_draws = \<lparr> bd_now = 1000, bd_prefix = replicate 8 1, bd_profile = Firefox, bd_eph = replicate 32 5,
     bd_random = replicate 32 7, bd_tail = [1, 2] \<rparr>"

lemma sample_packet: "pack_address (U ''h'') 80 = Inr [1, 104, 0, 80]"
  by (simp add: pack_address_def pack_port_def U_def utf8_cp_def pack_be_def eval_be)

lemma sample_sent:
  "\<exists>t' out. send zero_aead (\<lambda>n. 0) sample_tunnel [1, 104, 0, 80] = (Inr (), t', out)"
  using send_total_aux[OF zero_aead_ok, of sample_tunnel "[1, 104, 0, 80]" "\<lambda>n. 0"]
  by (cases "send zero_aead (\<lambda>n. 0) sample_tunnel [1, 104, 0, 80]") (simp add: sample_tunnel_def)

lemma sample_built_inner:
  "\<exists>hello ctail rest. length hello \<le> 700 \<and> build_one_inner zero_crypto zero_aead (U ''p'') (U ''a.B'') sample_draws sample_arrivals
     = Inr (hello, ctail, sample_tunnel, rest)"
proof -
  obtain r where r: "build_client_hello Firefox (replicate 32 5) (replicate 32 7) (U ''a.B'') zero_token = Inr (r, replicate 32 7)"
    "length r \<le> 700" using sample_build[of zero_token] by (auto simp: zero_token_def)
  have "handshake_as_initiator zero_crypto zero_aead (U ''p'') (replicate 32 7) new_tunnel = Inr sample_tunnel"
    using sample_handshake(1) by (simp add: handshake_as_initiator_def derive_master_def zero_aead_def)
  moreover have "fst (read_server_handshake sample_arrivals) = Inr ()"
    using read_flight_calm[of sample_arrivals "[(0x16, [7]), (0x14, [1]), (0x17, [8, 9])]" False False False]
    by (auto simp: read_server_handshake_def sample_arrivals_def calm_def ar_bytes_def record_bytes_def tls_record_def
        eval_be alerted_def)
  moreover obtain ctail where "build_fake_client_tail [1, 2] = Inr ctail"
    by (simp add: build_fake_client_tail_def eval_be pack_be_def)
  ultimately show ?thesis using r zero_token_made
    by (cases "read_server_handshake sample_arrivals") (auto simp: build_one_inner_def sample_draws_def)
qed


text \<open>A SOCKS5 request may name an empty host; its packed address starts with the zero byte that the server takes for
  the start of a UDP association.\<close>

theorem empty_host_becomes_udp:
  assumes "pack_address [] port = Inr pkt" "fst (recv (se_aead env) rx t s) = Inr pkt" "register now ip (U ''udp'') 0 (Some k) (sv_stats sv) = (c, st)"
  shows "addr_ok (AName []) [] \<and> on_first env now rx k ip t (Some s) sv = stage_to k ip (Relaying (cn_id c)) (sv\<lparr> sv_stats := st \<rparr>)"
proof -
  have "pkt \<noteq> [] \<and> pkt ! 0 = 0" using assms(1) by (auto simp: pack_address_Inr_iff)
  then show ?thesis using assms(2,3) by (simp add: on_first_def utf8_decode_def)
qed

end
